(* ===== verification/Kv_Prelude.thy ===== *)
theory Kv_Prelude
  imports Main "HOL-Library.Word" "HOL-Library.Char_ord" "HOL-Library.List_Lexorder"
begin

unbundle bit_operations_syntax

section \<open>Shared types, hint collections and generic lemmas\<close>

text \<open>
  The types every component shares (byte strings, machine words), the named collections the
  component theories fill and use, and the facts on lists, characters and words that more than
  one component needs. Nothing here models a particular source file; the two exceptions are
  \<open>to_lower\<close>, the \<^verbatim>\<open>std::tolower\<close> loop that several files repeat, and the fixed-width conversions.
\<close>

subsection \<open>Types\<close>

text \<open>\<open>std::string\<close> and \<open>std::string_view\<close> hold bytes; a HOL \<open>char\<close> is one byte.\<close>

type_synonym bytes = string
type_synonym u8 = "8 word"
type_synonym u16 = "16 word"
type_synonym u32 = "32 word"
type_synonym u64 = "64 word"

abbreviation byte_val :: "char \<Rightarrow> nat" where
  "byte_val c \<equiv> of_char c"

text \<open>The range of \<open>std::int64_t\<close>. Signed values are integers, and every operation that could leave
  this range says what happens then.\<close>

definition i64_min :: int where
  "i64_min = - (2 ^ 63)"

definition i64_max :: int where
  "i64_max = 2 ^ 63 - 1"

definition in_i64 :: "int \<Rightarrow> bool" where
  "in_i64 v \<longleftrightarrow> i64_min \<le> v \<and> v \<le> i64_max"

text \<open>\<open>static_cast<std::uint64_t>\<close> of a signed value, and back (two's complement).\<close>

definition u64_of_i64 :: "int \<Rightarrow> u64" where
  "u64_of_i64 v = word_of_int v"

definition i64_of_u64 :: "u64 \<Rightarrow> int" where
  "i64_of_u64 w = sint w"

subsection \<open>Hint collections\<close>

named_theorems kv_defs \<open>definitions of the components' operations\<close>
named_theorems kv_inv \<open>facts that an operation preserves a component's invariant\<close>
named_theorems kv_abs \<open>facts that give an operation's effect on the abstract state\<close>

subsection \<open>Lower-casing\<close>

text \<open>\<open>std::tolower\<close> in the C locale: the 26 ASCII capitals move, everything else stays.\<close>

definition to_lower_char :: "char \<Rightarrow> char" where
  "to_lower_char c = (if 65 \<le> byte_val c \<and> byte_val c \<le> 90 then char_of (byte_val c + 32) else c)"

definition to_lower :: "bytes \<Rightarrow> bytes" where
  "to_lower s = map to_lower_char s"

lemma byte_val_less [simp]: "byte_val c < 256"
  by (simp add: of_char_def)

lemma byte_val_inject: "byte_val c = byte_val d \<longleftrightarrow> c = d"
  by (rule of_char_eq_iff)

lemma to_lower_char_idem [simp]: "to_lower_char (to_lower_char c) = to_lower_char c"
  by (auto simp: to_lower_char_def)

lemma to_lower_idem [simp]: "to_lower (to_lower s) = to_lower s"
  by (simp add: to_lower_def)

lemma length_to_lower [simp]: "length (to_lower s) = length s"
  by (simp add: to_lower_def)

subsection \<open>Characters used by the protocol\<close>

definition CR :: char where "CR = CHR 0x0D"
definition LF :: char where "LF = CHR 0x0A"

definition CRLF :: bytes where "CRLF = [CR, LF]"

lemma CR_neq_LF [simp]: "CR \<noteq> LF" "LF \<noteq> CR"
  by (auto simp: CR_def LF_def)

lemma length_CRLF [simp]: "length CRLF = 2"
  by (simp add: CRLF_def)

subsection \<open>Generic lemmas on integers and lists\<close>

lemma in_i64_iff: "in_i64 v \<longleftrightarrow> - (2 ^ 63) \<le> v \<and> v < 2 ^ 63"
  by (auto simp: in_i64_def i64_min_def i64_max_def)

lemma in_i64_of_nat: "n < 2 ^ 63 \<Longrightarrow> in_i64 (int n)"
  by (simp add: in_i64_iff)

lemma in_i64_0 [simp]: "in_i64 0" and in_i64_1 [simp]: "in_i64 1" and in_i64_m1 [simp]: "in_i64 (- 1)"
  by (simp_all add: in_i64_iff)

lemma u64_of_i64_nonneg: "0 \<le> v \<Longrightarrow> v < 2 ^ 63 \<Longrightarrow> unat (u64_of_i64 v) = nat v"
  by (simp add: u64_of_i64_def unat_eq_nat_uint uint_word_of_int take_bit_eq_mod)

lemma i64_u64_round: "in_i64 v \<Longrightarrow> i64_of_u64 (u64_of_i64 v) = v"
  by (simp add: i64_of_u64_def u64_of_i64_def sint_sbintrunc' signed_take_bit_int_eq_self_iff in_i64_iff)

lemma length_filter_upt: "length (filter P [0..<n]) = card {i. i < n \<and> P i}"
proof -
  have "length (filter P [0..<n]) = card (set (filter P [0..<n]))"
    by (rule distinct_card [symmetric]) simp
  also have "set (filter P [0..<n]) = {i. i < n \<and> P i}" by auto
  finally show ?thesis .
qed

lemma distinct_map_fst_unique:
  "distinct (map fst xs) \<Longrightarrow> (k, v) \<in> set xs \<Longrightarrow> (k, w) \<in> set xs \<Longrightarrow> v = w"
  by (meson eq_key_imp_eq_value)

end
