(* ===== verification/Wy_Hash.thy ===== *)
theory Wy_Hash
  imports Kv_Prelude "HOL-Library.Monad_Syntax"
begin

section \<open>The key hash (\<^verbatim>\<open>include/blazekv/hash.hpp\<close>)\<close>

text \<open>
  The wyhash-style 64-bit hash that places keys in tables and routes them to shards. Every memory
  read of the source is a read that checks its bounds and gives \<open>None\<close> outside the key, so that
  memory safety is a theorem (\<open>hash_reads_in_bounds\<close>) and not an assumption. Multi-byte loads
  are little-endian, as on the targets the project builds for.
\<close>

subsection \<open>Loads\<close>

definition byte_at :: "bytes \<Rightarrow> nat \<Rightarrow> u64 option" where
  "byte_at s i = (if i < length s then Some (word_of_nat (byte_val (s ! i))) else None)"

text \<open>\<open>std::memcpy\<close> of \<open>n\<close> bytes into an integer.\<close>

fun load_le :: "bytes \<Rightarrow> nat \<Rightarrow> nat \<Rightarrow> u64 option" where
  "load_le s off 0 = Some 0"
| "load_le s off (Suc n) = do {
     lo \<leftarrow> byte_at s off;
     hi \<leftarrow> load_le s (Suc off) n;
     Some (lo OR push_bit 8 hi)
   }"

definition wy_read8 :: "bytes \<Rightarrow> nat \<Rightarrow> u64 option" where
  "wy_read8 s p = load_le s p 8"

definition wy_read4 :: "bytes \<Rightarrow> nat \<Rightarrow> u64 option" where
  "wy_read4 s p = load_le s p 4"

definition wy_read3 :: "bytes \<Rightarrow> nat \<Rightarrow> nat \<Rightarrow> u64 option" where
  "wy_read3 s p k = do {
     b0 \<leftarrow> byte_at s p;
     b1 \<leftarrow> byte_at s (p + k div 2);
     b2 \<leftarrow> byte_at s (p + k - 1);
     Some (push_bit 16 b0 OR push_bit 8 b1 OR b2)
   }"

subsection \<open>Mixing\<close>

text \<open>\<open>wy_mum(&a, &b)\<close> leaves the low half of the 128-bit product in \<open>a\<close> and the high half in \<open>b\<close>.\<close>

definition wy_mum :: "u64 \<Rightarrow> u64 \<Rightarrow> u64 \<times> u64" where
  "wy_mum a b = (let r = (ucast a :: 128 word) * ucast b in (ucast r, ucast (drop_bit 64 r)))"

definition wy_mix :: "u64 \<Rightarrow> u64 \<Rightarrow> u64" where
  "wy_mix a b = (let (a', b') = wy_mum a b in a' XOR b')"

definition kWySeed :: u64 where "kWySeed = 0x9E3779B97F4A7C15"
definition wy_s0 :: u64 where "wy_s0 = 0xa0761d6478bd642f"
definition wy_s1 :: u64 where "wy_s1 = 0xe7037ed1a0b428db"
definition wy_s2 :: u64 where "wy_s2 = 0x8ebc6af09c88c6e3"

subsection \<open>The hash\<close>

text \<open>The loop over 16-byte blocks: \<open>q\<close> is the read position, \<open>i\<close> the bytes that remain.\<close>

fun hash_blocks :: "bytes \<Rightarrow> nat \<Rightarrow> nat \<Rightarrow> u64 \<Rightarrow> (nat \<times> nat \<times> u64) option" where
  "hash_blocks s q i seed =
     (if i > 16 then do {
        x \<leftarrow> wy_read8 s q;
        y \<leftarrow> wy_read8 s (q + 8);
        hash_blocks s (q + 16) (i - 16) (wy_mix (x XOR wy_s1) (y XOR seed))
      } else Some (q, i, seed))"

declare hash_blocks.simps [simp del]

text \<open>The choice of the two words \<open>a\<close> and \<open>b\<close> and the seed, by the key's length. In the last case
  \<open>q + i - 16\<close> steps back into the block already consumed; the natural number is the pointer
  difference of the source because \<open>len > 16\<close> makes \<open>q + i \<ge> 16\<close>.\<close>

definition hash_words :: "bytes \<Rightarrow> u64 \<Rightarrow> (u64 \<times> u64 \<times> u64) option" where
  "hash_words key seed = (let len = length key in
     if len \<le> 16 then
       if len \<ge> 4 then do {
         let step = push_bit 2 (drop_bit 3 len);
         a1 \<leftarrow> wy_read4 key 0;
         a2 \<leftarrow> wy_read4 key step;
         b1 \<leftarrow> wy_read4 key (len - 4);
         b2 \<leftarrow> wy_read4 key (len - 4 - step);
         Some (push_bit 32 a1 OR a2, push_bit 32 b1 OR b2, seed)
       }
       else if len > 0 then do {
         a \<leftarrow> wy_read3 key 0 len;
         Some (a, 0, seed)
       }
       else Some (0, 0, seed)
     else do {
       (q, i, sd) \<leftarrow> hash_blocks key 0 len seed;
       a \<leftarrow> wy_read8 key (q + i - 16);
       b \<leftarrow> wy_read8 key (q + i - 8);
       Some (a, b, sd XOR seed)
     })"

definition hash_bytes_checked :: "bytes \<Rightarrow> u64 \<Rightarrow> u64 option" where
  "hash_bytes_checked key seed0 = do {
     (a, b, seed) \<leftarrow> hash_words key (seed0 XOR wy_s0);
     let (a, b) = wy_mum (a XOR wy_s1) (b XOR seed);
     Some (wy_mix (a XOR wy_s0 XOR word_of_nat (length key)) (b XOR wy_s2))
   }"

definition hash_bytes_seeded :: "bytes \<Rightarrow> u64 \<Rightarrow> u64" where
  "hash_bytes_seeded key seed = (case hash_bytes_checked key seed of Some h \<Rightarrow> h | None \<Rightarrow> 0)"

definition hash_bytes :: "bytes \<Rightarrow> u64" where
  "hash_bytes key = hash_bytes_seeded key kWySeed"

text \<open>\<open>Server::shard_for\<close> (\<^verbatim>\<open>include/blazekv/server.hpp\<close>): the 64-bit remainder, cast to \<open>unsigned\<close>.\<close>

definition shard_for :: "nat \<Rightarrow> bytes \<Rightarrow> nat" where
  "shard_for n key = unat (ucast (hash_bytes key mod word_of_nat n) :: u32)"

subsection \<open>Lemmas\<close>

lemma byte_at_Some [simp]: "i < length s \<Longrightarrow> byte_at s i = Some (word_of_nat (byte_val (s ! i)))"
  by (simp add: byte_at_def)

lemma load_le_Some: "off + n \<le> length s \<Longrightarrow> \<exists>v. load_le s off n = Some v"
proof (induction n arbitrary: off)
  case (Suc n)
  then have "\<exists>v. load_le s (Suc off) n = Some v" by simp
  with Suc.prems show ?case by auto
qed simp

lemma wy_read8_Some: "p + 8 \<le> length s \<Longrightarrow> \<exists>v. wy_read8 s p = Some v"
  by (simp add: wy_read8_def load_le_Some)

lemma wy_read4_Some: "p + 4 \<le> length s \<Longrightarrow> \<exists>v. wy_read4 s p = Some v"
  by (simp add: wy_read4_def load_le_Some)

lemma wy_read3_Some: "p + k \<le> length s \<Longrightarrow> 0 < k \<Longrightarrow> \<exists>v. wy_read3 s p k = Some v"
  by (auto simp: wy_read3_def)

text \<open>The block loop stays inside the key and ends with between 1 and 16 bytes unread.\<close>

lemma hash_blocks_Some:
  assumes "q + i = length s" and "0 < i"
  shows "\<exists>q' i' sd. hash_blocks s q i seed = Some (q', i', sd) \<and> q' + i' = length s"
  using assms
proof (induction s q i seed rule: hash_blocks.induct)
  case (1 s q i seed)
  show ?case
  proof (cases "i > 16")
    case True
    obtain x where x: "wy_read8 s q = Some x"
      using wy_read8_Some [of q s] "1.prems" True by auto
    obtain y where y: "wy_read8 s (q + 8) = Some y"
      using wy_read8_Some [of "q + 8" s] "1.prems" True by auto
    from "1.IH" [OF True x y] "1.prems" True x y show ?thesis
      by (subst hash_blocks.simps) simp
  next
    case False
    with "1.prems" show ?thesis by (simp add: hash_blocks.simps [of s q i seed])
  qed
qed

lemma hash_words_Some: "\<exists>w. hash_words key seed = Some w"
proof -
  let ?n = "length key"
  consider "?n = 0" | "0 < ?n" "?n < 4" | "4 \<le> ?n" "?n \<le> 16" | "?n > 16" by linarith
  then show ?thesis
  proof cases
    case 3
    define st where "st = push_bit 2 (drop_bit 3 ?n)"
    have st: "st = 4 * (?n div 8)" by (simp add: st_def push_bit_eq_mult drop_bit_eq_div)
    moreover have "4 * (?n div 8) + 4 \<le> ?n" using 3 by presburger
    ultimately have b: "st + 4 \<le> ?n" "?n - 4 - st + 4 \<le> ?n" using 3 by auto
    obtain a1 a2 b1 b2 where "wy_read4 key 0 = Some a1" "wy_read4 key st = Some a2"
      "wy_read4 key (?n - 4) = Some b1" "wy_read4 key (?n - 4 - st) = Some b2"
      using wy_read4_Some [of 0 key] wy_read4_Some [of st key] wy_read4_Some [of "?n - 4" key]
        wy_read4_Some [of "?n - 4 - st" key] 3 b by auto
    with 3 show ?thesis by (simp add: hash_words_def Let_def st_def)
  next
    case 4
    have "0 < ?n" using 4 by linarith
    with hash_blocks_Some [of 0 ?n key seed] obtain q i sd where
      hb: "hash_blocks key 0 ?n seed = Some (q, i, sd)" and qi: "q + i = ?n" by auto
    obtain a b where "wy_read8 key (q + i - 16) = Some a" "wy_read8 key (q + i - 8) = Some b"
      using wy_read8_Some [of "q + i - 16" key] wy_read8_Some [of "q + i - 8" key] qi 4 by auto
    with 4 hb show ?thesis by (simp add: hash_words_def Let_def)
  qed (use wy_read3_Some [of 0 "?n" key] in \<open>auto simp: hash_words_def Let_def\<close>)
qed

lemma shard_for_less:
  assumes "0 < n" and "n < 2 ^ 64"
  shows "shard_for n key < n"
proof -
  have n: "unat (word_of_nat n :: u64) = n"
    using assms(2) by (simp add: unat_of_nat take_bit_nat_eq_self)
  have "shard_for n key \<le> unat (hash_bytes key mod word_of_nat n)"
    unfolding shard_for_def by (simp only: unsigned_ucast_eq take_bit_eq_mod mod_less_eq_dividend)
  also have "\<dots> = unat (hash_bytes key) mod n"
    by (simp only: unat_mod_distrib n)
  also have "\<dots> < n" using assms(1) by (rule mod_less_divisor)
  finally show ?thesis .
qed

lemma wy_mum_split:
  "uint (fst (wy_mum a b)) + 2 ^ 64 * uint (snd (wy_mum a b)) = uint a * uint b"
proof -
  let ?r = "(ucast a :: 128 word) * ucast b"
  have lt: "uint a * uint b < 2 ^ 128"
  proof -
    have "uint a < 2 ^ 64" "uint b < 2 ^ 64"
      using uint_lt2p [of a] uint_lt2p [of b] by simp_all
    then have "uint a * uint b < 2 ^ 64 * 2 ^ 64" by (intro mult_strict_mono) auto
    then show ?thesis by simp
  qed
  have r: "uint ?r = uint a * uint b"
    using lt by (simp add: uint_word_ariths uint_up_ucast is_up)
  have lo: "uint (ucast ?r :: u64) = uint ?r mod 2 ^ 64"
    by (simp only: unsigned_ucast_eq take_bit_eq_mod) simp
  have hi: "uint (ucast (drop_bit 64 ?r) :: u64) = uint ?r div 2 ^ 64"
  proof -
    have "uint (drop_bit 64 ?r) = uint ?r div 2 ^ 64"
      by (simp add: drop_bit_eq_div uint_div r)
    moreover have "uint ?r div 2 ^ 64 < 2 ^ 64" using lt r by simp
    moreover have "0 \<le> uint ?r div 2 ^ 64" by (simp add: pos_imp_zdiv_nonneg_iff)
    ultimately show ?thesis
      by (simp only: unsigned_ucast_eq take_bit_eq_mod) (simp add: mod_pos_pos_trivial)
  qed
  show ?thesis using r lo hi by (simp add: wy_mum_def Let_def)
qed

end
