(* ===== verification/Swiss_Table.thy ===== *)
theory Swiss_Table
  imports Wy_Hash
begin

section \<open>The Swiss table (\<^verbatim>\<open>include/blazekv/swiss_table.hpp\<close>)\<close>

text \<open>
  The open-addressing hash table behind every dictionary of the store. The model keeps the
  source's representation: the control array with its 16 mirrored bytes at the tail, the slot
  array, and the five counters. A \<open>Value*\<close> of the source is the index of its slot. The group
  primitives are those of the portable \<^verbatim>\<open>#else\<close> branch, bit masks included.

  The probe loops are \<^verbatim>\<open>while (true)\<close> in the source, so they are partial functions whose \<open>None\<close>
  means that the loop does not end; \<open>Swiss_Correct\<close> proves that they end on every table the
  operations build.
\<close>

subsection \<open>Representation\<close>

text \<open>The template parameters: the hash, and the values that \<open>Key{}\<close> and \<open>Value{}\<close> construct.
  Keys are compared with equality.\<close>

record ('k, 'v) sw_params =
  p_hash :: "'k \<Rightarrow> u64"
  p_key :: 'k
  p_value :: 'v

text \<open>Control bytes are \<open>std::int8_t\<close>, here integers: \<open>0x80\<close> is -128 and \<open>0xFE\<close> is -2.\<close>

record ('k, 'v) swiss =
  ctrl :: "int list"
  slots :: "('k \<times> 'v) list"
  capacity :: nat
  sw_mask :: nat
  sw_size :: nat
  tombstones :: nat
  grow_at :: nat

definition kEmpty :: int where "kEmpty = - 128"
definition kDeleted :: int where "kDeleted = - 2"
definition kGroup :: nat where "kGroup = 16"

definition h1 :: "u64 \<Rightarrow> u64" where
  "h1 h = drop_bit 7 h"

definition h2 :: "u64 \<Rightarrow> int" where
  "h2 h = uint (h AND 0x7F)"

subsection \<open>Group primitives\<close>

text \<open>The 16 control bytes read from \<open>ctrl_ + pos\<close>.\<close>

definition sw_group :: "('k, 'v) swiss \<Rightarrow> nat \<Rightarrow> int list" where
  "sw_group t pos = take kGroup (drop pos (ctrl t))"

definition lane_mask :: "(int \<Rightarrow> bool) \<Rightarrow> int list \<Rightarrow> u32" where
  "lane_mask p g = foldl (\<lambda>m i. if p (g ! i) then m OR push_bit i 1 else m) 0 [0..<kGroup]"

definition MatchBits :: "int list \<Rightarrow> int \<Rightarrow> u32" where
  "MatchBits g needle = lane_mask (\<lambda>c. c = needle) g"

definition MatchEmptyOrDeleted :: "int list \<Rightarrow> u32" where
  "MatchEmptyOrDeleted g = lane_mask (\<lambda>c. c < 0) g"

definition MatchEmpty :: "int list \<Rightarrow> bool" where
  "MatchEmpty g = list_ex (\<lambda>i. g ! i = kEmpty) [0..<kGroup]"

text \<open>\<open>__builtin_ctz\<close>, used on non-zero masks only.\<close>

definition ctz32 :: "u32 \<Rightarrow> nat" where
  "ctz32 x = length (takeWhile (\<lambda>i. \<not> bit x i) [0..<32])"

lemma clear_lowest_less: "x \<noteq> 0 \<Longrightarrow> unat (x AND (x - 1)) < unat (x :: u32)"
proof -
  assume "x \<noteq> 0"
  then have "unat (x - 1) < unat x"
    by (simp add: unat_minus_one) (simp add: unat_gt_0)
  moreover have "unat (x AND (x - 1)) \<le> unat (x - 1)"
    by (metis word_and_le1 word_le_nat_alt)
  ultimately show ?thesis by linarith
qed

text \<open>The loop over the matching lanes of a group: \<open>match &= match - 1\<close> clears the lowest bit.\<close>

function sw_scan :: "('k, 'v) swiss \<Rightarrow> 'k \<Rightarrow> nat \<Rightarrow> u32 \<Rightarrow> nat option" where
  "sw_scan t key pos match =
     (if match \<noteq> 0 then
        let i = (pos + ctz32 match) AND sw_mask t in
        if fst (slots t ! i) = key then Some i
        else sw_scan t key pos (match AND (match - 1))
      else None)"
  by pat_completeness auto
termination
  by (relation "measure (\<lambda>(t, key, pos, match). unat match)") (simp_all add: clear_lowest_less)

declare sw_scan.simps [simp del]

subsection \<open>Lookup\<close>

partial_function (option) sw_find_loop ::
  "('k, 'v) swiss \<Rightarrow> 'k \<Rightarrow> int \<Rightarrow> nat \<Rightarrow> nat option option" where
  "sw_find_loop t key needle pos =
     (let g = sw_group t pos in
      case sw_scan t key pos (MatchBits g needle) of
        Some i \<Rightarrow> Some (Some i)
      | None \<Rightarrow>
          if MatchEmpty g then Some None
          else sw_find_loop t key needle ((pos + kGroup) AND sw_mask t))"

definition home_pos :: "('k, 'v) sw_params \<Rightarrow> ('k, 'v) swiss \<Rightarrow> 'k \<Rightarrow> nat" where
  "home_pos T t key = unat (h1 (p_hash T key) AND word_of_nat (sw_mask t))"

definition sw_find :: "('k, 'v) sw_params \<Rightarrow> ('k, 'v) swiss \<Rightarrow> 'k \<Rightarrow> nat option" where
  "sw_find T t key =
     (case sw_find_loop t key (h2 (p_hash T key)) (home_pos T t key) of
        Some r \<Rightarrow> r | None \<Rightarrow> None)"

text \<open>Reading and writing through the pointer that \<open>find\<close> returned.\<close>

definition sw_value :: "('k, 'v) swiss \<Rightarrow> nat \<Rightarrow> 'v" where
  "sw_value t i = snd (slots t ! i)"

definition sw_write :: "('k, 'v) swiss \<Rightarrow> nat \<Rightarrow> 'v \<Rightarrow> ('k, 'v) swiss" where
  "sw_write t i v = t\<lparr>slots := (slots t)[i := (fst (slots t ! i), v)]\<rparr>"

subsection \<open>Updates\<close>

definition set_ctrl :: "('k, 'v) swiss \<Rightarrow> nat \<Rightarrow> int \<Rightarrow> ('k, 'v) swiss" where
  "set_ctrl t i v =
     (let c = (ctrl t)[i := v] in
      t\<lparr>ctrl := (if i < kGroup then c[capacity t + i := v] else c)\<rparr>)"

partial_function (option) insert_moved_loop :: "('k, 'v) swiss \<Rightarrow> nat \<Rightarrow> nat option" where
  "insert_moved_loop t pos =
     (let empties = MatchEmptyOrDeleted (sw_group t pos) in
      if empties \<noteq> 0 then Some ((pos + ctz32 empties) AND sw_mask t)
      else insert_moved_loop t ((pos + kGroup) AND sw_mask t))"

definition insert_moved ::
  "('k, 'v) sw_params \<Rightarrow> 'k \<times> 'v \<Rightarrow> ('k, 'v) swiss \<Rightarrow> ('k, 'v) swiss" where
  "insert_moved T kv t =
     (case insert_moved_loop t (home_pos T t (fst kv)) of
        Some i \<Rightarrow>
          (set_ctrl t i (h2 (p_hash T (fst kv))))
            \<lparr>slots := (slots t)[i := kv], sw_size := sw_size t + 1\<rparr>
      | None \<Rightarrow> t)"

text \<open>The live entries in slot order: what \<open>for_each\<close> visits.\<close>

definition sw_entries :: "('k, 'v) swiss \<Rightarrow> ('k \<times> 'v) list" where
  "sw_entries t = map (\<lambda>i. slots t ! i) (filter (\<lambda>i. ctrl t ! i \<ge> 0) [0..<capacity t])"

definition sw_for_each :: "('k \<Rightarrow> 'v \<Rightarrow> 's \<Rightarrow> 's) \<Rightarrow> ('k, 'v) swiss \<Rightarrow> 's \<Rightarrow> 's" where
  "sw_for_each f t s = foldl (\<lambda>s (k, v). f k v s) s (sw_entries t)"

definition sw_blank :: "('k, 'v) sw_params \<Rightarrow> nat \<Rightarrow> ('k, 'v) swiss" where
  "sw_blank T new_cap =
     \<lparr>ctrl = replicate (new_cap + kGroup) kEmpty, slots = replicate new_cap (p_key T, p_value T),
      capacity = new_cap, sw_mask = new_cap - 1, sw_size = 0, tombstones = 0,
      grow_at = new_cap * 7 div 8\<rparr>"

definition rehash :: "('k, 'v) sw_params \<Rightarrow> nat \<Rightarrow> ('k, 'v) swiss \<Rightarrow> ('k, 'v) swiss" where
  "rehash T new_cap t = foldl (\<lambda>t' kv. insert_moved T kv t') (sw_blank T new_cap) (sw_entries t)"

text \<open>The constructor rehashes a table of capacity 0 to one group.\<close>

definition sw_new :: "('k, 'v) sw_params \<Rightarrow> ('k, 'v) swiss" where
  "sw_new T = rehash T kGroup
     \<lparr>ctrl = [], slots = [], capacity = 0, sw_mask = 0, sw_size = 0, tombstones = 0, grow_at = 0\<rparr>"

text \<open>The probe of \<open>insert_or_assign\<close>: \<open>Inl\<close> the slot that holds the key already, \<open>Inr\<close> the first
  empty or deleted slot seen (\<open>None\<close> is the source's \<open>kInvalid\<close>).\<close>

partial_function (option) sw_insert_loop ::
  "('k, 'v) swiss \<Rightarrow> 'k \<Rightarrow> int \<Rightarrow> nat \<Rightarrow> nat option \<Rightarrow> (nat + nat option) option" where
  "sw_insert_loop t key needle pos insert_at =
     (let g = sw_group t pos in
      case sw_scan t key pos (MatchBits g needle) of
        Some i \<Rightarrow> Some (Inl i)
      | None \<Rightarrow>
          (let empties = MatchEmptyOrDeleted g;
               insert_at' = (if empties \<noteq> 0 \<and> insert_at = None
                             then Some ((pos + ctz32 empties) AND sw_mask t) else insert_at)
           in if empties \<noteq> 0 \<and> MatchEmpty g then Some (Inr insert_at')
              else sw_insert_loop t key needle ((pos + kGroup) AND sw_mask t) insert_at'))"

definition sw_make_room :: "('k, 'v) sw_params \<Rightarrow> ('k, 'v) swiss \<Rightarrow> ('k, 'v) swiss" where
  "sw_make_room T t =
     (if sw_size t + 1 > grow_at t then rehash T (capacity t * 2) t
      else if sw_size t + tombstones t + 1 > grow_at t then rehash T (capacity t) t
      else t)"

text \<open>\<open>insert_or_assign\<close> returns the table, the slot of the value and whether the key is new.\<close>

definition sw_insert ::
  "('k, 'v) sw_params \<Rightarrow> ('k, 'v) swiss \<Rightarrow> 'k \<Rightarrow> 'v \<Rightarrow> ('k, 'v) swiss \<times> nat \<times> bool" where
  "sw_insert T t0 key v =
     (let t = sw_make_room T t0; needle = h2 (p_hash T key) in
      case sw_insert_loop t key needle (home_pos T t key) None of
        Some (Inl i) \<Rightarrow> (sw_write t i v, i, False)
      | Some (Inr (Some i)) \<Rightarrow>
          ((set_ctrl t i needle)
             \<lparr>tombstones := (if ctrl t ! i = kDeleted then tombstones t - 1 else tombstones t),
              slots := (slots t)[i := (key, v)], sw_size := sw_size t + 1\<rparr>, i, True)
      | _ \<Rightarrow> (t, 0, False))"

text \<open>\<open>erase\<close> probes exactly as \<open>find\<close> does and leaves a tombstone.\<close>

definition sw_erase ::
  "('k, 'v) sw_params \<Rightarrow> ('k, 'v) swiss \<Rightarrow> 'k \<Rightarrow> ('k, 'v) swiss \<times> bool" where
  "sw_erase T t key =
     (case sw_find_loop t key (h2 (p_hash T key)) (home_pos T t key) of
        Some (Some i) \<Rightarrow>
          ((set_ctrl t i kDeleted)
             \<lparr>slots := (slots t)[i := (p_key T, p_value T)], sw_size := sw_size t - 1,
              tombstones := tombstones t + 1\<rparr>, True)
      | _ \<Rightarrow> (t, False))"

function sw_reserve_need :: "nat \<Rightarrow> nat \<Rightarrow> nat" where
  "sw_reserve_need n need = (if need > 0 \<and> need * 7 div 8 < n then sw_reserve_need n (need * 2) else need)"
  by pat_completeness auto
termination
  by (relation "measure (\<lambda>(n, need). 2 * n + 2 - need)") auto

declare sw_reserve_need.simps [simp del]

definition sw_reserve :: "('k, 'v) sw_params \<Rightarrow> nat \<Rightarrow> ('k, 'v) swiss \<Rightarrow> ('k, 'v) swiss" where
  "sw_reserve T n t = (let need = sw_reserve_need n 8 in if need > capacity t then rehash T need t else t)"

definition sw_clear :: "('k, 'v) sw_params \<Rightarrow> ('k, 'v) swiss \<Rightarrow> ('k, 'v) swiss" where
  "sw_clear T t = t\<lparr>ctrl := replicate (capacity t + kGroup) kEmpty,
     slots := replicate (capacity t) (p_key T, p_value T), sw_size := 0, tombstones := 0\<rparr>"

text \<open>\<open>memory_bytes\<close> with \<open>sizeof(Slot)\<close> as a parameter.\<close>

definition sw_memory_bytes :: "nat \<Rightarrow> ('k, 'v) swiss \<Rightarrow> nat" where
  "sw_memory_bytes slot_bytes t = capacity t * (slot_bytes + 1) + kGroup"

declare sw_find_loop.simps [code] insert_moved_loop.simps [code] sw_insert_loop.simps [code]

end
