(* ===== verification/Swiss_Probe.thy ===== *)
theory Swiss_Probe
  imports Swiss_Table
begin

section \<open>Probing a Swiss table\<close>

text \<open>
  What one probe step sees and where the probe loops end. First the bit masks: the loop that
  clears the lowest set bit visits the matching lanes in ascending order
  (\<open>sw_scan_reference\<close>). Then the shape of a table, in which a group read at any position sees
  16 consecutive slots modulo the capacity, thanks to the mirrored control bytes. Last the three
  probe loops, each run to the first group that stops it.
\<close>

subsection \<open>Lane masks\<close>

lemma bit_lane_fold:
  "bit (foldl (\<lambda>m i. if p (g ! i) then m OR push_bit i 1 else m) (m :: u32) is) n \<longleftrightarrow>
     bit m n \<or> (n < 32 \<and> n \<in> set is \<and> p (g ! n))"
proof (induction "is" arbitrary: m)
  case (Cons i "is")
  have "bit (m OR push_bit i 1) n \<longleftrightarrow> bit m n \<or> (n < 32 \<and> n = i)"
    by (auto simp: bit_simps)
  then show ?case by (simp add: Cons.IH) blast
qed simp

lemma bit_lane_mask: "bit (lane_mask p g) n \<longleftrightarrow> n < 16 \<and> p (g ! n)"
  by (auto simp: lane_mask_def bit_lane_fold kGroup_def)

text \<open>The lowest bit of a mask of any width, and what clearing it leaves.\<close>

definition lowest :: "'a::len word \<Rightarrow> nat" where
  "lowest x = length (takeWhile (\<lambda>i. \<not> bit x i) [0..<LENGTH('a)])"

lemma word_nonzero_bit: "x \<noteq> 0 \<longleftrightarrow> (\<exists>n<LENGTH('a). bit x n)" for x :: "'a::len word"
  by (metis bit_eq_iff bit_0_eq bot_apply bot_bool_def bit_imp_le_length)

lemma lowest_bit:
  fixes x :: "'a::len word"
  assumes "x \<noteq> 0"
  shows "lowest x < LENGTH('a)" "bit x (lowest x)" "i < lowest x \<Longrightarrow> \<not> bit x i"
proof -
  let ?L = "[0..<LENGTH('a)]"
  let ?tw = "takeWhile (\<lambda>i. \<not> bit x i) ?L"
  obtain n where n: "n < LENGTH('a)" "bit x n" using assms word_nonzero_bit by blast
  then have ne: "?tw \<noteq> ?L" by (auto simp: takeWhile_eq_all_conv)
  then show lt: "lowest x < LENGTH('a)"
    by (metis lowest_def diff_zero length_takeWhile_le length_upt order_le_imp_less_or_eq
        takeWhile_eq_take take_all_iff)
  then show "bit x (lowest x)"
    using nth_length_takeWhile [of "\<lambda>i. \<not> bit x i" ?L] by (simp add: lowest_def)
  show "\<not> bit x i" if "i < lowest x"
  proof -
    have "?tw ! i \<in> set ?tw" using that by (auto simp: lowest_def)
    moreover have "?tw ! i = i" using that lt takeWhile_nth [of i "\<lambda>i. \<not> bit x i" ?L]
      by (simp add: lowest_def)
    ultimately show ?thesis by (metis set_takeWhileD)
  qed
qed

lemma bit_clear_lowest:
  fixes x :: "'a::len word"
  assumes "x \<noteq> 0"
  shows "bit (x AND (x - 1)) n \<longleftrightarrow> bit x n \<and> n \<noteq> lowest x"
proof -
  let ?k = "lowest x"
  define z where "z = unset_bit ?k x"
  note low = lowest_bit [OF assms]
  have bz: "bit z m \<longleftrightarrow> bit x m \<and> m \<noteq> ?k" for m
    by (auto simp: z_def bit_unset_bit_iff)
  have "x = z OR 2 ^ ?k"
    by (rule bit_eqI) (use low in \<open>auto simp: bz bit_or_iff bit_exp_iff\<close>)
  also have "\<dots> = z + 2 ^ ?k"
    by (rule disjunctive_add [symmetric]) (auto simp: bz bit_exp_iff)
  finally have "x - 1 = z + mask ?k"
    by (simp add: mask_eq_exp_minus_1)
  also have "\<dots> = z OR mask ?k"
    by (rule disjunctive_add) (use low(3) in \<open>auto simp: bz bit_mask_iff\<close>)
  finally have "bit (x - 1) n \<longleftrightarrow> bit z n \<or> (n < LENGTH('a) \<and> n < ?k)"
    by (auto simp: bit_or_iff bit_mask_iff dest: bit_imp_le_length)
  then show ?thesis using low(3) [of n] by (auto simp: bit_and_iff bz)
qed

lemma filter_bit_lowest:
  fixes x :: "'a::len word"
  assumes "x \<noteq> 0"
  shows "filter (bit x) [0..<LENGTH('a)] = lowest x # filter (bit (x AND (x - 1))) [0..<LENGTH('a)]"
proof -
  let ?k = "lowest x" and ?n = "LENGTH('a)"
  note low = lowest_bit [OF assms]
  have split: "[0..<?n] = [0..<?k] @ ?k # [Suc ?k..<?n]"
    using low(1) by (metis le0 less_imp_le_nat upt_add_eq_append le_add_diff_inverse upt_conv_Cons)
  have "filter (bit x) [0..<?k] = []" using low(3) by (auto simp: filter_empty_conv)
  moreover have "filter (bit (x AND (x - 1))) [0..<?k] = []"
    using low(3) by (auto simp: filter_empty_conv bit_clear_lowest [OF assms])
  moreover have "filter (bit (x AND (x - 1))) [Suc ?k..<?n] = filter (bit x) [Suc ?k..<?n]"
    by (auto intro!: filter_cong simp: bit_clear_lowest [OF assms])
  ultimately show ?thesis
    using low(2) by (simp add: split bit_clear_lowest [OF assms])
qed

lemma ctz32_is_lowest: "ctz32 x = lowest x"
  by (simp add: ctz32_def lowest_def)

lemma ctz32_lowest:
  assumes "(x :: u32) \<noteq> 0"
  shows "ctz32 x < 32" "bit x (ctz32 x)" "i < ctz32 x \<Longrightarrow> \<not> bit x i"
  using lowest_bit [OF assms] by (simp_all add: ctz32_is_lowest)

lemma filter_bit_ctz:
  assumes "(x :: u32) \<noteq> 0"
  shows "filter (bit x) [0..<32] = ctz32 x # filter (bit (x AND (x - 1))) [0..<32]"
  using filter_bit_lowest [OF assms] by (simp add: ctz32_is_lowest)

text \<open>The reference: the slots of the matching lanes, in ascending order.\<close>

lemma sw_scan_reference:
  "sw_scan t key pos match =
     find (\<lambda>i. fst (slots t ! i) = key)
          (map (\<lambda>l. (pos + l) AND sw_mask t) (filter (bit match) [0..<32]))"
proof (induction t key pos match rule: sw_scan.induct)
  case (1 t key pos match)
  show ?case
  proof (cases "match = 0")
    case True
    then show ?thesis by (subst sw_scan.simps) simp
  next
    case False
    then show ?thesis
      using "1.IH" by (subst sw_scan.simps, subst filter_bit_ctz [OF False]) (simp add: Let_def)
  qed
qed

lemma sw_scan_None:
  "sw_scan t key pos match = None \<longleftrightarrow>
     (\<forall>l. bit match l \<longrightarrow> fst (slots t ! ((pos + l) AND sw_mask t)) \<noteq> key)"
  using bit_imp_le_length [of match] by (auto simp: sw_scan_reference find_None_iff)

lemma sw_scan_Some:
  assumes "sw_scan t key pos match = Some i"
  shows "\<exists>l. bit match l \<and> i = (pos + l) AND sw_mask t \<and> fst (slots t ! i) = key"
proof -
  let ?ls = "map (\<lambda>l. (pos + l) AND sw_mask t) (filter (bit match) [0..<32])"
  from assms obtain n where "n < length ?ls" "fst (slots t ! i) = key" "i = ?ls ! n"
    by (auto simp: sw_scan_reference find_Some_iff)
  then have "i \<in> set ?ls" by (metis nth_mem)
  with \<open>fst (slots t ! i) = key\<close> show ?thesis by auto
qed

subsection \<open>The shape of a table\<close>

definition sw_shape :: "('k, 'v) swiss \<Rightarrow> bool" where
  "sw_shape t \<longleftrightarrow> (\<exists>k\<ge>4. capacity t = 2 ^ k) \<and> sw_mask t = capacity t - 1 \<and>
     grow_at t = capacity t * 7 div 8 \<and> length (ctrl t) = capacity t + kGroup \<and>
     length (slots t) = capacity t \<and> (\<forall>i<kGroup. ctrl t ! (capacity t + i) = ctrl t ! i)"

text \<open>The slot of lane \<open>l\<close> of the \<open>n\<close>-th group probed from position \<open>p\<close>.\<close>

definition probe_pos :: "('k, 'v) swiss \<Rightarrow> nat \<Rightarrow> nat \<Rightarrow> nat" where
  "probe_pos t p n = (p + kGroup * n) mod capacity t"

definition lane_slot :: "('k, 'v) swiss \<Rightarrow> nat \<Rightarrow> nat \<Rightarrow> nat \<Rightarrow> nat" where
  "lane_slot t p n l = (p + kGroup * n + l) mod capacity t"

lemma sw_shape_capacity:
  assumes "sw_shape t"
  shows "16 \<le> capacity t" "0 < capacity t" "kGroup dvd capacity t"
proof -
  from assms obtain k where k: "4 \<le> k" "capacity t = 2 ^ k" by (auto simp: sw_shape_def)
  then have "capacity t = 16 * 2 ^ (k - 4)"
    using power_add [of "2 :: nat" 4 "k - 4"] by simp
  then show "16 \<le> capacity t" "0 < capacity t" "kGroup dvd capacity t"
    by (auto simp: kGroup_def)
qed

lemma and_sw_mask:
  assumes "sw_shape t"
  shows "n AND sw_mask t = n mod capacity t"
proof -
  from assms obtain k where k: "capacity t = 2 ^ k" "sw_mask t = 2 ^ k - 1"
    by (auto simp: sw_shape_def)
  have "n AND sw_mask t = take_bit k n"
    by (simp only: k mask_eq_exp_minus_1 [symmetric] take_bit_eq_mask)
  then show ?thesis by (simp add: take_bit_eq_mod k)
qed

lemma home_pos_mod:
  assumes "sw_shape t"
  shows "home_pos T t key = unat (h1 (p_hash T key)) mod capacity t"
proof -
  from assms obtain k where k: "capacity t = 2 ^ k" "sw_mask t = 2 ^ k - 1"
    by (auto simp: sw_shape_def)
  have "(word_of_nat (sw_mask t) :: u64) = mask k"
    by (simp only: k mask_eq_exp_minus_1 [symmetric] of_nat_mask_eq)
  then show ?thesis
    by (simp only: home_pos_def take_bit_eq_mask [symmetric] unsigned_take_bit_eq)
      (simp only: take_bit_eq_mod k)
qed

lemma home_pos_less: "sw_shape t \<Longrightarrow> home_pos T t key < capacity t"
  by (simp add: home_pos_mod sw_shape_capacity)

lemma sw_group_nth:
  assumes "sw_shape t" "p < capacity t" "l < 16"
  shows "sw_group t p ! l = ctrl t ! ((p + l) mod capacity t)"
proof -
  have len: "length (ctrl t) = capacity t + 16"
    and mir: "\<And>i. i < 16 \<Longrightarrow> ctrl t ! (capacity t + i) = ctrl t ! i"
    using assms(1) by (auto simp: sw_shape_def kGroup_def)
  have g: "sw_group t p ! l = ctrl t ! (p + l)"
    using assms len by (simp add: sw_group_def kGroup_def)
  show ?thesis
  proof (cases "p + l < capacity t")
    case False
    then have "(p + l) mod capacity t = p + l - capacity t"
      using assms sw_shape_capacity [OF assms(1)] by (simp add: le_mod_geq)
    moreover have "ctrl t ! (p + l) = ctrl t ! (p + l - capacity t)"
      using mir [of "p + l - capacity t"] assms False by simp
    ultimately show ?thesis using g by simp
  qed (simp add: g)
qed

subsection \<open>One probe step\<close>

definition hit :: "('k, 'v) swiss \<Rightarrow> 'k \<Rightarrow> int \<Rightarrow> nat \<Rightarrow> nat option" where
  "hit t key needle p = sw_scan t key p (MatchBits (sw_group t p) needle)"

definition stops :: "('k, 'v) swiss \<Rightarrow> nat \<Rightarrow> bool" where
  "stops t p = MatchEmpty (sw_group t p)"

definition free_lane :: "('k, 'v) swiss \<Rightarrow> nat \<Rightarrow> nat option" where
  "free_lane t p = (let e = MatchEmptyOrDeleted (sw_group t p) in
     if e \<noteq> 0 then Some ((p + ctz32 e) AND sw_mask t) else None)"

lemma probe_pos_less: "sw_shape t \<Longrightarrow> probe_pos t p n < capacity t"
  by (simp add: probe_pos_def sw_shape_capacity)

lemma probe_pos_0: "p < capacity t \<Longrightarrow> probe_pos t p 0 = p"
  by (simp add: probe_pos_def)

lemma probe_pos_Suc:
  "sw_shape t \<Longrightarrow> (probe_pos t p n + kGroup) AND sw_mask t = probe_pos t p (Suc n)"
  by (simp only: and_sw_mask probe_pos_def mod_add_left_eq) (simp add: algebra_simps)

lemma lane_slot_probe:
  "(probe_pos t p n + l) mod capacity t = lane_slot t p n l"
  by (simp add: probe_pos_def lane_slot_def mod_simps)

lemma lane_slot_less: "sw_shape t \<Longrightarrow> lane_slot t p n l < capacity t"
  by (simp add: lane_slot_def sw_shape_capacity)

lemma group_lane:
  "sw_shape t \<Longrightarrow> l < 16 \<Longrightarrow>
     sw_group t (probe_pos t p n) ! l = ctrl t ! lane_slot t p n l"
  by (simp add: sw_group_nth probe_pos_less lane_slot_probe)

lemma stops_iff:
  "sw_shape t \<Longrightarrow> stops t (probe_pos t p n) \<longleftrightarrow> (\<exists>l<16. ctrl t ! lane_slot t p n l = kEmpty)"
  by (auto simp: stops_def MatchEmpty_def list_ex_iff kGroup_def group_lane)

lemma hit_Some:
  assumes "sw_shape t" "hit t key needle (probe_pos t p n) = Some i"
  shows "\<exists>l<16. i = lane_slot t p n l \<and> ctrl t ! i = needle \<and> fst (slots t ! i) = key"
proof -
  from sw_scan_Some [OF assms(2) [unfolded hit_def]] obtain l where
    l: "l < 16" "sw_group t (probe_pos t p n) ! l = needle"
      "i = (probe_pos t p n + l) AND sw_mask t" "fst (slots t ! i) = key"
    by (auto simp: MatchBits_def bit_lane_mask)
  then show ?thesis
    using assms(1) by (auto simp: and_sw_mask lane_slot_probe group_lane)
qed

lemma hit_None:
  assumes "sw_shape t" "hit t key needle (probe_pos t p n) = None" "l < 16"
    "ctrl t ! lane_slot t p n l = needle"
  shows "fst (slots t ! lane_slot t p n l) \<noteq> key"
  using assms sw_scan_None [of t key "probe_pos t p n"]
  by (auto simp: hit_def MatchBits_def bit_lane_mask and_sw_mask lane_slot_probe group_lane)

lemma free_lane_Some:
  assumes "sw_shape t" "free_lane t (probe_pos t p n) = Some i"
  shows "\<exists>l<16. i = lane_slot t p n l \<and> ctrl t ! i < 0"
proof -
  let ?e = "MatchEmptyOrDeleted (sw_group t (probe_pos t p n))"
  from assms(2) have e: "?e \<noteq> 0" "i = (probe_pos t p n + ctz32 ?e) AND sw_mask t"
    by (auto simp: free_lane_def Let_def split: if_splits)
  from ctz32_lowest(2) [OF e(1)] have "ctz32 ?e < 16" "sw_group t (probe_pos t p n) ! ctz32 ?e < 0"
    by (auto simp: MatchEmptyOrDeleted_def bit_lane_mask)
  with assms(1) e show ?thesis by (auto simp: and_sw_mask lane_slot_probe group_lane)
qed

lemma free_lane_None:
  assumes "sw_shape t" "free_lane t (probe_pos t p n) = None" "l < 16"
  shows "0 \<le> ctrl t ! lane_slot t p n l"
proof (rule ccontr)
  let ?e = "MatchEmptyOrDeleted (sw_group t (probe_pos t p n))"
  assume "\<not> ?thesis"
  with assms have "bit ?e l"
    by (simp add: MatchEmptyOrDeleted_def bit_lane_mask group_lane)
  with assms(2) show False by (auto simp: free_lane_def Let_def split: if_splits)
qed

text \<open>Every slot is a lane of one of the first \<open>capacity / 16\<close> groups of any probe sequence.\<close>

definition probe_dist :: "('k, 'v) swiss \<Rightarrow> nat \<Rightarrow> nat \<Rightarrow> nat" where
  "probe_dist t p i = (i + capacity t - p) mod capacity t"

lemma lane_slot_cover:
  assumes "sw_shape t" "p < capacity t" "i < capacity t"
  shows "lane_slot t p (probe_dist t p i div 16) (probe_dist t p i mod 16) = i"
    and "probe_dist t p i < capacity t"
proof -
  show "probe_dist t p i < capacity t"
    using sw_shape_capacity [OF assms(1)] by (simp add: probe_dist_def)
  have "lane_slot t p (probe_dist t p i div 16) (probe_dist t p i mod 16)
      = (p + probe_dist t p i) mod capacity t"
    by (simp add: lane_slot_def kGroup_def add.assoc)
  also have "\<dots> = i"
    using assms by (simp add: probe_dist_def mod_simps)
  finally show "lane_slot t p (probe_dist t p i div 16) (probe_dist t p i mod 16) = i" .
qed

lemma probe_dist_lane:
  assumes "sw_shape t" "p < capacity t" "l < 16" "16 * n + l < capacity t"
  shows "probe_dist t p (lane_slot t p n l) = 16 * n + l"
proof -
  let ?c = "capacity t"
  have "probe_dist t p (lane_slot t p n l) = ((p + (16 * n + l)) mod ?c + (?c - p)) mod ?c"
    using assms(2) by (simp add: probe_dist_def lane_slot_def kGroup_def add.assoc)
  also have "\<dots> = (p + (16 * n + l) + (?c - p)) mod ?c" by (simp add: mod_simps)
  also have "p + (16 * n + l) + (?c - p) = 16 * n + l + ?c" using assms(2) by simp
  finally show ?thesis using assms(4) by simp
qed

subsection \<open>The loops, run to the group that stops them\<close>

lemma find_loop_run:
  assumes "sw_shape t" "j \<le> n"
    and "\<And>m. j \<le> m \<Longrightarrow> m < n \<Longrightarrow> hit t key nd (probe_pos t p m) = None \<and> \<not> stops t (probe_pos t p m)"
    and "hit t key nd (probe_pos t p n) \<noteq> None \<or> stops t (probe_pos t p n)"
  shows "sw_find_loop t key nd (probe_pos t p j) = Some (hit t key nd (probe_pos t p n))"
  using assms(2,3)
proof (induction "n - j" arbitrary: j)
  case 0
  then have "j = n" by simp
  with assms(4) show ?case
    by (subst sw_find_loop.simps) (auto simp: hit_def stops_def Let_def split: option.splits)
next
  case (Suc d)
  then have j: "hit t key nd (probe_pos t p j) = None" "\<not> stops t (probe_pos t p j)" by auto
  have "sw_find_loop t key nd (probe_pos t p (Suc j)) = Some (hit t key nd (probe_pos t p n))"
    using Suc by (intro Suc.hyps) auto
  with j show ?case
    by (subst sw_find_loop.simps) (simp add: hit_def stops_def Let_def probe_pos_Suc assms(1))
qed

lemma insert_moved_run:
  assumes "sw_shape t" "j \<le> n"
    and "\<And>m. j \<le> m \<Longrightarrow> m < n \<Longrightarrow> free_lane t (probe_pos t p m) = None"
    and "free_lane t (probe_pos t p n) = Some i"
  shows "insert_moved_loop t (probe_pos t p j) = Some i"
  using assms(2,3)
proof (induction "n - j" arbitrary: j)
  case 0
  then have "j = n" by simp
  with assms(4) show ?case
    by (subst insert_moved_loop.simps) (auto simp: free_lane_def Let_def split: if_splits)
next
  case (Suc d)
  then have j: "free_lane t (probe_pos t p j) = None" by auto
  have "insert_moved_loop t (probe_pos t p (Suc j)) = Some i"
    using Suc by (intro Suc.hyps) auto
  with j show ?case
    by (subst insert_moved_loop.simps)
       (auto simp: free_lane_def Let_def probe_pos_Suc assms(1) split: if_splits)
qed

text \<open>The free slot that \<open>insert_or_assign\<close> remembers while probing groups \<open>j\<close> to \<open>n\<close>.\<close>

fun remembered :: "('k, 'v) swiss \<Rightarrow> nat \<Rightarrow> nat \<Rightarrow> nat \<Rightarrow> nat option \<Rightarrow> nat option" where
  "remembered t p j 0 ia = ia"
| "remembered t p j (Suc d) ia =
     remembered t p (Suc j) d (if ia = None then free_lane t (probe_pos t p j) else ia)"

lemma remembered_Some: "remembered t p j d (Some i) = Some i"
  by (induction d arbitrary: j) auto

lemma remembered_first:
  assumes "\<And>m. m < n \<Longrightarrow> free_lane t (probe_pos t p (j + m)) = None" "n < d"
    "free_lane t (probe_pos t p (j + n)) = Some i"
  shows "remembered t p j d None = Some i"
  using assms
proof (induction n arbitrary: j d)
  case 0
  then show ?case by (cases d) (auto simp: remembered_Some)
next
  case (Suc n)
  then obtain d' where d: "d = Suc d'" by (cases d) auto
  have "free_lane t (probe_pos t p j) = None" using Suc.prems(1) [of 0] by simp
  moreover have "remembered t p (Suc j) d' None = Some i"
    using Suc.prems(1) [of "Suc _"] Suc.prems(2,3) d by (intro Suc.IH) auto
  ultimately show ?case by (simp add: d)
qed

lemma insert_loop_run:
  assumes "sw_shape t" "j \<le> n"
    and "\<And>m. j \<le> m \<Longrightarrow> m < n \<Longrightarrow> hit t key nd (probe_pos t p m) = None \<and> \<not> stops t (probe_pos t p m)"
    and "hit t key nd (probe_pos t p n) \<noteq> None \<or> stops t (probe_pos t p n)"
  shows "sw_insert_loop t key nd (probe_pos t p j) ia =
    Some (case hit t key nd (probe_pos t p n) of Some i \<Rightarrow> Inl i
          | None \<Rightarrow> Inr (remembered t p j (Suc (n - j)) ia))"
  using assms(2,3)
proof (induction "n - j" arbitrary: j ia)
  case 0
  then have "j = n" by simp
  moreover have "MatchEmptyOrDeleted (sw_group t (probe_pos t p n)) \<noteq> 0"
    if "stops t (probe_pos t p n)"
  proof
    assume "MatchEmptyOrDeleted (sw_group t (probe_pos t p n)) = 0"
    then have "free_lane t (probe_pos t p n) = None" by (simp add: free_lane_def)
    then show False using free_lane_None [OF assms(1)] that
      by (auto simp: stops_iff assms(1) kEmpty_def) (metis less_le_not_le neg_numeral_less_zero not_le)
  qed
  ultimately show ?case using assms(4)
    by (subst sw_insert_loop.simps)
       (auto simp: hit_def stops_def Let_def free_lane_def split: option.splits)
next
  case (Suc d)
  then have j: "hit t key nd (probe_pos t p j) = None" "\<not> stops t (probe_pos t p j)" by auto
  let ?ia = "if ia = None then free_lane t (probe_pos t p j) else ia"
  have n: "n - j = Suc (n - Suc j)" using Suc by simp
  have "sw_insert_loop t key nd (probe_pos t p (Suc j)) ?ia =
    Some (case hit t key nd (probe_pos t p n) of Some i \<Rightarrow> Inl i
          | None \<Rightarrow> Inr (remembered t p (Suc j) (Suc (n - Suc j)) ?ia))"
    using Suc by (intro Suc.hyps) auto
  moreover have "sw_insert_loop t key nd (probe_pos t p j) ia =
    sw_insert_loop t key nd (probe_pos t p (Suc j)) ?ia"
    using j by (subst sw_insert_loop.simps)
      (auto simp: hit_def stops_def Let_def probe_pos_Suc assms(1) free_lane_def)
  moreover have "remembered t p j (Suc (n - j)) ia = remembered t p (Suc j) (Suc (n - Suc j)) ?ia"
    by (simp only: n remembered.simps)
  ultimately show ?case by (simp only:)
qed

end
