(* ===== verification/Swiss_Inv.thy ===== *)
theory Swiss_Inv
  imports Swiss_Probe
begin

section \<open>The invariant of a Swiss table, and where a search ends\<close>

text \<open>
  The invariant of the representation: the shape, control bytes that agree with the hashes of
  their keys, no key in two slots, every key reachable by its probe, and counters that count.
  Under it a probe ends, and it ends with the slot of the key or with the proof that the key is
  absent (\<open>sw_find_loop_ends\<close>).
\<close>

subsection \<open>The invariant\<close>

abbreviation sw_full :: "('k, 'v) swiss \<Rightarrow> nat \<Rightarrow> bool" where
  "sw_full t i \<equiv> 0 \<le> ctrl t ! i"

abbreviation slot_key :: "('k, 'v) swiss \<Rightarrow> nat \<Rightarrow> 'k" where
  "slot_key t i \<equiv> fst (slots t ! i)"

definition sw_cells :: "('k, 'v) sw_params \<Rightarrow> ('k, 'v) swiss \<Rightarrow> bool" where
  "sw_cells T t \<longleftrightarrow> (\<forall>i<capacity t. ctrl t ! i = kEmpty \<or> ctrl t ! i = kDeleted \<or>
     ctrl t ! i = h2 (p_hash T (slot_key t i)))"

definition sw_unique :: "('k, 'v) swiss \<Rightarrow> bool" where
  "sw_unique t \<longleftrightarrow> (\<forall>i<capacity t. \<forall>j<capacity t.
     sw_full t i \<longrightarrow> sw_full t j \<longrightarrow> slot_key t i = slot_key t j \<longrightarrow> i = j)"

text \<open>No group before the one that holds the key has an empty slot: the probe reaches the key.\<close>

definition sw_placed :: "('k, 'v) sw_params \<Rightarrow> ('k, 'v) swiss \<Rightarrow> nat \<Rightarrow> bool" where
  "sw_placed T t i \<longleftrightarrow> (let p = home_pos T t (slot_key t i) in
     \<forall>n < probe_dist t p i div 16. \<not> stops t (probe_pos t p n))"

definition sw_counts :: "('k, 'v) swiss \<Rightarrow> bool" where
  "sw_counts t \<longleftrightarrow> sw_size t = card {i. i < capacity t \<and> sw_full t i} \<and>
     tombstones t = card {i. i < capacity t \<and> ctrl t ! i = kDeleted}"

definition sw_core :: "('k, 'v) sw_params \<Rightarrow> ('k, 'v) swiss \<Rightarrow> bool" where
  "sw_core T t \<longleftrightarrow> sw_shape t \<and> sw_cells T t \<and> sw_unique t \<and>
     (\<forall>i<capacity t. sw_full t i \<longrightarrow> sw_placed T t i) \<and> sw_counts t"

definition sw_inv :: "('k, 'v) sw_params \<Rightarrow> ('k, 'v) swiss \<Rightarrow> bool" where
  "sw_inv T t \<longleftrightarrow> sw_core T t \<and> sw_size t + tombstones t \<le> grow_at t"

definition sw_abs :: "('k, 'v) swiss \<Rightarrow> 'k \<Rightarrow> 'v option" where
  "sw_abs t = map_of (sw_entries t)"

lemma h2_nonneg [simp]: "0 \<le> h2 h"
  by (simp add: h2_def)

lemma h2_neq [simp]: "h2 h \<noteq> kEmpty" "h2 h \<noteq> kDeleted" "kEmpty \<noteq> h2 h" "kDeleted \<noteq> h2 h"
  using h2_nonneg [of h] unfolding kEmpty_def kDeleted_def by linarith+

lemma ctrl_consts [simp]: "kEmpty < 0" "kDeleted < 0" "kEmpty \<noteq> kDeleted" "kDeleted \<noteq> kEmpty"
  "\<not> 0 \<le> kEmpty" "\<not> 0 \<le> kDeleted"
  by (simp_all add: kEmpty_def kDeleted_def)

lemma sw_core_shape: "sw_core T t \<Longrightarrow> sw_shape t"
  by (simp add: sw_core_def)

lemma full_needle:
  "sw_core T t \<Longrightarrow> i < capacity t \<Longrightarrow> sw_full t i \<Longrightarrow> ctrl t ! i = h2 (p_hash T (slot_key t i))"
  by (force simp: sw_core_def sw_cells_def)

text \<open>Counting: a table that is not completely occupied has an empty slot.\<close>

lemma has_empty:
  assumes "sw_core T t" "sw_size t + tombstones t < capacity t"
  shows "\<exists>e<capacity t. ctrl t ! e = kEmpty"
proof (rule ccontr)
  assume no: "\<not> ?thesis"
  let ?F = "{i. i < capacity t \<and> sw_full t i}" and ?D = "{i. i < capacity t \<and> ctrl t ! i = kDeleted}"
  have cell: "sw_full t i \<or> ctrl t ! i = kDeleted" if "i < capacity t" for i
  proof -
    from assms(1) that have "ctrl t ! i = kEmpty \<or> ctrl t ! i = kDeleted \<or>
       ctrl t ! i = h2 (p_hash T (slot_key t i))" by (simp add: sw_core_def sw_cells_def)
    with no that show ?thesis by (metis h2_nonneg)
  qed
  have eq: "{i. i < capacity t} = ?F \<union> ?D" using cell by auto
  have "card (?F \<union> ?D) = card ?F + card ?D"
    by (rule card_Un_disjoint) auto
  then have "capacity t = card ?F + card ?D"
    unfolding eq [symmetric] by simp
  then show False using assms by (simp add: sw_core_def sw_counts_def)
qed

lemma sw_inv_has_empty:
  assumes "sw_inv T t"
  shows "\<exists>e<capacity t. ctrl t ! e = kEmpty"
proof (rule has_empty [of T])
  show "sw_core T t" using assms by (simp add: sw_inv_def)
  then have "sw_shape t" by (rule sw_core_shape)
  then have "0 < capacity t" "grow_at t = capacity t * 7 div 8"
    by (simp_all add: sw_shape_capacity sw_shape_def)
  then have "grow_at t < capacity t" by linarith
  then show "sw_size t + tombstones t < capacity t" using assms by (simp add: sw_inv_def)
qed

subsection \<open>Where a search ends\<close>

lemma search_end:
  fixes T :: "('k, 'v) sw_params" and key :: 'k
  assumes core: "sw_core T t" and e: "e < capacity t" "ctrl t ! e = kEmpty"
  defines "p \<equiv> home_pos T t key" and "nd \<equiv> h2 (p_hash T key)"
  shows "\<exists>n. (\<forall>m<n. hit t key nd (probe_pos t p m) = None \<and> \<not> stops t (probe_pos t p m)) \<and>
     16 * n < capacity t \<and>
     (case hit t key nd (probe_pos t p n) of
        Some i \<Rightarrow> i < capacity t \<and> sw_full t i \<and> slot_key t i = key
      | None \<Rightarrow> stops t (probe_pos t p n) \<and> (\<forall>i<capacity t. sw_full t i \<longrightarrow> slot_key t i \<noteq> key))"
proof -
  note sh = sw_core_shape [OF core]
  have p: "p < capacity t" by (simp add: p_def home_pos_less sh)
  let ?fin = "\<lambda>n. hit t key nd (probe_pos t p n) \<noteq> None \<or> stops t (probe_pos t p n)"
  define n where "n = (LEAST n. ?fin n)"
  let ?d = "probe_dist t p e"
  have "stops t (probe_pos t p (?d div 16))"
    using lane_slot_cover [OF sh p e(1)] e(2) by (auto simp: stops_iff [OF sh] intro!: exI [of _ "?d mod 16"])
  then have ed: "?fin (?d div 16)" by blast
  have en: "?fin n" unfolding n_def by (rule LeastI [of ?fin, OF ed])
  have nd: "n \<le> ?d div 16" unfolding n_def by (rule Least_le [of ?fin, OF ed])
  have bound: "16 * n < capacity t" using nd lane_slot_cover(2) [OF sh p e(1)] by linarith
  have before: "hit t key nd (probe_pos t p m) = None \<and> \<not> stops t (probe_pos t p m)" if "m < n" for m
    using not_less_Least [of m ?fin] that by (auto simp: n_def)
  have hitS: "i < capacity t \<and> sw_full t i \<and> slot_key t i = key"
    if "hit t key nd (probe_pos t p m) = Some i" for m i
    using hit_Some [OF sh that] by (auto simp: lane_slot_less sh nd_def)
  have miss: False if h: "hit t key nd (probe_pos t p n) = None"
    and i: "i < capacity t" "sw_full t i" "slot_key t i = key" for i
  proof -
    let ?di = "probe_dist t p i"
    have pl: "\<not> stops t (probe_pos t p m)" if "m < ?di div 16" for m
      using core i that by (auto simp: sw_core_def sw_placed_def Let_def p_def)
    have at: "hit t key nd (probe_pos t p (?di div 16)) \<noteq> None"
      using hit_None [OF sh, of key nd p "?di div 16" "?di mod 16"] lane_slot_cover [OF sh p i(1)]
        full_needle [OF core i(1,2)] i by (auto simp: nd_def)
    have "n \<le> ?di div 16" using at unfolding n_def by (auto intro: Least_le)
    moreover have "n \<noteq> ?di div 16" using at h by auto
    ultimately have "\<not> stops t (probe_pos t p n)" using pl by simp
    with en h show False by auto
  qed
  show ?thesis
    using before bound en hitS miss
    by (intro exI [of _ n]) (auto split: option.splits)
qed

lemma sw_find_loop_ends:
  assumes "sw_core T t" "e < capacity t" "ctrl t ! e = kEmpty"
  shows "\<exists>r. sw_find_loop t key (h2 (p_hash T key)) (home_pos T t key) = Some r \<and>
    (case r of Some i \<Rightarrow> i < capacity t \<and> sw_full t i \<and> slot_key t i = key
     | None \<Rightarrow> \<forall>i<capacity t. sw_full t i \<longrightarrow> slot_key t i \<noteq> key)"
proof -
  let ?p = "home_pos T t key" and ?nd = "h2 (p_hash T key)"
  note sh = sw_core_shape [OF assms(1)]
  obtain n where n: "\<And>m. m < n \<Longrightarrow> hit t key ?nd (probe_pos t ?p m) = None \<and> \<not> stops t (probe_pos t ?p m)"
    "case hit t key ?nd (probe_pos t ?p n) of
        Some i \<Rightarrow> i < capacity t \<and> sw_full t i \<and> slot_key t i = key
      | None \<Rightarrow> stops t (probe_pos t ?p n) \<and> (\<forall>i<capacity t. sw_full t i \<longrightarrow> slot_key t i \<noteq> key)"
    using search_end [OF assms, of key] by blast
  have "sw_find_loop t key ?nd (probe_pos t ?p 0) = Some (hit t key ?nd (probe_pos t ?p n))"
    using n by (intro find_loop_run sh) (auto split: option.splits)
  then show ?thesis using n(2)
    by (auto simp: probe_pos_0 home_pos_less sh split: option.splits)
qed

lemma sw_find_core:
  assumes "sw_core T t" "e < capacity t" "ctrl t ! e = kEmpty"
  shows "sw_find T t key = Some i \<Longrightarrow> i < capacity t \<and> sw_full t i \<and> slot_key t i = key"
    and "sw_find T t key = None \<Longrightarrow> j < capacity t \<Longrightarrow> sw_full t j \<Longrightarrow> slot_key t j \<noteq> key"
  using sw_find_loop_ends [OF assms, of key] by (auto simp: sw_find_def)

end
