(* ===== verification/Swiss_Step.thy ===== *)
theory Swiss_Step
  imports Swiss_Inv
begin

section \<open>One slot of a Swiss table changes\<close>

text \<open>
  The two changes of a control byte that the operations make, each of which keeps the core of the
  invariant: a new key is placed in a free slot of the first group with room (\<open>core_place\<close>), a
  full slot becomes a tombstone (\<open>core_erase\<close>).
\<close>

subsection \<open>Changing one slot\<close>

text \<open>\<open>t'\<close> is \<open>t\<close> with slot \<open>s\<close> given the control byte \<open>c\<close> and the contents \<open>kv\<close>.\<close>

definition slot_upd ::
  "('k, 'v) swiss \<Rightarrow> nat \<Rightarrow> int \<Rightarrow> 'k \<times> 'v \<Rightarrow> ('k, 'v) swiss \<Rightarrow> bool" where
  "slot_upd t s c kv t' \<longleftrightarrow> sw_shape t' \<and> capacity t' = capacity t \<and> sw_mask t' = sw_mask t \<and>
     grow_at t' = grow_at t \<and>
     (\<forall>j<capacity t. ctrl t' ! j = (if j = s then c else ctrl t ! j)) \<and>
     (\<forall>j<capacity t. slots t' ! j = (if j = s then kv else slots t ! j))"

lemma set_ctrl_sel [simp]:
  "slots (set_ctrl t i v) = slots t" "capacity (set_ctrl t i v) = capacity t"
  "sw_mask (set_ctrl t i v) = sw_mask t" "sw_size (set_ctrl t i v) = sw_size t"
  "tombstones (set_ctrl t i v) = tombstones t" "grow_at (set_ctrl t i v) = grow_at t"
  by (simp_all add: set_ctrl_def Let_def)

lemma set_ctrl_nth:
  assumes "sw_shape t" "i < capacity t" "j < capacity t + kGroup"
  shows "ctrl (set_ctrl t i v) ! j = (if j = i \<or> j = capacity t + i then v else ctrl t ! j)"
  using assms by (auto simp: set_ctrl_def Let_def sw_shape_def nth_list_update)

lemma length_set_ctrl [simp]: "length (ctrl (set_ctrl t i v)) = length (ctrl t)"
  by (simp add: set_ctrl_def Let_def)

lemma sw_shape_set_ctrl:
  assumes "sw_shape t" "i < capacity t"
  shows "sw_shape (set_ctrl t i v)"
proof -
  have "kGroup \<le> capacity t" using sw_shape_capacity(1) [OF assms(1)] by (simp add: kGroup_def)
  then have "ctrl (set_ctrl t i v) ! (capacity t + j) = ctrl (set_ctrl t i v) ! j" if "j < kGroup" for j
    using set_ctrl_nth [OF assms, of "capacity t + j" v] set_ctrl_nth [OF assms, of j v] that assms
    by (auto simp: sw_shape_def)
  then show ?thesis using assms by (simp add: sw_shape_def)
qed

lemma sw_shape_cong:
  "sw_shape t \<Longrightarrow> capacity t' = capacity t \<Longrightarrow> sw_mask t' = sw_mask t \<Longrightarrow> grow_at t' = grow_at t \<Longrightarrow>
   ctrl t' = ctrl t \<Longrightarrow> length (slots t') = length (slots t) \<Longrightarrow> sw_shape t'"
  by (simp add: sw_shape_def)

lemma slot_updI:
  assumes "sw_shape t" "s < capacity t" "ctrl t' = ctrl (set_ctrl t s c)"
    "slots t' = (slots t)[s := kv]" "capacity t' = capacity t" "sw_mask t' = sw_mask t"
    "grow_at t' = grow_at t"
  shows "slot_upd t s c kv t'"
proof -
  have "sw_shape t'"
    by (rule sw_shape_cong [OF sw_shape_set_ctrl [OF assms(1,2), of c]]) (use assms in auto)
  then show ?thesis using assms
    by (auto simp: slot_upd_def set_ctrl_nth sw_shape_def nth_list_update)
qed

lemma home_pos_cong: "sw_mask t' = sw_mask t \<Longrightarrow> home_pos T t' k = home_pos T t k"
  by (simp add: home_pos_def)

lemma stops_slot_upd:
  assumes "sw_shape t" "slot_upd t s c kv t'" "c \<noteq> kEmpty" "stops t' (probe_pos t' p n)"
  shows "stops t (probe_pos t p n)"
proof -
  from assms(2,4) obtain l where l: "l < 16" "ctrl t' ! lane_slot t' p n l = kEmpty"
    by (auto simp: slot_upd_def stops_iff)
  have cap: "capacity t' = capacity t" using assms(2) by (simp add: slot_upd_def)
  then have ls: "lane_slot t' p n l = lane_slot t p n l" by (simp add: lane_slot_def)
  with assms(2,3) l lane_slot_less [OF assms(1), of p n l]
  have "ctrl t ! lane_slot t p n l = kEmpty" by (auto simp: slot_upd_def split: if_splits)
  with l assms(1) show ?thesis by (auto simp: stops_iff)
qed

lemma placed_slot_upd:
  assumes "sw_core T t" "slot_upd t s c kv t'" "c \<noteq> kEmpty" "i < capacity t" "i \<noteq> s" "sw_full t i"
  shows "sw_placed T t' i"
proof -
  note sh = sw_core_shape [OF assms(1)]
  have eqs: "slots t' ! i = slots t ! i" "capacity t' = capacity t" "sw_mask t' = sw_mask t"
    using assms by (auto simp: slot_upd_def)
  have "sw_placed T t i" using assms by (simp add: sw_core_def)
  then show ?thesis
    using stops_slot_upd [OF sh assms(2,3)]
    by (auto simp: sw_placed_def Let_def eqs home_pos_cong [OF eqs(3)] probe_dist_def)
qed

text \<open>The counts after a slot changes, for each kind of slot.\<close>

lemma card_upd_in:
  assumes "s < n" "P' s" "\<not> P s" "\<And>j. j \<noteq> s \<Longrightarrow> j < n \<Longrightarrow> P' j = P j"
  shows "card {i. i < (n :: nat) \<and> P' i} = Suc (card {i. i < n \<and> P i})"
proof -
  have "{i. i < n \<and> P' i} = insert s {i. i < n \<and> P i}" using assms by (auto; metis)
  then show ?thesis using assms by simp
qed

lemma card_upd_out:
  assumes "s < n" "\<not> P' s" "P s" "\<And>j. j \<noteq> s \<Longrightarrow> j < n \<Longrightarrow> P' j = P j"
  shows "card {i. i < (n :: nat) \<and> P' i} = card {i. i < n \<and> P i} - 1"
  using card_upd_in [of s n P P'] assms by simp

lemma card_upd_same:
  assumes "P' s = P s" "\<And>j. j \<noteq> s \<Longrightarrow> j < n \<Longrightarrow> P' j = P j"
  shows "card {i. i < (n :: nat) \<and> P' i} = card {i. i < n \<and> P i}"
  by (rule arg_cong [of _ _ card]) (use assms in \<open>auto; metis\<close>)

text \<open>Placing a new key in a free slot of a group that its probe reaches.\<close>

lemma core_place:
  assumes core: "sw_core T t" and up: "slot_upd t s (h2 (p_hash T k)) (k, v) t'"
    and s: "s < capacity t" "ctrl t ! s < 0"
    and absent: "\<And>i. i < capacity t \<Longrightarrow> sw_full t i \<Longrightarrow> slot_key t i \<noteq> k"
    and reach: "\<And>n. n < probe_dist t (home_pos T t k) s div 16 \<Longrightarrow>
                  \<not> stops t (probe_pos t (home_pos T t k) n)"
    and size: "sw_size t' = sw_size t + 1"
    and tomb: "tombstones t' = (if ctrl t ! s = kDeleted then tombstones t - 1 else tombstones t)"
  shows "sw_core T t'"
proof -
  note sh = sw_core_shape [OF core]
  have eqs: "capacity t' = capacity t" "sw_mask t' = sw_mask t" "sw_shape t'"
    and c: "\<And>j. j < capacity t \<Longrightarrow> ctrl t' ! j = (if j = s then h2 (p_hash T k) else ctrl t ! j)"
    and sl: "\<And>j. j < capacity t \<Longrightarrow> slots t' ! j = (if j = s then (k, v) else slots t ! j)"
    using up by (auto simp: slot_upd_def)
  have "sw_cells T t'" using core c sl by (auto simp: sw_core_def sw_cells_def eqs)
  moreover have "sw_unique t'"
    using core absent c sl unfolding sw_core_def sw_unique_def eqs
    by (smt (verit) fst_conv)
  moreover have "sw_placed T t' i" if i: "i < capacity t'" "sw_full t' i" for i
  proof (cases "i = s")
    case True
    have ky: "slot_key t' s = k" using sl s by simp
    have "\<not> stops t' (probe_pos t' (home_pos T t k) n)"
      if "n < probe_dist t (home_pos T t k) s div 16" for n
      using reach [OF that] stops_slot_upd [OF sh up] by auto
    then show ?thesis
      by (simp add: sw_placed_def Let_def True ky home_pos_cong [OF eqs(2)] probe_dist_def eqs(1))
  next
    case False
    then show ?thesis using placed_slot_upd [OF core up _ _ False] i c eqs by auto
  qed
  moreover have "sw_counts t'"
  proof -
    have F: "card {i. i < capacity t \<and> sw_full t' i} = Suc (card {i. i < capacity t \<and> sw_full t i})"
      by (rule card_upd_in [OF s(1)]) (use c s in auto)
    have D: "card {i. i < capacity t \<and> ctrl t' ! i = kDeleted} =
      (if ctrl t ! s = kDeleted then card {i. i < capacity t \<and> ctrl t ! i = kDeleted} - 1
       else card {i. i < capacity t \<and> ctrl t ! i = kDeleted})"
    proof (cases "ctrl t ! s = kDeleted")
      case True
      then show ?thesis
        using card_upd_out [OF s(1), of "\<lambda>i. ctrl t' ! i = kDeleted" "\<lambda>i. ctrl t ! i = kDeleted"] c s
        by auto
    next
      case False
      then show ?thesis
        using card_upd_same [of "\<lambda>i. ctrl t' ! i = kDeleted" s "\<lambda>i. ctrl t ! i = kDeleted"] c s by auto
    qed
    show ?thesis using core F D by (simp add: sw_core_def sw_counts_def eqs size tomb)
  qed
  ultimately show ?thesis using eqs(3) by (simp add: sw_core_def)
qed

text \<open>Replacing the key of a full slot by a tombstone.\<close>

lemma core_erase:
  assumes core: "sw_core T t" and up: "slot_upd t s kDeleted kv t'"
    and s: "s < capacity t" "sw_full t s"
    and size: "sw_size t' = sw_size t - 1" and tomb: "tombstones t' = tombstones t + 1"
  shows "sw_core T t'"
proof -
  have eqs: "capacity t' = capacity t" "sw_shape t'"
    and c: "\<And>j. j < capacity t \<Longrightarrow> ctrl t' ! j = (if j = s then kDeleted else ctrl t ! j)"
    and sl: "\<And>j. j < capacity t \<Longrightarrow> slots t' ! j = (if j = s then kv else slots t ! j)"
    using up by (auto simp: slot_upd_def)
  have "sw_cells T t'" using core c sl by (auto simp: sw_core_def sw_cells_def eqs)
  moreover have "sw_unique t'"
    using core c sl unfolding sw_core_def sw_unique_def eqs by (auto split: if_splits)
  moreover have "sw_placed T t' i" if i: "i < capacity t'" "sw_full t' i" for i
    using placed_slot_upd [OF core up, of i] i c eqs by (auto split: if_splits)
  moreover have "sw_counts t'"
  proof -
    have F: "card {i. i < capacity t \<and> sw_full t' i} = card {i. i < capacity t \<and> sw_full t i} - 1"
      by (rule card_upd_out [OF s(1)]) (use c s in auto)
    have D: "card {i. i < capacity t \<and> ctrl t' ! i = kDeleted} =
      Suc (card {i. i < capacity t \<and> ctrl t ! i = kDeleted})"
      by (rule card_upd_in [OF s(1)]) (use c s in auto)
    show ?thesis using core F D by (simp add: sw_core_def sw_counts_def eqs size tomb)
  qed
  ultimately show ?thesis using eqs(2) by (simp add: sw_core_def)
qed

section \<open>A Swiss table as a map\<close>

text \<open>
  The abstraction \<open>sw_abs\<close> of a table is the map of its live entries. This theory gives the effect
  of each slot change on it, and of moving one entry into a table with room.
\<close>

subsection \<open>The abstract map\<close>

lemma set_sw_entries:
  "(k, v) \<in> set (sw_entries t) \<longleftrightarrow> (\<exists>i<capacity t. sw_full t i \<and> slots t ! i = (k, v))"
  by (auto simp: sw_entries_def image_iff; metis)

lemma distinct_sw_entries:
  assumes "sw_unique t"
  shows "distinct (map fst (sw_entries t))"
proof -
  have "inj_on (\<lambda>i. slot_key t i) (set (filter (\<lambda>i. sw_full t i) [0..<capacity t]))"
    using assms by (auto simp: inj_on_def sw_unique_def)
  then show ?thesis by (simp add: sw_entries_def distinct_map comp_def)
qed

lemma sw_abs_Some:
  assumes "sw_unique t"
  shows "sw_abs t k = Some v \<longleftrightarrow> (\<exists>i<capacity t. sw_full t i \<and> slots t ! i = (k, v))"
  using map_of_eq_Some_iff [OF distinct_sw_entries [OF assms]] set_sw_entries [of k v t]
  by (simp add: sw_abs_def)

lemma sw_abs_None:
  "sw_abs t k = None \<longleftrightarrow> (\<forall>i<capacity t. sw_full t i \<longrightarrow> slot_key t i \<noteq> k)"
  by (force simp: sw_abs_def map_of_eq_None_iff sw_entries_def)

lemma sw_core_unique: "sw_core T t \<Longrightarrow> sw_unique t"
  by (simp add: sw_core_def)

text \<open>The abstract effect of the slot changes of \<open>Swiss_Step\<close>.\<close>

lemma abs_at:
  assumes "sw_unique t" "s < capacity t" "sw_full t s" "slots t ! s = (k, v)"
  shows "sw_abs t k = Some v"
  using assms by (auto simp: sw_abs_Some)

lemma abs_same:
  assumes "sw_unique t" "sw_unique t'" "capacity t' = capacity t"
    "\<And>i v. i < capacity t \<Longrightarrow>
       sw_full t' i \<and> slots t' ! i = (k, v) \<longleftrightarrow> sw_full t i \<and> slots t ! i = (k, v)"
  shows "sw_abs t' k = sw_abs t k"
proof -
  have "sw_abs t' k = Some v \<longleftrightarrow> sw_abs t k = Some v" for v
    using assms(4) by (simp add: sw_abs_Some assms(1-3)) blast
  then show ?thesis by (metis not_Some_eq)
qed

lemma abs_place:
  assumes "sw_core T t" "sw_core T t'" "slot_upd t s c (k, v) t'" "s < capacity t" "ctrl t ! s < 0" "0 \<le> c"
  shows "sw_abs t' = (sw_abs t)(k \<mapsto> v)"
proof
  fix k'
  have eqs: "capacity t' = capacity t"
    "\<And>j. j < capacity t \<Longrightarrow> ctrl t' ! j = (if j = s then c else ctrl t ! j)"
    "\<And>j. j < capacity t \<Longrightarrow> slots t' ! j = (if j = s then (k, v) else slots t ! j)"
    using assms(3) by (auto simp: slot_upd_def)
  show "sw_abs t' k' = ((sw_abs t)(k \<mapsto> v)) k'"
  proof (cases "k' = k")
    case True
    have "sw_abs t' k = Some v"
      by (rule abs_at [of _ s]) (use assms eqs in \<open>auto intro: sw_core_unique\<close>)
    with True show ?thesis by simp
  next
    case False
    have "sw_abs t' k' = sw_abs t k'"
      by (rule abs_same) (use assms eqs False in \<open>auto intro: sw_core_unique\<close>)
    with False show ?thesis by simp
  qed
qed

lemma abs_erase:
  assumes "sw_core T t" "sw_core T t'" "slot_upd t s kDeleted kv t'" "s < capacity t" "sw_full t s"
  shows "sw_abs t' = (sw_abs t)(slot_key t s := None)"
proof
  fix k'
  have eqs: "capacity t' = capacity t"
    "\<And>j. j < capacity t \<Longrightarrow> ctrl t' ! j = (if j = s then kDeleted else ctrl t ! j)"
    "\<And>j. j < capacity t \<Longrightarrow> slots t' ! j = (if j = s then kv else slots t ! j)"
    using assms(3) by (auto simp: slot_upd_def)
  have u: "i = s" if "i < capacity t" "sw_full t i" "slot_key t i = slot_key t s" for i
    using assms(1,4,5) that by (auto simp: sw_core_def sw_unique_def)
  show "sw_abs t' k' = ((sw_abs t)(slot_key t s := None)) k'"
  proof (cases "k' = slot_key t s")
    case True
    have "sw_abs t' k' = None"
      unfolding sw_abs_None using eqs u True by (metis ctrl_consts(6))
    with True show ?thesis by simp
  next
    case False
    have "sw_abs t' k' = sw_abs t k'"
      by (rule abs_same) (use assms eqs False in \<open>auto intro: sw_core_unique\<close>)
    with False show ?thesis by simp
  qed
qed

subsection \<open>Writing through a slot pointer\<close>

lemma sw_write_sel [simp]:
  "ctrl (sw_write t i v) = ctrl t" "capacity (sw_write t i v) = capacity t"
  "sw_mask (sw_write t i v) = sw_mask t" "sw_size (sw_write t i v) = sw_size t"
  "tombstones (sw_write t i v) = tombstones t" "grow_at (sw_write t i v) = grow_at t"
  "length (slots (sw_write t i v)) = length (slots t)"
  by (simp_all add: sw_write_def)

lemma slot_key_write [simp]: "slot_key (sw_write t i v) j = slot_key t j"
  by (cases "i < length (slots t)"; cases "i = j") (simp_all add: sw_write_def list_update_beyond)

lemma sw_core_write:
  assumes "sw_core T t"
  shows "sw_core T (sw_write t i v)"
proof -
  have st: "stops (sw_write t i v) p = stops t p" for p
    by (simp add: stops_def sw_group_def)
  have "sw_placed T (sw_write t i v) j = sw_placed T t j" for j
    by (simp add: sw_placed_def Let_def st home_pos_def probe_dist_def probe_pos_def)
  then show ?thesis using assms
    by (simp add: sw_core_def sw_cells_def sw_unique_def sw_counts_def sw_shape_def)
qed

lemma abs_write:
  assumes "sw_core T t" "i < capacity t" "sw_full t i"
  shows "sw_abs (sw_write t i v) = (sw_abs t)(slot_key t i \<mapsto> v)"
proof
  fix k'
  let ?t' = "sw_write t i v"
  have un: "sw_unique t" "sw_unique ?t'"
    using assms(1) sw_core_write [OF assms(1)] by (auto intro: sw_core_unique)
  have len: "length (slots t) = capacity t" using assms(1) by (simp add: sw_core_def sw_shape_def)
  have w: "slots ?t' ! j = (if j = i then (slot_key t i, v) else slots t ! j)" if "j < capacity t" for j
    using that len by (simp add: sw_write_def nth_list_update)
  show "sw_abs ?t' k' = ((sw_abs t)(slot_key t i \<mapsto> v)) k'"
  proof (cases "k' = slot_key t i")
    case True
    have "sw_abs ?t' (slot_key t i) = Some v"
      by (rule abs_at [OF un(2), of i]) (use assms w in auto)
    with True show ?thesis by simp
  next
    case False
    have "sw_abs ?t' k' = sw_abs t k'"
      by (rule abs_same [OF un]) (use w False in auto)
    with False show ?thesis by simp
  qed
qed

subsection \<open>Moving an entry into a table with room, and rehashing\<close>

text \<open>The first free lane of a probe sequence is a slot where a new key may be placed.\<close>

lemma first_free_slot:
  assumes sh: "sw_shape t" and p: "p < capacity t" and n: "16 * n < capacity t"
    and s: "free_lane t (probe_pos t p n) = Some s"
    and before: "\<And>m. m < n \<Longrightarrow> free_lane t (probe_pos t p m) = None"
  shows "s < capacity t" "ctrl t ! s < 0" "probe_dist t p s div 16 = n"
    "m < n \<Longrightarrow> \<not> stops t (probe_pos t p m)"
proof -
  obtain l where l: "l < 16" "s = lane_slot t p n l" "ctrl t ! s < 0"
    using free_lane_Some [OF sh s] by auto
  obtain g where g: "capacity t = 16 * g"
    using sw_shape_capacity(3) [OF sh] by (auto simp: kGroup_def)
  have "16 * n + l < capacity t" using n l(1) g by simp
  then show "probe_dist t p s div 16 = n" using probe_dist_lane [OF sh p l(1)] l by simp
  show "s < capacity t" "ctrl t ! s < 0" using l lane_slot_less [OF sh] by simp_all
  show "\<not> stops t (probe_pos t p m)" if "m < n"
  proof
    assume "stops t (probe_pos t p m)"
    then obtain l where "l < 16" "ctrl t ! lane_slot t p m l = kEmpty" by (auto simp: stops_iff sh)
    with free_lane_None [OF sh before [OF that], of l] show False by auto
  qed
qed

lemma first_free_exists:
  assumes sh: "sw_shape t" and p: "p < capacity t" and e: "e < capacity t" "ctrl t ! e = kEmpty"
  shows "\<exists>n s. 16 * n < capacity t \<and> free_lane t (probe_pos t p n) = Some s \<and>
    (\<forall>m<n. free_lane t (probe_pos t p m) = None)"
proof -
  let ?P = "\<lambda>n. free_lane t (probe_pos t p n) \<noteq> None" and ?d = "probe_dist t p e"
  have d: "?P (?d div 16)"
    using lane_slot_cover [OF sh p e(1)] free_lane_None [OF sh, of p "?d div 16" "?d mod 16"] e by auto
  have "(LEAST n. ?P n) \<le> ?d div 16" by (rule Least_le [of ?P, OF d])
  then have "16 * (LEAST n. ?P n) < capacity t"
    using lane_slot_cover(2) [OF sh p e(1)] by linarith
  moreover have "?P (LEAST n. ?P n)" by (rule LeastI [of ?P, OF d])
  ultimately show ?thesis using not_less_Least [of _ ?P] by blast
qed

lemma no_deleted:
  assumes "sw_core T t" "tombstones t = 0" "s < capacity t"
  shows "ctrl t ! s \<noteq> kDeleted"
proof
  assume "ctrl t ! s = kDeleted"
  moreover have "card {i. i < capacity t \<and> ctrl t ! i = kDeleted} = 0"
    using assms by (simp add: sw_core_def sw_counts_def)
  ultimately show False using assms(3) by auto
qed

lemma insert_moved_core:
  assumes core: "sw_core T t" and room: "sw_size t + tombstones t < capacity t"
    and absent: "sw_abs t k = None" and nodel: "tombstones t = 0"
  shows "sw_core T (insert_moved T (k, v) t)"
    and "sw_abs (insert_moved T (k, v) t) = (sw_abs t)(k \<mapsto> v)"
    and "sw_size (insert_moved T (k, v) t) = sw_size t + 1"
    and "tombstones (insert_moved T (k, v) t) = 0"
    and "capacity (insert_moved T (k, v) t) = capacity t"
    and "grow_at (insert_moved T (k, v) t) = grow_at t"
proof -
  note sh = sw_core_shape [OF core]
  let ?p = "home_pos T t k" and ?t' = "insert_moved T (k, v) t"
  have p: "?p < capacity t" by (rule home_pos_less [OF sh])
  obtain e where "e < capacity t" "ctrl t ! e = kEmpty" using has_empty [OF core room] by blast
  from first_free_exists [OF sh p this] obtain n s where
    n: "16 * n < capacity t" and s: "free_lane t (probe_pos t ?p n) = Some s"
    and before: "\<And>m. m < n \<Longrightarrow> free_lane t (probe_pos t ?p m) = None" by blast
  note ff = first_free_slot [OF sh p n s before]
  have run: "insert_moved_loop t ?p = Some s"
    using insert_moved_run [OF sh, of 0 n ?p s] before s p by (simp add: probe_pos_0)
  have t': "?t' = (set_ctrl t s (h2 (p_hash T k)))\<lparr>slots := (slots t)[s := (k, v)], sw_size := sw_size t + 1\<rparr>"
    by (simp add: insert_moved_def run)
  have up: "slot_upd t s (h2 (p_hash T k)) (k, v) ?t'"
    by (rule slot_updI [OF sh ff(1)]) (simp_all add: t')
  have "\<And>i. i < capacity t \<Longrightarrow> sw_full t i \<Longrightarrow> slot_key t i \<noteq> k"
    using absent by (auto simp: sw_abs_None)
  then show core': "sw_core T ?t'"
    using no_deleted [OF core nodel ff(1)] ff(4)
    by (intro core_place [OF core up ff(1,2)]) (auto simp: ff(3) t')
  show "sw_abs ?t' = (sw_abs t)(k \<mapsto> v)"
    by (rule abs_place [OF core core' up ff(1,2) h2_nonneg])
  show "sw_size ?t' = sw_size t + 1" "tombstones ?t' = 0" "capacity ?t' = capacity t"
    "grow_at ?t' = grow_at t"
    by (simp_all add: t' nodel)
qed

end
