(* ===== verification/Dict_Spec.thy ===== *)
theory Dict_Spec
  imports Kv_Prelude
begin

section \<open>The contract of a dictionary\<close>

text \<open>
  What the clients of the hash table (the keyspace, the hash, set and sorted-set objects) rely on:
  its operations and their effect on an abstract map. \<open>d_find\<close> answers a slot pointer, \<open>d_val\<close> and
  \<open>d_write\<close> read and write through it. The lemmas of the locale are the client-side consequences,
  proved once and used through the interpretation on the Swiss table.
\<close>

locale dict =
  fixes d_inv :: "'t \<Rightarrow> bool"
    and d_abs :: "'t \<Rightarrow> 'k \<Rightarrow> 'v option"
    and d_find :: "'t \<Rightarrow> 'k \<Rightarrow> nat option"
    and d_val :: "'t \<Rightarrow> nat \<Rightarrow> 'v"
    and d_write :: "'t \<Rightarrow> nat \<Rightarrow> 'v \<Rightarrow> 't"
    and d_insert :: "'t \<Rightarrow> 'k \<Rightarrow> 'v \<Rightarrow> 't \<times> nat \<times> bool"
    and d_erase :: "'t \<Rightarrow> 'k \<Rightarrow> 't \<times> bool"
    and d_new :: 't
    and d_clear :: "'t \<Rightarrow> 't"
    and d_entries :: "'t \<Rightarrow> ('k \<times> 'v) list"
    and d_size :: "'t \<Rightarrow> nat"
  assumes inv_new: "d_inv d_new"
    and abs_new: "d_abs d_new = Map.empty"
    and find_Some: "d_inv t \<Longrightarrow> d_find t k = Some i \<Longrightarrow> d_abs t k = Some (d_val t i)"
    and find_None: "d_inv t \<Longrightarrow> d_find t k = None \<longleftrightarrow> d_abs t k = None"
    and inv_write: "d_inv t \<Longrightarrow> d_inv (d_write t i v)"
    and abs_write: "d_inv t \<Longrightarrow> d_find t k = Some i \<Longrightarrow> d_abs (d_write t i v) = (d_abs t)(k \<mapsto> v)"
    and find_write: "d_inv t \<Longrightarrow> d_find t k = Some i \<Longrightarrow> d_find (d_write t i v) k = Some i"
    and inv_insert: "d_inv t \<Longrightarrow> d_inv (fst (d_insert t k v))"
    and abs_insert: "d_inv t \<Longrightarrow> d_abs (fst (d_insert t k v)) = (d_abs t)(k \<mapsto> v)"
    and insert_ptr: "d_inv t \<Longrightarrow> d_find (fst (d_insert t k v)) k = Some (fst (snd (d_insert t k v)))"
    and insert_flag: "d_inv t \<Longrightarrow> snd (snd (d_insert t k v)) \<longleftrightarrow> d_abs t k = None"
    and inv_erase: "d_inv t \<Longrightarrow> d_inv (fst (d_erase t k))"
    and abs_erase: "d_inv t \<Longrightarrow> d_abs (fst (d_erase t k)) = (d_abs t)(k := None)"
    and erase_flag: "d_inv t \<Longrightarrow> snd (d_erase t k) \<longleftrightarrow> d_abs t k \<noteq> None"
    and inv_clear: "d_inv t \<Longrightarrow> d_inv (d_clear t)"
    and abs_clear: "d_inv t \<Longrightarrow> d_abs (d_clear t) = Map.empty"
    and entries_distinct: "d_inv t \<Longrightarrow> distinct (map fst (d_entries t))"
    and entries_abs: "d_inv t \<Longrightarrow> map_of (d_entries t) = d_abs t"
    and size_entries: "d_inv t \<Longrightarrow> d_size t = length (d_entries t)"
begin

lemmas inv_laws = inv_new inv_write inv_insert inv_erase inv_clear
lemmas abs_laws = abs_new abs_write abs_insert abs_erase abs_clear

lemma find_val: "d_inv t \<Longrightarrow> map_option (d_val t) (d_find t k) = d_abs t k"
  using find_Some find_None by (cases "d_find t k") auto

lemma find_abs_Some: "d_inv t \<Longrightarrow> d_abs t k = Some v \<Longrightarrow> \<exists>i. d_find t k = Some i \<and> d_val t i = v"
  using find_val [of t k] by auto

lemma val_write: "d_inv t \<Longrightarrow> d_find t k = Some i \<Longrightarrow> d_val (d_write t i v) i = v"
  using find_Some [OF inv_write find_write] abs_write by (metis fun_upd_same option.inject)

lemma in_entries: "d_inv t \<Longrightarrow> (k, v) \<in> set (d_entries t) \<longleftrightarrow> d_abs t k = Some v"
  using map_of_eq_Some_iff [OF entries_distinct] entries_abs by metis

lemma entries_dom: "d_inv t \<Longrightarrow> fst ` set (d_entries t) = dom (d_abs t)"
  using entries_abs [of t] dom_map_of_conv_image_fst [of "d_entries t"] by simp

lemma finite_dom: "d_inv t \<Longrightarrow> finite (dom (d_abs t))"
  using entries_dom [of t] by (metis finite_imageI finite_set)

lemma size_card:
  assumes "d_inv t"
  shows "d_size t = card (dom (d_abs t))"
proof -
  have "d_size t = length (map fst (d_entries t))" by (simp add: size_entries assms)
  also have "\<dots> = card (set (map fst (d_entries t)))"
    by (rule distinct_card [symmetric]) (rule entries_distinct [OF assms])
  also have "set (map fst (d_entries t)) = dom (d_abs t)"
    using entries_dom [OF assms] by simp
  finally show ?thesis .
qed

lemma size_0_iff: "d_inv t \<Longrightarrow> d_size t = 0 \<longleftrightarrow> d_abs t = Map.empty"
  using size_card [of t] finite_dom [of t] by simp

lemma size_insert:
  "d_inv t \<Longrightarrow> d_size (fst (d_insert t k v)) = (if d_abs t k = None then d_size t + 1 else d_size t)"
  using inv_insert [of t k v] finite_dom [of t]
  by (auto simp: size_card abs_insert insert_absorb domIff)

lemma size_erase:
  "d_inv t \<Longrightarrow> d_size (fst (d_erase t k)) = (if d_abs t k = None then d_size t else d_size t - 1)"
  using inv_erase [of t k] finite_dom [of t]
  by (auto simp: size_card abs_erase domIff)

lemma insert_all:
  "d_inv t \<Longrightarrow> d_inv (foldl (\<lambda>t (k, v). fst (d_insert t k v)) t kvs) \<and>
     d_abs (foldl (\<lambda>t (k, v). fst (d_insert t k v)) t kvs) = d_abs t ++ map_of (rev kvs)"
proof (induction kvs arbitrary: t)
  case (Cons kv kvs)
  obtain k v where "kv = (k, v)" by (cases kv)
  then show ?case
    using Cons.IH [of "fst (d_insert t k v)"] Cons.prems inv_insert abs_insert
    by (auto simp: map_add_def fun_eq_iff split: option.splits)
qed simp

end

end
