(* ===== verification/Swiss_Correct.thy ===== *)
theory Swiss_Correct
  imports Swiss_Step Dict_Spec
begin

section \<open>Correctness of the Swiss table\<close>

text \<open>
  Every operation of the table keeps its invariant and has on the abstract map the effect its
  name promises; in particular no probe runs forever and no rehash loses an entry. The theory ends
  with the interpretation of the dictionary contract, on which the rest of the store rests.
\<close>

subsection \<open>Fresh tables and rehashing\<close>

definition cap_ok :: "nat \<Rightarrow> bool" where
  "cap_ok c \<longleftrightarrow> (\<exists>k\<ge>4. c = 2 ^ k)"

lemma cap_ok_16: "cap_ok kGroup"
  unfolding cap_ok_def kGroup_def by (rule exI [of _ 4]) simp

lemma cap_ok_double: "cap_ok c \<Longrightarrow> cap_ok (c * 2)"
  by (metis cap_ok_def le_SucI power_Suc2)

lemma cap_ok_capacity: "sw_shape t \<Longrightarrow> cap_ok (capacity t)"
  by (simp add: cap_ok_def sw_shape_def)

lemma sw_size_entries: "sw_core T t \<Longrightarrow> sw_size t = length (sw_entries t)"
  by (simp add: sw_core_def sw_counts_def sw_entries_def length_filter_upt)

lemma sw_shape_blank: "cap_ok c \<Longrightarrow> sw_shape (sw_blank T c)"
  by (auto simp: cap_ok_def sw_shape_def sw_blank_def)

lemma sw_blank_no_full: "i < capacity (sw_blank T c) \<Longrightarrow> ctrl (sw_blank T c) ! i = kEmpty"
  by (simp add: sw_blank_def)

lemma core_blank:
  assumes "cap_ok c"
  shows "sw_core T (sw_blank T c)"
  using sw_shape_blank [OF assms, of T] sw_blank_no_full [of _ T c]
  by (auto simp: sw_core_def sw_cells_def sw_unique_def sw_counts_def) (simp_all add: sw_blank_def)

lemma abs_blank: "sw_abs (sw_blank T c) = Map.empty"
  by (rule ext) (simp add: sw_abs_None sw_blank_no_full)

lemma sw_blank_sel [simp]:
  "sw_size (sw_blank T c) = 0" "tombstones (sw_blank T c) = 0" "capacity (sw_blank T c) = c"
  "grow_at (sw_blank T c) = c * 7 div 8"
  by (simp_all add: sw_blank_def)

lemma grow_at_less: "sw_shape t \<Longrightarrow> grow_at t < capacity t"
  using sw_shape_capacity(2) [of t] by (simp add: sw_shape_def)

lemma fold_insert_moved:
  assumes "sw_core T t" "tombstones t = 0" "distinct (map fst kvs)"
    "\<forall>kv \<in> set kvs. sw_abs t (fst kv) = None" "sw_size t + length kvs \<le> grow_at t"
  defines "t' \<equiv> foldl (\<lambda>t kv. insert_moved T kv t) t kvs"
  shows "sw_core T t' \<and> tombstones t' = 0 \<and> capacity t' = capacity t \<and> grow_at t' = grow_at t \<and>
    sw_size t' = sw_size t + length kvs \<and> sw_abs t' = sw_abs t ++ map_of kvs"
  using assms(1-5) unfolding t'_def
proof (induction kvs arbitrary: t)
  case (Cons kv kvs)
  obtain k v where kv: "kv = (k, v)" by (cases kv)
  let ?t = "insert_moved T (k, v) t"
  have room: "sw_size t + tombstones t < capacity t"
    using Cons.prems(2,5) grow_at_less [OF sw_core_shape [OF Cons.prems(1)]] by simp
  note im = insert_moved_core [OF Cons.prems(1) room _ Cons.prems(2), of k v]
  have absent: "sw_abs t k = None" using Cons.prems(4) kv by simp
  note im = im [OF absent]
  have "\<forall>kv' \<in> set kvs. sw_abs ?t (fst kv') = None"
    using Cons.prems(3,4) kv im(2) by force
  then have IH: "sw_core T (foldl (\<lambda>t kv. insert_moved T kv t) ?t kvs) \<and>
    tombstones (foldl (\<lambda>t kv. insert_moved T kv t) ?t kvs) = 0 \<and>
    capacity (foldl (\<lambda>t kv. insert_moved T kv t) ?t kvs) = capacity ?t \<and>
    grow_at (foldl (\<lambda>t kv. insert_moved T kv t) ?t kvs) = grow_at ?t \<and>
    sw_size (foldl (\<lambda>t kv. insert_moved T kv t) ?t kvs) = sw_size ?t + length kvs \<and>
    sw_abs (foldl (\<lambda>t kv. insert_moved T kv t) ?t kvs) = sw_abs ?t ++ map_of kvs"
    using Cons.prems(3,5) im kv by (intro Cons.IH) auto
  have "k \<notin> dom (map_of kvs)" using Cons.prems(3) kv by (simp add: dom_map_of_conv_image_fst)
  then have ma: "(sw_abs t)(k \<mapsto> v) ++ map_of kvs = sw_abs t ++ map_of (kv # kvs)"
    using kv by (auto simp: map_add_def fun_eq_iff split: option.splits)
  have "sw_abs (foldl (\<lambda>t kv. insert_moved T kv t) ?t kvs) = sw_abs t ++ map_of (kv # kvs)"
    using IH unfolding im(2) ma by blast
  with IH im show ?case by (simp only: foldl_Cons kv) simp
qed simp

lemma rehash_correct:
  assumes "sw_unique t" "cap_ok c" "length (sw_entries t) \<le> c * 7 div 8"
  shows "sw_inv T (rehash T c t)" "sw_abs (rehash T c t) = sw_abs t"
    "sw_size (rehash T c t) = length (sw_entries t)" "tombstones (rehash T c t) = 0"
    "capacity (rehash T c t) = c" "grow_at (rehash T c t) = c * 7 div 8"
proof -
  have "sw_core T (rehash T c t) \<and> tombstones (rehash T c t) = 0 \<and> capacity (rehash T c t) = c \<and>
    grow_at (rehash T c t) = c * 7 div 8 \<and> sw_size (rehash T c t) = length (sw_entries t) \<and>
    sw_abs (rehash T c t) = Map.empty ++ map_of (sw_entries t)"
    unfolding rehash_def
    using fold_insert_moved [OF core_blank [OF assms(2), of T], of "sw_entries t"] assms
    by (simp add: abs_blank distinct_sw_entries)
  then show "sw_inv T (rehash T c t)" "sw_abs (rehash T c t) = sw_abs t"
    "sw_size (rehash T c t) = length (sw_entries t)" "tombstones (rehash T c t) = 0"
    "capacity (rehash T c t) = c" "grow_at (rehash T c t) = c * 7 div 8"
    using assms(3) by (simp_all add: sw_inv_def sw_abs_def)
qed

lemma sw_inv_core: "sw_inv T t \<Longrightarrow> sw_core T t"
  by (simp add: sw_inv_def)

lemma sw_new_correct: "sw_inv T (sw_new T)" "sw_abs (sw_new T) = Map.empty" "sw_size (sw_new T) = 0"
proof -
  let ?z = "\<lparr>ctrl = [], slots = [], capacity = 0, sw_mask = 0, sw_size = 0, tombstones = 0,
    grow_at = 0\<rparr> :: ('a, 'b) swiss"
  have e: "sw_entries ?z = []" "sw_unique ?z" by (simp_all add: sw_entries_def sw_unique_def)
  note rc = rehash_correct [OF e(2) cap_ok_16, of T]
  show "sw_inv T (sw_new T)" "sw_abs (sw_new T) = Map.empty" "sw_size (sw_new T) = 0"
    using rc e(1) by (simp_all add: sw_new_def sw_abs_def)
qed

lemma make_room_correct:
  assumes "sw_inv T t"
  shows "sw_core T (sw_make_room T t)" "sw_abs (sw_make_room T t) = sw_abs t"
    "sw_size (sw_make_room T t) + tombstones (sw_make_room T t) + 1 \<le> grow_at (sw_make_room T t)"
proof -
  note core = sw_inv_core [OF assms]
  note sh = sw_core_shape [OF core]
  have un: "sw_unique t" using core by (rule sw_core_unique)
  have ga: "grow_at t = capacity t * 7 div 8" "sw_size t = length (sw_entries t)" "sw_size t \<le> grow_at t"
    using sh assms sw_size_entries [OF core] by (auto simp: sw_shape_def sw_inv_def)
  have c16: "16 \<le> capacity t" using sh by (rule sw_shape_capacity)
  have g2: "length (sw_entries t) \<le> capacity t * 2 * 7 div 8" "grow_at t + 1 \<le> capacity t * 2 * 7 div 8"
    using ga c16 by linarith+
  have g1: "length (sw_entries t) \<le> capacity t * 7 div 8" using ga by simp
  note r2 = rehash_correct [OF un cap_ok_double [OF cap_ok_capacity [OF sh]] g2(1), of T]
  note r1 = rehash_correct [OF un cap_ok_capacity [OF sh] g1, of T]
  consider "sw_size t + 1 > grow_at t" | "sw_size t + 1 \<le> grow_at t" "sw_size t + tombstones t + 1 > grow_at t"
    | "sw_size t + tombstones t + 1 \<le> grow_at t" by linarith
  then have "sw_core T (sw_make_room T t) \<and> sw_abs (sw_make_room T t) = sw_abs t \<and>
    sw_size (sw_make_room T t) + tombstones (sw_make_room T t) + 1 \<le> grow_at (sw_make_room T t)"
  proof cases
    case 1
    then have "sw_make_room T t = rehash T (capacity t * 2) t" by (simp add: sw_make_room_def)
    moreover have "length (sw_entries t) + 1 \<le> capacity t * 2 * 7 div 8" using ga g2(2) by linarith
    ultimately show ?thesis using r2 by (simp add: sw_inv_core)
  next
    case 2
    then have "sw_make_room T t = rehash T (capacity t) t" by (simp add: sw_make_room_def)
    then show ?thesis using r1 2 ga by (simp add: sw_inv_core)
  next
    case 3
    then have "sw_make_room T t = t" by (simp add: sw_make_room_def)
    then show ?thesis using core 3 by simp
  qed
  then show "sw_core T (sw_make_room T t)" "sw_abs (sw_make_room T t) = sw_abs t"
    "sw_size (sw_make_room T t) + tombstones (sw_make_room T t) + 1 \<le> grow_at (sw_make_room T t)"
    by simp_all
qed

subsection \<open>Lookup\<close>

lemma sw_find_at:
  assumes "sw_inv T t" "i < capacity t" "sw_full t i"
  shows "sw_find T t (slot_key t i) = Some i"
proof -
  note core = sw_inv_core [OF assms(1)]
  obtain e where e: "e < capacity t" "ctrl t ! e = kEmpty" using sw_inv_has_empty [OF assms(1)] by blast
  note f = sw_find_core [OF core e, of "slot_key t i"]
  obtain j where j: "sw_find T t (slot_key t i) = Some j" using f(2) assms(2,3) by blast
  with f(1) [OF j] core assms(2,3) show ?thesis by (auto simp: sw_core_def sw_unique_def)
qed

lemma sw_find_Some:
  assumes "sw_inv T t" "sw_find T t k = Some i"
  shows "i < capacity t" "sw_full t i" "slot_key t i = k" "sw_abs t k = Some (sw_value t i)"
proof -
  note core = sw_inv_core [OF assms(1)]
  obtain e where e: "e < capacity t" "ctrl t ! e = kEmpty" using sw_inv_has_empty [OF assms(1)] by blast
  show i: "i < capacity t" "sw_full t i" "slot_key t i = k"
    using sw_find_core(1) [OF core e assms(2)] by auto
  then show "sw_abs t k = Some (sw_value t i)"
    by (intro abs_at [OF sw_core_unique [OF core], of i]) (auto simp: sw_value_def prod_eq_iff)
qed

lemma sw_find_None:
  assumes "sw_inv T t"
  shows "sw_find T t k = None \<longleftrightarrow> sw_abs t k = None"
proof
  obtain e where e: "e < capacity t" "ctrl t ! e = kEmpty" using sw_inv_has_empty [OF assms] by blast
  show "sw_abs t k = None" if "sw_find T t k = None"
    using sw_find_core(2) [OF sw_inv_core [OF assms] e that] by (auto simp: sw_abs_None)
  show "sw_find T t k = None" if "sw_abs t k = None"
    using sw_find_Some(4) [OF assms] that by (metis not_Some_eq)
qed

lemma sw_inv_write:
  assumes "sw_inv T t"
  shows "sw_inv T (sw_write t i v)"
  using assms sw_core_write [of T t i v] by (simp add: sw_inv_def)

lemma sw_abs_write:
  assumes "sw_inv T t" "sw_find T t k = Some i"
  shows "sw_abs (sw_write t i v) = (sw_abs t)(k \<mapsto> v)"
  using abs_write [OF sw_inv_core [OF assms(1)] sw_find_Some(1,2) [OF assms]] sw_find_Some(3) [OF assms]
  by simp

lemma sw_find_write:
  assumes "sw_inv T t" "sw_find T t k = Some i"
  shows "sw_find T (sw_write t i v) k = Some i"
  using sw_find_at [OF sw_inv_write [OF assms(1)], of i i v] sw_find_Some(1-3) [OF assms]
  by simp

subsection \<open>Insertion\<close>

lemma sw_insert_run:
  assumes core: "sw_core T t" and room: "sw_size t + tombstones t < capacity t"
  shows "(\<exists>i. sw_insert_loop t k (h2 (p_hash T k)) (home_pos T t k) None = Some (Inl i) \<and>
            i < capacity t \<and> sw_full t i \<and> slot_key t i = k) \<or>
    (\<exists>s. sw_insert_loop t k (h2 (p_hash T k)) (home_pos T t k) None = Some (Inr (Some s)) \<and>
       sw_abs t k = None \<and> s < capacity t \<and> ctrl t ! s < 0 \<and>
       (\<forall>m < probe_dist t (home_pos T t k) s div 16. \<not> stops t (probe_pos t (home_pos T t k) m)))"
proof -
  note sh = sw_core_shape [OF core]
  let ?p = "home_pos T t k" and ?nd = "h2 (p_hash T k)"
  have p: "?p < capacity t" by (rule home_pos_less [OF sh])
  obtain e where e: "e < capacity t" "ctrl t ! e = kEmpty" using has_empty [OF core room] by blast
  obtain n where
    n: "\<And>m. m < n \<Longrightarrow> hit t k ?nd (probe_pos t ?p m) = None \<and> \<not> stops t (probe_pos t ?p m)"
    and n16: "16 * n < capacity t"
    and res: "case hit t k ?nd (probe_pos t ?p n) of
        Some i \<Rightarrow> i < capacity t \<and> sw_full t i \<and> slot_key t i = k
      | None \<Rightarrow> stops t (probe_pos t ?p n) \<and> (\<forall>i<capacity t. sw_full t i \<longrightarrow> slot_key t i \<noteq> k)"
    using search_end [OF core e, of k] by blast
  have run: "sw_insert_loop t k ?nd ?p None =
    Some (case hit t k ?nd (probe_pos t ?p n) of Some i \<Rightarrow> Inl i
          | None \<Rightarrow> Inr (remembered t ?p 0 (Suc n) None))"
    using insert_loop_run [OF sh, of 0 n k ?nd ?p None] n res p
    by (simp add: probe_pos_0 split: option.splits)
  show ?thesis
  proof (cases "hit t k ?nd (probe_pos t ?p n)")
    case (Some i)
    with run res show ?thesis by auto
  next
    case None
    let ?P = "\<lambda>m. free_lane t (probe_pos t ?p m) \<noteq> None"
    from None res have st: "stops t (probe_pos t ?p n)" and ab: "sw_abs t k = None"
      by (auto simp: sw_abs_None)
    obtain l where l: "l < 16" "ctrl t ! lane_slot t ?p n l = kEmpty"
      using st by (auto simp: stops_iff sh)
    then have Pn: "?P n" using free_lane_None [OF sh _ l(1), of ?p n] by fastforce
    define m where "m = (LEAST m. ?P m)"
    have m1: "m \<le> n" unfolding m_def by (rule Least_le [of ?P, OF Pn])
    have m3: "free_lane t (probe_pos t ?p j) = None" if "j < m" for j
      using not_less_Least [of j ?P] that unfolding m_def by blast
    have "?P m" unfolding m_def by (rule LeastI [of ?P, OF Pn])
    then obtain s where s: "free_lane t (probe_pos t ?p m) = Some s" by auto
    have "remembered t ?p 0 (Suc n) None = Some s"
      using m1 m3 s by (intro remembered_first [of m]) auto
    moreover have "16 * m < capacity t" using m1 n16 by linarith
    note ff = first_free_slot [OF sh p this s m3]
    ultimately show ?thesis using run None ab ff by auto
  qed
qed

lemma sw_insert_correct:
  assumes inv: "sw_inv T t0" and res: "sw_insert T t0 k v = (t', i, b)"
  shows "sw_inv T t'" "sw_abs t' = (sw_abs t0)(k \<mapsto> v)" "b \<longleftrightarrow> sw_abs t0 k = None"
    "sw_find T t' k = Some i"
proof -
  let ?t = "sw_make_room T t0"
  note mr = make_room_correct [OF inv]
  note core = mr(1) and sh = sw_core_shape [OF mr(1)]
  have room: "sw_size ?t + tombstones ?t < capacity ?t" using mr(3) grow_at_less [OF sh] by linarith
  have inv_t: "sw_inv T ?t" using core mr(3) by (simp add: sw_inv_def)
  have "sw_inv T t' \<and> sw_abs t' = (sw_abs t0)(k \<mapsto> v) \<and> (b \<longleftrightarrow> sw_abs t0 k = None) \<and>
    i < capacity t' \<and> sw_full t' i \<and> slot_key t' i = k"
    using sw_insert_run [OF core room, of k]
  proof (elim disjE exE conjE)
    fix j assume j: "sw_insert_loop ?t k (h2 (p_hash T k)) (home_pos T ?t k) None = Some (Inl j)"
      "j < capacity ?t" "sw_full ?t j" "slot_key ?t j = k"
    then have "t' = sw_write ?t j v" "i = j" "\<not> b" using res by (auto simp: sw_insert_def Let_def)
    moreover have "sw_abs ?t k \<noteq> None" using j by (auto simp: sw_abs_None)
    ultimately show ?thesis
      using sw_inv_write [OF inv_t] abs_write [OF core j(2,3)] j mr(2) by simp
  next
    fix s assume s: "sw_insert_loop ?t k (h2 (p_hash T k)) (home_pos T ?t k) None = Some (Inr (Some s))"
      "sw_abs ?t k = None" "s < capacity ?t" "ctrl ?t ! s < 0"
      and reach: "\<forall>m < probe_dist ?t (home_pos T ?t k) s div 16. \<not> stops ?t (probe_pos ?t (home_pos T ?t k) m)"
    let ?nd = "h2 (p_hash T k)"
    from s(1) res have t': "t' = (set_ctrl ?t s ?nd)
        \<lparr>tombstones := (if ctrl ?t ! s = kDeleted then tombstones ?t - 1 else tombstones ?t),
         slots := (slots ?t)[s := (k, v)], sw_size := sw_size ?t + 1\<rparr>" and ib: "i = s" "b"
      by (auto simp: sw_insert_def Let_def)
    have up: "slot_upd ?t s ?nd (k, v) t'" by (rule slot_updI [OF sh s(3)]) (simp_all add: t')
    have core': "sw_core T t'"
      using s(2) reach by (intro core_place [OF core up s(3,4)]) (auto simp: t' sw_abs_None)
    moreover have "sw_size t' + tombstones t' \<le> grow_at t'" using mr(3) by (auto simp: t')
    moreover have "sw_abs t' = (sw_abs ?t)(k \<mapsto> v)"
      by (rule abs_place [OF core core' up s(3,4) h2_nonneg])
    ultimately show ?thesis
      using up s mr(2) ib by (simp add: sw_inv_def slot_upd_def)
  qed
  then show "sw_inv T t'" "sw_abs t' = (sw_abs t0)(k \<mapsto> v)" "b \<longleftrightarrow> sw_abs t0 k = None"
    "sw_find T t' k = Some i"
    using sw_find_at [of T t' i] by auto
qed

subsection \<open>Deletion, clearing, reserving\<close>

lemma sw_erase_correct:
  assumes inv: "sw_inv T t" and res: "sw_erase T t k = (t', b)"
  shows "sw_inv T t'" "sw_abs t' = (sw_abs t)(k := None)" "b \<longleftrightarrow> sw_abs t k \<noteq> None"
proof -
  note core = sw_inv_core [OF inv] and sh = sw_core_shape [OF sw_inv_core [OF inv]]
  obtain e where e: "e < capacity t" "ctrl t ! e = kEmpty" using sw_inv_has_empty [OF inv] by blast
  obtain r where r: "sw_find_loop t k (h2 (p_hash T k)) (home_pos T t k) = Some r"
    "case r of Some i \<Rightarrow> i < capacity t \<and> sw_full t i \<and> slot_key t i = k
     | None \<Rightarrow> \<forall>i<capacity t. sw_full t i \<longrightarrow> slot_key t i \<noteq> k"
    using sw_find_loop_ends [OF core e, of k] by blast
  have "sw_inv T t' \<and> sw_abs t' = (sw_abs t)(k := None) \<and> (b \<longleftrightarrow> sw_abs t k \<noteq> None)"
  proof (cases r)
    case None
    then have "sw_abs t k = None" "t' = t" "\<not> b" using r res by (auto simp: sw_abs_None sw_erase_def)
    then show ?thesis using inv by (simp add: fun_upd_idem)
  next
    case (Some s)
    with r have s: "s < capacity t" "sw_full t s" "slot_key t s = k" by auto
    from Some r(1) res have t': "t' = (set_ctrl t s kDeleted)
        \<lparr>slots := (slots t)[s := (p_key T, p_value T)], sw_size := sw_size t - 1,
         tombstones := tombstones t + 1\<rparr>" and b: b
      by (auto simp: sw_erase_def)
    have up: "slot_upd t s kDeleted (p_key T, p_value T) t'"
      by (rule slot_updI [OF sh s(1)]) (simp_all add: t')
    have core': "sw_core T t'" by (rule core_erase [OF core up s(1,2)]) (simp_all add: t')
    have "0 < sw_size t"
      using core s by (auto simp: sw_core_def sw_counts_def card_gt_0_iff)
    then have "sw_size t' + tombstones t' \<le> grow_at t'" using inv by (simp add: t' sw_inv_def)
    moreover have "sw_abs t k \<noteq> None" using s by (auto simp: sw_abs_None)
    ultimately show ?thesis
      using core' abs_erase [OF core core' up s(1,2)] s(3) b by (simp add: sw_inv_def)
  qed
  then show "sw_inv T t'" "sw_abs t' = (sw_abs t)(k := None)" "b \<longleftrightarrow> sw_abs t k \<noteq> None" by auto
qed

lemma sw_clear_blank:
  assumes "sw_inv T t"
  shows "sw_clear T t = sw_blank T (capacity t)"
  using sw_core_shape [OF sw_inv_core [OF assms]]
  by (simp add: sw_clear_def sw_blank_def sw_shape_def)

lemma sw_clear_correct:
  assumes "sw_inv T t"
  shows "sw_inv T (sw_clear T t)" "sw_abs (sw_clear T t) = Map.empty"
  using core_blank [OF cap_ok_capacity [OF sw_core_shape [OF sw_inv_core [OF assms]]], of T]
  by (simp_all add: sw_clear_blank [OF assms] sw_inv_def abs_blank)

lemma reserve_need_ok: "need = 2 ^ k \<Longrightarrow> \<exists>j. sw_reserve_need n need = 2 ^ j \<and> k \<le> j"
proof (induction n need arbitrary: k rule: sw_reserve_need.induct)
  case (1 n need)
  show ?case
  proof (cases "need > 0 \<and> need * 7 div 8 < n")
    case True
    with "1.prems" "1.IH" [of "Suc k"] obtain j where
      "sw_reserve_need n (need * 2) = 2 ^ j" "Suc k \<le> j" by auto
    with True show ?thesis by (subst sw_reserve_need.simps) (auto intro: exI [of _ j])
  next
    case False
    with "1.prems" show ?thesis by (subst sw_reserve_need.simps) auto
  qed
qed

lemma reserve_need_enough: "0 < need \<Longrightarrow> n \<le> sw_reserve_need n need * 7 div 8"
proof (induction n need rule: sw_reserve_need.induct)
  case (1 n need)
  then show ?case by (subst sw_reserve_need.simps) auto
qed

lemma sw_reserve_correct:
  assumes inv: "sw_inv T t"
  shows "sw_inv T (sw_reserve T n t)" "sw_abs (sw_reserve T n t) = sw_abs t"
    "n \<le> grow_at (sw_reserve T n t)"
proof -
  note core = sw_inv_core [OF inv] and sh = sw_core_shape [OF sw_inv_core [OF inv]]
  let ?need = "sw_reserve_need n 8"
  obtain j where j: "?need = 2 ^ j" using reserve_need_ok [of 8 3 n] by auto
  have re: "sw_inv T (rehash T ?need t)" "sw_abs (rehash T ?need t) = sw_abs t"
    "grow_at (rehash T ?need t) = ?need * 7 div 8" if big: "?need > capacity t"
  proof -
    have "16 \<le> capacity t" by (rule sw_shape_capacity [OF sh])
    with big j have "(2 :: nat) ^ 4 < 2 ^ j" by simp
    then have "4 < j" by (rule power_less_imp_less_exp [rotated]) simp
    then have "cap_ok ?need" using j by (auto simp: cap_ok_def intro!: exI [of _ j])
    moreover have "length (sw_entries t) \<le> ?need * 7 div 8"
    proof -
      have "length (sw_entries t) \<le> capacity t * 7 div 8"
        using inv sh by (simp add: sw_size_entries [OF core, symmetric] sw_inv_def sw_shape_def)
      also have "\<dots> \<le> ?need * 7 div 8" using big by (intro div_le_mono) simp
      finally show ?thesis .
    qed
    ultimately show "sw_inv T (rehash T ?need t)" "sw_abs (rehash T ?need t) = sw_abs t"
      "grow_at (rehash T ?need t) = ?need * 7 div 8"
      using rehash_correct [OF sw_core_unique [OF core], of ?need T] by auto
  qed
  then show "sw_inv T (sw_reserve T n t)" "sw_abs (sw_reserve T n t) = sw_abs t"
    using inv by (simp_all add: sw_reserve_def Let_def)
  have enough: "n \<le> ?need * 7 div 8" by (rule reserve_need_enough) simp
  show "n \<le> grow_at (sw_reserve T n t)"
  proof (cases "?need > capacity t")
    case True
    then show ?thesis using re(3) enough by (simp add: sw_reserve_def Let_def)
  next
    case False
    then have "?need * 7 div 8 \<le> capacity t * 7 div 8" by (intro div_le_mono) simp
    then show ?thesis using False enough sh by (simp add: sw_reserve_def Let_def sw_shape_def)
  qed
qed

subsection \<open>The dictionary contract\<close>

lemma sw_insert_laws:
  assumes "sw_inv T t"
  shows "sw_inv T (fst (sw_insert T t k v))"
    and "sw_abs (fst (sw_insert T t k v)) = (sw_abs t)(k \<mapsto> v)"
    and "sw_find T (fst (sw_insert T t k v)) k = Some (fst (snd (sw_insert T t k v)))"
    and "snd (snd (sw_insert T t k v)) \<longleftrightarrow> sw_abs t k = None"
  using sw_insert_correct [OF assms, of k v] by (cases "sw_insert T t k v"; force)+

lemma sw_erase_laws:
  assumes "sw_inv T t"
  shows "sw_inv T (fst (sw_erase T t k))"
    and "sw_abs (fst (sw_erase T t k)) = (sw_abs t)(k := None)"
    and "snd (sw_erase T t k) \<longleftrightarrow> sw_abs t k \<noteq> None"
  using sw_erase_correct [OF assms, of k] by (cases "sw_erase T t k"; force)+

lemma sw_entries_laws:
  assumes "sw_inv T t"
  shows "distinct (map fst (sw_entries t))" "map_of (sw_entries t) = sw_abs t"
    "sw_size t = length (sw_entries t)"
  using sw_inv_core [OF assms]
  by (simp_all add: distinct_sw_entries sw_core_unique sw_abs_def sw_size_entries)

interpretation sw: dict "sw_inv T" sw_abs "sw_find T" sw_value sw_write "sw_insert T" "sw_erase T"
  "sw_new T" "sw_clear T" sw_entries sw_size
  for T :: "('k, 'v) sw_params"
  by unfold_locales
    (rule sw_new_correct sw_find_Some sw_find_None sw_inv_write sw_abs_write sw_find_write sw_insert_laws
       sw_erase_laws sw_clear_correct sw_entries_laws; assumption)+

end
