(* ===== verification/Swiss_Simd.thy ===== *)
theory Swiss_Simd
  imports Swiss_Inv
begin

section \<open>The SSE2 and NEON group primitives (\<^verbatim>\<open>include/blazekv/swiss_table.hpp\<close>)\<close>

text \<open>
  The vector instructions on sixteen bytes, as their manuals define them, and the group primitives over them. SSE2
  gives one bit per lane, as the portable code does; NEON gives four bits per lane, and its loop over the matches sees
  each lane four times.
\<close>

type_synonym lanes = "8 word list"

definition lanes_of :: "int list \<Rightarrow> lanes" where
  "lanes_of g = map word_of_int g"

subsection \<open>SSE2\<close>

definition mm_cmpeq_epi8 :: "8 word \<Rightarrow> lanes \<Rightarrow> lanes" where
  "mm_cmpeq_epi8 v g = map (\<lambda>b. if b = v then 0xFF else 0) g"

definition mm_movemask_epi8 :: "lanes \<Rightarrow> u32" where
  "mm_movemask_epi8 g = foldl (\<lambda>m i. if bit (g ! i) 7 then m OR push_bit i 1 else m) 0 [0..<16]"

definition sse2_MatchBits :: "lanes \<Rightarrow> 8 word \<Rightarrow> u32" where
  "sse2_MatchBits g needle = mm_movemask_epi8 (mm_cmpeq_epi8 needle g)"

definition sse2_MatchEmpty :: "lanes \<Rightarrow> bool" where
  "sse2_MatchEmpty g \<longleftrightarrow> mm_movemask_epi8 (mm_cmpeq_epi8 (word_of_int kEmpty) g) \<noteq> 0"

definition sse2_MatchEmptyOrDeleted :: "lanes \<Rightarrow> u32" where
  "sse2_MatchEmptyOrDeleted g = mm_movemask_epi8 g"

subsection \<open>NEON\<close>

definition vceqq_u8 :: "8 word \<Rightarrow> lanes \<Rightarrow> lanes" where
  "vceqq_u8 v g = map (\<lambda>b. if b = v then 0xFF else 0) g"

definition vcgeq_u8 :: "8 word \<Rightarrow> lanes \<Rightarrow> lanes" where
  "vcgeq_u8 v g = map (\<lambda>b. if v \<le> b then 0xFF else 0) g"

text \<open>Sixteen bytes read as eight little-endian halfwords; each shifted right by four and narrowed to a byte.\<close>

definition halfword :: "lanes \<Rightarrow> nat \<Rightarrow> 16 word" where
  "halfword g j = ucast (g ! (2 * j)) OR push_bit 8 (ucast (g ! (2 * j + 1)))"

definition vshrn_n_u16 :: "nat \<Rightarrow> lanes \<Rightarrow> lanes" where
  "vshrn_n_u16 k g = map (\<lambda>j. ucast (drop_bit k (halfword g j))) [0..<8]"

definition vget_lane_u64 :: "lanes \<Rightarrow> u64" where
  "vget_lane_u64 g = foldl (\<lambda>m j. m OR push_bit (8 * j) (ucast (g ! j))) 0 [0..<8]"

definition neon_mask :: "lanes \<Rightarrow> u64" where
  "neon_mask cmp = vget_lane_u64 (vshrn_n_u16 4 cmp)"

definition neon_MatchBits :: "lanes \<Rightarrow> 8 word \<Rightarrow> u64" where
  "neon_MatchBits g needle = neon_mask (vceqq_u8 needle g)"

definition neon_MatchEmpty :: "lanes \<Rightarrow> bool" where
  "neon_MatchEmpty g \<longleftrightarrow> neon_mask (vceqq_u8 0x80 g) \<noteq> 0"

definition neon_MatchEmptyOrDeleted :: "lanes \<Rightarrow> u64" where
  "neon_MatchEmptyOrDeleted g = neon_mask (vcgeq_u8 0x80 g)"

definition ctz64 :: "u64 \<Rightarrow> nat" where
  "ctz64 x = length (takeWhile (\<lambda>i. \<not> bit x i) [0..<64])"

definition neon_ctz :: "u64 \<Rightarrow> nat" where
  "neon_ctz x = ctz64 x div 4"

lemma clear_lowest_less64: "x \<noteq> 0 \<Longrightarrow> unat (x AND (x - 1)) < unat (x :: u64)"
proof -
  assume "x \<noteq> 0"
  then have "unat (x - 1) < unat x"
    by (simp add: unat_minus_one) (simp add: unat_gt_0)
  moreover have "unat (x AND (x - 1)) \<le> unat (x - 1)"
    by (metis word_and_le1 word_le_nat_alt)
  ultimately show ?thesis by linarith
qed

text \<open>The loop over the matches, on a NEON mask.\<close>

function neon_scan :: "('k, 'v) swiss \<Rightarrow> 'k \<Rightarrow> nat \<Rightarrow> u64 \<Rightarrow> nat option" where
  "neon_scan t key pos match =
     (if match \<noteq> 0 then
        let i = (pos + neon_ctz match) AND sw_mask t in
        if fst (slots t ! i) = key then Some i
        else neon_scan t key pos (match AND (match - 1))
      else None)"
  by pat_completeness auto
termination
  by (relation "measure (\<lambda>(t, key, pos, match). unat match)") (simp_all add: clear_lowest_less64)

declare neon_scan.simps [simp del]

subsection \<open>The masks\<close>

lemma bit_movemask: "bit (mm_movemask_epi8 g) n \<longleftrightarrow> n < 16 \<and> bit (g ! n) 7"
proof -
  have "bit (foldl (\<lambda>m i. if bit (g ! i) 7 then m OR push_bit i 1 else m) (m :: u32) is) n \<longleftrightarrow>
      bit m n \<or> (n < 32 \<and> n \<in> set is \<and> bit (g ! n) 7)" for m "is"
  proof (induction "is" arbitrary: m)
    case (Cons i "is")
    have "bit (m OR push_bit i 1) n \<longleftrightarrow> bit m n \<or> (n < 32 \<and> n = i)" by (auto simp: bit_simps)
    then show ?case by (simp add: Cons.IH) blast
  qed simp
  then show ?thesis by (auto simp: mm_movemask_epi8_def)
qed

definition int8 :: "int \<Rightarrow> bool" where
  "int8 c \<longleftrightarrow> - 128 \<le> c \<and> c < 128"

lemma byte_inj:
  assumes "int8 a" "int8 b"
  shows "(word_of_int a :: 8 word) = word_of_int b \<longleftrightarrow> a = b"
proof -
  have "(word_of_int a :: 8 word) = word_of_int b \<longleftrightarrow> a mod 256 = b mod 256"
    by (simp add: word_of_int_eq_iff take_bit_eq_mod)
  also have "\<dots> \<longleftrightarrow> a = b"
  proof -
    have "a = b" if "a mod 256 = b mod 256"
    proof -
      have "256 dvd a - b" using that by (simp add: mod_eq_dvd_iff)
      then obtain k where k: "a - b = 256 * k" by blast
      have "k = 0" using k assms unfolding int8_def by linarith
      with k show ?thesis by simp
    qed
    then show ?thesis by blast
  qed
  finally show ?thesis .
qed

lemma byte_sign:
  assumes "int8 c"
  shows "bit (word_of_int c :: 8 word) 7 \<longleftrightarrow> c < 0"
proof -
  have "bit (word_of_int c :: 8 word) 7 \<longleftrightarrow> odd (c div 128)"
    by (simp add: bit_word_of_int_iff bit_iff_odd [of c 7])
  with assms show ?thesis unfolding int8_def by presburger
qed

lemma byte_ge:
  assumes "int8 c"
  shows "0x80 \<le> (word_of_int c :: 8 word) \<longleftrightarrow> c < 0"
proof -
  have "0x80 \<le> (word_of_int c :: 8 word) \<longleftrightarrow> 128 \<le> c mod 256"
    by (simp add: word_le_def uint_word_of_int)
  with assms show ?thesis unfolding int8_def by presburger
qed

lemma bit_FF: "bit (0xFF :: 8 word) n \<longleftrightarrow> n < 8"
proof -
  have "(0xFF :: 8 word) = - 1" by simp
  then show ?thesis by (metis bit_minus_1_iff possible_bit_word len_bit0 len_num1 mult_2 numeral_Bit0 one_add_one)
qed

lemma bit_halfword:
  "bit (halfword g j) p \<longleftrightarrow> (if p < 8 then bit (g ! (2 * j)) p else p < 16 \<and> bit (g ! (2 * j + 1)) (p - 8))"
  by (auto simp: halfword_def bit_or_iff bit_push_bit_iff bit_ucast_iff dest: bit_imp_le_length)

lemma bit_byte_at:
  "bit (push_bit (8 * j) (ucast (b :: 8 word)) :: u64) n \<longleftrightarrow> n < 64 \<and> n div 8 = j \<and> bit b (n mod 8)"
proof -
  have "bit (push_bit (8 * j) (ucast b) :: u64) n \<longleftrightarrow> n < 64 \<and> 8 * j \<le> n \<and> n - 8 * j < 8 \<and> bit b (n - 8 * j)"
    by (auto simp: bit_push_bit_iff bit_ucast_iff dest: bit_imp_le_length)
  moreover have "8 * j \<le> n \<and> n - 8 * j < 8 \<and> n - 8 * j = n mod 8" if "n div 8 = j"
    using that mult_div_mod_eq [of 8 n] by (auto simp: minus_mult_div_eq_mod)
  moreover have "n div 8 = j" if "8 * j \<le> n" "n - 8 * j < 8"
    using that by (intro div_nat_eqI) auto
  ultimately show ?thesis by auto
qed

lemma bit_vget_lane: "bit (vget_lane_u64 g) n \<longleftrightarrow> n < 64 \<and> bit (g ! (n div 8)) (n mod 8)"
proof -
  have "bit (foldl (\<lambda>m j. m OR push_bit (8 * j) (ucast (g ! j))) (m :: u64) is) n \<longleftrightarrow>
      bit m n \<or> (n < 64 \<and> (n div 8) \<in> set is \<and> bit (g ! (n div 8)) (n mod 8))" for m "is"
  proof (induction "is" arbitrary: m)
    case (Cons j "is")
    show ?case by (simp only: foldl_Cons Cons.IH bit_or_iff bit_byte_at list.set insert_iff) metis
  qed simp
  moreover have "n div 8 \<in> set [0..<8]" if "n < 64" using that by auto
  ultimately show ?thesis unfolding vget_lane_u64_def by auto
qed

lemma bit_narrow: "bit (ucast (w :: 16 word) :: 8 word) p \<longleftrightarrow> p < 8 \<and> bit w p"
  by (simp add: bit_ucast_iff)

text \<open>A NEON mask of a comparison has four bits for each lane.\<close>

lemma bit_neon_mask:
  assumes "length cmp = 16" "\<forall>b\<in>set cmp. b = 0 \<or> b = 0xFF"
  shows "bit (neon_mask cmp) n \<longleftrightarrow> n < 64 \<and> cmp ! (n div 4) = 0xFF"
proof (cases "n < 64")
  case True
  define j where "j = n div 8"
  have j: "j < 8" using True by (simp add: j_def)
  have lane: "bit (cmp ! i) p \<longleftrightarrow> cmp ! i = 0xFF" if "i < 16" "p < 8" for i p
    using assms that nth_mem [of i cmp] bit_FF [of p] by fastforce
  have "bit (neon_mask cmp) n \<longleftrightarrow> bit (halfword cmp j) (n mod 8 + 4)"
    using True j by (simp add: neon_mask_def vshrn_n_u16_def bit_vget_lane bit_narrow bit_drop_bit_eq j_def [symmetric] add.commute)
  also have "\<dots> \<longleftrightarrow> cmp ! (n div 4) = 0xFF"
  proof (cases "n mod 8 < 4")
    case True
    then have "n div 4 = 2 * j" unfolding j_def by presburger
    then show ?thesis using True j lane [of "2 * j" "n mod 8 + 4"] by (simp add: bit_halfword)
  next
    case False
    then have "n div 4 = 2 * j + 1" unfolding j_def by presburger
    moreover have "n mod 8 - 4 < 8" "n mod 8 + 4 - 8 = n mod 8 - 4" "n mod 8 < 12" by auto
    ultimately show ?thesis using False j lane [of "2 * j + 1" "n mod 8 - 4"] by (simp add: bit_halfword)
  qed
  finally show ?thesis using True by simp
qed (simp add: neon_mask_def bit_vget_lane)

subsection \<open>SSE2 computes what the portable code computes\<close>

lemma lanes_nth [simp]: "length g = 16 \<Longrightarrow> i < 16 \<Longrightarrow> lanes_of g ! i = word_of_int (g ! i)"
  by (simp add: lanes_of_def)

lemma bytes_nth: "length g = 16 \<Longrightarrow> \<forall>c\<in>set g. int8 c \<Longrightarrow> i < 16 \<Longrightarrow> int8 (g ! i)"
  by simp

lemma cmpeq_nth:
  assumes "length g = 16" "\<forall>c\<in>set g. int8 c" "int8 v" "i < 16"
  shows "mm_cmpeq_epi8 (word_of_int v) (lanes_of g) ! i = (if g ! i = v then 0xFF else 0)"
  using assms by (simp add: mm_cmpeq_epi8_def lanes_of_def byte_inj bytes_nth)

lemma sse2_MatchBits_portable:
  assumes "length g = 16" "\<forall>c\<in>set g. int8 c" "int8 v"
  shows "sse2_MatchBits (lanes_of g) (word_of_int v) = MatchBits g v"
proof (rule bit_eqI)
  fix n
  show "bit (sse2_MatchBits (lanes_of g) (word_of_int v)) n \<longleftrightarrow> bit (MatchBits g v) n"
    using assms bit_FF [of 7]
    by (cases "n < 16") (simp_all add: sse2_MatchBits_def MatchBits_def bit_movemask bit_lane_mask cmpeq_nth)
qed

lemma sse2_MatchEmptyOrDeleted_portable:
  assumes "length g = 16" "\<forall>c\<in>set g. int8 c"
  shows "sse2_MatchEmptyOrDeleted (lanes_of g) = MatchEmptyOrDeleted g"
proof (rule bit_eqI)
  fix n
  show "bit (sse2_MatchEmptyOrDeleted (lanes_of g)) n \<longleftrightarrow> bit (MatchEmptyOrDeleted g) n"
    using assms
    by (cases "n < 16")
      (simp_all add: sse2_MatchEmptyOrDeleted_def MatchEmptyOrDeleted_def bit_movemask bit_lane_mask byte_sign bytes_nth)
qed

lemma MatchEmpty_mask: "MatchEmpty g \<longleftrightarrow> MatchBits g kEmpty \<noteq> 0"
proof -
  have "MatchEmpty g \<longleftrightarrow> (\<exists>n<16. g ! n = kEmpty)" by (auto simp: MatchEmpty_def list_ex_iff kGroup_def)
  moreover have "MatchBits g kEmpty \<noteq> 0 \<longleftrightarrow> (\<exists>n<32. n < 16 \<and> g ! n = kEmpty)"
    by (simp add: word_nonzero_bit MatchBits_def bit_lane_mask)
  ultimately show ?thesis by force
qed

lemma int8_kEmpty: "int8 kEmpty" by (simp add: int8_def kEmpty_def)

lemma sse2_MatchEmpty_portable:
  assumes "length g = 16" "\<forall>c\<in>set g. int8 c"
  shows "sse2_MatchEmpty (lanes_of g) = MatchEmpty g"
  using sse2_MatchBits_portable [OF assms int8_kEmpty]
  by (simp add: sse2_MatchEmpty_def sse2_MatchBits_def MatchEmpty_mask)

subsection \<open>NEON finds what the portable code finds\<close>

lemma ctz64_is_lowest: "ctz64 x = lowest x"
  by (simp add: ctz64_def lowest_def)

lemma neon_scan_reference:
  "neon_scan t key pos match =
     find (\<lambda>i. fst (slots t ! i) = key)
          (map (\<lambda>b. (pos + b div 4) AND sw_mask t) (filter (bit match) [0..<64]))"
proof (induction t key pos match rule: neon_scan.induct)
  case (1 t key pos match)
  show ?case
  proof (cases "match = 0")
    case True
    then show ?thesis by (subst neon_scan.simps) simp
  next
    case False
    then have "filter (bit match) [0..<64] = lowest match # filter (bit (match AND (match - 1))) [0..<64]"
      using filter_bit_lowest [OF False] by simp
    then show ?thesis
      using "1.IH" False by (subst neon_scan.simps) (simp add: Let_def neon_ctz_def ctz64_is_lowest)
  qed
qed

lemma find_append: "find P (xs @ ys) = (case find P xs of None \<Rightarrow> find P ys | Some x \<Rightarrow> Some x)"
  by (induction xs) auto

text \<open>Seeing each lane four times in a row finds what seeing it once finds.\<close>

lemma find_four_times:
  "find P (map (\<lambda>b. f (b div 4)) (filter (\<lambda>b. L (b div 4)) [0..<4 * k])) = find P (map f (filter L [0..<k]))"
proof (induction k)
  case (Suc k)
  have "[4 * k..<4 * k + 4] = [4 * k, 4 * k + 1, 4 * k + 2, 4 * k + 3]"
    by (simp add: upt_conv_Cons)
  then have "[0..<4 * Suc k] = [0..<4 * k] @ [4 * k, 4 * k + 1, 4 * k + 2, 4 * k + 3]"
    using upt_add_eq_append [of 0 "4 * k" 4] by (simp only: mult_Suc_right add.commute [of 4])
  moreover have "(4 * k + 1) div 4 = k" "(4 * k + 2) div 4 = k" "(4 * k + 3) div 4 = k" by simp_all
  ultimately show ?case by (simp add: find_append Suc.IH split: option.splits)
qed simp

lemma bit_neon_compare:
  assumes "length g = 16"
  shows "bit (neon_mask (map (\<lambda>b. if Q b then 0xFF else 0) (lanes_of g))) n \<longleftrightarrow>
    n < 64 \<and> Q (word_of_int (g ! (n div 4)))"
proof -
  let ?cmp = "map (\<lambda>b. if Q b then 0xFF else (0 :: 8 word)) (lanes_of g)"
  have "bit (neon_mask ?cmp) n \<longleftrightarrow> n < 64 \<and> ?cmp ! (n div 4) = 0xFF"
    by (rule bit_neon_mask) (use assms in \<open>auto simp: lanes_of_def\<close>)
  moreover have "?cmp ! (n div 4) = 0xFF \<longleftrightarrow> Q (word_of_int (g ! (n div 4)))" if "n < 64"
    using assms that by (simp add: lanes_of_def)
  ultimately show ?thesis by auto
qed

lemma bit_neon_MatchBits:
  assumes "length g = 16" "\<forall>c\<in>set g. int8 c" "int8 v"
  shows "bit (neon_MatchBits (lanes_of g) (word_of_int v)) n \<longleftrightarrow> n < 64 \<and> g ! (n div 4) = v"
  using assms by (auto simp: neon_MatchBits_def vceqq_u8_def bit_neon_compare byte_inj bytes_nth)

lemma bit_neon_MatchEmptyOrDeleted:
  assumes "length g = 16" "\<forall>c\<in>set g. int8 c"
  shows "bit (neon_MatchEmptyOrDeleted (lanes_of g)) n \<longleftrightarrow> n < 64 \<and> g ! (n div 4) < 0"
  using assms
  by (auto simp: neon_MatchEmptyOrDeleted_def vcgeq_u8_def bit_neon_compare byte_ge bytes_nth simp del: of_int_eq_numeral_iff)

lemma filter_lanes: "filter (bit (lane_mask p g)) [0..<32] = filter (\<lambda>l. p (g ! l)) [0..<16]"
proof -
  have "[0..<32] = [0..<16] @ [16..<32::nat]" by (simp add: upt_add_eq_append [of 0 16 16, simplified])
  moreover have "filter (bit (lane_mask p g)) [16..<32] = []" by (auto simp: filter_empty_conv bit_lane_mask)
  moreover have "filter (bit (lane_mask p g)) [0..<16] = filter (\<lambda>l. p (g ! l)) [0..<16]"
    by (rule filter_cong) (auto simp: bit_lane_mask)
  ultimately show ?thesis by simp
qed

lemma neon_scan_portable:
  assumes "length g = 16" "\<forall>c\<in>set g. int8 c" "int8 v"
  shows "neon_scan t key pos (neon_MatchBits (lanes_of g) (word_of_int v)) = sw_scan t key pos (MatchBits g v)"
proof -
  have "filter (bit (neon_MatchBits (lanes_of g) (word_of_int v))) [0..<64] = filter (\<lambda>b. g ! (b div 4) = v) [0..<4 * 16]"
    by (rule filter_cong) (use bit_neon_MatchBits [OF assms] in auto)
  then show ?thesis
    using find_four_times [of "\<lambda>i. fst (slots t ! i) = key" "\<lambda>l. (pos + l) AND sw_mask t" "\<lambda>l. g ! l = v" 16]
    by (simp add: neon_scan_reference sw_scan_reference MatchBits_def filter_lanes)
qed

lemma mask_zero_iff:
  fixes x :: u64
  assumes "\<And>n. bit x n \<longleftrightarrow> n < 64 \<and> L (n div 4)"
  shows "x \<noteq> 0 \<longleftrightarrow> (\<exists>l<16. L l)"
proof -
  have "x \<noteq> 0 \<longleftrightarrow> (\<exists>n<64. L (n div 4))" by (auto simp: word_nonzero_bit assms)
  also have "\<dots> \<longleftrightarrow> (\<exists>l<16. L l)"
  proof
    assume "\<exists>l<16. L l"
    then obtain l where "l < 16" "L l" by blast
    then show "\<exists>n<64. L (n div 4)" by (intro exI [of _ "4 * l"]) simp
  next
    assume "\<exists>n<64. L (n div 4)"
    then obtain n where "n < 64" "L (n div 4)" by blast
    then show "\<exists>l<16. L l" by (intro exI [of _ "n div 4"]) simp
  qed
  finally show ?thesis .
qed

lemma lane_mask_zero_iff: "lane_mask p g \<noteq> 0 \<longleftrightarrow> (\<exists>l<16. p (g ! l))"
  by (force simp: word_nonzero_bit bit_lane_mask)

lemma neon_MatchEmpty_portable:
  assumes "length g = 16" "\<forall>c\<in>set g. int8 c"
  shows "neon_MatchEmpty (lanes_of g) = MatchEmpty g"
proof -
  have "neon_MatchEmpty (lanes_of g) \<longleftrightarrow> neon_MatchBits (lanes_of g) (word_of_int kEmpty) \<noteq> 0"
  proof -
    have "(0x80 :: 8 word) = word_of_int kEmpty" by (simp add: kEmpty_def)
    then show ?thesis unfolding neon_MatchEmpty_def neon_MatchBits_def by (simp only:)
  qed
  also have "\<dots> \<longleftrightarrow> (\<exists>l<16. g ! l = kEmpty)"
    by (rule mask_zero_iff) (rule bit_neon_MatchBits [OF assms int8_kEmpty])
  also have "\<dots> \<longleftrightarrow> MatchEmpty g" by (simp add: MatchEmpty_mask MatchBits_def lane_mask_zero_iff)
  finally show ?thesis .
qed

lemma neon_free_portable:
  assumes "length g = 16" "\<forall>c\<in>set g. int8 c"
  shows "neon_MatchEmptyOrDeleted (lanes_of g) \<noteq> 0 \<longleftrightarrow> MatchEmptyOrDeleted g \<noteq> 0"
    "MatchEmptyOrDeleted g \<noteq> 0 \<Longrightarrow> neon_ctz (neon_MatchEmptyOrDeleted (lanes_of g)) = ctz32 (MatchEmptyOrDeleted g)"
proof -
  let ?x = "neon_MatchEmptyOrDeleted (lanes_of g)" and ?y = "MatchEmptyOrDeleted g"
  note bx = bit_neon_MatchEmptyOrDeleted [OF assms]
  have by': "bit ?y n \<longleftrightarrow> n < 16 \<and> g ! n < 0" for n by (simp add: MatchEmptyOrDeleted_def bit_lane_mask)
  show nz: "?x \<noteq> 0 \<longleftrightarrow> ?y \<noteq> 0"
    using mask_zero_iff [of ?x "\<lambda>l. g ! l < 0", OF bx] by (simp add: MatchEmptyOrDeleted_def lane_mask_zero_iff)
  show "neon_ctz ?x = ctz32 ?y" if y: "?y \<noteq> 0"
  proof -
    have x: "?x \<noteq> 0" using y nz by simp
    note lx = lowest_bit [OF x] and ly = lowest_bit [OF y]
    have bl: "bit ?x (lowest ?x)" "bit ?y (lowest ?y)" using lx(2) ly(2) by blast+
    then have gx: "lowest ?x < 64" "g ! (lowest ?x div 4) < 0" and gy: "lowest ?y < 16" "g ! lowest ?y < 0"
      using bx by' by blast+
    have "\<not> lowest ?x div 4 < lowest ?y" using ly(3) gx by' by auto
    moreover have "\<not> 4 * lowest ?y < lowest ?x" using lx(3) [of "4 * lowest ?y"] gy bx by auto
    ultimately have "lowest ?x div 4 = lowest ?y" by linarith
    then show ?thesis by (simp add: neon_ctz_def ctz64_is_lowest ctz32_is_lowest)
  qed
qed

text \<open>The control bytes of a table are bytes.\<close>

lemma int8_h2: "int8 (h2 h)"
proof -
  have "uint (h AND 0x7F) \<le> 127" using word_and_le1 [of h "0x7F"] by (simp add: word_le_def)
  then show ?thesis using uint_ge_0 [of "h AND 0x7F"] unfolding int8_def h2_def by linarith
qed

lemma group_bytes:
  assumes "sw_core T t" "p < capacity t"
  shows "length (sw_group t p) = 16" "\<forall>c\<in>set (sw_group t p). int8 c"
proof -
  have sh: "sw_shape t" using assms(1) by (rule sw_core_shape)
  then show l: "length (sw_group t p) = 16" using assms(2) by (simp add: sw_group_def sw_shape_def kGroup_def)
  have "int8 (sw_group t p ! i)" if i: "i < 16" for i
  proof -
    have "(p + i) mod capacity t < capacity t" using sw_shape_capacity [OF sh] by simp
    then have "int8 (ctrl t ! ((p + i) mod capacity t))"
      using assms(1) int8_h2 by (force simp: sw_core_def sw_cells_def int8_kEmpty int8_def kDeleted_def kEmpty_def)
    then show ?thesis using sw_group_nth [OF sh assms(2) i] by simp
  qed
  then show "\<forall>c\<in>set (sw_group t p). int8 c" using l by (metis in_set_conv_nth)
qed

end
