(* ===== verification/Table_Props.thy ===== *)
theory Table_Props
  imports Swiss_Correct Swiss_Simd
begin

section \<open>Properties of the hash function and of the Swiss table\<close>

text \<open>
  The table is judged by whole histories: any sequence of its operations, run from the constructor.
  \<open>t_run\<close> performs it on the model and \<open>m_run\<close> on a finite map; both also collect the answers that
  the operations return.
\<close>

subsection \<open>Histories\<close>

datatype ('k, 'v) t_op =
    T_insert 'k 'v
  | T_erase 'k
  | T_assign 'k 'v
  | T_clear
  | T_reserve nat

text \<open>\<open>T_assign\<close> finds the key and writes through the pointer; it does nothing to an absent key.\<close>

fun t_do :: "('k, 'v) sw_params \<Rightarrow> ('k, 'v) swiss \<Rightarrow> ('k, 'v) t_op \<Rightarrow> ('k, 'v) swiss \<times> bool" where
  "t_do T t (T_insert k v) = (let (t', slot, b) = sw_insert T t k v in (t', b))"
| "t_do T t (T_erase k) = sw_erase T t k"
| "t_do T t (T_assign k v) = (case sw_find T t k of None \<Rightarrow> (t, False) | Some i \<Rightarrow> (sw_write t i v, True))"
| "t_do T t T_clear = (sw_clear T t, True)"
| "t_do T t (T_reserve n) = (sw_reserve T n t, True)"

fun m_do :: "('k \<Rightarrow> 'v option) \<Rightarrow> ('k, 'v) t_op \<Rightarrow> ('k \<Rightarrow> 'v option) \<times> bool" where
  "m_do m (T_insert k v) = (m(k \<mapsto> v), m k = None)"
| "m_do m (T_erase k) = (m(k := None), m k \<noteq> None)"
| "m_do m (T_assign k v) = (if m k = None then (m, False) else (m(k \<mapsto> v), True))"
| "m_do m T_clear = (Map.empty, True)"
| "m_do m (T_reserve n) = (m, True)"

fun t_run :: "('k, 'v) sw_params \<Rightarrow> ('k, 'v) swiss \<Rightarrow> ('k, 'v) t_op list \<Rightarrow> ('k, 'v) swiss \<times> bool list" where
  "t_run T t [] = (t, [])"
| "t_run T t (q # qs) = (let (t', b) = t_do T t q; (t'', bs) = t_run T t' qs in (t'', b # bs))"

fun m_run :: "('k \<Rightarrow> 'v option) \<Rightarrow> ('k, 'v) t_op list \<Rightarrow> ('k \<Rightarrow> 'v option) \<times> bool list" where
  "m_run m [] = (m, [])"
| "m_run m (q # qs) = (let (m', b) = m_do m q; (m'', bs) = m_run m' qs in (m'', b # bs))"

definition t_after :: "('k, 'v) sw_params \<Rightarrow> ('k, 'v) t_op list \<Rightarrow> ('k, 'v) swiss" where
  "t_after T qs = fst (t_run T (sw_new T) qs)"

lemma t_do_correct:
  assumes "sw_inv T t"
  shows "sw_inv T (fst (t_do T t q))" "sw_abs (fst (t_do T t q)) = fst (m_do (sw_abs t) q)"
    "snd (t_do T t q) = snd (m_do (sw_abs t) q)"
proof -
  have "sw_inv T (fst (t_do T t q)) \<and> sw_abs (fst (t_do T t q)) = fst (m_do (sw_abs t) q) \<and>
    snd (t_do T t q) = snd (m_do (sw_abs t) q)"
  proof (cases q)
    case (T_insert k v)
    then show ?thesis using sw_insert_laws [OF assms, of k v] by (simp add: split_beta)
  next
    case (T_erase k)
    then show ?thesis using sw_erase_laws [OF assms, of k] by simp
  next
    case (T_assign k v)
    then show ?thesis
      using assms sw_find_None [OF assms, of k] sw_inv_write [OF assms] sw_abs_write [OF assms]
      by (auto split: option.splits)
  next
    case T_clear
    then show ?thesis using sw_clear_correct [OF assms] by simp
  next
    case (T_reserve n)
    then show ?thesis using sw_reserve_correct [OF assms] by simp
  qed
  then show "sw_inv T (fst (t_do T t q))" "sw_abs (fst (t_do T t q)) = fst (m_do (sw_abs t) q)"
    "snd (t_do T t q) = snd (m_do (sw_abs t) q)" by auto
qed

lemma t_run_correct:
  "sw_inv T t \<Longrightarrow> sw_inv T (fst (t_run T t qs)) \<and> sw_abs (fst (t_run T t qs)) = fst (m_run (sw_abs t) qs) \<and>
     snd (t_run T t qs) = snd (m_run (sw_abs t) qs)"
proof (induction qs arbitrary: t)
  case (Cons q qs)
  then show ?case
    using Cons.IH [OF t_do_correct(1) [OF Cons.prems, of q]] t_do_correct(2,3) [OF Cons.prems, of q]
    by (simp add: split_beta)
qed simp

lemma t_after_inv: "sw_inv T (t_after T qs)"
  using t_run_correct [OF sw_new_correct(1), of T qs] by (simp add: t_after_def)

lemma t_after_abs: "sw_abs (t_after T qs) = fst (m_run Map.empty qs)"
  using t_run_correct [OF sw_new_correct(1), of T qs] by (simp add: t_after_def sw_new_correct)

subsection \<open>Properties\<close>

text \<open>C6. The Swiss table is a dictionary: after any history of insertions, erasures, assignments
  through a found pointer, clears and reservations from an empty table, a lookup of any key finds
  exactly the value the same history leaves in a finite map, and every answer of the history (was the
  key new, was it there) is the map's.\<close>

theorem table_refines_map:
  "map_option (sw_value (t_after T qs)) (sw_find T (t_after T qs) k) = fst (m_run Map.empty qs) k \<and>
   snd (t_run T (sw_new T) qs) = snd (m_run Map.empty qs)"
  using sw.find_val [OF t_after_inv, of T qs k] t_run_correct [OF sw_new_correct(1), of T qs]
  by (simp add: t_after_abs sw_new_correct)

text \<open>C36. The probe loops, which are unbounded in the source, end: on the table of any history, the
  lookup loop returns, and so does the insertion loop once room has been made, with a slot to use.\<close>

theorem table_probes_terminate:
  "(\<exists>r. sw_find_loop (t_after T qs) k (h2 (p_hash T k)) (home_pos T (t_after T qs) k) = Some r) \<and>
   (\<exists>r. sw_insert_loop (sw_make_room T (t_after T qs)) k (h2 (p_hash T k))
          (home_pos T (sw_make_room T (t_after T qs)) k) None = Some r \<and> r \<noteq> Inr None)"
proof -
  let ?t = "t_after T qs"
  obtain e where "e < capacity ?t" "ctrl ?t ! e = kEmpty" using sw_inv_has_empty [OF t_after_inv] by blast
  from sw_find_loop_ends [OF sw_inv_core [OF t_after_inv] this, of k]
  have find: "\<exists>r. sw_find_loop ?t k (h2 (p_hash T k)) (home_pos T ?t k) = Some r" by blast
  note mr = make_room_correct [OF t_after_inv, of T qs]
  have "sw_size (sw_make_room T ?t) + tombstones (sw_make_room T ?t) < capacity (sw_make_room T ?t)"
    using mr(3) grow_at_less [OF sw_core_shape [OF mr(1)]] by linarith
  from sw_insert_run [OF mr(1) this, of k] find show ?thesis by fastforce
qed

text \<open>Iteration is exact: \<open>for_each\<close> visits every entry of the dictionary once, and \<open>size\<close> is
  their number.\<close>

theorem table_iteration_exact:
  "distinct (map fst (sw_entries (t_after T qs))) \<and>
   set (sw_entries (t_after T qs)) = {(k, v). fst (m_run Map.empty qs) k = Some v} \<and>
   sw_size (t_after T qs) = card (dom (fst (m_run Map.empty qs)))"
  using sw.entries_distinct [OF t_after_inv] sw.in_entries [OF t_after_inv, of _ _ T qs]
    sw.size_card [OF t_after_inv, of T qs]
  by (auto simp: t_after_abs)

text \<open>Load bounds: in every history the capacity is a power of two of at least one group, the live
  and deleted slots together stay within seven eighths of it, and an empty slot remains.\<close>

theorem table_load_bounded:
  "(\<exists>j\<ge>4. capacity (t_after T qs) = 2 ^ j) \<and>
   sw_size (t_after T qs) + tombstones (t_after T qs) \<le> capacity (t_after T qs) * 7 div 8 \<and>
   (\<exists>e < capacity (t_after T qs). ctrl (t_after T qs) ! e = kEmpty)"
  using t_after_inv [of T qs] sw_inv_has_empty [OF t_after_inv, of T qs]
  by (auto simp: sw_inv_def sw_shape_def dest: sw_core_shape)

text \<open>The SIMD-style group scan (bit mask of matching control bytes, lowest bit first, cleared bit by
  bit) finds the same slot as a plain left-to-right scan of the sixteen lanes.\<close>

theorem group_scan_equals_linear_scan:
  "sw_scan t key pos (MatchBits g needle) =
     find (\<lambda>i. fst (slots t ! i) = key)
       (map (\<lambda>l. (pos + l) AND sw_mask t) (filter (\<lambda>l. g ! l = needle) [0..<16]))"
  by (simp add: sw_scan_reference MatchBits_def filter_lanes)

text \<open>C8. The vector code paths see what the portable one sees. In every group of the table of any history, with any
  needle, the SSE2 masks are the portable masks; on the NEON masks, with four bits for a lane, the loop over the
  matches ends in the same slot, and the tests for an empty and the first free lane have the same answers.\<close>

theorem simd_groups_agree:
  assumes "pos < capacity (t_after T qs)"
  shows "let g = sw_group (t_after T qs) pos; v = word_of_int (h2 h) in
    sse2_MatchBits (lanes_of g) v = MatchBits g (h2 h) \<and>
    sse2_MatchEmpty (lanes_of g) = MatchEmpty g \<and>
    sse2_MatchEmptyOrDeleted (lanes_of g) = MatchEmptyOrDeleted g \<and>
    neon_scan t key pos (neon_MatchBits (lanes_of g) v) = sw_scan t key pos (MatchBits g (h2 h)) \<and>
    neon_MatchEmpty (lanes_of g) = MatchEmpty g \<and>
    (neon_MatchEmptyOrDeleted (lanes_of g) \<noteq> 0 \<longleftrightarrow> MatchEmptyOrDeleted g \<noteq> 0) \<and>
    (MatchEmptyOrDeleted g = 0 \<or>
     neon_ctz (neon_MatchEmptyOrDeleted (lanes_of g)) = ctz32 (MatchEmptyOrDeleted g))"
proof -
  note g = group_bytes [OF sw_inv_core [OF t_after_inv] assms]
  show ?thesis unfolding Let_def
    by (intro conjI sse2_MatchBits_portable [OF g int8_h2] sse2_MatchEmpty_portable [OF g]
        sse2_MatchEmptyOrDeleted_portable [OF g] neon_scan_portable [OF g int8_h2] neon_MatchEmpty_portable [OF g]
        neon_free_portable(1) [OF g]) (use neon_free_portable(2) [OF g] in blast)
qed

definition demo_ops :: "(nat, nat) t_op list" where
  "demo_ops = [T_insert 5 50, T_insert 6 60, T_insert 21 70, T_erase 6]"

definition demo_params :: "(nat, nat) sw_params" where
  "demo_params = \<lparr>p_hash = word_of_nat, p_key = 0, p_value = 0\<rparr>"

theorem simd_groups_agree_witness:
  "neon_scan (t_after demo_params demo_ops) 21 0
     (neon_MatchBits (lanes_of (sw_group (t_after demo_params demo_ops) 0)) (word_of_int (h2 21))) =
   sw_scan (t_after demo_params demo_ops) 21 0 (MatchBits (sw_group (t_after demo_params demo_ops) 0) (h2 21))"
proof -
  have "0 < capacity (t_after demo_params demo_ops)"
    using sw_shape_capacity [OF sw_core_shape [OF sw_inv_core [OF t_after_inv]]] by blast
  from simd_groups_agree [OF this, of 21 "t_after demo_params demo_ops" 21]
  show ?thesis unfolding Let_def by blast
qed

text \<open>\<open>reserve\<close> makes the room it promises: afterwards the growth threshold is at least the number
  asked for, and the content is unchanged.\<close>

theorem reserve_makes_room:
  "n \<le> grow_at (sw_reserve T n (t_after T qs)) \<and>
   sw_abs (sw_reserve T n (t_after T qs)) = fst (m_run Map.empty qs)"
  using sw_reserve_correct [OF t_after_inv [of T qs], of n] by (simp add: t_after_abs)

text \<open>Hashing reads only bytes of the key: for every key and seed the bounds-checked hash succeeds,
  and it is the value the table and the shard router use.\<close>

theorem hash_reads_in_bounds: "hash_bytes_checked key seed = Some (hash_bytes_seeded key seed)"
proof -
  obtain a b sd where "hash_words key (seed XOR wy_s0) = Some (a, b, sd)"
    using hash_words_Some [of key "seed XOR wy_s0"] by auto
  then have "\<exists>h. hash_bytes_checked key seed = Some h"
    by (auto simp: hash_bytes_checked_def split: prod.splits)
  then show ?thesis by (auto simp: hash_bytes_seeded_def)
qed

text \<open>Routing is total: with at least one shard, every key belongs to a shard that exists.\<close>

theorem shard_for_in_range:
  assumes "0 < n" "n < 2 ^ 64"
  shows "shard_for n key < n"
  using assms by (rule shard_for_less)

theorem shard_for_in_range_witness: "shard_for 4 ''user:1000'' < 4"
  by (rule shard_for_in_range) simp_all

end
