(* ===== verification/Numeric.thy ===== *)
theory Numeric
  imports Kv_Prelude
begin

section \<open>Integers as text (\<^verbatim>\<open>src/store/object.cpp\<close>, \<^verbatim>\<open>src/proto/resp.cpp\<close>)\<close>

text \<open>
  The store and the protocol print and read decimal integers with the standard library's
  \<open>std::to_chars\<close> and \<open>std::from_chars\<close> on \<open>std::int64_t\<close>. The two library functions are written
  out from their specification; \<open>parse_int\<close>, \<open>to_ll\<close> and \<open>int_to_string\<close> are the wrappers of the
  source. An integer that does not fit 64 bits is an error, as is a suffix that is not a digit.
\<close>

subsection \<open>The library functions\<close>

definition digit_char :: "nat \<Rightarrow> char" where
  "digit_char d = char_of (48 + d)"

definition is_digit :: "char \<Rightarrow> bool" where
  "is_digit c \<longleftrightarrow> 48 \<le> byte_val c \<and> byte_val c \<le> 57"

fun nat_dec :: "nat \<Rightarrow> bytes" where
  "nat_dec n = (if n < 10 then [digit_char n] else nat_dec (n div 10) @ [digit_char (n mod 10)])"

declare nat_dec.simps [simp del]

definition dec_val :: "bytes \<Rightarrow> nat" where
  "dec_val ds = foldl (\<lambda>a c. a * 10 + (byte_val c - 48)) 0 ds"

definition to_chars :: "int \<Rightarrow> bytes" where
  "to_chars v = (if v < 0 then CHR ''-'' # nat_dec (nat (- v)) else nat_dec (nat v))"

text \<open>\<open>Some (v, rest)\<close>: the value and what follows the digits; \<open>None\<close>: no digits or out of range.\<close>

definition from_chars :: "bytes \<Rightarrow> (int \<times> bytes) option" where
  "from_chars s =
     (let neg = (s \<noteq> [] \<and> hd s = CHR ''-'');
          t = (if neg then tl s else s);
          ds = takeWhile is_digit t;
          v = (if neg then - int (dec_val ds) else int (dec_val ds))
      in if ds = [] \<or> \<not> in_i64 v then None else Some (v, dropWhile is_digit t))"

subsection \<open>The wrappers\<close>

definition parse_int :: "bytes \<Rightarrow> int option" where
  "parse_int s =
     (if s = [] then None
      else case from_chars s of
        None \<Rightarrow> None
      | Some (v, rest) \<Rightarrow> if rest = [] then Some v else None)"

definition to_ll :: "bytes \<Rightarrow> int option" where
  "to_ll s =
     (if length s = 0 then None
      else case from_chars s of
        None \<Rightarrow> None
      | Some (v, rest) \<Rightarrow> if rest = [] then Some v else None)"

definition int_to_string :: "int \<Rightarrow> bytes" where
  "int_to_string v = to_chars v"

subsection \<open>Digits\<close>

lemma byte_val_digit_char [simp]: "d < 10 \<Longrightarrow> byte_val (digit_char d) = 48 + d"
  by (simp add: digit_char_def)

lemma is_digit_digit_char [simp]: "d < 10 \<Longrightarrow> is_digit (digit_char d)"
  by (simp add: is_digit_def)

lemma nat_dec_nonempty [simp]: "nat_dec n \<noteq> []"
  by (subst nat_dec.simps) simp

lemma nat_dec_digits: "c \<in> set (nat_dec n) \<Longrightarrow> is_digit c"
proof (induction n rule: nat_dec.induct)
  case (1 n)
  then show ?case by (subst (asm) nat_dec.simps) (auto split: if_splits)
qed

lemma dec_val_snoc [simp]: "dec_val (ds @ [c]) = dec_val ds * 10 + (byte_val c - 48)"
  by (simp add: dec_val_def)

lemma dec_val_nat_dec [simp]: "dec_val (nat_dec n) = n"
proof (induction n rule: nat_dec.induct)
  case (1 n)
  show ?case
  proof (cases "n < 10")
    case True
    then show ?thesis by (subst nat_dec.simps) (simp add: dec_val_def)
  next
    case False
    with "1.IH" show ?thesis by (subst nat_dec.simps) simp
  qed
qed

lemma minus_not_digit [simp]: "\<not> is_digit (CHR ''-'')"
  by (simp add: is_digit_def)

lemma CR_not_digit [simp]: "\<not> is_digit CR"
  by (simp add: is_digit_def CR_def)

lemma LF_not_digit [simp]: "\<not> is_digit LF"
  by (simp add: is_digit_def LF_def)

lemma takeWhile_nat_dec: "(rest = [] \<or> \<not> is_digit (hd rest)) \<Longrightarrow>
   takeWhile is_digit (nat_dec n @ rest) = nat_dec n \<and> dropWhile is_digit (nat_dec n @ rest) = rest"
  using nat_dec_digits [of _ n]
  by (cases rest) (auto simp: takeWhile_append dropWhile_append takeWhile_eq_all_conv)

lemma hd_nat_dec [simp]: "hd (nat_dec n @ rest) \<noteq> CHR ''-''" "hd (nat_dec n) \<noteq> CHR ''-''"
  using nat_dec_digits [of "hd (nat_dec n)" n] by auto

lemma to_chars_nonempty [simp]: "to_chars v \<noteq> []"
  by (simp add: to_chars_def)

lemma to_chars_chars: "c \<in> set (to_chars v) \<Longrightarrow> is_digit c \<or> c = CHR ''-''"
  by (auto simp: to_chars_def dest: nat_dec_digits split: if_splits)

lemma CR_notin_to_chars [simp]: "CR \<notin> set (to_chars v)"
  using to_chars_chars [of CR v] by (auto simp: CR_def is_digit_def)

lemma LF_notin_to_chars [simp]: "LF \<notin> set (to_chars v)"
  using to_chars_chars [of LF v] by (auto simp: LF_def is_digit_def)

subsection \<open>Reading back what was printed\<close>

lemma from_chars_to_chars:
  assumes "in_i64 v" "rest = [] \<or> \<not> is_digit (hd rest)"
  shows "from_chars (to_chars v @ rest) = Some (v, rest)"
  using takeWhile_nat_dec [OF assms(2)] assms(1)
  by (auto simp: from_chars_def to_chars_def Let_def)

lemma parse_int_to_chars [simp]: "in_i64 v \<Longrightarrow> parse_int (int_to_string v) = Some v"
  using from_chars_to_chars [of v "[]"] by (simp add: parse_int_def int_to_string_def)

lemma to_ll_to_chars [simp]: "in_i64 v \<Longrightarrow> to_ll (to_chars v) = Some v"
  using from_chars_to_chars [of v "[]"] by (simp add: to_ll_def)

lemma from_chars_range: "from_chars s = Some (v, rest) \<Longrightarrow> in_i64 v"
  by (auto simp: from_chars_def Let_def split: if_splits)

lemma parse_int_range: "parse_int s = Some v \<Longrightarrow> in_i64 v"
  by (auto simp: parse_int_def from_chars_range split: if_splits option.splits)

lemma parse_int_Nil [simp]: "parse_int [] = None"
  by (simp add: parse_int_def)

lemma to_ll_eq_parse_int: "to_ll s = parse_int s"
  by (simp add: to_ll_def parse_int_def)

section \<open>IEEE 754 doubles as their 64 bits\<close>

text \<open>
  A \<open>double\<close> is its bit pattern, so that copies, snapshots and comparisons are exact. The order is
  that of the standard: sign and magnitude, both zeros equal, and a NaN neither less than, equal
  to, nor greater than anything.
\<close>

type_synonym dbl = u64

definition d_magnitude :: "dbl \<Rightarrow> u64" where
  "d_magnitude w = w AND 0x7FFFFFFFFFFFFFFF"

definition d_isnan :: "dbl \<Rightarrow> bool" where
  "d_isnan w \<longleftrightarrow> d_magnitude w > 0x7FF0000000000000"

definition d_isinf :: "dbl \<Rightarrow> bool" where
  "d_isinf w \<longleftrightarrow> d_magnitude w = 0x7FF0000000000000"

text \<open>The position of a number on the line, as an integer.\<close>

definition d_pos :: "dbl \<Rightarrow> int" where
  "d_pos w = (if bit w 63 then - uint (d_magnitude w) else uint (d_magnitude w))"

definition d_lt :: "dbl \<Rightarrow> dbl \<Rightarrow> bool" where
  "d_lt a b \<longleftrightarrow> \<not> d_isnan a \<and> \<not> d_isnan b \<and> d_pos a < d_pos b"

definition d_eq :: "dbl \<Rightarrow> dbl \<Rightarrow> bool" where
  "d_eq a b \<longleftrightarrow> \<not> d_isnan a \<and> \<not> d_isnan b \<and> d_pos a = d_pos b"

definition d_zero :: dbl where "d_zero = 0"
definition d_infinity :: dbl where "d_infinity = 0x7FF0000000000000"
definition d_minus_infinity :: dbl where "d_minus_infinity = 0xFFF0000000000000"

lemma d_lt_irrefl [simp]: "\<not> d_lt a a"
  by (simp add: d_lt_def)

lemma d_lt_trans: "d_lt a b \<Longrightarrow> d_lt b c \<Longrightarrow> d_lt a c"
  by (auto simp: d_lt_def)

lemma d_lt_total: "\<not> d_isnan a \<Longrightarrow> \<not> d_isnan b \<Longrightarrow> d_lt a b \<or> d_eq a b \<or> d_lt b a"
  by (auto simp: d_lt_def d_eq_def)

lemma d_eq_sym: "d_eq a b \<Longrightarrow> d_eq b a"
  by (simp add: d_eq_def)

lemma d_eq_refl [simp]: "d_eq a a \<longleftrightarrow> \<not> d_isnan a"
  by (simp add: d_eq_def)

end
