(* ===== verification/Resp.thy ===== *)
theory Resp
  imports Numeric
begin

section \<open>The RESP protocol (\<^verbatim>\<open>src/proto/resp.cpp\<close>)\<close>

text \<open>
  The incremental request parser, the reply writer and the command encoder. The parser works on
  the bytes received so far and answers a command with the number of bytes consumed, that more
  bytes are needed, or a protocol error. Offsets are those of the source, so \<open>data ! pos\<close> is
  \<open>data[pos]\<close>; the guards before each read are the source's.
\<close>

subsection \<open>Scanning\<close>

function find_crlf :: "bytes \<Rightarrow> nat \<Rightarrow> nat option" where
  "find_crlf data pos =
     (if pos + 1 < length data then
        if data ! pos = CR \<and> data ! (pos + 1) = LF then Some pos else find_crlf data (pos + 1)
      else None)"
  by pat_completeness auto
termination by (relation "measure (\<lambda>(data, pos). length data - pos)") auto

declare find_crlf.simps [simp del]

definition slice :: "bytes \<Rightarrow> nat \<Rightarrow> nat \<Rightarrow> bytes" where
  "slice data start n = take n (drop start data)"

definition find_lf :: "bytes \<Rightarrow> nat option" where
  "find_lf data = (if LF \<in> set data then Some (length (takeWhile (\<lambda>c. c \<noteq> LF) data)) else None)"

subsection \<open>The request parser\<close>

datatype parse_status = Ok "bytes list" nat | NeedMore | ProtocolError bytes

definition quoted_dollar :: bytes where
  "quoted_dollar = [CHR 0x27, CHR ''$'', CHR 0x27]"

text \<open>The loop over the bulk strings: \<open>n\<close> of them still to read, \<open>argv\<close> those already read.\<close>

fun parse_bulks :: "bytes \<Rightarrow> nat \<Rightarrow> nat \<Rightarrow> bytes list \<Rightarrow> parse_status" where
  "parse_bulks data 0 pos argv = Ok argv pos"
| "parse_bulks data (Suc n) pos argv =
     (if pos \<ge> length data then NeedMore
      else if data ! pos \<noteq> CHR ''$'' then ProtocolError (''expected '' @ quoted_dollar)
      else case find_crlf data (pos + 1) of
        None \<Rightarrow> NeedMore
      | Some crlf \<Rightarrow>
          (case to_ll (slice data (pos + 1) (crlf - pos - 1)) of
             None \<Rightarrow> ProtocolError ''invalid bulk length''
           | Some blen \<Rightarrow>
               if blen < 0 then ProtocolError ''invalid bulk length''
               else let start = crlf + 2; stop = start + nat blen in
                 if stop + 2 > length data then NeedMore
                 else parse_bulks data n (stop + 2) (argv @ [slice data start (nat blen)])))"

definition parse_multibulk :: "bytes \<Rightarrow> parse_status" where
  "parse_multibulk data =
     (case find_crlf data 0 of
        None \<Rightarrow> NeedMore
      | Some crlf \<Rightarrow>
          (case to_ll (slice data 1 (crlf - 1)) of
             None \<Rightarrow> ProtocolError ''invalid multibulk length''
           | Some count \<Rightarrow>
               if count < 0 \<or> count > 1024 * 1024 then ProtocolError ''invalid multibulk length''
               else parse_bulks data (nat count) (crlf + 2) []))"

definition is_blank :: "char \<Rightarrow> bool" where
  "is_blank c \<longleftrightarrow> c = CHR '' '' \<or> c = CHR 0x09"

text \<open>The tokens of an inline line: the two inner loops skip blanks and collect a word.\<close>

function inline_tokens :: "bytes \<Rightarrow> bytes list" where
  "inline_tokens s =
     (if s = [] then []
      else let s' = dropWhile is_blank s;
               tok = takeWhile (\<lambda>c. \<not> is_blank c) s';
               rest = dropWhile (\<lambda>c. \<not> is_blank c) s'
           in if tok \<noteq> [] then tok # inline_tokens rest else inline_tokens rest)"
  by pat_completeness auto

lemma length_dropWhile_tokens:
  "s \<noteq> [] \<Longrightarrow> length (dropWhile (\<lambda>c. \<not> P c) (dropWhile P s)) < length s"
proof (induction s)
  case (Cons c s)
  have "length (dropWhile (\<lambda>c. \<not> P c) (dropWhile P s)) \<le> length s"
    by (meson le_trans length_dropWhile_le)
  moreover have "length (dropWhile (\<lambda>c. \<not> P c) s) \<le> length s" by (rule length_dropWhile_le)
  ultimately show ?case by (auto intro: le_imp_less_Suc)
qed simp

termination inline_tokens
  by (relation "measure length") (simp_all add: length_dropWhile_tokens)

declare inline_tokens.simps [simp del]

definition parse_inline :: "bytes \<Rightarrow> parse_status" where
  "parse_inline data =
     (case find_crlf data 0 of
        None \<Rightarrow>
          (case find_lf data of
             None \<Rightarrow> if length data > 64 * 1024 then ProtocolError ''inline request too long''
                     else NeedMore
           | Some line_end \<Rightarrow> Ok (inline_tokens (take line_end data)) (line_end + 1))
      | Some crlf \<Rightarrow> Ok (inline_tokens (take crlf data)) (crlf + 2))"

definition parse_request :: "bytes \<Rightarrow> parse_status" where
  "parse_request data =
     (if length data = 0 then NeedMore
      else if data ! 0 = CHR ''*'' then parse_multibulk data
      else parse_inline data)"

subsection \<open>The reply writer\<close>

text \<open>Each writer appends to the buffer it is given.\<close>

definition rb_simple_string :: "bytes \<Rightarrow> bytes \<Rightarrow> bytes" where
  "rb_simple_string s buf = buf @ ''+'' @ s @ CRLF"

definition rb_error :: "bytes \<Rightarrow> bytes \<Rightarrow> bytes" where
  "rb_error s buf = buf @ ''-'' @ s @ CRLF"

definition rb_integer :: "int \<Rightarrow> bytes \<Rightarrow> bytes" where
  "rb_integer v buf = buf @ '':'' @ to_chars v @ CRLF"

definition rb_bulk :: "bytes \<Rightarrow> bytes \<Rightarrow> bytes" where
  "rb_bulk s buf = buf @ ''$'' @ to_chars (int (length s)) @ CRLF @ s @ CRLF"

definition rb_null_bulk :: "bytes \<Rightarrow> bytes" where
  "rb_null_bulk buf = buf @ ''$-1'' @ CRLF"

definition rb_null_array :: "bytes \<Rightarrow> bytes" where
  "rb_null_array buf = buf @ ''*-1'' @ CRLF"

definition rb_array_header :: "int \<Rightarrow> bytes \<Rightarrow> bytes" where
  "rb_array_header n buf = buf @ ''*'' @ to_chars n @ CRLF"

definition rb_raw :: "bytes \<Rightarrow> bytes \<Rightarrow> bytes" where
  "rb_raw s buf = buf @ s"

subsection \<open>Encoding a command\<close>

definition encode_bulk :: "bytes \<Rightarrow> bytes" where
  "encode_bulk a = ''$'' @ to_chars (int (length a)) @ CRLF @ a @ CRLF"

definition encode_multibulk :: "bytes list \<Rightarrow> bytes" where
  "encode_multibulk argv =
     ''*'' @ to_chars (int (length argv)) @ CRLF @ concat (map encode_bulk argv)"

text \<open>\<open>parse_resp_integer\<close> of \<^verbatim>\<open>src/server/shard.cpp\<close>: reads the integer of a \<open>:N\<close> reply. The value
  is accumulated in a \<open>long long\<close>; the counts it is used on are far below its range.\<close>

definition parse_resp_integer :: "bytes \<Rightarrow> int" where
  "parse_resp_integer reply =
     (if reply = [] \<or> reply ! 0 \<noteq> CHR '':'' then 0
      else let neg = (1 < length reply \<and> reply ! 1 = CHR ''-'');
               ds = takeWhile is_digit (drop (if neg then 2 else 1) reply);
               v = int (dec_val ds)
           in if neg then - v else v)"

end
