(* ===== verification/Frame_Spec.thy ===== *)
theory Frame_Spec
  imports Kv_Prelude
begin

section \<open>The contract of a framed byte stream\<close>

text \<open>
  What the readers of a stream of encoded messages (the input of a connection, the replay of the log) rely on: a
  whole frame is parsed whatever follows, a proper part of one asks for more. A stream may then be cut anywhere.
  \<open>frame_reader\<close> adds the loop that takes one frame after another and works each into its state.
\<close>

definition strict_prefix_of :: "'a list \<Rightarrow> 'a list \<Rightarrow> bool" where
  "strict_prefix_of q xs \<longleftrightarrow> (\<exists>z. z \<noteq> [] \<and> xs = q @ z)"

lemma strict_prefix_take: "k < length xs \<Longrightarrow> strict_prefix_of (take k xs) xs"
  unfolding strict_prefix_of_def by (metis append_take_drop_id drop_eq_Nil not_le)

locale framing =
  fixes f_encode :: "'m \<Rightarrow> 's list"
    and f_ok :: "'m \<Rightarrow> bool"
    and f_parse :: "'s list \<Rightarrow> ('m \<times> nat) option"
    and f_more :: "'s list \<Rightarrow> bool"
  assumes parse_whole: "f_ok m \<Longrightarrow> f_parse (f_encode m @ rest) = Some (m, length (f_encode m))"
    and parse_part: "f_ok m \<Longrightarrow> strict_prefix_of q (f_encode m) \<Longrightarrow> f_more q"
    and more_Nil: "f_more []"
begin

abbreviation stream :: "'m list \<Rightarrow> 's list" where
  "stream ms \<equiv> concat (map f_encode ms)"

text \<open>What a cut leaves is whole frames and then too little for the next one.\<close>

lemma cut_stream:
  assumes "\<forall>m\<in>set ms. f_ok m"
  obtains j tail where "j \<le> length ms" "take k (stream ms) = stream (take j ms) @ tail" "f_more tail"
proof -
  have "\<exists>j\<le>length ms. \<exists>tail. take k (stream ms) = stream (take j ms) @ tail \<and> f_more tail"
    using assms
  proof (induction ms arbitrary: k)
    case (Cons m ms)
    show ?case
    proof (cases "k < length (f_encode m)")
      case True
      then have "f_more (take k (f_encode m))" using Cons.prems parse_part strict_prefix_take by auto
      then show ?thesis using True by (intro exI [of _ 0]) simp
    next
      case False
      from Cons.IH [of "k - length (f_encode m)"] Cons.prems obtain j tail where
        "j \<le> length ms" "take (k - length (f_encode m)) (stream ms) = stream (take j ms) @ tail" "f_more tail" by auto
      then show ?thesis using False by (intro exI [of _ "Suc j"]) auto
    qed
  qed (simp add: more_Nil)
  then show ?thesis using that by blast
qed

end

text \<open>The messages worked one after another into the state, the \<open>i\<close>-th by the \<open>i\<close>-th step.\<close>

fun run_frames :: "(nat \<Rightarrow> 'm \<Rightarrow> 'st \<Rightarrow> 'st) \<Rightarrow> nat \<Rightarrow> 'm list \<Rightarrow> 'st \<Rightarrow> 'st" where
  "run_frames f i [] st = st"
| "run_frames f i (m # ms) st = run_frames f (Suc i) ms (f i m st)"

locale frame_reader = framing f_encode f_ok f_parse f_more
  for f_encode :: "'m \<Rightarrow> 's list" and f_ok :: "'m \<Rightarrow> bool"
    and f_parse :: "'s list \<Rightarrow> ('m \<times> nat) option" and f_more :: "'s list \<Rightarrow> bool" +
  fixes r_stop :: "'st \<Rightarrow> bool"
    and r_step :: "nat \<Rightarrow> 'm \<Rightarrow> 'st \<Rightarrow> 'st"
    and r_end :: "'s list \<Rightarrow> 'st \<Rightarrow> 'r"
    and r_loop :: "nat \<Rightarrow> 's list \<Rightarrow> 'st \<Rightarrow> 'r"
  assumes loop_stop: "r_stop st \<Longrightarrow> r_loop i d st = r_end d st"
    and loop_more: "\<not> r_stop st \<Longrightarrow> f_more d \<Longrightarrow> r_loop i d st = r_end d st"
    and loop_frame: "\<not> r_stop st \<Longrightarrow> f_ok m \<Longrightarrow> f_parse d = Some (m, k) \<Longrightarrow>
      r_loop i d st = r_loop (Suc i) (drop k d) (r_step i m st)"
begin

lemma loop_one: "\<not> r_stop st \<Longrightarrow> f_ok m \<Longrightarrow> r_loop i (f_encode m @ rest) st = r_loop (Suc i) rest (r_step i m st)"
  using loop_frame parse_whole by fastforce

text \<open>Whole frames are worked in order and what follows them is left.\<close>

lemma loop_stream:
  assumes "\<And>st. \<not> r_stop st" "\<forall>m\<in>set ms. f_ok m" "f_more tail"
  shows "r_loop i (stream ms @ tail) st = r_end tail (run_frames r_step i ms st)"
  using assms(2)
proof (induction ms arbitrary: i st)
  case (Cons m ms)
  then show ?case using assms(1) by (simp add: loop_one)
qed (simp add: assms loop_more)

lemma loop_stay: "r_stop st \<or> f_more d \<Longrightarrow> r_loop i d st = r_end d st"
  using loop_stop loop_more by blast

text \<open>A cut stream gives the same: the loop on the first part and then on what that left with what came after it.\<close>

lemma loop_fragmented:
  assumes "\<forall>m\<in>set ms. f_ok m"
  shows "\<exists>j d st1. r_loop i (take k (stream ms)) st = r_end d st1 \<and>
    (\<forall>l\<ge>k. r_loop i (take l (stream ms)) st = r_loop (i + j) (d @ drop k (take l (stream ms))) st1)"
  using assms
proof (induction ms arbitrary: i k st)
  case Nil
  show ?case using loop_stay [of st "[]" i] more_Nil by (intro exI [of _ 0] exI [of _ "[]"] exI [of _ st]) simp
next
  case (Cons m ms)
  let ?s = "stream (m # ms)"
  have "take k ?s @ drop k (take l ?s) = take l ?s" if "k \<le> l" for l
    using that by (metis append_take_drop_id min.absorb1 take_take)
  then have stay: ?case if "r_stop st \<or> f_more (take k ?s)"
    using loop_stay [OF that, of i] by (intro exI [of _ 0] exI [of _ "take k ?s"] exI [of _ st]) (simp del: take_append)
  show ?case
  proof (cases "r_stop st \<or> k < length (f_encode m)")
    case True
    then show ?thesis using stay Cons.prems parse_part strict_prefix_take [of k "f_encode m"] by auto
  next
    case False
    from Cons.IH [where i = "Suc i" and k = "k - length (f_encode m)" and st = "r_step i m st"] Cons.prems
    obtain j d st1 where
      "r_loop (Suc i) (take (k - length (f_encode m)) (stream ms)) (r_step i m st) = r_end d st1"
      "\<forall>l\<ge>k - length (f_encode m). r_loop (Suc i) (take l (stream ms)) (r_step i m st) =
        r_loop (Suc i + j) (d @ drop (k - length (f_encode m)) (take l (stream ms))) st1" by auto
    then show ?thesis using False Cons.prems by (intro exI [of _ "Suc j"]) (auto simp: loop_one)
  qed
qed

end

end
