(* ===== verification/Resp_Correct.thy ===== *)
theory Resp_Correct
  imports Resp Frame_Spec
begin

section \<open>Correctness of the RESP parser and encoder\<close>

text \<open>
  Parsing reads back what was encoded, whatever follows; a proper prefix of an encoded command
  asks for more bytes; an answer for a multibulk request never changes when more bytes arrive; and
  every accepted command consumes at least one byte and no byte beyond the buffer.
\<close>

subsection \<open>Scanning\<close>

lemma find_crlf_at:
  assumes "CR \<notin> set mid"
  shows "find_crlf (pre @ mid @ CRLF @ post) (length pre) = Some (length pre + length mid)"
  using assms
proof (induction mid arbitrary: pre)
  case Nil
  then show ?case by (subst find_crlf.simps) (simp add: CRLF_def nth_append)
next
  case (Cons c mid)
  have "find_crlf (pre @ (c # mid) @ CRLF @ post) (length pre) =
    find_crlf ((pre @ [c]) @ mid @ CRLF @ post) (length (pre @ [c]))"
    using Cons.prems by (subst find_crlf.simps) (auto simp: nth_append)
  with Cons.IH [of "pre @ [c]"] Cons.prems show ?case by simp
qed

lemma find_crlf_no_LF:
  assumes "LF \<notin> set (drop pos data)"
  shows "find_crlf data pos = None"
  using assms
proof (induction data pos rule: find_crlf.induct)
  case (1 data pos)
  have "data ! (pos + 1) \<noteq> LF" if "pos + 1 < length data"
  proof -
    have "drop pos data ! 1 \<in> set (drop pos data)" using that by (intro nth_mem) simp
    then show ?thesis using "1.prems" that by auto
  qed
  moreover have "LF \<notin> set (drop (pos + 1) data)"
    using "1.prems" set_drop_subset_set_drop [of pos "pos + 1" data] by auto
  ultimately show ?case using "1.IH" by (subst find_crlf.simps) auto
qed

lemma find_crlf_bounds:
  assumes "find_crlf data pos = Some c"
  shows "pos \<le> c \<and> c + 1 < length data \<and> data ! c = CR \<and> data ! (c + 1) = LF"
  using assms
proof (induction data pos rule: find_crlf.induct)
  case (1 data pos)
  then show ?case by (subst (asm) (2) find_crlf.simps) (auto split: if_splits)
qed

lemma find_crlf_append:
  assumes "find_crlf data pos = Some c"
  shows "find_crlf (data @ ext) pos = Some c"
  using assms
proof (induction data pos rule: find_crlf.induct)
  case (1 data pos)
  from "1.prems" have pos: "pos + 1 < length data"
    by (subst (asm) find_crlf.simps) (auto split: if_splits)
  show ?case
  proof (cases "data ! pos = CR \<and> data ! (pos + 1) = LF")
    case True
    with "1.prems" pos have "c = pos" by (subst (asm) find_crlf.simps) simp
    with True pos show ?thesis by (subst find_crlf.simps) (simp add: nth_append)
  next
    case False
    with "1.prems" pos have "find_crlf data (pos + 1) = Some c"
      by (subst (asm) find_crlf.simps) (simp split: if_splits)
    with "1.IH" [OF pos False] False pos show ?thesis
      by (subst find_crlf.simps) (auto simp: nth_append)
  qed
qed

lemma slice_append: "start + n \<le> length data \<Longrightarrow> slice (data @ ext) start n = slice data start n"
  by (simp add: slice_def)

lemma slice_mid: "slice (pre @ mid @ post) (length pre) (length mid) = mid"
  by (simp add: slice_def)

subsection \<open>Round trip\<close>

definition small_args :: "bytes list \<Rightarrow> bool" where
  "small_args argv \<longleftrightarrow> length argv \<le> 1024 * 1024 \<and> (\<forall>a \<in> set argv. length a < 2 ^ 63)"

lemma parse_bulks_step:
  assumes "length a < 2 ^ 63"
  shows "parse_bulks (pre @ encode_bulk a @ post) (Suc n) (length pre) argv =
    parse_bulks (pre @ encode_bulk a @ post) n (length pre + length (encode_bulk a)) (argv @ [a])"
proof -
  let ?d = "to_chars (int (length a))"
  let ?data = "pre @ encode_bulk a @ post"
  have data: "?data = (pre @ ''$'') @ ?d @ CRLF @ (a @ CRLF @ post)"
    by (simp add: encode_bulk_def)
  have data2: "?data = (pre @ ''$'' @ ?d @ CRLF) @ a @ (CRLF @ post)"
    by (simp add: encode_bulk_def)
  have dollar: "?data ! length pre = CHR ''$''" by (simp add: encode_bulk_def nth_append)
  have crlf: "find_crlf ?data (length pre + 1) = Some (length pre + 1 + length ?d)"
    using find_crlf_at [of ?d "pre @ ''$''" "a @ CRLF @ post"] by (simp add: data)
  have len: "to_ll (slice ?data (length pre + 1) (length ?d)) = Some (int (length a))"
    using slice_mid [of "pre @ ''$''" ?d "CRLF @ a @ CRLF @ post"] in_i64_of_nat [OF assms]
    by (simp add: data)
  have body: "slice ?data (length pre + 1 + length ?d + 2) (length a) = a"
    using slice_mid [of "pre @ ''$'' @ ?d @ CRLF" a "CRLF @ post"] by (simp add: data2)
  have lens: "length (encode_bulk a) = 1 + length ?d + 2 + length a + 2"
    by (simp add: encode_bulk_def)
  show ?thesis
    using dollar crlf len body by (simp add: lens Let_def add.assoc)
qed

lemma parse_bulks_encode:
  assumes "\<forall>a \<in> set args. length a < 2 ^ 63"
  shows "parse_bulks (pre @ concat (map encode_bulk args) @ rest) (length args) (length pre) argv =
    Ok (argv @ args) (length pre + length (concat (map encode_bulk args)))"
  using assms
proof (induction args arbitrary: pre argv)
  case (Cons a args)
  then show ?case
    using parse_bulks_step [of a pre "concat (map encode_bulk args) @ rest" "length args" argv]
      Cons.IH [of "pre @ encode_bulk a" "argv @ [a]"] by simp
qed simp

lemma header_data:
  "encode_multibulk argv @ rest =
     ''*'' @ to_chars (int (length argv)) @ CRLF @ (concat (map encode_bulk argv) @ rest)"
  by (simp add: encode_multibulk_def)

lemma header_crlf:
  "find_crlf (''*'' @ to_chars v @ CRLF @ post) 0 = Some (1 + length (to_chars v))"
proof -
  have "CR \<notin> set (''*'' @ to_chars v)" by (auto simp: CR_def [symmetric]) (simp add: CR_def)
  from find_crlf_at [OF this, of "[]" post] show ?thesis by simp
qed

lemma header_count:
  assumes "length argv \<le> 1024 * 1024"
  shows "parse_multibulk (''*'' @ to_chars (int (length argv)) @ CRLF @ post) =
    parse_bulks (''*'' @ to_chars (int (length argv)) @ CRLF @ post) (length argv)
      (3 + length (to_chars (int (length argv)))) []"
proof -
  let ?d = "to_chars (int (length argv))"
  have "slice (''*'' @ ?d @ CRLF @ post) 1 (length ?d) = ?d"
    using slice_mid [of "''*''" ?d "CRLF @ post"] by simp
  moreover have "in_i64 (int (length argv))" using assms by (intro in_i64_of_nat) simp
  ultimately show ?thesis
    using assms header_crlf [of "int (length argv)" post]
    by (simp add: parse_multibulk_def numeral_3_eq_3)
qed

lemma parse_encode:
  assumes "small_args argv"
  shows "parse_request (encode_multibulk argv @ rest) = Ok argv (length (encode_multibulk argv))"
proof -
  let ?d = "to_chars (int (length argv))"
  have "parse_request (encode_multibulk argv @ rest) = parse_multibulk (encode_multibulk argv @ rest)"
    by (simp add: parse_request_def encode_multibulk_def)
  also have "\<dots> = parse_bulks (''*'' @ ?d @ CRLF @ (concat (map encode_bulk argv) @ rest)) (length argv)
      (3 + length ?d) []"
    using assms unfolding header_data by (intro header_count) (simp add: small_args_def)
  also have "\<dots> = Ok argv (length (encode_multibulk argv))"
    using parse_bulks_encode [of argv "''*'' @ ?d @ CRLF" rest "[]"] assms
    by (simp add: small_args_def encode_multibulk_def numeral_3_eq_3)
  finally show ?thesis .
qed

subsection \<open>An incomplete command asks for more bytes\<close>

lemma strict_prefix_of_append:
  assumes "strict_prefix_of q (xs @ ys)"
  shows "strict_prefix_of q xs \<or> (\<exists>q'. q = xs @ q' \<and> strict_prefix_of q' ys)"
  using assms by (auto simp: strict_prefix_of_def append_eq_append_conv2)

lemma strict_prefix_of_Cons:
  "strict_prefix_of q (x # xs) \<Longrightarrow> q = [] \<or> (\<exists>q'. q = x # q' \<and> strict_prefix_of q' xs)"
  by (cases q) (auto simp: strict_prefix_of_def)

lemma strict_prefix_of_length: "strict_prefix_of q xs \<Longrightarrow> length q < length xs"
  by (auto simp: strict_prefix_of_def)

lemma strict_prefix_of_set: "strict_prefix_of q xs \<Longrightarrow> set q \<subseteq> set xs"
  by (auto simp: strict_prefix_of_def)

lemma strict_prefix_digits:
  assumes "strict_prefix_of q (to_chars v @ CRLF)"
  shows "LF \<notin> set q"
  using strict_prefix_of_append [OF assms]
proof
  assume "strict_prefix_of q (to_chars v)"
  then show ?thesis using strict_prefix_of_set LF_notin_to_chars by blast
next
  assume "\<exists>q'. q = to_chars v @ q' \<and> strict_prefix_of q' CRLF"
  then obtain q' where q: "q = to_chars v @ q'" "strict_prefix_of q' CRLF" by blast
  then have "q' = [] \<or> q' = [CR]"
    by (auto simp: CRLF_def strict_prefix_of_def Cons_eq_append_conv)
  with q show ?thesis by auto
qed

lemma parse_bulks_partial_one:
  assumes "length a < 2 ^ 63" "strict_prefix_of q (encode_bulk a)"
  shows "parse_bulks (pre @ q) (Suc n) (length pre) argv = NeedMore"
proof (cases "q = []")
  case False
  let ?d = "to_chars (int (length a))"
  from assms(2) False obtain q1 where q1: "q = CHR ''$'' # q1" "strict_prefix_of q1 ((?d @ CRLF) @ a @ CRLF)"
    by (auto simp: encode_bulk_def dest!: strict_prefix_of_Cons)
  from strict_prefix_of_append [OF q1(2)] show ?thesis
  proof
    assume "strict_prefix_of q1 (?d @ CRLF)"
    then have "LF \<notin> set (drop (length pre + 1) (pre @ q))"
      using strict_prefix_digits q1(1) by simp
    from find_crlf_no_LF [OF this] show ?thesis using q1(1) by simp
  next
    assume "\<exists>q2. q1 = (?d @ CRLF) @ q2 \<and> strict_prefix_of q2 (a @ CRLF)"
    then obtain q2 where q2: "q1 = ?d @ CRLF @ q2" "length q2 < length a + 2"
      using strict_prefix_of_length by fastforce
    have data: "pre @ q = (pre @ ''$'') @ ?d @ CRLF @ q2" using q1(1) q2(1) by simp
    have "find_crlf (pre @ q) (length pre + 1) = Some (length pre + 1 + length ?d)"
      using find_crlf_at [of ?d "pre @ ''$''" q2] by (simp add: data)
    moreover have "to_ll (slice (pre @ q) (length pre + 1) (length ?d)) = Some (int (length a))"
      using slice_mid [of "pre @ ''$''" ?d "CRLF @ q2"] in_i64_of_nat [OF assms(1)] by (simp add: data)
    ultimately show ?thesis using q2 q1(1) by (simp add: Let_def)
  qed
qed simp

lemma parse_bulks_partial:
  assumes "\<forall>a \<in> set args. length a < 2 ^ 63" "strict_prefix_of q (concat (map encode_bulk args))"
  shows "parse_bulks (pre @ q) (length args) (length pre) argv = NeedMore"
  using assms
proof (induction args arbitrary: pre q argv)
  case (Cons a args)
  from Cons.prems(2) have "strict_prefix_of q (encode_bulk a @ concat (map encode_bulk args))" by simp
  from strict_prefix_of_append [OF this] show ?case
  proof
    assume "strict_prefix_of q (encode_bulk a)"
    then show ?thesis using parse_bulks_partial_one [of a q pre "length args" argv] Cons.prems(1) by simp
  next
    assume "\<exists>q'. q = encode_bulk a @ q' \<and> strict_prefix_of q' (concat (map encode_bulk args))"
    then obtain q' where q': "q = encode_bulk a @ q'"
      "strict_prefix_of q' (concat (map encode_bulk args))" by blast
    have "parse_bulks (pre @ q) (Suc (length args)) (length pre) argv =
      parse_bulks ((pre @ encode_bulk a) @ q') (length args) (length (pre @ encode_bulk a)) (argv @ [a])"
      using parse_bulks_step [of a pre q' "length args" argv] Cons.prems(1) q'(1) by simp
    with Cons.IH [OF _ q'(2), of "pre @ encode_bulk a" "argv @ [a]"] Cons.prems(1) show ?thesis by simp
  qed
qed (simp add: strict_prefix_of_def)

lemma parse_partial:
  assumes "small_args argv" "strict_prefix_of q (encode_multibulk argv)"
  shows "parse_request q = NeedMore"
proof (cases "q = []")
  case False
  let ?d = "to_chars (int (length argv))"
  let ?tail = "concat (map encode_bulk argv)"
  from assms(2) False obtain q1 where q1: "q = CHR ''*'' # q1" "strict_prefix_of q1 ((?d @ CRLF) @ ?tail)"
    by (auto simp: encode_multibulk_def dest!: strict_prefix_of_Cons)
  have start: "parse_request q = parse_multibulk q" using q1 by (simp add: parse_request_def)
  from strict_prefix_of_append [OF q1(2)] show ?thesis
  proof
    assume "strict_prefix_of q1 (?d @ CRLF)"
    then have "LF \<notin> set (drop 0 q)" using strict_prefix_digits q1(1) by (simp add: LF_def)
    then show ?thesis using find_crlf_no_LF [of 0 q] by (simp add: start parse_multibulk_def)
  next
    assume "\<exists>q2. q1 = (?d @ CRLF) @ q2 \<and> strict_prefix_of q2 ?tail"
    then obtain q2 where q2: "q1 = ?d @ CRLF @ q2" "strict_prefix_of q2 ?tail" by auto
    have "parse_multibulk q = parse_bulks q (length argv) (3 + length ?d) []"
      using header_count [of argv q2] assms(1) q1(1) q2(1) by (simp add: small_args_def)
    also have "\<dots> = NeedMore"
      using parse_bulks_partial [OF _ q2(2), of "''*'' @ ?d @ CRLF" "[]"] assms(1) q1(1) q2(1)
      by (simp add: small_args_def numeral_3_eq_3)
    finally show ?thesis by (simp add: start)
  qed
qed (simp add: parse_request_def)

subsection \<open>Requests are frames\<close>

text \<open>What a loop over requests looks at: a whole request, or that more is needed.\<close>

definition request_of :: "bytes \<Rightarrow> (bytes list \<times> nat) option" where
  "request_of data = (case parse_request data of Ok argv n \<Rightarrow> Some (argv, n) | _ \<Rightarrow> None)"

definition needs_more :: "bytes \<Rightarrow> bool" where
  "needs_more data \<longleftrightarrow> parse_request data = NeedMore"

lemma request_of_Some: "request_of data = Some (argv, n) \<longleftrightarrow> parse_request data = Ok argv n"
  by (simp add: request_of_def split: parse_status.splits)

interpretation resp: framing encode_multibulk "\<lambda>argv. argv \<noteq> [] \<and> small_args argv" request_of needs_more
  by unfold_locales (auto simp: request_of_def needs_more_def parse_encode parse_partial, simp add: parse_request_def)

subsection \<open>Answers that more bytes do not change\<close>

lemma parse_bulks_stable:
  "parse_bulks data n pos argv \<noteq> NeedMore \<Longrightarrow>
   parse_bulks (data @ ext) n pos argv = parse_bulks data n pos argv"
proof (induction data n pos argv rule: parse_bulks.induct)
  case (2 data n pos argv)
  have lt: "pos < length data" using "2.prems" by (auto split: if_splits)
  show ?case
  proof (cases "data ! pos = CHR ''$''")
    case True
    then obtain c where c: "find_crlf data (pos + 1) = Some c"
      using "2.prems" lt by (cases "find_crlf data (pos + 1)") auto
    have cb: "pos + 1 \<le> c" "c + 1 < length data" using find_crlf_bounds [OF c] by auto
    have sl: "slice (data @ ext) (pos + 1) (c - pos - 1) = slice data (pos + 1) (c - pos - 1)"
      using cb by (intro slice_append) simp
    show ?thesis
    proof (cases "to_ll (slice data (pos + 1) (c - pos - 1))")
      case None
      then show ?thesis using lt True c find_crlf_append [OF c] sl by (simp add: nth_append)
    next
      case (Some b)
      then show ?thesis
        using "2.IH" [OF _ _ c Some] "2.prems" lt True c find_crlf_append [OF c, of ext] sl
        by (auto simp: nth_append Let_def slice_append split: if_splits)
    qed
  next
    case False
    with lt show ?thesis by (simp add: nth_append)
  qed
qed simp

lemma parse_multibulk_stable:
  assumes "parse_multibulk data \<noteq> NeedMore"
  shows "parse_multibulk (data @ ext) = parse_multibulk data"
proof -
  from assms obtain c where c: "find_crlf data 0 = Some c"
    by (auto simp: parse_multibulk_def split: option.splits)
  have "slice (data @ ext) 1 (c - 1) = slice data 1 (c - 1)"
    using find_crlf_bounds [OF c] by (intro slice_append) linarith
  with assms c find_crlf_append [OF c, of ext] show ?thesis
    by (auto simp: parse_multibulk_def parse_bulks_stable split: option.splits if_splits)
qed

subsection \<open>Bounds and progress\<close>

lemma parse_bulks_bounds:
  "parse_bulks data n pos argv = Ok args c \<Longrightarrow> pos \<le> length data \<Longrightarrow> pos \<le> c \<and> c \<le> length data"
proof (induction data n pos argv rule: parse_bulks.induct)
  case (2 data n pos argv)
  then obtain cr b where cr: "find_crlf data (pos + 1) = Some cr"
    and b: "to_ll (slice data (pos + 1) (cr - pos - 1)) = Some b" "0 \<le> b"
      "cr + 2 + nat b + 2 \<le> length data" and lt: "pos < length data" "data ! pos = CHR ''$''"
    and rec: "parse_bulks data n (cr + 2 + nat b + 2) (argv @ [slice data (cr + 2) (nat b)]) = Ok args c"
    by (auto simp: Let_def not_le not_less split: if_splits option.splits)
  have "cr + 2 + nat b + 2 \<le> c \<and> c \<le> length data"
    using "2.IH" [OF _ _ cr b(1) _ refl refl] lt b rec by simp
  with find_crlf_bounds [OF cr] show ?case by linarith
qed simp

lemma length_takeWhile_less_in: "c \<in> set xs \<Longrightarrow> length (takeWhile (\<lambda>x. x \<noteq> c) xs) < length xs"
  by (induction xs) auto

lemma find_lf_bounds: "find_lf data = Some e \<Longrightarrow> e < length data"
  by (auto simp: find_lf_def length_takeWhile_less_in split: if_splits)

lemma parse_request_bounds:
  assumes "parse_request data = Ok args c"
  shows "0 < c \<and> c \<le> length data"
proof (cases "data ! 0 = CHR ''*''")
  case True
  with assms obtain cr n where "find_crlf data 0 = Some cr" "parse_bulks data n (cr + 2) [] = Ok args c"
    by (auto simp: parse_request_def parse_multibulk_def split: if_splits option.splits)
  then show ?thesis
    using parse_bulks_bounds [of data n "cr + 2" "[]" args c] find_crlf_bounds [of data 0 cr] by simp
next
  case False
  with assms have "parse_inline data = Ok args c" by (auto simp: parse_request_def split: if_splits)
  then show ?thesis
    using find_crlf_bounds [of data 0] find_lf_bounds [of data]
    by (auto simp: parse_inline_def split: option.splits if_splits)
qed

end
