(* ===== verification/Protocol_Props.thy ===== *)
theory Protocol_Props
  imports Resp_Correct
begin

section \<open>Properties of the wire protocol\<close>

text \<open>The parser against the encoder, incremental parsing, inline commands, and decimal integers.\<close>

subsection \<open>Inline commands\<close>

text \<open>A line of words separated by single blanks.\<close>

fun inline_line :: "bytes list \<Rightarrow> bytes" where
  "inline_line [] = []"
| "inline_line [w] = w"
| "inline_line (w # ws) = w @ '' '' @ inline_line ws"

definition inline_word :: "bytes \<Rightarrow> bool" where
  "inline_word w \<longleftrightarrow> w \<noteq> [] \<and> (\<forall>c \<in> set w. \<not> is_blank c \<and> c \<noteq> CR \<and> c \<noteq> LF)"

lemma inline_tokens_word:
  assumes "inline_word w" "rest = [] \<or> is_blank (hd rest)"
  shows "inline_tokens (w @ rest) = w # inline_tokens rest"
proof -
  have ne: "w \<noteq> []" and nb: "\<forall>c \<in> set w. \<not> is_blank c" using assms(1) by (simp_all add: inline_word_def)
  have d: "dropWhile is_blank (w @ rest) = w @ rest" using nb ne by (cases w) simp_all
  have t: "takeWhile (\<lambda>c. \<not> is_blank c) (w @ rest) = w"
    "dropWhile (\<lambda>c. \<not> is_blank c) (w @ rest) = rest"
    using nb assms(2) by (cases rest; simp add: takeWhile_append dropWhile_append takeWhile_eq_all_conv)+
  show ?thesis using ne by (subst inline_tokens.simps) (simp only: d t Let_def append_is_Nil_conv if_False if_True not_False_eq_True simp_thms)
qed

lemma inline_tokens_blank: "inline_tokens ('' '' @ s) = inline_tokens s"
proof (cases "s = []")
  case True
  then show ?thesis by (subst inline_tokens.simps) (simp add: is_blank_def)
next
  case False
  then show ?thesis
    by (subst (1 2) inline_tokens.simps) (simp add: is_blank_def)
qed

lemma inline_tokens_line: "\<forall>w \<in> set ws. inline_word w \<Longrightarrow> inline_tokens (inline_line ws) = ws"
proof (induction ws rule: inline_line.induct)
  case 1
  show ?case by (subst inline_tokens.simps) simp
next
  case (2 w)
  then show ?case using inline_tokens_word [of w "[]"] by (simp add: inline_tokens.simps [of "[]"])
next
  case (3 w v vs)
  have "inline_tokens (w @ '' '' @ inline_line (v # vs)) = w # inline_tokens ('' '' @ inline_line (v # vs))"
    by (rule inline_tokens_word) (use "3.prems" in \<open>simp_all add: is_blank_def\<close>)
  then show ?case using "3.IH" "3.prems" by (simp only: inline_tokens_blank inline_line.simps) simp
qed

lemma inline_line_chars:
  "\<forall>w \<in> set ws. inline_word w \<Longrightarrow> \<forall>c \<in> set (inline_line ws). c \<noteq> CR \<and> c \<noteq> LF"
proof (induction ws rule: inline_line.induct)
  case (3 w v vs)
  have "CHR '' '' \<noteq> CR \<and> CHR '' '' \<noteq> LF" by (simp add: CR_def LF_def)
  moreover have "\<forall>c \<in> set (inline_line (v # vs)). c \<noteq> CR \<and> c \<noteq> LF" using 3 by simp
  moreover have "\<forall>c \<in> set w. c \<noteq> CR \<and> c \<noteq> LF" using "3.prems" by (simp add: inline_word_def)
  ultimately show ?case by (simp only: inline_line.simps set_append ball_Un list.set ball_simps simp_thms)
qed (simp_all add: inline_word_def)

subsection \<open>Properties\<close>

text \<open>C7. Round trip: a command encoded by the server is parsed back as the same arguments, whatever
  bytes follow it, and exactly its encoding is consumed.\<close>

theorem parse_encode_roundtrip:
  assumes "length argv \<le> 1024 * 1024" "\<forall>a \<in> set argv. length a < 2 ^ 63"
  shows "parse_request (encode_multibulk argv @ rest) = Ok argv (length (encode_multibulk argv))"
  using assms by (intro parse_encode) (simp add: small_args_def)

theorem parse_encode_roundtrip_witness:
  "parse_request (encode_multibulk [''SET'', ''k'', ''v''] @ ''*1'') = Ok [''SET'', ''k'', ''v''] 27"
proof -
  have "length (encode_multibulk [''SET'', ''k'', ''v'']) = 27" by code_simp
  then show ?thesis using parse_encode_roundtrip [of "[''SET'', ''k'', ''v'']" "''*1''"] by simp
qed

text \<open>Incremental parsing: on any proper prefix of an encoded command the parser asks for more
  bytes; it neither answers early nor reports an error.\<close>

theorem parse_prefix_needs_more:
  assumes "length argv \<le> 1024 * 1024" "\<forall>a \<in> set argv. length a < 2 ^ 63"
    and "encode_multibulk argv = q @ z" "z \<noteq> []"
  shows "parse_request q = NeedMore"
  by (rule parse_partial [of argv]) (use assms in \<open>auto simp: small_args_def strict_prefix_of_def\<close>)

theorem parse_prefix_needs_more_witness: "parse_request (take 9 (encode_multibulk [''GET'', ''k''])) = NeedMore"
  by (rule parse_prefix_needs_more [of "[''GET'', ''k'']" _ "drop 9 (encode_multibulk [''GET'', ''k''])"])
     (simp_all, code_simp)

text \<open>Stability: once the parser has answered a multibulk request, with a command or with a protocol
  error, bytes that arrive later do not change the answer.\<close>

theorem parse_multibulk_answer_stable:
  assumes "parse_multibulk data \<noteq> NeedMore"
  shows "parse_multibulk (data @ ext) = parse_multibulk data"
  using assms by (rule parse_multibulk_stable)

theorem parse_multibulk_answer_stable_witness:
  "parse_multibulk (encode_multibulk [''PING''] @ ''xyz'') = parse_multibulk (encode_multibulk [''PING''])"
  by (rule parse_multibulk_answer_stable) code_simp

text \<open>Progress and bounds: every accepted request consumes at least one byte and never more bytes than
  have been received.\<close>

theorem parse_consumes_within_buffer:
  assumes "parse_request data = Ok args n"
  shows "0 < n \<and> n \<le> length data"
  using assms by (rule parse_request_bounds)

theorem parse_consumes_within_buffer_witness: "0 < (6::nat) \<and> 6 \<le> length (''PING'' @ CRLF)"
  by (rule parse_consumes_within_buffer [of _ "[''PING'']"]) code_simp

text \<open>Inline commands: words separated by blanks and ended by CR LF are parsed as those words,
  provided the line does not start like a multibulk request.\<close>

theorem parse_inline_words:
  assumes "\<forall>w \<in> set ws. w \<noteq> [] \<and> (\<forall>c \<in> set w. \<not> is_blank c \<and> c \<noteq> CR \<and> c \<noteq> LF)"
    and "ws \<noteq> []" "hd (hd ws) \<noteq> CHR ''*''"
  shows "parse_request (inline_line ws @ CRLF @ rest) = Ok ws (length (inline_line ws) + 2)"
proof -
  have w: "\<forall>w \<in> set ws. inline_word w" using assms(1) by (simp add: inline_word_def)
  obtain v vs where ws: "ws = v # vs" using assms(2) by (cases ws) auto
  then obtain c v' where v: "v = c # v'" using assms(1) by (cases v) auto
  have first: "(inline_line ws @ CRLF @ rest) ! 0 = c" using ws v by (cases vs) simp_all
  have "CR \<notin> set (inline_line ws)" using inline_line_chars [OF w] by blast
  from find_crlf_at [OF this, of "[]" rest]
  have crlf: "find_crlf (inline_line ws @ CRLF @ rest) 0 = Some (length (inline_line ws))" by simp
  show ?thesis
    using first crlf assms(3) ws v inline_tokens_line [OF w]
    by (simp add: parse_request_def parse_inline_def CRLF_def)
qed

theorem parse_inline_words_witness:
  "parse_request (inline_line [''SET'', ''k'', ''1''] @ CRLF @ []) = Ok [''SET'', ''k'', ''1''] 9"
  using parse_inline_words [of "[''SET'', ''k'', ''1'']" "[]"] by (simp add: is_blank_def CR_def LF_def)

text \<open>An inline command ended by a bare LF is not stable: when a CR LF line follows it in the same
  buffer, the two lines are taken for one command, because the search for CR LF runs over the whole
  buffer.\<close>

theorem inline_lf_line_absorbs_next:
  "parse_request (''PING'' @ [LF]) = Ok [''PING''] 5 \<and>
   parse_request (''PING'' @ [LF] @ ''GET a'' @ CRLF) = Ok [''PING'' @ [LF] @ ''GET'', ''a''] 12"
  by code_simp

text \<open>Decimal integers: every 64-bit value is read back from its text, and whatever text is accepted
  denotes a 64-bit value.\<close>

theorem integer_text_roundtrip:
  assumes "in_i64 v"
  shows "parse_int (int_to_string v) = Some v \<and> (\<forall>s w. parse_int s = Some w \<longrightarrow> in_i64 w)"
  using assms parse_int_range by simp

theorem integer_text_roundtrip_witness: "parse_int (int_to_string (- 9223372036854775808)) = Some (- 9223372036854775808)"
  using integer_text_roundtrip [of "- 9223372036854775808"] by (simp add: in_i64_iff)

end
