(* ===== verification/Skip_List.thy ===== *)
theory Skip_List
  imports Numeric
begin

section \<open>The skip list (\<^verbatim>\<open>include/blazekv/skiplist.hpp\<close>)\<close>

text \<open>
  The ordered part of a sorted set. Nodes live in a heap that is a list: an address is an index,
  \<open>nullptr\<close> is \<open>None\<close>, the head node is address 0, and a deleted node leaves \<open>None\<close> behind. Each
  node has its backward pointer and, per level, a forward pointer and a 32-bit span.

  The random levels come from the library's \<open>std::mt19937\<close>; its state is the 624 words and the index.
\<close>

subsection \<open>The random number generator\<close>

record mt19937 =
  mt_x :: "u32 list"
  mt_i :: nat

definition mt_seed_step :: "u32 list \<Rightarrow> nat \<Rightarrow> u32 list" where
  "mt_seed_step xs i =
     (let p = xs ! (i - 1) in xs @ [1812433253 * (p XOR drop_bit 30 p) + word_of_nat i])"

definition mt_seed :: "u32 \<Rightarrow> mt19937" where
  "mt_seed s = \<lparr>mt_x = foldl mt_seed_step [s] [1..<624], mt_i = 624\<rparr>"

definition mt_twist_at :: "u32 list \<Rightarrow> nat \<Rightarrow> u32 list" where
  "mt_twist_at xs k =
     (let y = (xs ! k AND 0x80000000) OR (xs ! ((k + 1) mod 624) AND 0x7FFFFFFF)
      in xs[k := xs ! ((k + 397) mod 624) XOR drop_bit 1 y XOR (if bit y 0 then 0x9908B0DF else 0)])"

definition mt_temper :: "u32 \<Rightarrow> u32" where
  "mt_temper y0 =
     (let y1 = y0 XOR drop_bit 11 y0;
          y2 = y1 XOR (push_bit 7 y1 AND 0x9D2C5680);
          y3 = y2 XOR (push_bit 15 y2 AND 0xEFC60000)
      in y3 XOR drop_bit 18 y3)"

definition mt_next :: "mt19937 \<Rightarrow> u32 \<times> mt19937" where
  "mt_next g =
     (let g' = (if mt_i g \<ge> 624 then \<lparr>mt_x = foldl mt_twist_at (mt_x g) [0..<624], mt_i = 0\<rparr> else g)
      in (mt_temper (mt_x g' ! mt_i g'), g'\<lparr>mt_i := mt_i g' + 1\<rparr>))"

subsection \<open>Nodes and lists\<close>

record sl_level =
  forward :: "nat option"
  span :: u32

record sl_node =
  member :: bytes
  score :: dbl
  backward :: "nat option"
  level :: "sl_level list"

record skiplist =
  sl_heap :: "sl_node option list"
  sl_tail :: "nat option"
  sl_length :: nat
  sl_levels :: nat
  sl_rng :: mt19937

definition kMaxLevel :: nat where "kMaxLevel = 32"

definition sl_node_new :: "bytes \<Rightarrow> dbl \<Rightarrow> nat \<Rightarrow> sl_node" where
  "sl_node_new m s lvl =
     \<lparr>member = m, score = s, backward = None, level = replicate lvl \<lparr>forward = None, span = 0\<rparr>\<rparr>"

definition sl_new :: skiplist where
  "sl_new = \<lparr>sl_heap = [Some (sl_node_new [] d_zero kMaxLevel)], sl_tail = None, sl_length = 0,
     sl_levels = 1, sl_rng = mt_seed 0x1234ABCD\<rparr>"

subsection \<open>Walking the levels\<close>

definition sl_at :: "skiplist \<Rightarrow> nat \<Rightarrow> sl_node" where
  "sl_at s p = the (sl_heap s ! p)"

definition sl_fwd :: "skiplist \<Rightarrow> nat \<Rightarrow> nat \<Rightarrow> nat option" where
  "sl_fwd s x i = forward (level (sl_at s x) ! i)"

definition sl_span :: "skiplist \<Rightarrow> nat \<Rightarrow> nat \<Rightarrow> u32" where
  "sl_span s x i = span (level (sl_at s x) ! i)"

text \<open>The inner loop of every search: follow level \<open>i\<close> from \<open>x\<close> while the condition holds of the current
  node, the next one and the distance so far, which grows by the spans.\<close>

partial_function (option) sl_advance ::
  "skiplist \<Rightarrow> (nat \<Rightarrow> nat \<Rightarrow> u32 \<Rightarrow> bool) \<Rightarrow> nat \<Rightarrow> nat \<Rightarrow> u32 \<Rightarrow> (nat \<times> u32) option" where
  "sl_advance s go i x r =
     (case sl_fwd s x i of
        None \<Rightarrow> Some (x, r)
      | Some q \<Rightarrow> if go x q r then sl_advance s go i q (r + sl_span s x i) else Some (x, r))"

text \<open>The outer loop, from level \<open>i - 1\<close> down: the arrays \<open>update\<close> and \<open>rank\<close>.\<close>

fun sl_search ::
  "skiplist \<Rightarrow> (nat \<Rightarrow> nat \<Rightarrow> nat \<Rightarrow> u32 \<Rightarrow> bool) \<Rightarrow> nat \<Rightarrow> nat \<Rightarrow> u32 \<Rightarrow> (nat list \<times> u32 list) option" where
  "sl_search s go 0 x r = Some ([], [])"
| "sl_search s go (Suc i) x r =
     (case sl_advance s (go i) i x r of
        None \<Rightarrow> None
      | Some (x', r') \<Rightarrow>
          (case sl_search s go i x' r' of
             None \<Rightarrow> None
           | Some (us, rs) \<Rightarrow> Some (us @ [x'], rs @ [r'])))"

text \<open>The order of the list: by score, then by member.\<close>

definition sl_before :: "sl_node \<Rightarrow> bytes \<Rightarrow> dbl \<Rightarrow> bool" where
  "sl_before n m sc \<longleftrightarrow> d_lt (score n) sc \<or> d_eq (score n) sc \<and> member n < m"

definition go_before :: "skiplist \<Rightarrow> bytes \<Rightarrow> dbl \<Rightarrow> nat \<Rightarrow> nat \<Rightarrow> nat \<Rightarrow> u32 \<Rightarrow> bool" where
  "go_before s m sc i x q r = sl_before (sl_at s q) m sc"

subsection \<open>Insertion\<close>

text \<open>\<open>kP * 0xFFFF\<close> truncates to 16383.\<close>

function random_level :: "mt19937 \<Rightarrow> nat \<Rightarrow> nat \<times> mt19937" where
  "random_level g lvl =
     (if lvl < kMaxLevel then
        let (w, g') = mt_next g
        in if w AND 0xFFFF < 16383 then random_level g' (lvl + 1) else (lvl, g')
      else (lvl, g))"
  by pat_completeness auto
termination random_level
  by (relation "measure (\<lambda>(g, lvl). kMaxLevel - lvl)") auto

declare random_level.simps [simp del]

definition sl_upd :: "nat \<Rightarrow> (sl_node \<Rightarrow> sl_node) \<Rightarrow> skiplist \<Rightarrow> skiplist" where
  "sl_upd p f s = s\<lparr>sl_heap := (sl_heap s)[p := Some (f (sl_at s p))]\<rparr>"

definition sl_set_level :: "nat \<Rightarrow> nat \<Rightarrow> sl_level \<Rightarrow> skiplist \<Rightarrow> skiplist" where
  "sl_set_level p i l = sl_upd p (\<lambda>n. n\<lparr>level := (level n)[i := l]\<rparr>)"

definition sl_set_span :: "nat \<Rightarrow> nat \<Rightarrow> u32 \<Rightarrow> skiplist \<Rightarrow> skiplist" where
  "sl_set_span p i w s = sl_set_level p i \<lparr>forward = sl_fwd s p i, span = w\<rparr> s"

text \<open>\<open>sl_link\<close> is the body of the loop that splices the new node \<open>x\<close> in at level \<open>i\<close>.\<close>

definition sl_link :: "nat \<Rightarrow> nat list \<Rightarrow> u32 list \<Rightarrow> skiplist \<Rightarrow> nat \<Rightarrow> skiplist" where
  "sl_link x us rs s i =
     (let u = us ! i; d = rs ! 0 - rs ! i; f = sl_fwd s u i; w = sl_span s u i
      in sl_set_level u i \<lparr>forward = Some x, span = d + 1\<rparr>
           (sl_set_level x i \<lparr>forward = f, span = w - d\<rparr> s))"

definition sl_raise :: "nat list \<Rightarrow> u32 list \<Rightarrow> nat \<Rightarrow> skiplist \<Rightarrow> nat list \<times> u32 list \<times> skiplist" where
  "sl_raise us rs lvl s =
     (let new = lvl - sl_levels s in
      if lvl > sl_levels s then
        (us @ replicate new 0, rs @ replicate new 0,
         (foldl (\<lambda>s i. sl_set_span 0 i (word_of_nat (sl_length s)) s) s [sl_levels s..<lvl])\<lparr>sl_levels := lvl\<rparr>)
      else (us, rs, s))"

definition sl_insert_at :: "nat list \<Rightarrow> u32 list \<Rightarrow> bytes \<Rightarrow> dbl \<Rightarrow> skiplist \<Rightarrow> skiplist" where
  "sl_insert_at us0 rs0 m sc s0 =
     (let (lvl, g) = random_level (sl_rng s0) 1;
          (us, rs, s1) = sl_raise us0 rs0 lvl (s0\<lparr>sl_rng := g\<rparr>);
          x = length (sl_heap s1);
          s2 = s1\<lparr>sl_heap := sl_heap s1 @ [Some (sl_node_new m sc lvl)]\<rparr>;
          s3 = foldl (sl_link x us rs) s2 [0..<lvl];
          s4 = foldl (\<lambda>s i. sl_set_span (us ! i) i (sl_span s (us ! i) i + 1) s) s3 [lvl..<sl_levels s3];
          s5 = sl_upd x (\<lambda>n. n\<lparr>backward := if us ! 0 = 0 then None else Some (us ! 0)\<rparr>) s4;
          s6 = (case sl_fwd s5 x 0 of
                  Some q \<Rightarrow> sl_upd q (\<lambda>n. n\<lparr>backward := Some x\<rparr>) s5
                | None \<Rightarrow> s5\<lparr>sl_tail := Some x\<rparr>)
      in s6\<lparr>sl_length := sl_length s6 + 1\<rparr>)"

definition sl_insert :: "bytes \<Rightarrow> dbl \<Rightarrow> skiplist \<Rightarrow> skiplist option" where
  "sl_insert m sc s =
     (case sl_search s (go_before s m sc) (sl_levels s) 0 0 of
        None \<Rightarrow> None
      | Some (us, rs) \<Rightarrow> Some (sl_insert_at us rs m sc s))"

subsection \<open>Removal\<close>

definition sl_unlink :: "nat \<Rightarrow> nat list \<Rightarrow> skiplist \<Rightarrow> nat \<Rightarrow> skiplist" where
  "sl_unlink x us s i =
     (let u = us ! i in
      if sl_fwd s u i = Some x then
        sl_set_level u i \<lparr>forward = sl_fwd s x i, span = sl_span s u i + (sl_span s x i - 1)\<rparr> s
      else sl_set_span u i (sl_span s u i - 1) s)"

fun sl_lower :: "nat \<Rightarrow> skiplist \<Rightarrow> nat" where
  "sl_lower 0 s = 0"
| "sl_lower (Suc l) s = (if Suc l > 1 \<and> sl_fwd s 0 l = None then sl_lower l s else Suc l)"

definition remove_node :: "nat \<Rightarrow> nat list \<Rightarrow> skiplist \<Rightarrow> skiplist" where
  "remove_node x us s =
     (let s1 = foldl (sl_unlink x us) s [0..<sl_levels s];
          b = backward (sl_at s1 x);
          s2 = (case sl_fwd s1 x 0 of
                  Some q \<Rightarrow> sl_upd q (\<lambda>n. n\<lparr>backward := b\<rparr>) s1
                | None \<Rightarrow> s1\<lparr>sl_tail := b\<rparr>)
      in s2\<lparr>sl_levels := sl_lower (sl_levels s2) s2, sl_length := sl_length s2 - 1\<rparr>)"

definition sl_erase :: "bytes \<Rightarrow> dbl \<Rightarrow> skiplist \<Rightarrow> (bool \<times> skiplist) option" where
  "sl_erase m sc s =
     (case sl_search s (go_before s m sc) (sl_levels s) 0 0 of
        None \<Rightarrow> None
      | Some (us, rs) \<Rightarrow>
          (case sl_fwd s (us ! 0) 0 of
             None \<Rightarrow> Some (False, s)
           | Some x \<Rightarrow>
               if d_eq (score (sl_at s x)) sc \<and> member (sl_at s x) = m
               then let s' = remove_node x us s in Some (True, s'\<lparr>sl_heap := (sl_heap s')[x := None]\<rparr>)
               else Some (False, s)))"

subsection \<open>Queries\<close>

definition go_upto :: "skiplist \<Rightarrow> bytes \<Rightarrow> dbl \<Rightarrow> nat \<Rightarrow> nat \<Rightarrow> u32 \<Rightarrow> bool" where
  "go_upto s m sc x q r \<longleftrightarrow> d_lt (score (sl_at s q)) sc \<or> d_eq (score (sl_at s q)) sc \<and> member (sl_at s q) \<le> m"

fun sl_rank_loop :: "skiplist \<Rightarrow> bytes \<Rightarrow> dbl \<Rightarrow> nat \<Rightarrow> nat \<Rightarrow> u32 \<Rightarrow> u32 option" where
  "sl_rank_loop s m sc 0 x r = Some 0"
| "sl_rank_loop s m sc (Suc i) x r =
     (case sl_advance s (go_upto s m sc) i x r of
        None \<Rightarrow> None
      | Some (x', r') \<Rightarrow>
          if x' \<noteq> 0 \<and> d_eq (score (sl_at s x')) sc \<and> member (sl_at s x') = m then Some r'
          else sl_rank_loop s m sc i x' r')"

definition rank_of :: "bytes \<Rightarrow> dbl \<Rightarrow> skiplist \<Rightarrow> u32 option" where
  "rank_of m sc s = sl_rank_loop s m sc (sl_levels s) 0 0"

fun sl_at_rank_loop :: "skiplist \<Rightarrow> u32 \<Rightarrow> nat \<Rightarrow> nat \<Rightarrow> u32 \<Rightarrow> nat option option" where
  "sl_at_rank_loop s rank 0 x r = Some None"
| "sl_at_rank_loop s rank (Suc i) x r =
     (case sl_advance s (\<lambda>x q r. r + sl_span s x i \<le> rank) i x r of
        None \<Rightarrow> None
      | Some (x', r') \<Rightarrow> if r' = rank \<and> x' \<noteq> 0 then Some (Some x') else sl_at_rank_loop s rank i x' r')"

definition at_rank :: "u32 \<Rightarrow> skiplist \<Rightarrow> nat option option" where
  "at_rank rank s = sl_at_rank_loop s rank (sl_levels s) 0 0"

definition first_gte :: "dbl \<Rightarrow> skiplist \<Rightarrow> nat option option" where
  "first_gte lo s =
     (case sl_search s (\<lambda>i x q r. d_lt (score (sl_at s q)) lo) (sl_levels s) 0 0 of
        None \<Rightarrow> None
      | Some (us, rs) \<Rightarrow> Some (sl_fwd s (us ! 0) 0))"

declare sl_advance.simps [code]

end
