(* ===== verification/Object.thy ===== *)
theory Object
  imports Swiss_Correct Skip_List Numeric
begin

section \<open>Values (\<^verbatim>\<open>include/blazekv/object.hpp\<close>, \<^verbatim>\<open>src/store/object.cpp\<close>)\<close>

text \<open>
  A value object is a tag and a payload. The containers are the source's: a deque, two Swiss
  tables, and for a sorted set a Swiss table beside a skip list. The two constructors with a
  string payload differ only in their tag, as in the source.
\<close>

datatype ObjType = T_String | T_List | T_Hash | T_Set | T_ZSet | T_HLL

type_synonym hash_table = "(bytes, bytes) swiss"
type_synonym set_table = "(bytes, u8) swiss"
type_synonym score_table = "(bytes, dbl) swiss"

record zset =
  z_dict :: score_table
  z_sl :: skiplist

datatype obj =
    StrObj bytes
  | ListObj "bytes list"
  | HashObj hash_table
  | SetObj set_table
  | ZSetObj zset
  | HllObj bytes

fun obj_type :: "obj \<Rightarrow> ObjType" where
  "obj_type (StrObj _) = T_String"
| "obj_type (ListObj _) = T_List"
| "obj_type (HashObj _) = T_Hash"
| "obj_type (SetObj _) = T_Set"
| "obj_type (ZSetObj _) = T_ZSet"
| "obj_type (HllObj _) = T_HLL"

text \<open>The template instances: keys are hashed with \<open>hash_bytes\<close>, unused slots hold default values.\<close>

definition hash_params :: "(bytes, bytes) sw_params" where
  "hash_params = \<lparr>p_hash = hash_bytes, p_key = [], p_value = []\<rparr>"

definition set_params :: "(bytes, u8) sw_params" where
  "set_params = \<lparr>p_hash = hash_bytes, p_key = [], p_value = 0\<rparr>"

definition score_params :: "(bytes, dbl) sw_params" where
  "score_params = \<lparr>p_hash = hash_bytes, p_key = [], p_value = 0\<rparr>"

definition make_list :: obj where "make_list = ListObj []"
definition make_hash :: obj where "make_hash = HashObj (sw_new hash_params)"
definition make_set :: obj where "make_set = SetObj (sw_new set_params)"
definition make_zset :: obj where
  "make_zset = ZSetObj \<lparr>z_dict = sw_new score_params, z_sl = sl_new\<rparr>"
definition make_hll :: obj where "make_hll = HllObj []"

text \<open>The accessors: \<open>std::get\<close> throws when the payload is another one, here \<open>None\<close>.\<close>

fun obj_str :: "obj \<Rightarrow> bytes option" where
  "obj_str (StrObj s) = Some s"
| "obj_str (HllObj s) = Some s"
| "obj_str _ = None"

fun obj_list :: "obj \<Rightarrow> bytes list option" where
  "obj_list (ListObj l) = Some l"
| "obj_list _ = None"

fun obj_hash :: "obj \<Rightarrow> hash_table option" where
  "obj_hash (HashObj h) = Some h"
| "obj_hash _ = None"

fun obj_set :: "obj \<Rightarrow> set_table option" where
  "obj_set (SetObj s) = Some s"
| "obj_set _ = None"

fun type_name :: "ObjType \<Rightarrow> bytes" where
  "type_name T_String = ''string''"
| "type_name T_List = ''list''"
| "type_name T_Hash = ''hash''"
| "type_name T_Set = ''set''"
| "type_name T_ZSet = ''zset''"
| "type_name T_HLL = ''string''"

text \<open>The approximate footprint: \<open>capacity()\<close> of a string and the slot sizes are the platform's.\<close>

fun memory_usage :: "(bytes \<Rightarrow> nat) \<Rightarrow> nat \<Rightarrow> nat \<Rightarrow> nat \<Rightarrow> obj \<Rightarrow> nat" where
  "memory_usage cap hs ss zs (StrObj s) = 48 + cap s"
| "memory_usage cap hs ss zs (HllObj s) = 48 + cap s"
| "memory_usage cap hs ss zs (ListObj l) = foldl (\<lambda>n s. n + (16 + length s)) 48 l"
| "memory_usage cap hs ss zs (HashObj h) = 48 + sw_memory_bytes hs h"
| "memory_usage cap hs ss zs (SetObj s) = 48 + sw_memory_bytes ss s"
| "memory_usage cap hs ss zs (ZSetObj z) =
     48 + sw_memory_bytes zs (z_dict z) + sw_size (z_dict z) * 64"

subsection \<open>Well-formed values and what they mean\<close>

text \<open>The tables of a stored container satisfy the table invariant.\<close>

fun obj_wf :: "obj \<Rightarrow> bool" where
  "obj_wf (HashObj h) = sw_inv hash_params h"
| "obj_wf (SetObj s) = sw_inv set_params s"
| "obj_wf (ZSetObj z) = sw_inv score_params (z_dict z)"
| "obj_wf _ = True"

text \<open>The abstract value: lists, finite maps and sets instead of tables.\<close>

datatype aobj =
    AStr bytes
  | AList "bytes list"
  | AHash "bytes \<Rightarrow> bytes option"
  | ASet "bytes set"
  | AZSet "bytes \<Rightarrow> dbl option"
  | AHll bytes

fun obj_abs :: "obj \<Rightarrow> aobj" where
  "obj_abs (StrObj s) = AStr s"
| "obj_abs (ListObj l) = AList l"
| "obj_abs (HashObj h) = AHash (sw_abs h)"
| "obj_abs (SetObj s) = ASet (dom (sw_abs s))"
| "obj_abs (ZSetObj z) = AZSet (sw_abs (z_dict z))"
| "obj_abs (HllObj s) = AHll s"

fun aobj_type :: "aobj \<Rightarrow> ObjType" where
  "aobj_type (AStr _) = T_String"
| "aobj_type (AList _) = T_List"
| "aobj_type (AHash _) = T_Hash"
| "aobj_type (ASet _) = T_Set"
| "aobj_type (AZSet _) = T_ZSet"
| "aobj_type (AHll _) = T_HLL"

lemma aobj_type_abs [simp]: "aobj_type (obj_abs v) = obj_type v"
  by (cases v) auto

text \<open>The commands delete a list, hash, set or sorted set with its last element.\<close>

fun aobj_full :: "aobj \<Rightarrow> bool" where
  "aobj_full (AList l) = (l \<noteq> [])"
| "aobj_full (AHash h) = (h \<noteq> Map.empty)"
| "aobj_full (ASet s) = (s \<noteq> {})"
| "aobj_full (AZSet z) = (z \<noteq> Map.empty)"
| "aobj_full _ = True"

lemma type_String_iff: "obj_type x = T_String \<longleftrightarrow> (\<exists>s. x = StrObj s)" by (cases x) auto
lemma type_List_iff: "obj_type x = T_List \<longleftrightarrow> (\<exists>l. x = ListObj l)" by (cases x) auto
lemma type_Hash_iff: "obj_type x = T_Hash \<longleftrightarrow> (\<exists>h. x = HashObj h)" by (cases x) auto
lemma type_Set_iff: "obj_type x = T_Set \<longleftrightarrow> (\<exists>s. x = SetObj s)" by (cases x) auto

end
