(* ===== verification/Keyspace.thy ===== *)
theory Keyspace
  imports Object
begin

section \<open>The keyspace of a shard (\<^verbatim>\<open>include/blazekv/keyspace.hpp\<close>, \<^verbatim>\<open>src/store/keyspace.cpp\<close>)\<close>

text \<open>
  A dictionary of values, a parallel dictionary of deadlines, and a counter. An \<open>Object*\<close> is the
  slot of the value in \<open>ks_dict\<close>. Operations that read the clock take the reading as an argument.
\<close>

subsection \<open>State and operations\<close>

record keyspace =
  ks_dict :: "(bytes, obj) swiss"
  ks_expires :: "(bytes, u64) swiss"
  stats_expired :: nat

definition dict_params :: "(bytes, obj) sw_params" where
  "dict_params = \<lparr>p_hash = hash_bytes, p_key = [], p_value = StrObj []\<rparr>"

definition expires_params :: "(bytes, u64) sw_params" where
  "expires_params = \<lparr>p_hash = hash_bytes, p_key = [], p_value = 0\<rparr>"

definition ks_new :: keyspace where
  "ks_new = \<lparr>ks_dict = sw_new dict_params, ks_expires = sw_new expires_params, stats_expired = 0\<rparr>"

definition ks_erase :: "bytes \<Rightarrow> keyspace \<Rightarrow> bool \<times> keyspace" where
  "ks_erase key ks =
     (let e = fst (sw_erase expires_params (ks_expires ks) key);
          (d, removed) = sw_erase dict_params (ks_dict ks) key
      in (removed, ks\<lparr>ks_dict := d, ks_expires := e\<rparr>))"

definition ks_lookup :: "u64 \<Rightarrow> bytes \<Rightarrow> keyspace \<Rightarrow> nat option \<times> keyspace" where
  "ks_lookup now key ks =
     (case sw_find dict_params (ks_dict ks) key of
        None \<Rightarrow> (None, ks)
      | Some p \<Rightarrow>
          if sw_size (ks_expires ks) \<noteq> 0 then
            (case sw_find expires_params (ks_expires ks) key of
               None \<Rightarrow> (Some p, ks)
             | Some dl \<Rightarrow>
                 if sw_value (ks_expires ks) dl \<le> now then
                   (None, (snd (ks_erase key ks))\<lparr>stats_expired := stats_expired ks + 1\<rparr>)
                 else (Some p, ks))
          else (Some p, ks))"

definition ks_exists :: "u64 \<Rightarrow> bytes \<Rightarrow> keyspace \<Rightarrow> bool \<times> keyspace" where
  "ks_exists now key ks = (let (r, ks') = ks_lookup now key ks in (r \<noteq> None, ks'))"

definition ks_set :: "bytes \<Rightarrow> obj \<Rightarrow> keyspace \<Rightarrow> nat \<times> keyspace" where
  "ks_set key v ks =
     (let e = fst (sw_erase expires_params (ks_expires ks) key);
          (d, slot, inserted) = sw_insert dict_params (ks_dict ks) key v
      in (slot, ks\<lparr>ks_dict := d, ks_expires := e\<rparr>))"

definition ks_get_or_create :: "u64 \<Rightarrow> bytes \<Rightarrow> obj \<Rightarrow> keyspace \<Rightarrow> nat \<times> keyspace" where
  "ks_get_or_create now key fresh ks =
     (case ks_lookup now key ks of
        (Some p, ks') \<Rightarrow> (p, ks')
      | (None, ks') \<Rightarrow>
          let (d, slot, inserted) = sw_insert dict_params (ks_dict ks') key fresh
          in (slot, ks'\<lparr>ks_dict := d\<rparr>))"

definition ks_set_deadline :: "bytes \<Rightarrow> u64 \<Rightarrow> keyspace \<Rightarrow> keyspace" where
  "ks_set_deadline key deadline ks =
     ks\<lparr>ks_expires := fst (sw_insert expires_params (ks_expires ks) key deadline)\<rparr>"

definition ks_persist :: "bytes \<Rightarrow> keyspace \<Rightarrow> bool \<times> keyspace" where
  "ks_persist key ks =
     (let (e, removed) = sw_erase expires_params (ks_expires ks) key
      in (removed, ks\<lparr>ks_expires := e\<rparr>))"

text \<open>\<open>ttl_ms\<close> reads the clock twice: once in \<open>exists\<close>, once for the remaining time.\<close>

definition ks_ttl_ms :: "u64 \<Rightarrow> u64 \<Rightarrow> bytes \<Rightarrow> keyspace \<Rightarrow> int \<times> keyspace" where
  "ks_ttl_ms now1 now2 key ks =
     (let (found, ks') = ks_exists now1 key ks in
      if \<not> found then (- 2, ks')
      else case sw_find expires_params (ks_expires ks') key of
        None \<Rightarrow> (- 1, ks')
      | Some dl \<Rightarrow>
          (let d = sw_value (ks_expires ks') dl
           in (if d > now2 then i64_of_u64 (d - now2) else 0, ks')))"

definition ks_has_expire :: "bytes \<Rightarrow> keyspace \<Rightarrow> bool" where
  "ks_has_expire key ks = (sw_find expires_params (ks_expires ks) key \<noteq> None)"

definition ks_deadline_or_zero :: "bytes \<Rightarrow> keyspace \<Rightarrow> u64" where
  "ks_deadline_or_zero key ks =
     (case sw_find expires_params (ks_expires ks) key of
        Some dl \<Rightarrow> sw_value (ks_expires ks) dl | None \<Rightarrow> 0)"

definition ks_size :: "keyspace \<Rightarrow> nat" where
  "ks_size ks = sw_size (ks_dict ks)"

definition ks_expires_size :: "keyspace \<Rightarrow> nat" where
  "ks_expires_size ks = sw_size (ks_expires ks)"

definition ks_clear :: "keyspace \<Rightarrow> keyspace" where
  "ks_clear ks = ks\<lparr>ks_dict := sw_clear dict_params (ks_dict ks),
     ks_expires := sw_clear expires_params (ks_expires ks)\<rparr>"

definition ks_for_each :: "(bytes \<Rightarrow> obj \<Rightarrow> 's \<Rightarrow> 's) \<Rightarrow> keyspace \<Rightarrow> 's \<Rightarrow> 's" where
  "ks_for_each f ks = sw_for_each f (ks_dict ks)"

text \<open>Reading and writing the value through its pointer.\<close>

definition ks_obj :: "keyspace \<Rightarrow> nat \<Rightarrow> obj" where
  "ks_obj ks p = sw_value (ks_dict ks) p"

definition ks_write :: "nat \<Rightarrow> obj \<Rightarrow> keyspace \<Rightarrow> keyspace" where
  "ks_write p v ks = ks\<lparr>ks_dict := sw_write (ks_dict ks) p v\<rparr>"

text \<open>The callback of \<open>active_expire_cycle\<close> counts the entries it has seen and collects the dead ones.\<close>

definition expire_sample :: "u64 \<Rightarrow> nat \<Rightarrow> bytes \<Rightarrow> u64 \<Rightarrow> nat \<times> bytes list \<Rightarrow> nat \<times> bytes list" where
  "expire_sample now budget key deadline s =
     (let (seen, dead) = s in
      if seen \<ge> budget then s
      else (seen + 1, if deadline \<le> now then dead @ [key] else dead))"

definition expire_key :: "keyspace \<Rightarrow> bytes \<Rightarrow> keyspace" where
  "expire_key ks k =
     ks\<lparr>ks_dict := fst (sw_erase dict_params (ks_dict ks) k),
        ks_expires := fst (sw_erase expires_params (ks_expires ks) k),
        stats_expired := stats_expired ks + 1\<rparr>"

definition active_expire_cycle :: "u64 \<Rightarrow> nat \<Rightarrow> keyspace \<Rightarrow> nat \<times> bytes list \<times> keyspace" where
  "active_expire_cycle now budget ks =
     (if sw_size (ks_expires ks) = 0 then (0, [], ks)
      else let dead = snd (sw_for_each (expire_sample now budget) (ks_expires ks) (0, []))
           in (length dead, dead, foldl expire_key ks dead))"

text \<open>\<open>approx_memory\<close>, with the two slot sizes of the platform.\<close>

definition ks_approx_memory :: "nat \<Rightarrow> nat \<Rightarrow> keyspace \<Rightarrow> nat" where
  "ks_approx_memory dict_slot expires_slot ks =
     sw_memory_bytes dict_slot (ks_dict ks) + sw_memory_bytes expires_slot (ks_expires ks)"

end
