(* ===== verification/Keyspace_Correct.thy ===== *)
theory Keyspace_Correct
  imports Keyspace
begin

section \<open>Correctness of the keyspace\<close>

text \<open>
  The abstract store maps a key to its value and its optional deadline. Each operation keeps the
  invariant (both tables well-formed, deadlines only for existing keys) and has the stated effect on
  the abstract store.
\<close>

subsection \<open>The abstract store\<close>

type_synonym entry = "obj \<times> u64 option"
type_synonym store = "bytes \<Rightarrow> entry option"

definition ks_inv :: "keyspace \<Rightarrow> bool" where
  "ks_inv ks \<longleftrightarrow> sw_inv dict_params (ks_dict ks) \<and> sw_inv expires_params (ks_expires ks) \<and>
     dom (sw_abs (ks_expires ks)) \<subseteq> dom (sw_abs (ks_dict ks))"

definition ks_abs :: "keyspace \<Rightarrow> store" where
  "ks_abs ks k = map_option (\<lambda>v. (v, sw_abs (ks_expires ks) k)) (sw_abs (ks_dict ks) k)"

text \<open>Whether an entry is past its deadline, and what a lookup at time \<open>now\<close> sees.\<close>

fun due :: "u64 \<Rightarrow> u64 option \<Rightarrow> bool" where
  "due now None = False"
| "due now (Some d) = (d \<le> now)"

definition live :: "u64 \<Rightarrow> ('k \<Rightarrow> ('v \<times> u64 option) option) \<Rightarrow> 'k \<Rightarrow> ('v \<times> u64 option) option" where
  "live now s k = (case s k of Some (v, d) \<Rightarrow> if due now d then None else Some (v, d) | None \<Rightarrow> None)"

lemma ks_inv_parts:
  "ks_inv ks \<Longrightarrow> sw_inv dict_params (ks_dict ks)" "ks_inv ks \<Longrightarrow> sw_inv expires_params (ks_expires ks)"
  "ks_inv ks \<Longrightarrow> dom (sw_abs (ks_expires ks)) \<subseteq> dom (sw_abs (ks_dict ks))"
  by (simp_all add: ks_inv_def)

lemma ks_inv_no_deadline: "ks_inv ks \<Longrightarrow> sw_abs (ks_dict ks) k = None \<Longrightarrow> sw_abs (ks_expires ks) k = None"
  by (auto simp: ks_inv_def)

lemma ks_abs_None: "ks_abs ks k = None \<longleftrightarrow> sw_abs (ks_dict ks) k = None"
  by (simp add: ks_abs_def)

lemma ks_abs_Some: "ks_abs ks k = Some (v, d) \<longleftrightarrow> sw_abs (ks_dict ks) k = Some v \<and> sw_abs (ks_expires ks) k = d"
  by (auto simp: ks_abs_def)

lemma ks_abs_stats [simp]: "ks_abs (ks\<lparr>stats_expired := n\<rparr>) = ks_abs ks"
  by (simp add: ks_abs_def fun_eq_iff)

lemma ks_inv_stats [simp]: "ks_inv (ks\<lparr>stats_expired := n\<rparr>) = ks_inv ks"
  by (simp add: ks_inv_def)

subsection \<open>Creation, removal and insertion\<close>

lemma ks_new_correct: "ks_inv ks_new" "ks_abs ks_new = Map.empty"
  by (auto simp: ks_new_def ks_inv_def ks_abs_def fun_eq_iff sw.inv_laws sw.abs_laws)

lemma ks_erase_eq:
  "ks_erase k ks = (snd (sw_erase dict_params (ks_dict ks) k),
     ks\<lparr>ks_dict := fst (sw_erase dict_params (ks_dict ks) k),
        ks_expires := fst (sw_erase expires_params (ks_expires ks) k)\<rparr>)"
  by (simp add: ks_erase_def split_beta)

lemma ks_set_eq:
  "ks_set k v ks = (fst (snd (sw_insert dict_params (ks_dict ks) k v)),
     ks\<lparr>ks_dict := fst (sw_insert dict_params (ks_dict ks) k v),
        ks_expires := fst (sw_erase expires_params (ks_expires ks) k)\<rparr>)"
  by (simp add: ks_set_def split_beta)

lemma ks_erase_inv [kv_inv]: "ks_inv ks \<Longrightarrow> ks_inv (snd (ks_erase k ks))"
  by (auto simp: ks_erase_eq ks_inv_def sw.inv_laws sw.abs_laws)

lemma ks_erase_abs [kv_abs]: "ks_inv ks \<Longrightarrow> ks_abs (snd (ks_erase k ks)) = (ks_abs ks)(k := None)"
  by (auto simp: ks_erase_eq ks_abs_def fun_eq_iff sw.abs_laws ks_inv_parts)

lemma ks_erase_flag [kv_abs]: "ks_inv ks \<Longrightarrow> fst (ks_erase k ks) \<longleftrightarrow> ks_abs ks k \<noteq> None"
  by (simp add: ks_erase_eq ks_abs_None sw.erase_flag ks_inv_parts)

lemma ks_set_inv [kv_inv]: "ks_inv ks \<Longrightarrow> ks_inv (snd (ks_set k v ks))"
  by (auto simp: ks_set_eq ks_inv_def sw.inv_laws sw.abs_laws)

lemma ks_set_abs [kv_abs]: "ks_inv ks \<Longrightarrow> ks_abs (snd (ks_set k v ks)) = (ks_abs ks)(k \<mapsto> (v, None))"
  by (auto simp: ks_set_eq ks_abs_def fun_eq_iff sw.abs_laws ks_inv_parts)

text \<open>The pointer that \<open>set\<close> returns is the one a lookup would find.\<close>

definition ks_at :: "keyspace \<Rightarrow> bytes \<Rightarrow> nat \<Rightarrow> bool" where
  "ks_at ks k p \<longleftrightarrow> sw_find dict_params (ks_dict ks) k = Some p"

lemma ks_set_at: "ks_inv ks \<Longrightarrow> ks_at (snd (ks_set k v ks)) k (fst (ks_set k v ks))"
  by (simp add: ks_set_eq ks_at_def sw.insert_ptr ks_inv_parts)

lemma ks_at_obj:
  assumes "ks_inv ks" "ks_at ks k p"
  shows "ks_abs ks k = Some (ks_obj ks p, sw_abs (ks_expires ks) k)"
  using sw.find_Some [OF ks_inv_parts(1) [OF assms(1)]] assms(2)
  by (simp add: ks_at_def ks_abs_def ks_obj_def)

lemma ks_at_abs: "ks_inv ks \<Longrightarrow> ks_at ks k p \<Longrightarrow> ks_abs ks k = Some (v, d) \<Longrightarrow> ks_obj ks p = v"
  using ks_at_obj by fastforce

lemma ks_at_unique: "ks_at ks k p \<Longrightarrow> ks_at ks k q \<Longrightarrow> p = q"
  by (simp add: ks_at_def)

lemma ks_write_inv [kv_inv]:
  assumes "ks_inv ks" "ks_at ks k p"
  shows "ks_inv (ks_write p v ks)"
  using assms sw.abs_write [of dict_params "ks_dict ks" k p v]
  by (auto simp: ks_write_def ks_inv_def ks_at_def sw.inv_write)

lemma ks_write_abs [kv_abs]:
  assumes "ks_inv ks" "ks_at ks k p"
  shows "ks_abs (ks_write p v ks) = (ks_abs ks)(k \<mapsto> (v, sw_abs (ks_expires ks) k))"
  using assms sw.abs_write [of dict_params "ks_dict ks" k p v]
  by (auto simp: ks_write_def ks_abs_def ks_at_def ks_inv_parts fun_eq_iff)

lemma ks_write_expires [simp]: "ks_expires (ks_write p v ks) = ks_expires ks"
  by (simp add: ks_write_def)

lemma ks_write_obj:
  assumes "ks_inv ks" "ks_at ks k p"
  shows "ks_obj (ks_write p v ks) p = v" "ks_at (ks_write p v ks) k p"
  using sw.val_write [OF ks_inv_parts(1) [OF assms(1)], of k p v]
    sw.find_write [OF ks_inv_parts(1) [OF assms(1)], of k p v] assms(2)
  by (simp_all add: ks_write_def ks_obj_def ks_at_def)

subsection \<open>Lookup\<close>

lemma ks_lookup_cases:
  assumes inv: "ks_inv ks"
  shows "(\<exists>p v d. ks_lookup now k ks = (Some p, ks) \<and> ks_at ks k p \<and> ks_obj ks p = v \<and>
            ks_abs ks k = Some (v, d) \<and> \<not> due now d) \<or>
         (ks_lookup now k ks = (None, ks) \<and> ks_abs ks k = None) \<or>
         (\<exists>v d. ks_lookup now k ks = (None, (snd (ks_erase k ks))\<lparr>stats_expired := stats_expired ks + 1\<rparr>) \<and>
            ks_abs ks k = Some (v, Some d) \<and> d \<le> now)"
proof (cases "sw_find dict_params (ks_dict ks) k")
  case None
  then show ?thesis using inv sw.find_None [of dict_params "ks_dict ks" k]
    by (simp add: ks_lookup_def ks_abs_def ks_inv_parts)
next
  case (Some p)
  then have at: "ks_at ks k p" by (simp add: ks_at_def)
  note ab = ks_at_obj [OF inv at]
  show ?thesis
  proof (cases "sw_find expires_params (ks_expires ks) k")
    case None
    then have "sw_abs (ks_expires ks) k = None" using inv by (simp add: sw.find_None ks_inv_parts)
    then show ?thesis using Some None at ab by (auto simp: ks_lookup_def)
  next
    case e: (Some e)
    then have d: "sw_abs (ks_expires ks) k = Some (sw_value (ks_expires ks) e)"
      by (rule sw.find_Some [OF ks_inv_parts(2) [OF inv]])
    then have "sw_size (ks_expires ks) \<noteq> 0"
      using sw.size_0_iff [OF ks_inv_parts(2) [OF inv]] by auto
    then show ?thesis using Some e at ab d by (auto simp: ks_lookup_def)
  qed
qed

lemma ks_lookup_correct:
  assumes inv: "ks_inv ks"
  shows "ks_inv (snd (ks_lookup now k ks))"
    and "ks_abs (snd (ks_lookup now k ks)) = (ks_abs ks)(k := live now (ks_abs ks) k)"
    and "fst (ks_lookup now k ks) = None \<longleftrightarrow> live now (ks_abs ks) k = None"
  using ks_lookup_cases [OF inv, of now k]
  by (auto simp: live_def kv_inv kv_abs inv)

lemma ks_lookup_Some:
  assumes "ks_inv ks" "ks_lookup now k ks = (Some p, ks')"
  shows "ks' = ks" "ks_at ks k p" "live now (ks_abs ks) k = Some (ks_obj ks p, sw_abs (ks_expires ks) k)"
  using ks_lookup_cases [OF assms(1), of now k] assms(2) ks_at_obj [OF assms(1), of k p]
  by (auto simp: live_def)

lemma ks_exists_eq: "ks_exists now k ks = (fst (ks_lookup now k ks) \<noteq> None, snd (ks_lookup now k ks))"
  by (simp add: ks_exists_def split_beta)

lemma ks_get_or_create_correct:
  assumes inv: "ks_inv ks" and res: "ks_get_or_create now k fresh ks = (p, ks')"
  shows "ks_inv ks' \<and> ks_at ks' k p \<and>
    ks_abs ks' = (ks_abs ks)(k \<mapsto> (case live now (ks_abs ks) k of Some e \<Rightarrow> e | None \<Rightarrow> (fresh, None)))"
proof (cases "fst (ks_lookup now k ks)")
  case None
  let ?ks1 = "snd (ks_lookup now k ks)"
  note l = ks_lookup_correct [OF inv, of now k]
  have lk: "ks_lookup now k ks = (None, ?ks1)" using None by (simp add: prod_eq_iff)
  have n: "ks_abs ?ks1 k = None" using l(2,3) None by simp
  then have nd: "sw_abs (ks_expires ?ks1) k = None"
    using ks_inv_no_deadline [OF l(1)] by (simp add: ks_abs_None)
  from res have "p = fst (snd (sw_insert dict_params (ks_dict ?ks1) k fresh))"
    "ks' = ?ks1\<lparr>ks_dict := fst (sw_insert dict_params (ks_dict ?ks1) k fresh)\<rparr>"
    by (subst (asm) ks_get_or_create_def, subst (asm) lk, simp add: split_beta)+
  then have "ks_inv ks' \<and> ks_at ks' k p \<and> ks_abs ks' = (ks_abs ?ks1)(k \<mapsto> (fresh, None))"
    using l(1) nd
    by (auto simp: ks_inv_def ks_at_def ks_abs_def fun_eq_iff sw.inv_laws sw.abs_laws sw.insert_ptr)
  then show ?thesis using l(2,3) None by simp
next
  case (Some q)
  then have lk: "ks_lookup now k ks = (Some q, snd (ks_lookup now k ks))" by (simp add: prod_eq_iff)
  note L = ks_lookup_Some [OF inv lk]
  from res lk have "p = q" "ks' = ks" by (simp_all add: ks_get_or_create_def L(1))
  with L inv ks_at_obj [OF inv L(2)] show ?thesis by (simp add: fun_upd_idem)
qed

subsection \<open>Deadlines\<close>

lemma ks_set_deadline_inv [kv_inv]:
  "ks_inv ks \<Longrightarrow> ks_abs ks k \<noteq> None \<Longrightarrow> ks_inv (ks_set_deadline k d ks)"
  by (auto simp: ks_set_deadline_def ks_inv_def ks_abs_def sw.inv_laws sw.abs_laws)

lemma ks_set_deadline_abs [kv_abs]:
  "ks_inv ks \<Longrightarrow> ks_abs (ks_set_deadline k d ks) =
     (ks_abs ks)(k := map_option (\<lambda>(v, _). (v, Some d)) (ks_abs ks k))"
  by (auto simp: ks_set_deadline_def ks_abs_def fun_eq_iff sw.abs_laws ks_inv_parts option.map_comp comp_def)

lemma ks_persist_eq:
  "ks_persist k ks = (snd (sw_erase expires_params (ks_expires ks) k),
     ks\<lparr>ks_expires := fst (sw_erase expires_params (ks_expires ks) k)\<rparr>)"
  by (simp add: ks_persist_def split_beta)

lemma ks_persist_inv [kv_inv]: "ks_inv ks \<Longrightarrow> ks_inv (snd (ks_persist k ks))"
  by (auto simp: ks_persist_eq ks_inv_def sw.inv_laws sw.abs_laws)

lemma ks_persist_abs [kv_abs]:
  "ks_inv ks \<Longrightarrow> ks_abs (snd (ks_persist k ks)) =
     (ks_abs ks)(k := map_option (\<lambda>(v, _). (v, None)) (ks_abs ks k))"
  by (auto simp: ks_persist_eq ks_abs_def fun_eq_iff sw.abs_laws ks_inv_parts option.map_comp comp_def)

lemma ks_persist_flag:
  "ks_inv ks \<Longrightarrow> fst (ks_persist k ks) \<longleftrightarrow> (\<exists>v d. ks_abs ks k = Some (v, Some d))"
  using ks_inv_no_deadline [of ks k]
  by (auto simp: ks_persist_eq sw.erase_flag ks_inv_parts ks_abs_Some) blast

lemma find_value_expires:
  "ks_inv ks \<Longrightarrow> map_option (sw_value (ks_expires ks)) (sw_find expires_params (ks_expires ks) k) =
     sw_abs (ks_expires ks) k"
  by (rule sw.find_val) (rule ks_inv_parts)

lemma ks_deadline_or_zero_correct:
  "ks_inv ks \<Longrightarrow> ks_deadline_or_zero k ks =
     (case ks_abs ks k of Some (v, Some d) \<Rightarrow> d | _ \<Rightarrow> 0)"
  using find_value_expires [of ks k] ks_inv_no_deadline [of ks k]
  by (auto simp: ks_deadline_or_zero_def ks_abs_def split: option.splits)

lemma ks_has_expire_correct:
  "ks_inv ks \<Longrightarrow> ks_has_expire k ks \<longleftrightarrow> (\<exists>v d. ks_abs ks k = Some (v, Some d))"
  using find_value_expires [of ks k, symmetric] ks_inv_no_deadline [of ks k]
  by (cases "sw_find expires_params (ks_expires ks) k"; cases "sw_abs (ks_dict ks) k")
     (auto simp: ks_has_expire_def ks_abs_Some)

lemma ks_ttl_correct:
  assumes inv: "ks_inv ks"
  shows "snd (ks_ttl_ms now1 now2 k ks) = snd (ks_lookup now1 k ks)"
    and "fst (ks_ttl_ms now1 now2 k ks) =
      (case live now1 (ks_abs ks) k of
         None \<Rightarrow> - 2
       | Some (v, None) \<Rightarrow> - 1
       | Some (v, Some d) \<Rightarrow> if d > now2 then i64_of_u64 (d - now2) else 0)"
proof -
  let ?ks = "snd (ks_lookup now1 k ks)"
  note l = ks_lookup_correct [OF inv, of now1 k]
  note f = find_value_expires [OF l(1), of k, symmetric]
  show "snd (ks_ttl_ms now1 now2 k ks) = ?ks"
    by (simp add: ks_ttl_ms_def ks_exists_eq Let_def split: option.splits)
  have "ks_abs ?ks k = live now1 (ks_abs ks) k" using l(2) by simp
  then show "fst (ks_ttl_ms now1 now2 k ks) =
      (case live now1 (ks_abs ks) k of
         None \<Rightarrow> - 2
       | Some (v, None) \<Rightarrow> - 1
       | Some (v, Some d) \<Rightarrow> if d > now2 then i64_of_u64 (d - now2) else 0)"
    using l(3) f
    by (cases "live now1 (ks_abs ks) k"; cases "sw_find expires_params (ks_expires ?ks) k")
       (auto simp: ks_ttl_ms_def ks_exists_eq ks_abs_Some Let_def)
qed

subsection \<open>Whole-table operations\<close>

lemma ks_clear_correct: "ks_inv ks \<Longrightarrow> ks_inv (ks_clear ks)" "ks_inv ks \<Longrightarrow> ks_abs (ks_clear ks) = Map.empty"
  by (auto simp: ks_clear_def ks_inv_def ks_abs_def fun_eq_iff sw.inv_laws sw.abs_laws)

lemma dom_ks_abs: "dom (ks_abs ks) = dom (sw_abs (ks_dict ks))"
  by (auto simp: ks_abs_def dom_def)

lemma ks_size_correct: "ks_inv ks \<Longrightarrow> ks_size ks = card (dom (ks_abs ks))"
  by (simp add: ks_size_def dom_ks_abs sw.size_card [OF ks_inv_parts(1)])

lemma expire_sample_fold:
  "foldl (\<lambda>s (k, d). expire_sample now budget k d s) (seen, dead) xs =
     (seen + length (take (budget - seen) xs),
      dead @ map fst (filter (\<lambda>(k, d). d \<le> now) (take (budget - seen) xs)))"
proof (induction xs arbitrary: seen dead)
  case (Cons x xs)
  obtain k d where x: "x = (k, d)" by (cases x)
  show ?case
  proof (cases "seen \<ge> budget")
    case True
    then show ?thesis using Cons.IH [of seen dead] by (simp add: x expire_sample_def)
  next
    case False
    then obtain m where "budget - seen = Suc m" "budget - Suc seen = m" by (cases "budget - seen") auto
    moreover have "expire_sample now budget k d (seen, dead) = (Suc seen, if d \<le> now then dead @ [k] else dead)"
      using False by (simp add: expire_sample_def)
    ultimately show ?thesis by (simp add: x Cons.IH)
  qed
qed simp

text \<open>The keys the cycle expires: the dead ones among the first \<open>budget\<close> entries in slot order.\<close>

definition cycle_dead :: "u64 \<Rightarrow> nat \<Rightarrow> keyspace \<Rightarrow> bytes list" where
  "cycle_dead now budget ks = map fst (filter (\<lambda>(k, d). d \<le> now) (take budget (sw_entries (ks_expires ks))))"

lemma active_expire_cycle_eq:
  assumes "ks_inv ks"
  shows "active_expire_cycle now budget ks =
    (length (cycle_dead now budget ks), cycle_dead now budget ks,
     foldl expire_key ks (cycle_dead now budget ks))"
proof -
  have "sw_entries (ks_expires ks) = []" if "sw_size (ks_expires ks) = 0"
    using sw.size_entries [OF ks_inv_parts(2) [OF assms]] that by simp
  then show ?thesis
    by (auto simp: active_expire_cycle_def sw_for_each_def cycle_dead_def expire_sample_fold Let_def)
qed

lemma expire_key_correct:
  assumes "ks_inv ks"
  shows "ks_inv (expire_key ks k)" "ks_abs (expire_key ks k) = (ks_abs ks)(k := None)"
    "stats_expired (expire_key ks k) = stats_expired ks + 1"
  using assms by (auto simp: expire_key_def ks_inv_def ks_abs_def fun_eq_iff sw.inv_laws sw.abs_laws)

lemma expire_keys_correct:
  "ks_inv ks \<Longrightarrow> ks_inv (foldl expire_key ks dead) \<and>
     ks_abs (foldl expire_key ks dead) = (ks_abs ks) |` (- set dead) \<and>
     stats_expired (foldl expire_key ks dead) = stats_expired ks + length dead"
proof (induction dead arbitrary: ks)
  case (Cons k dead)
  then show ?case
    using Cons.IH [of "expire_key ks k"] expire_key_correct [OF Cons.prems, of k]
    by (auto simp: restrict_map_def fun_eq_iff)
qed (simp add: restrict_map_def)

lemma cycle_dead_due:
  assumes "ks_inv ks" "k \<in> set (cycle_dead now budget ks)"
  shows "\<exists>v d. ks_abs ks k = Some (v, Some d) \<and> d \<le> now"
proof -
  from assms(2) obtain d where d: "(k, d) \<in> set (sw_entries (ks_expires ks))" "d \<le> now"
    by (auto simp: cycle_dead_def dest: in_set_takeD)
  then have "sw_abs (ks_expires ks) k = Some d"
    by (simp add: sw.in_entries [OF ks_inv_parts(2) [OF assms(1)]])
  then show ?thesis using ks_inv_no_deadline [OF assms(1), of k] d(2)
    by (cases "sw_abs (ks_dict ks) k") (auto simp: ks_abs_Some)
qed

lemma cycle_dead_all:
  assumes "ks_inv ks" "ks_abs ks k = Some (v, Some d)" "d \<le> now" "ks_expires_size ks \<le> budget"
  shows "k \<in> set (cycle_dead now budget ks)"
proof -
  have "(k, d) \<in> set (sw_entries (ks_expires ks))"
    using assms(2) by (simp add: sw.in_entries [OF ks_inv_parts(2) [OF assms(1)]] ks_abs_Some)
  moreover have "take budget (sw_entries (ks_expires ks)) = sw_entries (ks_expires ks)"
    using assms(4) sw.size_entries [OF ks_inv_parts(2) [OF assms(1)]] by (simp add: ks_expires_size_def)
  ultimately show ?thesis using assms(3) by (force simp: cycle_dead_def)
qed

lemma cycle_dead_distinct: "ks_inv ks \<Longrightarrow> distinct (cycle_dead now budget ks)"
  using sw.entries_distinct [OF ks_inv_parts(2), of ks]
  by (auto simp: cycle_dead_def intro: distinct_map_filter)
     (metis distinct_map_filter distinct_take take_map)

end
