(* ===== verification/Store_Props.thy ===== *)
theory Store_Props
  imports Keyspace_Correct
begin

section \<open>Properties of the keyspace\<close>

text \<open>
  A shard's keyspace forgets expired keys lazily, when it looks them up, and actively, in the
  sampling cycle of the event loop. The reference is a map that never forgets anything by itself
  and only hides what is due. Histories of both are compared answer by answer.
\<close>

subsection \<open>Histories\<close>

datatype k_op =
    K_set bytes obj
  | K_erase bytes
  | K_clear
  | K_lookup u64 bytes
  | K_get_or_create u64 bytes obj
  | K_expire u64 bytes u64
  | K_cycle u64 nat


text \<open>\<open>K_expire\<close> is what the EXPIRE family does: the deadline is set on a key that has just been found.
  An answer is the value and deadline of the key, where the operation returns it.\<close>

type_synonym k_answer = "(obj \<times> u64 option) option"

definition ks_entry :: "keyspace \<Rightarrow> bytes \<Rightarrow> nat option \<Rightarrow> k_answer" where
  "ks_entry ks k p = map_option (\<lambda>i. (ks_obj ks i,
     map_option (sw_value (ks_expires ks)) (sw_find expires_params (ks_expires ks) k))) p"

fun k_do :: "keyspace \<Rightarrow> k_op \<Rightarrow> keyspace \<times> k_answer" where
  "k_do ks (K_set k v) = (snd (ks_set k v ks), None)"
| "k_do ks (K_erase k) = (snd (ks_erase k ks), None)"
| "k_do ks K_clear = (ks_clear ks, None)"
| "k_do ks (K_lookup now k) = (let (p, ks') = ks_lookup now k ks in (ks', ks_entry ks' k p))"
| "k_do ks (K_get_or_create now k v) =
     (let (p, ks') = ks_get_or_create now k v ks in (ks', ks_entry ks' k (Some p)))"
| "k_do ks (K_expire now k d) =
     (let (p, ks') = ks_lookup now k ks
      in (if p = None then ks' else ks_set_deadline k d ks', ks_entry ks' k p))"
| "k_do ks (K_cycle now b) = (snd (snd (active_expire_cycle now b ks)), None)"



fun k_run :: "keyspace \<Rightarrow> k_op list \<Rightarrow> keyspace \<times> k_answer list" where
  "k_run ks [] = (ks, [])"
| "k_run ks (q # qs) = (let (ks', a) = k_do ks q; (ks'', as) = k_run ks' qs in (ks'', a # as))"


subsection \<open>The simulation\<close>











lemma ks_lookup_live:
  assumes "ks_inv ks"
  shows "fst (ks_lookup now k ks) = None \<longleftrightarrow> live now (ks_abs ks) k = None"
    "fst (ks_lookup now k ks) \<noteq> None \<Longrightarrow> snd (ks_lookup now k ks) = ks"
  using ks_lookup_correct(3) [OF assms, of now k] ks_lookup_Some(1) [OF assms, of now k]
  by (simp, metis option.exhaust prod.collapse)



lemma k_run_inv: "ks_inv ks \<Longrightarrow> ks_inv (fst (k_run ks qs))"
proof (induction qs arbitrary: ks)
  case (Cons q qs)
  have "ks_inv (fst (k_do ks q))"
  proof (cases q)
    case (K_cycle u b)
    then show ?thesis using active_expire_cycle_eq [OF Cons.prems] expire_keys_correct [OF Cons.prems] by simp
  next
    case (K_expire u k d)
    then show ?thesis
      using Cons.prems ks_lookup_correct(1) [OF Cons.prems] ks_lookup_live [OF Cons.prems, of u k]
        ks_set_deadline_inv [OF Cons.prems, of k d]
      by (auto simp: split_beta live_def split: option.splits)
  next
    case (K_get_or_create u k v)
    obtain p ks' where "ks_get_or_create u k v ks = (p, ks')" by fastforce
    then show ?thesis using K_get_or_create ks_get_or_create_correct [OF Cons.prems] by simp
  qed (use Cons.prems in \<open>simp_all add: split_beta ks_set_inv ks_erase_inv ks_clear_correct ks_lookup_correct\<close>)
  then show ?case using Cons.IH by (simp add: split_beta)
qed simp

subsection \<open>Properties\<close>



text \<open>Every keyspace reached by such a history, at any clock readings, is well formed: both tables
  satisfy the Swiss table invariant and a deadline exists only for a key that has a value; \<open>size\<close> is
  the number of keys held.\<close>

theorem keyspace_invariant:
  "ks_inv (fst (k_run ks_new qs)) \<and>
   ks_size (fst (k_run ks_new qs)) = card (dom (ks_abs (fst (k_run ks_new qs))))"
  using k_run_inv [OF ks_new_correct(1), of qs] ks_size_correct by blast

text \<open>C29. The active expiry cycle deletes only keys whose deadline has passed, reports each deleted key
  once and counts it, keeps every other entry, and with a budget of at least the number of deadlines
  leaves no expired key behind.\<close>

theorem active_expire_cycle_correct:
  assumes "ks_inv ks" "active_expire_cycle now budget ks = (n, dead, ks')"
  shows "ks_inv ks' \<and> distinct dead \<and> n = length dead \<and> ks_abs ks' = (ks_abs ks) |` (- set dead) \<and>
    stats_expired ks' = stats_expired ks + n \<and>
    (\<forall>k \<in> set dead. \<exists>v d. ks_abs ks k = Some (v, Some d) \<and> d \<le> now) \<and>
    (ks_expires_size ks \<le> budget \<longrightarrow> (\<forall>k. live now (ks_abs ks') k = ks_abs ks' k))"
proof -
  have eq: "dead = cycle_dead now budget ks" "n = length dead" "ks' = foldl expire_key ks dead"
    using assms(2) active_expire_cycle_eq [OF assms(1)] by auto
  note swept = expire_keys_correct [OF assms(1), of dead]
  have "live now (ks_abs ks') k = ks_abs ks' k" if "ks_expires_size ks \<le> budget" for k
    using cycle_dead_all [OF assms(1) _ _ that, of k _ _ now] swept eq
    by (cases "ks_abs ks k") (auto simp: live_def restrict_map_def elim!: due.elims)
  then show ?thesis
    using swept eq cycle_dead_distinct [OF assms(1)] cycle_dead_due [OF assms(1)] by simp
qed

theorem active_expire_cycle_correct_witness:
  "distinct (fst (snd (active_expire_cycle 7 20 (ks_set_deadline ''k'' 5 (snd (ks_set ''k'' (StrObj ''v'') ks_new))))))"
proof -
  let ?ks = "ks_set_deadline ''k'' 5 (snd (ks_set ''k'' (StrObj ''v'') ks_new))"
  have "ks_inv ?ks" by (intro kv_inv) (simp_all add: ks_new_correct kv_abs kv_inv)
  then show ?thesis
    using active_expire_cycle_correct [of ?ks 7 20 "fst (active_expire_cycle 7 20 ?ks)"
        "fst (snd (active_expire_cycle 7 20 ?ks))" "snd (snd (active_expire_cycle 7 20 ?ks))"]
    by simp
qed

text \<open>Remaining time: \<open>ttl_ms\<close> is -2 for a key that is absent or expired, -1 for one without a
  deadline, and otherwise the distance from the second clock reading to the deadline, never negative
  while deadlines stay below 2^63.\<close>

theorem ttl_ms_correct:
  assumes "ks_inv ks" "\<And>v d. ks_abs ks k = Some (v, Some d) \<Longrightarrow> d < 2 ^ 63"
  shows "fst (ks_ttl_ms now1 now2 k ks) =
    (case live now1 (ks_abs ks) k of
       None \<Rightarrow> - 2
     | Some (v, None) \<Rightarrow> - 1
     | Some (v, Some d) \<Rightarrow> max 0 (uint d - uint now2))"
proof -
  have "(if d > now2 then i64_of_u64 (d - now2) else 0) = max 0 (uint d - uint now2)"
    if "live now1 (ks_abs ks) k = Some (v, Some d)" for v d
  proof -
    have "d < 2 ^ 63" using that assms(2) by (auto simp: live_def split: option.splits prod.splits if_splits)
    then have small: "uint d < 2 ^ 63" by (simp add: word_less_def)
    show ?thesis
    proof (cases "now2 < d")
      case True
      then have u: "uint (d - now2) = uint d - uint now2" by (simp add: word_less_def uint_sub_lem [THEN iffD1])
      then have "uint (d - now2) < 2 ^ 63" using small uint_ge_0 [of now2] by linarith
      then have "sint (d - now2) = uint (d - now2)" 
        using order_trans [of "- 9223372036854775808 :: int" 0 "uint (d - now2)"]
        by (simp add: sint_uint signed_take_bit_int_eq_self_iff)
      then show ?thesis using True u by (simp add: i64_of_u64_def word_less_def)
    qed (simp add: word_less_def)
  qed
  then show ?thesis
    using ks_ttl_correct(2) [OF assms(1), of now1 now2 k] by (auto split: option.splits)
qed

theorem ttl_ms_correct_witness:
  "fst (ks_ttl_ms 7 8 ''k'' (ks_set_deadline ''k'' 10 (snd (ks_set ''k'' (StrObj ''v'') ks_new)))) = 2"
proof -
  let ?ks = "ks_set_deadline ''k'' 10 (snd (ks_set ''k'' (StrObj ''v'') ks_new))"
  have "ks_inv ?ks" by (intro kv_inv) (simp_all add: ks_new_correct kv_abs kv_inv)
  moreover have abs: "ks_abs ?ks = [''k'' \<mapsto> (StrObj ''v'', Some 10)]"
    by (simp add: ks_new_correct kv_abs kv_inv)
  ultimately show ?thesis using ttl_ms_correct [of ?ks "''k''" 7 8] by (simp add: live_def)
qed

end
