(* ===== verification/Skip_Search.thy ===== *)
theory Skip_Search
  imports Skip_List
begin

section \<open>The shape of a skip list, and where its searches end\<close>

text \<open>
  A list in order is a path of addresses that starts at the head. Position \<open>a\<close> of the path is linked on level \<open>i\<close>
  to the next position whose node is higher than \<open>i\<close>, and its span is the distance. Every search goes right while
  the next position is below a bound \<open>P\<close>; it ends on each level at the last position below \<open>P\<close> that is high enough.
\<close>

subsection \<open>Next and last positions of a height\<close>

definition nxt :: "nat list \<Rightarrow> nat \<Rightarrow> nat \<Rightarrow> nat" where
  "nxt hs i a = Suc a + length (takeWhile (\<lambda>h. h \<le> i) (drop (Suc a) hs))"

fun last_below :: "nat list \<Rightarrow> nat \<Rightarrow> nat \<Rightarrow> nat" where
  "last_below hs i 0 = 0"
| "last_below hs i (Suc P) = (if P < length hs \<and> i < hs ! P then P else last_below hs i P)"

lemma nxt_gt: "a < nxt hs i a"
  by (simp add: nxt_def)

lemma nxt_le: "a < length hs \<Longrightarrow> nxt hs i a \<le> length hs"
  using length_takeWhile_le [of "\<lambda>h. h \<le> i" "drop (Suc a) hs"] by (simp add: nxt_def)

lemma nxt_low: "a < c \<Longrightarrow> c < nxt hs i a \<Longrightarrow> hs ! c \<le> i"
proof -
  assume c: "a < c" "c < nxt hs i a"
  let ?t = "takeWhile (\<lambda>h. h \<le> i) (drop (Suc a) hs)"
  have "c - Suc a < length ?t" using c by (simp add: nxt_def)
  then have "?t ! (c - Suc a) \<le> i" "?t ! (c - Suc a) = drop (Suc a) hs ! (c - Suc a)" "c - Suc a < length (drop (Suc a) hs)"
    using nth_mem set_takeWhileD takeWhile_nth length_takeWhile_le by (metis, metis, metis order.strict_trans2)
  then show ?thesis using c by (simp add: nth_drop)
qed

lemma nxt_high: "nxt hs i a < length hs \<Longrightarrow> i < hs ! nxt hs i a"
  using nth_length_takeWhile [of "\<lambda>h. h \<le> i" "drop (Suc a) hs"] by (auto simp: nxt_def nth_drop not_le)

lemma nxt_eqI:
  assumes "a < b" "b \<le> length hs" "\<And>c. a < c \<Longrightarrow> c < b \<Longrightarrow> hs ! c \<le> i" "b < length hs \<Longrightarrow> i < hs ! b"
  shows "nxt hs i a = b"
proof (rule ccontr)
  assume "nxt hs i a \<noteq> b"
  then consider "nxt hs i a < b" | "b < nxt hs i a" by linarith
  then show False
  proof cases
    case 1
    then show False using assms(2) assms(3) [OF nxt_gt 1] nxt_high [of hs i a] by simp
  next
    case 2
    then show False using assms(1,2,4) nxt_low [OF assms(1) 2] nxt_le [of a hs i] by simp
  qed
qed

lemma last_below_less: "0 < P \<Longrightarrow> last_below hs i P < P"
proof (induction P)
  case (Suc P)
  then show ?case by (cases "P = 0") (auto simp: less_SucI)
qed simp

lemma last_below_high: "hs \<noteq> [] \<Longrightarrow> i < hs ! 0 \<Longrightarrow> last_below hs i P < length hs \<and> i < hs ! last_below hs i P"
  by (induction P) auto

lemma last_below_last: "last_below hs i P < c \<Longrightarrow> c < P \<Longrightarrow> c < length hs \<Longrightarrow> hs ! c \<le> i"
  by (induction P) (auto split: if_splits simp: less_Suc_eq not_less)

lemma last_below_ge: "a < P \<Longrightarrow> a < length hs \<Longrightarrow> i < hs ! a \<Longrightarrow> a \<le> last_below hs i P"
  using last_below_last [of hs i P a] by (meson not_le)

lemma last_below_eqI:
  assumes "a < P" "a < length hs" "i < hs ! a" "\<And>c. a < c \<Longrightarrow> c < P \<Longrightarrow> c < length hs \<Longrightarrow> hs ! c \<le> i"
  shows "last_below hs i P = a"
proof -
  have hs: "a \<le> last_below hs i P" using last_below_ge assms by blast
  have "last_below hs i P < P" using last_below_less assms(1) by simp
  show ?thesis
  proof (rule ccontr)
    assume n: "last_below hs i P \<noteq> a"
    then have l: "a < last_below hs i P" using hs by simp
    have "last_below hs i P = 0 \<or> (last_below hs i P < length hs \<and> i < hs ! last_below hs i P)" by (induction P) auto
    then show False using assms(4) [OF l \<open>last_below hs i P < P\<close>] l by auto
  qed
qed

lemma last_below_mono: "i \<le> j \<Longrightarrow> last_below hs j P \<le> last_below hs i P"
  by (induction P) (auto intro: order.trans [OF less_imp_le_nat [OF last_below_less]] split: if_splits,
      metis last_below_less le_less_trans less_imp_le_nat not_gr_zero order_refl last_below.simps(1))

text \<open>The next of the last one below \<open>P\<close> is the first from \<open>P\<close> on.\<close>

lemma nxt_last_below:
  assumes "hs \<noteq> []" "i < hs ! 0" "P \<le> length hs" "0 < P"
  shows "P \<le> nxt hs i (last_below hs i P)"
  using last_below_last [of hs i P "nxt hs i (last_below hs i P)"] nxt_gt [of "last_below hs i P" hs i]
    nxt_high [of hs i "last_below hs i P"] assms by (meson leD leI less_le_trans)

lemma nxt_before:
  assumes "b < P" "b < length hs" "i < hs ! b" "a < b"
  shows "nxt hs i a \<le> b"
  using nxt_low [OF assms(4), of hs i] assms(3) by (meson leD leI)

subsection \<open>A list in order\<close>

definition height :: "skiplist \<Rightarrow> nat \<Rightarrow> nat" where
  "height s p = length (level (sl_at s p))"

abbreviation path :: "nat list \<Rightarrow> nat list" where
  "path xs \<equiv> 0 # xs"

definition heights :: "skiplist \<Rightarrow> nat list \<Rightarrow> nat list" where
  "heights s xs = map (height s) (path xs)"

definition linked :: "skiplist \<Rightarrow> nat list \<Rightarrow> nat \<Rightarrow> nat \<Rightarrow> bool" where
  "linked s xs i a \<longleftrightarrow>
     (let b = nxt (heights s xs) i a
      in sl_fwd s (path xs ! a) i = (if b \<le> length xs then Some (path xs ! b) else None) \<and>
         sl_span s (path xs ! a) i = word_of_nat (min b (length xs) - a))"

definition nodes_ok :: "skiplist \<Rightarrow> nat list \<Rightarrow> bool" where
  "nodes_ok s xs \<longleftrightarrow> distinct (path xs) \<and> (\<forall>p\<in>set (path xs). p < length (sl_heap s) \<and> sl_heap s ! p \<noteq> None) \<and>
     height s 0 = kMaxLevel \<and> 1 \<le> sl_levels s \<and> sl_levels s \<le> kMaxLevel \<and>
     (\<forall>p\<in>set xs. 1 \<le> height s p \<and> height s p \<le> sl_levels s)"

definition chains_ok :: "skiplist \<Rightarrow> nat list \<Rightarrow> bool" where
  "chains_ok s xs \<longleftrightarrow>
     (\<forall>i < sl_levels s. \<forall>a\<le>length xs. i < height s (path xs ! a) \<longrightarrow> linked s xs i a) \<and>
     (\<forall>i. sl_levels s \<le> i \<and> i < kMaxLevel \<longrightarrow> sl_fwd s 0 i = None)"

definition back_ok :: "skiplist \<Rightarrow> nat list \<Rightarrow> bool" where
  "back_ok s xs \<longleftrightarrow>
     (\<forall>a<length xs. backward (sl_at s (xs ! a)) = (if a = 0 then None else Some (xs ! (a - 1)))) \<and>
     sl_tail s = (if xs = [] then None else Some (last xs)) \<and> sl_length s = length xs"

definition sl_shape :: "skiplist \<Rightarrow> nat list \<Rightarrow> bool" where
  "sl_shape s xs \<longleftrightarrow> nodes_ok s xs \<and> chains_ok s xs \<and> back_ok s xs"

lemma length_heights [simp]: "length (heights s xs) = Suc (length xs)"
  by (simp add: heights_def)

lemma heights_nth: "a \<le> length xs \<Longrightarrow> heights s xs ! a = height s (path xs ! a)"
  using nth_map [of a "path xs" "height s"] by (simp add: heights_def)

lemma heights_head: "nodes_ok s xs \<Longrightarrow> i < kMaxLevel \<Longrightarrow> i < heights s xs ! 0"
  by (simp add: heights_def nodes_ok_def)

lemma chains_linked:
  "chains_ok s xs \<Longrightarrow> i < sl_levels s \<Longrightarrow> a \<le> length xs \<Longrightarrow> i < heights s xs ! a \<Longrightarrow> linked s xs i a"
  by (simp add: chains_ok_def heights_nth)

subsection \<open>Searching\<close>

text \<open>The condition of a search, on the steps that the list has.\<close>

definition goes_below :: "skiplist \<Rightarrow> nat list \<Rightarrow> nat \<Rightarrow> nat \<Rightarrow> (nat \<Rightarrow> nat \<Rightarrow> u32 \<Rightarrow> bool) \<Rightarrow> bool" where
  "goes_below s xs i P go \<longleftrightarrow>
     (\<forall>a b. a \<le> length xs \<and> i < heights s xs ! a \<and> b = nxt (heights s xs) i a \<and> b \<le> length xs \<longrightarrow>
        go (path xs ! a) (path xs ! b) (word_of_nat a) = (b < P))"

lemma advance_ends:
  assumes "nodes_ok s xs" "chains_ok s xs" "i < sl_levels s" "goes_below s xs i P go"
    "a < P" "a \<le> length xs" "i < heights s xs ! a"
  shows "sl_advance s go i (path xs ! a) (word_of_nat a) =
    (let l = last_below (heights s xs) i P in Some (path xs ! l, word_of_nat l))"
  using assms(5-7)
proof (induction "length xs - a" arbitrary: a rule: less_induct)
  case less
  let ?hs = "heights s xs" and ?b = "nxt (heights s xs) i a"
  have l: "sl_fwd s (path xs ! a) i = (if ?b \<le> length xs then Some (path xs ! ?b) else None)"
    "sl_span s (path xs ! a) i = word_of_nat (min ?b (length xs) - a)"
    using chains_linked [OF assms(2,3) less.prems(2,3)] by (simp_all add: linked_def Let_def)
  show ?case
  proof (cases "?b \<le> length xs \<and> ?b < P")
    case True
    have "go (path xs ! a) (path xs ! ?b) (word_of_nat a)" using assms(4) less.prems True by (auto simp: goes_below_def)
    moreover have "word_of_nat a + (word_of_nat (?b - a) :: u32) = word_of_nat ?b"
      using nxt_gt [of a ?hs i] by (metis le_add_diff_inverse less_imp_le_nat of_nat_add)
    ultimately have "sl_advance s go i (path xs ! a) (word_of_nat a) =
        sl_advance s go i (path xs ! ?b) (word_of_nat ?b)"
      using True l by (subst sl_advance.simps) (simp add: min_def)
    also have "\<dots> = (let l = last_below ?hs i P in Some (path xs ! l, word_of_nat l))"
      using True nxt_gt [of a ?hs i] nxt_high [of ?hs i a] by (intro less.hyps) auto
    finally show ?thesis .
  next
    case False
    have "last_below ?hs i P = a"
    proof (rule last_below_eqI)
      show "?hs ! c \<le> i" if "a < c" "c < P" "c < length ?hs" for c
      proof (rule nxt_low [OF that(1)])
        show "c < ?b" using False that by auto
      qed
    qed (use less.prems in auto)
    moreover have "?b \<le> length xs \<Longrightarrow> \<not> go (path xs ! a) (path xs ! ?b) (word_of_nat a)"
      using assms(4) less.prems False unfolding goes_below_def by blast
    ultimately show ?thesis using l by (subst sl_advance.simps) simp
  qed
qed

text \<open>From one level to the one below: the last position moves right only.\<close>

lemma search_ends:
  assumes "nodes_ok s xs" "chains_ok s xs" "\<And>i. i < sl_levels s \<Longrightarrow> goes_below s xs i P (go i)"
  shows "k \<le> sl_levels s \<Longrightarrow> a < P \<Longrightarrow> a \<le> length xs \<Longrightarrow> (\<And>i. i < k \<Longrightarrow> i < heights s xs ! a) \<Longrightarrow>
    sl_search s go k (path xs ! a) (word_of_nat a) =
      Some (map (\<lambda>i. path xs ! last_below (heights s xs) i P) [0..<k],
            map (\<lambda>i. word_of_nat (last_below (heights s xs) i P)) [0..<k])"
proof (induction k arbitrary: a)
  case (Suc k)
  let ?hs = "heights s xs" let ?l = "last_below ?hs k P"
  have k: "k < sl_levels s" "k < kMaxLevel" using Suc.prems(1) assms(1) by (auto simp: nodes_ok_def)
  have hd: "k < ?hs ! 0" using heights_head [OF assms(1) k(2)] .
  have adv: "sl_advance s (go k) k (path xs ! a) (word_of_nat a) = Some (path xs ! ?l, word_of_nat ?l)"
    using advance_ends [OF assms(1,2) k(1) assms(3) [OF k(1)]] Suc.prems by (simp add: Let_def)
  have "sl_search s go k (path xs ! ?l) (word_of_nat ?l) =
      Some (map (\<lambda>i. path xs ! last_below ?hs i P) [0..<k], map (\<lambda>i. word_of_nat (last_below ?hs i P)) [0..<k])"
  proof (rule Suc.IH)
    have ne: "?hs \<noteq> []" using length_heights [of s xs] by (metis length_0_conv nat.distinct(1))
    note hi = last_below_high [OF ne hd, of P]
    show "?l < P" using last_below_less Suc.prems(2) by simp
    show "?l \<le> length xs" using hi by simp
    show "i < ?hs ! ?l" if "i < k" for i using hi that by simp
  qed (use Suc.prems in simp)
  then show ?case using adv by simp
qed simp

text \<open>The search of the whole list from the head.\<close>

lemma search_from_head:
  assumes "nodes_ok s xs" "chains_ok s xs" "\<And>i. i < sl_levels s \<Longrightarrow> goes_below s xs i P (go i)" "0 < P"
  shows "sl_search s go (sl_levels s) 0 0 =
      Some (map (\<lambda>i. path xs ! last_below (heights s xs) i P) [0..<sl_levels s],
            map (\<lambda>i. word_of_nat (last_below (heights s xs) i P)) [0..<sl_levels s])"
proof -
  have "i < heights s xs ! 0" if "i < sl_levels s" for i
    using heights_head [OF assms(1)] that assms(1) by (auto simp: nodes_ok_def)
  from search_ends [OF assms(1-3), of "sl_levels s" 0] this assms(4) show ?thesis by simp
qed

section \<open>Splicing a node into a skip list and out of it\<close>

text \<open>
  First what an inserted or removed position does to the next positions of the others. Then the assignments to the
  heap: a loop that works level by level is described by what it leaves on each level (\<open>fold_levels\<close>).
\<close>

subsection \<open>Positions\<close>

definition put_at :: "nat \<Rightarrow> 'a \<Rightarrow> 'a list \<Rightarrow> 'a list" where
  "put_at P x xs = take P xs @ x # drop P xs"

definition drop_at :: "nat \<Rightarrow> 'a list \<Rightarrow> 'a list" where
  "drop_at P xs = take P xs @ drop (Suc P) xs"

lemma length_put_at [simp]: "length (put_at P x xs) = Suc (length xs)"
  by (simp add: put_at_def)

lemma length_drop_at [simp]: "P < length xs \<Longrightarrow> length (drop_at P xs) = length xs - 1"
  by (simp add: drop_at_def)

lemma put_at_nth:
  "P \<le> length xs \<Longrightarrow> c \<le> length xs \<Longrightarrow> put_at P x xs ! c = (if c < P then xs ! c else if c = P then x else xs ! (c - 1))"
  by (auto simp: put_at_def nth_append nth_Cons' min_def not_less)

lemma drop_at_nth:
  "P < length xs \<Longrightarrow> c < length xs - 1 \<Longrightarrow> drop_at P xs ! c = (if c < P then xs ! c else xs ! Suc c)"
  by (auto simp: drop_at_def nth_append min_def not_less)

lemma path_put_at: "path (put_at P x xs) = put_at (Suc P) x (path xs)"
  by (simp add: put_at_def)

lemma path_drop_at: "path (drop_at P xs) = drop_at (Suc P) (path xs)"
  by (simp add: drop_at_def)

lemma map_put_at: "map f (put_at P x xs) = put_at P (f x) (map f xs)"
  by (simp add: put_at_def take_map drop_map)

lemma map_drop_at: "map f (drop_at P xs) = drop_at P (map f xs)"
  by (simp add: drop_at_def take_map drop_map)

lemma set_put_at: "set (put_at P x xs) = insert x (set xs)"
  unfolding put_at_def by (metis Un_insert_right append_take_drop_id list.simps(15) set_append)

lemma distinct_put_at: "distinct (put_at P x xs) \<longleftrightarrow> x \<notin> set xs \<and> distinct xs"
proof -
  have "distinct (take P xs @ x # drop P xs) \<longleftrightarrow> x \<notin> set (take P xs @ drop P xs) \<and> distinct (take P xs @ drop P xs)"
    unfolding distinct_append set_append distinct.simps list.set by blast
  then show ?thesis by (simp add: put_at_def)
qed

lemma put_at_left: "P \<le> length xs \<Longrightarrow> c < P \<Longrightarrow> put_at P x xs ! c = xs ! c"
  and put_at_mid: "P \<le> length xs \<Longrightarrow> put_at P x xs ! P = x"
  and put_at_right: "P \<le> length xs \<Longrightarrow> P < c \<Longrightarrow> c \<le> length xs \<Longrightarrow> put_at P x xs ! c = xs ! (c - 1)"
  by (simp_all add: put_at_nth)

lemma drop_at_left: "P < length xs \<Longrightarrow> c < P \<Longrightarrow> drop_at P xs ! c = xs ! c"
  and drop_at_right: "P < length xs \<Longrightarrow> P \<le> c \<Longrightarrow> c < length xs - 1 \<Longrightarrow> drop_at P xs ! c = xs ! Suc c"
  by (simp_all add: drop_at_nth)

lemma nxt_put_at:
  assumes "P \<le> length hs"
  shows "a < P \<Longrightarrow> nxt (put_at P h hs) i a = (let b = nxt hs i a in if b < P then b else if i < h then P else Suc b)"
    "P \<le> a \<Longrightarrow> a < length hs \<Longrightarrow> nxt (put_at P h hs) i (Suc a) = Suc (nxt hs i a)"
proof -
  let ?hs = "put_at P h hs" and ?b = "nxt hs i a"
  note L = put_at_left [OF assms, where x = h] and M = put_at_mid [OF assms, where x = h]
    and R = put_at_right [OF assms, where x = h]
  show "nxt ?hs i a = (let b = ?b in if b < P then b else if i < h then P else Suc b)" if a: "a < P"
  proof -
    have al: "a < length hs" using a assms(1) by simp
    have gt: "a < ?b" "?b \<le> length hs" using nxt_gt nxt_le [OF al] by auto
    consider "?b < P" | "P \<le> ?b" "i < h" | "P \<le> ?b" "\<not> i < h" by linarith
    then show ?thesis
    proof cases
      case 1
      have "nxt ?hs i a = ?b"
      proof (rule nxt_eqI)
        show "?hs ! c \<le> i" if "a < c" "c < ?b" for c using nxt_low [OF that] L [of c] that(2) 1 by simp
        show "i < ?hs ! ?b" using nxt_high [of hs i a] L [OF 1] 1 assms by simp
      qed (use gt in simp_all)
      then show ?thesis using 1 by simp
    next
      case 2
      have "nxt ?hs i a = P"
      proof (rule nxt_eqI)
        show "?hs ! c \<le> i" if "a < c" "c < P" for c using nxt_low [of a c hs i] L [OF that(2)] that 2 by simp
        show "i < ?hs ! P" using M 2 by simp
      qed (use a assms in simp_all)
      then show ?thesis using 2 by simp
    next
      case 3
      have "nxt ?hs i a = Suc ?b"
      proof (rule nxt_eqI)
        show "?hs ! c \<le> i" if "a < c" "c < Suc ?b" for c
        proof (cases "c \<le> P")
          case True
          then show ?thesis
          proof (cases "c = P")
            case False
            then have "c < P" using True by simp
            then show ?thesis using nxt_low [of a c hs i] L [of c] that 3 by simp
          qed (use M 3 in simp)
        next
          case False
          then show ?thesis using nxt_low [of a "c - 1" hs i] R [of c] that gt a by simp
        qed
        show "i < ?hs ! Suc ?b" if "Suc ?b < length ?hs" using nxt_high [of hs i a] R [of "Suc ?b"] that 3 by simp
      qed (use gt in simp_all)
      then show ?thesis using 3 by simp
    qed
  qed
  show "nxt ?hs i (Suc a) = Suc ?b" if a: "P \<le> a" "a < length hs"
  proof (rule nxt_eqI)
    have gt: "a < ?b" "?b \<le> length hs" using nxt_gt nxt_le [OF a(2)] by auto
    show "Suc a < Suc ?b" "Suc ?b \<le> length ?hs" using gt by simp_all
    show "?hs ! c \<le> i" if "Suc a < c" "c < Suc ?b" for c
      using nxt_low [of a "c - 1" hs i] R [of c] that gt a by simp
    show "i < ?hs ! Suc ?b" if "Suc ?b < length ?hs" using nxt_high [of hs i a] R [of "Suc ?b"] that gt a by simp
  qed
qed

lemma nxt_put_new:
  assumes "P \<le> length hs" "0 < P" "i < hs ! 0"
  shows "nxt (put_at P h hs) i P = Suc (nxt hs i (last_below hs i P))"
proof -
  let ?hs = "put_at P h hs" and ?l = "last_below hs i P" let ?b = "nxt hs i ?l"
  note R = put_at_right [OF assms(1), where x = h]
  have ne: "hs \<noteq> []" using assms by auto
  have l: "?l < P" "?l < length hs" using last_below_less [OF assms(2)] last_below_high [OF ne assms(3), of P] by auto
  have b: "P \<le> ?b" "?b \<le> length hs" using nxt_last_below [OF ne assms(3,1,2)] nxt_le [OF l(2)] by auto
  show ?thesis
  proof (rule nxt_eqI)
    show "P < Suc ?b" "Suc ?b \<le> length ?hs" using b by simp_all
    show "?hs ! c \<le> i" if "P < c" "c < Suc ?b" for c using nxt_low [of ?l "c - 1" hs i] R [of c] that b l by simp
    show "i < ?hs ! Suc ?b" if "Suc ?b < length ?hs" using nxt_high [of hs i ?l] R [of "Suc ?b"] that b by simp
  qed
qed

lemma nxt_drop_at:
  assumes "P < length hs"
  shows "a < P \<Longrightarrow> nxt (drop_at P hs) i a =
      (let b = nxt hs i a in if b < P then b else if b = P then nxt hs i P - 1 else b - 1)"
    "P < a \<Longrightarrow> a < length hs \<Longrightarrow> nxt (drop_at P hs) i (a - 1) = nxt hs i a - 1"
proof -
  let ?hs = "drop_at P hs" and ?b = "nxt hs i a" and ?p = "nxt hs i P"
  note L = drop_at_left [OF assms] and R = drop_at_right [OF assms]
  have len: "length ?hs = length hs - 1" using assms by simp
  show "nxt ?hs i a = (let b = ?b in if b < P then b else if b = P then ?p - 1 else b - 1)" if a: "a < P"
  proof -
    have al: "a < length hs" using a assms(1) by simp
    have gt: "a < ?b" "?b \<le> length hs" using nxt_gt nxt_le [OF al] by auto
    consider "?b < P" | "?b = P" | "P < ?b" by linarith
    then show ?thesis
    proof cases
      case 1
      have "nxt ?hs i a = ?b"
      proof (rule nxt_eqI)
        show "?hs ! c \<le> i" if "a < c" "c < ?b" for c using nxt_low [OF that] L [of c] that(2) 1 by simp
        show "i < ?hs ! ?b" using nxt_high [of hs i a] L [OF 1] 1 assms by simp
        show "?b \<le> length ?hs" using 1 assms len by simp
      qed (rule gt)
      then show ?thesis using 1 by simp
    next
      case 2
      have p: "P < ?p" "?p \<le> length hs" using nxt_gt nxt_le [OF assms(1)] by auto
      have "nxt ?hs i a = ?p - 1"
      proof (rule nxt_eqI)
        show "?hs ! c \<le> i" if "a < c" "c < ?p - 1" for c
        proof (cases "c < P")
          case True
          then show ?thesis using nxt_low [of a c hs i] L [of c] that 2 by simp
        next
          case False
          then show ?thesis using nxt_low [of P "Suc c" hs i] R [of c] that p by simp
        qed
        show "i < ?hs ! (?p - 1)" if "?p - 1 < length ?hs"
        proof -
          have "P \<le> ?p - 1" "Suc (?p - 1) = ?p" using p(1) by simp_all
          then show ?thesis using nxt_high [of hs i P] R [of "?p - 1"] that p len by simp
        qed
        show "a < ?p - 1" "?p - 1 \<le> length ?hs" using p a len by simp_all
      qed
      then show ?thesis using 2 by simp
    next
      case 3
      have "nxt ?hs i a = ?b - 1"
      proof (rule nxt_eqI)
        show "?hs ! c \<le> i" if "a < c" "c < ?b - 1" for c
        proof (cases "c < P")
          case True
          then show ?thesis using nxt_low [of a c hs i] L [of c] that 3 by simp
        next
          case False
          then show ?thesis using nxt_low [of a "Suc c" hs i] R [of c] that gt by simp
        qed
        show "i < ?hs ! (?b - 1)" if "?b - 1 < length ?hs"
        proof -
          have "P \<le> ?b - 1" "Suc (?b - 1) = ?b" using 3 by simp_all
          then show ?thesis using nxt_high [of hs i a] R [of "?b - 1"] that len by simp
        qed
        show "a < ?b - 1" "?b - 1 \<le> length ?hs" using 3 gt a len by simp_all
      qed
      then show ?thesis using 3 by simp
    qed
  qed
  show "nxt ?hs i (a - 1) = ?b - 1" if a: "P < a" "a < length hs"
  proof (rule nxt_eqI)
    have gt: "a < ?b" "?b \<le> length hs" using nxt_gt nxt_le [OF a(2)] by auto
    show "a - 1 < ?b - 1" "?b - 1 \<le> length ?hs" using gt a len by simp_all
    show "?hs ! c \<le> i" if "a - 1 < c" "c < ?b - 1" for c
      using nxt_low [of a "Suc c" hs i] R [of c] that gt a by simp
    show "i < ?hs ! (?b - 1)" if "?b - 1 < length ?hs"
    proof -
      have "P \<le> ?b - 1" "Suc (?b - 1) = ?b" using gt a by simp_all
      then show ?thesis using nxt_high [of hs i a] R [of "?b - 1"] that len by simp
    qed
  qed
qed

subsection \<open>Assignments to one level\<close>

text \<open>\<open>keeps s t\<close>: \<open>t\<close> differs from \<open>s\<close> in forward pointers and spans only.\<close>

definition keeps :: "skiplist \<Rightarrow> skiplist \<Rightarrow> bool" where
  "keeps s t \<longleftrightarrow> length (sl_heap t) = length (sl_heap s) \<and>
     (\<forall>q < length (sl_heap s). sl_heap s ! q \<noteq> None \<longrightarrow> sl_heap t ! q \<noteq> None) \<and>
     (\<forall>q. height t q = height s q \<and> member (sl_at t q) = member (sl_at s q) \<and> score (sl_at t q) = score (sl_at s q) \<and>
        backward (sl_at t q) = backward (sl_at s q)) \<and>
     sl_tail t = sl_tail s \<and> sl_length t = sl_length s \<and> sl_levels t = sl_levels s"

lemma keeps_refl [simp]: "keeps s s"
  by (simp add: keeps_def)

lemma keeps_trans: "keeps s t \<Longrightarrow> keeps t u \<Longrightarrow> keeps s u"
  by (simp add: keeps_def)

lemma at_upd:
  "p < length (sl_heap s) \<Longrightarrow> sl_at (sl_upd p f s) q = (if q = p then f (sl_at s p) else sl_at s q)"
  by (simp add: sl_upd_def sl_at_def)

lemma upd_fields [simp]:
  "length (sl_heap (sl_upd p f s)) = length (sl_heap s)" "sl_tail (sl_upd p f s) = sl_tail s"
  "sl_length (sl_upd p f s) = sl_length s" "sl_levels (sl_upd p f s) = sl_levels s"
  "sl_heap s ! q \<noteq> None \<Longrightarrow> q < length (sl_heap s) \<Longrightarrow> sl_heap (sl_upd p f s) ! q \<noteq> None"
  by (simp_all add: sl_upd_def) (cases "q = p"; simp)

lemma set_level_effect:
  assumes "p < length (sl_heap s)" "i < height s p"
  shows "sl_fwd (sl_set_level p i l s) q j = (if q = p \<and> j = i then forward l else sl_fwd s q j)"
    "sl_span (sl_set_level p i l s) q j = (if q = p \<and> j = i then span l else sl_span s q j)"
    "keeps s (sl_set_level p i l s)"
  using assms by (auto simp: sl_fwd_def sl_span_def sl_set_level_def at_upd keeps_def height_def nth_list_update)

lemma set_span_effect:
  assumes "p < length (sl_heap s)" "i < height s p"
  shows "sl_fwd (sl_set_span p i w s) q j = sl_fwd s q j"
    "sl_span (sl_set_span p i w s) q j = (if q = p \<and> j = i then w else sl_span s q j)"
    "keeps s (sl_set_span p i w s)"
  using set_level_effect [OF assms] by (auto simp: sl_set_span_def)

text \<open>A loop over the levels whose body at level \<open>i\<close> sets this level only: on every level the loop covers, it
  leaves what the body makes of the level as it was.\<close>

lemma fold_levels:
  assumes "\<And>t i. keeps s t \<Longrightarrow> m \<le> i \<Longrightarrow> i < k \<Longrightarrow> keeps t (f t i)"
    "\<And>t i q j. keeps s t \<Longrightarrow> m \<le> i \<Longrightarrow> i < k \<Longrightarrow> j \<noteq> i \<Longrightarrow>
      sl_fwd (f t i) q j = sl_fwd t q j \<and> sl_span (f t i) q j = sl_span t q j"
    "\<And>t i q. keeps s t \<Longrightarrow> m \<le> i \<Longrightarrow> i < k \<Longrightarrow> (\<And>q. sl_fwd t q i = sl_fwd s q i \<and> sl_span t q i = sl_span s q i) \<Longrightarrow>
      sl_fwd (f t i) q i = F q i \<and> sl_span (f t i) q i = W q i"
    "m \<le> k"
  shows "keeps s (foldl f s [m..<k]) \<and>
    (\<forall>q j. sl_fwd (foldl f s [m..<k]) q j = (if m \<le> j \<and> j < k then F q j else sl_fwd s q j) \<and>
      sl_span (foldl f s [m..<k]) q j = (if m \<le> j \<and> j < k then W q j else sl_span s q j))"
proof -
  have "k' \<le> k \<Longrightarrow> m \<le> k' \<Longrightarrow> keeps s (foldl f s [m..<k']) \<and>
    (\<forall>q j. sl_fwd (foldl f s [m..<k']) q j = (if m \<le> j \<and> j < k' then F q j else sl_fwd s q j) \<and>
      sl_span (foldl f s [m..<k']) q j = (if m \<le> j \<and> j < k' then W q j else sl_span s q j))" for k'
  proof (induction k')
    case (Suc k')
    show ?case
    proof (cases "m = Suc k'")
      case False
      let ?t = "foldl f s [m..<k']"
      have m: "m \<le> k'" "k' < k" using Suc.prems False by simp_all
      have k: "keeps s ?t" "\<And>q j. sl_fwd ?t q j = (if m \<le> j \<and> j < k' then F q j else sl_fwd s q j)"
        "\<And>q j. sl_span ?t q j = (if m \<le> j \<and> j < k' then W q j else sl_span s q j)" using Suc.IH m by simp_all
      have e: "foldl f s [m..<Suc k'] = f ?t k'" using m by simp
      have at: "sl_fwd (f ?t k') q k' = F q k' \<and> sl_span (f ?t k') q k' = W q k'" for q
        using assms(3) [OF k(1) m, of q] k(2,3) by simp
      have off: "j \<noteq> k' \<Longrightarrow> sl_fwd (f ?t k') q j = sl_fwd ?t q j \<and> sl_span (f ?t k') q j = sl_span ?t q j" for q j
        using assms(2) [OF k(1) m] by blast
      show ?thesis unfolding e
      proof (intro conjI allI)
        show "keeps s (f ?t k')" using assms(1) [OF k(1) m] k(1) keeps_trans by blast
        show "sl_fwd (f ?t k') q j = (if m \<le> j \<and> j < Suc k' then F q j else sl_fwd s q j)" for q j
          by (cases "j = k'") (use at off k m in \<open>auto simp: less_Suc_eq\<close>)
        show "sl_span (f ?t k') q j = (if m \<le> j \<and> j < Suc k' then W q j else sl_span s q j)" for q j
          by (cases "j = k'") (use at off k m in \<open>auto simp: less_Suc_eq\<close>)
      qed
    qed (auto dest: leD)
  qed (auto dest: leD)
  then show ?thesis using assms(4) by blast
qed

end
