(* ===== verification/Skip_Insert.thy ===== *)
theory Skip_Insert
  imports Skip_Search
begin

section \<open>Insertion keeps the list in order\<close>

text \<open>
  The handler's steps one after another: the level of the new node, the levels the list gains, the new node, its
  links, the spans above it, the backward pointers. What they leave is the shape of the path with the new node in it.
\<close>

subsection \<open>Fields that a list does not look at\<close>

lemma sl_at_fields [simp]:
  "sl_at (s\<lparr>sl_rng := g\<rparr>) = sl_at s" "sl_at (s\<lparr>sl_levels := n\<rparr>) = sl_at s"
  "sl_at (s\<lparr>sl_length := n\<rparr>) = sl_at s" "sl_at (s\<lparr>sl_tail := p\<rparr>) = sl_at s"
  by (simp_all add: sl_at_def fun_eq_iff)

lemma sl_fwd_fields [simp]:
  "sl_fwd (s\<lparr>sl_rng := g\<rparr>) = sl_fwd s" "sl_fwd (s\<lparr>sl_levels := n\<rparr>) = sl_fwd s"
  "sl_fwd (s\<lparr>sl_length := n\<rparr>) = sl_fwd s" "sl_fwd (s\<lparr>sl_tail := p\<rparr>) = sl_fwd s"
  by (simp_all add: sl_fwd_def fun_eq_iff)

lemma sl_span_fields [simp]:
  "sl_span (s\<lparr>sl_rng := g\<rparr>) = sl_span s" "sl_span (s\<lparr>sl_levels := n\<rparr>) = sl_span s"
  "sl_span (s\<lparr>sl_length := n\<rparr>) = sl_span s" "sl_span (s\<lparr>sl_tail := p\<rparr>) = sl_span s"
  by (simp_all add: sl_span_def fun_eq_iff)

lemma height_fields [simp]:
  "height (s\<lparr>sl_rng := g\<rparr>) = height s" "height (s\<lparr>sl_levels := n\<rparr>) = height s"
  "height (s\<lparr>sl_length := n\<rparr>) = height s" "height (s\<lparr>sl_tail := p\<rparr>) = height s"
  by (simp_all add: height_def fun_eq_iff)

lemma heights_cong: "(\<And>p. p \<in> set (path xs) \<Longrightarrow> height t p = height s p) \<Longrightarrow> heights t xs = heights s xs"
  by (simp add: heights_def)

lemma linked_cong:
  assumes "heights t xs = heights s xs" "sl_fwd t (path xs ! a) i = sl_fwd s (path xs ! a) i"
    "sl_span t (path xs ! a) i = sl_span s (path xs ! a) i"
  shows "linked t xs i a = linked s xs i a"
  using assms by (simp add: linked_def)

text \<open>What a list that keeps all but its links and levels keeps.\<close>

definition same_nodes :: "skiplist \<Rightarrow> skiplist \<Rightarrow> bool" where
  "same_nodes s t \<longleftrightarrow> keeps s (t\<lparr>sl_levels := sl_levels s\<rparr>)"

lemma random_level_bounds: "1 \<le> l \<Longrightarrow> l \<le> kMaxLevel \<Longrightarrow> 1 \<le> fst (random_level g l) \<and> fst (random_level g l) \<le> kMaxLevel"
proof (induction g l rule: random_level.induct)
  case (1 g l)
  show ?case
  proof (cases "l < kMaxLevel")
    case True
    obtain w g' where "mt_next g = (w, g')" by fastforce
    then show ?thesis using 1 True by (subst (1 2) random_level.simps) (auto simp: Let_def)
  qed (use 1 in \<open>simp add: random_level.simps\<close>)
qed

subsection \<open>Where the new node goes\<close>

definition ups :: "skiplist \<Rightarrow> nat list \<Rightarrow> nat \<Rightarrow> nat \<Rightarrow> nat list" where
  "ups s xs P k = map (\<lambda>i. path xs ! last_below (heights s xs) i P) [0..<k]"

definition ranks :: "skiplist \<Rightarrow> nat list \<Rightarrow> nat \<Rightarrow> nat \<Rightarrow> u32 list" where
  "ranks s xs P k = map (\<lambda>i. word_of_nat (last_below (heights s xs) i P)) [0..<k]"

lemma last_below_head: "(\<And>c. 0 < c \<Longrightarrow> c < length hs \<Longrightarrow> hs ! c \<le> i) \<Longrightarrow> last_below hs i P = 0"
  by (induction P) force+

lemma nxt_none: "(\<And>c. a < c \<Longrightarrow> c < length hs \<Longrightarrow> hs ! c \<le> i) \<Longrightarrow> a < length hs \<Longrightarrow> nxt hs i a = length hs"
  by (rule nxt_eqI) auto

lemma heights_low:
  "nodes_ok s xs \<Longrightarrow> sl_levels s \<le> i \<Longrightarrow> 0 < c \<Longrightarrow> c \<le> length xs \<Longrightarrow> heights s xs ! c \<le> i"
  by (cases c) (auto simp: heights_nth nodes_ok_def dest!: nth_mem intro: le_trans)

lemma last_below_0:
  assumes "nodes_ok s xs" "P \<le> Suc (length xs)" "0 < P"
  shows "last_below (heights s xs) 0 P = P - 1"
proof (rule last_below_eqI)
  show "0 < heights s xs ! (P - 1)"
  proof (cases "P = 1")
    case True
    then show ?thesis using heights_head [OF assms(1), of 0] by (simp add: kMaxLevel_def)
  next
    case False
    then have "P - 1 \<le> length xs" "path xs ! (P - 1) \<in> set xs" using assms by (auto simp: nth_Cons')
    then show ?thesis using assms(1) by (fastforce simp: heights_nth nodes_ok_def)
  qed
qed (use assms in auto)

text \<open>New levels start at the head and end nowhere.\<close>

lemma raise_up:
  assumes "nodes_ok s xs" "chains_ok s xs" "sl_length s = length xs" "lvl \<le> kMaxLevel" and up: "sl_levels s < lvl" and
    "sl_raise (ups s xs P (sl_levels s)) (ranks s xs P (sl_levels s)) lvl s = (us, rs, t)"
  shows "nodes_ok t xs" "chains_ok t xs" "same_nodes s t" "sl_levels t = max (sl_levels s) lvl"
    "us = ups t xs P (sl_levels t)" "rs = ranks t xs P (sl_levels t)"
proof -
  let ?f = "\<lambda>s i. sl_set_span 0 i (word_of_nat (length xs)) s"
  have head: "0 < length (sl_heap s)" "height s 0 = kMaxLevel" using assms(1) by (auto simp: nodes_ok_def)
  let ?t = "foldl ?f s [sl_levels s..<lvl]"
  have len: "keeps s u \<Longrightarrow> sl_length u = length xs" for u using assms(3) by (simp add: keeps_def)
  have f: "foldl (\<lambda>s i. sl_set_span 0 i (word_of_nat (sl_length s)) s) s [sl_levels s..<k] = foldl ?f s [sl_levels s..<k] \<and>
      keeps s (foldl ?f s [sl_levels s..<k])" if "k \<le> lvl" for k
    using that
  proof (induction k)
    case (Suc k)
    show ?case
    proof (cases "sl_levels s \<le> k")
      case True
      then have IH: "keeps s (foldl ?f s [sl_levels s..<k])"
        "foldl (\<lambda>s i. sl_set_span 0 i (word_of_nat (sl_length s)) s) s [sl_levels s..<k] = foldl ?f s [sl_levels s..<k]"
        using Suc by simp_all
      have "keeps (foldl ?f s [sl_levels s..<k]) (?f (foldl ?f s [sl_levels s..<k]) k)"
        using IH(1) head assms(4) Suc.prems by (intro set_span_effect) (auto simp: keeps_def)
      then show ?thesis using True IH len [OF IH(1)] keeps_trans by auto
    qed simp
  qed simp
  have "keeps s ?t \<and> (\<forall>q j. sl_fwd ?t q j = (if sl_levels s \<le> j \<and> j < lvl then sl_fwd s q j else sl_fwd s q j) \<and>
      sl_span ?t q j = (if sl_levels s \<le> j \<and> j < lvl then if q = 0 then word_of_nat (length xs) else sl_span s q j
        else sl_span s q j))"
  proof (rule fold_levels)
    fix u i assume u: "keeps s u" "sl_levels s \<le> i" "i < lvl"
    then have h: "0 < length (sl_heap u)" "i < height u 0" using head assms(4) by (auto simp: keeps_def)
    note e = set_span_effect [OF h]
    show "keeps u (?f u i)" by (rule e)
    show "j \<noteq> i \<Longrightarrow> sl_fwd (?f u i) q j = sl_fwd u q j \<and> sl_span (?f u i) q j = sl_span u q j" for q j by (simp add: e)
    show "(\<And>q. sl_fwd u q i = sl_fwd s q i \<and> sl_span u q i = sl_span s q i) \<Longrightarrow> sl_fwd (?f u i) q i = sl_fwd s q i \<and>
        sl_span (?f u i) q i = (if q = 0 then word_of_nat (length xs) else sl_span s q i)" for q by (simp add: e)
  qed (use up in simp)
  then have t1: "keeps s ?t" "\<And>q j. sl_fwd ?t q j = sl_fwd s q j"
    "\<And>q j. sl_span ?t q j = (if q = 0 \<and> sl_levels s \<le> j \<and> j < lvl then word_of_nat (length xs) else sl_span s q j)"
    by auto
  have t: "t = ?t\<lparr>sl_levels := lvl\<rparr>" "us = ups s xs P (sl_levels s) @ replicate (lvl - sl_levels s) 0"
    "rs = ranks s xs P (sl_levels s) @ replicate (lvl - sl_levels s) 0"
    using assms(6) up f [of lvl] by (auto simp: sl_raise_def Let_def)
  have hs: "heights t xs = heights s xs" using t1(1) by (intro heights_cong) (simp add: t keeps_def)
  show "same_nodes s t" using t1(1) by (simp add: same_nodes_def t keeps_def)
  show lv: "sl_levels t = max (sl_levels s) lvl" using up by (simp add: t)
  show "nodes_ok t xs" using assms(1,4) t1(1) up by (auto simp: nodes_ok_def t keeps_def)
  show "chains_ok t xs" unfolding chains_ok_def
  proof (intro conjI allI impI)
    fix i a assume i: "i < sl_levels t" "a \<le> length xs" "i < height t (path xs ! a)"
    then have il: "i < lvl" using lv up by simp
    have ih: "i < heights s xs ! a" using i hs heights_nth [OF i(2), of t] by simp
    show "linked t xs i a"
    proof (cases "i < sl_levels s")
      case True
      then have "linked t xs i a = linked s xs i a" by (intro linked_cong hs) (simp_all add: t t1)
      then show ?thesis using chains_linked [OF assms(2) True i(2) ih] by simp
    next
      case False
      then have a: "a = 0" using heights_low [OF assms(1) _ _ i(2), of i] ih by (metis leD leI not_gr_zero)
      have "nxt (heights s xs) i 0 = Suc (length xs)"
        using nxt_none [of 0 "heights s xs" i] heights_low [OF assms(1), of i] False by simp
      moreover have "sl_fwd s 0 i = None" using assms(2,4) False il by (simp add: chains_ok_def)
      moreover have "sl_fwd t 0 i = sl_fwd s 0 i" "sl_span t 0 i = word_of_nat (length xs)"
        using False il by (simp_all add: t t1)
      ultimately show ?thesis by (simp add: linked_def hs a)
    qed
  next
    show "sl_fwd t 0 i = None" if "sl_levels t \<le> i \<and> i < kMaxLevel" for i
      using that assms(2) up by (simp add: t t1 chains_ok_def)
  qed
  have z: "sl_levels s \<le> i \<Longrightarrow> last_below (heights s xs) i P = 0" for i
    using heights_low [OF assms(1), of i] by (intro last_below_head) simp
  have cut: "[0..<lvl] = [0..<sl_levels s] @ [sl_levels s..<lvl]" using up by (metis less_imp_add_positive less_imp_le_nat upt_add_eq_append zero_le)
  have "map (\<lambda>i. path xs ! last_below (heights s xs) i P) [sl_levels s..<lvl] = replicate (lvl - sl_levels s) 0"
    by (rule replicate_eqI) (auto simp: z)
  moreover have "map (\<lambda>i. word_of_nat (last_below (heights s xs) i P) :: u32) [sl_levels s..<lvl] =
      replicate (lvl - sl_levels s) 0"
    by (rule replicate_eqI) (auto simp: z)
  ultimately show "us = ups t xs P (sl_levels t)" "rs = ranks t xs P (sl_levels t)"
    by (simp_all add: t ups_def ranks_def hs [unfolded t] cut)
qed

lemma raise_shape:
  assumes "nodes_ok s xs" "chains_ok s xs" "sl_length s = length xs" "lvl \<le> kMaxLevel"
    "sl_raise (ups s xs P (sl_levels s)) (ranks s xs P (sl_levels s)) lvl s = (us, rs, t)"
  shows "nodes_ok t xs \<and> chains_ok t xs \<and> same_nodes s t \<and> sl_levels t = max (sl_levels s) lvl \<and>
    us = ups t xs P (sl_levels t) \<and> rs = ranks t xs P (sl_levels t)"
proof (cases "sl_levels s < lvl")
  case True
  then show ?thesis using raise_up [OF assms(1-4) True assms(5)] by blast
next
  case False
  then show ?thesis using assms by (auto simp: sl_raise_def same_nodes_def)
qed

section \<open>The new node in its place\<close>

text \<open>
  From the search's arrays to the shape of the longer path: the node is appended to the heap, linked on its own
  levels behind the last lower positions, and jumped over on the levels above it.
\<close>

subsection \<open>The two loops over the levels\<close>

lemma link_all:
  assumes "x < length (sl_heap s)" "\<And>i. i < k \<Longrightarrow> us ! i < length (sl_heap s) \<and> us ! i \<noteq> x \<and> i < height s (us ! i)"
    "k \<le> height s x"
  shows "keeps s (foldl (sl_link x us rs) s [0..<k]) \<and>
    (\<forall>q j. sl_fwd (foldl (sl_link x us rs) s [0..<k]) q j =
        (if 0 \<le> j \<and> j < k then if q = us ! j then Some x else if q = x then sl_fwd s (us ! j) j else sl_fwd s q j
         else sl_fwd s q j) \<and>
      sl_span (foldl (sl_link x us rs) s [0..<k]) q j =
        (if 0 \<le> j \<and> j < k then if q = us ! j then rs ! 0 - rs ! j + 1
           else if q = x then sl_span s (us ! j) j - (rs ! 0 - rs ! j) else sl_span s q j
         else sl_span s q j))"
proof (rule fold_levels)
  fix t i assume t: "keeps s t" "0 \<le> i" "i < k"
  let ?u = "us ! i" and ?l = "\<lparr>forward = sl_fwd t (us ! i) i, span = sl_span t (us ! i) i - (rs ! 0 - rs ! i)\<rparr>"
  let ?t = "sl_set_level x i ?l t"
  have x: "x < length (sl_heap t)" "i < height t x" using assms t by (auto simp: keeps_def)
  note e1 = set_level_effect [OF x, of ?l]
  have u: "?u < length (sl_heap ?t)" "i < height ?t ?u"
    using assms(2) [OF t(3)] t(1) e1(3) by (auto simp: keeps_def)
  note e2 = set_level_effect [OF u, of "\<lparr>forward = Some x, span = rs ! 0 - rs ! i + 1\<rparr>"]
  have e: "sl_link x us rs t i = sl_set_level ?u i \<lparr>forward = Some x, span = rs ! 0 - rs ! i + 1\<rparr> ?t"
    by (simp add: sl_link_def Let_def)
  have ne: "?u \<noteq> x" using assms(2) [OF t(3)] by simp
  show "keeps t (sl_link x us rs t i)" unfolding e using e1(3) e2(3) keeps_trans by blast
  show "j \<noteq> i \<Longrightarrow> sl_fwd (sl_link x us rs t i) q j = sl_fwd t q j \<and> sl_span (sl_link x us rs t i) q j = sl_span t q j" for q j
    unfolding e e2(1,2) e1(1,2) by simp
  show "(\<And>q. sl_fwd t q i = sl_fwd s q i \<and> sl_span t q i = sl_span s q i) \<Longrightarrow>
      sl_fwd (sl_link x us rs t i) q i =
        (if q = us ! i then Some x else if q = x then sl_fwd s (us ! i) i else sl_fwd s q i) \<and>
      sl_span (sl_link x us rs t i) q i =
        (if q = us ! i then rs ! 0 - rs ! i + 1
         else if q = x then sl_span s (us ! i) i - (rs ! 0 - rs ! i) else sl_span s q i)" for q
    unfolding e e2(1,2) e1(1,2) using ne by auto
qed simp

lemma bump_all:
  assumes "\<And>i. m \<le> i \<Longrightarrow> i < k \<Longrightarrow> us ! i < length (sl_heap s) \<and> i < height s (us ! i)" "m \<le> k"
  shows "keeps s (foldl (\<lambda>s i. sl_set_span (us ! i) i (sl_span s (us ! i) i + 1) s) s [m..<k]) \<and>
    (\<forall>q j. sl_fwd (foldl (\<lambda>s i. sl_set_span (us ! i) i (sl_span s (us ! i) i + 1) s) s [m..<k]) q j =
        (if m \<le> j \<and> j < k then sl_fwd s q j else sl_fwd s q j) \<and>
      sl_span (foldl (\<lambda>s i. sl_set_span (us ! i) i (sl_span s (us ! i) i + 1) s) s [m..<k]) q j =
        (if m \<le> j \<and> j < k then if q = us ! j then sl_span s q j + 1 else sl_span s q j else sl_span s q j))"
proof (rule fold_levels)
  fix t i assume t: "keeps s t" "m \<le> i" "i < k"
  then have u: "us ! i < length (sl_heap t)" "i < height t (us ! i)" using assms(1) [OF t(2,3)] by (auto simp: keeps_def)
  note e = set_span_effect [OF u]
  show "keeps t (sl_set_span (us ! i) i (sl_span t (us ! i) i + 1) t)" by (rule e)
  show "j \<noteq> i \<Longrightarrow> sl_fwd (sl_set_span (us ! i) i (sl_span t (us ! i) i + 1) t) q j = sl_fwd t q j \<and>
      sl_span (sl_set_span (us ! i) i (sl_span t (us ! i) i + 1) t) q j = sl_span t q j" for q j
    by (simp add: e)
  show "(\<And>q. sl_fwd t q i = sl_fwd s q i \<and> sl_span t q i = sl_span s q i) \<Longrightarrow>
      sl_fwd (sl_set_span (us ! i) i (sl_span t (us ! i) i + 1) t) q i = sl_fwd s q i \<and>
      sl_span (sl_set_span (us ! i) i (sl_span t (us ! i) i + 1) t) q i =
        (if q = us ! i then sl_span s q i + 1 else sl_span s q i)" for q
    by (simp add: e)
qed (use assms in simp)

subsection \<open>The links of the longer path\<close>

text \<open>\<open>t\<close> is a heap whose links are those of \<open>s\<close> with the new node \<open>x\<close> behind position \<open>P - 1\<close>.\<close>

definition spliced :: "skiplist \<Rightarrow> nat list \<Rightarrow> nat \<Rightarrow> nat \<Rightarrow> nat \<Rightarrow> skiplist \<Rightarrow> bool" where
  "spliced s xs P x lvl t \<longleftrightarrow>
     (\<forall>i < sl_levels s. \<forall>q. let l = last_below (heights s xs) i P; u = path xs ! l in
        sl_fwd t q i = (if i < lvl \<and> q = u then Some x else if i < lvl \<and> q = x then sl_fwd s u i else sl_fwd s q i) \<and>
        sl_span t q i =
          (if q = u then if i < lvl then word_of_nat (P - 1) - word_of_nat l + 1 else sl_span s q i + 1
           else if i < lvl \<and> q = x then sl_span s u i - (word_of_nat (P - 1) - word_of_nat l) else sl_span s q i)) \<and>
     (\<forall>i. sl_levels s \<le> i \<longrightarrow> sl_fwd t 0 i = sl_fwd s 0 i)"

lemma word_diff: "b \<le> a \<Longrightarrow> word_of_nat a - word_of_nat b = (word_of_nat (a - b) :: u32)"
  by (simp add: of_nat_diff)

lemma path_inj: "distinct (path xs) \<Longrightarrow> a \<le> length xs \<Longrightarrow> b \<le> length xs \<Longrightarrow> path xs ! a = path xs ! b \<longleftrightarrow> a = b"
  using nth_eq_iff_index_eq [of "path xs" a b] by simp

lemma spliced_linked:
  assumes s: "nodes_ok s xs" "chains_ok s xs" "0 < P" "P \<le> Suc (length xs)" "x \<notin> set (path xs)"
    and t: "spliced s xs P x lvl t" "heights t (put_at (P - 1) x xs) = put_at P lvl (heights s xs)"
    and i: "i < sl_levels s" "a \<le> Suc (length xs)" "i < heights t (put_at (P - 1) x xs) ! a"
  shows "linked t (put_at (P - 1) x xs) i a"
proof -
  let ?hs = "heights s xs" and ?ys = "put_at (P - 1) x xs" and ?n = "length xs"
  let ?l = "last_below ?hs i P" let ?b = "nxt ?hs i ?l"
  have P: "P - 1 \<le> ?n" "Suc (P - 1) = P" "P \<le> length ?hs" using s(3,4) by simp_all
  have d: "distinct (path xs)" using s(1) by (simp add: nodes_ok_def)
  have k: "i < kMaxLevel" using s(1) i(1) by (simp add: nodes_ok_def)
  have hd: "?hs \<noteq> []" "i < ?hs ! 0" using heights_head [OF s(1) k] length_heights [of s xs] by (auto simp del: length_heights)
  have l: "?l < P" "?l \<le> ?n" "i < ?hs ! ?l" using last_below_less [OF s(3)] last_below_high [OF hd, of P] by simp_all
  have b: "P \<le> ?b" "?b \<le> Suc ?n" using nxt_last_below [OF hd P(3) s(3)] nxt_le [of ?l ?hs i] l by simp_all
  have path: "path ?ys = put_at P x (path xs)" using path_put_at [of "P - 1" x xs] P(2) by simp
  have pl: "path ?ys ! c = path xs ! c" if "c < P" for c unfolding path using that P by (intro put_at_left) simp_all
  have pm: "path ?ys ! P = x" unfolding path using P by (intro put_at_mid) simp
  have pr: "path ?ys ! Suc c = path xs ! c" if "P \<le> c" "c \<le> ?n" for c
    unfolding path using put_at_right [of P "path xs" "Suc c" x] that P by simp
  have len: "length ?ys = Suc ?n" by simp
  have F: "sl_fwd t q i = (if i < lvl \<and> q = path xs ! ?l then Some x else if i < lvl \<and> q = x then sl_fwd s (path xs ! ?l) i
      else sl_fwd s q i)"
    and W: "sl_span t q i = (if q = path xs ! ?l then if i < lvl then word_of_nat (P - 1) - word_of_nat ?l + 1 else sl_span s q i + 1
      else if i < lvl \<and> q = x then sl_span s (path xs ! ?l) i - (word_of_nat (P - 1) - word_of_nat ?l) else sl_span s q i)" for q
    using t(1) i(1) by (simp_all add: spliced_def Let_def)
  have old: "sl_fwd s (path xs ! c) i = (if nxt ?hs i c \<le> ?n then Some (path xs ! nxt ?hs i c) else None)"
    "sl_span s (path xs ! c) i = word_of_nat (min (nxt ?hs i c) ?n - c)" if "c \<le> ?n" "i < ?hs ! c" for c
    using chains_linked [OF s(2) i(1) that] by (simp_all add: linked_def Let_def)
  have nx: "path xs ! c \<noteq> x" if "c \<le> ?n" for c using nth_mem [of c "path xs"] s(5) that by auto
  consider "a < P" "a = ?l" | "a < P" "a \<noteq> ?l" | "a = P" | "P < a" by linarith
  then show ?thesis
  proof cases
    case 1
    have n: "nxt (put_at P lvl ?hs) i a = (if i < lvl then P else Suc ?b)"
      using nxt_put_at(1) [OF P(3), of a lvl i] 1 b by (simp add: Let_def)
    show ?thesis
    proof (cases "i < lvl")
      case True
      have "(word_of_nat (P - 1) - word_of_nat ?l + 1 :: u32) = word_of_nat (P - ?l)"
      proof -
        have "?l \<le> P - 1" "Suc (P - 1 - ?l) = P - ?l" using l(1) by simp_all
        then show ?thesis by (metis word_diff of_nat_Suc add.commute)
      qed
      then show ?thesis
        unfolding linked_def Let_def t(2) n len pl [OF 1(1)] using True F [of "path xs ! ?l"] W [of "path xs ! ?l"] 1 pm P(1) s(4) by simp
    next
      case False
      have "word_of_nat (min ?b ?n - ?l) + 1 = (word_of_nat (min (Suc ?b) (Suc ?n) - ?l) :: u32)"
      proof -
        have "min (Suc ?b) (Suc ?n) - ?l = Suc (min ?b ?n - ?l)" using l b by auto
        then show ?thesis by (metis of_nat_Suc add.commute)
      qed
      then show ?thesis
        unfolding linked_def Let_def t(2) n len pl [OF 1(1)]
        using False F [of "path xs ! ?l"] W [of "path xs ! ?l"] old [OF l(2,3)] 1 pr [OF b(1)] nx [OF l(2)] by simp
    qed
  next
    case 2
    have al: "a \<le> ?n" using 2 s(4) by simp
    have ia: "i < ?hs ! a" using i(3) put_at_left [OF P(3) 2(1), of lvl] unfolding t(2) by simp
    have "a < ?l" using last_below_ge [of a P ?hs i] 2 al ia by simp
    then have na: "nxt ?hs i a \<le> ?l" using nxt_before [of ?l P ?hs i a] l by simp
    then have n: "nxt (put_at P lvl ?hs) i a = nxt ?hs i a"
      using nxt_put_at(1) [OF P(3) 2(1), of lvl i] l by (simp add: Let_def)
    have "path xs ! a \<noteq> path xs ! ?l" using path_inj [OF d al l(2)] 2 by simp
    then show ?thesis
      unfolding linked_def Let_def t(2) n len pl [OF 2(1)]
      using F [of "path xs ! a"] W [of "path xs ! a"] old [OF al ia] nx [OF al] na l pl [of "nxt ?hs i a"] by simp
  next
    case 3
    have il: "i < lvl" using i(3) put_at_mid [OF P(3), of lvl] unfolding t(2) 3 by simp
    have n: "nxt (put_at P lvl ?hs) i P = Suc ?b" using nxt_put_new [OF P(3) s(3) hd(2), of lvl] by simp
    have "word_of_nat (min ?b ?n - ?l) - (word_of_nat (P - 1) - word_of_nat ?l) = (word_of_nat (min (Suc ?b) (Suc ?n) - P) :: u32)"
    proof -
      have "?l \<le> P - 1" "P - 1 - ?l \<le> min ?b ?n - ?l" using l b P by auto
      then have "word_of_nat (min ?b ?n - ?l) - (word_of_nat (P - 1) - word_of_nat ?l) =
          (word_of_nat (min ?b ?n - ?l - (P - 1 - ?l)) :: u32)" by (simp only: word_diff)
      moreover have "min ?b ?n - ?l - (P - 1 - ?l) = min (Suc ?b) (Suc ?n) - P" using l b P by auto
      ultimately show ?thesis by simp
    qed
    then show ?thesis
      unfolding 3 linked_def Let_def t(2) len pm unfolding n
      using F [of x] W [of x] il old [OF l(2,3)] nx [OF l(2)] pr [OF b(1)] by auto
  next
    case 4
    define c where "c = a - 1"
    have c: "a = Suc c" "P \<le> c" "c \<le> ?n" using 4 i(2) by (auto simp: c_def)
    have ic: "i < ?hs ! c" using i(3) put_at_right [OF P(3), of a lvl] c unfolding t(2) by simp
    have n: "nxt (put_at P lvl ?hs) i a = Suc (nxt ?hs i c)" using nxt_put_at(2) [OF P(3) c(2), of lvl i] c by simp
    have "path xs ! c \<noteq> path xs ! ?l" using path_inj [OF d c(3) l(2)] c l by simp
    then show ?thesis
      unfolding linked_def Let_def t(2) n len unfolding c(1) pr [OF c(2,3)]
      using F [of "path xs ! c"] W [of "path xs ! c"] old [OF c(3) ic] nx [OF c(3)] pr [of "nxt ?hs i c"] nxt_gt [of c ?hs i] c
      by simp
  qed
qed

subsection \<open>The backward pointers\<close>

lemma upd_backward:
  assumes "p < length (sl_heap s)"
  shows "sl_fwd (sl_upd p (\<lambda>n. n\<lparr>backward := b\<rparr>) s) = sl_fwd s" "sl_span (sl_upd p (\<lambda>n. n\<lparr>backward := b\<rparr>) s) = sl_span s"
    "height (sl_upd p (\<lambda>n. n\<lparr>backward := b\<rparr>) s) = height s"
    "member (sl_at (sl_upd p (\<lambda>n. n\<lparr>backward := b\<rparr>) s) q) = member (sl_at s q)"
    "score (sl_at (sl_upd p (\<lambda>n. n\<lparr>backward := b\<rparr>) s) q) = score (sl_at s q)"
    "backward (sl_at (sl_upd p (\<lambda>n. n\<lparr>backward := b\<rparr>) s) q) = (if q = p then b else backward (sl_at s q))"
  using assms by (auto simp: fun_eq_iff sl_fwd_def sl_span_def height_def at_upd)

lemma nodes_ok_cong:
  assumes "nodes_ok s xs" "height t = height s" "length (sl_heap t) = length (sl_heap s)" "sl_levels t = sl_levels s"
    "\<And>q. q < length (sl_heap s) \<Longrightarrow> sl_heap s ! q \<noteq> None \<Longrightarrow> sl_heap t ! q \<noteq> None"
  shows "nodes_ok t xs"
  using assms unfolding nodes_ok_def by metis

lemma chains_ok_cong:
  assumes "chains_ok s xs" "height t = height s" "sl_fwd t = sl_fwd s" "sl_span t = sl_span s" "sl_levels t = sl_levels s"
  shows "chains_ok t xs"
  using assms by (simp add: chains_ok_def linked_def heights_def)

lemma nxt_0: "nodes_ok s xs \<Longrightarrow> a \<le> length xs \<Longrightarrow> nxt (heights s xs) 0 a = Suc a"
  by (rule nxt_eqI) (auto simp: heights_nth nodes_ok_def dest!: nth_mem)

lemma heights_pos: "nodes_ok s xs \<Longrightarrow> a \<le> length xs \<Longrightarrow> 0 < heights s xs ! a"
proof (cases a)
  case (Suc c)
  assume s: "nodes_ok s xs" "a \<le> length xs"
  then have "xs ! c \<in> set xs" using Suc by simp
  then have "1 \<le> height s (xs ! c)" using s(1) by (simp add: nodes_ok_def)
  then show ?thesis using s(2) Suc by (simp add: heights_nth)
qed (simp add: heights_head kMaxLevel_def)

lemma fwd_0:
  assumes "nodes_ok s xs" "chains_ok s xs" "a \<le> length xs"
  shows "sl_fwd s (path xs ! a) 0 = (if a < length xs then Some (xs ! a) else None)"
proof -
  have "0 < sl_levels s" using assms(1) by (simp add: nodes_ok_def)
  moreover have "0 < heights s xs ! a" using heights_pos assms(1,3) .
  ultimately show ?thesis
    using chains_linked [OF assms(2) _ assms(3), of 0] nxt_0 [OF assms(1,3)] by (simp add: linked_def Suc_le_eq)
qed

lemma upd_some:
  assumes "q < length (sl_heap s)" "sl_heap s ! q \<noteq> None"
  shows "sl_heap (sl_upd p f s) ! q \<noteq> None"
  using assms by (cases "q = p") (simp_all add: sl_upd_def)

lemma set_back_fields:
  assumes "x < length (sl_heap u)" "\<And>q. sl_fwd u x 0 = Some q \<Longrightarrow> q < length (sl_heap u)"
    "t = (let s5 = sl_upd x (\<lambda>n. n\<lparr>backward := b\<rparr>) u;
         s6 = (case sl_fwd s5 x 0 of Some q \<Rightarrow> sl_upd q (\<lambda>n. n\<lparr>backward := Some x\<rparr>) s5 | None \<Rightarrow> s5\<lparr>sl_tail := Some x\<rparr>)
     in s6\<lparr>sl_length := sl_length s6 + 1\<rparr>)"
  shows "height t = height u" "sl_fwd t = sl_fwd u" "sl_span t = sl_span u" "sl_levels t = sl_levels u"
    "length (sl_heap t) = length (sl_heap u)"
    "member (sl_at t p) = member (sl_at u p) \<and> score (sl_at t p) = score (sl_at u p)"
    "p < length (sl_heap u) \<Longrightarrow> sl_heap u ! p \<noteq> None \<Longrightarrow> sl_heap t ! p \<noteq> None"
proof -
  show "height t = height u" "sl_fwd t = sl_fwd u" "sl_span t = sl_span u" "sl_levels t = sl_levels u"
    "length (sl_heap t) = length (sl_heap u)"
    "member (sl_at t p) = member (sl_at u p) \<and> score (sl_at t p) = score (sl_at u p)"
    using assms by (auto simp: Let_def upd_backward split: option.split)
  show "p < length (sl_heap u) \<Longrightarrow> sl_heap u ! p \<noteq> None \<Longrightarrow> sl_heap t ! p \<noteq> None"
    unfolding assms(3) Let_def
    by (cases "sl_fwd u x 0") (simp_all add: upd_backward [OF assms(1)] upd_some del: not_None_eq)
qed

text \<open>The pointers back follow from those forward on level 0.\<close>

lemma back_after_insert:
  assumes "back_ok s xs" "nodes_ok t ys" "chains_ok t ys" "ys = put_at k x xs" "k \<le> length xs" "b = (if path xs ! k = 0 then None else Some (path xs ! k))"
    "\<And>q. q \<in> set xs \<Longrightarrow> backward (sl_at t q) = backward (sl_at s q)" "sl_tail t = sl_tail s" "sl_length t = sl_length s"
  shows "back_ok
    (let s5 = sl_upd x (\<lambda>n. n\<lparr>backward := b\<rparr>) t;
         s6 = (case sl_fwd s5 x 0 of Some q \<Rightarrow> sl_upd q (\<lambda>n. n\<lparr>backward := Some x\<rparr>) s5 | None \<Rightarrow> s5\<lparr>sl_tail := Some x\<rparr>)
     in s6\<lparr>sl_length := sl_length s6 + 1\<rparr>) ys" (is "back_ok ?t ys")
proof -
  let ?s5 = "sl_upd x (\<lambda>n. n\<lparr>backward := b\<rparr>) t" and ?n = "length xs"
  have d: "distinct (path ys)" and heap: "\<And>q. q \<in> set (path ys) \<Longrightarrow> q < length (sl_heap t)" using assms(2) by (auto simp: nodes_ok_def)
  have sx: "set ys = insert x (set xs)" by (simp add: assms(4) set_put_at)
  have dx: "x \<notin> set xs" "distinct xs" "0 \<notin> set xs" "x \<noteq> 0" using d sx by (auto simp: assms(4) distinct_put_at)
  have x: "x < length (sl_heap t)" using heap sx by simp
  have nth: "a \<le> ?n \<Longrightarrow> ys ! a = (if a < k then xs ! a else if a = k then x else xs ! (a - 1))" for a
    unfolding assms(4) by (rule put_at_nth [OF assms(5)])
  have k: "path ys ! Suc k = x" using nth [of k] assms(5) by simp
  have f: "sl_fwd t x 0 = (if k < ?n then Some (xs ! k) else None)"
    using fwd_0 [OF assms(2,3), of "Suc k"] nth [of "Suc k"] assms(5) unfolding k
    by (auto simp: assms(4))
  have bk: "backward (sl_at ?t q) =
      (if k < ?n \<and> q = xs ! k then Some x else if q = x then b else backward (sl_at t q))" for q
    using heap [of "xs ! k"] sx by (simp add: Let_def f upd_backward x)
  have tail: "sl_tail ?t = (if k < ?n then sl_tail t else Some x)" "sl_length ?t = Suc (sl_length t)"
    by (simp_all add: Let_def f upd_backward [OF x])
  have u: "b = (if k = 0 then None else Some (xs ! (k - 1)))"
  proof (cases k)
    case (Suc c)
    then have "xs ! c \<in> set xs" using assms(5) by simp
    then have "xs ! c \<noteq> 0" using dx(3) by metis
    then show ?thesis using assms(6) Suc by simp
  qed (use assms(6) in simp)
  show ?thesis unfolding back_ok_def
  proof (intro conjI allI impI)
    fix a assume "a < length ys"
    then have a: "a \<le> ?n" by (simp add: assms(4))
    have old: "c < ?n \<Longrightarrow> backward (sl_at t (xs ! c)) = (if c = 0 then None else Some (xs ! (c - 1)))" for c
      using assms(1,7) by (simp add: back_ok_def)
    have ne: "c < ?n \<Longrightarrow> c' < ?n \<Longrightarrow> c \<noteq> c' \<Longrightarrow> xs ! c \<noteq> xs ! c'" and nx: "c < ?n \<Longrightarrow> xs ! c \<noteq> x" for c c'
      using dx(1,2) nth_mem by (auto simp: nth_eq_iff_index_eq)
    consider "a < k" | "a = k" | "a = Suc k" | "Suc k < a" by linarith
    then show "backward (sl_at ?t (ys ! a)) = (if a = 0 then None else Some (ys ! (a - 1)))"
    proof cases
      case 1
      then have an: "a < ?n" using assms(5) by simp
      then have "backward (sl_at ?t (xs ! a)) = backward (sl_at t (xs ! a))"
        unfolding bk using 1 ne [of a k] nx [of a] by auto
      then show ?thesis using 1 an old [of a] nth [of a] nth [of "a - 1"] by (cases "a = 0") simp_all
    next
      case 2
      have "backward (sl_at ?t x) = b" unfolding bk using nx [of k] by auto
      then show ?thesis using 2 nth [of a] nth [of "a - 1"] a u by (cases "a = 0") simp_all
    next
      case 3
      then show ?thesis unfolding bk using nth [of a] nth [of k] a by simp
    next
      case 4
      define c where "c = a - 1"
      have c: "a = Suc c" "k < c" "c < ?n" using 4 a by (auto simp: c_def)
      then have "backward (sl_at ?t (xs ! c)) = backward (sl_at t (xs ! c))"
        unfolding bk using ne [of c k] nx [of c] by auto
      then show ?thesis using c old [of c] nth [of a] nth [of c] by simp
    qed
  next
    have "last ys = ys ! ?n" using assms(4) by (metis last_conv_nth length_put_at diff_Suc_1 list.size(3) nat.distinct(1))
    then show "sl_tail ?t = (if ys = [] then None else Some (last ys))"
      unfolding tail using assms(1,4,5,8) nth [of ?n] by (auto simp: back_ok_def last_conv_nth put_at_def)
    show "sl_length ?t = length ys" unfolding tail using assms(1,4,9) by (simp add: back_ok_def)
  qed
qed

subsection \<open>The whole insertion\<close>

lemma same_nodesD:
  assumes "same_nodes s t"
  shows "length (sl_heap t) = length (sl_heap s)" "height t = height s" "member (sl_at t q) = member (sl_at s q)"
    "score (sl_at t q) = score (sl_at s q)" "backward (sl_at t q) = backward (sl_at s q)"
    "sl_tail t = sl_tail s" "sl_length t = sl_length s"
    "q < length (sl_heap s) \<Longrightarrow> sl_heap s ! q \<noteq> None \<Longrightarrow> sl_heap t ! q \<noteq> None"
  using assms by (auto simp: same_nodes_def keeps_def fun_eq_iff)

lemma keeps_same_nodes: "keeps s t \<Longrightarrow> same_nodes s t"
  by (simp add: same_nodes_def keeps_def)

lemma same_nodes_trans: "same_nodes s t \<Longrightarrow> same_nodes t u \<Longrightarrow> same_nodes s u"
  by (simp add: same_nodes_def keeps_def)

text \<open>The heap with the new node appended.\<close>

definition with_node :: "bytes \<Rightarrow> dbl \<Rightarrow> nat \<Rightarrow> skiplist \<Rightarrow> skiplist" where
  "with_node m sc lvl s = s\<lparr>sl_heap := sl_heap s @ [Some (sl_node_new m sc lvl)]\<rparr>"

lemma with_node_at:
  "q < length (sl_heap s) \<Longrightarrow> sl_at (with_node m sc lvl s) q = sl_at s q"
  "sl_at (with_node m sc lvl s) (length (sl_heap s)) = sl_node_new m sc lvl"
  by (simp_all add: with_node_def sl_at_def nth_append)

lemma with_node_old:
  assumes "q < length (sl_heap s)"
  shows "height (with_node m sc lvl s) q = height s q" "sl_fwd (with_node m sc lvl s) q i = sl_fwd s q i"
    "sl_span (with_node m sc lvl s) q i = sl_span s q i" "sl_heap (with_node m sc lvl s) ! q = sl_heap s ! q"
  using assms by (simp_all add: height_def sl_fwd_def sl_span_def with_node_at)
    (simp add: with_node_def nth_append)

lemma with_node_fields [simp]:
  "length (sl_heap (with_node m sc lvl s)) = Suc (length (sl_heap s))" "sl_levels (with_node m sc lvl s) = sl_levels s"
  "sl_tail (with_node m sc lvl s) = sl_tail s" "sl_length (with_node m sc lvl s) = sl_length s"
  "height (with_node m sc lvl s) (length (sl_heap s)) = lvl"
  by (simp_all add: with_node_def height_def sl_at_def sl_node_new_def)

lemma with_node_shape:
  assumes "nodes_ok s xs" "chains_ok s xs"
  shows "nodes_ok (with_node m sc lvl s) xs" "chains_ok (with_node m sc lvl s) xs"
    "heights (with_node m sc lvl s) xs = heights s xs"
proof -
  have heap: "\<And>p. p \<in> set (path xs) \<Longrightarrow> p < length (sl_heap s)" using assms(1) by (auto simp: nodes_ok_def)
  then show h: "heights (with_node m sc lvl s) xs = heights s xs" by (intro heights_cong with_node_old)
  show "nodes_ok (with_node m sc lvl s) xs"
    using assms(1) heap with_node_old(1) [OF heap [of 0]] by (auto simp: nodes_ok_def with_node_old less_SucI)
  have pa: "path xs ! a < length (sl_heap s)" if "a \<le> length xs" for a using heap nth_mem [of a "path xs"] that by simp
  show "chains_ok (with_node m sc lvl s) xs" unfolding chains_ok_def
  proof (intro conjI allI impI)
    fix i a assume i: "i < sl_levels (with_node m sc lvl s)" "a \<le> length xs"
      "i < height (with_node m sc lvl s) (path xs ! a)"
    have "linked (with_node m sc lvl s) xs i a = linked s xs i a" by (intro linked_cong h with_node_old pa i(2))
    then show "linked (with_node m sc lvl s) xs i a"
      using assms(2) i with_node_old(1) [OF pa [OF i(2)]] by (simp add: chains_ok_def)
  next
    show "sl_levels (with_node m sc lvl s) \<le> i \<and> i < kMaxLevel \<Longrightarrow> sl_fwd (with_node m sc lvl s) 0 i = None" for i
      using assms(2) with_node_old(2) [OF heap [of 0]] by (simp add: chains_ok_def)
  qed
qed

text \<open>Linking the appended node.\<close>

lemma link_spliced:
  assumes s: "nodes_ok s xs" "chains_ok s xs" "0 < P" "P \<le> Suc (length xs)"
    and x: "x \<notin> set (path xs)" "x < length (sl_heap s)" "height s x = lvl" "1 \<le> lvl" "lvl \<le> sl_levels s"
    and us: "us = ups s xs P (sl_levels s)" "rs = ranks s xs P (sl_levels s)"
  shows "let t = foldl (sl_link x us rs) s [0..<lvl];
      t' = foldl (\<lambda>s i. sl_set_span (us ! i) i (sl_span s (us ! i) i + 1) s) t [lvl..<sl_levels t]
    in keeps s t' \<and> spliced s xs P x lvl t'"
proof -
  let ?hs = "heights s xs" let ?t = "foldl (sl_link x us rs) s [0..<lvl]"
  let ?t' = "foldl (\<lambda>s i. sl_set_span (us ! i) i (sl_span s (us ! i) i + 1) s) ?t [lvl..<sl_levels s]"
  have u: "us ! i < length (sl_heap s) \<and> us ! i \<noteq> x \<and> i < height s (us ! i)" if "i < sl_levels s" for i
  proof -
    have "i < kMaxLevel" using that s(1) by (simp add: nodes_ok_def)
    then have hd: "?hs \<noteq> []" "i < ?hs ! 0" using heights_head [OF s(1)] by (auto simp: heights_def)
    then have l: "last_below ?hs i P \<le> length xs" "i < ?hs ! last_below ?hs i P" using last_below_high [OF hd, of P] by simp_all
    then have "path xs ! last_below ?hs i P \<in> set (path xs)" by (intro nth_mem) simp
    then show ?thesis using s(1) x(1) l that by (auto simp: us(1) ups_def nodes_ok_def heights_nth)
  qed
  have e1: "keeps s ?t" "\<And>q j. sl_fwd ?t q j = (if j < lvl then if q = us ! j then Some x else if q = x then sl_fwd s (us ! j) j
      else sl_fwd s q j else sl_fwd s q j)"
    "\<And>q j. sl_span ?t q j = (if j < lvl then if q = us ! j then rs ! 0 - rs ! j + 1
      else if q = x then sl_span s (us ! j) j - (rs ! 0 - rs ! j) else sl_span s q j else sl_span s q j)"
    using link_all [of x s lvl us rs] x u by auto
  have lv: "sl_levels ?t = sl_levels s" using e1(1) by (simp add: keeps_def)
  have u': "us ! i < length (sl_heap ?t) \<and> i < height ?t (us ! i)" if "i < sl_levels s" for i
    using u [OF that] e1(1) by (simp add: keeps_def)
  have e2: "keeps ?t ?t'" "\<And>q j. sl_fwd ?t' q j = sl_fwd ?t q j"
    "\<And>q j. sl_span ?t' q j = (if lvl \<le> j \<and> j < sl_levels s \<and> q = us ! j then sl_span ?t q j + 1 else sl_span ?t q j)"
    using bump_all [of lvl "sl_levels s" us ?t] u' x(5) by auto
  have "0 < sl_levels s" using x by simp
  then have r0: "rs ! 0 = word_of_nat (P - 1)" using last_below_0 [OF s(1,4,3)] by (simp add: us(2) ranks_def)
  have "spliced s xs P x lvl ?t'" unfolding spliced_def Let_def
  proof (intro conjI allI impI)
    fix i q assume i: "i < sl_levels s"
    have ui: "us ! i = path xs ! last_below ?hs i P" "rs ! i = word_of_nat (last_below ?hs i P)"
      using i by (simp_all add: us ups_def ranks_def)
    show "sl_fwd ?t' q i = (if i < lvl \<and> q = path xs ! last_below ?hs i P then Some x
        else if i < lvl \<and> q = x then sl_fwd s (path xs ! last_below ?hs i P) i else sl_fwd s q i)"
      unfolding e2 e1 ui by auto
    show "sl_span ?t' q i = (if q = path xs ! last_below ?hs i P
        then if i < lvl then word_of_nat (P - 1) - word_of_nat (last_below ?hs i P) + 1 else sl_span s q i + 1
        else if i < lvl \<and> q = x then sl_span s (path xs ! last_below ?hs i P) i -
          (word_of_nat (P - 1) - word_of_nat (last_below ?hs i P)) else sl_span s q i)"
      unfolding e2 e1 ui r0 using i by auto
  next
    show "sl_levels s \<le> i \<Longrightarrow> sl_fwd ?t' 0 i = sl_fwd s 0 i" for i unfolding e2 e1 using x(5) by auto
  qed
  then show ?thesis using keeps_trans [OF e1(1) e2(1)] by (simp add: Let_def lv)
qed

lemma insert_at_shape:
  fixes m :: bytes and sc :: dbl
  assumes "sl_shape s xs" "k \<le> length xs"
  defines "t \<equiv> sl_insert_at (ups s xs (Suc k) (sl_levels s)) (ranks s xs (Suc k) (sl_levels s)) m sc s"
    and "x \<equiv> length (sl_heap s)"
  shows "sl_shape t (put_at k x xs)" "member (sl_at t x) = m" "score (sl_at t x) = sc"
    "q \<in> set xs \<Longrightarrow> member (sl_at t q) = member (sl_at s q) \<and> score (sl_at t q) = score (sl_at s q)"
    "length (sl_heap t) = Suc (length (sl_heap s))"
proof -
  have s: "nodes_ok s xs" "chains_ok s xs" "back_ok s xs" using assms(1) by (auto simp: sl_shape_def)
  let ?P = "Suc k" and ?ys = "put_at k x xs"
  obtain lvl g where g: "random_level (sl_rng s) 1 = (lvl, g)" by fastforce
  have lvl: "1 \<le> lvl" "lvl \<le> kMaxLevel" using random_level_bounds [of 1 "sl_rng s"] g by (auto simp: kMaxLevel_def)
  let ?s0 = "s\<lparr>sl_rng := g\<rparr>"
  have s0: "nodes_ok ?s0 xs" "chains_ok ?s0 xs" "sl_length ?s0 = length xs" "heights ?s0 xs = heights s xs"
    using s by (auto simp: nodes_ok_def chains_ok_def back_ok_def linked_def heights_def)
  obtain us rs s1 where r: "sl_raise (ups s xs ?P (sl_levels s)) (ranks s xs ?P (sl_levels s)) lvl ?s0 = (us, rs, s1)"
    by (metis prod_cases3)
  have ur: "ups s xs ?P (sl_levels s) = ups ?s0 xs ?P (sl_levels ?s0)"
    "ranks s xs ?P (sl_levels s) = ranks ?s0 xs ?P (sl_levels ?s0)"
    by (simp_all add: ups_def ranks_def s0(4))
  have s1: "nodes_ok s1 xs" "chains_ok s1 xs" "same_nodes ?s0 s1" "sl_levels s1 = max (sl_levels s) lvl"
    "us = ups s1 xs ?P (sl_levels s1)" "rs = ranks s1 xs ?P (sl_levels s1)"
    using raise_shape [OF s0(1-3) lvl(2) r [unfolded ur]] by simp_all
  note n1 = same_nodesD [OF s1(3)]
  have x: "x = length (sl_heap s1)" using n1(1) by (simp add: x_def)
  let ?s2 = "with_node m sc lvl s1"
  note s2 = with_node_shape [OF s1(1,2), of m sc lvl]
  have xp: "x \<notin> set (path xs)" using s(1) by (auto simp: x_def nodes_ok_def)
  have us: "us = ups ?s2 xs ?P (sl_levels ?s2)" "rs = ranks ?s2 xs ?P (sl_levels ?s2)"
    using s1(5,6) by (simp_all add: ups_def ranks_def s2(3))
  let ?t0 = "foldl (sl_link x us rs) ?s2 [0..<lvl]"
  let ?t = "foldl (\<lambda>s i. sl_set_span (us ! i) i (sl_span s (us ! i) i + 1) s) ?t0 [lvl..<sl_levels ?t0]"
  have ls: "keeps ?s2 ?t" "spliced ?s2 xs ?P x lvl ?t"
    using link_spliced [OF s2(1,2) _ _ xp _ _ lvl(1) _ us] assms(2) s1(4) x by (simp_all add: Let_def)
  note nt = same_nodesD [OF keeps_same_nodes [OF ls(1)]]
  have lt: "sl_levels ?t = sl_levels s1" using ls(1) by (simp add: keeps_def)
  have hx: "height ?t x = lvl" using nt(2) x by simp
  have hs: "heights ?t ?ys = put_at ?P lvl (heights ?s2 xs)"
    unfolding heights_def path_put_at map_put_at nt(2) using x by simp
  have y1: "nodes_ok ?t ?ys"
  proof -
    have hp: "?s2 = with_node m sc lvl s1" "sl_heap ?s2 ! x \<noteq> None" by (simp_all add: with_node_def x nth_append)
    have "q < length (sl_heap ?t) \<and> sl_heap ?t ! q \<noteq> None" if "q \<in> set (path ?ys)" for q
      using that s2(1) nt(1) nt(8) [of q] hp(2) x by (auto simp: nodes_ok_def set_put_at)
    moreover have "1 \<le> height ?t q \<and> height ?t q \<le> sl_levels ?t" if "q \<in> set ?ys" for q
      using that s2(1) nt(2) hx lvl lt s1(4) by (auto simp: nodes_ok_def set_put_at)
    ultimately show ?thesis
      using s2(1) nt(2) xp lt by (auto simp: nodes_ok_def distinct_put_at set_put_at)
  qed
  have y2: "chains_ok ?t ?ys" unfolding chains_ok_def
  proof (intro conjI allI impI)
    fix i a assume i: "i < sl_levels ?t" "a \<le> length ?ys" "i < height ?t (path ?ys ! a)"
    show "linked ?t ?ys i a"
      using spliced_linked [OF s2(1,2) _ _ xp ls(2), of i a] hs i assms(2) lt heights_nth [OF i(2), of ?t] by simp
  next
    show "sl_levels ?t \<le> i \<and> i < kMaxLevel \<Longrightarrow> sl_fwd ?t 0 i = None" for i
      using ls(2) s2(2) lt by (simp add: spliced_def chains_ok_def)
  qed
  define b where "b = (if path xs ! k = 0 then None else Some (path xs ! k))"
  have "0 < sl_levels s1" using lvl s1(4) by simp
  then have u0: "us ! 0 = path xs ! k"
    using heights_pos [OF s1(1) assms(2)] assms(2) by (simp add: s1(5) ups_def del: upt_Suc)
  have t: "t = (let s5 = sl_upd x (\<lambda>n. n\<lparr>backward := b\<rparr>) ?t;
         s6 = (case sl_fwd s5 x 0 of Some q \<Rightarrow> sl_upd q (\<lambda>n. n\<lparr>backward := Some x\<rparr>) s5 | None \<Rightarrow> s5\<lparr>sl_tail := Some x\<rparr>)
     in s6\<lparr>sl_length := sl_length s6 + 1\<rparr>)"
    unfolding t_def sl_insert_at_def g prod.case r Let_def u0 x b_def with_node_def by (simp only:)
  have old: "q < x \<Longrightarrow> sl_at ?s2 q = sl_at s1 q" for q using with_node_at(1) x by simp
  have bx: "backward (sl_at ?t q) = backward (sl_at s q)" "member (sl_at ?t q) = member (sl_at s q)"
    "score (sl_at ?t q) = score (sl_at s q)" if "q \<in> set xs" for q
  proof -
    have "q < x" using that s(1) by (simp add: nodes_ok_def x_def)
    then show "backward (sl_at ?t q) = backward (sl_at s q)" "member (sl_at ?t q) = member (sl_at s q)"
      "score (sl_at ?t q) = score (sl_at s q)" using nt n1 old by simp_all
  qed
  have "back_ok t ?ys" unfolding t
    using back_after_insert [OF s(3) y1 y2 refl assms(2) b_def bx(1)] nt(6,7) n1(6,7) by simp
  have xt: "x < length (sl_heap ?t)" using nt(1) x by simp
  have q: "q < length (sl_heap ?t)" if "sl_fwd ?t x 0 = Some q" for q
  proof -
    have "path ?ys ! Suc k = x" using put_at_mid [of ?P "path xs" x] assms(2) by (simp add: path_put_at del: put_at_def)
    then have "q \<in> set ?ys" using fwd_0 [OF y1 y2, of ?P] that assms(2) by (auto split: if_splits)
    then show ?thesis using y1 by (simp add: nodes_ok_def)
  qed
  note fields = set_back_fields [OF xt q t]
  show "sl_shape t ?ys" unfolding sl_shape_def
    using nodes_ok_cong [OF y1 fields(1,5,4) fields(7)] chains_ok_cong [OF y2 fields(1-4)] \<open>back_ok t ?ys\<close> by blast
  show "member (sl_at t x) = m" "score (sl_at t x) = sc" "length (sl_heap t) = Suc (length (sl_heap s))"
    using fields(5,6) nt(1,3,4) with_node_at(2) [of m sc lvl s1] x n1(1) by (simp_all add: sl_node_new_def)
  show "q \<in> set xs \<Longrightarrow> member (sl_at t q) = member (sl_at s q) \<and> score (sl_at t q) = score (sl_at s q)"
    using fields(6) bx(2,3) by simp
qed

end
