(* ===== verification/Skip_Erase.thy ===== *)
theory Skip_Erase
  imports Skip_Insert
begin

section \<open>Removal keeps the list in order\<close>

text \<open>
  The node at a position is unlinked level by level, the pointers back are mended, empty levels are given up, and
  the node is deleted from the heap. What is left is the shape of the path without it.
\<close>

subsection \<open>Unlinking\<close>

lemma unlink_all:
  assumes "\<And>i. i < k \<Longrightarrow> us ! i < length (sl_heap s) \<and> us ! i \<noteq> x \<and> i < height s (us ! i)"
  shows "keeps s (foldl (sl_unlink x us) s [0..<k]) \<and>
    (\<forall>q j. sl_fwd (foldl (sl_unlink x us) s [0..<k]) q j =
        (if 0 \<le> j \<and> j < k then if q = us ! j \<and> sl_fwd s q j = Some x then sl_fwd s x j else sl_fwd s q j
         else sl_fwd s q j) \<and>
      sl_span (foldl (sl_unlink x us) s [0..<k]) q j =
        (if 0 \<le> j \<and> j < k then
           if q = us ! j then if sl_fwd s q j = Some x then sl_span s q j + (sl_span s x j - 1) else sl_span s q j - 1
           else sl_span s q j
         else sl_span s q j))"
proof (rule fold_levels)
  fix t i assume t: "keeps s t" "0 \<le> i" "i < k"
  let ?u = "us ! i"
  have u: "?u < length (sl_heap t)" "i < height t ?u" using assms(1) [OF t(3)] t(1) by (auto simp: keeps_def)
  note e1 = set_level_effect [OF u] and e2 = set_span_effect [OF u]
  have ne: "?u \<noteq> x" using assms(1) [OF t(3)] by simp
  show "keeps t (sl_unlink x us t i)" unfolding sl_unlink_def Let_def using e1(3) e2(3) by simp
  show "j \<noteq> i \<Longrightarrow> sl_fwd (sl_unlink x us t i) q j = sl_fwd t q j \<and> sl_span (sl_unlink x us t i) q j = sl_span t q j" for q j
    unfolding sl_unlink_def Let_def by (simp add: e1 e2)
  show "(\<And>q. sl_fwd t q i = sl_fwd s q i \<and> sl_span t q i = sl_span s q i) \<Longrightarrow>
      sl_fwd (sl_unlink x us t i) q i = (if q = us ! i \<and> sl_fwd s q i = Some x then sl_fwd s x i else sl_fwd s q i) \<and>
      sl_span (sl_unlink x us t i) q i =
        (if q = us ! i then if sl_fwd s q i = Some x then sl_span s q i + (sl_span s x i - 1) else sl_span s q i - 1
         else sl_span s q i)" for q
    unfolding sl_unlink_def Let_def if_distrib [of "\<lambda>s. sl_fwd s q i"] if_distrib [of "\<lambda>s. sl_span s q i"] e1(1,2) e2(1,2)
    by auto
qed simp

definition unspliced :: "skiplist \<Rightarrow> nat list \<Rightarrow> nat \<Rightarrow> nat \<Rightarrow> skiplist \<Rightarrow> bool" where
  "unspliced s xs P x t \<longleftrightarrow>
     (\<forall>i < sl_levels s. \<forall>q. let u = path xs ! last_below (heights s xs) i P in
        sl_fwd t q i = (if q = u \<and> sl_fwd s q i = Some x then sl_fwd s x i else sl_fwd s q i) \<and>
        sl_span t q i =
          (if q = u then if sl_fwd s q i = Some x then sl_span s q i + (sl_span s x i - 1) else sl_span s q i - 1
           else sl_span s q i)) \<and>
     (\<forall>i. sl_levels s \<le> i \<longrightarrow> sl_fwd t 0 i = sl_fwd s 0 i)"

lemma unspliced_linked:
  assumes s: "nodes_ok s xs" "chains_ok s xs" "k < length xs" "P = Suc k" "x = xs ! k"
    and t: "unspliced s xs P x t" "heights t (drop_at k xs) = drop_at P (heights s xs)"
    and i: "i < sl_levels s" "a < length xs" "i < heights t (drop_at k xs) ! a"
  shows "linked t (drop_at k xs) i a"
proof -
  let ?hs = "heights s xs" and ?ys = "drop_at k xs" and ?n = "length xs"
  let ?l = "last_below ?hs i P"
  have P: "P \<le> ?n" "P < length ?hs" "0 < P" using s(3,4) by simp_all
  have d: "distinct (path xs)" using s(1) by (simp add: nodes_ok_def)
  have kk: "i < kMaxLevel" using s(1) i(1) by (simp add: nodes_ok_def)
  have hd: "?hs \<noteq> []" "i < ?hs ! 0" using heights_head [OF s(1) kk] by (auto simp: heights_def)
  have l: "?l < P" "?l \<le> ?n" "i < ?hs ! ?l" using last_below_less [OF P(3)] last_below_high [OF hd, of P] by simp_all
  have path: "path ?ys = drop_at P (path xs)" using path_drop_at [of k xs] s(4) by simp
  have pl: "path ?ys ! c = path xs ! c" if "c < P" for c unfolding path using that P by (intro drop_at_left) simp_all
  have pr: "path ?ys ! c = path xs ! Suc c" if "P \<le> c" "c < ?n" for c
    unfolding path using that P by (intro drop_at_right) simp_all
  have len: "length ?ys = ?n - 1" using s(3) by simp
  have px: "path xs ! P = x" by (simp add: s(4,5))
  have F: "sl_fwd t q i = (if q = path xs ! ?l \<and> sl_fwd s q i = Some x then sl_fwd s x i else sl_fwd s q i)"
    and W: "sl_span t q i = (if q = path xs ! ?l then if sl_fwd s q i = Some x then sl_span s q i + (sl_span s x i - 1)
      else sl_span s q i - 1 else sl_span s q i)" for q
    using t(1) i(1) by (simp_all add: unspliced_def Let_def)
  have old: "sl_fwd s (path xs ! c) i = (if nxt ?hs i c \<le> ?n then Some (path xs ! nxt ?hs i c) else None)"
    "sl_span s (path xs ! c) i = word_of_nat (min (nxt ?hs i c) ?n - c)" if "c \<le> ?n" "i < ?hs ! c" for c
    using chains_linked [OF s(2) i(1) that] by (simp_all add: linked_def Let_def)
  have less1: "word_of_nat m - 1 = (word_of_nat (m - 1) :: u32)" if "0 < m" for m using word_diff [of 1 m] that by simp
  show ?thesis
  proof (cases "a < P")
    case True
    have al: "a \<le> ?n" using True P by simp
    have ia: "i < ?hs ! a" using i(3) drop_at_left [OF P(2) True] unfolding t(2) by simp
    let ?b = "nxt ?hs i a"
    have n: "nxt (drop_at P ?hs) i a = (if ?b < P then ?b else if ?b = P then nxt ?hs i P - 1 else ?b - 1)"
      using nxt_drop_at(1) [OF P(2) True, of i] by (simp add: Let_def)
    have ab: "a < ?b" "?b \<le> Suc ?n" using nxt_gt nxt_le [of a ?hs i] al by simp_all
    have al_l: "a = ?l" if "\<not> ?b < P"
    proof (rule sym, rule last_below_eqI)
      show "?hs ! c \<le> i" if "a < c" "c < P" for c
        using nxt_low [OF that(1), of ?hs i] that(2) \<open>\<not> ?b < P\<close> by simp
    qed (use True al ia in simp_all)
    consider "?b < P" | "?b = P" | "P < ?b" by linarith
    then show ?thesis
    proof cases
      case 1
      have "?b \<le> ?l" using last_below_ge [of ?b P ?hs i] 1 P nxt_high [of ?hs i a] by simp
      then have "path xs ! a \<noteq> path xs ! ?l" using path_inj [OF d al l(2)] ab by simp
      then show ?thesis
        unfolding linked_def Let_def t(2) len pl [OF True]
        using F [of "path xs ! a"] W [of "path xs ! a"] old [OF al ia] n 1 pl [OF 1] P by simp
    next
      case 2
      let ?c = "nxt ?hs i P"
      have ix: "i < ?hs ! P" using nxt_high [of ?hs i a] 2 P by simp
      have c: "P < ?c" "?c \<le> Suc ?n" using nxt_gt nxt_le [OF P(2), of i] by simp_all
      have fx: "sl_fwd s (path xs ! a) i = Some x" "sl_span s (path xs ! a) i = word_of_nat (P - a)"
        using old [OF al ia] 2 P px by simp_all
      have sx: "sl_fwd s x i = (if ?c \<le> ?n then Some (path xs ! ?c) else None)"
        "sl_span s x i = word_of_nat (min ?c ?n - P)" using old [OF P(1) ix] by (simp_all add: px)
      have w: "word_of_nat (P - a) + (word_of_nat (min ?c ?n - P) - 1) = (word_of_nat (min (?c - 1) (?n - 1) - a) :: u32)"
      proof -
        have "P - a + (min ?c ?n - P) = Suc (min (?c - 1) (?n - 1) - a)" using c P True by auto
        then have "word_of_nat (P - a) + word_of_nat (min ?c ?n - P) = (word_of_nat (min (?c - 1) (?n - 1) - a) + 1 :: u32)"
          by (metis add.commute of_nat_Suc of_nat_add)
        then show ?thesis by (simp add: algebra_simps)
      qed
      have "?c \<le> ?n \<Longrightarrow> path ?ys ! (?c - 1) = path xs ! ?c" using pr [of "?c - 1"] c by simp
      moreover have "?c - 1 \<le> ?n - 1 \<longleftrightarrow> ?c \<le> ?n" using c P by auto
      ultimately show ?thesis
        unfolding linked_def Let_def t(2) len pl [OF True] using n 2
        by (simp only: F [of "path xs ! a"] W [of "path xs ! a"] al_l [symmetric] fx sx w) simp
    next
      case 3
      have nx: "sl_fwd s (path xs ! a) i \<noteq> Some x"
        using old(1) [OF al ia] px path_inj [OF d _ P(1), of ?b] 3 by auto
      have w: "word_of_nat (min ?b ?n - a) - 1 = (word_of_nat (min (?b - 1) (?n - 1) - a) :: u32)"
      proof -
        have "0 < min ?b ?n - a" "min ?b ?n - a - 1 = min (?b - 1) (?n - 1) - a" using 3 True P by auto
        then show ?thesis using less1 by metis
      qed
      have "?b \<le> ?n \<Longrightarrow> path ?ys ! (?b - 1) = path xs ! ?b" using pr [of "?b - 1"] 3 by simp
      moreover have "?b - 1 \<le> ?n - 1 \<longleftrightarrow> ?b \<le> ?n" using ab P by auto
      moreover have e: "path xs ! ?l = path xs ! a" using al_l 3 by simp
      have "sl_fwd t (path xs ! a) i = sl_fwd s (path xs ! a) i" "sl_span t (path xs ! a) i = sl_span s (path xs ! a) i - 1"
        using F [of "path xs ! a", unfolded e] W [of "path xs ! a", unfolded e] nx by simp_all
      ultimately show ?thesis
        unfolding linked_def Let_def t(2) len pl [OF True] using n 3 old [OF al ia] w by simp
    qed
  next
    case False
    let ?A = "Suc a" let ?b = "nxt ?hs i ?A"
    have A: "P < ?A" "?A \<le> ?n" using False i(2) by simp_all
    have iA: "i < ?hs ! ?A" using i(3) drop_at_right [OF P(2), of a] False i(2) unfolding t(2) by simp
    have n: "nxt (drop_at P ?hs) i a = ?b - 1" using nxt_drop_at(2) [OF P(2) A(1), of i] A(2) by simp
    have b: "?A < ?b" "?b \<le> Suc ?n" using nxt_gt nxt_le [of ?A ?hs i] A by simp_all
    have "path xs ! ?A \<noteq> path xs ! ?l" using path_inj [OF d A(2) l(2)] A l by simp
    moreover have "?b \<le> ?n \<Longrightarrow> path ?ys ! (?b - 1) = path xs ! ?b" using pr [of "?b - 1"] b A by simp
    moreover have "?b - 1 \<le> ?n - 1 \<longleftrightarrow> ?b \<le> ?n" "min ?b ?n - ?A = min (?b - 1) (?n - 1) - a" using b A by auto
    moreover have "path ?ys ! a = path xs ! ?A" using pr [of a] False i(2) by simp
    ultimately show ?thesis
      unfolding linked_def Let_def t(2) n len using old [OF A(2) iA] F [of "path xs ! ?A"] W [of "path xs ! ?A"] by simp
  qed
qed

subsection \<open>Giving up empty levels, and the heap\<close>

lemma sl_lower_bounds:
  "1 \<le> l \<Longrightarrow> 1 \<le> sl_lower l s \<and> sl_lower l s \<le> l \<and> (\<forall>i. sl_lower l s \<le> i \<and> i < l \<longrightarrow> sl_fwd s 0 i = None)"
proof (induction l)
  case (Suc l)
  show ?case
  proof (cases "Suc l > 1 \<and> sl_fwd s 0 l = None")
    case True
    then have "sl_lower (Suc l) s = sl_lower l s" by simp
    then show ?thesis using Suc.IH True by (auto simp: less_Suc_eq)
  qed auto
qed simp

text \<open>A level where the head has no successor has no node.\<close>

lemma empty_level:
  assumes "nodes_ok s xs" "\<And>i a. i < sl_levels s \<Longrightarrow> a \<le> length xs \<Longrightarrow> i < heights s xs ! a \<Longrightarrow> linked s xs i a"
    "i < sl_levels s" "sl_fwd s 0 i = None" "p \<in> set xs"
  shows "height s p \<le> i"
proof -
  have "i < heights s xs ! 0" using heights_head [OF assms(1), of i] assms(1,3) by (simp add: nodes_ok_def)
  from assms(2) [OF assms(3) _ this] have "\<not> nxt (heights s xs) i 0 \<le> length xs"
    using assms(4) by (auto simp: linked_def Let_def)
  moreover obtain c where c: "c < length xs" "p = xs ! c" using assms(5) by (auto simp: in_set_conv_nth)
  ultimately have "heights s xs ! Suc c \<le> i" by (intro nxt_low [of 0]) simp_all
  then show ?thesis using c by (simp add: heights_nth)
qed

lemma heap_drop:
  "q \<noteq> x \<Longrightarrow> sl_at (s\<lparr>sl_heap := (sl_heap s)[x := None]\<rparr>) q = sl_at s q"
  by (simp add: sl_at_def)

text \<open>A list that is another one without the node \<open>x\<close> and without empty levels.\<close>

lemma shape_without:
  assumes s: "nodes_ok s ys" "\<And>i a. i < sl_levels s \<Longrightarrow> a \<le> length ys \<Longrightarrow> i < heights s ys ! a \<Longrightarrow> linked s ys i a"
    "\<And>i. sl_levels s \<le> i \<Longrightarrow> i < kMaxLevel \<Longrightarrow> sl_fwd s 0 i = None"
    and t: "\<And>q. q \<noteq> x \<Longrightarrow> height t q = height s q \<and> sl_fwd t q = sl_fwd s q \<and> sl_span t q = sl_span s q"
    "sl_levels t = sl_lower (sl_levels s) s" "length (sl_heap t) = length (sl_heap s)"
    "\<And>q. q \<noteq> x \<Longrightarrow> q < length (sl_heap s) \<Longrightarrow> sl_heap s ! q \<noteq> None \<Longrightarrow> sl_heap t ! q \<noteq> None"
    and x: "x \<notin> set (path ys)"
  shows "nodes_ok t ys" "chains_ok t ys"
proof -
  have hs: "heights t ys = heights s ys"
  proof (rule heights_cong)
    fix p assume "p \<in> set (path ys)"
    then have "p \<noteq> x" using x by blast
    then show "height t p = height s p" using t(1) by blast
  qed
  have "1 \<le> sl_levels s" using s(1) by (simp add: nodes_ok_def)
  from sl_lower_bounds [OF this] have l: "1 \<le> sl_levels t" "sl_levels t \<le> sl_levels s"
    "\<And>i. sl_levels t \<le> i \<Longrightarrow> i < sl_levels s \<Longrightarrow> sl_fwd s 0 i = None" unfolding t(2) by blast+
  have low: "height s p \<le> sl_levels t" if "p \<in> set ys" for p
  proof (rule ccontr)
    assume "\<not> height s p \<le> sl_levels t"
    then have h: "sl_levels t \<le> height s p - 1" "height s p - 1 < sl_levels s" "0 < height s p"
      using s(1) that by (auto simp: nodes_ok_def)
    from empty_level [OF s(1,2) h(2) l(3) [OF h(1,2)] that] h(3) show False by simp
  qed
  have e: "height t p = height s p" "p < length (sl_heap t)" "sl_heap t ! p \<noteq> None" if "p \<in> set (path ys)" for p
  proof -
    have "p \<noteq> x" "p < length (sl_heap s)" "sl_heap s ! p \<noteq> None" using that x s(1) unfolding nodes_ok_def by blast+
    then show "height t p = height s p" "p < length (sl_heap t)" "sl_heap t ! p \<noteq> None" using t(1,3,4) by auto
  qed
  show "nodes_ok t ys" unfolding nodes_ok_def
  proof (intro conjI ballI)
    show "distinct (path ys)" "height t 0 = kMaxLevel" "sl_levels t \<le> kMaxLevel"
      using s(1) e(1) [of 0] l(2) by (simp_all add: nodes_ok_def)
    show "1 \<le> height t p" "height t p \<le> sl_levels t" if "p \<in> set ys" for p
      using s(1) e(1) [of p] low that by (simp_all add: nodes_ok_def)
  qed (use e l(1) in blast)+
  have nx: "a \<le> length ys \<Longrightarrow> path ys ! a \<noteq> x" for a using x nth_mem [of a "path ys"] by auto
  show "chains_ok t ys" unfolding chains_ok_def
  proof (intro conjI allI impI)
    fix i a assume i: "i < sl_levels t" "a \<le> length ys" "i < height t (path ys ! a)"
    have "linked t ys i a = linked s ys i a" using t(1) [OF nx [OF i(2)]] by (intro linked_cong hs) simp_all
    then show "linked t ys i a" using s(2) [of i a] i l(2) heights_nth [OF i(2), of t] hs by simp
  next
    fix i assume "sl_levels t \<le> i \<and> i < kMaxLevel"
    then show "sl_fwd t 0 i = None" using s(3) l(3) t(1) [of 0] x by (cases "i < sl_levels s") auto
  qed
qed

lemma back_after_erase:
  assumes s: "back_ok s xs" "distinct xs" "k < length xs"
    and t: "\<And>q. q \<noteq> xs ! k \<Longrightarrow> backward (sl_at t q) =
        (if Suc k < length xs \<and> q = xs ! Suc k then backward (sl_at s (xs ! k)) else backward (sl_at s q))"
    "sl_tail t = (if Suc k < length xs then sl_tail s else backward (sl_at s (xs ! k)))"
    "sl_length t = sl_length s - 1"
  shows "back_ok t (drop_at k xs)"
proof -
  let ?ys = "drop_at k xs" and ?n = "length xs"
  have old: "c < ?n \<Longrightarrow> backward (sl_at s (xs ! c)) = (if c = 0 then None else Some (xs ! (c - 1)))" for c
    using s(1) by (simp add: back_ok_def)
  have len: "length ?ys = ?n - 1" using s(3) by simp
  have nth: "c < ?n - 1 \<Longrightarrow> ?ys ! c = (if c < k then xs ! c else xs ! Suc c)" for c by (rule drop_at_nth [OF s(3)])
  have ne: "c < ?n \<Longrightarrow> c' < ?n \<Longrightarrow> c \<noteq> c' \<Longrightarrow> xs ! c \<noteq> xs ! c'" for c c' using s(2) by (simp add: nth_eq_iff_index_eq)
  show ?thesis unfolding back_ok_def
  proof (intro conjI allI impI)
    fix a assume "a < length ?ys"
    then have a: "a < ?n - 1" using len by simp
    then have an: "a < ?n" by simp
    have pn: "0 < a \<Longrightarrow> ?ys ! (a - 1) = (if a \<le> k then xs ! (a - 1) else xs ! a)"
      using nth [of "a - 1"] an by auto
    consider "a < k" | "a = k" | "k < a" by linarith
    then show "backward (sl_at t (?ys ! a)) = (if a = 0 then None else Some (?ys ! (a - 1)))"
    proof cases
      case 1
      have "backward (sl_at t (xs ! a)) = backward (sl_at s (xs ! a))"
        using t(1) [of "xs ! a"] ne [of a k] ne [of a "Suc k"] 1 s(3) by auto
      then show ?thesis using 1 old [OF an] nth [OF a] pn by (cases "a = 0") simp_all
    next
      case 2
      have "backward (sl_at t (xs ! Suc k)) = backward (sl_at s (xs ! k))"
        using t(1) [of "xs ! Suc k"] ne [of "Suc k" k] 2 a by auto
      then show ?thesis using 2 old [OF s(3)] nth [OF a] pn by (cases "a = 0") simp_all
    next
      case 3
      have "backward (sl_at t (xs ! Suc a)) = backward (sl_at s (xs ! Suc a))"
        using t(1) [of "xs ! Suc a"] ne [of "Suc a" k] ne [of "Suc a" "Suc k"] 3 a by auto
      then show ?thesis using 3 old [of "Suc a"] nth [OF a] pn a by simp
    qed
  next
    have "last ?ys = ?ys ! (?n - 2)" if "?ys \<noteq> []" using that len by (simp add: last_conv_nth numeral_2_eq_2)
    moreover have "xs \<noteq> []" using s(3) by auto
    moreover from this have "last xs = xs ! (?n - 1)" by (simp add: last_conv_nth)
    moreover have "?ys = [] \<longleftrightarrow> ?n = 1" using len s(3) by (metis One_nat_def Suc_pred diff_is_0_eq' length_0_conv less_nat_zero_code
        not_gr_zero order_refl diff_self_eq_0)
    moreover have "sl_tail s = Some (last xs)" using s(1) \<open>xs \<noteq> []\<close> by (simp add: back_ok_def)
    moreover have "Suc (?n - 2) = ?n - 1" if "?n \<noteq> 1" using that s(3) by simp
    moreover have "k - 1 = ?n - 2" if "\<not> Suc k < ?n" using that s(3) by simp
    ultimately show "sl_tail t = (if ?ys = [] then None else Some (last ?ys))"
      using nth [of "?n - 2"] old [OF s(3)] s(3) t(2) by (cases "Suc k < ?n") (auto simp: less_Suc_eq)
    show "sl_length t = length ?ys" using s(1) t(3) len by (simp add: back_ok_def)
  qed
qed

subsection \<open>The whole removal\<close>

lemma ups_ok:
  assumes "nodes_ok s xs" "0 < P" "i < sl_levels s"
  shows "ups s xs P (sl_levels s) ! i = path xs ! last_below (heights s xs) i P"
    "last_below (heights s xs) i P \<le> length xs" "last_below (heights s xs) i P < P"
    "ups s xs P (sl_levels s) ! i < length (sl_heap s)" "i < height s (ups s xs P (sl_levels s) ! i)"
proof -
  let ?l = "last_below (heights s xs) i P"
  have "i < kMaxLevel" using assms(1,3) by (simp add: nodes_ok_def)
  then have hd: "heights s xs \<noteq> []" "i < heights s xs ! 0" using heights_head [OF assms(1)] by (auto simp: heights_def)
  show u: "ups s xs P (sl_levels s) ! i = path xs ! ?l" using assms(3) by (simp add: ups_def)
  show l: "?l \<le> length xs" "?l < P" using last_below_high [OF hd, of P] last_below_less [OF assms(2)] by simp_all
  have "path xs ! ?l \<in> set (path xs)" using l(1) by (intro nth_mem) simp
  then show "ups s xs P (sl_levels s) ! i < length (sl_heap s)" using assms(1) unfolding u nodes_ok_def by blast
  show "i < height s (ups s xs P (sl_levels s) ! i)"
    using last_below_high [OF hd, of P] heights_nth [OF l(1), of s] by (simp add: u)
qed

lemma erase_shape:
  assumes "sl_shape s xs" "k < length xs"
  defines "x \<equiv> xs ! k"
  defines "r \<equiv> remove_node x (ups s xs (Suc k) (sl_levels s)) s"
  defines "t \<equiv> r\<lparr>sl_heap := (sl_heap r)[x := None]\<rparr>"
  shows "sl_shape t (drop_at k xs)" "length (sl_heap t) = length (sl_heap s)"
    "q \<noteq> x \<Longrightarrow> member (sl_at t q) = member (sl_at s q) \<and> score (sl_at t q) = score (sl_at s q)"
proof -
  have s: "nodes_ok s xs" "chains_ok s xs" "back_ok s xs" using assms(1) by (auto simp: sl_shape_def)
  let ?P = "Suc k" and ?ys = "drop_at k xs" let ?us = "ups s xs ?P (sl_levels s)"
  let ?s1 = "foldl (sl_unlink x ?us) s [0..<sl_levels s]"
  have d: "distinct (path xs)" "distinct xs" using s(1) by (auto simp: nodes_ok_def)
  have px: "path xs ! ?P = x" by (simp add: x_def)
  have xin: "x \<in> set xs" using assms(2) by (simp add: x_def)
  then have xl: "x < length (sl_heap s)" using s(1) by (simp add: nodes_ok_def)
  have xy: "x \<notin> set (path ?ys)"
  proof -
    have "xs = take k xs @ x # drop (Suc k) xs" using id_take_nth_drop [OF assms(2)] by (simp add: x_def)
    then have "distinct (take k xs @ x # drop (Suc k) xs)" using d(2) by simp
    then have "x \<notin> set ?ys" by (simp add: drop_at_def)
    moreover have "x \<noteq> 0" using d(1) xin by (metis distinct.simps(2))
    ultimately show ?thesis by simp
  qed
  have sub: "set (path ?ys) \<subseteq> set (path xs)"
    using set_take_subset [of k xs] set_drop_subset [of "Suc k" xs] by (auto simp: drop_at_def)
  have u: "?us ! i < length (sl_heap s) \<and> ?us ! i \<noteq> x \<and> i < height s (?us ! i)" if "i < sl_levels s" for i
  proof -
    note o = ups_ok [OF s(1) _ that, of ?P]
    have "?us ! i \<noteq> x" using path_inj [OF d(1), of "last_below (heights s xs) i ?P" ?P] o(1-3) px assms(2) by simp
    then show ?thesis using o(4,5) by simp
  qed
  have k1: "keeps s ?s1" "\<And>q j. sl_fwd ?s1 q j = (if j < sl_levels s \<and> q = ?us ! j \<and> sl_fwd s q j = Some x then sl_fwd s x j
      else sl_fwd s q j)"
    "\<And>q j. sl_span ?s1 q j = (if j < sl_levels s \<and> q = ?us ! j then
        if sl_fwd s q j = Some x then sl_span s q j + (sl_span s x j - 1) else sl_span s q j - 1 else sl_span s q j)"
    using unlink_all [of "sl_levels s" ?us s x] u by auto
  note n1 = same_nodesD [OF keeps_same_nodes [OF k1(1)]]
  have l1: "sl_levels ?s1 = sl_levels s" using k1(1) by (simp add: keeps_def)
  have un: "unspliced s xs ?P x ?s1" unfolding unspliced_def Let_def
  proof (intro conjI allI impI)
    fix i q assume i: "i < sl_levels s"
    note ui = ups_ok(1) [OF s(1) _ i, of ?P]
    show "sl_fwd ?s1 q i = (if q = path xs ! last_below (heights s xs) i ?P \<and> sl_fwd s q i = Some x then sl_fwd s x i
        else sl_fwd s q i)" unfolding k1(2) using ui i by simp
    show "sl_span ?s1 q i = (if q = path xs ! last_below (heights s xs) i ?P then
        if sl_fwd s q i = Some x then sl_span s q i + (sl_span s x i - 1) else sl_span s q i - 1 else sl_span s q i)"
      unfolding k1(3) using ui i by simp
  qed (simp add: k1(2))
  have hs: "heights ?s1 ?ys = drop_at ?P (heights s xs)"
    unfolding heights_def path_drop_at map_drop_at n1(2) by simp
  have "nodes_ok ?s1 ?ys"
    unfolding nodes_ok_def
  proof (intro conjI ballI)
    show "distinct (path ?ys)"
    proof -
      have "distinct ?ys" using d(2) assms(2) unfolding drop_at_def
        by (metis distinct_append id_take_nth_drop distinct.simps(2) Int_insert_right disjoint_insert(1) list.set(2))
      then show ?thesis using sub d(1) by (auto simp: drop_at_def dest: in_set_takeD in_set_dropD)
    qed
    show "height ?s1 0 = kMaxLevel" "1 \<le> sl_levels ?s1" "sl_levels ?s1 \<le> kMaxLevel"
      using s(1) n1(2) l1 by (simp_all add: nodes_ok_def)
    fix q
    show "q < length (sl_heap ?s1)" "sl_heap ?s1 ! q \<noteq> None" if "q \<in> set (path ?ys)"
      using that sub s(1) n1(1) n1(8) [of q] unfolding nodes_ok_def by auto
    show "1 \<le> height ?s1 q" "height ?s1 q \<le> sl_levels ?s1" if "q \<in> set ?ys"
      using that s(1) n1(2) l1 unfolding nodes_ok_def
      by (auto simp: drop_at_def dest: in_set_takeD in_set_dropD)
  qed
  note y1 = this
  have y2: "linked ?s1 ?ys i a" if "i < sl_levels ?s1" "a \<le> length ?ys" "i < heights ?s1 ?ys ! a" for i a
    using unspliced_linked [OF s(1,2) assms(2) refl x_def [THEN meta_eq_to_obj_eq] un hs] that l1 assms(2) by simp
  have y3: "sl_levels ?s1 \<le> i \<Longrightarrow> i < kMaxLevel \<Longrightarrow> sl_fwd ?s1 0 i = None" for i
    using s(2) by (simp add: k1(2) l1 chains_ok_def)
  have fx: "sl_fwd ?s1 x 0 = (if Suc k < length xs then Some (xs ! Suc k) else None)"
  proof -
    have "0 < sl_levels s" using s(1) by (simp add: nodes_ok_def)
    then have "x \<noteq> ?us ! 0" using u by metis
    then show ?thesis using fwd_0 [OF s(1,2), of ?P] assms(2) unfolding k1(2) px by simp
  qed
  define b where "b = backward (sl_at ?s1 x)"
  let ?s2 = "case sl_fwd ?s1 x 0 of Some q \<Rightarrow> sl_upd q (\<lambda>n. n\<lparr>backward := b\<rparr>) ?s1 | None \<Rightarrow> ?s1\<lparr>sl_tail := b\<rparr>"
  have r: "r = ?s2\<lparr>sl_levels := sl_lower (sl_levels ?s2) ?s2, sl_length := sl_length ?s2 - 1\<rparr>"
    unfolding r_def remove_node_def b_def Let_def by (simp only:)
  have q: "q < length (sl_heap ?s1)" if "sl_fwd ?s1 x 0 = Some q" for q
    using that fx s(1) n1(1) by (auto simp: nodes_ok_def split: if_splits)
  have f2: "height ?s2 = height ?s1" "sl_fwd ?s2 = sl_fwd ?s1" "sl_span ?s2 = sl_span ?s1" "sl_levels ?s2 = sl_levels ?s1"
    "length (sl_heap ?s2) = length (sl_heap ?s1)" "sl_length ?s2 = sl_length ?s1"
    "\<And>p. member (sl_at ?s2 p) = member (sl_at ?s1 p) \<and> score (sl_at ?s2 p) = score (sl_at ?s1 p)"
    "sl_tail ?s2 = (if Suc k < length xs then sl_tail ?s1 else b)"
    "\<And>p. backward (sl_at ?s2 p) = (if Suc k < length xs \<and> p = xs ! Suc k then b else backward (sl_at ?s1 p))"
    using q by (auto simp: upd_backward fx)
  have h2: "p < length (sl_heap ?s1) \<Longrightarrow> sl_heap ?s1 ! p \<noteq> None \<Longrightarrow> sl_heap ?s2 ! p \<noteq> None" for p
    by (cases "sl_fwd ?s1 x 0") (simp_all add: upd_some del: not_None_eq)
  have lower: "sl_lower l ?s2 = sl_lower l ?s1" for l by (induction l) (simp_all add: f2)
  have at: "sl_at t p = sl_at ?s2 p" if "p \<noteq> x" for p using that by (simp add: t_def sl_at_def r)
  have ft: "height t p = height ?s1 p \<and> sl_fwd t p = sl_fwd ?s1 p \<and> sl_span t p = sl_span ?s1 p" if "p \<noteq> x" for p
    using f2(1-3) at [OF that] by (simp add: height_def sl_fwd_def sl_span_def fun_eq_iff)
  have lt: "sl_levels t = sl_lower (sl_levels ?s1) ?s1" "length (sl_heap t) = length (sl_heap ?s1)"
    by (simp_all add: t_def r f2 lower)
  have ht: "sl_heap t ! p \<noteq> None" if "p \<noteq> x" "p < length (sl_heap ?s1)" "sl_heap ?s1 ! p \<noteq> None" for p
    using h2 [OF that(2,3)] that(1) by (simp add: t_def r)
  note sh = shape_without [OF y1 y2 y3 ft lt ht xy]
  have "back_ok t ?ys"
  proof (rule back_after_erase [OF s(3) d(2) assms(2)])
    show "backward (sl_at t q) = (if Suc k < length xs \<and> q = xs ! Suc k then backward (sl_at s (xs ! k)) else backward (sl_at s q))"
      if "q \<noteq> xs ! k" for q using at [of q] that f2(9) n1(5) by (simp add: b_def x_def)
    show "sl_tail t = (if Suc k < length xs then sl_tail s else backward (sl_at s (xs ! k)))"
      using f2(8) n1(5,6) by (simp add: t_def r b_def x_def)
    show "sl_length t = sl_length s - 1" using f2(6) n1(7) by (simp add: t_def r)
  qed
  then show "sl_shape t ?ys" using sh by (simp add: sl_shape_def)
  show "length (sl_heap t) = length (sl_heap s)" using lt(2) n1(1) by simp
  show "q \<noteq> x \<Longrightarrow> member (sl_at t q) = member (sl_at s q) \<and> score (sl_at t q) = score (sl_at s q)"
    using at [of q] f2(7) n1(3,4) by simp
qed

end
