(* ===== verification/Skip_Order.thy ===== *)
theory Skip_Order
  imports Skip_Erase
begin

section \<open>The skip list as a sorted list\<close>

text \<open>
  The abstraction: a list of members with their scores, in order of score and then of member, no score a NaN.
  Every operation of the skip list ends, and does to this list what its name says.
\<close>

subsection \<open>The order\<close>

type_synonym z_entry = "bytes \<times> dbl"

definition z_before :: "z_entry \<Rightarrow> z_entry \<Rightarrow> bool" where
  "z_before e f \<longleftrightarrow> d_lt (snd e) (snd f) \<or> d_eq (snd e) (snd f) \<and> fst e < fst f"

definition z_same :: "z_entry \<Rightarrow> z_entry \<Rightarrow> bool" where
  "z_same e f \<longleftrightarrow> d_eq (snd e) (snd f) \<and> fst e = fst f"

definition z_sorted :: "z_entry list \<Rightarrow> bool" where
  "z_sorted es \<longleftrightarrow> sorted_wrt z_before es \<and> (\<forall>e\<in>set es. \<not> d_isnan (snd e))"

lemma z_before_trans: "z_before e f \<Longrightarrow> z_before f g \<Longrightarrow> z_before e g"
  by (auto simp: z_before_def d_lt_def d_eq_def)

lemma z_before_irrefl: "\<not> z_before e e"
  by (simp add: z_before_def)

lemma z_before_not_same: "z_before e f \<Longrightarrow> \<not> z_same e f"
  by (auto simp: z_before_def z_same_def d_lt_def d_eq_def)

lemma z_before_total:
  "\<not> d_isnan (snd e) \<Longrightarrow> \<not> d_isnan (snd f) \<Longrightarrow> z_before e f \<or> z_same e f \<or> z_before f e"
  by (auto simp: z_before_def z_same_def d_lt_def d_eq_def)

lemma z_same_before: "z_same e f \<Longrightarrow> z_before g e \<longleftrightarrow> z_before g f" "z_same e f \<Longrightarrow> z_before e g \<longleftrightarrow> z_before f g"
  by (auto simp: z_before_def z_same_def d_lt_def d_eq_def)

lemma sl_before_key: "sl_before n m sc \<longleftrightarrow> z_before (member n, score n) (m, sc)"
  by (simp add: sl_before_def z_before_def)

text \<open>The first positions satisfy a condition that earlier entries inherit.\<close>

definition inherits :: "(z_entry \<Rightarrow> bool) \<Rightarrow> bool" where
  "inherits p \<longleftrightarrow> (\<forall>e f. p f \<longrightarrow> z_before e f \<longrightarrow> p e)"

definition count_first :: "('a \<Rightarrow> bool) \<Rightarrow> 'a list \<Rightarrow> nat" where
  "count_first p es = length (takeWhile p es)"

lemma count_first_le: "count_first p es \<le> length es"
  by (simp add: count_first_def length_takeWhile_le)

lemma count_first_iff:
  assumes "sorted_wrt z_before es" "inherits p" "c < length es"
  shows "p (es ! c) \<longleftrightarrow> c < count_first p es"
proof
  assume p: "p (es ! c)"
  show "c < count_first p es"
  proof (rule ccontr)
    assume n: "\<not> c < count_first p es"
    let ?k = "count_first p es"
    have k: "?k < length es" "\<not> p (es ! ?k)"
      using n assms(3) nth_length_takeWhile [of p es] by (auto simp: count_first_def)
    then have "?k \<noteq> c" using p by blast
    then have "z_before (es ! ?k) (es ! c)" using n sorted_wrt_nth_less [OF assms(1), of ?k c] assms(3) by simp
    then show False using assms(2) p k(2) unfolding inherits_def by blast
  qed
next
  assume "c < count_first p es"
  then have c: "c < length (takeWhile p es)" by (simp add: count_first_def)
  show "p (es ! c)" using set_takeWhileD [OF nth_mem [OF c]] takeWhile_nth [OF c] by simp
qed

lemma inherits_before: "inherits (\<lambda>e. z_before e k)"
  unfolding inherits_def using z_before_trans by blast

lemma inherits_upto: "inherits (\<lambda>e. z_before e k \<or> z_same e k)"
  unfolding inherits_def using z_before_trans z_same_before(1) by blast

lemma inherits_score: "inherits (\<lambda>e. d_lt (snd e) lo)"
  by (auto simp: inherits_def z_before_def d_lt_def d_eq_def)

subsection \<open>The abstraction\<close>

definition entry_at :: "skiplist \<Rightarrow> nat \<Rightarrow> z_entry" where
  "entry_at s p = (member (sl_at s p), score (sl_at s p))"

definition sl_rep :: "skiplist \<Rightarrow> z_entry list \<Rightarrow> bool" where
  "sl_rep s es \<longleftrightarrow> (\<exists>xs. sl_shape s xs \<and> es = map (entry_at s) xs) \<and> z_sorted es"

text \<open>The search for a bound that the first \<open>c\<close> entries satisfy.\<close>

lemma search_count:
  assumes "sl_shape s xs" "sorted_wrt z_before (map (entry_at s) xs)" "inherits p"
    "\<And>i x q r. go i x q r = p (entry_at s q)"
  defines "P \<equiv> Suc (count_first p (map (entry_at s) xs))"
  shows "goes_below s xs i P (go i)"
    "sl_search s go (sl_levels s) 0 0 = Some (ups s xs P (sl_levels s), ranks s xs P (sl_levels s))"
proof -
  have g: "goes_below s xs i P (go i)" for i
    unfolding goes_below_def
  proof (intro allI impI)
    fix a b assume ab: "a \<le> length xs \<and> i < heights s xs ! a \<and> b = nxt (heights s xs) i a \<and> b \<le> length xs"
    then have "0 < b" using nxt_gt [of a "heights s xs" i] by simp
    from gr0_implies_Suc [OF this] obtain c where c: "b = Suc c" by blast
    then have cl: "c < length xs" using ab by simp
    then show "go i (path xs ! a) (path xs ! b) (word_of_nat a) = (b < P)"
      using count_first_iff [OF assms(2,3), of c] assms(4) c by (simp add: P_def)
  qed
  show "goes_below s xs i P (go i)" by (rule g)
  show "sl_search s go (sl_levels s) 0 0 = Some (ups s xs P (sl_levels s), ranks s xs P (sl_levels s))"
    using search_from_head [of s xs P go] assms(1) g by (simp add: sl_shape_def P_def ups_def ranks_def)
qed

subsection \<open>Insertion\<close>

definition z_insert :: "z_entry \<Rightarrow> z_entry list \<Rightarrow> z_entry list" where
  "z_insert k es = takeWhile (\<lambda>e. z_before e k) es @ k # dropWhile (\<lambda>e. z_before e k) es"

lemma z_insert_put_at: "z_insert k es = put_at (count_first (\<lambda>e. z_before e k) es) k es"
  by (simp add: z_insert_def put_at_def count_first_def flip: takeWhile_eq_take dropWhile_eq_drop)

lemma set_z_insert: "set (z_insert k es) = insert k (set es)"
  by (simp add: z_insert_put_at set_put_at)

lemma z_sorted_insert:
  assumes "z_sorted es" "\<not> d_isnan (snd k)" "\<forall>e\<in>set es. \<not> z_same e k"
  shows "z_sorted (z_insert k es)"
proof -
  let ?p = "\<lambda>e. z_before e k"
  have "sorted_wrt z_before (takeWhile ?p es @ dropWhile ?p es)" using assms(1) by (simp add: z_sorted_def)
  then have s: "sorted_wrt z_before (takeWhile ?p es)" "sorted_wrt z_before (dropWhile ?p es)"
    "\<forall>x\<in>set (takeWhile ?p es). \<forall>y\<in>set (dropWhile ?p es). z_before x y" unfolding sorted_wrt_append by blast+
  have "z_before k e" if in_e: "e \<in> set (dropWhile ?p es)" for e
  proof -
    obtain c where c: "c < length (dropWhile ?p es)" "e = dropWhile ?p es ! c" using in_e unfolding in_set_conv_nth by blast
    let ?n = "count_first ?p es"
    have "dropWhile ?p es = drop ?n es" unfolding count_first_def by (rule dropWhile_eq_drop)
    then have e: "e = es ! (?n + c)" "?n + c < length es" using c count_first_le [of ?p es] by (auto simp: nth_drop)
    then have "\<not> z_before e k"
      using count_first_iff [OF _ inherits_before, of es "?n + c" k] assms(1) by (simp add: z_sorted_def)
    moreover have "e \<in> set es" using e by simp
    ultimately show ?thesis using assms z_before_total [of e k] by (auto simp: z_sorted_def)
  qed
  moreover have "e \<in> set (takeWhile ?p es) \<Longrightarrow> z_before e k" for e by (rule set_takeWhileD [THEN conjunct2])
  ultimately have "sorted_wrt z_before (z_insert k es)" using s unfolding z_insert_def sorted_wrt_append sorted_wrt.simps list.set
    by blast
  then show ?thesis using assms(1,2) by (auto simp: z_sorted_def set_z_insert)
qed

lemma map_entry_put_at:
  assumes "k \<le> length xs" "entry_at t x = e" "\<And>q. q \<in> set xs \<Longrightarrow> entry_at t q = entry_at s q"
  shows "map (entry_at t) (put_at k x xs) = put_at k e (map (entry_at s) xs)"
proof -
  have "map (entry_at t) xs = map (entry_at s) xs" using assms(3) by (rule map_cong [OF refl])
  then show ?thesis by (simp only: map_put_at assms(2))
qed

lemma sl_insert_rep:
  assumes "sl_rep s es" "\<not> d_isnan sc" "\<forall>e\<in>set es. \<not> z_same e (m, sc)"
  shows "\<exists>s'. sl_insert m sc s = Some s' \<and> sl_rep s' (z_insert (m, sc) es)"
proof -
  obtain xs where xs: "sl_shape s xs" "es = map (entry_at s) xs" and so: "z_sorted es" using assms(1) by (auto simp: sl_rep_def)
  let ?k = "count_first (\<lambda>e. z_before e (m, sc)) es"
  have k: "?k \<le> length xs" using count_first_le [of _ es] xs(2) by simp
  have "sl_search s (go_before s m sc) (sl_levels s) 0 0 =
      Some (ups s xs (Suc ?k) (sl_levels s), ranks s xs (Suc ?k) (sl_levels s))"
    unfolding xs(2) using xs so
    by (intro search_count inherits_before) (auto simp: z_sorted_def go_before_def sl_before_key entry_at_def)
  then have i: "sl_insert m sc s = Some (sl_insert_at (ups s xs (Suc ?k) (sl_levels s)) (ranks s xs (Suc ?k) (sl_levels s)) m sc s)"
    (is "_ = Some ?t") by (simp add: sl_insert_def)
  note sh = insert_at_shape [OF xs(1) k, where m = m and sc = sc]
  have "map (entry_at ?t) (put_at ?k (length (sl_heap s)) xs) = z_insert (m, sc) es"
    unfolding z_insert_put_at xs(2)
    by (rule map_entry_put_at) (use sh k in \<open>simp_all add: entry_at_def xs(2)\<close>)
  then have "sl_rep ?t (z_insert (m, sc) es)"
    using sh(1) z_sorted_insert [OF so, of "(m, sc)"] assms(2,3) unfolding sl_rep_def by auto
  then show ?thesis using i by blast
qed

subsection \<open>Removal\<close>

lemma sorted_filter_drop:
  assumes "z_sorted es" "c < length es" "z_same (es ! c) k"
  shows "filter (\<lambda>e. \<not> z_same e k) es = drop_at c es"
proof -
  have es: "es = take c es @ es ! c # drop (Suc c) es" by (rule id_take_nth_drop [OF assms(2)])
  have s: "sorted_wrt z_before (take c es @ es ! c # drop (Suc c) es)" using assms(1) es by (simp add: z_sorted_def)
  have "\<not> z_same e k" if "e \<in> set (take c es) \<union> set (drop (Suc c) es)" for e
  proof -
    have "z_before e (es ! c) \<or> z_before (es ! c) e" using s that by (auto simp: sorted_wrt_append)
    then show ?thesis using assms(3) z_before_not_same [of e "es ! c"] z_before_not_same [of "es ! c" e]
      by (auto simp: z_same_def d_eq_def)
  qed
  then have "filter (\<lambda>e. \<not> z_same e k) (take c es) = take c es"
    "filter (\<lambda>e. \<not> z_same e k) (drop (Suc c) es) = drop (Suc c) es" by (auto simp: filter_id_conv)
  then have "filter (\<lambda>e. \<not> z_same e k) (take c es @ es ! c # drop (Suc c) es) = take c es @ drop (Suc c) es"
    using assms(3) by simp
  then show ?thesis using es by (simp add: drop_at_def)
qed

text \<open>An entry that is the one sought stands where the entries before it end.\<close>

lemma same_at_count:
  assumes "z_sorted es" "c < length es" "z_same (es ! c) k"
  shows "c = count_first (\<lambda>e. z_before e k) es"
proof (rule ccontr)
  let ?p = "\<lambda>e. z_before e k" let ?n = "count_first ?p es"
  have so: "sorted_wrt z_before es" using assms(1) by (simp add: z_sorted_def)
  assume "c \<noteq> ?n"
  moreover have "\<not> c < ?n"
    using count_first_iff [OF so inherits_before assms(2), of k] z_before_not_same assms(3) by blast
  ultimately have n: "?n < c" by simp
  then have "z_before (es ! ?n) (es ! c)" using so assms(2) sorted_wrt_nth_less by blast
  then have "?p (es ! ?n)" using z_same_before(1) [OF assms(3)] by simp
  then show False using count_first_iff [OF so inherits_before, of ?n k] n assms(2) by simp
qed

lemma z_sorted_filter: "z_sorted es \<Longrightarrow> z_sorted (filter p es)"
  by (simp add: z_sorted_def sorted_wrt_filter)

lemma sl_erase_rep:
  assumes "sl_rep s es"
  shows "\<exists>s'. sl_erase m sc s = Some (\<exists>e\<in>set es. z_same e (m, sc), s') \<and>
    sl_rep s' (filter (\<lambda>e. \<not> z_same e (m, sc)) es)"
proof -
  obtain xs where xs: "sl_shape s xs" "es = map (entry_at s) xs" and so: "z_sorted es" using assms(1) by (auto simp: sl_rep_def)
  have s: "nodes_ok s xs" "chains_ok s xs" using xs(1) by (auto simp: sl_shape_def)
  let ?k = "count_first (\<lambda>e. z_before e (m, sc)) es" let ?us = "ups s xs (Suc ?k) (sl_levels s)"
  have k: "?k \<le> length xs" using count_first_le [of _ es] xs(2) by simp
  have se: "sl_search s (go_before s m sc) (sl_levels s) 0 0 = Some (?us, ranks s xs (Suc ?k) (sl_levels s))"
    unfolding xs(2) using xs so
    by (intro search_count inherits_before) (auto simp: z_sorted_def go_before_def sl_before_key entry_at_def)
  have "0 < sl_levels s" using s(1) by (simp add: nodes_ok_def)
  then have u0: "?us ! 0 = path xs ! ?k" using heights_pos [OF s(1) k] k ups_ok(1) [OF s(1), of "Suc ?k" 0] by simp
  have f: "sl_fwd s (?us ! 0) 0 = (if ?k < length xs then Some (xs ! ?k) else None)"
    unfolding u0 by (rule fwd_0 [OF s k])
  have ek: "?k < length xs \<Longrightarrow> es ! ?k = (member (sl_at s (xs ! ?k)), score (sl_at s (xs ! ?k)))"
    using nth_map [of ?k xs "entry_at s"] by (simp add: xs(2) entry_at_def)
  have er: "sl_erase m sc s = (if ?k < length xs then
      if z_same (es ! ?k) (m, sc) then
        let r = remove_node (xs ! ?k) ?us s in Some (True, r\<lparr>sl_heap := (sl_heap r)[xs ! ?k := None]\<rparr>)
      else Some (False, s) else Some (False, s))"
    unfolding sl_erase_def se option.case prod.case f by (cases "?k < length xs") (simp_all add: ek z_same_def Let_def)
  show ?thesis
  proof (cases "?k < length xs \<and> z_same (es ! ?k) (m, sc)")
    case True
    let ?x = "xs ! ?k" let ?r = "remove_node ?x ?us s" let ?t = "?r\<lparr>sl_heap := (sl_heap ?r)[?x := None]\<rparr>"
    have e: "sl_erase m sc s = Some (True, ?t)"
      using True by (simp add: er Let_def)
    have kl: "?k < length xs" "?k < length es" using True xs(2) by simp_all
    note sh = erase_shape [OF xs(1) kl(1)]
    have dx: "distinct xs" using s(1) by (simp add: nodes_ok_def)
    have nx: "?x \<notin> set (drop_at ?k xs)"
    proof -
      have "distinct (take ?k xs @ ?x # drop (Suc ?k) xs)" using dx id_take_nth_drop [OF kl(1)] by metis
      then show ?thesis by (simp add: drop_at_def)
    qed
    have "map (entry_at ?t) (drop_at ?k xs) = map (entry_at s) (drop_at ?k xs)"
    proof (intro map_cong refl)
      fix q assume "q \<in> set (drop_at ?k xs)"
      then have "q \<noteq> ?x" using nx by metis
      then show "entry_at ?t q = entry_at s q" using sh(3) unfolding entry_at_def by blast
    qed
    also have "\<dots> = drop_at ?k es" by (simp add: xs(2) map_drop_at)
    also have "\<dots> = filter (\<lambda>e. \<not> z_same e (m, sc)) es" using sorted_filter_drop [OF so kl(2)] True by simp
    finally have "sl_rep ?t (filter (\<lambda>e. \<not> z_same e (m, sc)) es)"
      using sh(1) z_sorted_filter [OF so] unfolding sl_rep_def by metis
    moreover have "\<exists>e\<in>set es. z_same e (m, sc)" using True kl(2) nth_mem by blast
    ultimately show ?thesis using e by auto
  next
    case False
    have "sl_erase m sc s = Some (False, s)"
      using False by (auto simp: er)
    moreover have no: "\<not> z_same e (m, sc)" if in_e: "e \<in> set es" for e
    proof
      assume "z_same e (m, sc)"
      moreover obtain c where "c < length es" "e = es ! c" using in_e unfolding in_set_conv_nth by blast
      ultimately show False using same_at_count [OF so, of c "(m, sc)"] False xs(2) by auto
    qed
    moreover have "filter (\<lambda>e. \<not> z_same e (m, sc)) es = es" using no by (simp add: filter_id_conv)
    ultimately show ?thesis using assms by auto
  qed
qed

end
