(* ===== verification/Skip_Query.thy ===== *)
theory Skip_Query
  imports Skip_Order
begin

section \<open>Queries of the skip list\<close>

text \<open>
  The rank of an entry is its place in the sorted list, the node at a rank holds the entry at this place, and the
  walk along level 0 from the first score not below a bound visits the entries from there on. The ranks are 32-bit
  sums of spans, so the list must be shorter than \<open>2 ^ 32\<close>.
\<close>

text \<open>Unfolding the abstraction for a search.\<close>

lemma last_below_path:
  assumes "nodes_ok s xs" "0 < P" "i < sl_levels s"
  shows "last_below (heights s xs) i P \<le> length xs" "last_below (heights s xs) i P < P"
    "\<And>j. j \<le> i \<Longrightarrow> j < heights s xs ! last_below (heights s xs) i P"
proof -
  show l: "last_below (heights s xs) i P \<le> length xs" "last_below (heights s xs) i P < P"
    using ups_ok [OF assms] by simp_all
  have "i < kMaxLevel" using assms(1,3) by (simp add: nodes_ok_def)
  then have hd: "heights s xs \<noteq> []" "i < heights s xs ! 0" using heights_head [OF assms(1)] by (auto simp: heights_def)
  show "j \<le> i \<Longrightarrow> j < heights s xs ! last_below (heights s xs) i P" for j
    using last_below_high [OF hd, of P] by simp
qed

lemma last_below_level0:
  assumes "nodes_ok s xs" "0 < P"
  shows "last_below (heights s xs) 0 P = min (P - 1) (length xs)"
proof (cases "P \<le> Suc (length xs)")
  case True
  then show ?thesis using last_below_0 [OF assms(1) True assms(2)] by simp
next
  case False
  have "last_below (heights s xs) 0 P = length xs"
    using False heights_pos [OF assms(1), of "length xs"] by (intro last_below_eqI) auto
  then show ?thesis using False by simp
qed

text \<open>On one of the first \<open>k\<close> levels the search for the bound \<open>c + 1\<close> ends at \<open>c\<close>.\<close>

definition hit :: "skiplist \<Rightarrow> nat list \<Rightarrow> nat \<Rightarrow> nat \<Rightarrow> bool" where
  "hit s xs c k \<longleftrightarrow> 0 < c \<and> (\<exists>i<k. last_below (heights s xs) i (Suc c) = c)"

lemma hit_0 [simp]: "\<not> hit s xs c 0"
  by (simp add: hit_def)

lemma hit_Suc: "hit s xs c (Suc k) \<longleftrightarrow> 0 < c \<and> last_below (heights s xs) k (Suc c) = c \<or> hit s xs c k"
  unfolding hit_def less_Suc_eq by blast

lemma hit_level0:
  assumes "nodes_ok s xs"
  shows "hit s xs c (sl_levels s) \<longleftrightarrow> 0 < c \<and> c \<le> length xs"
proof -
  have lv: "0 < sl_levels s" using assms by (simp add: nodes_ok_def)
  have "last_below (heights s xs) 0 (Suc c) = min c (length xs)" using last_below_level0 [OF assms, of "Suc c"] by simp
  moreover have "last_below (heights s xs) i (Suc c) \<le> length xs" if "i < sl_levels s" for i
    using last_below_path(1) [OF assms _ that, of "Suc c"] by simp
  ultimately show ?thesis unfolding hit_def using lv by (metis min.absorb1 min.cobounded2)
qed

lemma u32_of_nat: "n < 2 ^ 32 \<Longrightarrow> unat (word_of_nat n :: u32) = n"
  by (simp add: unsigned_of_nat take_bit_nat_eq_self)

subsection \<open>The rank of an entry\<close>

lemma rank_loop:
  assumes sh: "sl_shape s xs" and g: "\<And>i. i < sl_levels s \<Longrightarrow> goes_below s xs i (Suc c) (go_upto s m sc)"
    and only: "\<And>j. j < length xs \<Longrightarrow> z_same (entry_at s (xs ! j)) (m, sc) \<Longrightarrow> Suc j = c"
  shows "k \<le> sl_levels s \<Longrightarrow> a \<le> c \<Longrightarrow> a \<le> length xs \<Longrightarrow> (\<And>i. i < k \<Longrightarrow> i < heights s xs ! a) \<Longrightarrow>
    sl_rank_loop s m sc k (path xs ! a) (word_of_nat a) =
      Some (if hit s xs c k \<and> z_same (entry_at s (path xs ! c)) (m, sc) then word_of_nat c else 0)"
proof (induction k arbitrary: a)
  case (Suc k)
  have n: "nodes_ok s xs" "chains_ok s xs" using sh by (auto simp: sl_shape_def)
  have k: "k < sl_levels s" using Suc.prems(1) by simp
  let ?l = "last_below (heights s xs) k (Suc c)"
  note l = last_below_path [OF n(1) _ k, of "Suc c"]
  have adv: "sl_advance s (go_upto s m sc) k (path xs ! a) (word_of_nat a) = Some (path xs ! ?l, word_of_nat ?l)"
    using advance_ends [OF n k g [OF k]] Suc.prems by (simp add: Let_def)
  have d: "distinct (path xs)" using n(1) by (simp add: nodes_ok_def)
  have z: "path xs ! ?l = 0 \<longleftrightarrow> ?l = 0" using path_inj [OF d, of ?l 0] l(1) by simp
  let ?here = "?l = c \<and> 0 < c \<and> z_same (entry_at s (path xs ! c)) (m, sc)"
  have here: "path xs ! ?l \<noteq> 0 \<and> z_same (entry_at s (path xs ! ?l)) (m, sc) \<longleftrightarrow> ?here"
  proof
    assume h: "path xs ! ?l \<noteq> 0 \<and> z_same (entry_at s (path xs ! ?l)) (m, sc)"
    then obtain j where j: "?l = Suc j" using z gr0_implies_Suc by auto
    then have "Suc j = c" using only [of j] h l(1) by simp
    then show ?here using h j by auto
  qed (use z in auto)
  have cond: "(path xs ! ?l \<noteq> 0 \<and> d_eq (score (sl_at s (path xs ! ?l))) sc \<and> member (sl_at s (path xs ! ?l)) = m) = ?here"
    unfolding here [symmetric] by (simp add: z_same_def entry_at_def)
  have step: "sl_rank_loop s m sc (Suc k) (path xs ! a) (word_of_nat a) =
      (if ?here then Some (word_of_nat ?l) else sl_rank_loop s m sc k (path xs ! ?l) (word_of_nat ?l))"
    by (simp only: sl_rank_loop.simps adv option.case prod.case cond)
  show ?case
  proof (cases ?here)
    case True
    then have "hit s xs c (Suc k) \<and> z_same (entry_at s (path xs ! c)) (m, sc)" unfolding hit_Suc by blast
    then show ?thesis unfolding step using True by (simp del: last_below.simps)
  next
    case False
    then have "(hit s xs c (Suc k) \<and> z_same (entry_at s (path xs ! c)) (m, sc)) =
        (hit s xs c k \<and> z_same (entry_at s (path xs ! c)) (m, sc))" unfolding hit_Suc by blast
    moreover have "sl_rank_loop s m sc k (path xs ! ?l) (word_of_nat ?l) =
        Some (if hit s xs c k \<and> z_same (entry_at s (path xs ! c)) (m, sc) then word_of_nat c else 0)"
      by (rule Suc.IH) (use Suc.prems(1) l in \<open>simp_all del: last_below.simps\<close>)
    ultimately show ?thesis unfolding step if_not_P [OF False] by (simp only:)
  qed
qed simp

lemma rank_of_rep:
  assumes "sl_rep s es"
  shows "j < length es \<Longrightarrow> z_same (es ! j) (m, sc) \<Longrightarrow> rank_of m sc s = Some (word_of_nat (Suc j))"
    "(\<And>e. e \<in> set es \<Longrightarrow> \<not> z_same e (m, sc)) \<Longrightarrow> rank_of m sc s = Some 0"
proof -
  obtain xs where xs: "sl_shape s xs" "es = map (entry_at s) xs" and so: "z_sorted es" using assms(1) by (auto simp: sl_rep_def)
  have n: "nodes_ok s xs" "chains_ok s xs" using xs(1) by (auto simp: sl_shape_def)
  let ?p = "\<lambda>e. z_before e (m, sc) \<or> z_same e (m, sc)" let ?c = "count_first ?p es"
  have srt: "sorted_wrt z_before es" using so by (simp add: z_sorted_def)
  have g: "goes_below s xs i (Suc ?c) (go_upto s m sc)" for i
    unfolding xs(2)
    by (rule search_count(1) [OF xs(1) srt [unfolded xs(2)] inherits_upto])
      (auto simp: go_upto_def z_before_def z_same_def entry_at_def le_less)
  have c: "?c \<le> length xs" using count_first_le [of ?p es] xs(2) by simp
  have at: "j < length es \<Longrightarrow> es ! j = entry_at s (xs ! j)" for j by (simp add: xs(2))
  have pos: "Suc j = ?c" if "j < length es" "z_same (es ! j) (m, sc)" for j
  proof -
    have "j < ?c" using count_first_iff [OF srt inherits_upto, of j "(m, sc)"] that by simp
    moreover have "\<not> Suc j < ?c"
    proof
      assume s: "Suc j < ?c"
      then have l: "Suc j < length es" using c xs(2) by simp
      then have "?p (es ! Suc j)" using count_first_iff [OF srt inherits_upto, of "Suc j" "(m, sc)"] s by simp
      moreover have "z_before (es ! j) (es ! Suc j)" using sorted_wrt_nth_less [OF srt, of j "Suc j"] l by simp
      ultimately show False
        using that(2) z_before_not_same z_before_trans z_same_before(1) by blast
    qed
    ultimately show ?thesis by simp
  qed
  have lv: "0 < sl_levels s" using n(1) by (simp add: nodes_ok_def)
  have hd: "i < heights s xs ! 0" if "i < sl_levels s" for i
    using heights_head [OF n(1)] that n(1) by (auto simp: nodes_ok_def)
  have only: "Suc j = ?c" if "j < length xs" "z_same (entry_at s (xs ! j)) (m, sc)" for j
    using pos [of j] at [of j] that xs(2) by simp
  have r: "rank_of m sc s = Some (if 0 < ?c \<and> z_same (entry_at s (path xs ! ?c)) (m, sc) then word_of_nat ?c else 0)"
    using rank_loop [OF xs(1) g only, of "sl_levels s" 0] hd hit_level0 [OF n(1), of ?c] c by (simp add: rank_of_def)
  show "rank_of m sc s = Some (word_of_nat (Suc j))" if "j < length es" "z_same (es ! j) (m, sc)"
  proof -
    have p: "?c = Suc j" using pos [OF that] by simp
    then have "z_same (entry_at s (path xs ! ?c)) (m, sc)" using that at [OF that(1)] by simp
    then show ?thesis using r p by simp
  qed
  show "rank_of m sc s = Some 0" if no: "\<And>e. e \<in> set es \<Longrightarrow> \<not> z_same e (m, sc)"
  proof -
    have "\<not> z_same (entry_at s (path xs ! ?c)) (m, sc)" if pos: "0 < ?c"
    proof -
      obtain j where j: "?c = Suc j" using gr0_implies_Suc [OF pos] by blast
      then have "entry_at s (path xs ! ?c) = es ! j" "j < length es" using c xs(2) by simp_all
      then show ?thesis using no by simp
    qed
    then show ?thesis using r by auto
  qed
qed

subsection \<open>The node at a rank\<close>

lemma at_rank_loop:
  assumes sh: "sl_shape s xs"
    and g: "\<And>i. i < sl_levels s \<Longrightarrow> goes_below s xs i (Suc (unat rank)) (\<lambda>x q r. r + sl_span s x i \<le> rank)"
    and small: "length xs < 2 ^ 32"
  shows "k \<le> sl_levels s \<Longrightarrow> a \<le> unat rank \<Longrightarrow> a \<le> length xs \<Longrightarrow> (\<And>i. i < k \<Longrightarrow> i < heights s xs ! a) \<Longrightarrow>
    sl_at_rank_loop s rank k (path xs ! a) (word_of_nat a) =
      Some (if hit s xs (unat rank) k then Some (path xs ! unat rank) else None)"
proof (induction k arbitrary: a)
  case (Suc k)
  let ?c = "unat rank"
  have n: "nodes_ok s xs" "chains_ok s xs" using sh by (auto simp: sl_shape_def)
  have k: "k < sl_levels s" using Suc.prems(1) by simp
  let ?l = "last_below (heights s xs) k (Suc ?c)"
  note l = last_below_path [OF n(1) _ k, of "Suc ?c"]
  have adv: "sl_advance s (\<lambda>x q r. r + sl_span s x k \<le> rank) k (path xs ! a) (word_of_nat a) = Some (path xs ! ?l, word_of_nat ?l)"
    using advance_ends [OF n k g [OF k]] Suc.prems by (simp add: Let_def)
  have d: "distinct (path xs)" using n(1) by (simp add: nodes_ok_def)
  have z: "path xs ! ?l = 0 \<longleftrightarrow> ?l = 0" using path_inj [OF d, of ?l 0] l(1) by simp
  have "?l < 2 ^ 32" using l(1) small by simp
  then have w: "word_of_nat ?l = rank \<longleftrightarrow> ?l = ?c"
    using u32_of_nat [of ?l] by (auto simp: word_unat_eq_iff)
  have cond: "(word_of_nat ?l = rank \<and> path xs ! ?l \<noteq> 0) = (?l = ?c \<and> 0 < ?c)" using w z by auto
  have step: "sl_at_rank_loop s rank (Suc k) (path xs ! a) (word_of_nat a) =
      (if ?l = ?c \<and> 0 < ?c then Some (Some (path xs ! ?l)) else sl_at_rank_loop s rank k (path xs ! ?l) (word_of_nat ?l))"
    by (simp only: sl_at_rank_loop.simps adv option.case prod.case cond)
  show ?case
  proof (cases "?l = ?c \<and> 0 < ?c")
    case True
    then have "hit s xs ?c (Suc k)" unfolding hit_Suc by blast
    then show ?thesis unfolding step using True by (simp del: last_below.simps)
  next
    case False
    then have "hit s xs ?c (Suc k) = hit s xs ?c k" unfolding hit_Suc by blast
    moreover have "sl_at_rank_loop s rank k (path xs ! ?l) (word_of_nat ?l) =
        Some (if hit s xs ?c k then Some (path xs ! ?c) else None)"
      by (rule Suc.IH) (use Suc.prems(1) l in \<open>simp_all del: last_below.simps\<close>)
    ultimately show ?thesis unfolding step if_not_P [OF False] by (simp only:)
  qed
qed simp

lemma at_rank_rep:
  assumes "sl_rep s es" "length es < 2 ^ 32"
  shows "\<exists>q. at_rank rank s = Some q \<and>
    (if 0 < unat rank \<and> unat rank \<le> length es then \<exists>p. q = Some p \<and> entry_at s p = es ! (unat rank - 1) else q = None)"
proof -
  obtain xs where xs: "sl_shape s xs" "es = map (entry_at s) xs" using assms(1) by (auto simp: sl_rep_def)
  have n: "nodes_ok s xs" "chains_ok s xs" using xs(1) by (auto simp: sl_shape_def)
  let ?c = "unat rank"
  have small: "length xs < 2 ^ 32" using assms(2) xs(2) by simp
  have g: "goes_below s xs i (Suc ?c) (\<lambda>x q r. r + sl_span s x i \<le> rank)" if i: "i < sl_levels s" for i
    unfolding goes_below_def
  proof (intro allI impI)
    fix a b assume ab: "a \<le> length xs \<and> i < heights s xs ! a \<and> b = nxt (heights s xs) i a \<and> b \<le> length xs"
    then have "sl_span s (path xs ! a) i = word_of_nat (b - a)"
      using chains_linked [OF n(2) i, of a] by (auto simp: linked_def Let_def)
    moreover have "a < b" using ab nxt_gt by blast
    ultimately have "word_of_nat a + sl_span s (path xs ! a) i = word_of_nat b"
      by (metis le_add_diff_inverse less_imp_le_nat of_nat_add)
    moreover have "b < 2 ^ 32" using ab small by simp
    ultimately show "(word_of_nat a + sl_span s (path xs ! a) i \<le> rank) = (b < Suc ?c)"
      by (simp add: word_le_nat_alt u32_of_nat less_Suc_eq_le)
  qed
  have hd: "i < heights s xs ! 0" if "i < sl_levels s" for i
    using heights_head [OF n(1)] that n(1) by (auto simp: nodes_ok_def)
  have r: "at_rank rank s = Some (if 0 < ?c \<and> ?c \<le> length xs then Some (path xs ! ?c) else None)"
    using at_rank_loop [OF xs(1) g small, of "sl_levels s" 0] hd hit_level0 [OF n(1), of ?c] by (simp add: at_rank_def)
  show ?thesis
  proof (cases "0 < ?c \<and> ?c \<le> length es")
    case True
    then have "entry_at s (path xs ! ?c) = es ! (?c - 1)" using xs(2) by (cases ?c) simp_all
    then show ?thesis using r True xs(2) by auto
  next
    case False
    then show ?thesis using r xs(2) by auto
  qed
qed

subsection \<open>Level 0\<close>

text \<open>The address of a position, and the entries from there on.\<close>

definition from_node :: "skiplist \<Rightarrow> nat option \<Rightarrow> z_entry list \<Rightarrow> bool" where
  "from_node s n es \<longleftrightarrow> (\<exists>xs c. sl_shape s xs \<and> c \<le> length xs \<and>
     n = (if c < length xs then Some (xs ! c) else None) \<and> es = map (entry_at s) (drop c xs))"

lemma from_node_None: "from_node s None es \<Longrightarrow> es = []"
  by (auto simp: from_node_def split: if_splits)

lemma from_node_Some:
  assumes "from_node s (Some p) es"
  shows "es \<noteq> []" "hd es = entry_at s p" "from_node s (sl_fwd s p 0) (tl es)"
proof -
  obtain xs c where xs: "sl_shape s xs" "c < length xs" "p = xs ! c" "es = map (entry_at s) (drop c xs)"
    using assms by (auto simp: from_node_def split: if_splits)
  have n: "nodes_ok s xs" "chains_ok s xs" using xs(1) by (auto simp: sl_shape_def)
  show "es \<noteq> []" "hd es = entry_at s p" using xs(2-4) by (simp_all add: hd_map hd_drop_conv_nth)
  have "sl_fwd s p 0 = (if Suc c < length xs then Some (xs ! Suc c) else None)"
    using fwd_0 [OF n, of "Suc c"] xs(2,3) by simp
  moreover have "tl es = map (entry_at s) (drop (Suc c) xs)" by (simp add: xs(4) drop_Suc drop_tl flip: map_tl)
  ultimately show "from_node s (sl_fwd s p 0) (tl es)"
    unfolding from_node_def using xs(1,2) by (intro exI [of _ xs] exI [of _ "Suc c"]) auto
qed

lemma first_gte_rep:
  assumes "sl_rep s es"
  shows "\<exists>n. first_gte lo s = Some n \<and> from_node s n (dropWhile (\<lambda>e. d_lt (snd e) lo) es)"
proof -
  obtain xs where xs: "sl_shape s xs" "es = map (entry_at s) xs" and so: "z_sorted es" using assms(1) by (auto simp: sl_rep_def)
  have n: "nodes_ok s xs" "chains_ok s xs" using xs(1) by (auto simp: sl_shape_def)
  let ?p = "\<lambda>e :: z_entry. d_lt (snd e) lo" let ?c = "count_first ?p es"
  have srt: "sorted_wrt z_before es" using so by (simp add: z_sorted_def)
  have c: "?c \<le> length xs" using count_first_le [of ?p es] xs(2) by simp
  have se: "sl_search s (\<lambda>i x q r. d_lt (score (sl_at s q)) lo) (sl_levels s) 0 0 =
      Some (ups s xs (Suc ?c) (sl_levels s), ranks s xs (Suc ?c) (sl_levels s))"
    unfolding xs(2) by (rule search_count(2) [OF xs(1) srt [unfolded xs(2)] inherits_score]) (simp add: entry_at_def)
  have "0 < sl_levels s" using n(1) by (simp add: nodes_ok_def)
  then have u0: "ups s xs (Suc ?c) (sl_levels s) ! 0 = path xs ! ?c"
    using last_below_level0 [OF n(1), of "Suc ?c"] c ups_ok(1) [OF n(1), of "Suc ?c" 0] by simp
  have "first_gte lo s = Some (if ?c < length xs then Some (xs ! ?c) else None)"
    unfolding first_gte_def se option.case prod.case u0 fwd_0 [OF n c] ..
  moreover have "dropWhile ?p es = drop ?c es" unfolding count_first_def by (rule dropWhile_eq_drop)
  then have "dropWhile ?p es = map (entry_at s) (drop ?c xs)" by (simp add: xs(2) drop_map)
  ultimately show ?thesis unfolding from_node_def using xs(1) c by auto
qed

text \<open>An empty list, for a start.\<close>

lemma sl_new_rep: "sl_rep sl_new []"
proof -
  have at: "sl_at sl_new 0 = sl_node_new [] d_zero kMaxLevel" by (simp add: sl_new_def sl_at_def)
  have h: "height sl_new 0 = kMaxLevel" by (simp add: height_def at sl_node_new_def)
  have f: "i < kMaxLevel \<Longrightarrow> sl_fwd sl_new 0 i = None \<and> sl_span sl_new 0 i = 0" for i
    by (simp add: sl_fwd_def sl_span_def at sl_node_new_def)
  have "nodes_ok sl_new []" unfolding nodes_ok_def using h by (simp add: sl_new_def kMaxLevel_def)
  moreover have "chains_ok sl_new []" unfolding chains_ok_def
  proof (intro conjI allI impI)
    fix i a assume i: "i < sl_levels sl_new" "a \<le> length ([] :: nat list)" "i < height sl_new (path [] ! a)"
    then have "i < kMaxLevel" by (simp add: sl_new_def kMaxLevel_def)
    then show "linked sl_new [] i a" using f [of i] i nxt_gt [of 0 "heights sl_new []" i] by (simp add: linked_def Let_def)
  qed (use f in auto)
  moreover have "back_ok sl_new []" by (simp add: back_ok_def sl_new_def)
  ultimately show ?thesis unfolding sl_rep_def sl_shape_def z_sorted_def by (auto intro!: exI [of _ "[]"])
qed

end
