(* ===== verification/Cmd_Context.thy ===== *)
theory Cmd_Context
  imports Keyspace_Correct Resp
begin

section \<open>The command context (\<^verbatim>\<open>include/blazekv/command.hpp\<close>, \<^verbatim>\<open>src/commands/registry.cpp\<close>)\<close>

text \<open>
  What a handler sees: the arguments, the reply buffer it appends to, the keyspace, and the dirty
  flag and counters it sets. Two fields have no counterpart in the record of the source. The clock
  is the sequence of the readings that \<open>now_ms()\<close> returns during the command (any function, so any
  clock); \<open>c_tick\<close> is the next one. \<open>c_ub\<close> records that the handler executed an operation whose
  behaviour C++ leaves undefined (signed overflow); what the model computes after that has no meaning.
\<close>

record ctx =
  c_argv :: "bytes list"
  c_out :: bytes
  c_db :: keyspace
  c_dirty :: bool
  c_hits :: nat
  c_misses :: nat
  c_clock :: "nat \<Rightarrow> u64"
  c_tick :: nat
  c_ub :: bool

definition ctx_new :: "bytes list \<Rightarrow> keyspace \<Rightarrow> (nat \<Rightarrow> u64) \<Rightarrow> ctx" where
  "ctx_new argv db clk = \<lparr>c_argv = argv, c_out = [], c_db = db, c_dirty = False, c_hits = 0,
     c_misses = 0, c_clock = clk, c_tick = 0, c_ub = False\<rparr>"

definition argc :: "ctx \<Rightarrow> nat" where
  "argc c = length (c_argv c)"

definition arg :: "ctx \<Rightarrow> nat \<Rightarrow> bytes" where
  "arg c i = c_argv c ! i"

definition cmd_name :: "ctx \<Rightarrow> bytes" where
  "cmd_name c = (if c_argv c = [] then [] else c_argv c ! 0)"

definition mark_dirty :: "ctx \<Rightarrow> ctx" where
  "mark_dirty c = c\<lparr>c_dirty := True\<rparr>"

definition c_hit :: "ctx \<Rightarrow> ctx" where
  "c_hit c = c\<lparr>c_hits := c_hits c + 1\<rparr>"

definition c_miss :: "ctx \<Rightarrow> ctx" where
  "c_miss c = c\<lparr>c_misses := c_misses c + 1\<rparr>"

definition flag_ub :: "ctx \<Rightarrow> ctx" where
  "flag_ub c = c\<lparr>c_ub := True\<rparr>"

subsection \<open>Replies\<close>

definition r_simple_string :: "bytes \<Rightarrow> ctx \<Rightarrow> ctx" where
  "r_simple_string s c = c\<lparr>c_out := rb_simple_string s (c_out c)\<rparr>"

definition r_error :: "bytes \<Rightarrow> ctx \<Rightarrow> ctx" where
  "r_error s c = c\<lparr>c_out := rb_error s (c_out c)\<rparr>"

definition r_integer :: "int \<Rightarrow> ctx \<Rightarrow> ctx" where
  "r_integer v c = c\<lparr>c_out := rb_integer v (c_out c)\<rparr>"

definition r_bulk :: "bytes \<Rightarrow> ctx \<Rightarrow> ctx" where
  "r_bulk s c = c\<lparr>c_out := rb_bulk s (c_out c)\<rparr>"

definition r_null_bulk :: "ctx \<Rightarrow> ctx" where
  "r_null_bulk c = c\<lparr>c_out := rb_null_bulk (c_out c)\<rparr>"

definition r_null_array :: "ctx \<Rightarrow> ctx" where
  "r_null_array c = c\<lparr>c_out := rb_null_array (c_out c)\<rparr>"

definition r_array_header :: "int \<Rightarrow> ctx \<Rightarrow> ctx" where
  "r_array_header n c = c\<lparr>c_out := rb_array_header n (c_out c)\<rparr>"

definition squote :: bytes where
  "squote = [CHR 0x27]"

definition err_wrong_args :: "ctx \<Rightarrow> ctx" where
  "err_wrong_args c =
     r_error (''ERR wrong number of arguments for '' @ squote @ cmd_name c @ squote @ '' command'') c"

definition err_wrong_type :: "ctx \<Rightarrow> ctx" where
  "err_wrong_type c = r_error ''WRONGTYPE Operation against a key holding the wrong kind of value'' c"

definition err_not_int :: "ctx \<Rightarrow> ctx" where
  "err_not_int c = r_error ''ERR value is not an integer or out of range'' c"

definition err_not_float :: "ctx \<Rightarrow> ctx" where
  "err_not_float c = r_error ''ERR value is not a valid float'' c"

definition err_syntax :: "ctx \<Rightarrow> ctx" where
  "err_syntax c = r_error ''ERR syntax error'' c"

subsection \<open>The clock and the keyspace\<close>

definition now_ms :: "ctx \<Rightarrow> u64 \<times> ctx" where
  "now_ms c = (c_clock c (c_tick c), c\<lparr>c_tick := c_tick c + 1\<rparr>)"

text \<open>\<open>lookup\<close> advances the clock also where the source does not come to read it: the sequence of
  readings is arbitrary, so this loses no behaviour.\<close>

definition db_lookup :: "bytes \<Rightarrow> ctx \<Rightarrow> nat option \<times> ctx" where
  "db_lookup key c =
     (let (now, c') = now_ms c; (r, db) = ks_lookup now key (c_db c')
      in (r, c'\<lparr>c_db := db\<rparr>))"

definition db_exists :: "bytes \<Rightarrow> ctx \<Rightarrow> bool \<times> ctx" where
  "db_exists key c = (let (r, c') = db_lookup key c in (r \<noteq> None, c'))"

definition db_set :: "bytes \<Rightarrow> obj \<Rightarrow> ctx \<Rightarrow> nat \<times> ctx" where
  "db_set key v c = (let (p, db) = ks_set key v (c_db c) in (p, c\<lparr>c_db := db\<rparr>))"

definition db_erase :: "bytes \<Rightarrow> ctx \<Rightarrow> bool \<times> ctx" where
  "db_erase key c = (let (b, db) = ks_erase key (c_db c) in (b, c\<lparr>c_db := db\<rparr>))"

definition db_set_deadline :: "bytes \<Rightarrow> u64 \<Rightarrow> ctx \<Rightarrow> ctx" where
  "db_set_deadline key d c = c\<lparr>c_db := ks_set_deadline key d (c_db c)\<rparr>"

definition db_persist :: "bytes \<Rightarrow> ctx \<Rightarrow> bool \<times> ctx" where
  "db_persist key c = (let (b, db) = ks_persist key (c_db c) in (b, c\<lparr>c_db := db\<rparr>))"

definition db_ttl_ms :: "bytes \<Rightarrow> ctx \<Rightarrow> int \<times> ctx" where
  "db_ttl_ms key c =
     (let (now1, c1) = now_ms c; (now2, c2) = now_ms c1; (t, db) = ks_ttl_ms now1 now2 key (c_db c2)
      in (t, c2\<lparr>c_db := db\<rparr>))"

definition obj_at :: "ctx \<Rightarrow> nat \<Rightarrow> obj" where
  "obj_at c p = ks_obj (c_db c) p"

definition obj_write :: "nat \<Rightarrow> obj \<Rightarrow> ctx \<Rightarrow> ctx" where
  "obj_write p v c = c\<lparr>c_db := ks_write p v (c_db c)\<rparr>"

definition str_at :: "ctx \<Rightarrow> nat \<Rightarrow> bytes" where
  "str_at c p = the (obj_str (obj_at c p))"

definition list_at :: "ctx \<Rightarrow> nat \<Rightarrow> bytes list" where
  "list_at c p = the (obj_list (obj_at c p))"

definition hash_at :: "ctx \<Rightarrow> nat \<Rightarrow> hash_table" where
  "hash_at c p = the (obj_hash (obj_at c p))"

definition set_at :: "ctx \<Rightarrow> nat \<Rightarrow> set_table" where
  "set_at c p = the (obj_set (obj_at c p))"

text \<open>The four \<open>get_*\<close> helpers of the command files share one shape: the pointer, or that the key is
  absent, or that it holds another type.\<close>

datatype 'p typed = Absent | WrongType | Found 'p

definition get_typed :: "ObjType \<Rightarrow> bytes \<Rightarrow> ctx \<Rightarrow> nat typed \<times> ctx" where
  "get_typed t key c =
     (case db_lookup key c of
        (None, c') \<Rightarrow> (Absent, c')
      | (Some p, c') \<Rightarrow> if obj_type (obj_at c' p) \<noteq> t then (WrongType, c') else (Found p, c'))"

end
