(* ===== verification/Cmd_Frame.thy ===== *)
theory Cmd_Frame
  imports Cmd_Context
begin

section \<open>Reasoning about handlers\<close>

text \<open>
  The state a command works on, abstractly: a map from keys to abstract values and deadlines.
  \<open>runs c k f c'\<close> says that a handler did to the key \<open>k\<close>, to the reply and to the dirty flag what the
  reference function \<open>f\<close> says, given the entry that is alive at the time of the lookup, and nothing
  else. The command theories prove one such statement per single-key handler.
\<close>

subsection \<open>The abstract store\<close>

type_synonym aentry = "aobj \<times> u64 option"
type_synonym astore = "bytes \<Rightarrow> aentry option"

definition db_ok :: "keyspace \<Rightarrow> bool" where
  "db_ok ks \<longleftrightarrow> ks_inv ks \<and> (\<forall>k v d. ks_abs ks k = Some (v, d) \<longrightarrow> obj_wf v)"

definition db_abs :: "keyspace \<Rightarrow> astore" where
  "db_abs ks k = map_option (\<lambda>(v, d). (obj_abs v, d)) (ks_abs ks k)"

text \<open>No container is empty.\<close>

definition store_full :: "astore \<Rightarrow> bool" where
  "store_full s \<longleftrightarrow> (\<forall>k a d. s k = Some (a, d) \<longrightarrow> aobj_full a)"

lemma db_ok_inv [simp]: "db_ok ks \<Longrightarrow> ks_inv ks"
  by (simp add: db_ok_def)

lemma db_okD: "db_ok ks \<Longrightarrow> ks_abs ks k = Some (v, d) \<Longrightarrow> obj_wf v"
  by (auto simp: db_ok_def)

lemma live_db_abs: "live now (db_abs ks) k = map_option (\<lambda>(v, d). (obj_abs v, d)) (live now (ks_abs ks) k)"
  by (auto simp: live_def db_abs_def split: option.splits)

lemma live_Some: "live now s k = Some e \<longleftrightarrow> s k = Some e \<and> \<not> due now (snd e)"
  by (auto simp: live_def split: option.splits)

lemma live_None: "live now s k = None \<longleftrightarrow> (\<forall>v d. s k = Some (v, d) \<longrightarrow> due now d)"
  by (auto simp: live_def split: option.splits)

lemma db_new: "db_ok ks_new" "db_abs ks_new = Map.empty"
  by (auto simp: db_ok_def db_abs_def ks_new_correct fun_eq_iff)

lemma db_ok_upd:
  assumes "db_ok ks" "ks_inv ks'" "ks_abs ks' = (ks_abs ks)(k := e)" "\<And>v d. e = Some (v, d) \<Longrightarrow> obj_wf v"
  shows "db_ok ks'" "db_abs ks' = (db_abs ks)(k := map_option (\<lambda>(v, d). (obj_abs v, d)) e)"
proof -
  have "obj_wf v" if "ks_abs ks' k' = Some (v, d)" for k' v d
    using that assms(3,4) db_okD [OF assms(1), of k' v d] by (cases "k' = k") simp_all
  then show "db_ok ks'" using assms(2) by (simp add: db_ok_def)
  show "db_abs ks' = (db_abs ks)(k := map_option (\<lambda>(v, d). (obj_abs v, d)) e)"
    by (simp add: db_abs_def fun_eq_iff assms(3))
qed

lemma db_set:
  assumes "db_ok ks" "obj_wf v"
  shows "db_ok (snd (ks_set k v ks))" "db_abs (snd (ks_set k v ks)) = (db_abs ks)(k \<mapsto> (obj_abs v, None))"
    "ks_at (snd (ks_set k v ks)) k (fst (ks_set k v ks))"
proof -
  have inv: "ks_inv ks" using assms(1) by simp
  note u = db_ok_upd [OF assms(1) ks_set_inv [OF inv] ks_set_abs [OF inv], of v k]
  show "db_ok (snd (ks_set k v ks))" by (rule u(1)) (use assms(2) in simp)
  show "db_abs (snd (ks_set k v ks)) = (db_abs ks)(k \<mapsto> (obj_abs v, None))"
    by (subst u(2)) (use assms(2) in simp_all)
  show "ks_at (snd (ks_set k v ks)) k (fst (ks_set k v ks))" by (rule ks_set_at [OF inv])
qed

lemma db_erase:
  assumes "db_ok ks"
  shows "db_ok (snd (ks_erase k ks))" "db_abs (snd (ks_erase k ks)) = (db_abs ks)(k := None)"
    "fst (ks_erase k ks) \<longleftrightarrow> db_abs ks k \<noteq> None"
proof -
  have inv: "ks_inv ks" using assms by simp
  note u = db_ok_upd [OF assms ks_erase_inv [OF inv] ks_erase_abs [OF inv], of k]
  show "db_ok (snd (ks_erase k ks))" "db_abs (snd (ks_erase k ks)) = (db_abs ks)(k := None)"
    using u by simp_all
  show "fst (ks_erase k ks) \<longleftrightarrow> db_abs ks k \<noteq> None"
    using ks_erase_flag [OF inv] by (simp add: db_abs_def)
qed

lemma db_deadline:
  assumes "db_ok ks" "db_abs ks k = Some (a, d0)"
  shows "db_ok (ks_set_deadline k d ks)" "db_abs (ks_set_deadline k d ks) = (db_abs ks)(k \<mapsto> (a, Some d))"
proof -
  obtain v where v: "ks_abs ks k = Some (v, d0)" "a = obj_abs v" using assms(2) by (auto simp: db_abs_def)
  then have "ks_abs ks k \<noteq> None" by simp
  note u = db_ok_upd [OF assms(1) ks_set_deadline_inv [OF _ this, of d] ks_set_deadline_abs [of ks k d]]
  show "db_ok (ks_set_deadline k d ks)" "db_abs (ks_set_deadline k d ks) = (db_abs ks)(k \<mapsto> (a, Some d))"
    using u assms(1) v db_okD [OF assms(1) v(1)] by auto
qed

lemma db_persist:
  assumes "db_ok ks"
  shows "db_ok (snd (ks_persist k ks))"
    "db_abs (snd (ks_persist k ks)) = (db_abs ks)(k := map_option (\<lambda>(a, _). (a, None)) (db_abs ks k))"
    "fst (ks_persist k ks) \<longleftrightarrow> (\<exists>a d. db_abs ks k = Some (a, Some d))"
proof -
  note u = db_ok_upd [OF assms ks_persist_inv [of ks k] ks_persist_abs [of ks k]]
  show "db_ok (snd (ks_persist k ks))" using u(1) assms db_okD [OF assms] by auto
  show "db_abs (snd (ks_persist k ks)) = (db_abs ks)(k := map_option (\<lambda>(a, _). (a, None)) (db_abs ks k))"
    using u(2) assms db_okD [OF assms] by (auto simp: db_abs_def option.map_comp comp_def split_beta)
  show "fst (ks_persist k ks) \<longleftrightarrow> (\<exists>a d. db_abs ks k = Some (a, Some d))"
    using ks_persist_flag [of ks k] assms by (auto simp: db_abs_def)
qed

lemma db_write:
  assumes "db_ok ks" "ks_at ks k p" "obj_wf v" "db_abs ks k = Some (a, d)"
  shows "db_ok (ks_write p v ks)" "db_abs (ks_write p v ks) = (db_abs ks)(k \<mapsto> (obj_abs v, d))"
    "ks_at (ks_write p v ks) k p" "ks_obj (ks_write p v ks) p = v"
proof -
  have inv: "ks_inv ks" using assms(1) by simp
  have d: "sw_abs (ks_expires ks) k = d"
    using ks_at_obj [OF inv assms(2)] assms(4) by (auto simp: db_abs_def)
  show "db_ok (ks_write p v ks)" "db_abs (ks_write p v ks) = (db_abs ks)(k \<mapsto> (obj_abs v, d))"
    using db_ok_upd [OF assms(1) ks_write_inv [OF inv assms(2)] ks_write_abs [OF inv assms(2)], of v] assms(3) d
    by simp_all
  show "ks_at (ks_write p v ks) k p" "ks_obj (ks_write p v ks) p = v"
    using ks_write_obj [OF inv assms(2)] by auto
qed

lemma db_at:
  assumes "db_ok ks" "ks_at ks k p" "db_abs ks k = Some (a, d)"
  shows "obj_abs (ks_obj ks p) = a" "obj_wf (ks_obj ks p)" "ks_abs ks k = Some (ks_obj ks p, d)"
  using ks_at_obj [OF _ assms(2)] assms(1,3) db_okD [OF assms(1), of k] by (auto simp: db_abs_def)

lemma db_deadline_or_zero:
  "db_ok ks \<Longrightarrow> ks_deadline_or_zero k ks = (case db_abs ks k of Some (a, Some d) \<Rightarrow> d | _ \<Rightarrow> 0)"
  by (auto simp: ks_deadline_or_zero_correct db_abs_def split: option.splits)

subsection \<open>Contexts\<close>

definition ok :: "ctx \<Rightarrow> bool" where
  "ok c \<longleftrightarrow> db_ok (c_db c)"

definition view :: "ctx \<Rightarrow> astore" where
  "view c = db_abs (c_db c)"

definition at :: "ctx \<Rightarrow> bytes \<Rightarrow> nat \<Rightarrow> bool" where
  "at c k p \<longleftrightarrow> ks_at (c_db c) k p"

text \<open>The entry of \<open>k\<close> that the next lookup sees.\<close>

definition peek :: "ctx \<Rightarrow> bytes \<Rightarrow> aentry option" where
  "peek c k = live (c_clock c (c_tick c)) (view c) k"

lemmas rb_defs = rb_simple_string_def rb_error_def rb_integer_def rb_bulk_def rb_null_bulk_def
  rb_null_array_def rb_array_header_def rb_raw_def

lemmas reply_defs = r_simple_string_def r_error_def r_integer_def r_bulk_def r_null_bulk_def
  r_null_array_def r_array_header_def err_wrong_args_def err_wrong_type_def err_not_int_def
  err_not_float_def err_syntax_def rb_defs

lemmas ctx_defs = reply_defs mark_dirty_def c_hit_def c_miss_def flag_ub_def now_ms_def
  db_set_deadline_def obj_write_def

lemma db_set_eq: "db_set k v c = (fst (ks_set k v (c_db c)), c\<lparr>c_db := snd (ks_set k v (c_db c))\<rparr>)"
  by (simp add: db_set_def split_beta)

lemma db_erase_eq: "db_erase k c = (fst (ks_erase k (c_db c)), c\<lparr>c_db := snd (ks_erase k (c_db c))\<rparr>)"
  by (simp add: db_erase_def split_beta)

lemma db_persist_eq:
  "db_persist k c = (fst (ks_persist k (c_db c)), c\<lparr>c_db := snd (ks_persist k (c_db c))\<rparr>)"
  by (simp add: db_persist_def split_beta)

lemma db_lookup_eq:
  "db_lookup k c = (fst (ks_lookup (c_clock c (c_tick c)) k (c_db c)),
     c\<lparr>c_tick := c_tick c + 1, c_db := snd (ks_lookup (c_clock c (c_tick c)) k (c_db c))\<rparr>)"
  by (simp add: db_lookup_def now_ms_def split_beta)

lemma db_exists_eq: "db_exists k c = (fst (db_lookup k c) \<noteq> None, snd (db_lookup k c))"
  by (simp add: db_exists_def split_beta)

text \<open>What a lookup does: nothing when the key is alive, else the key is gone.\<close>

lemma db_lookup_cases:
  assumes "ok c"
  obtains
    (Gone) db1 where "db_lookup k c = (None, c\<lparr>c_tick := c_tick c + 1, c_db := db1\<rparr>)" "db_ok db1"
      "db_abs db1 = (view c)(k := None)" "peek c k = None"
  | (Alive) p v d where "db_lookup k c = (Some p, c\<lparr>c_tick := c_tick c + 1\<rparr>)" "ks_at (c_db c) k p"
      "ks_obj (c_db c) p = v" "obj_wf v" "peek c k = Some (obj_abs v, d)" "view c k = Some (obj_abs v, d)"
proof -
  let ?now = "c_clock c (c_tick c)"
  let ?l = "ks_lookup ?now k (c_db c)"
  have okc: "db_ok (c_db c)" and inv: "ks_inv (c_db c)" using assms by (simp_all add: ok_def)
  note L = ks_lookup_correct [OF inv, of ?now k]
  show ?thesis
  proof (cases "fst ?l")
    case None
    with L(3) have n: "live ?now (ks_abs (c_db c)) k = None" by simp
    show ?thesis
      by (rule Gone [of "snd ?l"])
         (use None n db_ok_upd [OF okc L(1,2)] in \<open>auto simp: db_lookup_eq peek_def view_def live_db_abs\<close>)
  next
    case (Some p)
    then have "?l = (Some p, snd ?l)" by (simp add: prod_eq_iff)
    note S = ks_lookup_Some [OF inv this]
    let ?v = "ks_obj (c_db c) p"
    have "ks_abs (c_db c) k = Some (?v, sw_abs (ks_expires (c_db c)) k)" using S(3) by (simp add: live_Some)
    then show ?thesis
      by (intro Alive [of p ?v "sw_abs (ks_expires (c_db c)) k"])
         (use Some S db_okD [OF okc] in \<open>auto simp: db_lookup_eq peek_def view_def live_db_abs db_abs_def\<close>)
  qed
qed

lemma get_typed_cases:
  assumes "ok c"
  obtains
    (Gone) db1 where "get_typed t k c = (Absent, c\<lparr>c_tick := c_tick c + 1, c_db := db1\<rparr>)" "db_ok db1"
      "db_abs db1 = (view c)(k := None)" "peek c k = None"
  | (Wrong) v d where "get_typed t k c = (WrongType, c\<lparr>c_tick := c_tick c + 1\<rparr>)"
      "peek c k = Some (obj_abs v, d)" "view c k = Some (obj_abs v, d)" "obj_type v \<noteq> t"
  | (Alive) p v d where "get_typed t k c = (Found p, c\<lparr>c_tick := c_tick c + 1\<rparr>)" "ks_at (c_db c) k p"
      "ks_obj (c_db c) p = v" "obj_wf v" "obj_type v = t" "peek c k = Some (obj_abs v, d)"
      "view c k = Some (obj_abs v, d)"
  using assms
proof (cases rule: db_lookup_cases [where k = k])
  case (Gone db1)
  then show ?thesis by (intro that(1)) (simp_all add: get_typed_def)
next
  case (Alive p v d)
  then show ?thesis
    by (cases "obj_type v = t") (auto simp: get_typed_def obj_at_def intro: that(2,3))
qed

subsection \<open>Running a single-key handler\<close>

type_synonym outcome = "aentry option \<times> bytes \<times> bool"

definition runs :: "ctx \<Rightarrow> bytes \<Rightarrow> (aentry option \<Rightarrow> outcome) \<Rightarrow> ctx \<Rightarrow> bool" where
  "runs c k f c' \<longleftrightarrow> (case f (peek c k) of (e, out, d) \<Rightarrow>
     ok c' \<and> (view c' = (view c)(k := e) \<or> \<not> d \<and> e = peek c k \<and> view c' = view c) \<and> c_out c' = c_out c @ out \<and>
     (c_dirty c' \<longleftrightarrow> c_dirty c \<or> d) \<and> c_argv c' = c_argv c \<and> c_clock c' = c_clock c)"

text \<open>A handler that rejects its arguments before looking the key up does not even drop a dead entry;
  that is the second case for the store.\<close>

text \<open>The replies that many handlers share.\<close>

definition a_integer :: "int \<Rightarrow> bytes" where "a_integer v = rb_integer v []"
definition a_bulk :: "bytes \<Rightarrow> bytes" where "a_bulk s = rb_bulk s []"
definition a_nil :: bytes where "a_nil = rb_null_bulk []"
definition a_nil_array :: bytes where "a_nil_array = rb_null_array []"
definition a_array :: "int \<Rightarrow> bytes" where "a_array n = rb_array_header n []"
definition a_ok :: bytes where "a_ok = rb_simple_string ''OK'' []"
definition a_error :: "bytes \<Rightarrow> bytes" where "a_error s = rb_error s []"
definition a_wrong_type :: bytes where
  "a_wrong_type = a_error ''WRONGTYPE Operation against a key holding the wrong kind of value''"
definition a_not_int :: bytes where
  "a_not_int = a_error ''ERR value is not an integer or out of range''"

lemmas a_defs = a_integer_def a_bulk_def a_nil_def a_nil_array_def a_array_def a_ok_def a_error_def
  a_wrong_type_def a_not_int_def

lemma reply_eqs:
  "r_simple_string s c = c\<lparr>c_out := c_out c @ rb_simple_string s []\<rparr>"
  "r_error s c = c\<lparr>c_out := c_out c @ a_error s\<rparr>"
  "r_integer v c = c\<lparr>c_out := c_out c @ a_integer v\<rparr>"
  "r_bulk s c = c\<lparr>c_out := c_out c @ a_bulk s\<rparr>"
  "r_null_bulk c = c\<lparr>c_out := c_out c @ a_nil\<rparr>"
  "r_null_array c = c\<lparr>c_out := c_out c @ a_nil_array\<rparr>"
  "r_array_header n c = c\<lparr>c_out := c_out c @ a_array n\<rparr>"
  "err_wrong_type c = c\<lparr>c_out := c_out c @ a_wrong_type\<rparr>"
  "err_not_int c = c\<lparr>c_out := c_out c @ a_not_int\<rparr>"
  by (simp_all add: reply_defs a_defs)

lemmas op_eqs = reply_eqs mark_dirty_def c_hit_def c_miss_def flag_ub_def now_ms_def
  db_set_deadline_def obj_write_def db_set_eq db_erase_eq db_persist_eq db_exists_eq

lemmas run_defs = runs_def ok_def view_def op_eqs obj_at_def

text \<open>The three outcomes of a typed lookup, in the form the proofs of the handlers use.\<close>

lemma typed_cases:
  assumes "ok c"
  obtains
    (Gone) db1 where "get_typed t k c = (Absent, c\<lparr>c_tick := Suc (c_tick c), c_db := db1\<rparr>)" "db_ok db1"
      "db_abs db1 = (db_abs (c_db c))(k := None)" "peek c k = None"
  | (Wrong) a d where "get_typed t k c = (WrongType, c\<lparr>c_tick := Suc (c_tick c)\<rparr>)" "db_ok (c_db c)"
      "peek c k = Some (a, d)" "aobj_type a \<noteq> t" "(db_abs (c_db c))(k \<mapsto> (a, d)) = db_abs (c_db c)"
  | (Alive) p v d where "get_typed t k c = (Found p, c\<lparr>c_tick := Suc (c_tick c)\<rparr>)" "db_ok (c_db c)"
      "ks_at (c_db c) k p" "ks_obj (c_db c) p = v" "obj_wf v" "obj_type v = t"
      "peek c k = Some (obj_abs v, d)" "db_abs (c_db c) k = Some (obj_abs v, d)"
      "(db_abs (c_db c))(k \<mapsto> (obj_abs v, d)) = db_abs (c_db c)"
  using assms
proof (cases rule: get_typed_cases [where t = t and k = k])
  case (Gone db1)
  then show ?thesis by (intro that(1)) (simp_all add: view_def)
next
  case (Wrong v d)
  then show ?thesis using assms by (intro that(2) [of "obj_abs v" d]) (simp_all add: view_def ok_def fun_upd_idem)
next
  case (Alive p v d)
  then show ?thesis using assms by (intro that(3) [of p v d]) (simp_all add: view_def ok_def fun_upd_idem)
qed

subsection \<open>Working on one value through its pointer\<close>

definition focus :: "keyspace \<Rightarrow> bytes \<Rightarrow> nat \<Rightarrow> obj \<Rightarrow> u64 option \<Rightarrow> bool" where
  "focus db k p v d \<longleftrightarrow> db_ok db \<and> ks_at db k p \<and> ks_obj db p = v \<and> obj_wf v \<and>
     db_abs db k = Some (obj_abs v, d)"

lemma focusD:
  "focus db k p v d \<Longrightarrow> db_ok db" "focus db k p v d \<Longrightarrow> ks_obj db p = v" "focus db k p v d \<Longrightarrow> obj_wf v"
  "focus db k p v d \<Longrightarrow> db_abs db k = Some (obj_abs v, d)"
  by (simp_all add: focus_def)

lemma focus_write:
  assumes "focus db k p v d" "obj_wf v'"
  shows "focus (ks_write p v' db) k p v' d"
    "db_abs (ks_write p v' db) = (db_abs db)(k \<mapsto> (obj_abs v', d))"
  using db_write [of db k p v' "obj_abs v" d] assms by (auto simp: focus_def)

lemma focus_set:
  assumes "db_ok db" "obj_wf v"
  shows "focus (snd (ks_set k v db)) k (fst (ks_set k v db)) v None"
proof -
  note s = db_set [OF assms, of k]
  have "ks_obj (snd (ks_set k v db)) (fst (ks_set k v db)) = v"
    by (rule ks_at_abs [OF _ s(3)]) (use ks_set_abs [of db k v] assms s in auto)
  with s assms(2) show ?thesis by (simp add: focus_def)
qed

text \<open>A change of the focused value: the new keyspace keeps the pointer and changes that key only.\<close>

definition refocus :: "keyspace \<Rightarrow> bytes \<Rightarrow> nat \<Rightarrow> obj \<Rightarrow> u64 option \<Rightarrow> keyspace \<Rightarrow> bool" where
  "refocus db k p v d db' \<longleftrightarrow> focus db' k p v d \<and> db_abs db' = (db_abs db)(k \<mapsto> (obj_abs v, d))"

lemma refocus_refl: "focus db k p v d \<Longrightarrow> refocus db k p v d db"
  by (simp add: refocus_def focus_def fun_upd_idem)

lemma refocus_write: "focus db k p v d \<Longrightarrow> obj_wf v' \<Longrightarrow> refocus db k p v' d (ks_write p v' db)"
  using focus_write by (simp add: refocus_def)

lemma refocus_trans: "refocus db k p v d db1 \<Longrightarrow> refocus db1 k p v' d db2 \<Longrightarrow> refocus db k p v' d db2"
  by (simp add: refocus_def)

subsection \<open>What every handler keeps\<close>

text \<open>The store may lose entries whose deadline has passed at some reading of the clock.\<close>

definition forgets :: "(nat \<Rightarrow> u64) \<Rightarrow> astore \<Rightarrow> astore \<Rightarrow> bool" where
  "forgets clk s s' \<longleftrightarrow> (\<forall>k. s' k = s k \<or> s' k = None \<and> (\<exists>a d i. s k = Some (a, Some d) \<and> d \<le> clk i))"

text \<open>A sound step: the tables stay well-formed, no container becomes empty, the reply is only appended
  to, the arguments and the clock stay, and a step that leaves the dirty flag clear has not changed
  the store except by forgetting dead entries.\<close>

definition sound :: "ctx \<Rightarrow> ctx \<Rightarrow> bool" where
  "sound c c' \<longleftrightarrow> ok c' \<and> (store_full (view c) \<longrightarrow> store_full (view c')) \<and>
     (c_dirty c' \<or> forgets (c_clock c) (view c) (view c')) \<and> (\<exists>out. c_out c' = c_out c @ out) \<and>
     c_argv c' = c_argv c \<and> c_clock c' = c_clock c \<and> (c_dirty c \<longrightarrow> c_dirty c')"

fun entry_full :: "aentry option \<Rightarrow> bool" where
  "entry_full None = True"
| "entry_full (Some (a, d)) = aobj_full a"

text \<open>A specification is well formed when, on an entry without an empty container, it leaves no empty
  container and changes the entry only when it says so or to forget it after its deadline.\<close>

definition well_under :: "(nat \<Rightarrow> u64) \<Rightarrow> (aentry option \<Rightarrow> outcome) \<Rightarrow> bool" where
  "well_under clk f \<longleftrightarrow> (\<forall>e. entry_full e \<longrightarrow> (case f e of (e', out, d) \<Rightarrow>
     (d \<or> e' = e \<or> e' = None \<and> (\<exists>a dl i. e = Some (a, Some dl) \<and> dl \<le> clk i)) \<and> entry_full e'))"

definition well_spec :: "(aentry option \<Rightarrow> outcome) \<Rightarrow> bool" where
  "well_spec f \<longleftrightarrow> (\<forall>e. entry_full e \<longrightarrow> (case f e of (e', out, d) \<Rightarrow> (d \<or> e' = e) \<and> entry_full e'))"

lemma well_spec_under: "well_spec f \<Longrightarrow> well_under clk f"
  unfolding well_spec_def well_under_def by (fastforce split: prod.splits)

lemma forgets_refl [simp]: "forgets clk s s"
  by (simp add: forgets_def)

lemma forgets_trans: "forgets clk s s1 \<Longrightarrow> forgets clk s1 s2 \<Longrightarrow> forgets clk s s2"
  unfolding forgets_def by metis

lemma forgets_live: "forgets clk s (s(k := live (clk i) s k))"
proof -
  have "live (clk i) s k = s k \<or> live (clk i) s k = None \<and> (\<exists>a d i. s k = Some (a, Some d) \<and> d \<le> clk i)"
  proof (cases "s k")
    case (Some e)
    then obtain a d where "s k = Some (a, d)" by (cases e) auto
    then show ?thesis by (cases d) (auto simp: live_def)
  qed (simp add: live_def)
  then show ?thesis by (auto simp: forgets_def)
qed

lemma store_full_upd: "store_full s \<Longrightarrow> entry_full e \<Longrightarrow> store_full (s(k := e))"
  by (cases e) (auto simp: store_full_def)

lemma store_full_forgets: "forgets clk s s' \<Longrightarrow> store_full s \<Longrightarrow> store_full s'"
  unfolding forgets_def store_full_def by (metis option.distinct(1))

lemma sound_refl: "ok c \<Longrightarrow> sound c c"
  by (simp add: sound_def)

lemma sound_trans: "sound c c1 \<Longrightarrow> sound c1 c2 \<Longrightarrow> sound c c2"
  unfolding sound_def by (metis append.assoc forgets_trans)

lemma entry_full_live: "store_full s \<Longrightarrow> entry_full (live now s k)"
  unfolding store_full_def by (cases "s k") (auto simp: live_def, blast)

lemma sound_runs_under:
  assumes "runs c k f c'" "well_under (c_clock c) f" "store_full (view c)"
  shows "sound c c'"
proof -
  obtain e out d where f: "f (peek c k) = (e, out, d)" by (metis prod_cases3)
  note r = assms(1) [unfolded runs_def f, simplified]
  let ?forgot = "e = None \<and> (\<exists>a dl i. peek c k = Some (a, Some dl) \<and> dl \<le> c_clock c i)"
  have "entry_full (peek c k)" using entry_full_live [OF assms(3)] by (simp add: peek_def)
  then have ws: "d \<or> e = peek c k \<or> ?forgot" "entry_full e"
    using spec [OF assms(2) [unfolded well_under_def], of "peek c k"] f by simp_all
  have "store_full (view c')" using r store_full_upd [OF assms(3) ws(2)] assms(3) by auto
  moreover have "forgets (c_clock c) (view c) (view c')" if nd: "\<not> d"
  proof (cases "e = peek c k")
    case True
    then show ?thesis using r nd forgets_live [of "c_clock c" "view c" k "c_tick c"] by (auto simp: peek_def)
  next
    case False
    then obtain a dl i where e: "e = None" "view c k = Some (a, Some dl)" "dl \<le> c_clock c i"
      using ws(1) nd live_Some [of _ "view c" k] by (auto simp: peek_def)
    moreover have "view c' = (view c)(k := None)" using r False e(1) by auto
    ultimately show ?thesis by (auto simp: forgets_def)
  qed
  ultimately show ?thesis using r by (auto simp: sound_def)
qed

lemma sound_runs: "runs c k f c' \<Longrightarrow> well_spec f \<Longrightarrow> store_full (view c) \<Longrightarrow> sound c c'"
  by (rule sound_runs_under [OF _ well_spec_under])

subsection \<open>Arguments in pairs\<close>

fun pairs :: "bytes list \<Rightarrow> (bytes \<times> bytes) list" where
  "pairs (f # v # rest) = (f, v) # pairs rest"
| "pairs _ = []"

lemma fold_bulks: "foldl (\<lambda>c m. r_bulk m c) c ms = c\<lparr>c_out := c_out c @ concat (map a_bulk ms)\<rparr>"
  by (induction ms arbitrary: c) (simp_all add: r_bulk_def rb_bulk_def a_bulk_def)

end
