(* ===== verification/Cmd_String.thy ===== *)
theory Cmd_String
  imports Cmd_Context
begin

section \<open>String commands (\<^verbatim>\<open>src/commands/string_cmds.cpp\<close>)\<close>

text \<open>One definition per handler, in the order of the file.\<close>

definition get_string :: "bytes \<Rightarrow> ctx \<Rightarrow> nat typed \<times> ctx" where
  "get_string key c = get_typed T_String key c"

definition incr_by :: "int \<Rightarrow> ctx \<Rightarrow> ctx" where
  "incr_by delta c =
     (let (r, c1) = get_string (arg c 1) c in
      if r = WrongType then err_wrong_type c1
      else case (case r of Found p \<Rightarrow> parse_int (str_at c1 p) | _ \<Rightarrow> Some 0) of
        None \<Rightarrow> err_not_int c1
      | Some cur \<Rightarrow>
          if (delta > 0 \<and> cur > i64_max - delta) \<or> (delta < 0 \<and> cur < i64_min - delta) then
            r_error ''ERR increment or decrement would overflow'' c1
          else
            let cur' = cur + delta; c2 = snd (db_set (arg c 1) (StrObj (int_to_string cur')) c1)
            in r_integer cur' (mark_dirty c2))"

definition cmd_get :: "ctx \<Rightarrow> ctx" where
  "cmd_get c =
     (case get_string (arg c 1) c of
        (WrongType, c1) \<Rightarrow> err_wrong_type c1
      | (Absent, c1) \<Rightarrow> r_null_bulk (c_miss c1)
      | (Found p, c1) \<Rightarrow> r_bulk (str_at c1 p) (c_hit c1))"

text \<open>The option loop of \<open>SET\<close> over the arguments from index 3; \<open>None\<close> after an error reply.\<close>

record set_opts =
  so_deadline :: u64
  so_nx :: bool
  so_xx :: bool
  so_keepttl :: bool
  so_get :: bool

definition set_expiry :: "bytes \<Rightarrow> int \<Rightarrow> u64 \<Rightarrow> u64" where
  "set_expiry opt n now =
     (if opt = ''ex'' then now + u64_of_i64 n * 1000
      else if opt = ''px'' then now + u64_of_i64 n
      else if opt = ''exat'' then u64_of_i64 n * 1000
      else u64_of_i64 n)"

fun set_options :: "bytes list \<Rightarrow> set_opts \<Rightarrow> ctx \<Rightarrow> set_opts option \<times> ctx" where
  "set_options [] s c = (Some s, c)"
| "set_options (a # rest) s c =
     (let opt = to_lower a in
      if opt = ''nx'' then set_options rest (s\<lparr>so_nx := True\<rparr>) c
      else if opt = ''xx'' then set_options rest (s\<lparr>so_xx := True\<rparr>) c
      else if opt = ''keepttl'' then set_options rest (s\<lparr>so_keepttl := True\<rparr>) c
      else if opt = ''get'' then set_options rest (s\<lparr>so_get := True\<rparr>) c
      else if (opt = ''ex'' \<or> opt = ''px'' \<or> opt = ''exat'' \<or> opt = ''pxat'') \<and> rest \<noteq> [] then
        (case parse_int (hd rest) of
           None \<Rightarrow> (None, r_error (''ERR invalid expire time in '' @ squote @ ''set'' @ squote @ '' command'') c)
         | Some n \<Rightarrow>
             if n \<le> 0 then
               (None, r_error (''ERR invalid expire time in '' @ squote @ ''set'' @ squote @ '' command'') c)
             else let (now, c') = now_ms c
                  in set_options (tl rest) (s\<lparr>so_deadline := set_expiry opt n now\<rparr>) c')
      else (None, err_syntax c))"

definition set_store :: "bytes \<Rightarrow> bytes \<Rightarrow> set_opts \<Rightarrow> ctx \<Rightarrow> ctx" where
  "set_store key val s c =
     (let keep = (if so_keepttl s then ks_deadline_or_zero key (c_db c) else 0);
          c1 = snd (db_set key (StrObj val) c);
          c2 = (if so_deadline s \<noteq> 0 then db_set_deadline key (so_deadline s) c1
                else if keep \<noteq> 0 then db_set_deadline key keep c1 else c1)
      in mark_dirty c2)"

definition cmd_set :: "ctx \<Rightarrow> ctx" where
  "cmd_set c =
     (let key = arg c 1; val = arg c 2 in
      case set_options (drop 3 (c_argv c))
             \<lparr>so_deadline = 0, so_nx = False, so_xx = False, so_keepttl = False, so_get = False\<rparr> c of
        (None, c1) \<Rightarrow> c1
      | (Some s, c1) \<Rightarrow>
          (let (e, c2) = db_lookup key c1;
               existing = (case e of Some p \<Rightarrow> if obj_type (obj_at c2 p) \<noteq> T_String then None else Some p
                           | None \<Rightarrow> None)
           in if so_nx s \<and> existing \<noteq> None then
                (if so_get s then r_bulk (str_at c2 (the existing)) c2 else r_null_bulk c2)
              else
                (let (gone, c3) = (if so_xx s then let (x, c') = db_lookup key c2 in (x = None, c')
                                   else (False, c2))
                 in if gone then r_null_bulk c3
                    else
                      (let had_old = (existing \<noteq> None);
                           old = (if so_get s \<and> had_old then str_at c3 (the existing) else []);
                           c4 = set_store key val s c3
                       in if so_get s then (if had_old then r_bulk old c4 else r_null_bulk c4)
                          else r_simple_string ''OK'' c4))))"

definition cmd_setnx :: "ctx \<Rightarrow> ctx" where
  "cmd_setnx c =
     (case db_lookup (arg c 1) c of
        (Some p, c1) \<Rightarrow> r_integer 0 c1
      | (None, c1) \<Rightarrow> r_integer 1 (mark_dirty (snd (db_set (arg c 1) (StrObj (arg c 2)) c1))))"

definition cmd_setex :: "ctx \<Rightarrow> ctx" where
  "cmd_setex c =
     (case parse_int (arg c 2) of
        None \<Rightarrow> r_error (''ERR invalid expire time in '' @ squote @ ''setex'' @ squote @ '' command'') c
      | Some secs \<Rightarrow>
          if secs \<le> 0 then
            r_error (''ERR invalid expire time in '' @ squote @ ''setex'' @ squote @ '' command'') c
          else
            (let span = (if to_lower (cmd_name c) = ''psetex'' then u64_of_i64 secs else u64_of_i64 secs * 1000);
                 c1 = snd (db_set (arg c 1) (StrObj (arg c 3)) c);
                 (now, c2) = now_ms c1;
                 c3 = db_set_deadline (arg c 1) (now + span) c2
             in r_simple_string ''OK'' (mark_dirty c3)))"

definition cmd_getset :: "ctx \<Rightarrow> ctx" where
  "cmd_getset c =
     (let (r, c1) = get_string (arg c 1) c in
      if r = WrongType then err_wrong_type c1
      else
        let c2 = (case r of Found p \<Rightarrow> r_bulk (str_at c1 p) c1 | _ \<Rightarrow> r_null_bulk c1)
        in mark_dirty (snd (db_set (arg c 1) (StrObj (arg c 2)) c2)))"

definition cmd_append :: "ctx \<Rightarrow> ctx" where
  "cmd_append c =
     (case get_string (arg c 1) c of
        (WrongType, c1) \<Rightarrow> err_wrong_type c1
      | (Absent, c1) \<Rightarrow>
          r_integer (int (length (arg c 2)))
            (mark_dirty (snd (db_set (arg c 1) (StrObj (arg c 2)) c1)))
      | (Found p, c1) \<Rightarrow>
          (let c2 = mark_dirty (obj_write p (StrObj (str_at c1 p @ arg c 2)) c1)
           in r_integer (int (length (str_at c2 p))) c2))"

definition cmd_strlen :: "ctx \<Rightarrow> ctx" where
  "cmd_strlen c =
     (case get_string (arg c 1) c of
        (WrongType, c1) \<Rightarrow> err_wrong_type c1
      | (Absent, c1) \<Rightarrow> r_integer 0 c1
      | (Found p, c1) \<Rightarrow> r_integer (int (length (str_at c1 p))) c1)"

definition cmd_incr :: "ctx \<Rightarrow> ctx" where "cmd_incr c = incr_by 1 c"
definition cmd_decr :: "ctx \<Rightarrow> ctx" where "cmd_decr c = incr_by (- 1) c"

definition cmd_incrby :: "ctx \<Rightarrow> ctx" where
  "cmd_incrby c = (case parse_int (arg c 2) of None \<Rightarrow> err_not_int c | Some d \<Rightarrow> incr_by d c)"

text \<open>Negating the smallest integer is undefined behaviour (on the usual machines it stays itself).\<close>

definition cmd_decrby :: "ctx \<Rightarrow> ctx" where
  "cmd_decrby c =
     (case parse_int (arg c 2) of
        None \<Rightarrow> err_not_int c
      | Some d \<Rightarrow> if d = i64_min then incr_by i64_min (flag_ub c) else incr_by (- d) c)"

definition mget_step :: "ctx \<Rightarrow> bytes \<Rightarrow> ctx" where
  "mget_step c key =
     (case db_lookup key c of
        (Some p, c1) \<Rightarrow>
          if obj_type (obj_at c1 p) = T_String then r_bulk (str_at c1 p) (c_hit c1)
          else r_null_bulk (c_miss c1)
      | (None, c1) \<Rightarrow> r_null_bulk (c_miss c1))"

definition cmd_mget :: "ctx \<Rightarrow> ctx" where
  "cmd_mget c = foldl mget_step (r_array_header (int (argc c) - 1) c) (drop 1 (c_argv c))"

fun mset_loop :: "bytes list \<Rightarrow> ctx \<Rightarrow> ctx" where
  "mset_loop (k # v # rest) c = mset_loop rest (snd (db_set k (StrObj v) c))"
| "mset_loop _ c = c"

definition cmd_mset :: "ctx \<Rightarrow> ctx" where
  "cmd_mset c =
     (if argc c mod 2 \<noteq> 1 then err_wrong_args c
      else r_simple_string ''OK'' (mark_dirty (mset_loop (drop 1 (c_argv c)) c)))"

text \<open>The index arithmetic that \<open>GETRANGE\<close> and \<open>LRANGE\<close> share, \<open>None\<close> for an empty range.\<close>

definition clamp_range :: "int \<Rightarrow> int \<Rightarrow> int \<Rightarrow> (int \<times> int) option" where
  "clamp_range len start0 end0 =
     (let start = (if start0 < 0 then max 0 (len + start0) else start0);
          end1 = (if end0 < 0 then len + end0 else end0);
          end2 = (if end1 \<ge> len then len - 1 else end1)
      in if start > end2 \<or> len = 0 then None else Some (start, end2))"

definition cmd_getrange :: "ctx \<Rightarrow> ctx" where
  "cmd_getrange c =
     (case get_string (arg c 1) c of
        (WrongType, c1) \<Rightarrow> err_wrong_type c1
      | (Absent, c1) \<Rightarrow> r_bulk [] c1
      | (Found p, c1) \<Rightarrow>
          (let s = str_at c1 p in
           case (parse_int (arg c 2), parse_int (arg c 3)) of
             (Some start, Some end) \<Rightarrow>
               (case clamp_range (int (length s)) start end of
                  None \<Rightarrow> r_bulk [] c1
                | Some (a, b) \<Rightarrow> r_bulk (take (nat (b - a + 1)) (drop (nat a) s)) c1)
           | _ \<Rightarrow> err_not_int c1))"

definition overwrite :: "bytes \<Rightarrow> nat \<Rightarrow> bytes \<Rightarrow> bytes" where
  "overwrite data offset val =
     (let needed = offset + length val;
          padded = (if needed > length data then data @ replicate (needed - length data) (CHR 0x00) else data)
      in if val \<noteq> [] then take offset padded @ val @ drop (offset + length val) padded else padded)"

definition cmd_setrange :: "ctx \<Rightarrow> ctx" where
  "cmd_setrange c =
     (case parse_int (arg c 2) of
        None \<Rightarrow> err_not_int c
      | Some offset \<Rightarrow>
          if offset < 0 then err_not_int c
          else
            (let (r, c1) = get_string (arg c 1) c in
             if r = WrongType then err_wrong_type c1
             else
               let data = overwrite (case r of Found p \<Rightarrow> str_at c1 p | _ \<Rightarrow> []) (nat offset) (arg c 3);
                   c2 = mark_dirty (snd (db_set (arg c 1) (StrObj data) c1))
               in r_integer (int (length data)) c2))"

end
