(* ===== verification/Cmd_String_Correct.thy ===== *)
theory Cmd_String_Correct
  imports Cmd_Frame Cmd_String
begin

section \<open>Correctness of the string commands\<close>

text \<open>
  A reference function per handler, over the abstract entry of the key, and the proof that the
  handler does what the reference says. Ranges are stated without clamping: the bytes whose index
  lies between the two bounds, negative bounds counting from the end.
\<close>

subsection \<open>Reference functions\<close>

fun on_str :: "aentry option \<Rightarrow> (bytes option \<Rightarrow> u64 option \<Rightarrow> outcome) \<Rightarrow> outcome" where
  "on_str None f = f None None"
| "on_str (Some (AStr s, d)) f = f (Some s) d"
| "on_str (Some e) f = (Some e, a_wrong_type, False)"

definition spec_get :: "aentry option \<Rightarrow> outcome" where
  "spec_get e = on_str e (\<lambda>s d. (e, case s of None \<Rightarrow> a_nil | Some s \<Rightarrow> a_bulk s, False))"

definition spec_strlen :: "aentry option \<Rightarrow> outcome" where
  "spec_strlen e = on_str e (\<lambda>s d. (e, a_integer (case s of None \<Rightarrow> 0 | Some s \<Rightarrow> int (length s)), False))"

definition spec_getset :: "bytes \<Rightarrow> aentry option \<Rightarrow> outcome" where
  "spec_getset v e =
     on_str e (\<lambda>s d. (Some (AStr v, None), case s of None \<Rightarrow> a_nil | Some s \<Rightarrow> a_bulk s, True))"

definition spec_append :: "bytes \<Rightarrow> aentry option \<Rightarrow> outcome" where
  "spec_append v e =
     on_str e (\<lambda>s d. let r = (case s of None \<Rightarrow> [] | Some s \<Rightarrow> s) @ v
                      in (Some (AStr r, d), a_integer (int (length r)), True))"

definition spec_incr :: "int \<Rightarrow> aentry option \<Rightarrow> outcome" where
  "spec_incr delta e =
     on_str e (\<lambda>s d. case (case s of None \<Rightarrow> Some 0 | Some s \<Rightarrow> parse_int s) of
         None \<Rightarrow> (e, a_not_int, False)
       | Some n \<Rightarrow>
           if in_i64 (n + delta) then
             (Some (AStr (int_to_string (n + delta)), None), a_integer (n + delta), True)
           else (e, a_error ''ERR increment or decrement would overflow'', False))"

text \<open>Indices counted from the end when negative, and the elements between two of them.\<close>

definition from_end :: "nat \<Rightarrow> int \<Rightarrow> int" where
  "from_end n i = (if i < 0 then int n + i else i)"

definition between :: "'a list \<Rightarrow> int \<Rightarrow> int \<Rightarrow> 'a list" where
  "between xs a b =
     map ((!) xs) (filter (\<lambda>i. from_end (length xs) a \<le> int i \<and> int i \<le> from_end (length xs) b) [0..<length xs])"

definition spec_getrange :: "bytes \<Rightarrow> bytes \<Rightarrow> aentry option \<Rightarrow> outcome" where
  "spec_getrange a b e =
     on_str e (\<lambda>s d. case s of
         None \<Rightarrow> (e, a_bulk [], False)
       | Some s \<Rightarrow>
           (case (parse_int a, parse_int b) of
              (Some x, Some y) \<Rightarrow> (e, a_bulk (between s x y), False)
            | _ \<Rightarrow> (e, a_not_int, False)))"

text \<open>The bytes of \<open>SETRANGE\<close>, position by position.\<close>

definition patched :: "bytes \<Rightarrow> nat \<Rightarrow> bytes \<Rightarrow> bytes" where
  "patched s off v =
     map (\<lambda>i. if off \<le> i \<and> i < off + length v then v ! (i - off)
               else if i < length s then s ! i else CHR 0x00)
       [0..<max (length s) (off + length v)]"

definition spec_setrange :: "bytes \<Rightarrow> bytes \<Rightarrow> aentry option \<Rightarrow> outcome" where
  "spec_setrange off v e =
     (case parse_int off of
        None \<Rightarrow> (e, a_not_int, False)
      | Some i \<Rightarrow>
          if i < 0 then (e, a_not_int, False)
          else on_str e (\<lambda>s d.
            let r = patched (case s of None \<Rightarrow> [] | Some s \<Rightarrow> s) (nat i) v
            in (Some (AStr r, None), a_integer (int (length r)), True)))"

subsection \<open>Ranges\<close>

lemma filter_upt_between: "filter (\<lambda>i. a \<le> int i \<and> int i \<le> b) [0..<n] = [nat a..<min n (nat (b + 1))]"
proof (induction n)
  case (Suc n)
  show ?case
  proof (cases "a \<le> int n \<and> int n \<le> b")
    case True
    then have "nat a \<le> n" "min n (nat (b + 1)) = n" "min (Suc n) (nat (b + 1)) = Suc n" by auto
    with Suc True show ?thesis by simp
  next
    case False
    then have "[nat a..<min (Suc n) (nat (b + 1))] = [nat a..<min n (nat (b + 1))]"
    proof (cases "int n \<le> b")
      case True
      with False have "n < nat a" by linarith
      then show ?thesis by simp
    next
      case b: False
      then have "nat (b + 1) \<le> n" by linarith
      then show ?thesis by (simp add: min_def)
    qed
    with Suc False show ?thesis by auto
  qed
qed simp

lemma clamp_range_cases:
  assumes "clamp_range (int n) a b = Some (x, y)"
  shows "0 \<le> x" "x \<le> y" "y < int n"
  using assms by (auto simp: clamp_range_def Let_def split: if_splits)

lemma between_clamp:
  "between xs a b =
     (case clamp_range (int (length xs)) a b of
        None \<Rightarrow> [] | Some (x, y) \<Rightarrow> map ((!) xs) [nat x..<nat y + 1])"
proof (cases "clamp_range (int (length xs)) a b")
  case None
  then have "nat (from_end (length xs) a) \<ge> min (length xs) (nat (from_end (length xs) b + 1))"
    by (cases "xs = []") (auto simp: clamp_range_def Let_def from_end_def max_def split: if_splits)
  with None show ?thesis by (simp add: between_def filter_upt_between)
next
  case (Some r)
  then obtain x y where r: "r = (x, y)" by (cases r)
  with Some have "nat (from_end (length xs) a) = nat x" "min (length xs) (nat (from_end (length xs) b + 1)) = nat y + 1"
    by (auto simp: clamp_range_def Let_def from_end_def split: if_splits)
  with Some r show ?thesis by (simp add: between_def filter_upt_between)
qed

lemma take_drop_map_nth:
  assumes "n + m \<le> length xs"
  shows "take m (drop n xs) = map ((!) xs) [n..<n + m]"
  using assms by (intro nth_equalityI) auto

lemma nth_padded:
  "i < length s + n \<Longrightarrow> (s @ replicate n z) ! i = (if i < length s then s ! i else z)"
  by (simp add: nth_append)

lemma overwrite_patched: "overwrite s off v = patched s off v"
proof (rule nth_equalityI)
  show len: "length (overwrite s off v) = length (patched s off v)"
    by (auto simp: overwrite_def patched_def Let_def)
  fix i assume "i < length (overwrite s off v)"
  with len have i: "i < max (length s) (off + length v)" by (simp add: patched_def)
  let ?n = "off + length v - length s"
  have pad: "overwrite s off v = (if v \<noteq> [] then take off (s @ replicate ?n (CHR 0x00)) @ v @
      drop (off + length v) (s @ replicate ?n (CHR 0x00)) else s @ replicate ?n (CHR 0x00))"
    by (auto simp: overwrite_def Let_def)
  have l: "off \<le> length (s @ replicate ?n (CHR 0x00))" by simp
  show "overwrite s off v ! i = patched s off v ! i"
  proof (cases "v = []")
    case True
    then show ?thesis using i unfolding pad by (auto simp: patched_def nth_padded)
  next
    case False
    consider "i < off" | "off \<le> i" "i < off + length v" | "off + length v \<le> i" by linarith
    then show ?thesis
      using False i l by cases (auto simp: pad patched_def nth_append nth_padded min_def)
  qed
qed

subsection \<open>The handlers follow the reference functions\<close>

lemma on_str_other: "aobj_type a \<noteq> T_String \<Longrightarrow> on_str (Some (a, d)) f = (Some (a, d), a_wrong_type, False)"
  by (cases a) auto

lemmas str_defs = run_defs get_string_def str_at_def on_str_other type_String_iff

lemma cmd_get_runs: "ok c \<Longrightarrow> runs c (arg c 1) spec_get (cmd_get c)"
  by (cases rule: typed_cases [of c T_String "arg c 1"])
     (auto simp: str_defs cmd_get_def spec_get_def)

lemma cmd_strlen_runs: "ok c \<Longrightarrow> runs c (arg c 1) spec_strlen (cmd_strlen c)"
  by (cases rule: typed_cases [of c T_String "arg c 1"])
     (auto simp: str_defs cmd_strlen_def spec_strlen_def)

lemma cmd_getset_runs: "ok c \<Longrightarrow> runs c (arg c 1) (spec_getset (arg c 2)) (cmd_getset c)"
  by (cases rule: typed_cases [of c T_String "arg c 1"])
     (auto simp: str_defs cmd_getset_def spec_getset_def db_set)

lemma cmd_append_runs: "ok c \<Longrightarrow> runs c (arg c 1) (spec_append (arg c 2)) (cmd_append c)"
  by (cases rule: typed_cases [of c T_String "arg c 1"])
     (auto simp: str_defs cmd_append_def spec_append_def db_set db_write Let_def)

lemma incr_by_runs:
  assumes "ok c" "in_i64 delta"
  shows "runs c (arg c 1) (spec_incr delta) (incr_by delta c)"
  using assms(1)
proof (cases rule: typed_cases [of c T_String "arg c 1"])
  case (Gone db1)
  then show ?thesis using assms(2)
    by (auto simp: str_defs incr_by_def spec_incr_def db_set Let_def in_i64_def i64_min_def i64_max_def)
next
  case (Wrong a d)
  then show ?thesis by (auto simp: str_defs incr_by_def spec_incr_def)
next
  case (Alive p v d)
  then obtain s where v: "v = StrObj s" by (auto simp: type_String_iff)
  show ?thesis
  proof (cases "parse_int s")
    case None
    with Alive v show ?thesis by (auto simp: str_defs incr_by_def spec_incr_def)
  next
    case (Some n)
    from parse_int_range [OF this] assms(2)
    have "(delta > 0 \<and> n > i64_max - delta) \<or> (delta < 0 \<and> n < i64_min - delta) \<longleftrightarrow> \<not> in_i64 (n + delta)"
      by (auto simp: in_i64_def i64_min_def i64_max_def)
    with Some Alive v show ?thesis
      by (simp add: str_defs incr_by_def spec_incr_def db_set Let_def)
  qed
qed

lemma bulk_range:
  assumes "clamp_range (int (length xs)) a b = Some (x, y)"
  shows "take (nat (y - x + 1)) (drop (nat x) xs) = between xs a b"
proof -
  note c = clamp_range_cases [OF assms]
  then have n: "nat x + nat (y - x + 1) = nat y + 1" by linarith
  then have "nat x + nat (y - x + 1) \<le> length xs" using c by linarith
  from take_drop_map_nth [OF this] n show ?thesis by (simp add: between_clamp assms)
qed

lemma cmd_getrange_runs:
  assumes "ok c"
  shows "runs c (arg c 1) (spec_getrange (arg c 2) (arg c 3)) (cmd_getrange c)"
  using assms
proof (cases rule: typed_cases [of c T_String "arg c 1"])
  case (Alive p v d)
  then obtain s where v: "v = StrObj s" by (auto simp: type_String_iff)
  show ?thesis
  proof (cases "clamp_range (int (length s)) (the (parse_int (arg c 2))) (the (parse_int (arg c 3)))")
    case None
    with Alive v show ?thesis
      by (auto simp: str_defs cmd_getrange_def spec_getrange_def between_clamp split: option.splits)
  next
    case (Some r)
    with Alive v show ?thesis using bulk_range [of s]
      by (cases r) (auto simp: str_defs cmd_getrange_def spec_getrange_def split: option.splits)
  qed
qed (auto simp: str_defs cmd_getrange_def spec_getrange_def)

lemma cmd_setrange_runs:
  assumes "ok c"
  shows "runs c (arg c 1) (spec_setrange (arg c 2) (arg c 3)) (cmd_setrange c)"
proof (cases "\<exists>i. parse_int (arg c 2) = Some i \<and> 0 \<le> i")
  case True
  then obtain i where i: "parse_int (arg c 2) = Some i" "0 \<le> i" by blast
  show ?thesis using assms
    by (cases rule: typed_cases [of c T_String "arg c 1"])
       (use i in \<open>auto simp: str_defs cmd_setrange_def spec_setrange_def db_set Let_def overwrite_patched\<close>)
next
  case False
  with assms show ?thesis
    by (auto simp: run_defs cmd_setrange_def spec_setrange_def peek_def live_def split: option.splits if_splits)
qed

end
