(* ===== verification/Cmd_Generic.thy ===== *)
theory Cmd_Generic
  imports Cmd_Context Kv_Prelude
begin

section \<open>The glob matcher (\<open>glob_match\<close> of \<^verbatim>\<open>src/commands/generic_cmds.cpp\<close>)\<close>

text \<open>
  The matcher of \<open>KEYS\<close> and \<open>SCAN\<close>: two cursors and the position after the last star, with
  backtracking. The loops are those of the source, as recursive functions over the cursors.
\<close>

text \<open>Plain \<open>char\<close> is signed on the supported platforms, so bytes from 128 compare as negative.\<close>

definition schar :: "char \<Rightarrow> int" where
  "schar c = (if byte_val c < 128 then int (byte_val c) else int (byte_val c) - 256)"

text \<open>The inner loop over a bracket class: \<open>q\<close> runs to the closing bracket, \<open>matched\<close> accumulates.\<close>

function class_scan :: "bytes \<Rightarrow> char \<Rightarrow> nat \<Rightarrow> bool \<Rightarrow> nat \<times> bool" where
  "class_scan pat ch q matched =
     (if q < length pat \<and> pat ! q \<noteq> CHR '']'' then
        if q + 2 < length pat \<and> pat ! (q + 1) = CHR ''-'' \<and> pat ! (q + 2) \<noteq> CHR '']'' then
          class_scan pat ch (q + 3)
            (matched \<or> (schar ch \<ge> schar (pat ! q) \<and> schar ch \<le> schar (pat ! (q + 2))))
        else class_scan pat ch (q + 1) (matched \<or> pat ! q = ch)
      else (q, matched))"
  by pat_completeness auto
termination by (relation "measure (\<lambda>(pat, ch, q, m). length pat - q)") auto

declare class_scan.simps [simp del]

text \<open>The cursors \<open>p\<close> and \<open>s\<close>, and the last star: its position and where its match was tried.\<close>

function glob_loop :: "bytes \<Rightarrow> bytes \<Rightarrow> nat \<Rightarrow> nat \<Rightarrow> nat option \<Rightarrow> nat \<Rightarrow> nat option" where
  "glob_loop pat str p s star_p star_s =
     (if s < length str then
        if p < length pat \<and> (pat ! p = CHR ''?'' \<or> pat ! p = str ! s) then
          glob_loop pat str (p + 1) (s + 1) star_p star_s
        else if p < length pat \<and> pat ! p = CHR ''*'' then
          glob_loop pat str (p + 1) s (Some p) s
        else if p < length pat \<and> pat ! p = CHR ''['' then
          (let negate = (p + 1 < length pat \<and> (pat ! (p + 1) = CHR ''^'' \<or> pat ! (p + 1) = CHR ''!''));
               (q, matched) = class_scan pat (str ! s) (if negate then p + 2 else p + 1) False
           in if matched \<noteq> negate then
                glob_loop pat str (if q < length pat then q + 1 else q) (s + 1) star_p star_s
              else (case star_p of
                  Some sp \<Rightarrow> glob_loop pat str (sp + 1) (star_s + 1) star_p (star_s + 1)
                | None \<Rightarrow> None))
        else if p < length pat \<and> pat ! p = CHR 0x5C \<and> p + 1 < length pat \<and> pat ! (p + 1) = str ! s then
          glob_loop pat str (p + 2) (s + 1) star_p star_s
        else (case star_p of
            Some sp \<Rightarrow> glob_loop pat str (sp + 1) (star_s + 1) star_p (star_s + 1)
          | None \<Rightarrow> None)
      else Some p)"
  by pat_completeness auto
termination
  by (relation "measures [\<lambda>(pat, str, p, s, sp, ss). if s < ss then 1 else 0,
      \<lambda>(pat, str, p, s, sp, ss). length str - ss,
      \<lambda>(pat, str, p, s, sp, ss). length str - s,
      \<lambda>(pat, str, p, s, sp, ss). length pat - p]") auto

declare glob_loop.simps [simp del]

definition glob_match :: "bytes \<Rightarrow> bytes \<Rightarrow> bool" where
  "glob_match pat str =
     (case glob_loop pat str 0 0 None 0 of
        None \<Rightarrow> False
      | Some p \<Rightarrow> p + length (takeWhile (\<lambda>c. c = CHR ''*'') (drop p pat)) = length pat)"

section \<open>Generic commands (\<^verbatim>\<open>src/commands/generic_cmds.cpp\<close>)\<close>

text \<open>Deletion, existence, deadlines, enumeration, renaming and introspection of keys.\<close>

definition del_step :: "int \<times> ctx \<Rightarrow> bytes \<Rightarrow> int \<times> ctx" where
  "del_step s key =
     (let (removed, c) = s; (b, c') = db_erase key c in (if b then removed + 1 else removed, c'))"

definition cmd_del :: "ctx \<Rightarrow> ctx" where
  "cmd_del c =
     (let (removed, c1) = foldl del_step (0, c) (drop 1 (c_argv c))
      in r_integer removed (if removed \<noteq> 0 then mark_dirty c1 else c1))"

definition cmd_unlink :: "ctx \<Rightarrow> ctx" where
  "cmd_unlink c = cmd_del c"

definition exists_step :: "int \<times> ctx \<Rightarrow> bytes \<Rightarrow> int \<times> ctx" where
  "exists_step s key =
     (let (count, c) = s; (b, c') = db_exists key c in (if b then count + 1 else count, c'))"

definition cmd_exists :: "ctx \<Rightarrow> ctx" where
  "cmd_exists c =
     (let (count, c1) = foldl exists_step (0, c) (drop 1 (c_argv c)) in r_integer count c1)"

definition set_expire :: "u64 \<Rightarrow> ctx \<Rightarrow> ctx" where
  "set_expire deadline c =
     (let (b, c1) = db_exists (arg c 1) c in
      if \<not> b then r_integer 0 c1
      else r_integer 1 (mark_dirty (db_set_deadline (arg c 1) deadline c1)))"

definition cmd_expire :: "ctx \<Rightarrow> ctx" where
  "cmd_expire c =
     (case parse_int (arg c 2) of
        None \<Rightarrow> err_not_int c
      | Some secs \<Rightarrow> (let (now, c1) = now_ms c in set_expire (now + u64_of_i64 (max 0 secs) * 1000) c1))"

definition cmd_pexpire :: "ctx \<Rightarrow> ctx" where
  "cmd_pexpire c =
     (case parse_int (arg c 2) of
        None \<Rightarrow> err_not_int c
      | Some ms \<Rightarrow> (let (now, c1) = now_ms c in set_expire (now + u64_of_i64 (max 0 ms)) c1))"

definition cmd_expireat :: "ctx \<Rightarrow> ctx" where
  "cmd_expireat c =
     (case parse_int (arg c 2) of
        None \<Rightarrow> err_not_int c
      | Some at \<Rightarrow> set_expire (u64_of_i64 (max 0 at) * 1000) c)"

text \<open>C++ division truncates; it is only reached for a non-negative number of milliseconds. A remaining
  time within 999 of the largest integer would overflow in \<open>ms + 999\<close>.\<close>

definition cmd_ttl :: "ctx \<Rightarrow> ctx" where
  "cmd_ttl c =
     (let (ms, c1) = db_ttl_ms (arg c 1) c in
      if ms < 0 then r_integer ms c1
      else if ms + 999 > i64_max then r_integer (i64_of_u64 (u64_of_i64 (ms + 999)) div 1000) (flag_ub c1)
      else r_integer ((ms + 999) div 1000) c1)"

definition cmd_pttl :: "ctx \<Rightarrow> ctx" where
  "cmd_pttl c = (let (ms, c1) = db_ttl_ms (arg c 1) c in r_integer ms c1)"

definition cmd_persist :: "ctx \<Rightarrow> ctx" where
  "cmd_persist c =
     (let (b, c1) = db_exists (arg c 1) c in
      if \<not> b then r_integer 0 c1
      else let (removed, c2) = db_persist (arg c 1) c1
           in r_integer (if removed then 1 else 0) (if removed then mark_dirty c2 else c2))"

definition cmd_type :: "ctx \<Rightarrow> ctx" where
  "cmd_type c =
     (case db_lookup (arg c 1) c of
        (None, c1) \<Rightarrow> r_simple_string ''none'' c1
      | (Some p, c1) \<Rightarrow> r_simple_string (type_name (obj_type (obj_at c1 p))) c1)"

text \<open>The callbacks of \<open>KEYS\<close> and \<open>SCAN\<close> skip keys past their deadline.\<close>

definition keys_visit :: "keyspace \<Rightarrow> u64 \<Rightarrow> bytes \<Rightarrow> bytes \<Rightarrow> obj \<Rightarrow> bytes list \<Rightarrow> bytes list" where
  "keys_visit db now pat key v acc =
     (let dl = ks_deadline_or_zero key db in
      if dl \<noteq> 0 \<and> dl \<le> now then acc
      else if glob_match pat key then acc @ [key] else acc)"

definition cmd_keys :: "ctx \<Rightarrow> ctx" where
  "cmd_keys c =
     (let (now, c1) = now_ms c;
          matches = ks_for_each (keys_visit (c_db c1) now (arg c 1)) (c_db c1) []
      in foldl (\<lambda>c m. r_bulk m c) (r_array_header (int (length matches)) c1) matches)"

fun scan_type :: "bytes \<Rightarrow> ObjType option" where
  "scan_type t =
     (if t = ''string'' then Some T_String else if t = ''list'' then Some T_List
      else if t = ''hash'' then Some T_Hash else if t = ''set'' then Some T_Set
      else if t = ''zset'' then Some T_ZSet else None)"

fun scan_options :: "bytes list \<Rightarrow> bytes \<Rightarrow> ObjType option \<Rightarrow> bytes \<times> ObjType option" where
  "scan_options (a # b # rest) pat ty =
     (let opt = to_lower a in
      if opt = ''match'' then scan_options rest b ty
      else if opt = ''type'' then scan_options rest pat (scan_type b)
      else scan_options rest pat ty)"
| "scan_options _ pat ty = (pat, ty)"

definition scan_visit ::
  "keyspace \<Rightarrow> u64 \<Rightarrow> bytes \<Rightarrow> ObjType option \<Rightarrow> bytes \<Rightarrow> obj \<Rightarrow> bytes list \<Rightarrow> bytes list" where
  "scan_visit db now pat ty key v acc =
     (let dl = ks_deadline_or_zero key db in
      if dl \<noteq> 0 \<and> dl \<le> now then acc
      else if ty \<noteq> None \<and> ty \<noteq> Some (obj_type v) then acc
      else if glob_match pat key then acc @ [key] else acc)"

definition cmd_scan :: "ctx \<Rightarrow> ctx" where
  "cmd_scan c =
     (let (pat, ty) = scan_options (drop 2 (c_argv c)) ''*'' None;
          (now, c1) = now_ms c;
          found = ks_for_each (scan_visit (c_db c1) now pat ty) (c_db c1) [];
          c2 = r_array_header (int (length found)) (r_bulk ''0'' (r_array_header 2 c1))
      in foldl (\<lambda>c m. r_bulk m c) c2 found)"

definition cmd_rename :: "ctx \<Rightarrow> ctx" where
  "cmd_rename c =
     (case db_lookup (arg c 1) c of
        (None, c1) \<Rightarrow> r_error ''ERR no such key'' c1
      | (Some src, c1) \<Rightarrow>
          (let dl = ks_deadline_or_zero (arg c 1) (c_db c1);
               moved = obj_at c1 src;
               c2 = snd (db_erase (arg c 1) c1);
               c3 = snd (db_set (arg c 2) moved c2);
               c4 = (if dl \<noteq> 0 then db_set_deadline (arg c 2) dl c3 else c3)
           in r_simple_string ''OK'' (mark_dirty c4)))"

definition cmd_randomkey :: "ctx \<Rightarrow> ctx" where
  "cmd_randomkey c =
     (case ks_for_each (\<lambda>key v acc. case acc of None \<Rightarrow> Some key | Some k \<Rightarrow> Some k) (c_db c) None of
        Some picked \<Rightarrow> r_bulk picked c
      | None \<Rightarrow> r_null_bulk c)"

definition object_encoding :: "obj \<Rightarrow> bytes" where
  "object_encoding v =
     (case v of
        StrObj s \<Rightarrow> if parse_int s \<noteq> None then ''int'' else ''embstr''
      | ListObj l \<Rightarrow> ''quicklist''
      | HashObj h \<Rightarrow> ''hashtable''
      | SetObj s \<Rightarrow> ''hashtable''
      | ZSetObj z \<Rightarrow> ''skiplist''
      | HllObj s \<Rightarrow> ''raw'')"

definition cmd_object :: "ctx \<Rightarrow> ctx" where
  "cmd_object c =
     (let sub = to_lower (arg c 1) in
      if argc c < 3 then err_wrong_args c
      else case db_lookup (arg c 2) c of
        (None, c1) \<Rightarrow> r_error ''ERR no such key'' c1
      | (Some p, c1) \<Rightarrow>
          if sub = ''encoding'' then r_bulk (object_encoding (obj_at c1 p)) c1
          else if sub = ''refcount'' then r_integer 1 c1
          else if sub = ''idletime'' then r_integer 0 c1
          else if sub = ''freq'' then r_integer 0 c1
          else err_syntax c1)"

end
