(* ===== verification/Cmd_Generic_Correct.thy ===== *)
theory Cmd_Generic_Correct
  imports Cmd_String_Correct Cmd_Generic
begin

section \<open>Correctness of the generic commands and of \<open>SET\<close>, \<open>MGET\<close>, \<open>MSET\<close>\<close>

text \<open>
  Single-key handlers follow a reference function as in the other command theories. The commands
  over several keys and the enumerating ones get statements of their own. Where a command looks up
  more than one key, the statement fixes the clock during the command.
\<close>

subsection \<open>Reference functions\<close>

definition spec_setnx :: "bytes \<Rightarrow> aentry option \<Rightarrow> outcome" where
  "spec_setnx v e =
     (case e of None \<Rightarrow> (Some (AStr v, None), a_integer 1, True) | Some _ \<Rightarrow> (e, a_integer 0, False))"

definition spec_deadline :: "u64 \<Rightarrow> aentry option \<Rightarrow> outcome" where
  "spec_deadline dl e =
     (case e of None \<Rightarrow> (None, a_integer 0, False)
      | Some (a, _) \<Rightarrow> (Some (a, Some dl), a_integer 1, True))"

definition spec_persist :: "aentry option \<Rightarrow> outcome" where
  "spec_persist e =
     (case e of Some (a, Some _) \<Rightarrow> (Some (a, None), a_integer 1, True) | _ \<Rightarrow> (e, a_integer 0, False))"

definition spec_pttl :: "u64 \<Rightarrow> aentry option \<Rightarrow> outcome" where
  "spec_pttl now e =
     (e, a_integer (case e of None \<Rightarrow> - 2 | Some (_, None) \<Rightarrow> - 1
        | Some (_, Some d) \<Rightarrow> if d > now then i64_of_u64 (d - now) else 0), False)"

definition spec_type :: "aentry option \<Rightarrow> outcome" where
  "spec_type e =
     (e, rb_simple_string (case e of None \<Rightarrow> ''none'' | Some (a, _) \<Rightarrow> type_name (aobj_type a)) [], False)"

subsection \<open>Single-key handlers\<close>

text \<open>The three outcomes of a lookup in the form used below.\<close>

lemma lookup_cases:
  assumes "ok c"
  obtains
    (Gone) db1 where "db_lookup k c = (None, c\<lparr>c_tick := Suc (c_tick c), c_db := db1\<rparr>)" "db_ok db1"
      "db_abs db1 = (db_abs (c_db c))(k := None)" "peek c k = None"
  | (Alive) p v d where "db_lookup k c = (Some p, c\<lparr>c_tick := Suc (c_tick c)\<rparr>)" "db_ok (c_db c)"
      "ks_at (c_db c) k p" "ks_obj (c_db c) p = v" "obj_wf v" "peek c k = Some (obj_abs v, d)"
      "db_abs (c_db c) k = Some (obj_abs v, d)" "(db_abs (c_db c))(k \<mapsto> (obj_abs v, d)) = db_abs (c_db c)"
  using assms
proof (cases rule: db_lookup_cases [where k = k])
  case (Gone db1)
  then show ?thesis by (intro that(1)) (simp_all add: view_def)
next
  case (Alive p v d)
  then show ?thesis using assms by (intro that(2) [of p v d]) (simp_all add: view_def ok_def fun_upd_idem)
qed

lemma cmd_setnx_runs: "ok c \<Longrightarrow> runs c (arg c 1) (spec_setnx (arg c 2)) (cmd_setnx c)"
  by (cases rule: lookup_cases [of c "arg c 1"])
     (auto simp: run_defs cmd_setnx_def spec_setnx_def db_set)

lemma set_expire_runs: "ok c \<Longrightarrow> runs c (arg c 1) (spec_deadline dl) (set_expire dl c)"
  by (cases rule: lookup_cases [of c "arg c 1"])
     (auto simp: run_defs set_expire_def spec_deadline_def db_deadline)

lemma cmd_persist_runs: "ok c \<Longrightarrow> runs c (arg c 1) spec_persist (cmd_persist c)"
  by (cases rule: lookup_cases [of c "arg c 1"])
     (auto simp: run_defs cmd_persist_def spec_persist_def db_persist Let_def split: option.splits)

lemma cmd_type_runs: "ok c \<Longrightarrow> runs c (arg c 1) spec_type (cmd_type c)"
  by (cases rule: lookup_cases [of c "arg c 1"])
     (auto simp: run_defs cmd_type_def spec_type_def)

lemma arg_tick [simp]: "arg (c\<lparr>c_tick := n\<rparr>) i = arg c i"
  by (simp add: arg_def)

lemma ok_tick [simp]: "ok (c\<lparr>c_tick := n\<rparr>) = ok c"
  by (simp add: ok_def)

text \<open>The context after one more reading of the clock.\<close>

definition ticked :: "ctx \<Rightarrow> ctx" where
  "ticked c = c\<lparr>c_tick := c_tick c + 1\<rparr>"

definition reading :: "ctx \<Rightarrow> u64" where
  "reading c = c_clock c (c_tick c)"

lemma arg_ticked [simp]: "arg (ticked c) i = arg c i"
  by (simp add: ticked_def)

lemma ticked_sel [simp]: "c_db (ticked c) = c_db c" "c_out (ticked c) = c_out c" "c_dirty (ticked c) = c_dirty c"
  "c_argv (ticked c) = c_argv c" "c_clock (ticked c) = c_clock c" "view (ticked c) = view c"
  by (simp_all add: ticked_def view_def)

lemma ok_ticked [simp]: "ok (ticked c) = ok c"
  by (simp add: ticked_def)

lemma now_ms_eq: "now_ms c = (reading c, ticked c)"
  by (simp add: now_ms_def reading_def ticked_def)

lemma cmd_expire_runs:
  "ok c \<Longrightarrow> parse_int (arg c 2) = Some s \<Longrightarrow>
   runs (ticked c) (arg c 1) (spec_deadline (reading c + u64_of_i64 (max 0 s) * 1000)) (cmd_expire c)"
  using set_expire_runs [of "ticked c"] by (simp add: cmd_expire_def now_ms_eq)

lemma cmd_pexpire_runs:
  "ok c \<Longrightarrow> parse_int (arg c 2) = Some s \<Longrightarrow>
   runs (ticked c) (arg c 1) (spec_deadline (reading c + u64_of_i64 (max 0 s))) (cmd_pexpire c)"
  using set_expire_runs [of "ticked c"] by (simp add: cmd_pexpire_def now_ms_eq)

lemma cmd_expireat_runs:
  "ok c \<Longrightarrow> parse_int (arg c 2) = Some s \<Longrightarrow>
   runs c (arg c 1) (spec_deadline (u64_of_i64 (max 0 s) * 1000)) (cmd_expireat c)"
  using set_expire_runs [of c] by (simp add: cmd_expireat_def)

definition ttl_of :: "u64 \<Rightarrow> aentry option \<Rightarrow> int" where
  "ttl_of now e = (case e of None \<Rightarrow> - 2 | Some (_, None) \<Rightarrow> - 1
     | Some (_, Some d) \<Rightarrow> if d > now then i64_of_u64 (d - now) else 0)"

lemma db_ttl_eq:
  assumes "ok c"
  shows "db_ttl_ms k c = (ttl_of (c_clock c (Suc (c_tick c))) (peek c k),
     (snd (db_lookup k c))\<lparr>c_tick := Suc (Suc (c_tick c))\<rparr>)"
proof -
  have inv: "ks_inv (c_db c)" using assms by (simp add: ok_def)
  note T = ks_ttl_correct [OF inv, of "c_clock c (c_tick c)" "c_clock c (Suc (c_tick c))" k]
  have "fst (ks_ttl_ms (c_clock c (c_tick c)) (c_clock c (Suc (c_tick c))) k (c_db c)) =
      ttl_of (c_clock c (Suc (c_tick c))) (peek c k)"
    unfolding T(2) by (auto simp: ttl_of_def peek_def view_def live_db_abs split: option.splits)
  then show ?thesis using T(1)
    by (simp add: db_ttl_ms_def now_ms_def db_lookup_eq split_beta prod_eq_iff)
qed

lemma cmd_pttl_runs:
  assumes "ok c"
  shows "runs c (arg c 1) (\<lambda>e. (e, a_integer (ttl_of (c_clock c (Suc (c_tick c))) e), False)) (cmd_pttl c)"
  using assms
  by (cases rule: lookup_cases [of c "arg c 1"])
     (auto simp: run_defs cmd_pttl_def db_ttl_eq [OF assms])

lemma cmd_ttl_runs:
  assumes "ok c" "\<not> c_ub (cmd_ttl c)"
  shows "runs c (arg c 1) (\<lambda>e. let ms = ttl_of (c_clock c (Suc (c_tick c))) e
     in (e, a_integer (if ms < 0 then ms else (ms + 999) div 1000), False)) (cmd_ttl c)"
  using assms(1)
proof (cases rule: lookup_cases [of c "arg c 1"])
  case (Gone db1)
  then show ?thesis using assms(2)
    by (simp add: run_defs cmd_ttl_def db_ttl_eq [OF assms(1)] ttl_of_def Let_def)
next
  case (Alive p v d)
  define ms where "ms = ttl_of (c_clock c (Suc (c_tick c))) (Some (obj_abs v, d))"
  show ?thesis using Alive assms(2)
    by (auto simp: run_defs cmd_ttl_def db_ttl_eq [OF assms(1)] Let_def ms_def [symmetric] split: if_splits)
qed

definition spec_object :: "bytes \<Rightarrow> aentry option \<Rightarrow> outcome" where
  "spec_object sub e =
     (case e of
        None \<Rightarrow> (None, a_error ''ERR no such key'', False)
      | Some (a, d) \<Rightarrow>
          (e, if to_lower sub = ''encoding'' then
                a_bulk (case a of AStr s \<Rightarrow> if parse_int s \<noteq> None then ''int'' else ''embstr''
                  | AList _ \<Rightarrow> ''quicklist'' | AHash _ \<Rightarrow> ''hashtable'' | ASet _ \<Rightarrow> ''hashtable''
                  | AZSet _ \<Rightarrow> ''skiplist'' | AHll _ \<Rightarrow> ''raw'')
              else if to_lower sub = ''refcount'' then a_integer 1
              else if to_lower sub = ''idletime'' \<or> to_lower sub = ''freq'' then a_integer 0
              else a_error ''ERR syntax error'', False))"

lemma err_syntax_eq: "err_syntax c = c\<lparr>c_out := c_out c @ a_error ''ERR syntax error''\<rparr>"
  by (simp add: err_syntax_def reply_eqs)

lemma encoding_abs:
  "object_encoding v = (case obj_abs v of AStr s \<Rightarrow> if parse_int s \<noteq> None then ''int'' else ''embstr''
                  | AList _ \<Rightarrow> ''quicklist'' | AHash _ \<Rightarrow> ''hashtable'' | ASet _ \<Rightarrow> ''hashtable''
                  | AZSet _ \<Rightarrow> ''skiplist'' | AHll _ \<Rightarrow> ''raw'')"
  by (cases v) (simp_all add: object_encoding_def)

lemma cmd_object_runs:
  assumes "ok c" "3 \<le> argc c"
  shows "runs c (arg c 2) (spec_object (arg c 1)) (cmd_object c)"
  using assms(1)
proof (cases rule: lookup_cases [of c "arg c 2"])
  case (Gone db1)
  then show ?thesis using assms(2) by (auto simp: run_defs cmd_object_def spec_object_def)
next
  case (Alive p v d)
  then show ?thesis using assms(2)
    by (simp add: run_defs cmd_object_def spec_object_def encoding_abs err_syntax_eq Let_def)
qed

subsection \<open>\<open>SET\<close> and its variants\<close>

definition setex_error :: bytes where
  "setex_error = a_error (''ERR invalid expire time in '' @ squote @ ''setex'' @ squote @ '' command'')"

definition spec_setex :: "bool \<Rightarrow> bytes \<Rightarrow> bytes \<Rightarrow> u64 \<Rightarrow> aentry option \<Rightarrow> outcome" where
  "spec_setex millis secs v now e =
     (case parse_int secs of
        Some n \<Rightarrow>
          if n > 0 then
            (Some (AStr v, Some (now + (if millis then u64_of_i64 n else u64_of_i64 n * 1000))), a_ok, True)
          else (e, setex_error, False)
      | None \<Rightarrow> (e, setex_error, False))"

lemma db_set_deadline_after:
  assumes "db_ok ks" "obj_wf v"
  shows "db_ok (ks_set_deadline k d (snd (ks_set k v ks)))"
    "db_abs (ks_set_deadline k d (snd (ks_set k v ks))) = (db_abs ks)(k \<mapsto> (obj_abs v, Some d))"
  using db_deadline [of "snd (ks_set k v ks)" k "obj_abs v" None d] db_set [OF assms, of k] by auto

lemma cmd_setex_runs:
  assumes "ok c"
  shows "runs c (arg c 1)
    (spec_setex (to_lower (cmd_name c) = ''psetex'') (arg c 2) (arg c 3) (reading c)) (cmd_setex c)"
  using assms db_set_deadline_after [of "c_db c" "StrObj (arg c 3)" "arg c 1"]
  by (auto simp: run_defs cmd_setex_def spec_setex_def setex_error_def reading_def Let_def a_ok_def
      split: option.splits)

text \<open>Parsing the options of \<open>SET\<close> only reads the clock, and replies when it fails.\<close>

definition opts_done :: "ctx \<Rightarrow> set_opts option \<times> ctx \<Rightarrow> bool" where
  "opts_done c r \<longleftrightarrow> (\<exists>n e. r = (None, c\<lparr>c_tick := n, c_out := c_out c @ e\<rparr>)) \<or>
     (\<exists>n s. r = (Some s, c\<lparr>c_tick := n\<rparr>))"

lemma opts_done_tick: "opts_done (c\<lparr>c_tick := n\<rparr>) r \<Longrightarrow> opts_done c r"
  by (auto simp: opts_done_def)

lemma opts_done_error: "opts_done c (None, r_error e c)"
  unfolding opts_done_def reply_eqs by (intro disjI1 exI [of _ "c_tick c"] exI [of _ "a_error e"]) simp

lemma opts_done_ok: "opts_done c (Some s, c)"
  unfolding opts_done_def by (intro disjI2 exI [of _ "c_tick c"]) simp

lemma set_options_run: "opts_done c (set_options args s c)"
proof (induction "length args" arbitrary: args s c rule: less_induct)
  case less
  show ?case
  proof (cases args)
    case Nil
    then show ?thesis by (simp add: opts_done_ok)
  next
    case (Cons a rest)
    have 1: "opts_done c (set_options rest s' c)" for s' using less [of rest] Cons by simp
    have 2: "opts_done c (set_options (tl rest) s' (c\<lparr>c_tick := Suc (c_tick c)\<rparr>))" for s'
      by (rule opts_done_tick [where n = "Suc (c_tick c)"]) (use less [of "tl rest"] Cons in simp)
    show ?thesis
      using 1 2 opts_done_error [of c]
      by (simp add: Cons Let_def now_ms_def err_syntax_def split: option.split)
  qed
qed

text \<open>\<open>e\<close> is the entry at the first lookup and \<open>t1\<close> the time of the second one, which \<open>XX\<close> makes.\<close>

definition spec_set :: "set_opts \<Rightarrow> bytes \<Rightarrow> u64 \<Rightarrow> aentry option \<Rightarrow> outcome" where
  "spec_set s v t1 e =
     (let old = (case e of Some (AStr x, _) \<Rightarrow> Some x | _ \<Rightarrow> None);
          shown = (case old of Some x \<Rightarrow> a_bulk x | None \<Rightarrow> a_nil)
      in if so_nx s \<and> old \<noteq> None then (e, if so_get s then shown else a_nil, False)
         else if so_xx s \<and> (case e of None \<Rightarrow> True | Some (_, d) \<Rightarrow> due t1 d) then (None, a_nil, False)
         else (Some (AStr v, if so_deadline s \<noteq> 0 then Some (so_deadline s)
                             else if so_keepttl s then (case e of Some (_, d) \<Rightarrow> d | None \<Rightarrow> None)
                             else None),
               if so_get s then shown else a_ok, True))"

lemma set_store_run:
  assumes "db_ok (c_db c)" "db_abs (c_db c) key = e"
  shows "\<exists>db'. set_store key val s c = c\<lparr>c_db := db', c_dirty := True\<rparr> \<and> db_ok db' \<and>
    db_abs db' = (db_abs (c_db c))(key \<mapsto> (AStr val,
      if so_deadline s \<noteq> 0 then Some (so_deadline s)
      else if so_keepttl s then (case e of Some (_, Some d) \<Rightarrow> if d = 0 then None else Some d | _ \<Rightarrow> None)
      else None))"
proof -
  note S = db_set [OF assms(1), of "StrObj val" key]
  note D = db_set_deadline_after [OF assms(1), of "StrObj val" key]
  note Z = db_deadline_or_zero [OF assms(1), of key]
  show ?thesis
    using S D Z assms(2)
    by (cases e; cases "snd (the e)")
       (auto simp: set_store_def op_eqs Let_def intro!: exI)
qed

lemma due_0 [simp]: "due t (Some 0)"
  by simp

lemma spec_set_keep:
  "e = Some (a, d) \<Longrightarrow> \<not> due t d \<Longrightarrow>
     (case e of Some (_, Some d) \<Rightarrow> if d = 0 then None else Some d | _ \<Rightarrow> None) = d"
  by (cases d) auto

definition set_init :: set_opts where
  "set_init = \<lparr>so_deadline = 0, so_nx = False, so_xx = False, so_keepttl = False, so_get = False\<rparr>"

lemma cmd_set_runs:
  assumes "ok c" and opts: "set_options (drop 3 (c_argv c)) set_init c = (Some s, c1)"
  shows "runs c1 (arg c 1) (spec_set s (arg c 2) (c_clock c (Suc (c_tick c1)))) (cmd_set c)"
proof -
  let ?k = "arg c 1" and ?v = "arg c 2"
  from set_options_run [of c "drop 3 (c_argv c)" set_init] obtain n where c1: "c1 = c\<lparr>c_tick := n\<rparr>"
    by (auto simp: opts_done_def opts)
  have ok1: "ok c1" using assms(1) by (simp add: c1)
  note start = cmd_set_def [of c, folded set_init_def, unfolded opts Let_def, simplified]
  show ?thesis using ok1
  proof (cases rule: lookup_cases [of c1 ?k])
    case (Gone db1)
    let ?c2 = "c\<lparr>c_tick := Suc n, c_db := db1\<rparr>"
    have ok2: "ok ?c2" using Gone by (simp add: ok_def)
    have pk: "peek ?c2 ?k = None" using Gone by (simp add: peek_def view_def live_def)
    from set_store_run [of ?c2 ?k None ?v s] Gone obtain db' where
      st: "set_store ?k ?v s ?c2 = ?c2\<lparr>c_db := db', c_dirty := True\<rparr>" "db_ok db'"
      "db_abs db' = (db_abs db1)(?k \<mapsto> (AStr ?v, if so_deadline s \<noteq> 0 then Some (so_deadline s) else None))"
      by (auto split: if_splits)
    show ?thesis
    proof (cases "so_xx s")
      case False
      with Gone st show ?thesis unfolding start
        by (auto simp: run_defs spec_set_def Let_def c1 a_ok_def)
    next
      case True
      from ok2 show ?thesis
      proof (cases rule: lookup_cases [of ?c2 ?k])
        case Gone2: (Gone db2)
        with True Gone show ?thesis unfolding start
          by (auto simp: run_defs spec_set_def Let_def c1)
      qed (use pk in auto)
    qed
  next
    case (Alive p v d)
    let ?c2 = "c\<lparr>c_tick := Suc n\<rparr>"
    have ok2: "ok ?c2" using assms(1) by simp
    have abs: "db_abs (c_db c) ?k = Some (obj_abs v, d)" and nd: "\<not> due (c_clock c n) d"
      using Alive by (simp_all add: c1 peek_def view_def live_Some)
    have pk: "peek ?c2 ?k = (if due (c_clock c (Suc n)) d then None else Some (obj_abs v, d))"
      using abs by (simp add: peek_def view_def live_def)
    define old where "old = (case v of StrObj x \<Rightarrow> Some x | _ \<Rightarrow> None)"
    have old: "(case Some (obj_abs v, d) of Some (AStr x, _) \<Rightarrow> Some x | _ \<Rightarrow> None) = old"
      by (cases v) (simp_all add: old_def)
    have ex: "obj_type v = T_String \<longleftrightarrow> old \<noteq> None" "old = Some x \<Longrightarrow> v = StrObj x" for x
      by (cases v; simp add: old_def)+
    define dl where "dl = (if so_deadline s \<noteq> 0 then Some (so_deadline s) else if so_keepttl s then d else None)"
    have store: "\<exists>db'. set_store ?k ?v s (c\<lparr>c_tick := m\<rparr>) = c\<lparr>c_tick := m, c_db := db', c_dirty := True\<rparr> \<and>
        db_ok db' \<and> db_abs db' = (db_abs (c_db c))(?k \<mapsto> (AStr ?v, dl))" for m
      using set_store_run [of "c\<lparr>c_tick := m\<rparr>" ?k "Some (obj_abs v, d)" ?v s] Alive(2) abs
        spec_set_keep [OF refl nd] by (auto simp: c1 dl_def)
    show ?thesis
    proof (cases "so_nx s \<and> old \<noteq> None")
      case True
      with Alive ex old show ?thesis unfolding start
        by (auto simp: run_defs spec_set_def str_at_def Let_def c1)
    next
      case nx: False
      show ?thesis
      proof (cases "so_xx s")
        case False
        from store [of "Suc n"] obtain db' where
          "set_store ?k ?v s ?c2 = c\<lparr>c_tick := Suc n, c_db := db', c_dirty := True\<rparr>"
          "db_ok db'" "db_abs db' = (db_abs (c_db c))(?k \<mapsto> (AStr ?v, dl))" by blast
        with False nx Alive ex old show ?thesis unfolding start
          by (auto simp: run_defs spec_set_def str_at_def Let_def c1 a_ok_def dl_def)
      next
        case True
        from ok2 show ?thesis
        proof (cases rule: lookup_cases [of ?c2 ?k])
          case Gone2: (Gone db2)
          with True nx Alive ex old pk show ?thesis unfolding start
            by (auto simp: run_defs spec_set_def Let_def c1 split: if_splits)
        next
          case Alive2: (Alive p2 v2 d2)
          from store [of "Suc (Suc n)"] obtain db' where
            "set_store ?k ?v s (c\<lparr>c_tick := Suc (Suc n)\<rparr>) = c\<lparr>c_tick := Suc (Suc n), c_db := db', c_dirty := True\<rparr>"
            "db_ok db'" "db_abs db' = (db_abs (c_db c))(?k \<mapsto> (AStr ?v, dl))" by blast
          note st = this
          have nd2: "\<not> due (c_clock c (Suc n)) d" using pk Alive2 by (auto split: if_splits)
          have l1: "db_lookup ?k c1 = (Some p, ?c2)"
            and l2: "db_lookup ?k ?c2 = (Some p2, c\<lparr>c_tick := Suc (Suc n)\<rparr>)"
            and v: "ks_obj (c_db c) p = v" using Alive Alive2 by (simp_all add: c1)
          show ?thesis
          proof (cases old)
            case None
            then show ?thesis unfolding start using True nx l1 l2 v ex st nd2 Alive(6) old
              by (simp add: run_defs spec_set_def c1 a_ok_def dl_def)
          next
            case (Some x)
            then show ?thesis unfolding start using True nx l1 l2 v ex st nd2 Alive(6) old
              by (simp add: run_defs spec_set_def str_at_def c1 a_ok_def dl_def)
          qed
        qed
      qed
    qed
  qed
qed

end
