(* ===== verification/Cmd_List.thy ===== *)
theory Cmd_List
  imports Cmd_String Cmd_String_Correct
begin

section \<open>List commands (\<^verbatim>\<open>src/commands/list_cmds.cpp\<close>)\<close>

text \<open>A list value is the deque of the source; both ends, ranges and indexing.\<close>

definition get_list :: "bytes \<Rightarrow> ctx \<Rightarrow> nat typed \<times> ctx" where
  "get_list key c = get_typed T_List key c"

text \<open>The pointer of the value, created by \<open>set\<close> when the key was absent.\<close>

definition or_make :: "nat typed \<Rightarrow> bytes \<Rightarrow> obj \<Rightarrow> ctx \<Rightarrow> nat \<times> ctx" where
  "or_make r key fresh c = (case r of Found p \<Rightarrow> (p, c) | _ \<Rightarrow> db_set key fresh c)"

definition push_step :: "bool \<Rightarrow> nat \<Rightarrow> ctx \<Rightarrow> bytes \<Rightarrow> ctx" where
  "push_step head p c a =
     obj_write p (ListObj (if head then a # list_at c p else list_at c p @ [a])) c"

definition push :: "bool \<Rightarrow> ctx \<Rightarrow> ctx" where
  "push head c =
     (let (r, c1) = get_list (arg c 1) c in
      if r = WrongType then err_wrong_type c1
      else
        let (p, c2) = or_make r (arg c 1) make_list c1;
            c3 = mark_dirty (foldl (push_step head p) c2 (drop 2 (c_argv c)))
        in r_integer (int (length (list_at c3 p))) c3)"

fun pop_loop :: "bool \<Rightarrow> nat \<Rightarrow> nat \<Rightarrow> ctx \<Rightarrow> ctx" where
  "pop_loop head p 0 c = c"
| "pop_loop head p (Suc n) c =
     (let l = list_at c p in
      if head then pop_loop head p n (obj_write p (ListObj (tl l)) (r_bulk (hd l) c))
      else pop_loop head p n (obj_write p (ListObj (butlast l)) (r_bulk (last l) c)))"

definition pop :: "bool \<Rightarrow> ctx \<Rightarrow> ctx" where
  "pop head c =
     (let (r, c1) = get_list (arg c 1) c in
      if r = WrongType then err_wrong_type c1
      else
        let has_count = (argc c = 3) in
        case (if has_count then (case parse_int (arg c 2) of
                                   None \<Rightarrow> None | Some n \<Rightarrow> if n < 0 then None else Some n)
              else Some 1) of
          None \<Rightarrow> err_not_int c1
        | Some count \<Rightarrow>
            (case r of
               Found p \<Rightarrow>
                 (let n = min (nat count) (length (list_at c1 p));
                      c2 = (if has_count then r_array_header (int n) c1 else c1);
                      c3 = pop_loop head p n c2;
                      c4 = (if \<not> has_count \<and> n = 0 then r_null_bulk c3 else c3);
                      c5 = (if list_at c4 p = [] then snd (db_erase (arg c 1) c4) else c4)
                  in mark_dirty c5)
             | _ \<Rightarrow> if has_count then r_null_array c1 else r_null_bulk c1))"

definition cmd_lpush :: "ctx \<Rightarrow> ctx" where "cmd_lpush c = push True c"
definition cmd_rpush :: "ctx \<Rightarrow> ctx" where "cmd_rpush c = push False c"
definition cmd_lpop :: "ctx \<Rightarrow> ctx" where "cmd_lpop c = pop True c"
definition cmd_rpop :: "ctx \<Rightarrow> ctx" where "cmd_rpop c = pop False c"

definition cmd_llen :: "ctx \<Rightarrow> ctx" where
  "cmd_llen c =
     (case get_list (arg c 1) c of
        (WrongType, c1) \<Rightarrow> err_wrong_type c1
      | (Absent, c1) \<Rightarrow> r_integer 0 c1
      | (Found p, c1) \<Rightarrow> r_integer (int (length (list_at c1 p))) c1)"

definition cmd_lrange :: "ctx \<Rightarrow> ctx" where
  "cmd_lrange c =
     (let (r, c1) = get_list (arg c 1) c in
      if r = WrongType then err_wrong_type c1
      else case (parse_int (arg c 2), parse_int (arg c 3)) of
        (Some start, Some stop) \<Rightarrow>
          (case r of
             Found p \<Rightarrow>
               (let l = list_at c1 p in
                case clamp_range (int (length l)) start stop of
                  None \<Rightarrow> r_array_header 0 c1
                | Some (a, b) \<Rightarrow>
                    foldl (\<lambda>c i. r_bulk (l ! i) c) (r_array_header (b - a + 1) c1) [nat a..<nat b + 1])
           | _ \<Rightarrow> r_array_header 0 c1)
      | _ \<Rightarrow> err_not_int c1)"

definition list_index :: "int \<Rightarrow> int \<Rightarrow> int option" where
  "list_index len idx0 =
     (let idx = (if idx0 < 0 then idx0 + len else idx0)
      in if idx < 0 \<or> idx \<ge> len then None else Some idx)"

definition cmd_lindex :: "ctx \<Rightarrow> ctx" where
  "cmd_lindex c =
     (let (r, c1) = get_list (arg c 1) c in
      if r = WrongType then err_wrong_type c1
      else case parse_int (arg c 2) of
        None \<Rightarrow> err_not_int c1
      | Some idx \<Rightarrow>
          (case r of
             Found p \<Rightarrow>
               (case list_index (int (length (list_at c1 p))) idx of
                  None \<Rightarrow> r_null_bulk c1
                | Some i \<Rightarrow> r_bulk (list_at c1 p ! nat i) c1)
           | _ \<Rightarrow> r_null_bulk c1))"

definition cmd_lset :: "ctx \<Rightarrow> ctx" where
  "cmd_lset c =
     (case get_list (arg c 1) c of
        (WrongType, c1) \<Rightarrow> err_wrong_type c1
      | (Absent, c1) \<Rightarrow> r_error ''ERR no such key'' c1
      | (Found p, c1) \<Rightarrow>
          (case parse_int (arg c 2) of
             None \<Rightarrow> err_not_int c1
           | Some idx \<Rightarrow>
               (case list_index (int (length (list_at c1 p))) idx of
                  None \<Rightarrow> r_error ''ERR index out of range'' c1
                | Some i \<Rightarrow>
                    r_simple_string ''OK''
                      (mark_dirty (obj_write p (ListObj ((list_at c1 p)[nat i := arg c 3])) c1)))))"

section \<open>Correctness of the list commands\<close>

text \<open>Reference functions on plain lists, and the handlers' refinement of them.\<close>

fun on_list :: "aentry option \<Rightarrow> (bytes list option \<Rightarrow> u64 option \<Rightarrow> outcome) \<Rightarrow> outcome" where
  "on_list None f = f None None"
| "on_list (Some (AList l, d)) f = f (Some l) d"
| "on_list (Some e) f = (Some e, a_wrong_type, False)"

abbreviation items :: "bytes list option \<Rightarrow> bytes list" where
  "items l \<equiv> (case l of None \<Rightarrow> [] | Some l \<Rightarrow> l)"

definition spec_push :: "bool \<Rightarrow> bytes list \<Rightarrow> aentry option \<Rightarrow> outcome" where
  "spec_push head args e =
     on_list e (\<lambda>l d. let l' = (if head then rev args @ items l else items l @ args)
                       in (Some (AList l', d), a_integer (int (length l')), True))"

text \<open>The count argument of the pops: absent, invalid or a number.\<close>

definition pop_count :: "bytes option \<Rightarrow> nat option" where
  "pop_count a =
     (case a of None \<Rightarrow> Some 1
      | Some s \<Rightarrow> (case parse_int s of Some n \<Rightarrow> if n < 0 then None else Some (nat n) | None \<Rightarrow> None))"

definition spec_pop :: "bool \<Rightarrow> bytes option \<Rightarrow> aentry option \<Rightarrow> outcome" where
  "spec_pop head a e =
     on_list e (\<lambda>l d. case pop_count a of
         None \<Rightarrow> (e, a_not_int, False)
       | Some n \<Rightarrow>
           (case l of
              None \<Rightarrow> (None, if a = None then a_nil else a_nil_array, False)
            | Some l \<Rightarrow>
                let taken = (if head then take n l else take n (rev l));
                    left = (if head then drop n l else take (length l - n) l)
                in (if left = [] then None else Some (AList left, d),
                    (if a \<noteq> None then a_array (int (length taken)) else []) @
                      concat (map a_bulk taken) @ (if a = None \<and> taken = [] then a_nil else []),
                    True)))"

definition spec_llen :: "aentry option \<Rightarrow> outcome" where
  "spec_llen e = on_list e (\<lambda>l d. (e, a_integer (int (length (items l))), False))"

definition spec_lrange :: "bytes \<Rightarrow> bytes \<Rightarrow> aentry option \<Rightarrow> outcome" where
  "spec_lrange a b e =
     on_list e (\<lambda>l d. case (parse_int a, parse_int b) of
         (Some x, Some y) \<Rightarrow>
           let r = between (items l) x y in (e, a_array (int (length r)) @ concat (map a_bulk r), False)
       | _ \<Rightarrow> (e, a_not_int, False))"

definition nth_from_end :: "'a list \<Rightarrow> int \<Rightarrow> 'a option" where
  "nth_from_end xs i =
     (let j = from_end (length xs) i in if 0 \<le> j \<and> j < int (length xs) then Some (xs ! nat j) else None)"

definition spec_lindex :: "bytes \<Rightarrow> aentry option \<Rightarrow> outcome" where
  "spec_lindex i e =
     on_list e (\<lambda>l d. case parse_int i of
         None \<Rightarrow> (e, a_not_int, False)
       | Some n \<Rightarrow> (e, case nth_from_end (items l) n of None \<Rightarrow> a_nil | Some x \<Rightarrow> a_bulk x, False))"

definition spec_lset :: "bytes \<Rightarrow> bytes \<Rightarrow> aentry option \<Rightarrow> outcome" where
  "spec_lset i v e =
     on_list e (\<lambda>l d. case l of
         None \<Rightarrow> (e, a_error ''ERR no such key'', False)
       | Some l \<Rightarrow>
           (case parse_int i of
              None \<Rightarrow> (e, a_not_int, False)
            | Some n \<Rightarrow>
                let j = from_end (length l) n in
                if 0 \<le> j \<and> j < int (length l) then (Some (AList (l[nat j := v]), d), a_ok, True)
                else (e, a_error ''ERR index out of range'', False)))"

subsection \<open>The handlers follow the reference functions\<close>

lemma on_list_other: "aobj_type a \<noteq> T_List \<Longrightarrow> on_list (Some (a, d)) f = (Some (a, d), a_wrong_type, False)"
  by (cases a) auto

lemmas list_defs = run_defs get_list_def list_at_def on_list_other type_List_iff

lemma list_index_eq: "list_index (int n) i = (let j = from_end n i in if 0 \<le> j \<and> j < int n then Some j else None)"
  by (auto simp: list_index_def from_end_def Let_def)

lemma push_fold:
  assumes "focus (c_db c) k p (ListObj l) d"
  shows "\<exists>db'. foldl (push_step head p) c args = c\<lparr>c_db := db'\<rparr> \<and>
    refocus (c_db c) k p (ListObj (if head then rev args @ l else l @ args)) d db'"
  using assms
proof (induction args arbitrary: c l)
  case Nil
  then show ?case by (intro exI [of _ "c_db c"]) (simp add: refocus_refl)
next
  case (Cons a args)
  let ?v = "ListObj (if head then a # l else l @ [a])"
  let ?c1 = "obj_write p ?v c"
  have st: "push_step head p c a = ?c1"
    using focusD(2) [OF Cons.prems] by (simp add: push_step_def list_at_def obj_at_def)
  have r1: "refocus (c_db c) k p ?v d (c_db ?c1)"
    using refocus_write [OF Cons.prems, of ?v] by (simp add: obj_write_def)
  then have "focus (c_db ?c1) k p (ListObj (if head then a # l else l @ [a])) d" by (simp add: refocus_def)
  from Cons.IH [OF this] obtain db' where db': "foldl (push_step head p) ?c1 args = ?c1\<lparr>c_db := db'\<rparr>"
    "refocus (c_db ?c1) k p (ListObj (if head then rev args @ (if head then a # l else l @ [a])
       else (if head then a # l else l @ [a]) @ args)) d db'" by blast
  then show ?case
    using refocus_trans [OF r1 db'(2)] st by (intro exI [of _ db']) (simp add: obj_write_def split: if_splits)
qed

lemma push_runs:
  assumes "ok c"
  shows "runs c (arg c 1) (spec_push head (drop 2 (c_argv c))) (push head c)"
  using assms
proof (cases rule: typed_cases [of c T_List "arg c 1"])
  case (Gone db1)
  let ?c1 = "c\<lparr>c_tick := Suc (c_tick c), c_db := snd (ks_set (arg c 1) make_list db1)\<rparr>"
  have "focus (c_db ?c1) (arg c 1) (fst (ks_set (arg c 1) make_list db1)) (ListObj []) None"
    using focus_set [OF Gone(2), of "ListObj []" "arg c 1"] by (simp add: make_list_def)
  from push_fold [OF this, of head "drop 2 (c_argv c)"] obtain db' where db':
    "foldl (push_step head (fst (ks_set (arg c 1) make_list db1))) ?c1 (drop 2 (c_argv c)) = ?c1\<lparr>c_db := db'\<rparr>"
    "refocus (c_db ?c1) (arg c 1) (fst (ks_set (arg c 1) make_list db1))
       (ListObj (if head then rev (drop 2 (c_argv c)) @ [] else [] @ drop 2 (c_argv c))) None db'" by blast
  then show ?thesis using Gone db_set [OF Gone(2), of make_list "arg c 1"]
    by (auto simp: list_defs push_def spec_push_def or_make_def refocus_def focus_def make_list_def Let_def)
next
  case (Wrong a d)
  then show ?thesis by (auto simp: list_defs push_def spec_push_def)
next
  case (Alive p v d)
  then obtain l where v: "v = ListObj l" by (auto simp: type_List_iff)
  let ?c1 = "c\<lparr>c_tick := Suc (c_tick c)\<rparr>"
  from Alive v have "focus (c_db ?c1) (arg c 1) p (ListObj l) d" by (simp add: focus_def)
  from push_fold [OF this, of head "drop 2 (c_argv c)"] obtain db' where
    "foldl (push_step head p) ?c1 (drop 2 (c_argv c)) = ?c1\<lparr>c_db := db'\<rparr>"
    "refocus (c_db ?c1) (arg c 1) p
       (ListObj (if head then rev (drop 2 (c_argv c)) @ l else l @ drop 2 (c_argv c))) d db'" by blast
  then show ?thesis using Alive v
    by (auto simp: list_defs push_def spec_push_def or_make_def refocus_def focus_def Let_def)
qed

lemma cmd_llen_runs: "ok c \<Longrightarrow> runs c (arg c 1) spec_llen (cmd_llen c)"
  by (cases rule: typed_cases [of c T_List "arg c 1"])
     (auto simp: list_defs cmd_llen_def spec_llen_def)

lemma cmd_lindex_runs: "ok c \<Longrightarrow> runs c (arg c 1) (spec_lindex (arg c 2)) (cmd_lindex c)"
  by (cases rule: typed_cases [of c T_List "arg c 1"])
     (auto simp: list_defs cmd_lindex_def spec_lindex_def list_index_eq nth_from_end_def Let_def from_end_def
        split: option.splits)

lemma cmd_lset_runs: "ok c \<Longrightarrow> runs c (arg c 1) (spec_lset (arg c 2) (arg c 3)) (cmd_lset c)"
  by (cases rule: typed_cases [of c T_List "arg c 1"])
     (auto simp: list_defs cmd_lset_def spec_lset_def list_index_eq Let_def db_write a_ok_def
        split: option.splits)

lemma bulk_fold: "foldl (\<lambda>c i. r_bulk (f i) c) c is = c\<lparr>c_out := c_out c @ concat (map (\<lambda>i. a_bulk (f i)) is)\<rparr>"
  by (induction "is" arbitrary: c) (simp_all add: reply_eqs)

lemma between_Nil [simp]: "between [] a b = []"
  by (simp add: between_def)

lemma cmd_lrange_runs:
  assumes "ok c"
  shows "runs c (arg c 1) (spec_lrange (arg c 2) (arg c 3)) (cmd_lrange c)"
  using assms
proof (cases rule: typed_cases [of c T_List "arg c 1"])
  case (Alive p v d)
  then obtain l where v: "v = ListObj l" by (auto simp: type_List_iff)
  show ?thesis
  proof (cases "clamp_range (int (length l)) (the (parse_int (arg c 2))) (the (parse_int (arg c 3)))")
    case None
    with Alive v show ?thesis
      by (auto simp: list_defs cmd_lrange_def spec_lrange_def between_clamp Let_def split: option.splits)
  next
    case (Some r)
    then obtain x y where r: "r = (x, y)" by (cases r)
    note cl = clamp_range_cases [OF Some [unfolded r]]
    have "length (between l (the (parse_int (arg c 2))) (the (parse_int (arg c 3)))) = nat (y - x + 1)"
    proof -
      have "nat y + 1 - nat x = nat (y - x + 1)" using cl by arith
      then show ?thesis by (simp add: between_clamp Some r del: upt_Suc)
    qed
    then have len: "int (length (between l (the (parse_int (arg c 2))) (the (parse_int (arg c 3))))) = y - x + 1"
      using cl by simp
    have "foldl (\<lambda>c i. r_bulk (l ! i) c) c' [nat x..<nat y + 1] =
      c'\<lparr>c_out := c_out c' @ concat (map a_bulk (between l (the (parse_int (arg c 2))) (the (parse_int (arg c 3)))))\<rparr>" for c'
      by (simp add: bulk_fold between_clamp Some r comp_def del: upt_Suc)
    with Alive v Some r len show ?thesis
      by (auto simp: list_defs cmd_lrange_def spec_lrange_def Let_def simp del: upt_Suc split: option.splits)
  qed
qed (auto simp: list_defs cmd_lrange_def spec_lrange_def Let_def split: option.splits)

lemma pop_loop_run:
  assumes "focus (c_db c) k p (ListObj l) d" "n \<le> length l"
  shows "\<exists>db'. pop_loop head p n c =
      c\<lparr>c_db := db', c_out := c_out c @ concat (map a_bulk (if head then take n l else take n (rev l)))\<rparr> \<and>
    refocus (c_db c) k p (ListObj (if head then drop n l else take (length l - n) l)) d db'"
  using assms
proof (induction n arbitrary: c l)
  case 0
  then show ?case by (intro exI [of _ "c_db c"]) (simp add: refocus_refl)
next
  case (Suc n)
  let ?x = "if head then hd l else last l"
  let ?l = "if head then tl l else butlast l"
  let ?c1 = "obj_write p (ListObj ?l) (r_bulk ?x c)"
  have st: "pop_loop head p (Suc n) c = pop_loop head p n ?c1"
    using focusD(2) [OF Suc.prems(1)] by (simp add: list_at_def obj_at_def)
  have r1: "refocus (c_db c) k p (ListObj ?l) d (c_db ?c1)"
    using refocus_write [OF Suc.prems(1), of "ListObj ?l"] by (simp add: obj_write_def r_bulk_def)
  then have f: "focus (c_db ?c1) k p (ListObj ?l) d" by (simp add: refocus_def)
  have n: "n \<le> length ?l" using Suc.prems(2) by simp
  have l: "l \<noteq> []" using Suc.prems(2) by auto
  from Suc.IH [OF f n] obtain db' where db': "pop_loop head p n ?c1 =
      ?c1\<lparr>c_db := db', c_out := c_out ?c1 @ concat (map a_bulk (if head then take n ?l else take n (rev ?l)))\<rparr>"
    "refocus (c_db ?c1) k p (ListObj (if head then drop n ?l else take (length ?l - n) ?l)) d db'" by blast
  have taken: "a_bulk ?x @ concat (map a_bulk (if head then take n ?l else take n (rev ?l))) =
      concat (map a_bulk (if head then take (Suc n) l else take (Suc n) (rev l)))"
  proof (cases head)
    case True
    with l show ?thesis by (cases l) simp_all
  next
    case False
    with l show ?thesis by (cases l rule: rev_cases) simp_all
  qed
  have left: "(if head then drop n ?l else take (length ?l - n) ?l) =
      (if head then drop (Suc n) l else take (length l - Suc n) l)"
  proof (cases head)
    case True
    with l show ?thesis by (cases l) simp_all
  next
    case False
    with l show ?thesis by (cases l rule: rev_cases) simp_all
  qed
  show ?case unfolding st db'(1)
    using refocus_trans [OF r1 db'(2)] taken left
    by (intro exI [of _ db']) (simp add: obj_write_def reply_eqs)
qed

definition pop_arg :: "ctx \<Rightarrow> bytes option" where
  "pop_arg c = (if argc c = 3 then Some (arg c 2) else None)"

lemma pop_runs:
  assumes "ok c"
  shows "runs c (arg c 1) (spec_pop head (pop_arg c)) (pop head c)"
  using assms
proof (cases rule: typed_cases [of c T_List "arg c 1"])
  case (Alive p v d)
  then obtain l where v: "v = ListObj l" by (auto simp: type_List_iff)
  show ?thesis
  proof (cases "pop_count (pop_arg c)")
    case None
    with Alive v show ?thesis
      by (auto simp: list_defs pop_def spec_pop_def pop_count_def pop_arg_def argc_def arg_def Let_def
          split: option.splits if_splits)
  next
    case (Some n)
    then have cnt: "(if argc c = 3 then (case parse_int (arg c 2) of
        None \<Rightarrow> None | Some n \<Rightarrow> if n < 0 then None else Some n) else Some 1) = Some (int n)"
      by (auto simp: pop_count_def pop_arg_def split: option.splits if_splits)
    define m where "m = min n (length l)"
    let ?c1 = "c\<lparr>c_tick := Suc (c_tick c)\<rparr>"
    let ?c2 = "if argc c = 3 then r_array_header (int m) ?c1 else ?c1"
    from Alive v have f: "focus (c_db ?c2) (arg c 1) p (ListObj l) d" by (simp add: focus_def reply_eqs)
    let ?left = "if head then drop m l else take (length l - m) l"
    from pop_loop_run [OF f, of m head] obtain db' where db': "pop_loop head p m ?c2 =
       ?c2\<lparr>c_db := db', c_out := c_out ?c2 @ concat (map a_bulk (if head then take m l else take m (rev l)))\<rparr>"
      "refocus (c_db ?c2) (arg c 1) p (ListObj ?left) d db'" by (auto simp: m_def)
    note f' = db'(2) [unfolded refocus_def focus_def]
    define L where "L = ?left"
    define T where "T = (if head then take m l else take m (rev l))"
    have L: "L = (if head then drop n l else take (length l - n) l)" by (auto simp: L_def m_def min_def)
    have T: "T = (if head then take n l else take n (rev l))" by (auto simp: T_def m_def min_def)
    have "length T = m" by (auto simp: T_def m_def)
    then have spec: "spec_pop head (pop_arg c) (Some (AList l, d)) =
        (if L = [] then None else Some (AList L, d),
         (if argc c = 3 then a_array (int m) else []) @ concat (map a_bulk T) @
           (if argc c \<noteq> 3 \<and> m = 0 then a_nil else []), True)"
      using Some by (auto simp: spec_pop_def pop_arg_def Let_def L [symmetric] T [symmetric])
    have out: "pop head c = (let c3 = pop_loop head p m ?c2;
          c4 = (if argc c \<noteq> 3 \<and> m = 0 then r_null_bulk c3 else c3);
          c5 = (if list_at c4 p = [] then snd (db_erase (arg c 1) c4) else c4) in mark_dirty c5)"
      using Alive v cnt by (simp add: pop_def get_list_def list_at_def obj_at_def Let_def argc_def arg_def m_def [symmetric])
    have "runs c (arg c 1) (spec_pop head (pop_arg c)) (let c3 = pop_loop head p m ?c2;
          c4 = (if argc c \<noteq> 3 \<and> m = 0 then r_null_bulk c3 else c3);
          c5 = (if list_at c4 p = [] then snd (db_erase (arg c 1) c4) else c4) in mark_dirty c5)"
      using Alive v spec f' [folded L_def] db_erase [of db' "arg c 1"]
      by (auto simp: db'(1) [folded T_def] list_defs Let_def)
    then show ?thesis by (simp only: out)
  qed
qed (auto simp: list_defs pop_def spec_pop_def pop_count_def pop_arg_def argc_def arg_def Let_def
       split: option.splits if_splits)

end
