(* ===== verification/Cmd_Set.thy ===== *)
theory Cmd_Set
  imports Cmd_List
begin

section \<open>Set commands (\<^verbatim>\<open>src/commands/set_cmds.cpp\<close>)\<close>

text \<open>A set value is a Swiss table from members to the byte 1.\<close>

definition get_set :: "bytes \<Rightarrow> ctx \<Rightarrow> nat typed \<times> ctx" where
  "get_set key c = get_typed T_Set key c"

definition sadd_step :: "nat \<Rightarrow> int \<times> ctx \<Rightarrow> bytes \<Rightarrow> int \<times> ctx" where
  "sadd_step p s a =
     (let (added, c) = s; (t, slot, inserted) = sw_insert set_params (set_at c p) a 1
      in (if inserted then added + 1 else added, obj_write p (SetObj t) c))"

definition cmd_sadd :: "ctx \<Rightarrow> ctx" where
  "cmd_sadd c =
     (let (r, c1) = get_set (arg c 1) c in
      if r = WrongType then err_wrong_type c1
      else
        let (p, c2) = or_make r (arg c 1) make_set c1;
            (added, c3) = foldl (sadd_step p) (0, c2) (drop 2 (c_argv c))
        in r_integer added (if added \<noteq> 0 then mark_dirty c3 else c3))"

definition srem_step :: "nat \<Rightarrow> int \<times> ctx \<Rightarrow> bytes \<Rightarrow> int \<times> ctx" where
  "srem_step p s a =
     (let (removed, c) = s; (t, b) = sw_erase set_params (set_at c p) a
      in (if b then removed + 1 else removed, obj_write p (SetObj t) c))"

definition cmd_srem :: "ctx \<Rightarrow> ctx" where
  "cmd_srem c =
     (case get_set (arg c 1) c of
        (WrongType, c1) \<Rightarrow> err_wrong_type c1
      | (Absent, c1) \<Rightarrow> r_integer 0 c1
      | (Found p, c1) \<Rightarrow>
          (let (removed, c2) = foldl (srem_step p) (0, c1) (drop 2 (c_argv c));
               c3 = (if sw_size (set_at c2 p) = 0 then snd (db_erase (arg c 1) c2) else c2)
           in r_integer removed (if removed \<noteq> 0 then mark_dirty c3 else c3)))"

definition cmd_sismember :: "ctx \<Rightarrow> ctx" where
  "cmd_sismember c =
     (case get_set (arg c 1) c of
        (WrongType, c1) \<Rightarrow> err_wrong_type c1
      | (Absent, c1) \<Rightarrow> r_integer 0 c1
      | (Found p, c1) \<Rightarrow>
          r_integer (if sw_find set_params (set_at c1 p) (arg c 2) \<noteq> None then 1 else 0) c1)"

definition cmd_scard :: "ctx \<Rightarrow> ctx" where
  "cmd_scard c =
     (case get_set (arg c 1) c of
        (WrongType, c1) \<Rightarrow> err_wrong_type c1
      | (Absent, c1) \<Rightarrow> r_integer 0 c1
      | (Found p, c1) \<Rightarrow> r_integer (int (sw_size (set_at c1 p))) c1)"

definition cmd_smembers :: "ctx \<Rightarrow> ctx" where
  "cmd_smembers c =
     (case get_set (arg c 1) c of
        (WrongType, c1) \<Rightarrow> err_wrong_type c1
      | (Absent, c1) \<Rightarrow> r_array_header 0 c1
      | (Found p, c1) \<Rightarrow>
          sw_for_each (\<lambda>m x c. r_bulk m c) (set_at c1 p)
            (r_array_header (int (sw_size (set_at c1 p))) c1))"

definition spop_visit :: "nat \<Rightarrow> bytes \<Rightarrow> u8 \<Rightarrow> bytes list \<Rightarrow> bytes list" where
  "spop_visit want m x picked = (if length picked < want then picked @ [m] else picked)"

definition spop_erase :: "nat \<Rightarrow> ctx \<Rightarrow> bytes \<Rightarrow> ctx" where
  "spop_erase p c m = obj_write p (SetObj (fst (sw_erase set_params (set_at c p) m))) c"

definition cmd_spop :: "ctx \<Rightarrow> ctx" where
  "cmd_spop c =
     (let (r, c1) = get_set (arg c 1) c in
      if r = WrongType then err_wrong_type c1
      else
        let has_count = (argc c = 3) in
        case (if has_count then (case parse_int (arg c 2) of
                                   None \<Rightarrow> None | Some n \<Rightarrow> if n < 0 then None else Some n)
              else Some 1) of
          None \<Rightarrow> err_not_int c1
        | Some count \<Rightarrow>
            (case r of
               Found p \<Rightarrow>
                 (let want = (if has_count then nat count else 1);
                      picked = sw_for_each (spop_visit want) (set_at c1 p) [];
                      c2 = foldl (spop_erase p) c1 picked;
                      c3 = (if sw_size (set_at c2 p) = 0 then snd (db_erase (arg c 1) c2) else c2);
                      c4 = (if picked \<noteq> [] then mark_dirty c3 else c3)
                  in if has_count then
                       foldl (\<lambda>c m. r_bulk m c) (r_array_header (int (length picked)) c4) picked
                     else if picked = [] then r_null_bulk c4
                     else r_bulk (hd picked) c4)
             | _ \<Rightarrow> if has_count then r_array_header 0 c1 else r_null_bulk c1))"

section \<open>Correctness of the set commands\<close>

text \<open>
  Reference functions on plain sets, and the handlers' refinement of them. \<open>SMEMBERS\<close> and \<open>SPOP\<close> show
  the table's order, so their references take the enumeration as an argument.
\<close>

fun on_set :: "aentry option \<Rightarrow> (bytes set option \<Rightarrow> u64 option \<Rightarrow> outcome) \<Rightarrow> outcome" where
  "on_set None f = f None None"
| "on_set (Some (ASet s, d)) f = f (Some s) d"
| "on_set (Some e) f = (Some e, a_wrong_type, False)"

abbreviation members :: "bytes set option \<Rightarrow> bytes set" where
  "members s \<equiv> (case s of None \<Rightarrow> {} | Some s \<Rightarrow> s)"

definition set_entry :: "bytes set \<Rightarrow> u64 option \<Rightarrow> aentry option" where
  "set_entry s d = (if s = {} then None else Some (ASet s, d))"

definition spec_sadd :: "bytes list \<Rightarrow> aentry option \<Rightarrow> outcome" where
  "spec_sadd args e =
     on_set e (\<lambda>s d. let added = card (set args - members s)
                     in (Some (ASet (members s \<union> set args), d), a_integer (int added), \<not> set args \<subseteq> members s))"

definition spec_srem :: "bytes list \<Rightarrow> aentry option \<Rightarrow> outcome" where
  "spec_srem args e =
     on_set e (\<lambda>s d. case s of
         None \<Rightarrow> (None, a_integer 0, False)
       | Some s \<Rightarrow> let removed = card (set args \<inter> s)
                   in (set_entry (s - set args) d, a_integer (int removed), set args \<inter> s \<noteq> {}))"

definition spec_sismember :: "bytes \<Rightarrow> aentry option \<Rightarrow> outcome" where
  "spec_sismember a e = on_set e (\<lambda>s d. (e, a_integer (if a \<in> members s then 1 else 0), False))"

definition spec_scard :: "aentry option \<Rightarrow> outcome" where
  "spec_scard e = on_set e (\<lambda>s d. (e, a_integer (int (card (members s))), False))"

definition spec_smembers :: "bytes list \<Rightarrow> aentry option \<Rightarrow> outcome" where
  "spec_smembers ms e = on_set e (\<lambda>s d. (e, a_array (int (length ms)) @ concat (map a_bulk ms), False))"

text \<open>\<open>ms\<close> are the members popped.\<close>

definition spec_spop :: "bytes option \<Rightarrow> bytes list \<Rightarrow> aentry option \<Rightarrow> outcome" where
  "spec_spop a ms e =
     on_set e (\<lambda>s d. case pop_count a of
         None \<Rightarrow> (e, a_not_int, False)
       | Some n \<Rightarrow>
           (case s of
              None \<Rightarrow> (None, if a = None then a_nil else a_array 0, False)
            | Some s \<Rightarrow>
                (set_entry (s - set ms) d,
                 (if a \<noteq> None then a_array (int (length ms)) @ concat (map a_bulk ms)
                  else if ms = [] then a_nil else a_bulk (hd ms)),
                 ms \<noteq> [])))"

text \<open>The members of the entry a lookup sees now.\<close>

definition peek_set :: "ctx \<Rightarrow> bytes \<Rightarrow> bytes set" where
  "peek_set c k = (case peek c k of Some (ASet s, d) \<Rightarrow> s | _ \<Rightarrow> {})"

subsection \<open>The handlers follow the reference functions\<close>

lemma on_set_other: "aobj_type a \<noteq> T_Set \<Longrightarrow> on_set (Some (a, d)) f = (Some (a, d), a_wrong_type, False)"
  by (cases a) auto

lemmas set_defs = run_defs get_set_def set_at_def on_set_other type_Set_iff

lemma focus_set_at: "focus (c_db c) k p (SetObj t) d \<Longrightarrow> set_at c p = t \<and> sw_inv set_params t"
  by (auto simp: focus_def set_at_def obj_at_def)

lemma set_write_refocus:
  assumes "focus (c_db c) k p v d" "sw_inv set_params t"
  shows "refocus (c_db c) k p (SetObj t) d (c_db (obj_write p (SetObj t) c))"
  using refocus_write [OF assms(1), of "SetObj t"] assms(2) by (simp add: obj_write_def)

lemma refocus_focus: "refocus db k p v d db' \<Longrightarrow> focus db' k p v d"
  by (simp add: refocus_def)

lemma obj_write_db [simp]: "(obj_write p v c)\<lparr>c_db := db'\<rparr> = c\<lparr>c_db := db'\<rparr>"
  by (simp add: obj_write_def)

lemma sadd_fold:
  assumes "focus (c_db c) k p (SetObj t) d"
  shows "\<exists>db' t'. foldl (sadd_step p) (n, c) args =
      (n + int (card (set args - dom (sw_abs t))), c\<lparr>c_db := db'\<rparr>) \<and>
    refocus (c_db c) k p (SetObj t') d db' \<and> dom (sw_abs t') = dom (sw_abs t) \<union> set args"
  using assms
proof (induction args arbitrary: n c t)
  case Nil
  then show ?case by (intro exI [of _ "c_db c"] exI [of _ t]) (simp add: refocus_refl)
next
  case (Cons a args)
  let ?t = "fst (sw_insert set_params t a 1)"
  note t = focus_set_at [OF Cons.prems]
  have inv: "sw_inv set_params ?t" and ab: "dom (sw_abs ?t) = insert a (dom (sw_abs t))"
    using t by (simp_all add: sw.inv_insert sw.abs_insert)
  let ?c = "obj_write p (SetObj ?t) c"
  let ?n = "if a \<in> dom (sw_abs t) then n else n + 1"
  have st: "sadd_step p (n, c) a = (?n, ?c)"
    using t by (simp add: sadd_step_def split_beta sw.insert_flag domIff)
  note r1 = set_write_refocus [OF Cons.prems inv]
  from Cons.IH [OF refocus_focus [OF r1], of ?n] obtain db' t' where
    f: "foldl (sadd_step p) (?n, ?c) args = (?n + int (card (set args - dom (sw_abs ?t))), ?c\<lparr>c_db := db'\<rparr>)"
    and r2: "refocus (c_db ?c) k p (SetObj t') d db'"
    and d: "dom (sw_abs t') = dom (sw_abs ?t) \<union> set args" by blast
  have "?n + int (card (set args - dom (sw_abs ?t))) = n + int (card (set (a # args) - dom (sw_abs t)))"
  proof (cases "a \<in> dom (sw_abs t)")
    case True
    then show ?thesis by (simp add: ab insert_absorb)
  next
    case False
    have "set (a # args) - dom (sw_abs t) = insert a (set args - dom (sw_abs ?t))"
      using False ab by auto
    moreover have "a \<notin> set args - dom (sw_abs ?t)" using ab by simp
    ultimately show ?thesis using False by simp
  qed
  then show ?case using f refocus_trans [OF r1 r2] d ab
    by (intro exI [of _ db'] exI [of _ t']) (simp add: st)
qed

lemma make_set_wf: "obj_wf make_set" "obj_abs make_set = ASet {}"
  by (simp_all add: make_set_def sw.inv_new sw.abs_new)

lemma cmd_sadd_runs:
  assumes "ok c"
  shows "runs c (arg c 1) (spec_sadd (drop 2 (c_argv c))) (cmd_sadd c)"
  using assms
proof (cases rule: typed_cases [of c T_Set "arg c 1"])
  case (Gone db1)
  let ?p = "fst (ks_set (arg c 1) make_set db1)"
  let ?c1 = "c\<lparr>c_tick := Suc (c_tick c), c_db := snd (ks_set (arg c 1) make_set db1)\<rparr>"
  have "focus (c_db ?c1) (arg c 1) ?p (SetObj (sw_new set_params)) None"
    using focus_set [OF Gone(2) make_set_wf(1), of "arg c 1"] by (simp add: make_set_def)
  from sadd_fold [OF this, of 0 "drop 2 (c_argv c)"] obtain db' t' where
    "foldl (sadd_step ?p) (0, ?c1) (drop 2 (c_argv c)) =
      (int (card (set (drop 2 (c_argv c)))), ?c1\<lparr>c_db := db'\<rparr>)"
    "refocus (c_db ?c1) (arg c 1) ?p (SetObj t') None db'" "dom (sw_abs t') = set (drop 2 (c_argv c))"
    by (auto simp: sw.abs_new)
  then show ?thesis using Gone db_set [OF Gone(2) make_set_wf(1), of "arg c 1"]
    by (auto simp: set_defs cmd_sadd_def spec_sadd_def or_make_def card_gt_0_iff refocus_def focus_def Let_def)
next
  case (Wrong a d)
  then show ?thesis by (auto simp: set_defs cmd_sadd_def spec_sadd_def)
next
  case (Alive p v d)
  then obtain t where v: "v = SetObj t" by (auto simp: type_Set_iff)
  let ?c1 = "c\<lparr>c_tick := Suc (c_tick c)\<rparr>"
  from Alive v have "focus (c_db ?c1) (arg c 1) p (SetObj t) d" by (simp add: focus_def)
  from sadd_fold [OF this, of 0 "drop 2 (c_argv c)"] obtain db' t' where
    "foldl (sadd_step p) (0, ?c1) (drop 2 (c_argv c)) =
      (int (card (set (drop 2 (c_argv c)) - dom (sw_abs t))), ?c1\<lparr>c_db := db'\<rparr>)"
    "refocus (c_db ?c1) (arg c 1) p (SetObj t') d db'"
    "dom (sw_abs t') = dom (sw_abs t) \<union> set (drop 2 (c_argv c))" by auto
  then show ?thesis using Alive v
    by (auto simp: set_defs cmd_sadd_def spec_sadd_def or_make_def card_gt_0_iff refocus_def focus_def Let_def)
qed

lemma srem_fold:
  assumes "focus (c_db c) k p (SetObj t) d"
  shows "\<exists>db' t'. foldl (srem_step p) (n, c) args =
      (n + int (card (set args \<inter> dom (sw_abs t))), c\<lparr>c_db := db'\<rparr>) \<and>
    refocus (c_db c) k p (SetObj t') d db' \<and> dom (sw_abs t') = dom (sw_abs t) - set args"
  using assms
proof (induction args arbitrary: n c t)
  case Nil
  then show ?case by (intro exI [of _ "c_db c"] exI [of _ t]) (simp add: refocus_refl)
next
  case (Cons a args)
  let ?t = "fst (sw_erase set_params t a)"
  note t = focus_set_at [OF Cons.prems]
  have inv: "sw_inv set_params ?t" and ab: "dom (sw_abs ?t) = dom (sw_abs t) - {a}"
    using t by (simp_all add: sw.inv_erase sw.abs_erase)
  let ?c = "obj_write p (SetObj ?t) c"
  let ?n = "if a \<in> dom (sw_abs t) then n + 1 else n"
  have st: "srem_step p (n, c) a = (?n, ?c)"
    using t by (simp add: srem_step_def split_beta sw.erase_flag domIff)
  note r1 = set_write_refocus [OF Cons.prems inv]
  from Cons.IH [OF refocus_focus [OF r1], of ?n] obtain db' t' where
    f: "foldl (srem_step p) (?n, ?c) args = (?n + int (card (set args \<inter> dom (sw_abs ?t))), ?c\<lparr>c_db := db'\<rparr>)"
    and r2: "refocus (c_db ?c) k p (SetObj t') d db'"
    and d: "dom (sw_abs t') = dom (sw_abs ?t) - set args" by blast
  have "?n + int (card (set args \<inter> dom (sw_abs ?t))) = n + int (card (set (a # args) \<inter> dom (sw_abs t)))"
  proof (cases "a \<in> dom (sw_abs t)")
    case True
    then have "set (a # args) \<inter> dom (sw_abs t) = insert a (set args \<inter> dom (sw_abs ?t))"
      using ab by auto
    moreover have "a \<notin> set args \<inter> dom (sw_abs ?t)" using ab by simp
    ultimately show ?thesis using True by simp
  next
    case False
    then have "set (a # args) \<inter> dom (sw_abs t) = set args \<inter> dom (sw_abs ?t)"
      using ab by auto
    then show ?thesis using False by simp
  qed
  then show ?case using f refocus_trans [OF r1 r2] d ab
    by (intro exI [of _ db'] exI [of _ t']) (auto simp: st)
qed

lemma set_size_0: "sw_inv set_params t \<Longrightarrow> sw_size t = 0 \<longleftrightarrow> dom (sw_abs t) = {}"
  by (simp add: sw.size_0_iff)

lemma cmd_srem_runs:
  assumes "ok c"
  shows "runs c (arg c 1) (spec_srem (drop 2 (c_argv c))) (cmd_srem c)"
  using assms
proof (cases rule: typed_cases [of c T_Set "arg c 1"])
  case (Alive p v d)
  then obtain t where v: "v = SetObj t" by (auto simp: type_Set_iff)
  let ?c1 = "c\<lparr>c_tick := Suc (c_tick c)\<rparr>"
  from Alive v have "focus (c_db ?c1) (arg c 1) p (SetObj t) d" by (simp add: focus_def)
  from srem_fold [OF this, of 0 "drop 2 (c_argv c)"] obtain db' t' where
    f: "foldl (srem_step p) (0, ?c1) (drop 2 (c_argv c)) =
      (int (card (set (drop 2 (c_argv c)) \<inter> dom (sw_abs t))), ?c1\<lparr>c_db := db'\<rparr>)"
    and r: "refocus (c_db ?c1) (arg c 1) p (SetObj t') d db'"
    and t': "dom (sw_abs t') = dom (sw_abs t) - set (drop 2 (c_argv c))" by auto
  note r' = r [unfolded refocus_def focus_def]
  have "sw_inv set_params t'" using r' by simp
  from set_size_0 [OF this] show ?thesis using Alive v f r' t' db_erase [of db' "arg c 1"]
    by (auto simp: set_defs cmd_srem_def spec_srem_def set_entry_def card_gt_0_iff Let_def)
qed (auto simp: set_defs cmd_srem_def spec_srem_def)

lemma find_ne: "sw_inv T t \<Longrightarrow> (sw_find T t a \<noteq> None) = (a \<in> dom (sw_abs t))"
  using sw.find_None [of T t a] by (auto simp: domIff)

lemma cmd_sismember_runs:
  assumes "ok c"
  shows "runs c (arg c 1) (spec_sismember (arg c 2)) (cmd_sismember c)"
  using assms
proof (cases rule: typed_cases [of c T_Set "arg c 1"])
  case (Alive p v d)
  then obtain t where v: "v = SetObj t" by (auto simp: type_Set_iff)
  with Alive have "sw_inv set_params t" by simp
  note m = find_ne [OF this, of "arg c 2"]
  show ?thesis using Alive v m by (simp add: set_defs cmd_sismember_def spec_sismember_def)
qed (auto simp: set_defs cmd_sismember_def spec_sismember_def)

lemma cmd_scard_runs: "ok c \<Longrightarrow> runs c (arg c 1) spec_scard (cmd_scard c)"
  by (cases rule: typed_cases [of c T_Set "arg c 1"])
     (auto simp: set_defs cmd_scard_def spec_scard_def sw.size_card)

subsection \<open>Enumeration\<close>

lemma fold_entry_bulks:
  "foldl (\<lambda>c (k, v). r_bulk (f k v) c) c xs = c\<lparr>c_out := c_out c @ concat (map (\<lambda>(k, v). a_bulk (f k v)) xs)\<rparr>"
  by (induction xs arbitrary: c) (auto simp: reply_eqs)

lemma entries_members:
  assumes "sw_inv T t"
  shows "distinct (map fst (sw_entries t))" "set (map fst (sw_entries t)) = dom (sw_abs t)"
    "length (sw_entries t) = sw_size t"
  using sw.entries_distinct [OF assms] sw.entries_dom [OF assms] sw.size_entries [OF assms] by simp_all

lemma for_each_members:
  "sw_for_each (\<lambda>m x c. r_bulk m c) t c =
     c\<lparr>c_out := c_out c @ concat (map a_bulk (map fst (sw_entries t)))\<rparr>"
  using fold_entry_bulks [of "\<lambda>k v. k" c "sw_entries t"]
  by (simp add: sw_for_each_def comp_def case_prod_unfold)

lemma cmd_smembers_runs:
  assumes "ok c"
  shows "\<exists>ms. distinct ms \<and> set ms = peek_set c (arg c 1) \<and>
    runs c (arg c 1) (spec_smembers ms) (cmd_smembers c)"
  using assms
proof (cases rule: typed_cases [of c T_Set "arg c 1"])
  case (Gone db1)
  then show ?thesis
    by (intro exI [of _ "[]"]) (auto simp: set_defs cmd_smembers_def spec_smembers_def peek_set_def)
next
  case (Wrong a d)
  have m: "peek_set c (arg c 1) = {}" using Wrong(3,4) by (cases a) (auto simp: peek_set_def)
  show ?thesis
    using Wrong m by (intro exI [of _ "[]"]) (auto simp: set_defs cmd_smembers_def spec_smembers_def)
next
  case (Alive p v d)
  then obtain t where v: "v = SetObj t" by (auto simp: type_Set_iff)
  with Alive have inv: "sw_inv set_params t" by simp
  show ?thesis
    using Alive v entries_members [OF inv]
    by (intro exI [of _ "map fst (sw_entries t)"])
       (auto simp: set_defs cmd_smembers_def spec_smembers_def peek_set_def for_each_members)
qed

lemma spop_pick: "sw_for_each (spop_visit want) t [] = map fst (take want (sw_entries t))"
proof -
  have "foldl (\<lambda>s (k, v). spop_visit want k v s) acc xs = acc @ map fst (take (want - length acc) xs)" for acc xs
  proof (induction xs arbitrary: acc)
    case (Cons x xs)
    obtain k v where x: "x = (k, v)" by (cases x)
    show ?case
    proof (cases "want - length acc")
      case 0
      then show ?thesis using Cons.IH [of acc] by (simp add: x spop_visit_def)
    next
      case (Suc m)
      then have "want - length (acc @ [k]) = m" "length acc < want" by auto
      then show ?thesis using Cons.IH [of "acc @ [k]"] Suc by (simp add: x spop_visit_def)
    qed
  qed simp
  from this [of "[]"] show ?thesis by (simp add: sw_for_each_def)
qed

lemma spop_fold:
  assumes "focus (c_db c) k p (SetObj t) d"
  shows "\<exists>db' t'. foldl (spop_erase p) c ms = c\<lparr>c_db := db'\<rparr> \<and>
    refocus (c_db c) k p (SetObj t') d db' \<and> dom (sw_abs t') = dom (sw_abs t) - set ms"
  using assms
proof (induction ms arbitrary: c t)
  case Nil
  then show ?case by (intro exI [of _ "c_db c"] exI [of _ t]) (simp add: refocus_refl)
next
  case (Cons a ms)
  let ?t = "fst (sw_erase set_params t a)"
  note t = focus_set_at [OF Cons.prems]
  have inv: "sw_inv set_params ?t" and ab: "dom (sw_abs ?t) = dom (sw_abs t) - {a}"
    using t by (simp_all add: sw.inv_erase sw.abs_erase)
  let ?c = "obj_write p (SetObj ?t) c"
  have st: "spop_erase p c a = ?c" using t by (simp add: spop_erase_def)
  note r1 = set_write_refocus [OF Cons.prems inv]
  from Cons.IH [OF refocus_focus [OF r1]] obtain db' t' where
    "foldl (spop_erase p) ?c ms = ?c\<lparr>c_db := db'\<rparr>" "refocus (c_db ?c) k p (SetObj t') d db'"
    "dom (sw_abs t') = dom (sw_abs ?t) - set ms" by blast
  then show ?case using refocus_trans [OF r1] ab
    by (intro exI [of _ db'] exI [of _ t']) (auto simp: st)
qed

text \<open>The number of members asked for, when the count argument is valid.\<close>

lemma pop_arg_count:
  "(if argc c = 3 then (case parse_int (arg c 2) of
        None \<Rightarrow> None | Some n \<Rightarrow> if n < 0 then None else Some n) else Some 1) =
   map_option int (pop_count (pop_arg c))"
  by (auto simp: pop_count_def pop_arg_def split: option.splits)

lemma cmd_spop_runs:
  assumes "ok c"
  shows "\<exists>ms. distinct ms \<and> set ms \<subseteq> peek_set c (arg c 1) \<and>
    length ms = min (case pop_count (pop_arg c) of Some n \<Rightarrow> n | None \<Rightarrow> 0) (card (peek_set c (arg c 1))) \<and>
    runs c (arg c 1) (spec_spop (pop_arg c) ms) (cmd_spop c)"
  using assms
proof (cases rule: typed_cases [of c T_Set "arg c 1"])
  case (Gone db1)
  then show ?thesis
    by (intro exI [of _ "[]"])
       (auto simp: set_defs cmd_spop_def spec_spop_def peek_set_def pop_arg_count Let_def pop_arg_def
          split: option.splits)
next
  case (Wrong a d)
  have m: "peek_set c (arg c 1) = {}" using Wrong(3,4) by (cases a) (auto simp: peek_set_def)
  show ?thesis
    using Wrong m by (intro exI [of _ "[]"]) (auto simp: set_defs cmd_spop_def spec_spop_def)
next
  case (Alive p v d)
  then obtain t where v: "v = SetObj t" by (auto simp: type_Set_iff)
  with Alive have inv: "sw_inv set_params t" by simp
  note e = entries_members [OF inv]
  have pk: "peek_set c (arg c 1) = dom (sw_abs t)" using Alive v by (simp add: peek_set_def)
  show ?thesis
  proof (cases "pop_count (pop_arg c)")
    case None
    then show ?thesis using Alive v
      by (intro exI [of _ "[]"])
         (auto simp: set_defs cmd_spop_def spec_spop_def pop_arg_count Let_def)
  next
    case (Some n)
    define ms where "ms = map fst (take n (sw_entries t))"
    have ms: "distinct ms" "set ms \<subseteq> dom (sw_abs t)" "length ms = min n (card (dom (sw_abs t)))"
      unfolding ms_def take_map [symmetric]
      using e sw.size_card [OF inv] set_take_subset [of n "map fst (sw_entries t)"]
      by (simp_all add: min.commute)
    let ?c1 = "c\<lparr>c_tick := Suc (c_tick c)\<rparr>"
    have want: "(if argc c = 3 then nat (int n) else 1) = n"
      using Some by (auto simp: pop_count_def pop_arg_def)
    from Alive v have "focus (c_db ?c1) (arg c 1) p (SetObj t) d" by (simp add: focus_def)
    from spop_fold [OF this, of ms] obtain db' t' where
      f: "foldl (spop_erase p) ?c1 ms = ?c1\<lparr>c_db := db'\<rparr>"
      and r: "refocus (c_db ?c1) (arg c 1) p (SetObj t') d db'"
      and t': "dom (sw_abs t') = dom (sw_abs t) - set ms" by blast
    note r' = r [unfolded refocus_def focus_def]
    have "sw_inv set_params t'" using r' by simp
    note s0 = set_size_0 [OF this]
    let ?db = "if sw_size t' = 0 then snd (ks_erase (arg c 1) db') else db'"
    have pick: "sw_for_each (spop_visit n) t [] = ms" by (simp add: ms_def spop_pick)
    have "cmd_spop c = (let c2 = foldl (spop_erase p) ?c1 ms;
          c3 = (if sw_size (set_at c2 p) = 0 then snd (db_erase (arg c 1) c2) else c2);
          c4 = (if ms \<noteq> [] then mark_dirty c3 else c3)
        in if argc c = 3 then foldl (\<lambda>c m. r_bulk m c) (r_array_header (int (length ms)) c4) ms
           else if ms = [] then r_null_bulk c4 else r_bulk (hd ms) c4)"
      using Alive v Some want pick
      by (simp add: get_set_def set_at_def obj_at_def cmd_spop_def pop_arg_count
            Let_def cong: if_cong split del: if_split)
    also have "\<dots> = c\<lparr>c_tick := Suc (c_tick c), c_db := ?db, c_dirty := (c_dirty c \<or> ms \<noteq> []),
        c_out := c_out c @ (if argc c = 3 then a_array (int (length ms)) @ concat (map a_bulk ms)
                            else if ms = [] then a_nil else a_bulk (hd ms))\<rparr>"
      unfolding f Let_def fold_bulks using r' by (simp add: set_defs)
    finally have run: "cmd_spop c = c\<lparr>c_tick := Suc (c_tick c), c_db := ?db, c_dirty := (c_dirty c \<or> ms \<noteq> []),
        c_out := c_out c @ (if argc c = 3 then a_array (int (length ms)) @ concat (map a_bulk ms)
                            else if ms = [] then a_nil else a_bulk (hd ms))\<rparr>" .
    have db: "db_ok ?db" "db_abs ?db = (db_abs (c_db c))(arg c 1 := set_entry (dom (sw_abs t) - set ms) d)"
      using r' s0 t' db_erase [of db' "arg c 1"] by (auto simp: set_entry_def)
    have "runs c (arg c 1) (spec_spop (pop_arg c) ms) (cmd_spop c)"
      unfolding run using Alive v Some db
      by (simp add: runs_def spec_spop_def pop_arg_def ok_def view_def)
    with ms show ?thesis unfolding pk Some by (intro exI [of _ ms]) simp
  qed
qed

end
