(* ===== verification/Cmd_Hash.thy ===== *)
theory Cmd_Hash
  imports Cmd_Set
begin

section \<open>Hash commands (\<^verbatim>\<open>src/commands/hash_cmds.cpp\<close>)\<close>

text \<open>A hash value is a Swiss table from fields to strings.\<close>

definition get_hash :: "bytes \<Rightarrow> ctx \<Rightarrow> nat typed \<times> ctx" where
  "get_hash key c = get_typed T_Hash key c"

definition is_hmset :: "ctx \<Rightarrow> bool" where
  "is_hmset c \<longleftrightarrow> to_lower (cmd_name c) = ''hmset''"

fun hset_loop :: "nat \<Rightarrow> bytes list \<Rightarrow> int \<Rightarrow> ctx \<Rightarrow> int \<times> ctx" where
  "hset_loop p (f # v # rest) added c =
     (let (t, slot, inserted) = sw_insert hash_params (hash_at c p) f v
      in hset_loop p rest (if inserted then added + 1 else added) (obj_write p (HashObj t) c))"
| "hset_loop p _ added c = (added, c)"

definition cmd_hset :: "ctx \<Rightarrow> ctx" where
  "cmd_hset c =
     (if argc c mod 2 \<noteq> 0 then err_wrong_args c
      else
        let (r, c1) = get_hash (arg c 1) c in
        if r = WrongType then err_wrong_type c1
        else
          let (p, c2) = or_make r (arg c 1) make_hash c1;
              (added, c3) = hset_loop p (drop 2 (c_argv c)) 0 c2;
              c4 = mark_dirty c3
          in if is_hmset c then r_simple_string ''OK'' c4 else r_integer added c4)"

definition cmd_hget :: "ctx \<Rightarrow> ctx" where
  "cmd_hget c =
     (case get_hash (arg c 1) c of
        (WrongType, c1) \<Rightarrow> err_wrong_type c1
      | (Absent, c1) \<Rightarrow> r_null_bulk (c_miss c1)
      | (Found p, c1) \<Rightarrow>
          (case sw_find hash_params (hash_at c1 p) (arg c 2) of
             None \<Rightarrow> r_null_bulk (c_miss c1)
           | Some v \<Rightarrow> r_bulk (sw_value (hash_at c1 p) v) (c_hit c1)))"

definition hdel_step :: "nat \<Rightarrow> int \<times> ctx \<Rightarrow> bytes \<Rightarrow> int \<times> ctx" where
  "hdel_step p s a =
     (let (removed, c) = s; (t, b) = sw_erase hash_params (hash_at c p) a
      in (if b then removed + 1 else removed, obj_write p (HashObj t) c))"

definition cmd_hdel :: "ctx \<Rightarrow> ctx" where
  "cmd_hdel c =
     (case get_hash (arg c 1) c of
        (WrongType, c1) \<Rightarrow> err_wrong_type c1
      | (Absent, c1) \<Rightarrow> r_integer 0 c1
      | (Found p, c1) \<Rightarrow>
          (let (removed, c2) = foldl (hdel_step p) (0, c1) (drop 2 (c_argv c));
               c3 = (if sw_size (hash_at c2 p) = 0 then snd (db_erase (arg c 1) c2) else c2)
           in r_integer removed (if removed \<noteq> 0 then mark_dirty c3 else c3)))"

definition cmd_hexists :: "ctx \<Rightarrow> ctx" where
  "cmd_hexists c =
     (case get_hash (arg c 1) c of
        (WrongType, c1) \<Rightarrow> err_wrong_type c1
      | (Absent, c1) \<Rightarrow> r_integer 0 c1
      | (Found p, c1) \<Rightarrow>
          r_integer (if sw_find hash_params (hash_at c1 p) (arg c 2) \<noteq> None then 1 else 0) c1)"

definition cmd_hgetall :: "ctx \<Rightarrow> ctx" where
  "cmd_hgetall c =
     (case get_hash (arg c 1) c of
        (WrongType, c1) \<Rightarrow> err_wrong_type c1
      | (Absent, c1) \<Rightarrow> r_array_header 0 c1
      | (Found p, c1) \<Rightarrow>
          sw_for_each (\<lambda>k v c. r_bulk v (r_bulk k c)) (hash_at c1 p)
            (r_array_header (int (sw_size (hash_at c1 p)) * 2) c1))"

definition cmd_hkeys :: "ctx \<Rightarrow> ctx" where
  "cmd_hkeys c =
     (case get_hash (arg c 1) c of
        (WrongType, c1) \<Rightarrow> err_wrong_type c1
      | (Absent, c1) \<Rightarrow> r_array_header 0 c1
      | (Found p, c1) \<Rightarrow>
          sw_for_each (\<lambda>k v c. r_bulk k c) (hash_at c1 p)
            (r_array_header (int (sw_size (hash_at c1 p))) c1))"

definition cmd_hvals :: "ctx \<Rightarrow> ctx" where
  "cmd_hvals c =
     (case get_hash (arg c 1) c of
        (WrongType, c1) \<Rightarrow> err_wrong_type c1
      | (Absent, c1) \<Rightarrow> r_array_header 0 c1
      | (Found p, c1) \<Rightarrow>
          sw_for_each (\<lambda>k v c. r_bulk v c) (hash_at c1 p)
            (r_array_header (int (sw_size (hash_at c1 p))) c1))"

definition cmd_hlen :: "ctx \<Rightarrow> ctx" where
  "cmd_hlen c =
     (case get_hash (arg c 1) c of
        (WrongType, c1) \<Rightarrow> err_wrong_type c1
      | (Absent, c1) \<Rightarrow> r_integer 0 c1
      | (Found p, c1) \<Rightarrow> r_integer (int (sw_size (hash_at c1 p))) c1)"

text \<open>\<open>cur += delta\<close> is not checked: leaving the 64-bit range is undefined behaviour, flagged here.\<close>

definition cmd_hincrby :: "ctx \<Rightarrow> ctx" where
  "cmd_hincrby c =
     (case parse_int (arg c 3) of
        None \<Rightarrow> err_not_int c
      | Some delta \<Rightarrow>
          (let (r, c1) = get_hash (arg c 1) c in
           if r = WrongType then err_wrong_type c1
           else
             let (p, c2) = or_make r (arg c 1) make_hash c1; field = arg c 2 in
             case (case sw_find hash_params (hash_at c2 p) field of
                     Some v \<Rightarrow> parse_int (sw_value (hash_at c2 p) v) | None \<Rightarrow> Some 0) of
               None \<Rightarrow> r_error ''ERR hash value is not an integer'' c2
             | Some cur0 \<Rightarrow>
                 (let c3 = (if in_i64 (cur0 + delta) then c2 else flag_ub c2);
                      cur = i64_of_u64 (u64_of_i64 (cur0 + delta));
                      t = fst (sw_insert hash_params (hash_at c3 p) field (int_to_string cur))
                  in r_integer cur (mark_dirty (obj_write p (HashObj t) c3)))))"

definition hmget_step :: "nat option \<Rightarrow> ctx \<Rightarrow> bytes \<Rightarrow> ctx" where
  "hmget_step r c a =
     (case r of
        None \<Rightarrow> r_null_bulk c
      | Some p \<Rightarrow>
          (case sw_find hash_params (hash_at c p) a of
             None \<Rightarrow> r_null_bulk c
           | Some v \<Rightarrow> r_bulk (sw_value (hash_at c p) v) c))"

definition cmd_hmget :: "ctx \<Rightarrow> ctx" where
  "cmd_hmget c =
     (let (r, c1) = get_hash (arg c 1) c in
      if r = WrongType then err_wrong_type c1
      else foldl (hmget_step (case r of Found p \<Rightarrow> Some p | _ \<Rightarrow> None))
             (r_array_header (int (argc c) - 2) c1) (drop 2 (c_argv c)))"

section \<open>Correctness of the hash commands\<close>

text \<open>
  Reference functions on finite maps, and the handlers' refinement of them. The enumerating commands
  show the table's order, so their references take the enumeration as an argument.
\<close>

type_synonym fields_map = "bytes \<Rightarrow> bytes option"

fun on_hash :: "aentry option \<Rightarrow> (fields_map option \<Rightarrow> u64 option \<Rightarrow> outcome) \<Rightarrow> outcome" where
  "on_hash None f = f None None"
| "on_hash (Some (AHash m, d)) f = f (Some m) d"
| "on_hash (Some e) f = (Some e, a_wrong_type, False)"

abbreviation fields :: "fields_map option \<Rightarrow> fields_map" where
  "fields m \<equiv> (case m of None \<Rightarrow> Map.empty | Some m \<Rightarrow> m)"

definition hash_entry :: "fields_map \<Rightarrow> u64 option \<Rightarrow> aentry option" where
  "hash_entry m d = (if m = Map.empty then None else Some (AHash m, d))"

definition spec_hset :: "bytes \<Rightarrow> bytes list \<Rightarrow> aentry option \<Rightarrow> outcome" where
  "spec_hset name args e =
     (if odd (length args) then
        (e, a_error (''ERR wrong number of arguments for '' @ squote @ name @ squote @ '' command''), False)
      else on_hash e (\<lambda>m d.
        let ps = pairs args; added = card (fst ` set ps - dom (fields m))
        in (Some (AHash (fields m ++ map_of (rev ps)), d),
            if to_lower name = ''hmset'' then a_ok else a_integer (int added), True)))"

definition spec_hget :: "bytes \<Rightarrow> aentry option \<Rightarrow> outcome" where
  "spec_hget f e =
     on_hash e (\<lambda>m d. (e, case fields m f of None \<Rightarrow> a_nil | Some v \<Rightarrow> a_bulk v, False))"

definition spec_hdel :: "bytes list \<Rightarrow> aentry option \<Rightarrow> outcome" where
  "spec_hdel args e =
     on_hash e (\<lambda>m d. case m of
         None \<Rightarrow> (None, a_integer 0, False)
       | Some m \<Rightarrow> let removed = set args \<inter> dom m
                   in (hash_entry (m |` (- set args)) d, a_integer (int (card removed)), removed \<noteq> {}))"

definition spec_hexists :: "bytes \<Rightarrow> aentry option \<Rightarrow> outcome" where
  "spec_hexists f e = on_hash e (\<lambda>m d. (e, a_integer (if f \<in> dom (fields m) then 1 else 0), False))"

definition spec_hlen :: "aentry option \<Rightarrow> outcome" where
  "spec_hlen e = on_hash e (\<lambda>m d. (e, a_integer (int (card (dom (fields m)))), False))"

definition spec_hmget :: "bytes list \<Rightarrow> aentry option \<Rightarrow> outcome" where
  "spec_hmget fs e =
     on_hash e (\<lambda>m d. (e, a_array (int (length fs)) @
       concat (map (\<lambda>f. case fields m f of None \<Rightarrow> a_nil | Some v \<Rightarrow> a_bulk v) fs), False))"

text \<open>\<open>es\<close> is an enumeration of the map; \<open>show_entry\<close> says what of an entry is shown.\<close>

definition spec_henum ::
  "nat \<Rightarrow> (bytes \<times> bytes \<Rightarrow> bytes) \<Rightarrow> (bytes \<times> bytes) list \<Rightarrow> aentry option \<Rightarrow> outcome" where
  "spec_henum width show_entry es e =
     on_hash e (\<lambda>m d. (e, a_array (int (width * length es)) @ concat (map show_entry es), False))"

definition spec_hincrby :: "bytes \<Rightarrow> bytes \<Rightarrow> aentry option \<Rightarrow> outcome" where
  "spec_hincrby f delta e =
     (case parse_int delta of
        None \<Rightarrow> (e, a_not_int, False)
      | Some dl \<Rightarrow>
          on_hash e (\<lambda>m d. case (case fields m f of None \<Rightarrow> Some 0 | Some s \<Rightarrow> parse_int s) of
              None \<Rightarrow> (e, a_error ''ERR hash value is not an integer'', False)
            | Some n \<Rightarrow> (Some (AHash ((fields m)(f \<mapsto> int_to_string (n + dl))), d), a_integer (n + dl), True)))"

definition peek_hash :: "ctx \<Rightarrow> bytes \<Rightarrow> fields_map" where
  "peek_hash c k = (case peek c k of Some (AHash m, d) \<Rightarrow> m | _ \<Rightarrow> Map.empty)"

subsection \<open>The handlers follow the reference functions\<close>

lemma on_hash_other: "aobj_type a \<noteq> T_Hash \<Longrightarrow> on_hash (Some (a, d)) f = (Some (a, d), a_wrong_type, False)"
  by (cases a) auto

lemmas hash_defs = run_defs get_hash_def hash_at_def on_hash_other type_Hash_iff

lemma focus_hash_at: "focus (c_db c) k p (HashObj t) d \<Longrightarrow> hash_at c p = t \<and> sw_inv hash_params t"
  by (auto simp: focus_def hash_at_def obj_at_def)

lemma hash_write_refocus:
  assumes "focus (c_db c) k p v d" "sw_inv hash_params t"
  shows "refocus (c_db c) k p (HashObj t) d (c_db (obj_write p (HashObj t) c))"
  using refocus_write [OF assms(1), of "HashObj t"] assms(2) by (simp add: obj_write_def)

lemma make_hash_wf: "obj_wf make_hash" "obj_abs make_hash = AHash Map.empty"
  by (simp_all add: make_hash_def sw.inv_new sw.abs_new)

lemma hset_loop_run:
  assumes "focus (c_db c) k p (HashObj t) d"
  shows "\<exists>db' t'. hset_loop p args n c =
      (n + int (card (fst ` set (pairs args) - dom (sw_abs t))), c\<lparr>c_db := db'\<rparr>) \<and>
    refocus (c_db c) k p (HashObj t') d db' \<and> sw_abs t' = sw_abs t ++ map_of (rev (pairs args))"
  using assms
proof (induction args arbitrary: n c t rule: pairs.induct)
  case (1 f v rest)
  let ?t = "fst (sw_insert hash_params t f v)"
  note t = focus_hash_at [OF "1.prems"]
  have inv: "sw_inv hash_params ?t" and ab: "sw_abs ?t = (sw_abs t)(f \<mapsto> v)"
    using t by (simp_all add: sw.inv_insert sw.abs_insert)
  let ?c = "obj_write p (HashObj ?t) c"
  let ?n = "if f \<in> dom (sw_abs t) then n else n + 1"
  note r1 = hash_write_refocus [OF "1.prems" inv]
  have st: "hset_loop p (f # v # rest) n c = hset_loop p rest ?n ?c"
    using t by (simp add: split_beta sw.insert_flag domIff)
  from "1.IH" [OF refocus_focus [OF r1], of ?n] obtain db' t' where
    f: "hset_loop p rest ?n ?c = (?n + int (card (fst ` set (pairs rest) - dom (sw_abs ?t))), ?c\<lparr>c_db := db'\<rparr>)"
    and r2: "refocus (c_db ?c) k p (HashObj t') d db'"
    and d: "sw_abs t' = sw_abs ?t ++ map_of (rev (pairs rest))" by blast
  have "?n + int (card (fst ` set (pairs rest) - dom (sw_abs ?t))) =
      n + int (card (fst ` set (pairs (f # v # rest)) - dom (sw_abs t)))"
  proof (cases "f \<in> dom (sw_abs t)")
    case True
    then have "fst ` set (pairs (f # v # rest)) - dom (sw_abs t) = fst ` set (pairs rest) - dom (sw_abs ?t)"
      using ab by auto
    then show ?thesis using True by simp
  next
    case False
    then have "fst ` set (pairs (f # v # rest)) - dom (sw_abs t) =
        insert f (fst ` set (pairs rest) - dom (sw_abs ?t))"
      using ab by auto
    moreover have "f \<notin> fst ` set (pairs rest) - dom (sw_abs ?t)" using ab by simp
    ultimately show ?thesis using False by simp
  qed
  moreover have "sw_abs t' = sw_abs t ++ map_of (rev (pairs (f # v # rest)))"
    by (simp add: d ab map_add_assoc [symmetric] map_add_def fun_eq_iff split: option.splits)
  ultimately show ?case using f refocus_trans [OF r1 r2]
    by (intro exI [of _ db'] exI [of _ t']) (simp add: st del: hset_loop.simps)
qed (use refocus_refl in \<open>force intro!: exI [of _ "c_db _"]\<close>)+

lemma cmd_hset_runs:
  assumes "ok c" "2 \<le> argc c"
  shows "runs c (arg c 1) (spec_hset (cmd_name c) (drop 2 (c_argv c))) (cmd_hset c)"
proof (cases "even (argc c)")
  case False
  then have "odd (length (drop 2 (c_argv c)))" "argc c mod 2 \<noteq> 0" using assms(2)
    by (simp_all add: argc_def odd_iff_mod_2_eq_one)
  then show ?thesis using assms(1)
    by (simp add: run_defs cmd_hset_def spec_hset_def err_wrong_args_def cmd_name_def)
next
  case True
  let ?args = "drop 2 (c_argv c)"
  have ev: "even (length ?args)" "argc c mod 2 = 0" using True assms(2)
    by (simp_all add: argc_def)
  have hm: "is_hmset c \<longleftrightarrow> to_lower (cmd_name c) = ''hmset''" by (simp add: is_hmset_def)
  show ?thesis using assms(1)
  proof (cases rule: typed_cases [of c T_Hash "arg c 1"])
    case (Gone db1)
    let ?p = "fst (ks_set (arg c 1) make_hash db1)"
    let ?c1 = "c\<lparr>c_tick := Suc (c_tick c), c_db := snd (ks_set (arg c 1) make_hash db1)\<rparr>"
    have "focus (c_db ?c1) (arg c 1) ?p (HashObj (sw_new hash_params)) None"
      using focus_set [OF Gone(2) make_hash_wf(1), of "arg c 1"] by (simp add: make_hash_def)
    from hset_loop_run [OF this, of ?args 0] obtain db' t' where
      "hset_loop ?p ?args 0 ?c1 = (int (card (fst ` set (pairs ?args))), ?c1\<lparr>c_db := db'\<rparr>)"
      "refocus (c_db ?c1) (arg c 1) ?p (HashObj t') None db'" "sw_abs t' = map_of (rev (pairs ?args))"
      by (auto simp: sw.abs_new)
    then show ?thesis using Gone ev hm db_set [OF Gone(2) make_hash_wf(1), of "arg c 1"]
      by (auto simp: hash_defs cmd_hset_def spec_hset_def or_make_def refocus_def focus_def Let_def a_ok_def)
  next
    case (Wrong a d)
    then show ?thesis using ev by (auto simp: hash_defs cmd_hset_def spec_hset_def)
  next
    case (Alive p v d)
    then obtain t where v: "v = HashObj t" by (auto simp: type_Hash_iff)
    let ?c1 = "c\<lparr>c_tick := Suc (c_tick c)\<rparr>"
    from Alive v have "focus (c_db ?c1) (arg c 1) p (HashObj t) d" by (simp add: focus_def)
    from hset_loop_run [OF this, of ?args 0] obtain db' t' where
      "hset_loop p ?args 0 ?c1 = (int (card (fst ` set (pairs ?args) - dom (sw_abs t))), ?c1\<lparr>c_db := db'\<rparr>)"
      "refocus (c_db ?c1) (arg c 1) p (HashObj t') d db'" "sw_abs t' = sw_abs t ++ map_of (rev (pairs ?args))"
      by auto
    then show ?thesis using Alive v ev hm
      by (auto simp: hash_defs cmd_hset_def spec_hset_def or_make_def refocus_def focus_def Let_def a_ok_def)
  qed
qed

lemma cmd_hget_runs:
  assumes "ok c"
  shows "runs c (arg c 1) (spec_hget (arg c 2)) (cmd_hget c)"
  using assms
proof (cases rule: typed_cases [of c T_Hash "arg c 1"])
  case (Alive p v d)
  then obtain t where v: "v = HashObj t" by (auto simp: type_Hash_iff)
  with Alive have inv: "sw_inv hash_params t" by simp
  then show ?thesis using Alive v sw.find_val [OF inv, of "arg c 2", symmetric]
    by (cases "sw_find hash_params t (arg c 2)") (simp_all add: hash_defs cmd_hget_def spec_hget_def)
qed (auto simp: hash_defs cmd_hget_def spec_hget_def)

lemma cmd_hexists_runs:
  assumes "ok c"
  shows "runs c (arg c 1) (spec_hexists (arg c 2)) (cmd_hexists c)"
  using assms
proof (cases rule: typed_cases [of c T_Hash "arg c 1"])
  case (Alive p v d)
  then obtain t where v: "v = HashObj t" by (auto simp: type_Hash_iff)
  with Alive have "sw_inv hash_params t" by simp
  note m = find_ne [OF this, of "arg c 2"]
  show ?thesis using Alive v m by (simp add: hash_defs cmd_hexists_def spec_hexists_def)
qed (auto simp: hash_defs cmd_hexists_def spec_hexists_def)

lemma cmd_hlen_runs: "ok c \<Longrightarrow> runs c (arg c 1) spec_hlen (cmd_hlen c)"
  by (cases rule: typed_cases [of c T_Hash "arg c 1"])
     (auto simp: hash_defs cmd_hlen_def spec_hlen_def sw.size_card)

lemma hdel_fold:
  assumes "focus (c_db c) k p (HashObj t) d"
  shows "\<exists>db' t'. foldl (hdel_step p) (n, c) args =
      (n + int (card (set args \<inter> dom (sw_abs t))), c\<lparr>c_db := db'\<rparr>) \<and>
    refocus (c_db c) k p (HashObj t') d db' \<and> sw_abs t' = sw_abs t |` (- set args)"
  using assms
proof (induction args arbitrary: n c t)
  case Nil
  then show ?case by (intro exI [of _ "c_db c"] exI [of _ t]) (simp add: refocus_refl restrict_map_def)
next
  case (Cons a args)
  let ?t = "fst (sw_erase hash_params t a)"
  note t = focus_hash_at [OF Cons.prems]
  have inv: "sw_inv hash_params ?t" and ab: "sw_abs ?t = (sw_abs t)(a := None)"
    using t by (simp_all add: sw.inv_erase sw.abs_erase)
  let ?c = "obj_write p (HashObj ?t) c"
  let ?n = "if a \<in> dom (sw_abs t) then n + 1 else n"
  have st: "hdel_step p (n, c) a = (?n, ?c)"
    using t by (simp add: hdel_step_def split_beta sw.erase_flag domIff)
  note r1 = hash_write_refocus [OF Cons.prems inv]
  from Cons.IH [OF refocus_focus [OF r1], of ?n] obtain db' t' where
    f: "foldl (hdel_step p) (?n, ?c) args = (?n + int (card (set args \<inter> dom (sw_abs ?t))), ?c\<lparr>c_db := db'\<rparr>)"
    and r2: "refocus (c_db ?c) k p (HashObj t') d db'"
    and d: "sw_abs t' = sw_abs ?t |` (- set args)" by blast
  have "?n + int (card (set args \<inter> dom (sw_abs ?t))) = n + int (card (set (a # args) \<inter> dom (sw_abs t)))"
  proof (cases "a \<in> dom (sw_abs t)")
    case True
    then have "set (a # args) \<inter> dom (sw_abs t) = insert a (set args \<inter> dom (sw_abs ?t))"
      using ab by auto
    moreover have "a \<notin> set args \<inter> dom (sw_abs ?t)" using ab by simp
    ultimately show ?thesis using True by simp
  next
    case False
    then have "set (a # args) \<inter> dom (sw_abs t) = set args \<inter> dom (sw_abs ?t)"
      using ab by auto
    then show ?thesis using False by simp
  qed
  moreover have "sw_abs t' = sw_abs t |` (- set (a # args))"
    by (auto simp: d ab restrict_map_def fun_eq_iff)
  ultimately show ?case using f refocus_trans [OF r1 r2]
    by (intro exI [of _ db'] exI [of _ t']) (simp add: st)
qed

lemma cmd_hdel_runs:
  assumes "ok c"
  shows "runs c (arg c 1) (spec_hdel (drop 2 (c_argv c))) (cmd_hdel c)"
  using assms
proof (cases rule: typed_cases [of c T_Hash "arg c 1"])
  case (Alive p v d)
  then obtain t where v: "v = HashObj t" by (auto simp: type_Hash_iff)
  let ?c1 = "c\<lparr>c_tick := Suc (c_tick c)\<rparr>"
  from Alive v have "focus (c_db ?c1) (arg c 1) p (HashObj t) d" by (simp add: focus_def)
  from hdel_fold [OF this, of 0 "drop 2 (c_argv c)"] obtain db' t' where
    f: "foldl (hdel_step p) (0, ?c1) (drop 2 (c_argv c)) =
      (int (card (set (drop 2 (c_argv c)) \<inter> dom (sw_abs t))), ?c1\<lparr>c_db := db'\<rparr>)"
    and r: "refocus (c_db ?c1) (arg c 1) p (HashObj t') d db'"
    and t': "sw_abs t' = sw_abs t |` (- set (drop 2 (c_argv c)))" by auto
  note r' = r [unfolded refocus_def focus_def]
  define N where "N = card (set (drop 2 (c_argv c)) \<inter> dom (sw_abs t))"
  have N: "N = 0 \<longleftrightarrow> set (drop 2 (c_argv c)) \<inter> dom (sw_abs t) = {}" by (simp add: N_def)
  have "sw_inv hash_params t'" using r' by simp
  from sw.size_0_iff [OF this] show ?thesis using Alive v f [folded N_def] r' t' db_erase [of db' "arg c 1"] N
    by (auto simp: hash_defs cmd_hdel_def spec_hdel_def hash_entry_def Let_def N_def [symmetric])
qed (auto simp: hash_defs cmd_hdel_def spec_hdel_def)

text \<open>An increment that leaves the 64-bit range is undefined behaviour; every other one follows the reference.\<close>

lemma cmd_hincrby_runs:
  assumes "ok c" and ub: "\<not> c_ub (cmd_hincrby c)"
  shows "runs c (arg c 1) (spec_hincrby (arg c 2) (arg c 3)) (cmd_hincrby c)"
proof (cases "parse_int (arg c 3)")
  case None
  with assms(1) show ?thesis by (simp add: run_defs cmd_hincrby_def spec_hincrby_def)
next
  case (Some dl)
  show ?thesis using assms(1)
  proof (cases rule: typed_cases [of c T_Hash "arg c 1"])
    case (Gone db1)
    let ?p = "fst (ks_set (arg c 1) make_hash db1)" and ?db = "snd (ks_set (arg c 1) make_hash db1)"
    let ?t = "sw_new hash_params"
    have f: "focus ?db (arg c 1) ?p (HashObj ?t) None"
      using focus_set [OF Gone(2) make_hash_wf(1), of "arg c 1"] by (simp add: make_hash_def)
    have none: "sw_find hash_params ?t (arg c 2) = None"
      by (simp add: sw.find_None [OF sw.inv_new] sw.abs_new)
    have i: "in_i64 dl" by (rule parse_int_range [OF Some])
    let ?v = "HashObj (fst (sw_insert hash_params ?t (arg c 2) (int_to_string dl)))"
    note w = focus_write [OF f, of ?v]
    have "obj_wf ?v" "obj_abs ?v = AHash [arg c 2 \<mapsto> int_to_string dl]"
      by (simp_all add: sw.inv_insert sw.inv_new sw.abs_insert sw.abs_new)
    then show ?thesis using Gone Some none i focusD [OF f] w db_set [OF Gone(2) make_hash_wf(1), of "arg c 1"]
      by (simp add: hash_defs cmd_hincrby_def spec_hincrby_def or_make_def i64_u64_round Let_def focusD)
  next
    case (Wrong a d)
    then show ?thesis using Some by (auto simp: hash_defs cmd_hincrby_def spec_hincrby_def)
  next
    case (Alive p v d)
    then obtain t where v: "v = HashObj t" by (auto simp: type_Hash_iff)
    with Alive have inv: "sw_inv hash_params t" by simp
    from Alive v have f: "focus (c_db c) (arg c 1) p (HashObj t) d" by (simp add: focus_def)
    define r where "r = (case sw_abs t (arg c 2) of None \<Rightarrow> Some 0 | Some s \<Rightarrow> parse_int s)"
    let ?c1 = "c\<lparr>c_tick := Suc (c_tick c)\<rparr>"
    have run: "cmd_hincrby c = (case r of
        None \<Rightarrow> r_error ''ERR hash value is not an integer'' ?c1
      | Some n \<Rightarrow>
          (let c3 = (if in_i64 (n + dl) then ?c1 else flag_ub ?c1);
               cur = i64_of_u64 (u64_of_i64 (n + dl));
               t' = fst (sw_insert hash_params (hash_at c3 p) (arg c 2) (int_to_string cur))
           in r_integer cur (mark_dirty (obj_write p (HashObj t') c3))))"
      using sw.find_val [OF inv, of "arg c 2", symmetric] Alive v Some
      by (cases "sw_find hash_params t (arg c 2)")
         (simp_all add: cmd_hincrby_def or_make_def get_hash_def hash_at_def obj_at_def r_def)
    show ?thesis
    proof (cases r)
      case None
      with Alive v Some show ?thesis unfolding run
        by (simp add: hash_defs spec_hincrby_def r_def [symmetric])
    next
      case n: (Some n)
      let ?v = "HashObj (fst (sw_insert hash_params t (arg c 2) (int_to_string (n + dl))))"
      have wf: "obj_wf ?v" using inv by (simp add: sw.inv_insert)
      have ab: "obj_abs ?v = AHash ((sw_abs t)(arg c 2 \<mapsto> int_to_string (n + dl)))"
        using inv by (simp add: sw.abs_insert)
      have i: "in_i64 (n + dl)"
        using ub n by (simp add: run hash_defs Let_def split: if_splits)
      show ?thesis unfolding run using Alive v Some n i ab focus_write [OF f wf]
        by (simp add: hash_defs spec_hincrby_def i64_u64_round Let_def focusD r_def [symmetric])
    qed
  qed
qed

lemma hmget_absent: "foldl (hmget_step None) c fs = c\<lparr>c_out := c_out c @ concat (map (\<lambda>f. a_nil) fs)\<rparr>"
  by (induction fs arbitrary: c) (simp_all add: hmget_step_def reply_eqs)

lemma hmget_present:
  assumes "sw_inv hash_params t" "hash_at c p = t"
  shows "foldl (hmget_step (Some p)) c fs = c\<lparr>c_out := c_out c @
     concat (map (\<lambda>f. case sw_abs t f of None \<Rightarrow> a_nil | Some v \<Rightarrow> a_bulk v) fs)\<rparr>"
  using assms(2)
proof (induction fs arbitrary: c)
  case (Cons f fs)
  have "hmget_step (Some p) c f = c\<lparr>c_out := c_out c @ (case sw_abs t f of None \<Rightarrow> a_nil | Some v \<Rightarrow> a_bulk v)\<rparr>"
    using sw.find_val [OF assms(1), of f, symmetric] Cons.prems
    by (cases "sw_find hash_params t f") (simp_all add: hmget_step_def reply_eqs)
  then show ?case
    using Cons.IH [of "c\<lparr>c_out := c_out c @ (case sw_abs t f of None \<Rightarrow> a_nil | Some v \<Rightarrow> a_bulk v)\<rparr>"] Cons.prems
    by (simp add: hash_at_def obj_at_def)
qed simp

lemma cmd_hmget_runs:
  assumes "ok c" "2 \<le> argc c"
  shows "runs c (arg c 1) (spec_hmget (drop 2 (c_argv c))) (cmd_hmget c)"
proof -
  have n: "int (argc c) - 2 = int (length (drop 2 (c_argv c)))" using assms(2) by (simp add: argc_def)
  show ?thesis using assms(1)
  proof (cases rule: typed_cases [of c T_Hash "arg c 1"])
    case (Alive p v d)
    then obtain t where v: "v = HashObj t" by (auto simp: type_Hash_iff)
    with Alive have inv: "sw_inv hash_params t" by simp
    let ?c1 = "r_array_header (int (argc c) - 2) (c\<lparr>c_tick := Suc (c_tick c)\<rparr>)"
    have "hash_at ?c1 p = t" using Alive v by (simp add: hash_at_def obj_at_def reply_eqs)
    note f = hmget_present [OF inv this, of "drop 2 (c_argv c)"]
    have "cmd_hmget c = foldl (hmget_step (Some p)) ?c1 (drop 2 (c_argv c))"
      using Alive by (simp add: cmd_hmget_def get_hash_def)
    then show ?thesis unfolding f using Alive v by (simp add: run_defs spec_hmget_def n)
  next
    case (Gone db1)
    then have "cmd_hmget c = foldl (hmget_step None)
        (r_array_header (int (argc c) - 2) (c\<lparr>c_tick := Suc (c_tick c), c_db := db1\<rparr>)) (drop 2 (c_argv c))"
      by (simp add: cmd_hmget_def get_hash_def)
    then show ?thesis unfolding hmget_absent using Gone by (simp add: run_defs spec_hmget_def n)
  qed (simp_all add: hash_defs cmd_hmget_def spec_hmget_def)
qed

subsection \<open>Enumeration\<close>

lemma henum_runs:
  assumes "ok c"
    and handler: "h c = (case get_hash (arg c 1) c of
        (WrongType, c1) \<Rightarrow> err_wrong_type c1
      | (Absent, c1) \<Rightarrow> r_array_header 0 c1
      | (Found p, c1) \<Rightarrow> sw_for_each visit (hash_at c1 p) (r_array_header (hdr (sw_size (hash_at c1 p))) c1))"
    and hdr: "\<And>s. hdr s = int (w * s)"
    and visit: "\<And>k v c. visit k v c = c\<lparr>c_out := c_out c @ f (k, v)\<rparr>"
  shows "\<exists>es. distinct (map fst es) \<and> map_of es = peek_hash c (arg c 1) \<and>
    runs c (arg c 1) (spec_henum w f es) (h c)"
  using assms(1)
proof (cases rule: typed_cases [of c T_Hash "arg c 1"])
  case (Gone db1)
  then show ?thesis
    by (intro exI [of _ "[]"]) (auto simp: hash_defs handler spec_henum_def peek_hash_def)
next
  case (Wrong a d)
  have m: "peek_hash c (arg c 1) = Map.empty" using Wrong(3,4) by (cases a) (auto simp: peek_hash_def)
  show ?thesis
    using Wrong m by (intro exI [of _ "[]"]) (auto simp: hash_defs handler spec_henum_def)
next
  case (Alive p v d)
  then obtain t where v: "v = HashObj t" by (auto simp: type_Hash_iff)
  with Alive have inv: "sw_inv hash_params t" by simp
  have fe: "sw_for_each visit t c' = c'\<lparr>c_out := c_out c' @ concat (map f (sw_entries t))\<rparr>" for c'
  proof -
    have "foldl (\<lambda>s (k, v). visit k v s) c' xs = c'\<lparr>c_out := c_out c' @ concat (map f xs)\<rparr>" for xs
      by (induction xs arbitrary: c') (auto simp: visit)
    then show ?thesis by (simp add: sw_for_each_def)
  qed
  show ?thesis
    using Alive v sw.entries_distinct [OF inv] sw.entries_abs [OF inv] sw.size_entries [OF inv]
    by (intro exI [of _ "sw_entries t"]) (auto simp: hash_defs handler spec_henum_def peek_hash_def fe hdr)
qed

lemma cmd_hgetall_runs:
  "ok c \<Longrightarrow> \<exists>es. distinct (map fst es) \<and> map_of es = peek_hash c (arg c 1) \<and>
    runs c (arg c 1) (spec_henum 2 (\<lambda>(k, v). a_bulk k @ a_bulk v) es) (cmd_hgetall c)"
  by (rule henum_runs [where h = cmd_hgetall, OF _ cmd_hgetall_def]) (simp_all add: reply_eqs)

lemma cmd_hkeys_runs:
  "ok c \<Longrightarrow> \<exists>es. distinct (map fst es) \<and> map_of es = peek_hash c (arg c 1) \<and>
    runs c (arg c 1) (spec_henum 1 (\<lambda>(k, v). a_bulk k) es) (cmd_hkeys c)"
  by (rule henum_runs [where h = cmd_hkeys, OF _ cmd_hkeys_def]) (simp_all add: reply_eqs)

lemma cmd_hvals_runs:
  "ok c \<Longrightarrow> \<exists>es. distinct (map fst es) \<and> map_of es = peek_hash c (arg c 1) \<and>
    runs c (arg c 1) (spec_henum 1 (\<lambda>(k, v). a_bulk v) es) (cmd_hvals c)"
  by (rule henum_runs [where h = cmd_hvals, OF _ cmd_hvals_def]) (simp_all add: reply_eqs)

end
