(* ===== verification/Cmd_Multi_Correct.thy ===== *)
theory Cmd_Multi_Correct
  imports Cmd_Generic_Correct Cmd_Hash
begin

section \<open>Correctness of the commands over several keys\<close>

text \<open>
  \<open>DEL\<close>, \<open>EXISTS\<close>, \<open>MGET\<close>, \<open>MSET\<close>, \<open>RENAME\<close> and the enumerating commands. \<open>EXISTS\<close> and \<open>MGET\<close> look each
  key up in turn; their statements fix the clock at one reading during the command.
\<close>

subsection \<open>\<open>DEL\<close> and \<open>MSET\<close>\<close>

lemma del_fold:
  assumes "ok c"
  shows "\<exists>db'. foldl del_step (n, c) ks = (n + int (card (set ks \<inter> dom (view c))), c\<lparr>c_db := db'\<rparr>) \<and>
    db_ok db' \<and> db_abs db' = view c |` (- set ks)"
  using assms
proof (induction ks arbitrary: n c)
  case Nil
  then show ?case by (intro exI [of _ "c_db c"]) (simp add: ok_def view_def restrict_map_def)
next
  case (Cons k ks)
  have okc: "db_ok (c_db c)" using Cons.prems by (simp add: ok_def)
  note E = db_erase [OF okc, of k]
  let ?c = "c\<lparr>c_db := snd (ks_erase k (c_db c))\<rparr>"
  let ?n = "if k \<in> dom (view c) then n + 1 else n"
  have st: "del_step (n, c) k = (?n, ?c)" using E(3) by (auto simp: del_step_def db_erase_eq view_def)
  have v: "view ?c = (view c)(k := None)" using E(2) by (simp add: view_def)
  have "ok ?c" using E(1) by (simp add: ok_def)
  from Cons.IH [OF this, of ?n] obtain db' where
    f: "foldl del_step (?n, ?c) ks = (?n + int (card (set ks \<inter> dom (view ?c))), ?c\<lparr>c_db := db'\<rparr>)"
    and d: "db_ok db'" "db_abs db' = view ?c |` (- set ks)" by blast
  have fin: "finite (set ks \<inter> A)" for A by simp
  have "?n + int (card (set ks \<inter> dom (view ?c))) = n + int (card (set (k # ks) \<inter> dom (view c)))"
  proof (cases "k \<in> dom (view c)")
    case True
    then have "set (k # ks) \<inter> dom (view c) = insert k (set ks \<inter> dom (view ?c))" by (auto simp: v)
    moreover have "k \<notin> set ks \<inter> dom (view ?c)" by (simp add: v)
    ultimately show ?thesis using True by simp
  next
    case False
    then have "set (k # ks) \<inter> dom (view c) = set ks \<inter> dom (view ?c)" by (auto simp: v)
    then show ?thesis using False by simp
  qed
  moreover have "db_abs db' = view c |` (- set (k # ks))"
    by (auto simp: d(2) v restrict_map_def fun_eq_iff)
  ultimately show ?case using f d(1) by (intro exI [of _ db']) (simp add: st)
qed

lemma cmd_del_correct:
  assumes "ok c"
  shows "ok (cmd_del c)" "view (cmd_del c) = view c |` (- set (drop 1 (c_argv c)))"
    "c_out (cmd_del c) = c_out c @ a_integer (int (card (set (drop 1 (c_argv c)) \<inter> dom (view c))))"
    "c_dirty (cmd_del c) \<longleftrightarrow> c_dirty c \<or> set (drop 1 (c_argv c)) \<inter> dom (view c) \<noteq> {}"
    "c_argv (cmd_del c) = c_argv c" "c_clock (cmd_del c) = c_clock c"
proof -
  define N where "N = card (set (drop 1 (c_argv c)) \<inter> dom (view c))"
  have N: "N = 0 \<longleftrightarrow> set (drop 1 (c_argv c)) \<inter> dom (view c) = {}" by (simp add: N_def)
  from del_fold [OF assms, of 0 "drop 1 (c_argv c)"] obtain db' where
    f: "foldl del_step (0, c) (drop 1 (c_argv c)) = (int N, c\<lparr>c_db := db'\<rparr>)"
    and d: "db_ok db'" "db_abs db' = view c |` (- set (drop 1 (c_argv c)))" by (auto simp: N_def)
  have e: "cmd_del c = c\<lparr>c_db := db', c_dirty := (c_dirty c \<or> N \<noteq> 0), c_out := c_out c @ a_integer (int N)\<rparr>"
    unfolding cmd_del_def f by (simp add: op_eqs)
  show "ok (cmd_del c)" "view (cmd_del c) = view c |` (- set (drop 1 (c_argv c)))"
    "c_out (cmd_del c) = c_out c @ a_integer (int (card (set (drop 1 (c_argv c)) \<inter> dom (view c))))"
    "c_dirty (cmd_del c) \<longleftrightarrow> c_dirty c \<or> set (drop 1 (c_argv c)) \<inter> dom (view c) \<noteq> {}"
    "c_argv (cmd_del c) = c_argv c" "c_clock (cmd_del c) = c_clock c"
    using d N by (simp_all add: e ok_def view_def N_def)
qed

lemma mset_run:
  assumes "ok c"
  shows "\<exists>db'. mset_loop args c = c\<lparr>c_db := db'\<rparr> \<and> db_ok db' \<and>
    db_abs db' = view c ++ map_of (rev (map (\<lambda>(k, v). (k, (AStr v, None))) (pairs args)))"
  using assms
proof (induction args arbitrary: c rule: pairs.induct)
  case (1 k v rest)
  have okc: "db_ok (c_db c)" using "1.prems" by (simp add: ok_def)
  note S = db_set [OF okc, of "StrObj v" k]
  let ?c = "c\<lparr>c_db := snd (ks_set k (StrObj v) (c_db c))\<rparr>"
  have "ok ?c" using S by (simp add: ok_def)
  from "1.IH" [OF this] obtain db' where "mset_loop rest ?c = ?c\<lparr>c_db := db'\<rparr>" "db_ok db'"
    "db_abs db' = view ?c ++ map_of (rev (map (\<lambda>(k, v). (k, (AStr v, None))) (pairs rest)))" by blast
  moreover have "view ?c = (view c)(k \<mapsto> (AStr v, None))" using S by (simp add: view_def)
  ultimately show ?case
    by (intro exI [of _ db'])
       (simp add: db_set_eq map_add_assoc [symmetric] map_add_def fun_eq_iff split: option.splits)
qed (auto simp: ok_def view_def intro!: exI [of _ "c_db _"])

lemma cmd_mset_correct:
  assumes "ok c" "odd (argc c)"
  shows "ok (cmd_mset c)"
    "view (cmd_mset c) = view c ++ map_of (rev (map (\<lambda>(k, v). (k, (AStr v, None))) (pairs (drop 1 (c_argv c)))))"
    "c_out (cmd_mset c) = c_out c @ a_ok" "c_dirty (cmd_mset c)"
    "c_argv (cmd_mset c) = c_argv c" "c_clock (cmd_mset c) = c_clock c"
  using mset_run [OF assms(1), of "drop 1 (c_argv c)"] assms(2)
  by (auto simp: cmd_mset_def odd_iff_mod_2_eq_one op_eqs a_ok_def ok_def view_def)

subsection \<open>Lookups in turn, at one time\<close>

definition frozen :: "ctx \<Rightarrow> u64 \<Rightarrow> bool" where
  "frozen c now \<longleftrightarrow> (\<forall>i. c_clock c i = now)"

text \<open>The store after the dead entries of some keys have been dropped.\<close>

definition swept :: "u64 \<Rightarrow> bytes set \<Rightarrow> astore \<Rightarrow> astore" where
  "swept now ks s k = (if k \<in> ks then live now s k else s k)"

lemma live_swept [simp]: "live now (swept now ks s) k = live now s k"
  by (auto simp: swept_def live_def split: option.splits)

lemma swept_empty [simp]: "swept now {} s = s"
  by (simp add: swept_def fun_eq_iff)

lemma swept_swept: "swept now ks (swept now ks' s) = swept now (ks \<union> ks') s"
proof
  fix k
  show "swept now ks (swept now ks' s) k = swept now (ks \<union> ks') s k"
    by (auto simp: swept_def live_def split: option.splits)
qed

lemma swept_one: "swept now {k} s = s(k := live now s k)"
  by (auto simp: swept_def fun_eq_iff)

lemma frozen_lookup:
  assumes "ok c" "frozen c now"
  shows "\<exists>db'. snd (db_lookup k c) = c\<lparr>c_tick := Suc (c_tick c), c_db := db'\<rparr> \<and> db_ok db' \<and>
    db_abs db' = swept now {k} (view c) \<and>
    (case fst (db_lookup k c) of
       None \<Rightarrow> live now (view c) k = None
     | Some p \<Rightarrow> \<exists>v d. ks_obj db' p = v \<and> live now (view c) k = Some (obj_abs v, d))"
proof -
  have pk: "peek c k = live now (view c) k" using assms(2) by (simp add: peek_def frozen_def)
  show ?thesis using assms(1)
  proof (cases rule: lookup_cases [of c k])
    case (Gone db1)
    then show ?thesis using pk by (intro exI [of _ db1]) (simp add: swept_one view_def)
  next
    case (Alive p v d)
    then show ?thesis using pk by (intro exI [of _ "c_db c"]) (simp add: swept_one view_def)
  qed
qed

lemma frozen_upd [simp]: "frozen (c\<lparr>c_tick := n, c_db := db\<rparr>) now = frozen c now"
  "frozen (c\<lparr>c_out := out\<rparr>) now = frozen c now" "frozen (c\<lparr>c_hits := n\<rparr>) now = frozen c now"
  "frozen (c\<lparr>c_misses := n\<rparr>) now = frozen c now"
  by (simp_all add: frozen_def)

lemma exists_fold:
  assumes "ok c" "frozen c now"
  shows "\<exists>db' m. foldl exists_step (n, c) ks =
      (n + int (length (filter (\<lambda>k. live now (view c) k \<noteq> None) ks)), c\<lparr>c_tick := m, c_db := db'\<rparr>) \<and>
    db_ok db' \<and> db_abs db' = swept now (set ks) (view c)"
  using assms
proof (induction ks arbitrary: n c)
  case Nil
  then show ?case by (intro exI [of _ "c_db c"] exI [of _ "c_tick c"]) (simp add: ok_def view_def)
next
  case (Cons k ks)
  from frozen_lookup [OF Cons.prems, of k] obtain db1 where
    l: "snd (db_lookup k c) = c\<lparr>c_tick := Suc (c_tick c), c_db := db1\<rparr>" "db_ok db1"
      "db_abs db1 = swept now {k} (view c)"
      "case fst (db_lookup k c) of
       None \<Rightarrow> live now (view c) k = None
     | Some p \<Rightarrow> \<exists>v d. ks_obj db1 p = v \<and> live now (view c) k = Some (obj_abs v, d)" by blast
  then have found: "fst (db_lookup k c) = None \<longleftrightarrow> live now (view c) k = None"
    by (cases "fst (db_lookup k c)") auto
  let ?c = "c\<lparr>c_tick := Suc (c_tick c), c_db := db1\<rparr>"
  let ?n = "if live now (view c) k \<noteq> None then n + 1 else n"
  have st: "exists_step (n, c) k = (?n, ?c)"
    using l(1) found by (cases "fst (db_lookup k c)") (auto simp: exists_step_def db_exists_eq)
  have v: "view ?c = swept now {k} (view c)" using l(3) by (simp add: view_def)
  have "ok ?c" "frozen ?c now" using l(2) Cons.prems(2) by (simp_all add: ok_def)
  from Cons.IH [OF this, of ?n] obtain db' m where
    "foldl exists_step (?n, ?c) ks =
      (?n + int (length (filter (\<lambda>k. live now (view ?c) k \<noteq> None) ks)), ?c\<lparr>c_tick := m, c_db := db'\<rparr>)"
    "db_ok db'" "db_abs db' = swept now (set ks) (view ?c)" by blast
  then show ?case using st
    by (intro exI [of _ db'] exI [of _ m]) (simp add: v swept_swept)
qed

lemma cmd_exists_correct:
  assumes "ok c" "frozen c now"
  shows "ok (cmd_exists c)" "view (cmd_exists c) = swept now (set (drop 1 (c_argv c))) (view c)"
    "c_out (cmd_exists c) = c_out c @
      a_integer (int (length (filter (\<lambda>k. live now (view c) k \<noteq> None) (drop 1 (c_argv c)))))"
    "c_dirty (cmd_exists c) = c_dirty c"
proof -
  from exists_fold [OF assms, of 0 "drop 1 (c_argv c)"] obtain db' m where
    f: "foldl exists_step (0, c) (drop 1 (c_argv c)) =
      (int (length (filter (\<lambda>k. live now (view c) k \<noteq> None) (drop 1 (c_argv c)))), c\<lparr>c_tick := m, c_db := db'\<rparr>)"
    and d: "db_ok db'" "db_abs db' = swept now (set (drop 1 (c_argv c))) (view c)" by auto
  show "ok (cmd_exists c)" "view (cmd_exists c) = swept now (set (drop 1 (c_argv c))) (view c)"
    "c_out (cmd_exists c) = c_out c @
      a_integer (int (length (filter (\<lambda>k. live now (view c) k \<noteq> None) (drop 1 (c_argv c)))))"
    "c_dirty (cmd_exists c) = c_dirty c"
    unfolding cmd_exists_def f using d by (simp_all add: op_eqs ok_def view_def)
qed

definition mget_reply :: "u64 \<Rightarrow> astore \<Rightarrow> bytes \<Rightarrow> bytes" where
  "mget_reply now s k = (case live now s k of Some (AStr x, _) \<Rightarrow> a_bulk x | _ \<Rightarrow> a_nil)"

lemma mget_reply_swept: "mget_reply now (swept now ks s) = mget_reply now s"
  by (simp add: mget_reply_def fun_eq_iff)

lemma mget_fold:
  assumes "ok c" "frozen c now"
  shows "\<exists>db' m h q. foldl mget_step c ks =
      c\<lparr>c_tick := m, c_db := db', c_hits := h, c_misses := q,
        c_out := c_out c @ concat (map (mget_reply now (view c)) ks)\<rparr> \<and>
    h + q = c_hits c + c_misses c + length ks \<and>
    db_ok db' \<and> db_abs db' = swept now (set ks) (view c)"
  using assms
proof (induction ks arbitrary: c)
  case Nil
  then show ?case
    by (intro exI [of _ "c_db c"] exI [of _ "c_tick c"] exI [of _ "c_hits c"] exI [of _ "c_misses c"])
       (simp add: ok_def view_def)
next
  case (Cons k ks)
  from frozen_lookup [OF Cons.prems, of k] obtain db1 where
    l: "snd (db_lookup k c) = c\<lparr>c_tick := Suc (c_tick c), c_db := db1\<rparr>" "db_ok db1"
      "db_abs db1 = swept now {k} (view c)"
      "case fst (db_lookup k c) of
       None \<Rightarrow> live now (view c) k = None
     | Some p \<Rightarrow> \<exists>v d. ks_obj db1 p = v \<and> live now (view c) k = Some (obj_abs v, d)" by blast
  have "\<exists>h q. mget_step c k = c\<lparr>c_tick := Suc (c_tick c), c_db := db1, c_hits := h, c_misses := q,
      c_out := c_out c @ mget_reply now (view c) k\<rparr> \<and> h + q = Suc (c_hits c + c_misses c)"
  proof (cases "fst (db_lookup k c)")
    case None
    with l have "db_lookup k c = (None, c\<lparr>c_tick := Suc (c_tick c), c_db := db1\<rparr>)" by (simp add: prod_eq_iff)
    with l(4) None show ?thesis
      by (intro exI [of _ "c_hits c"] exI [of _ "Suc (c_misses c)"]) (simp add: mget_step_def op_eqs mget_reply_def)
  next
    case (Some p)
    with l have lk: "db_lookup k c = (Some p, c\<lparr>c_tick := Suc (c_tick c), c_db := db1\<rparr>)" by (simp add: prod_eq_iff)
    from l(4) Some obtain d where d: "live now (view c) k = Some (obj_abs (ks_obj db1 p), d)" by auto
    show ?thesis
    proof (cases "\<exists>x. ks_obj db1 p = StrObj x")
      case True
      then obtain x where "ks_obj db1 p = StrObj x" by blast
      with lk d show ?thesis
        by (intro exI [of _ "Suc (c_hits c)"] exI [of _ "c_misses c"])
           (simp add: mget_step_def op_eqs mget_reply_def obj_at_def str_at_def)
    next
      case False
      with d have "mget_reply now (view c) k = a_nil"
        by (cases "ks_obj db1 p") (auto simp: mget_reply_def)
      with False lk show ?thesis
        by (intro exI [of _ "c_hits c"] exI [of _ "Suc (c_misses c)"])
           (simp add: mget_step_def op_eqs obj_at_def type_String_iff)
    qed
  qed
  then obtain h q where st: "mget_step c k = c\<lparr>c_tick := Suc (c_tick c), c_db := db1, c_hits := h, c_misses := q,
      c_out := c_out c @ mget_reply now (view c) k\<rparr>" (is "_ = ?c") and hq: "h + q = Suc (c_hits c + c_misses c)"
    by blast
  have v: "view ?c = swept now {k} (view c)" using l(3) by (simp add: view_def)
  have "ok ?c" "frozen ?c now" using l(2) Cons.prems(2) by (simp_all add: ok_def frozen_def)
  from Cons.IH [OF this] obtain db' m h' q' where
    f: "foldl mget_step ?c ks =
      ?c\<lparr>c_tick := m, c_db := db', c_hits := h', c_misses := q',
        c_out := c_out ?c @ concat (map (mget_reply now (view ?c)) ks)\<rparr>"
    "h' + q' = c_hits ?c + c_misses ?c + length ks"
    "db_ok db'" "db_abs db' = swept now (set ks) (view ?c)" by blast
  have "mget_reply now (view ?c) = mget_reply now (view c)" 
    by (simp only: v mget_reply_swept)
  then show ?case using f st hq
    by (intro exI [of _ db'] exI [of _ m] exI [of _ h'] exI [of _ q']) (simp add: v swept_swept)
qed

lemma cmd_mget_correct:
  assumes "ok c" "frozen c now" "1 \<le> argc c"
  shows "ok (cmd_mget c)" "view (cmd_mget c) = swept now (set (drop 1 (c_argv c))) (view c)"
    "c_out (cmd_mget c) = c_out c @ a_array (int (argc c) - 1) @
      concat (map (mget_reply now (view c)) (drop 1 (c_argv c)))"
    "c_dirty (cmd_mget c) = c_dirty c"
    "c_hits (cmd_mget c) + c_misses (cmd_mget c) = c_hits c + c_misses c + (argc c - 1)"
proof -
  let ?c = "r_array_header (int (argc c) - 1) c"
  have v: "view ?c = view c" and "ok ?c" "frozen ?c now" using assms by (simp_all add: reply_eqs ok_def view_def)
  from mget_fold [OF this(2,3), of "drop 1 (c_argv c)"] obtain db' m h q where
    "cmd_mget c = ?c\<lparr>c_tick := m, c_db := db', c_hits := h, c_misses := q,
        c_out := c_out ?c @ concat (map (mget_reply now (view c)) (drop 1 (c_argv c)))\<rparr>"
    "h + q = c_hits ?c + c_misses ?c + length (drop 1 (c_argv c))"
    "db_ok db'" "db_abs db' = swept now (set (drop 1 (c_argv c))) (view c)"
    by (auto simp: cmd_mget_def v)
  then show "ok (cmd_mget c)" "view (cmd_mget c) = swept now (set (drop 1 (c_argv c))) (view c)"
    "c_out (cmd_mget c) = c_out c @ a_array (int (argc c) - 1) @
      concat (map (mget_reply now (view c)) (drop 1 (c_argv c)))"
    "c_dirty (cmd_mget c) = c_dirty c"
    "c_hits (cmd_mget c) + c_misses (cmd_mget c) = c_hits c + c_misses c + (argc c - 1)"
    by (simp_all add: reply_eqs ok_def view_def argc_def)
qed

subsection \<open>\<open>RENAME\<close>\<close>

lemma cmd_rename_absent:
  assumes "ok c" "peek c (arg c 1) = None"
  shows "runs c (arg c 1) (\<lambda>e. (e, a_error ''ERR no such key'', False)) (cmd_rename c)"
  using assms(1)
proof (cases rule: lookup_cases [of c "arg c 1"])
  case (Gone db1)
  then show ?thesis by (simp add: run_defs cmd_rename_def)
qed (use assms(2) in simp)

lemma cmd_rename_present:
  assumes "ok c" "peek c (arg c 1) = Some e"
  shows "ok (cmd_rename c)"
    "view (cmd_rename c) = (view c)(arg c 1 := None, arg c 2 \<mapsto> e)"
    "c_out (cmd_rename c) = c_out c @ a_ok" "c_dirty (cmd_rename c)"
    "c_argv (cmd_rename c) = c_argv c" "c_clock (cmd_rename c) = c_clock c"
proof -
  let ?a = "arg c 1" and ?b = "arg c 2"
  have "ok (cmd_rename c) \<and> view (cmd_rename c) = (view c)(?a := None, ?b \<mapsto> e) \<and>
    c_out (cmd_rename c) = c_out c @ a_ok \<and> c_dirty (cmd_rename c) \<and> c_argv (cmd_rename c) = c_argv c \<and>
    c_clock (cmd_rename c) = c_clock c"
    using assms(1)
  proof (cases rule: lookup_cases [of c ?a])
    case (Gone db1)
    then show ?thesis using assms(2) by simp
  next
    case (Alive p v d)
    then have e: "e = (obj_abs v, d)" and nd: "\<not> due (reading c) d"
      using assms(2) by (simp_all add: peek_def live_Some reading_def)
    note E = db_erase [OF Alive(2), of ?a]
    note S = db_set [OF E(1) Alive(5), of ?b]
    let ?db = "snd (ks_set ?b v (snd (ks_erase ?a (c_db c))))"
    have dz: "ks_deadline_or_zero ?a (c_db c) = (case d of Some x \<Rightarrow> x | None \<Rightarrow> 0)"
      using db_deadline_or_zero [OF Alive(2), of ?a] Alive(7) by simp
    show ?thesis
    proof (cases d)
      case None
      then show ?thesis using Alive E S dz e by (simp add: run_defs cmd_rename_def a_ok_def Let_def)
    next
      case (Some x)
      with nd have "x \<noteq> 0" by auto
      have "db_abs ?db ?b = Some (obj_abs v, None)" using S(2) by simp
      from db_deadline [OF S(1) this, of x] show ?thesis
        using Alive E S dz e Some \<open>x \<noteq> 0\<close> by (simp add: run_defs cmd_rename_def a_ok_def Let_def)
    qed
  qed
  then show "ok (cmd_rename c)" "view (cmd_rename c) = (view c)(?a := None, ?b \<mapsto> e)"
    "c_out (cmd_rename c) = c_out c @ a_ok" "c_dirty (cmd_rename c)" "c_argv (cmd_rename c) = c_argv c"
    "c_clock (cmd_rename c) = c_clock c" by auto
qed

subsection \<open>Enumeration\<close>

text \<open>What \<open>KEYS\<close> and \<open>SCAN\<close> take for alive: a deadline of 0 counts as no deadline.\<close>

fun listed :: "u64 \<Rightarrow> u64 option \<Rightarrow> bool" where
  "listed now None = True"
| "listed now (Some d) = (d = 0 \<or> d > now)"

lemma visit_fold:
  "foldl (\<lambda>acc (k, v). if P k v then acc @ [k] else acc) acc es = acc @ map fst (filter (\<lambda>(k, v). P k v) es)"
  by (induction es arbitrary: acc) auto

lemma dict_entries:
  assumes "db_ok db"
  shows "distinct (map fst (sw_entries (ks_dict db)))"
    "(k, v) \<in> set (sw_entries (ks_dict db)) \<longleftrightarrow> (\<exists>d. ks_abs db k = Some (v, d))"
  using sw.entries_distinct [OF ks_inv_parts(1), of db] sw.in_entries [OF ks_inv_parts(1), of db k v] assms
  by (simp_all add: ks_abs_def)

lemma distinct_map_fst_filter: "distinct (map fst es) \<Longrightarrow> distinct (map fst (filter P es))"
  by (induction es) auto

lemma enum_set:
  assumes "db_ok db"
  shows "distinct (map fst (filter (\<lambda>(k, v). P k v) (sw_entries (ks_dict db))))"
    "set (map fst (filter (\<lambda>(k, v). P k v) (sw_entries (ks_dict db)))) =
      {k. \<exists>v d. ks_abs db k = Some (v, d) \<and> P k v}"
proof -
  show "distinct (map fst (filter (\<lambda>(k, v). P k v) (sw_entries (ks_dict db))))"
    by (rule distinct_map_fst_filter) (rule dict_entries(1) [OF assms])
  show "set (map fst (filter (\<lambda>(k, v). P k v) (sw_entries (ks_dict db)))) =
      {k. \<exists>v d. ks_abs db k = Some (v, d) \<and> P k v}"
    using dict_entries(2) [OF assms] by force
qed

lemma listed_deadline:
  assumes "db_ok db" "db_abs db k = Some (a, d)"
  shows "\<not> (ks_deadline_or_zero k db \<noteq> 0 \<and> ks_deadline_or_zero k db \<le> now) \<longleftrightarrow> listed now d"
  using db_deadline_or_zero [OF assms(1), of k] assms(2) by (cases d) auto

lemma cmd_keys_correct:
  assumes "ok c"
  shows "\<exists>ms. distinct ms \<and>
    set ms = {k. \<exists>a d. view c k = Some (a, d) \<and> listed (reading c) d \<and> glob_match (arg c 1) k} \<and>
    cmd_keys c = (ticked c)\<lparr>c_out := c_out c @ a_array (int (length ms)) @ concat (map a_bulk ms)\<rparr>"
proof -
  let ?P = "\<lambda>k v. \<not> (ks_deadline_or_zero k (c_db c) \<noteq> 0 \<and> ks_deadline_or_zero k (c_db c) \<le> reading c) \<and>
    glob_match (arg c 1) k"
  let ?ms = "map fst (filter (\<lambda>(k, v). ?P k v) (sw_entries (ks_dict (c_db c))))"
  have okc: "db_ok (c_db c)" using assms by (simp add: ok_def)
  have fold: "ks_for_each (keys_visit (c_db c) (reading c) (arg c 1)) (c_db c) [] = ?ms"
  proof -
    have "keys_visit (c_db c) (reading c) (arg c 1) = (\<lambda>k v acc. if ?P k v then acc @ [k] else acc)"
      by (auto simp: keys_visit_def fun_eq_iff Let_def)
    then show ?thesis using visit_fold [of ?P "[]"] by (simp add: ks_for_each_def sw_for_each_def)
  qed
  have "set ?ms = {k. \<exists>a d. view c k = Some (a, d) \<and> listed (reading c) d \<and> glob_match (arg c 1) k}"
    unfolding enum_set(2) [OF okc]
    using listed_deadline [OF okc] by (fastforce simp: view_def db_abs_def)
  moreover have "cmd_keys c = (ticked c)\<lparr>c_out := c_out c @ a_array (int (length ?ms)) @ concat (map a_bulk ?ms)\<rparr>"
  proof -
    have "cmd_keys c = foldl (\<lambda>c m. r_bulk m c) (r_array_header (int (length ?ms)) (ticked c)) ?ms"
      using fold by (simp add: cmd_keys_def now_ms_eq Let_def)
    then show ?thesis unfolding fold_bulks by (simp add: reply_eqs ticked_def)
  qed
  ultimately show ?thesis using enum_set(1) [OF okc, of ?P] by blast
qed

lemma cmd_scan_correct:
  assumes "ok c" "scan_options (drop 2 (c_argv c)) ''*'' None = (pat, ty)"
  shows "\<exists>ms. distinct ms \<and>
    set ms = {k. \<exists>a d. view c k = Some (a, d) \<and> listed (reading c) d \<and>
      (ty = None \<or> ty = Some (aobj_type a)) \<and> glob_match pat k} \<and>
    cmd_scan c = (ticked c)\<lparr>c_out := c_out c @ a_array 2 @ a_bulk ''0'' @ a_array (int (length ms)) @
      concat (map a_bulk ms)\<rparr>"
proof -
  let ?P = "\<lambda>k v. \<not> (ks_deadline_or_zero k (c_db c) \<noteq> 0 \<and> ks_deadline_or_zero k (c_db c) \<le> reading c) \<and>
    (ty = None \<or> ty = Some (obj_type v)) \<and> glob_match pat k"
  let ?ms = "map fst (filter (\<lambda>(k, v). ?P k v) (sw_entries (ks_dict (c_db c))))"
  have okc: "db_ok (c_db c)" using assms by (simp add: ok_def)
  have fold: "ks_for_each (scan_visit (c_db c) (reading c) pat ty) (c_db c) [] = ?ms"
  proof -
    have "scan_visit (c_db c) (reading c) pat ty = (\<lambda>k v acc. if ?P k v then acc @ [k] else acc)"
      by (auto simp: scan_visit_def fun_eq_iff Let_def)
    then show ?thesis using visit_fold [of ?P "[]"] by (simp add: ks_for_each_def sw_for_each_def)
  qed
  have "set ?ms = {k. \<exists>a d. view c k = Some (a, d) \<and> listed (reading c) d \<and>
      (ty = None \<or> ty = Some (aobj_type a)) \<and> glob_match pat k}"
    unfolding enum_set(2) [OF okc]
    using listed_deadline [OF okc] by (fastforce simp: view_def db_abs_def)
  moreover have "cmd_scan c = (ticked c)\<lparr>c_out := c_out c @ a_array 2 @ a_bulk ''0'' @
      a_array (int (length ?ms)) @ concat (map a_bulk ?ms)\<rparr>"
  proof -
    have "cmd_scan c = foldl (\<lambda>c m. r_bulk m c)
        (r_array_header (int (length ?ms)) (r_bulk ''0'' (r_array_header 2 (ticked c)))) ?ms"
      using fold by (simp add: cmd_scan_def assms(2) now_ms_eq Let_def)
    then show ?thesis unfolding fold_bulks by (simp add: reply_eqs ticked_def)
  qed
  ultimately show ?thesis using enum_set(1) [OF okc, of ?P] by blast
qed

lemma cmd_randomkey_run: "\<exists>out. cmd_randomkey c = c\<lparr>c_out := c_out c @ out\<rparr>"
  by (auto simp: cmd_randomkey_def reply_eqs split: option.splits)

end
