(* ===== verification/Cmd_Sound.thy ===== *)
theory Cmd_Sound
  imports Cmd_Multi_Correct
begin

section \<open>Every handler is sound\<close>

text \<open>
  From the specifications of the handlers: each one keeps the keyspace well formed, leaves no empty
  container behind, only appends to the reply, and changes the store without marking the command as a
  write only by forgetting dead entries. The number of arguments each handler relies on is the one
  that the command table checks before the call.
\<close>

subsection \<open>The specifications are well formed\<close>

named_theorems well_specs \<open>specifications that change entries only when they say so\<close>

lemma well_specI:
  assumes "\<And>e e' out d. entry_full e \<Longrightarrow> f e = (e', out, d) \<Longrightarrow> (d \<or> e' = e) \<and> entry_full e'"
  shows "well_spec f"
  using assms by (fastforce simp: well_spec_def split: prod.splits)

definition well_at :: "(aentry option \<Rightarrow> outcome) \<Rightarrow> aentry option \<Rightarrow> bool" where
  "well_at f e \<longleftrightarrow> (case f e of (e', out, d) \<Rightarrow> (d \<or> e' = e) \<and> entry_full e')"

text \<open>By cases on what is under the key.\<close>

lemma well_spec_cases:
  assumes "well_at f None" "\<And>s d. well_at f (Some (AStr s, d))"
    "\<And>l d. l \<noteq> [] \<Longrightarrow> well_at f (Some (AList l, d))" "\<And>m d. m \<noteq> Map.empty \<Longrightarrow> well_at f (Some (AHash m, d))"
    "\<And>s d. s \<noteq> {} \<Longrightarrow> well_at f (Some (ASet s, d))" "\<And>z d. z \<noteq> Map.empty \<Longrightarrow> well_at f (Some (AZSet z, d))"
    "\<And>s d. well_at f (Some (AHll s, d))"
  shows "well_spec f"
  unfolding well_spec_def
proof (intro allI impI)
  fix e
  assume "entry_full e"
  then have "well_at f e"
  proof (cases e)
    case (Some x)
    then show ?thesis using assms(2-7) \<open>entry_full e\<close> by (cases x; cases "fst x") simp_all
  qed (use assms(1) in simp)
  then show "case f e of (e', out, d) \<Rightarrow> (d \<or> e' = e) \<and> entry_full e'" by (simp add: well_at_def)
qed

lemma pairs_nonempty: "2 \<le> length args \<Longrightarrow> pairs args \<noteq> []"
  by (induction args rule: pairs.induct) simp_all

lemma well_strings [well_specs]:
  "well_spec spec_get" "well_spec spec_strlen" "well_spec (spec_getset v)" "well_spec (spec_append v)"
  "well_spec (spec_incr delta)" "well_spec (spec_getrange a b)" "well_spec (spec_setrange a v)"
  "well_spec (spec_setnx v)" "well_spec (spec_setex m a v now)"
  by (rule well_spec_cases; auto simp: well_at_def spec_get_def spec_strlen_def spec_getset_def spec_append_def
      spec_incr_def spec_getrange_def spec_setrange_def spec_setnx_def spec_setex_def Let_def
      split: option.splits)+

lemma well_set: "well_under clk (spec_set s v (clk i))"
  unfolding well_under_def
proof (intro allI impI)
  fix e
  assume full: "entry_full e"
  show "case spec_set s v (clk i) e of (e', out, d) \<Rightarrow>
    (d \<or> e' = e \<or> e' = None \<and> (\<exists>a dl i. e = Some (a, Some dl) \<and> dl \<le> clk i)) \<and> entry_full e'"
  proof (cases e)
    case (Some x)
    obtain a d where "x = (a, d)" by fastforce
    then show ?thesis using Some full by (cases d) (auto simp: spec_set_def Let_def split: aobj.splits)
  qed (auto simp: spec_set_def Let_def)
qed

lemma well_generic [well_specs]:
  "well_spec (spec_deadline dl)" "well_spec spec_persist" "well_spec (spec_pttl now)" "well_spec spec_type"
  "well_spec (spec_object sub)"
  by (rule well_spec_cases; auto simp: well_at_def spec_deadline_def spec_persist_def spec_pttl_def spec_type_def
      spec_object_def split: option.splits)+

lemma well_lists [well_specs]:
  "args \<noteq> [] \<Longrightarrow> well_spec (spec_push head args)" "well_spec (spec_pop head a)" "well_spec spec_llen"
  "well_spec (spec_lrange a' b)" "well_spec (spec_lindex i)" "well_spec (spec_lset i v)"
  by (rule well_spec_cases; auto simp: well_at_def spec_push_def spec_pop_def spec_llen_def spec_lrange_def
      spec_lindex_def spec_lset_def Let_def split: option.splits)+

lemma well_sets [well_specs]:
  "args \<noteq> [] \<Longrightarrow> well_spec (spec_sadd args)" "well_spec (spec_srem args)" "well_spec (spec_sismember a)"
  "well_spec spec_scard" "well_spec (spec_smembers ms)" "well_spec (spec_spop a' ms)"
  by (rule well_spec_cases; auto simp: well_at_def spec_sadd_def spec_srem_def spec_sismember_def spec_scard_def
      spec_smembers_def spec_spop_def set_entry_def Let_def split: option.splits)+

lemma restrict_disjoint: "A \<inter> dom m = {} \<Longrightarrow> m |` (- A) = m"
  by (rule ext) (auto simp: restrict_map_def disjoint_iff domIff)

lemma well_hdel: "well_spec (spec_hdel args)"
  by (rule well_spec_cases; auto simp: well_at_def spec_hdel_def hash_entry_def Let_def restrict_disjoint)

lemma well_hashes [well_specs]:
  "2 \<le> length args \<Longrightarrow> well_spec (spec_hset name args)" "well_spec (spec_hget f)" "well_spec (spec_hdel args)"
  "well_spec (spec_hexists f)" "well_spec spec_hlen" "well_spec (spec_hmget args)" "well_spec (spec_henum w g es)"
  "well_spec (spec_hincrby f delta)"
  by (simp_all add: well_hdel)
    (rule well_spec_cases; auto simp: well_at_def spec_hset_def spec_hget_def spec_hdel_def spec_hexists_def
      spec_hlen_def spec_hmget_def spec_henum_def spec_hincrby_def hash_entry_def Let_def pairs_nonempty
      split: option.splits)+

subsection \<open>The handlers\<close>

text \<open>A context the handlers can start from.\<close>

definition ready :: "ctx \<Rightarrow> bool" where
  "ready c \<longleftrightarrow> ok c \<and> store_full (view c)"

lemma readyD: "ready c \<Longrightarrow> ok c" "ready c \<Longrightarrow> store_full (view c)"
  by (simp_all add: ready_def)

lemma sound_by_runs: "ready c \<Longrightarrow> runs c k f (h c) \<Longrightarrow> well_spec f \<Longrightarrow> sound c (h c)"
  by (rule sound_runs) (simp_all add: ready_def)

lemma sound_out: "ok c \<Longrightarrow> sound c (c\<lparr>c_out := c_out c @ s\<rparr>)"
  by (simp add: sound_def ok_def view_def)

lemma sound_reply:
  "ok c \<Longrightarrow> sound c (r_error s c)" "ok c \<Longrightarrow> sound c (err_not_int c)" "ok c \<Longrightarrow> sound c (r_integer n c)"
  "ok c \<Longrightarrow> sound c (r_simple_string s c)" "ok c \<Longrightarrow> sound c (r_bulk s c)" "ok c \<Longrightarrow> sound c (r_null_bulk c)"
  "ok c \<Longrightarrow> sound c (r_array_header n c)" "ok c \<Longrightarrow> sound c (err_wrong_args c)"
  by (simp_all add: reply_eqs sound_out err_wrong_args_def)

lemma sound_ticked: "sound (ticked c) c' \<Longrightarrow> sound c c'"
  by (simp add: sound_def ticked_def ok_def view_def)

lemma runs_ticked: "runs (ticked c) k f c' \<Longrightarrow> well_spec f \<Longrightarrow> ready c \<Longrightarrow> sound c c'"
  by (rule sound_ticked, rule sound_runs) (simp_all add: ticked_def ready_def view_def)

lemma incr_step_runs: "ok c \<Longrightarrow> runs c (arg c 1) (spec_incr 1) (cmd_incr c)"
  "ok c \<Longrightarrow> runs c (arg c 1) (spec_incr (- 1)) (cmd_decr c)"
  by (simp_all only: cmd_incr_def cmd_decr_def incr_by_runs in_i64_1 in_i64_m1)

lemma list_runs:
  "ok c \<Longrightarrow> runs c (arg c 1) (spec_pop True (pop_arg c)) (cmd_lpop c)"
  "ok c \<Longrightarrow> runs c (arg c 1) (spec_pop False (pop_arg c)) (cmd_rpop c)"
  by (simp_all only: cmd_lpop_def cmd_rpop_def pop_runs)

lemmas single_runs =
  cmd_get_runs cmd_strlen_runs cmd_getset_runs cmd_append_runs cmd_getrange_runs cmd_setrange_runs
  cmd_setnx_runs cmd_setex_runs incr_step_runs cmd_persist_runs cmd_type_runs cmd_pttl_runs
  list_runs cmd_llen_runs cmd_lrange_runs cmd_lindex_runs cmd_lset_runs
  cmd_srem_runs cmd_sismember_runs cmd_scard_runs cmd_hget_runs cmd_hdel_runs cmd_hexists_runs cmd_hlen_runs

lemma well_pttl: "well_spec (\<lambda>e. (e, g e, False))"
  by (rule well_specI) auto

lemma sound_single:
  assumes "ready c"
  shows "sound c (cmd_get c)" "sound c (cmd_strlen c)" "sound c (cmd_getset c)" "sound c (cmd_append c)"
    "sound c (cmd_getrange c)" "sound c (cmd_setrange c)" "sound c (cmd_setnx c)" "sound c (cmd_setex c)"
    "sound c (cmd_incr c)" "sound c (cmd_decr c)" "sound c (cmd_persist c)" "sound c (cmd_type c)"
    "sound c (cmd_pttl c)" "sound c (cmd_lpop c)" "sound c (cmd_rpop c)" "sound c (cmd_llen c)"
    "sound c (cmd_lrange c)" "sound c (cmd_lindex c)" "sound c (cmd_lset c)" "sound c (cmd_srem c)"
    "sound c (cmd_sismember c)" "sound c (cmd_scard c)" "sound c (cmd_hget c)" "sound c (cmd_hdel c)"
    "sound c (cmd_hexists c)" "sound c (cmd_hlen c)"
  by (rule sound_by_runs [OF assms], rule single_runs, rule readyD(1) [OF assms], rule well_specs well_pttl)+

lemma sound_incr_by: "ready c \<Longrightarrow> in_i64 d \<Longrightarrow> sound c (incr_by d c)"
  by (rule sound_by_runs [OF _ incr_by_runs well_strings(5)]) (simp_all add: ready_def)

lemma ready_flag_ub [simp]: "ready (flag_ub c) = ready c"
  by (simp add: ready_def flag_ub_def ok_def view_def)

lemma sound_flag_ub: "sound (flag_ub c) c' \<Longrightarrow> sound c c'"
  by (simp add: sound_def flag_ub_def ok_def view_def)

lemma sound_incrby:
  assumes "ready c"
  shows "sound c (cmd_incrby c)" "sound c (cmd_decrby c)"
proof -
  have neg: "in_i64 (- d)" if "parse_int (arg c 2) = Some d" "d \<noteq> i64_min" for d
    using parse_int_range [OF that(1)] that(2) by (auto simp: in_i64_iff i64_min_def)
  have "in_i64 i64_min" by (simp add: in_i64_def i64_min_def i64_max_def)
  then show "sound c (cmd_decrby c)"
    using assms neg readyD(1) [OF assms]
    by (auto simp: cmd_decrby_def split: option.splits
        intro: sound_reply sound_incr_by sound_flag_ub [OF sound_incr_by])
  show "sound c (cmd_incrby c)"
    using assms readyD(1) [OF assms]
    by (auto simp: cmd_incrby_def split: option.splits intro: sound_reply sound_incr_by dest: parse_int_range)
qed

lemma sound_arity:
  assumes "ready c"
  shows "3 \<le> argc c \<Longrightarrow> sound c (cmd_lpush c)" "3 \<le> argc c \<Longrightarrow> sound c (cmd_rpush c)"
    "3 \<le> argc c \<Longrightarrow> sound c (cmd_sadd c)" "4 \<le> argc c \<Longrightarrow> sound c (cmd_hset c)" "2 \<le> argc c \<Longrightarrow> sound c (cmd_hmget c)"
    "sound c (cmd_object c)"
proof -
  note ok = readyD(1) [OF assms]
  have args: "3 \<le> argc c \<Longrightarrow> drop 2 (c_argv c) \<noteq> []" "4 \<le> argc c \<Longrightarrow> 2 \<le> length (drop 2 (c_argv c))"
    by (simp_all add: argc_def)
  show "3 \<le> argc c \<Longrightarrow> sound c (cmd_lpush c)" "3 \<le> argc c \<Longrightarrow> sound c (cmd_rpush c)"
    using sound_runs [OF push_runs [OF ok] well_lists(1) readyD(2) [OF assms]] args
    by (simp_all add: cmd_lpush_def cmd_rpush_def)
  show "3 \<le> argc c \<Longrightarrow> sound c (cmd_sadd c)"
    using sound_runs [OF cmd_sadd_runs [OF ok] well_sets(1) readyD(2) [OF assms]] args by simp
  show "4 \<le> argc c \<Longrightarrow> sound c (cmd_hset c)"
    using sound_runs [OF cmd_hset_runs [OF ok] well_hashes(1) readyD(2) [OF assms]] args by simp
  show "2 \<le> argc c \<Longrightarrow> sound c (cmd_hmget c)"
    using sound_runs [OF cmd_hmget_runs [OF ok] well_hashes(6) readyD(2) [OF assms]] by simp
  show "sound c (cmd_object c)"
  proof (cases "argc c < 3")
    case True
    then show ?thesis by (simp add: cmd_object_def sound_reply ok)
  next
    case False
    then show ?thesis
      using sound_runs [OF cmd_object_runs [OF ok] well_generic(5) readyD(2) [OF assms]] by simp
  qed
qed

lemma sound_enumerations:
  assumes "ready c"
  shows "sound c (cmd_smembers c)" "sound c (cmd_hgetall c)" "sound c (cmd_hkeys c)" "sound c (cmd_hvals c)"
    "sound c (cmd_spop c)"
proof -
  note ok = readyD(1) [OF assms] and s = sound_runs [OF _ _ readyD(2) [OF assms]]
  show "sound c (cmd_smembers c)" using cmd_smembers_runs [OF ok] by (meson s well_sets(5))
  show "sound c (cmd_spop c)" using cmd_spop_runs [OF ok] by (meson s well_sets(6))
  show "sound c (cmd_hgetall c)" using cmd_hgetall_runs [OF ok] by (meson s well_hashes(7))
  show "sound c (cmd_hkeys c)" using cmd_hkeys_runs [OF ok] by (meson s well_hashes(7))
  show "sound c (cmd_hvals c)" using cmd_hvals_runs [OF ok] by (meson s well_hashes(7))
qed

lemma sound_deadlines:
  assumes "ready c"
  shows "sound c (cmd_expire c)" "sound c (cmd_pexpire c)" "sound c (cmd_expireat c)"
proof -
  note ok = readyD(1) [OF assms]
  show "sound c (cmd_expire c)"
    using runs_ticked [OF cmd_expire_runs [OF ok] well_generic(1) assms]
    by (cases "parse_int (arg c 2)") (simp_all add: cmd_expire_def sound_reply ok)
  show "sound c (cmd_pexpire c)"
    using runs_ticked [OF cmd_pexpire_runs [OF ok] well_generic(1) assms]
    by (cases "parse_int (arg c 2)") (simp_all add: cmd_pexpire_def sound_reply ok)
  show "sound c (cmd_expireat c)"
    using sound_runs [OF cmd_expireat_runs [OF ok] well_generic(1) readyD(2) [OF assms]]
    by (cases "parse_int (arg c 2)") (simp_all add: cmd_expireat_def sound_reply ok)
qed

lemma sound_lookup:
  assumes "ok c"
  shows "sound c (snd (db_lookup k c))"
    "fst (db_lookup k c) = Some p \<Longrightarrow> snd (db_lookup k c) = ticked c \<and>
       (\<exists>v d. ks_at (c_db c) k p \<and> ks_obj (c_db c) p = v \<and> obj_wf v \<and> view c k = Some (obj_abs v, d))"
proof -
  have "sound c (snd (db_lookup k c)) \<and> (fst (db_lookup k c) = Some p \<longrightarrow> snd (db_lookup k c) = ticked c \<and>
       (\<exists>v d. ks_at (c_db c) k p \<and> ks_obj (c_db c) p = v \<and> obj_wf v \<and> view c k = Some (obj_abs v, d)))"
  proof (cases rule: db_lookup_cases [OF assms, of k])
    case (1 db1)
    have "(view c)(k := None) = (view c)(k := live (c_clock c (c_tick c)) (view c) k)"
      using 1(4) by (simp add: peek_def)
    then have f: "forgets (c_clock c) (view c) ((view c)(k := None))" using forgets_live by metis
    then have "store_full (view c) \<longrightarrow> store_full ((view c)(k := None))" using store_full_forgets by blast
    then show ?thesis using 1 f by (simp add: sound_def ok_def view_def)
  next
    case (2 q v d)
    then show ?thesis using assms by (auto simp: sound_def ticked_def ok_def view_def)
  qed
  then show "sound c (snd (db_lookup k c))" "fst (db_lookup k c) = Some p \<Longrightarrow> snd (db_lookup k c) = ticked c \<and>
       (\<exists>v d. ks_at (c_db c) k p \<and> ks_obj (c_db c) p = v \<and> obj_wf v \<and> view c k = Some (obj_abs v, d))"
    by auto
qed

lemma soundD: "sound c c' \<Longrightarrow> ok c'" "sound c c' \<Longrightarrow> c_argv c' = c_argv c"
  by (simp_all add: sound_def)

lemma sound_exists_step:
  assumes "sound c0 (snd s)" shows "sound c0 (snd (exists_step s k))"
  using sound_trans [OF assms sound_lookup(1) [OF soundD(1) [OF assms]], of k]
  by (simp add: exists_step_def db_exists_eq split_beta)

lemma sound_cong:
  "sound c c' \<Longrightarrow> c_db c'' = c_db c' \<Longrightarrow> c_dirty c'' = c_dirty c' \<Longrightarrow> c_argv c'' = c_argv c' \<Longrightarrow>
   c_clock c'' = c_clock c' \<Longrightarrow> (\<exists>out. c_out c'' = c_out c' @ out) \<Longrightarrow> sound c c''"
  by (auto simp: sound_def ok_def view_def)

lemma sound_mget_step:
  assumes "sound c0 c" shows "sound c0 (mget_step c k)"
proof -
  have s: "sound c0 (snd (db_lookup k c))"
    using sound_trans [OF assms sound_lookup(1) [OF soundD(1) [OF assms]]] .
  show ?thesis by (rule sound_cong [OF s]) (auto simp: mget_step_def op_eqs split: prod.splits option.splits)
qed

lemma sound_fold:
  assumes "\<And>s x. P s \<Longrightarrow> P (f s x)" "P s" shows "P (foldl f s xs)"
  using assms by (induction xs arbitrary: s) simp_all

lemma sound_multi_reads:
  assumes "ready c"
  shows "sound c (cmd_exists c)" "sound c (cmd_mget c)"
proof -
  note ok = readyD(1) [OF assms]
  have "sound c (snd (foldl exists_step (0, c) (drop 1 (c_argv c))))"
    by (rule sound_fold [where P = "\<lambda>s. sound c (snd s)"]) (simp_all add: sound_exists_step sound_refl ok)
  then show "sound c (cmd_exists c)"
    by (rule sound_cong) (auto simp: cmd_exists_def reply_eqs split: prod.splits)
  show "sound c (cmd_mget c)"
    unfolding cmd_mget_def
    by (rule sound_fold [where P = "sound c"]) (simp_all add: sound_mget_step sound_reply ok)
qed

lemma sound_writes:
  assumes "ready c"
  shows "sound c (cmd_del c)" "sound c (cmd_unlink c)" "sound c (cmd_mset c)"
proof -
  note ok = readyD(1) [OF assms] and full = readyD(2) [OF assms]
  note d = cmd_del_correct [OF ok]
  have "view (cmd_del c) = view c" if "set (drop 1 (c_argv c)) \<inter> dom (view c) = {}"
    using d(2) restrict_disjoint [OF that] by simp
  moreover have "store_full (view c |` (- A))" for A using full by (auto simp: store_full_def restrict_map_def)
  ultimately show del: "sound c (cmd_del c)" using d by (auto simp: sound_def)
  then show "sound c (cmd_unlink c)" by (simp add: cmd_unlink_def)
  show "sound c (cmd_mset c)"
  proof (cases "odd (argc c)")
    case True
    note m = cmd_mset_correct [OF ok True]
    have "store_full (view (cmd_mset c))"
      using full unfolding m(2)
      by (auto simp: store_full_def map_add_def split: option.splits dest!: map_of_SomeD)
    then show ?thesis using m by (auto simp: sound_def)
  next
    case False
    then show ?thesis by (simp add: cmd_mset_def sound_reply ok)
  qed
qed

lemma sound_rename: assumes "ready c" shows "sound c (cmd_rename c)"
proof (cases "peek c (arg c 1)")
  case None
  then show ?thesis by (rule sound_runs [OF cmd_rename_absent [OF readyD(1) [OF assms]] well_pttl readyD(2) [OF assms]])
next
  case (Some e)
  have "entry_full (Some e)"
    using entry_full_live [OF readyD(2) [OF assms], of "c_clock c (c_tick c)" "arg c 1"] Some by (simp add: peek_def)
  then have "store_full ((view c)(arg c 1 := None, arg c 2 \<mapsto> e))"
    using readyD(2) [OF assms] by (intro store_full_upd) simp_all
  then show ?thesis using cmd_rename_present [OF readyD(1) [OF assms] Some] by (auto simp: sound_def)
qed

lemma sound_lists:
  assumes "ready c"
  shows "sound c (cmd_keys c)" "sound c (cmd_scan c)" "sound c (cmd_randomkey c)"
proof -
  note ok = readyD(1) [OF assms] and refl = sound_refl [OF readyD(1) [OF assms]]
  obtain ms where "cmd_keys c = (ticked c)\<lparr>c_out := c_out c @ a_array (int (length ms)) @ concat (map a_bulk ms)\<rparr>"
    using cmd_keys_correct [OF ok] by blast
  then show "sound c (cmd_keys c)" by (intro sound_cong [OF refl]) (simp_all add: ticked_def)
  obtain pat ty where "scan_options (drop 2 (c_argv c)) ''*'' None = (pat, ty)" by fastforce
  from cmd_scan_correct [OF ok this] obtain ms where
    "cmd_scan c = (ticked c)\<lparr>c_out := c_out c @ a_array 2 @ a_bulk ''0'' @ a_array (int (length ms)) @
        concat (map a_bulk ms)\<rparr>" by blast
  then show "sound c (cmd_scan c)" by (intro sound_cong [OF refl]) (simp_all add: ticked_def)
  show "sound c (cmd_randomkey c)"
    using cmd_randomkey_run [of c] by (auto intro: sound_cong [OF refl])
qed

lemma sound_ttl: assumes "ready c" shows "sound c (cmd_ttl c)"
proof -
  have inv: "ks_inv (c_db c)" using readyD(1) [OF assms] by (simp add: ok_def)
  have eqs: "c_db (snd (db_ttl_ms (arg c 1) c)) = c_db (snd (db_lookup (arg c 1) c))"
    using ks_ttl_correct(1) [OF inv] by (simp add: db_ttl_ms_def now_ms_def db_lookup_eq split_beta)
  show ?thesis
    by (rule sound_cong [OF sound_lookup(1) [OF readyD(1) [OF assms], of "arg c 1"]])
      (use eqs in \<open>auto simp: cmd_ttl_def op_eqs db_ttl_ms_def db_lookup_eq split: prod.splits\<close>)
qed

lemma sound_hincrby: "ready c \<Longrightarrow> \<not> c_ub (cmd_hincrby c) \<Longrightarrow> sound c (cmd_hincrby c)"
  by (rule sound_runs [OF cmd_hincrby_runs well_hashes(8)]) (simp_all add: ready_def)

lemma sound_set: assumes "ready c" shows "sound c (cmd_set c)"
proof -
  note ok = readyD(1) [OF assms]
  have run: "opts_done c (set_options (drop 3 (c_argv c)) set_init c)" by (rule set_options_run)
  show ?thesis
  proof (cases "set_options (drop 3 (c_argv c)) set_init c")
    case (Pair r c1)
    show ?thesis
    proof (cases r)
      case None
      then have "cmd_set c = c1" using Pair by (simp add: cmd_set_def set_init_def)
      moreover obtain n e where "c1 = c\<lparr>c_tick := n, c_out := c_out c @ e\<rparr>"
        using run Pair None by (auto simp: opts_done_def)
      ultimately show ?thesis by (intro sound_cong [OF sound_refl [OF ok]]) simp_all
    next
      case (Some s)
      then obtain n where c1: "c1 = c\<lparr>c_tick := n\<rparr>" using run Pair by (auto simp: opts_done_def)
      have "sound c1 (cmd_set c)"
        by (rule sound_runs_under [OF cmd_set_runs [OF ok Pair [unfolded Some]]])
          (use c1 readyD(2) [OF assms] in \<open>simp_all add: well_set view_def\<close>)
      then show ?thesis using c1 by (simp add: sound_def view_def)
    qed
  qed
qed

end
