(* ===== verification/Cmd_ZSet.thy ===== *)
theory Cmd_ZSet
  imports Cmd_Sound
begin

section \<open>Sorted set commands (\<^verbatim>\<open>src/commands/zset_cmds.cpp\<close>)\<close>

text \<open>
  A sorted set keeps each member twice, in a table from members to scores and in the skip list. The
  arithmetic and the text of doubles are the C library's and the processor's: \<open>strtod\<close> (value, number
  of characters read, range error), \<open>snprintf\<close> with \<^verbatim>\<open>%.17g\<close>, and addition are parameters.
\<close>

subsection \<open>Doubles as text (\<^verbatim>\<open>src/store/object.cpp\<close>)\<close>

record fp =
  fp_strtod :: "bytes \<Rightarrow> dbl \<times> nat \<times> bool"
  fp_print :: "dbl \<Rightarrow> bytes"
  fp_add :: "dbl \<Rightarrow> dbl \<Rightarrow> dbl"

definition parse_double :: "fp \<Rightarrow> bytes \<Rightarrow> dbl option" where
  "parse_double F s =
     (if s = [] then None
      else if s = ''inf'' \<or> s = ''+inf'' \<or> s = ''Inf'' \<or> s = ''+Inf'' then Some d_infinity
      else if s = ''-inf'' \<or> s = ''-Inf'' then Some d_minus_infinity
      else let (v, n, erange) = fp_strtod F (takeWhile (\<lambda>ch. ch \<noteq> CHR 0x00) s)
           in if n \<noteq> length s \<or> erange then None else Some v)"

definition double_to_string :: "fp \<Rightarrow> dbl \<Rightarrow> bytes" where
  "double_to_string F v =
     (if d_isinf v then (if d_lt d_zero v then ''inf'' else ''-inf'')
      else if d_isnan v then ''nan'' else fp_print F v)"

definition r_double :: "fp \<Rightarrow> dbl \<Rightarrow> ctx \<Rightarrow> ctx" where
  "r_double F v c = r_bulk (double_to_string F v) c"

definition d_le :: "dbl \<Rightarrow> dbl \<Rightarrow> bool" where
  "d_le a b \<longleftrightarrow> d_lt a b \<or> d_eq a b"

subsection \<open>The sorted set (\<^verbatim>\<open>include/blazekv/object.hpp\<close>)\<close>

text \<open>The loops of the skip list are partial functions; where one would not end the list is kept.\<close>

definition sl_put :: "bytes \<Rightarrow> dbl \<Rightarrow> skiplist \<Rightarrow> skiplist" where
  "sl_put m sc s = (case sl_insert m sc s of Some s' \<Rightarrow> s' | None \<Rightarrow> s)"

definition sl_drop :: "bytes \<Rightarrow> dbl \<Rightarrow> skiplist \<Rightarrow> skiplist" where
  "sl_drop m sc s = (case sl_erase m sc s of Some (b, s') \<Rightarrow> s' | None \<Rightarrow> s)"

definition zset_set :: "bytes \<Rightarrow> dbl \<Rightarrow> zset \<Rightarrow> zset \<times> bool" where
  "zset_set m sc z =
     (case sw_find score_params (z_dict z) m of
        Some i \<Rightarrow>
          (let cur = sw_value (z_dict z) i in
           if d_eq cur sc then (z, False)
           else (\<lparr>z_dict = sw_write (z_dict z) i sc, z_sl = sl_put m sc (sl_drop m cur (z_sl z))\<rparr>, False))
      | None \<Rightarrow>
          (\<lparr>z_dict = fst (sw_insert score_params (z_dict z) m sc), z_sl = sl_put m sc (z_sl z)\<rparr>, True))"

definition zset_remove :: "bytes \<Rightarrow> zset \<Rightarrow> zset \<times> bool" where
  "zset_remove m z =
     (case sw_find score_params (z_dict z) m of
        Some i \<Rightarrow>
          (\<lparr>z_dict = fst (sw_erase score_params (z_dict z) m), z_sl = sl_drop m (sw_value (z_dict z) i) (z_sl z)\<rparr>, True)
      | None \<Rightarrow> (z, False))"

subsection \<open>Handlers\<close>

definition get_zset :: "bytes \<Rightarrow> ctx \<Rightarrow> nat typed \<times> ctx" where
  "get_zset key c = get_typed T_ZSet key c"

fun obj_zset :: "obj \<Rightarrow> zset option" where
  "obj_zset (ZSetObj z) = Some z"
| "obj_zset _ = None"

definition zset_at :: "ctx \<Rightarrow> nat \<Rightarrow> zset" where
  "zset_at c p = the (obj_zset (obj_at c p))"

definition parse_bound :: "fp \<Rightarrow> bytes \<Rightarrow> (dbl \<times> bool) option" where
  "parse_bound F s =
     (let exclusive = (s \<noteq> [] \<and> hd s = CHR ''('')
      in map_option (\<lambda>v. (v, exclusive)) (parse_double F (if exclusive then tl s else s)))"

record zadd_opts =
  zo_nx :: bool
  zo_xx :: bool
  zo_ch :: bool
  zo_incr :: bool
  zo_gt :: bool
  zo_lt :: bool

text \<open>The options before the first score; what is left are the pairs.\<close>

fun zadd_options :: "bytes list \<Rightarrow> zadd_opts \<Rightarrow> zadd_opts \<times> bytes list" where
  "zadd_options [] s = (s, [])"
| "zadd_options (a # rest) s =
     (let opt = to_lower a in
      if opt = ''nx'' then zadd_options rest (s\<lparr>zo_nx := True\<rparr>)
      else if opt = ''xx'' then zadd_options rest (s\<lparr>zo_xx := True\<rparr>)
      else if opt = ''ch'' then zadd_options rest (s\<lparr>zo_ch := True\<rparr>)
      else if opt = ''incr'' then zadd_options rest (s\<lparr>zo_incr := True\<rparr>)
      else if opt = ''gt'' then zadd_options rest (s\<lparr>zo_gt := True\<rparr>)
      else if opt = ''lt'' then zadd_options rest (s\<lparr>zo_lt := True\<rparr>)
      else (s, a # rest))"

record zadd_run =
  zr_added :: int
  zr_changed :: int
  zr_last :: dbl
  zr_did :: bool

text \<open>One pair: the counters and the sorted set after it; a \<open>continue\<close> leaves everything as it is.\<close>

definition zadd_pair :: "fp \<Rightarrow> zadd_opts \<Rightarrow> dbl \<Rightarrow> bytes \<Rightarrow> zadd_run \<times> zset \<Rightarrow> zadd_run \<times> zset" where
  "zadd_pair F s score0 m rz =
     (let (r, z) = rz;
          cur = map_option (sw_value (z_dict z)) (sw_find score_params (z_dict z) m);
          sc = (if zo_incr s then fp_add F score0 (case cur of Some x \<Rightarrow> x | None \<Rightarrow> d_zero) else score0);
          done = (\<lambda>r. r\<lparr>zr_last := sc, zr_did := True\<rparr>)
      in case cur of
           None \<Rightarrow>
             if zo_xx s then rz
             else (done (r\<lparr>zr_added := zr_added r + 1, zr_changed := zr_changed r + 1\<rparr>), fst (zset_set m sc z))
         | Some x \<Rightarrow>
             if zo_nx s \<or> zo_gt s \<and> d_le sc x \<or> zo_lt s \<and> d_le x sc then rz
             else if \<not> d_eq x sc then (done (r\<lparr>zr_changed := zr_changed r + 1\<rparr>), fst (zset_set m sc z))
             else (done r, z))"

text \<open>The loop over the pairs. A score that does not parse ends the command at once: what the earlier
  pairs did stays, and the command is not marked dirty.\<close>

fun zadd_loop :: "fp \<Rightarrow> zadd_opts \<Rightarrow> nat \<Rightarrow> bytes list \<Rightarrow> zadd_run \<Rightarrow> ctx \<Rightarrow> zadd_run option \<times> ctx" where
  "zadd_loop F s p (a # m # rest) r c =
     (case parse_double F a of
        None \<Rightarrow> (None, err_not_float c)
      | Some sc \<Rightarrow>
          (let (r', z) = zadd_pair F s sc m (r, zset_at c p)
           in zadd_loop F s p rest r' (obj_write p (ZSetObj z) c)))"
| "zadd_loop F s p _ r c = (Some r, c)"

definition zadd_init :: zadd_opts where
  "zadd_init = \<lparr>zo_nx = False, zo_xx = False, zo_ch = False, zo_incr = False, zo_gt = False, zo_lt = False\<rparr>"

definition zadd_run_init :: zadd_run where
  "zadd_run_init = \<lparr>zr_added = 0, zr_changed = 0, zr_last = d_zero, zr_did = False\<rparr>"

text \<open>What follows the loop, and the two parts of the handler together.\<close>

definition zadd_finish :: "fp \<Rightarrow> zadd_opts \<Rightarrow> bytes \<Rightarrow> nat \<Rightarrow> zadd_run \<Rightarrow> ctx \<Rightarrow> ctx" where
  "zadd_finish F s key p r c3 =
     (let c4 = (if zr_added r \<noteq> 0 \<or> zr_changed r \<noteq> 0 then mark_dirty c3 else c3);
          c5 = (if sw_size (z_dict (zset_at c4 p)) = 0 then snd (db_erase key c4) else c4)
      in if zo_incr s then (if zr_did r then r_double F (zr_last r) c5 else r_null_bulk c5)
         else r_integer (if zo_ch s then zr_changed r else zr_added r) c5)"

definition cmd_zadd :: "fp \<Rightarrow> ctx \<Rightarrow> ctx" where
  "cmd_zadd F c =
     (let (s, rest) = zadd_options (drop 2 (c_argv c)) zadd_init
      in if rest = [] \<or> length rest mod 2 \<noteq> 0 then err_syntax c
         else
           let (t, c1) = get_zset (arg c 1) c in
           if t = WrongType then err_wrong_type c1
           else
             let (p, c2) = or_make t (arg c 1) make_zset c1 in
             case zadd_loop F s p rest zadd_run_init c2 of
               (None, c3) \<Rightarrow> c3
             | (Some r, c3) \<Rightarrow> zadd_finish F s (arg c 1) p r c3)"

definition zrem_step :: "nat \<Rightarrow> int \<times> ctx \<Rightarrow> bytes \<Rightarrow> int \<times> ctx" where
  "zrem_step p s a =
     (let (removed, c) = s; (z, b) = zset_remove a (zset_at c p)
      in (if b then removed + 1 else removed, obj_write p (ZSetObj z) c))"

definition cmd_zrem :: "ctx \<Rightarrow> ctx" where
  "cmd_zrem c =
     (case get_zset (arg c 1) c of
        (WrongType, c1) \<Rightarrow> err_wrong_type c1
      | (Absent, c1) \<Rightarrow> r_integer 0 c1
      | (Found p, c1) \<Rightarrow>
          (let (removed, c2) = foldl (zrem_step p) (0, c1) (drop 2 (c_argv c));
               c3 = (if sw_size (z_dict (zset_at c2 p)) = 0 then snd (db_erase (arg c 1) c2) else c2)
           in r_integer removed (if removed \<noteq> 0 then mark_dirty c3 else c3)))"

definition cmd_zscore :: "fp \<Rightarrow> ctx \<Rightarrow> ctx" where
  "cmd_zscore F c =
     (case get_zset (arg c 1) c of
        (WrongType, c1) \<Rightarrow> err_wrong_type c1
      | (Absent, c1) \<Rightarrow> r_null_bulk c1
      | (Found p, c1) \<Rightarrow>
          (case sw_find score_params (z_dict (zset_at c1 p)) (arg c 2) of
             None \<Rightarrow> r_null_bulk c1
           | Some i \<Rightarrow> r_double F (sw_value (z_dict (zset_at c1 p)) i) c1))"

definition cmd_zcard :: "ctx \<Rightarrow> ctx" where
  "cmd_zcard c =
     (case get_zset (arg c 1) c of
        (WrongType, c1) \<Rightarrow> err_wrong_type c1
      | (Absent, c1) \<Rightarrow> r_integer 0 c1
      | (Found p, c1) \<Rightarrow> r_integer (int (sw_size (z_dict (zset_at c1 p)))) c1)"

text \<open>A loop of the skip list that would not end has no reply; the model answers nothing then.\<close>

definition cmd_zrank :: "ctx \<Rightarrow> ctx" where
  "cmd_zrank c =
     (case get_zset (arg c 1) c of
        (WrongType, c1) \<Rightarrow> err_wrong_type c1
      | (Absent, c1) \<Rightarrow> r_null_bulk c1
      | (Found p, c1) \<Rightarrow>
          (let z = zset_at c1 p in
           case sw_find score_params (z_dict z) (arg c 2) of
             None \<Rightarrow> r_null_bulk c1
           | Some i \<Rightarrow>
               (case rank_of (arg c 2) (sw_value (z_dict z) i) (z_sl z) of
                  Some rank \<Rightarrow> r_integer (int (unat rank) - 1) c1
                | None \<Rightarrow> c1)))"

definition cmd_zincrby :: "fp \<Rightarrow> ctx \<Rightarrow> ctx" where
  "cmd_zincrby F c =
     (case parse_double F (arg c 2) of
        None \<Rightarrow> err_not_float c
      | Some delta \<Rightarrow>
          (let (t, c1) = get_zset (arg c 1) c in
           if t = WrongType then err_wrong_type c1
           else
             let (p, c2) = or_make t (arg c 1) make_zset c1;
                 z = zset_at c2 p; m = arg c 3;
                 cur = (case sw_find score_params (z_dict z) m of Some i \<Rightarrow> sw_value (z_dict z) i | None \<Rightarrow> d_zero);
                 v = fp_add F cur delta
             in r_double F v (mark_dirty (obj_write p (ZSetObj (fst (zset_set m v z))) c2))))"

definition zrange_opt :: "bool \<times> bool \<Rightarrow> bytes \<Rightarrow> bool \<times> bool" where
  "zrange_opt s a =
     (let opt = to_lower a in
      if opt = ''withscores'' then (True, snd s) else if opt = ''rev'' then (fst s, True) else s)"

definition zrange_item :: "fp \<Rightarrow> bool \<Rightarrow> bool \<Rightarrow> int \<Rightarrow> skiplist \<Rightarrow> ctx \<Rightarrow> nat \<Rightarrow> ctx" where
  "zrange_item F withscores desc len s c i =
     (let rank = (if desc then word_of_int (len - int i) else word_of_int (int i + 1))
      in case at_rank rank s of
           Some (Some n) \<Rightarrow>
             (let c1 = r_bulk (member (sl_at s n)) c
              in if withscores then r_double F (score (sl_at s n)) c1 else c1)
         | _ \<Rightarrow> c)"

definition cmd_zrange :: "fp \<Rightarrow> ctx \<Rightarrow> ctx" where
  "cmd_zrange F c =
     (let (withscores, desc) = foldl zrange_opt (False, False) (drop 4 (c_argv c));
          (t, c1) = get_zset (arg c 1) c in
      if t = WrongType then err_wrong_type c1
      else case (parse_int (arg c 2), parse_int (arg c 3)) of
        (Some start, Some stop) \<Rightarrow>
          (case t of
             Found p \<Rightarrow>
               (let z = zset_at c1 p; len = int (sw_size (z_dict z)) in
                case clamp_range len start stop of
                  None \<Rightarrow> r_array_header 0 c1
                | Some (a, b) \<Rightarrow>
                    (let count = b - a + 1 in
                     foldl (zrange_item F withscores desc len (z_sl z))
                       (r_array_header (if withscores then count * 2 else count) c1) [nat a..<nat b + 1]))
           | _ \<Rightarrow> r_array_header 0 c1)
      | _ \<Rightarrow> err_not_int c1)"

text \<open>The options of ZRANGEBYSCORE ignore whether \<open>parse_int\<close> succeeds: \<open>std::from_chars\<close> stores the number
  it has read also when something follows it, and leaves its target alone otherwise.\<close>

definition parse_int_into :: "bytes \<Rightarrow> int \<Rightarrow> int" where
  "parse_int_into s old = (if s = [] then old else case from_chars s of Some (v, rest) \<Rightarrow> v | None \<Rightarrow> old)"

fun zrbs_options :: "bytes list \<Rightarrow> bool \<times> int \<times> int \<Rightarrow> bool \<times> int \<times> int" where
  "zrbs_options [] s = s"
| "zrbs_options (a # rest) s =
     (let opt = to_lower a; (ws, offset, limit) = s in
      if opt = ''withscores'' then zrbs_options rest (True, offset, limit)
      else if opt = ''limit'' \<and> 2 \<le> length rest then
        zrbs_options (drop 2 rest)
          (ws, parse_int_into (rest ! 0) offset, parse_int_into (rest ! 1) limit)
      else zrbs_options rest s)"

text \<open>The walk along level 0 from \<open>first_gte(min)\<close>.\<close>

partial_function (option) zrbs_walk ::
  "skiplist \<Rightarrow> dbl \<times> bool \<Rightarrow> dbl \<times> bool \<Rightarrow> nat option \<Rightarrow> (bytes \<times> dbl) list \<Rightarrow> (bytes \<times> dbl) list option" where
  "zrbs_walk s lo hi n out =
     (case n of
        None \<Rightarrow> Some out
      | Some p \<Rightarrow>
          (let sc = score (sl_at s p) in
           if snd lo \<and> d_le sc (fst lo) then zrbs_walk s lo hi (sl_fwd s p 0) out
           else if d_lt (fst hi) sc \<or> snd hi \<and> d_le (fst hi) sc then Some out
           else zrbs_walk s lo hi (sl_fwd s p 0) (out @ [(member (sl_at s p), sc)])))"

definition zrbs_window :: "int \<Rightarrow> int \<Rightarrow> 'a list \<Rightarrow> 'a list" where
  "zrbs_window offset limit xs =
     (let ys = (if offset > 0 then drop (nat offset) xs else xs)
      in if limit \<ge> 0 then take (nat limit) ys else ys)"

definition zrbs_item :: "fp \<Rightarrow> bool \<Rightarrow> ctx \<Rightarrow> bytes \<times> dbl \<Rightarrow> ctx" where
  "zrbs_item F withscores c x =
     (let c1 = r_bulk (fst x) c in if withscores then r_double F (snd x) c1 else c1)"

definition cmd_zrangebyscore :: "fp \<Rightarrow> ctx \<Rightarrow> ctx" where
  "cmd_zrangebyscore F c =
     (let (withscores, offset, limit) = zrbs_options (drop 4 (c_argv c)) (False, 0, - 1) in
      case (parse_bound F (arg c 2), parse_bound F (arg c 3)) of
        (Some lo, Some hi) \<Rightarrow>
          (case get_zset (arg c 1) c of
             (WrongType, c1) \<Rightarrow> err_wrong_type c1
           | (Absent, c1) \<Rightarrow> r_array_header 0 c1
           | (Found p, c1) \<Rightarrow>
               (let s = z_sl (zset_at c1 p) in
                case first_gte (fst lo) s of
                  None \<Rightarrow> c1
                | Some n \<Rightarrow>
                    (case zrbs_walk s lo hi n [] of
                       None \<Rightarrow> c1
                     | Some out0 \<Rightarrow>
                         (let out = zrbs_window offset limit out0;
                              len = int (length out)
                          in foldl (zrbs_item F withscores)
                               (r_array_header (if withscores then len * 2 else len) c1) out))))
      | _ \<Rightarrow> r_error ''ERR min or max is not a float'' c)"

declare zrbs_walk.simps [code]

end
