(* ===== verification/Cmd_Table.thy ===== *)
theory Cmd_Table
  imports Cmd_Context
begin

section \<open>The command table (\<^verbatim>\<open>include/blazekv/command.hpp\<close>, \<^verbatim>\<open>src/commands/registry.cpp\<close>)\<close>

text \<open>
  One constructor per handler function, in the groups of the header; the specification record of the source, the
  table in the order of the source, the lookup by lower-case name (the first entry of a name wins,
  as \<open>emplace\<close> does), the arity check and the extraction of the keys.
\<close>

datatype StringFn =
    F_get | F_set | F_setnx | F_setex | F_getset | F_append | F_strlen | F_incr | F_decr | F_incrby
  | F_decrby | F_incrbyfloat | F_mget | F_mset | F_getrange | F_setrange

datatype GenericFn =
    F_del | F_unlink | F_exists | F_expire | F_pexpire | F_expireat | F_ttl | F_pttl | F_persist
  | F_type | F_keys | F_scan | F_rename | F_randomkey | F_object

datatype HashFn =
    F_hset | F_hget | F_hdel | F_hexists | F_hgetall | F_hkeys | F_hvals | F_hlen | F_hincrby | F_hmget

datatype ListFn =
    F_lpush | F_rpush | F_lpop | F_rpop | F_llen | F_lrange | F_lindex | F_lset

datatype SetFn =
    F_sadd | F_srem | F_sismember | F_scard | F_smembers | F_spop

datatype ZSetFn =
    F_zadd | F_zrem | F_zscore | F_zcard | F_zrank | F_zrange | F_zrangebyscore | F_zincrby

datatype HllFn =
    F_pfadd | F_pfcount | F_pfmerge

datatype VectorFn =
    F_vadd | F_vsim | F_vcard | F_vrem

datatype ServerFn =
    F_ping | F_echo | F_select | F_command | F_info | F_dbsize | F_flushall | F_flushdb | F_config
  | F_hello | F_client | F_reset | F_debug | F_wait

datatype CommandFn =
    Fn_strings StringFn
  | Fn_generic GenericFn
  | Fn_hashes HashFn
  | Fn_lists ListFn
  | Fn_sets SetFn
  | Fn_zsets ZSetFn
  | Fn_hyperloglog HllFn
  | Fn_vector VectorFn
  | Fn_server ServerFn

record CommandSpec =
  cs_name :: bytes
  cs_fn :: CommandFn
  cs_arity :: int
  cs_write :: bool
  cs_first_key :: int
  cs_last_key :: int
  cs_key_step :: int

definition command_spec :: "bytes \<Rightarrow> CommandFn \<Rightarrow> int \<Rightarrow> bool \<Rightarrow> int \<Rightarrow> int \<Rightarrow> int \<Rightarrow> CommandSpec" where
  "command_spec name fn ar wr first_key last_key step =
     \<lparr>cs_name = name, cs_fn = fn, cs_arity = ar, cs_write = wr, cs_first_key = first_key, cs_last_key = last_key,
      cs_key_step = step\<rparr>"

definition command_table :: "CommandSpec list" where
  "command_table =
    [command_spec ''get'' (Fn_strings F_get) 2 False 1 1 1,
     command_spec ''set'' (Fn_strings F_set) (- 3) True 1 1 1,
     command_spec ''setnx'' (Fn_strings F_setnx) 3 True 1 1 1,
     command_spec ''setex'' (Fn_strings F_setex) 4 True 1 1 1,
     command_spec ''psetex'' (Fn_strings F_setex) 4 True 1 1 1,
     command_spec ''getset'' (Fn_strings F_getset) 3 True 1 1 1,
     command_spec ''append'' (Fn_strings F_append) 3 True 1 1 1,
     command_spec ''strlen'' (Fn_strings F_strlen) 2 False 1 1 1,
     command_spec ''incr'' (Fn_strings F_incr) 2 True 1 1 1,
     command_spec ''decr'' (Fn_strings F_decr) 2 True 1 1 1,
     command_spec ''incrby'' (Fn_strings F_incrby) 3 True 1 1 1,
     command_spec ''decrby'' (Fn_strings F_decrby) 3 True 1 1 1,
     command_spec ''incrbyfloat'' (Fn_strings F_incrbyfloat) 3 True 1 1 1,
     command_spec ''mget'' (Fn_strings F_mget) (- 2) False 1 (- 1) 1,
     command_spec ''mset'' (Fn_strings F_mset) (- 3) True 1 (- 1) 2,
     command_spec ''getrange'' (Fn_strings F_getrange) 4 False 1 1 1,
     command_spec ''setrange'' (Fn_strings F_setrange) 4 True 1 1 1,
     command_spec ''del'' (Fn_generic F_del) (- 2) True 1 (- 1) 1,
     command_spec ''unlink'' (Fn_generic F_unlink) (- 2) True 1 (- 1) 1,
     command_spec ''exists'' (Fn_generic F_exists) (- 2) False 1 (- 1) 1,
     command_spec ''touch'' (Fn_generic F_exists) (- 2) False 1 (- 1) 1,
     command_spec ''expire'' (Fn_generic F_expire) 3 True 1 1 1,
     command_spec ''pexpire'' (Fn_generic F_pexpire) 3 True 1 1 1,
     command_spec ''expireat'' (Fn_generic F_expireat) 3 True 1 1 1,
     command_spec ''ttl'' (Fn_generic F_ttl) 2 False 1 1 1,
     command_spec ''pttl'' (Fn_generic F_pttl) 2 False 1 1 1,
     command_spec ''persist'' (Fn_generic F_persist) 2 True 1 1 1,
     command_spec ''type'' (Fn_generic F_type) 2 False 1 1 1,
     command_spec ''keys'' (Fn_generic F_keys) 2 False 0 0 0,
     command_spec ''scan'' (Fn_generic F_scan) (- 2) False 0 0 0,
     command_spec ''rename'' (Fn_generic F_rename) 3 True 1 2 1,
     command_spec ''randomkey'' (Fn_generic F_randomkey) 1 False 0 0 0,
     command_spec ''object'' (Fn_generic F_object) (- 2) False 2 2 1,
     command_spec ''hset'' (Fn_hashes F_hset) (- 4) True 1 1 1,
     command_spec ''hmset'' (Fn_hashes F_hset) (- 4) True 1 1 1,
     command_spec ''hget'' (Fn_hashes F_hget) 3 False 1 1 1,
     command_spec ''hdel'' (Fn_hashes F_hdel) (- 3) True 1 1 1,
     command_spec ''hexists'' (Fn_hashes F_hexists) 3 False 1 1 1,
     command_spec ''hgetall'' (Fn_hashes F_hgetall) 2 False 1 1 1,
     command_spec ''hkeys'' (Fn_hashes F_hkeys) 2 False 1 1 1,
     command_spec ''hvals'' (Fn_hashes F_hvals) 2 False 1 1 1,
     command_spec ''hlen'' (Fn_hashes F_hlen) 2 False 1 1 1,
     command_spec ''hincrby'' (Fn_hashes F_hincrby) 4 True 1 1 1,
     command_spec ''hmget'' (Fn_hashes F_hmget) (- 3) False 1 1 1,
     command_spec ''lpush'' (Fn_lists F_lpush) (- 3) True 1 1 1,
     command_spec ''rpush'' (Fn_lists F_rpush) (- 3) True 1 1 1,
     command_spec ''lpop'' (Fn_lists F_lpop) (- 2) True 1 1 1,
     command_spec ''rpop'' (Fn_lists F_rpop) (- 2) True 1 1 1,
     command_spec ''llen'' (Fn_lists F_llen) 2 False 1 1 1,
     command_spec ''lrange'' (Fn_lists F_lrange) 4 False 1 1 1,
     command_spec ''lindex'' (Fn_lists F_lindex) 3 False 1 1 1,
     command_spec ''lset'' (Fn_lists F_lset) 4 True 1 1 1,
     command_spec ''sadd'' (Fn_sets F_sadd) (- 3) True 1 1 1,
     command_spec ''srem'' (Fn_sets F_srem) (- 3) True 1 1 1,
     command_spec ''sismember'' (Fn_sets F_sismember) 3 False 1 1 1,
     command_spec ''scard'' (Fn_sets F_scard) 2 False 1 1 1,
     command_spec ''smembers'' (Fn_sets F_smembers) 2 False 1 1 1,
     command_spec ''spop'' (Fn_sets F_spop) (- 2) True 1 1 1,
     command_spec ''zadd'' (Fn_zsets F_zadd) (- 4) True 1 1 1,
     command_spec ''zrem'' (Fn_zsets F_zrem) (- 3) True 1 1 1,
     command_spec ''zscore'' (Fn_zsets F_zscore) 3 False 1 1 1,
     command_spec ''zcard'' (Fn_zsets F_zcard) 2 False 1 1 1,
     command_spec ''zrank'' (Fn_zsets F_zrank) 3 False 1 1 1,
     command_spec ''zrange'' (Fn_zsets F_zrange) (- 4) False 1 1 1,
     command_spec ''zrangebyscore'' (Fn_zsets F_zrangebyscore) (- 4) False 1 1 1,
     command_spec ''zincrby'' (Fn_zsets F_zincrby) 4 True 1 1 1,
     command_spec ''pfadd'' (Fn_hyperloglog F_pfadd) (- 2) True 1 1 1,
     command_spec ''pfcount'' (Fn_hyperloglog F_pfcount) (- 2) False 1 (- 1) 1,
     command_spec ''pfmerge'' (Fn_hyperloglog F_pfmerge) (- 2) True 1 (- 1) 1,
     command_spec ''vadd'' (Fn_vector F_vadd) (- 4) True 1 1 1,
     command_spec ''vsim'' (Fn_vector F_vsim) (- 4) False 1 1 1,
     command_spec ''vcard'' (Fn_vector F_vcard) 2 False 1 1 1,
     command_spec ''vrem'' (Fn_vector F_vrem) 3 True 1 1 1,
     command_spec ''ping'' (Fn_server F_ping) (- 1) False 0 0 0,
     command_spec ''echo'' (Fn_server F_echo) 2 False 0 0 0,
     command_spec ''select'' (Fn_server F_select) 2 False 0 0 0,
     command_spec ''command'' (Fn_server F_command) (- 1) False 0 0 0,
     command_spec ''info'' (Fn_server F_info) (- 1) False 0 0 0,
     command_spec ''dbsize'' (Fn_server F_dbsize) 1 False 0 0 0,
     command_spec ''flushall'' (Fn_server F_flushall) (- 1) False 0 0 0,
     command_spec ''flushdb'' (Fn_server F_flushdb) (- 1) False 0 0 0,
     command_spec ''config'' (Fn_server F_config) (- 2) False 0 0 0,
     command_spec ''hello'' (Fn_server F_hello) (- 1) False 0 0 0,
     command_spec ''client'' (Fn_server F_client) (- 2) False 0 0 0,
     command_spec ''reset'' (Fn_server F_reset) 1 False 0 0 0,
     command_spec ''debug'' (Fn_server F_debug) (- 2) False 0 0 0,
     command_spec ''wait'' (Fn_server F_wait) 3 False 0 0 0]"

definition find_command :: "bytes \<Rightarrow> CommandSpec option" where
  "find_command name = find (\<lambda>s. cs_name s = name) command_table"

definition arity_ok :: "CommandSpec \<Rightarrow> nat \<Rightarrow> bool" where
  "arity_ok s n = (if cs_arity s \<ge> 0 then int n = cs_arity s else int n \<ge> - cs_arity s)"

text \<open>The loop over the key indices from \<open>first_key\<close> by \<open>key_step\<close>; a step of zero would not end, and
  no table entry that has keys has one.\<close>

function key_indices :: "int \<Rightarrow> int \<Rightarrow> int \<Rightarrow> nat list" where
  "key_indices i lim step =
     (if i \<le> lim \<and> step > 0 then nat i # key_indices (i + step) lim step else [])"
  by pat_completeness auto
termination by (relation "measure (\<lambda>(i, lim, step). nat (lim + 1 - i))") auto

declare key_indices.simps [simp del]

definition extract_keys :: "CommandSpec \<Rightarrow> bytes list \<Rightarrow> bytes list" where
  "extract_keys s argv =
     (if cs_first_key s = 0 then []
      else
        let n = int (length argv);
            last0 = (if cs_last_key s < 0 then n + cs_last_key s else cs_last_key s);
            last1 = (if last0 \<ge> n then n - 1 else last0)
        in map ((!) argv) (key_indices (cs_first_key s) last1 (cs_key_step s)))"

end
