(* ===== verification/Cmd_Server.thy ===== *)
theory Cmd_Server
  imports Cmd_Sound Cmd_Table
begin

section \<open>Server and connection commands (\<^verbatim>\<open>src/commands/server_cmds.cpp\<close>)\<close>

text \<open>
  The handlers that do not touch a key. What they read of the server is a record: the configuration
  values, the version string of the build, the text of INFO, and the number of keys in the other
  shards. FLUSHALL and FLUSHDB clear the own shard's keyspace; what else a flush does (the log, the
  vector indexes, the messages to the other shards) is the shard's, which gets to know that a flush
  was asked for by the flag that \<open>run_fn\<close> returns.
\<close>

record server_view =
  sv_version :: bytes
  sv_maxmemory :: u64
  sv_aof_enabled :: bool
  sv_info :: "bytes \<Rightarrow> bytes"
  sv_shards :: nat
  sv_self :: nat
  sv_db_size :: "nat \<Rightarrow> nat"

definition lower :: "bytes \<Rightarrow> bytes" where
  "lower s = map to_lower_char s"

definition cmd_ping :: "ctx \<Rightarrow> ctx" where
  "cmd_ping c = (if argc c \<ge> 2 then r_bulk (arg c 1) c else r_simple_string ''PONG'' c)"

definition cmd_echo :: "ctx \<Rightarrow> ctx" where "cmd_echo c = r_bulk (arg c 1) c"
definition cmd_select :: "ctx \<Rightarrow> ctx" where "cmd_select c = r_simple_string ''OK'' c"
definition cmd_reset :: "ctx \<Rightarrow> ctx" where "cmd_reset c = r_simple_string ''RESET'' c"
definition cmd_wait :: "ctx \<Rightarrow> ctx" where "cmd_wait c = r_integer 0 c"

text \<open>COMMAND: six elements per command, the third an array of one flag.\<close>

definition command_row :: "ctx \<Rightarrow> CommandSpec \<Rightarrow> ctx" where
  "command_row c s =
     (let c1 = r_array_header 6 c;
          c2 = r_bulk (cs_name s) c1;
          c3 = r_integer (cs_arity s) c2;
          c4 = r_array_header 1 c3;
          c5 = r_simple_string (if cs_write s then ''write'' else ''readonly'') c4;
          c6 = r_integer (cs_first_key s) c5;
          c7 = r_integer (if cs_last_key s < 0 then - 1 else cs_last_key s) c6
      in r_integer (cs_key_step s) c7)"

definition cmd_command :: "ctx \<Rightarrow> ctx" where
  "cmd_command c =
     (if argc c \<ge> 2 \<and> lower (arg c 1) = ''count'' then r_integer (int (length command_table)) c
      else if argc c \<ge> 2 \<and> lower (arg c 1) = ''docs'' then r_array_header 0 c
      else foldl command_row (r_array_header (int (length command_table)) c) command_table)"

definition cmd_hello :: "server_view \<Rightarrow> ctx \<Rightarrow> ctx" where
  "cmd_hello V c =
     (let c1 = r_array_header 14 c;
          c2 = r_bulk ''blazekv'' (r_bulk ''server'' c1);
          c3 = r_bulk (sv_version V) (r_bulk ''version'' c2);
          c4 = r_integer 2 (r_bulk ''proto'' c3);
          c5 = r_integer 1 (r_bulk ''id'' c4);
          c6 = r_bulk ''standalone'' (r_bulk ''mode'' c5);
          c7 = r_bulk ''master'' (r_bulk ''role'' c6)
      in r_array_header 0 (r_bulk ''modules'' c7))"

definition cmd_client :: "ctx \<Rightarrow> ctx" where
  "cmd_client c =
     (let sub = lower (arg c 1) in
      if sub = ''id'' then r_integer 1 c
      else if sub = ''getname'' then r_null_bulk c
      else if sub = ''setname'' then r_simple_string ''OK'' c
      else if sub = ''info'' then r_bulk ''id=1 addr=127.0.0.1:0 name= db=0'' c
      else r_simple_string ''OK'' c)"

definition cmd_debug :: "ctx \<Rightarrow> ctx" where
  "cmd_debug c =
     (let sub = lower (arg c 1) in
      if sub = ''jmap'' \<or> sub = ''set-active-expire'' \<or> sub = ''quicklist-packed-threshold'' \<or>
         sub = ''stringmatch-len'' \<or> sub = ''sleep''
      then r_simple_string ''OK'' c
      else if sub = ''object'' then r_simple_string ''Value at: encoding:raw serializedlength:0'' c
      else r_simple_string ''OK'' c)"

definition cmd_config :: "server_view \<Rightarrow> ctx \<Rightarrow> ctx" where
  "cmd_config V c =
     (let sub = lower (arg c 1) in
      if sub = ''get'' then
        (let param = (if argc c \<ge> 3 then lower (arg c 2) else []);
             c1 = r_array_header 2 c;
             c2 = r_bulk (if param = [] then ''maxmemory'' else param) c1
         in if param = ''maxmemory'' then r_bulk (nat_dec (unat (sv_maxmemory V))) c2
            else if param = ''save'' then r_bulk [] c2
            else if param = ''appendonly'' then r_bulk (if sv_aof_enabled V then ''yes'' else ''no'') c2
            else r_bulk [] c2)
      else if sub = ''set'' then r_simple_string ''OK'' c
      else r_simple_string ''OK'' c)"

text \<open>DBSIZE reads the sizes of all shards; only its own one is the keyspace of the context.\<close>

definition cmd_dbsize :: "server_view \<Rightarrow> ctx \<Rightarrow> ctx" where
  "cmd_dbsize V c =
     r_integer (foldl (\<lambda>total i. total + int (if i = sv_self V then ks_size (c_db c) else sv_db_size V i)) 0
       [0..<sv_shards V]) c"

definition cmd_info :: "server_view \<Rightarrow> ctx \<Rightarrow> ctx" where
  "cmd_info V c = r_bulk (sv_info V (if argc c \<ge> 2 then arg c 1 else ''default'')) c"

definition flush_all_shards :: "ctx \<Rightarrow> ctx" where
  "flush_all_shards c = c\<lparr>c_db := ks_clear (c_db c)\<rparr>"

definition cmd_flushall :: "ctx \<Rightarrow> ctx" where
  "cmd_flushall c = r_simple_string ''OK'' (flush_all_shards c)"

definition cmd_flushdb :: "ctx \<Rightarrow> ctx" where
  "cmd_flushdb c = r_simple_string ''OK'' (flush_all_shards c)"

subsection \<open>What they do to the context\<close>

text \<open>Handlers that only append to the reply.\<close>

definition says :: "ctx \<Rightarrow> ctx \<Rightarrow> bool" where
  "says c c' \<longleftrightarrow> (\<exists>out. c' = c\<lparr>c_out := c_out c @ out\<rparr>)"

lemma says_refl [simp]: "says c c"
  by (auto simp: says_def intro: exI [of _ "[]"])

lemma says_trans: "says c c1 \<Longrightarrow> says c1 c2 \<Longrightarrow> says c c2"
  by (auto simp: says_def)

lemma says_reply [simp]:
  "says c (r_bulk s c)" "says c (r_simple_string s c)" "says c (r_array_header n c)" "says c (r_null_bulk c)"
  "says c (err_wrong_type c)" "says c (err_not_int c)" "says c (r_integer n c)" "says c (r_error s c)"
  by (auto simp: says_def reply_eqs)

text \<open>The same, backwards: one more reply at the end.\<close>

lemma says_more:
  "says c c1 \<Longrightarrow> says c (r_bulk s c1)" "says c c1 \<Longrightarrow> says c (r_simple_string s c1)"
  "says c c1 \<Longrightarrow> says c (r_array_header n c1)" "says c c1 \<Longrightarrow> says c (r_integer n c1)"
  "says c c1 \<Longrightarrow> says c (r_null_bulk c1)"
  by (auto simp: says_def reply_eqs)

lemma says_fold: "(\<And>c x. says c (f c x)) \<Longrightarrow> says c (foldl f c xs)"
  by (induction xs arbitrary: c) (auto intro: says_trans)

lemma sound_says: "ok c \<Longrightarrow> says c c' \<Longrightarrow> sound c c'"
  by (auto simp: says_def intro: sound_out)

lemma says_command_row: "says c (command_row c s)"
  by (simp add: command_row_def Let_def says_more)

lemma says_server:
  "says c (cmd_ping c)" "says c (cmd_echo c)" "says c (cmd_select c)" "says c (cmd_reset c)" "says c (cmd_wait c)"
  "says c (cmd_command c)" "says c (cmd_hello V c)" "says c (cmd_client c)" "says c (cmd_debug c)"
  "says c (cmd_config V c)" "says c (cmd_dbsize V c)" "says c (cmd_info V c)"
  by (simp_all add: cmd_ping_def cmd_echo_def cmd_select_def cmd_reset_def cmd_wait_def cmd_command_def
      cmd_hello_def cmd_client_def cmd_debug_def cmd_config_def cmd_dbsize_def cmd_info_def Let_def
      says_more says_trans [OF says_reply(3) says_fold [OF says_command_row]])

lemma foldl_add_sum: "foldl (\<lambda>t i. t + f i) (a :: int) xs = a + sum_list (map f xs)"
  by (induction xs arbitrary: a) (simp_all add: add.assoc)

lemma cmd_dbsize_out:
  "cmd_dbsize V c = c\<lparr>c_out := c_out c @
     a_integer (sum_list (map (\<lambda>i. int (if i = sv_self V then ks_size (c_db c) else sv_db_size V i)) [0..<sv_shards V]))\<rparr>"
  unfolding cmd_dbsize_def reply_eqs foldl_add_sum by simp

lemma cmd_flush_correct:
  assumes "ok c"
  shows "ok (cmd_flushall c)" "view (cmd_flushall c) = Map.empty" "cmd_flushdb c = cmd_flushall c"
proof -
  have "ks_inv (c_db c)" using assms by (simp add: ok_def)
  from ks_clear_correct [OF this] show "ok (cmd_flushall c)" "view (cmd_flushall c) = Map.empty"
    by (auto simp: cmd_flushall_def flush_all_shards_def ok_def view_def reply_eqs db_ok_def db_abs_def fun_eq_iff)
  show "cmd_flushdb c = cmd_flushall c" by (simp add: cmd_flushall_def cmd_flushdb_def)
qed

end
