(* ===== verification/Cmd_ZSet_Correct.thy ===== *)
theory Cmd_ZSet_Correct
  imports Cmd_ZSet Cmd_Server
begin

section \<open>Correctness of the sorted set commands\<close>

text \<open>
  The member table decides what ZSCORE, ZCARD, ZREM and ZINCRBY do; their specifications are over the
  map from members to scores. For the commands that walk the skip list this theory proves that they
  read only. ZADD is proved sound when all its scores parse; what it does otherwise is stated too.
\<close>

subsection \<open>The sorted set as a map\<close>

type_synonym scores = "bytes \<Rightarrow> dbl option"

definition score_set :: "bytes \<Rightarrow> dbl \<Rightarrow> scores \<Rightarrow> scores" where
  "score_set m sc f = (case f m of Some x \<Rightarrow> if d_eq x sc then f else f(m \<mapsto> sc) | None \<Rightarrow> f(m \<mapsto> sc))"

lemma zset_set_dict:
  assumes "sw_inv score_params (z_dict z)"
  shows "sw_inv score_params (z_dict (fst (zset_set m sc z))) \<and>
    sw_abs (z_dict (fst (zset_set m sc z))) = score_set m sc (sw_abs (z_dict z))"
proof (cases "sw_find score_params (z_dict z) m")
  case None
  then have "sw_abs (z_dict z) m = None" using sw.find_None [OF assms] by simp
  then show ?thesis using None assms by (simp add: zset_set_def score_set_def sw.inv_insert sw.abs_insert)
next
  case (Some i)
  then have "sw_abs (z_dict z) m = Some (sw_value (z_dict z) i)"
    using sw.find_val [OF assms, of m] by simp
  then show ?thesis
    using Some sw_inv_write [OF assms] sw_abs_write [OF assms Some] assms
    by (simp add: zset_set_def score_set_def Let_def)
qed

lemma zset_remove_dict:
  assumes "sw_inv score_params (z_dict z)"
  shows "sw_inv score_params (z_dict (fst (zset_remove m z))) \<and>
    sw_abs (z_dict (fst (zset_remove m z))) = (sw_abs (z_dict z))(m := None) \<and>
    (snd (zset_remove m z) \<longleftrightarrow> m \<in> dom (sw_abs (z_dict z)))"
proof (cases "sw_find score_params (z_dict z) m")
  case None
  then have "sw_abs (z_dict z) m = None" using sw.find_None [OF assms] by simp
  then show ?thesis using None assms by (auto simp: zset_remove_def fun_upd_idem domIff)
next
  case (Some i)
  then have "sw_abs (z_dict z) m = Some (sw_value (z_dict z) i)"
    using sw.find_val [OF assms, of m] by simp
  then show ?thesis using Some assms by (auto simp: zset_remove_def sw.inv_erase sw.abs_erase)
qed

subsection \<open>Reference functions\<close>

fun on_zset :: "aentry option \<Rightarrow> (scores option \<Rightarrow> u64 option \<Rightarrow> outcome) \<Rightarrow> outcome" where
  "on_zset None f = f None None"
| "on_zset (Some (AZSet z, d)) f = f (Some z) d"
| "on_zset (Some e) f = (Some e, a_wrong_type, False)"

abbreviation scores_of :: "scores option \<Rightarrow> scores" where
  "scores_of z \<equiv> (case z of None \<Rightarrow> Map.empty | Some z \<Rightarrow> z)"

definition a_double :: "fp \<Rightarrow> dbl \<Rightarrow> bytes" where
  "a_double F v = a_bulk (double_to_string F v)"

definition spec_zscore :: "fp \<Rightarrow> bytes \<Rightarrow> aentry option \<Rightarrow> outcome" where
  "spec_zscore F m e =
     on_zset e (\<lambda>z d. (e, case scores_of z m of None \<Rightarrow> a_nil | Some x \<Rightarrow> a_double F x, False))"

definition spec_zcard :: "aentry option \<Rightarrow> outcome" where
  "spec_zcard e = on_zset e (\<lambda>z d. (e, a_integer (int (card (dom (scores_of z)))), False))"

definition spec_zrem :: "bytes list \<Rightarrow> aentry option \<Rightarrow> outcome" where
  "spec_zrem args e =
     on_zset e (\<lambda>z d. case z of
         None \<Rightarrow> (None, a_integer 0, False)
       | Some f \<Rightarrow> let removed = set args \<inter> dom f; f' = f |` (- set args)
                   in (if f' = Map.empty then None else Some (AZSet f', d),
                       a_integer (int (card removed)), removed \<noteq> {}))"

definition spec_zincrby :: "fp \<Rightarrow> bytes \<Rightarrow> bytes \<Rightarrow> aentry option \<Rightarrow> outcome" where
  "spec_zincrby F delta m e =
     (case parse_double F delta of
        None \<Rightarrow> (e, a_error ''ERR value is not a valid float'', False)
      | Some dl \<Rightarrow>
          on_zset e (\<lambda>z d.
            let f = scores_of z; v = fp_add F (case f m of Some x \<Rightarrow> x | None \<Rightarrow> d_zero) dl
            in (Some (AZSet (score_set m v f), d), a_double F v, True)))"

subsection \<open>The handlers follow the reference functions\<close>

lemma type_ZSet_iff: "obj_type x = T_ZSet \<longleftrightarrow> (\<exists>z. x = ZSetObj z)"
  by (cases x) auto

lemma on_zset_other: "aobj_type a \<noteq> T_ZSet \<Longrightarrow> on_zset (Some (a, d)) f = (Some (a, d), a_wrong_type, False)"
  by (cases a) auto

lemma err_not_float_eq: "err_not_float c = c\<lparr>c_out := c_out c @ a_error ''ERR value is not a valid float''\<rparr>"
  by (simp add: err_not_float_def reply_eqs)

lemma r_double_eq: "r_double F v c = c\<lparr>c_out := c_out c @ a_double F v\<rparr>"
  by (simp add: r_double_def reply_eqs a_double_def)

lemmas zset_defs = run_defs get_zset_def zset_at_def on_zset_other type_ZSet_iff r_double_eq err_not_float_eq

lemma make_zset_wf: "obj_wf make_zset" "obj_abs make_zset = AZSet Map.empty"
  by (simp_all add: make_zset_def sw.inv_new sw.abs_new)

lemma cmd_zscore_runs:
  assumes "ok c"
  shows "runs c (arg c 1) (spec_zscore F (arg c 2)) (cmd_zscore F c)"
  using assms
proof (cases rule: typed_cases [of c T_ZSet "arg c 1"])
  case (Alive p v d)
  then obtain z where v: "v = ZSetObj z" by (auto simp: type_ZSet_iff)
  with Alive have inv: "sw_inv score_params (z_dict z)" by simp
  then show ?thesis using Alive v sw.find_val [OF inv, of "arg c 2", symmetric]
    by (cases "sw_find score_params (z_dict z) (arg c 2)") (simp_all add: zset_defs cmd_zscore_def spec_zscore_def)
qed (auto simp: zset_defs cmd_zscore_def spec_zscore_def)

lemma cmd_zcard_runs: "ok c \<Longrightarrow> runs c (arg c 1) spec_zcard (cmd_zcard c)"
  by (cases rule: typed_cases [of c T_ZSet "arg c 1"])
     (auto simp: zset_defs cmd_zcard_def spec_zcard_def sw.size_card)

lemma focus_zset_at: "focus (c_db c) k p (ZSetObj z) d \<Longrightarrow> zset_at c p = z \<and> sw_inv score_params (z_dict z)"
  by (auto simp: focus_def zset_at_def obj_at_def)

lemma zset_write_refocus:
  assumes "focus (c_db c) k p v d" "sw_inv score_params (z_dict z)"
  shows "refocus (c_db c) k p (ZSetObj z) d (c_db (obj_write p (ZSetObj z) c))"
  using refocus_write [OF assms(1), of "ZSetObj z"] assms(2) by (simp add: obj_write_def)

lemma card_insert_rest:
  assumes "finite D"
  shows "(if a \<in> D then n + 1 else n) + int (card (set args \<inter> (D - {a}))) = n + int (card (set (a # args) \<inter> D))"
proof (cases "a \<in> D")
  case True
  then have "set (a # args) \<inter> D = insert a (set args \<inter> (D - {a}))" by auto
  then show ?thesis using True by simp
next
  case False
  then show ?thesis by (simp add: Diff_insert_absorb)
qed

lemma zrem_fold:
  assumes "focus (c_db c) k p (ZSetObj z) d"
  shows "\<exists>db' z'. foldl (zrem_step p) (n, c) args =
      (n + int (card (set args \<inter> dom (sw_abs (z_dict z)))), c\<lparr>c_db := db'\<rparr>) \<and>
    refocus (c_db c) k p (ZSetObj z') d db' \<and> sw_abs (z_dict z') = sw_abs (z_dict z) |` (- set args)"
  using assms
proof (induction args arbitrary: n c z)
  case Nil
  then show ?case by (intro exI [of _ "c_db c"] exI [of _ z]) (simp add: refocus_refl restrict_map_def)
next
  case (Cons a args)
  let ?z = "fst (zset_remove a z)" and ?D = "dom (sw_abs (z_dict z))"
  note t = focus_zset_at [OF Cons.prems]
  note rm = zset_remove_dict [of z a]
  let ?c = "obj_write p (ZSetObj ?z) c" and ?n = "if a \<in> ?D then n + 1 else n"
  have st: "zrem_step p (n, c) a = (?n, ?c)" using t rm by (simp add: zrem_step_def split_beta)
  have r1: "refocus (c_db c) k p (ZSetObj ?z) d (c_db ?c)"
    by (rule zset_write_refocus [OF Cons.prems]) (use t rm in simp)
  from Cons.IH [OF refocus_focus [OF r1], of ?n] obtain db' z' where
    f: "foldl (zrem_step p) (?n, ?c) args =
      (?n + int (card (set args \<inter> dom (sw_abs (z_dict ?z)))), ?c\<lparr>c_db := db'\<rparr>)"
    and r2: "refocus (c_db ?c) k p (ZSetObj z') d db'"
    and d: "sw_abs (z_dict z') = sw_abs (z_dict ?z) |` (- set args)" by blast
  have "finite ?D" using t sw.finite_dom by blast
  then have "?n + int (card (set args \<inter> dom (sw_abs (z_dict ?z)))) = n + int (card (set (a # args) \<inter> ?D))"
    using card_insert_rest [of ?D a n args] t rm by simp
  moreover have "sw_abs (z_dict z') = sw_abs (z_dict z) |` (- set (a # args))"
    using t rm by (auto simp: d restrict_map_def fun_eq_iff)
  ultimately show ?case using f refocus_trans [OF r1 r2]
    by (intro exI [of _ db'] exI [of _ z']) (simp add: st)
qed

lemma cmd_zrem_runs:
  assumes "ok c"
  shows "runs c (arg c 1) (spec_zrem (drop 2 (c_argv c))) (cmd_zrem c)"
  using assms
proof (cases rule: typed_cases [of c T_ZSet "arg c 1"])
  case (Alive p v d)
  then obtain z where v: "v = ZSetObj z" by (auto simp: type_ZSet_iff)
  let ?c1 = "c\<lparr>c_tick := Suc (c_tick c)\<rparr>" and ?args = "drop 2 (c_argv c)"
  from Alive v have "focus (c_db ?c1) (arg c 1) p (ZSetObj z) d" by (simp add: focus_def)
  from zrem_fold [OF this, of 0 ?args] obtain db' z' where
    f: "foldl (zrem_step p) (0, ?c1) ?args =
      (int (card (set ?args \<inter> dom (sw_abs (z_dict z)))), ?c1\<lparr>c_db := db'\<rparr>)"
    and r: "refocus (c_db ?c1) (arg c 1) p (ZSetObj z') d db'"
    and z': "sw_abs (z_dict z') = sw_abs (z_dict z) |` (- set ?args)" by auto
  note r' = r [unfolded refocus_def focus_def]
  define N where "N = card (set ?args \<inter> dom (sw_abs (z_dict z)))"
  have N: "N = 0 \<longleftrightarrow> set ?args \<inter> dom (sw_abs (z_dict z)) = {}" by (simp add: N_def)
  have "sw_inv score_params (z_dict z')" using r' by simp
  from sw.size_0_iff [OF this] show ?thesis
    using Alive v f [folded N_def] r' z' db_erase [of db' "arg c 1"] N
    by (auto simp: zset_defs cmd_zrem_def spec_zrem_def Let_def N_def [symmetric])
qed (auto simp: zset_defs cmd_zrem_def spec_zrem_def)

lemma cmd_zincrby_runs:
  assumes "ok c"
  shows "runs c (arg c 1) (spec_zincrby F (arg c 2) (arg c 3)) (cmd_zincrby F c)"
proof (cases "parse_double F (arg c 2)")
  case None
  with assms show ?thesis by (simp add: run_defs cmd_zincrby_def spec_zincrby_def err_not_float_eq)
next
  case (Some dl)
  show ?thesis using assms
  proof (cases rule: typed_cases [of c T_ZSet "arg c 1"])
    case (Gone db1)
    let ?p = "fst (ks_set (arg c 1) make_zset db1)" and ?db = "snd (ks_set (arg c 1) make_zset db1)"
    let ?z = "\<lparr>z_dict = sw_new score_params, z_sl = sl_new\<rparr>" and ?v = "fp_add F d_zero dl"
    have f: "focus ?db (arg c 1) ?p (ZSetObj ?z) None"
      using focus_set [OF Gone(2) make_zset_wf(1), of "arg c 1"] by (simp add: make_zset_def)
    have none: "sw_find score_params (sw_new score_params) (arg c 3) = None"
      by (simp add: sw.find_None [OF sw.inv_new] sw.abs_new)
    have zs: "sw_inv score_params (z_dict (fst (zset_set (arg c 3) ?v ?z)))"
      "sw_abs (z_dict (fst (zset_set (arg c 3) ?v ?z))) = score_set (arg c 3) ?v Map.empty"
      using zset_set_dict [of ?z "arg c 3" ?v] by (simp_all add: sw.inv_new sw.abs_new)
    note w = focus_write [OF f, of "ZSetObj (fst (zset_set (arg c 3) ?v ?z))"]
    show ?thesis
      using Gone Some none focusD [OF f] w zs db_set [OF Gone(2) make_zset_wf(1), of "arg c 1"]
      by (simp add: zset_defs cmd_zincrby_def spec_zincrby_def or_make_def Let_def focusD)
  next
    case (Wrong a d)
    then show ?thesis using Some by (auto simp: zset_defs cmd_zincrby_def spec_zincrby_def)
  next
    case (Alive p v d)
    then obtain z where v: "v = ZSetObj z" by (auto simp: type_ZSet_iff)
    with Alive have inv: "sw_inv score_params (z_dict z)" by simp
    from Alive v have f: "focus (c_db c) (arg c 1) p (ZSetObj z) d" by (simp add: focus_def)
    define cur where "cur = (case sw_abs (z_dict z) (arg c 3) of None \<Rightarrow> d_zero | Some x \<Rightarrow> x)"
    have cur: "(case sw_find score_params (z_dict z) (arg c 3) of None \<Rightarrow> d_zero | Some i \<Rightarrow> sw_value (z_dict z) i) = cur"
      using sw.find_val [OF inv, of "arg c 3", symmetric] by (auto simp: cur_def split: option.splits)
    let ?v = "fp_add F cur dl"
    note zs = zset_set_dict [OF inv, of "arg c 3" ?v]
    note w = focus_write [OF f, of "ZSetObj (fst (zset_set (arg c 3) ?v z))"]
    have obj: "the (obj_zset (ks_obj (c_db c) p)) = z" using Alive v by simp
    show ?thesis
      using Alive v Some w zs focusD [OF f]
      by (simp add: zset_defs cmd_zincrby_def spec_zincrby_def or_make_def Let_def focusD cur cur_def [symmetric] obj
          cong: option.case_cong)
  qed
qed

subsection \<open>Soundness\<close>

lemma score_set_nonempty [simp]: "score_set m v f \<noteq> Map.empty"
proof -
  have "score_set m v f m \<noteq> None" by (simp add: score_set_def split: option.splits)
  then show ?thesis by auto
qed

lemma well_zsets:
  "well_spec (spec_zscore F m)" "well_spec spec_zcard" "well_spec (spec_zrem args)" "well_spec (spec_zincrby F dl m)"
proof -
  show "well_spec (spec_zscore F m)"
    by (rule well_spec_cases) (simp_all add: well_at_def spec_zscore_def)
  show "well_spec spec_zcard"
    by (rule well_spec_cases) (simp_all add: well_at_def spec_zcard_def)
  show "well_spec (spec_zrem args)"
    by (rule well_spec_cases; auto simp: well_at_def spec_zrem_def Let_def restrict_disjoint)
  show "well_spec (spec_zincrby F dl m)"
    by (cases "parse_double F dl"; rule well_spec_cases) (simp_all add: well_at_def spec_zincrby_def Let_def)
qed

text \<open>A handler that only looks its key up and replies.\<close>

lemma snd_get_typed: "snd (get_typed t k c) = snd (db_lookup k c)"
  by (auto simp: get_typed_def split: prod.splits option.splits)

lemma sound_typed_read:
  assumes "ok c" "c_db c' = c_db (snd (get_typed t k c))" "c_dirty c' = c_dirty c" "c_argv c' = c_argv c"
    "c_clock c' = c_clock c" "\<exists>out. c_out c' = c_out c @ out"
  shows "sound c c'"
proof -
  have "c_dirty (snd (db_lookup k c)) = c_dirty c" "c_out (snd (db_lookup k c)) = c_out c"
    "c_argv (snd (db_lookup k c)) = c_argv c" "c_clock (snd (db_lookup k c)) = c_clock c"
    by (simp_all add: db_lookup_eq)
  then show ?thesis using assms
    by (intro sound_cong [OF sound_lookup(1) [OF assms(1), of k]]) (simp_all add: snd_get_typed)
qed

lemma says_double [simp]: "says c (r_double F v c)"
  by (auto simp: says_def r_double_eq)

lemma says_two: "says c (if b then r_double F x (r_bulk s c) else r_bulk s c)"
  using says_trans [OF says_reply(1) says_double] by simp

lemma says_zrange_item: "says c (zrange_item F ws desc len s c i)"
  unfolding zrange_item_def Let_def
  by (cases "at_rank (if desc then word_of_int (len - int i) else word_of_int (int i + 1)) s")
    (simp_all add: says_two split: option.split)

lemma says_zrbs_item: "says c (zrbs_item F ws c x)"
  by (simp add: zrbs_item_def Let_def says_two)

lemmas says_items = says_trans [OF says_reply(3) says_fold [OF says_zrange_item]]
  says_trans [OF says_reply(3) says_fold [OF says_zrbs_item]]

lemma says_zrange: "says (snd (get_zset (arg c 1) c)) (cmd_zrange F c)"
  by (cases "get_zset (arg c 1) c"; cases "parse_int (arg c 2)"; cases "parse_int (arg c 3)")
    (simp_all add: cmd_zrange_def Let_def says_items split: prod.splits typed.splits option.splits del: upt_Suc)

lemma says_zrank: "says (snd (get_zset (arg c 1) c)) (cmd_zrank c)"
  by (auto simp: cmd_zrank_def Let_def split: prod.splits typed.splits option.splits)

lemma says_zrangebyscore:
  "says (snd (get_zset (arg c 1) c)) (cmd_zrangebyscore F c) \<or> says c (cmd_zrangebyscore F c)"
  by (auto simp: cmd_zrangebyscore_def Let_def split: prod.splits typed.splits option.splits intro: says_items)

lemma sound_says_typed: "ok c \<Longrightarrow> says (snd (get_typed t k c)) c' \<Longrightarrow> sound c c'"
  by (rule sound_typed_read [of c c' t k])
     (auto simp: says_def snd_get_typed, auto simp: db_lookup_eq)

text \<open>ZADD: the pairs are run one after the other; as long as every score parses, a command that changed
  the set is marked dirty.\<close>

fun scores_parse :: "fp \<Rightarrow> bytes list \<Rightarrow> bool" where
  "scores_parse F (a # m # rest) = (parse_double F a \<noteq> None \<and> scores_parse F rest)"
| "scores_parse F _ = True"

definition zadd_quiet :: "zadd_run \<Rightarrow> bool" where
  "zadd_quiet r \<longleftrightarrow> zr_added r = 0 \<and> zr_changed r = 0"

lemma zadd_pair_run:
  assumes "sw_inv score_params (z_dict z)" "zadd_pair F s sc m (r, z) = (r', z')"
    "0 \<le> zr_added r" "0 \<le> zr_changed r"
  shows "sw_inv score_params (z_dict z') \<and> 0 \<le> zr_added r' \<and> 0 \<le> zr_changed r' \<and>
    (zadd_quiet r' \<longrightarrow> zadd_quiet r \<and> z' = z)"
proof -
  have "sw_inv score_params (z_dict (fst (zset_set m x z)))" for x using zset_set_dict [OF assms(1)] by blast
  then show ?thesis
    using assms by (auto simp: zadd_pair_def Let_def zadd_quiet_def split: option.splits if_splits)
qed

lemma zadd_loop_run:
  assumes "focus (c_db c) k p (ZSetObj z) d" "scores_parse F args" "even (length args)"
    "0 \<le> zr_added r" "0 \<le> zr_changed r"
  shows "\<exists>r' db' z'. zadd_loop F s p args r c = (Some r', c\<lparr>c_db := db'\<rparr>) \<and>
    refocus (c_db c) k p (ZSetObj z') d db' \<and> 0 \<le> zr_added r' \<and> 0 \<le> zr_changed r' \<and>
    (zadd_quiet r' \<longrightarrow> zadd_quiet r \<and> z' = z)"
  using assms
proof (induction F s p args r c arbitrary: z rule: zadd_loop.induct)
  case (1 F s p a m rest r c)
  obtain sc where sc: "parse_double F a = Some sc" using "1.prems"(2) by auto
  obtain r1 z1 where st: "zadd_pair F s sc m (r, z) = (r1, z1)" by fastforce
  note t = focus_zset_at [OF "1.prems"(1)]
  note pr = zadd_pair_run [OF conjunct2 [OF t] st "1.prems"(4,5)]
  let ?c = "obj_write p (ZSetObj z1) c"
  have ref1: "refocus (c_db c) k p (ZSetObj z1) d (c_db ?c)"
    by (rule zset_write_refocus [OF "1.prems"(1)]) (use pr in simp)
  have loop: "zadd_loop F s p (a # m # rest) r c = zadd_loop F s p rest r1 ?c" using sc st t by simp
  have "scores_parse F rest" "even (length rest)" using "1.prems" by simp_all
  from "1.IH" [OF sc, of "(r1, z1)" r1 z1 z1] this refocus_focus [OF ref1] st t pr
  obtain r' db' z' where "zadd_loop F s p rest r1 ?c = (Some r', ?c\<lparr>c_db := db'\<rparr>)"
    "refocus (c_db ?c) k p (ZSetObj z') d db'" "0 \<le> zr_added r'" "0 \<le> zr_changed r'"
    "zadd_quiet r' \<longrightarrow> zadd_quiet r1 \<and> z' = z1" by auto
  then show ?case using loop pr refocus_trans [OF ref1]
    by (intro exI [of _ r'] exI [of _ db'] exI [of _ z']) (auto simp: obj_write_def)
qed (use refocus_refl in \<open>force intro!: exI [of _ "c_db _"]\<close>)+

lemma sound_upd:
  assumes "ready c" "ok c'" "view c' = (view c)(k := e)" "d \<or> e = peek c k" "entry_full e"
    "c_dirty c' \<longleftrightarrow> c_dirty c \<or> d" "\<exists>out. c_out c' = c_out c @ out" "c_argv c' = c_argv c" "c_clock c' = c_clock c"
  shows "sound c c'"
proof -
  have "forgets (c_clock c) (view c) (view c')" if "\<not> d"
    using that assms(3,4) forgets_live [of "c_clock c" "view c" k "c_tick c"] by (auto simp: peek_def)
  moreover have "store_full (view c')" using readyD(2) [OF assms(1)] assms(3,5) store_full_upd by simp
  ultimately show ?thesis using assms by (auto simp: sound_def)
qed

text \<open>ZADD from the focused set on.\<close>

definition zadd_tail :: "fp \<Rightarrow> zadd_opts \<Rightarrow> bytes \<Rightarrow> nat \<Rightarrow> bytes list \<Rightarrow> ctx \<Rightarrow> ctx" where
  "zadd_tail F s key p rest c2 =
     (case zadd_loop F s p rest zadd_run_init c2 of (None, c3) \<Rightarrow> c3 | (Some r, c3) \<Rightarrow> zadd_finish F s key p r c3)"

lemma zadd_finish_run:
  assumes "focus (c_db c) k p (ZSetObj z) d"
  shows "\<exists>out db'. zadd_finish F s k p r c =
      c\<lparr>c_db := db', c_out := c_out c @ out, c_dirty := c_dirty c \<or> zr_added r \<noteq> 0 \<or> zr_changed r \<noteq> 0\<rparr> \<and>
    db_ok db' \<and> db_abs db' = (db_abs (c_db c))(k :=
      (if sw_abs (z_dict z) = Map.empty then None else Some (AZSet (sw_abs (z_dict z)), d)))"
proof -
  define b where "b \<longleftrightarrow> zr_added r \<noteq> 0 \<or> zr_changed r \<noteq> 0"
  let ?c4 = "c\<lparr>c_dirty := c_dirty c \<or> b\<rparr>"
  let ?e = "sw_size (z_dict z) = 0"
  let ?db = "if ?e then snd (ks_erase k (c_db c)) else c_db c"
  let ?reply = "if zo_incr s then (if zr_did r then a_double F (zr_last r) else a_nil)
    else a_integer (if zo_ch s then zr_changed r else zr_added r)"
  have e: "?e \<longleftrightarrow> sw_abs (z_dict z) = Map.empty" using sw.size_0_iff focusD(3) [OF assms] by simp
  have c4: "(if b then mark_dirty c else c) = ?c4" by (cases b) (simp_all add: mark_dirty_def)
  have obj: "zset_at ?c4 p = z" using focusD(2) [OF assms] by (simp add: zset_at_def obj_at_def)
  have eq: "zadd_finish F s k p r c = c\<lparr>c_db := ?db, c_out := c_out c @ ?reply, c_dirty := c_dirty c \<or> b\<rparr>"
    unfolding zadd_finish_def b_def [symmetric] c4 Let_def obj
    by (simp add: op_eqs r_double_eq)
  have "db_ok ?db" "db_abs ?db = (db_abs (c_db c))(k :=
      (if sw_abs (z_dict z) = Map.empty then None else Some (AZSet (sw_abs (z_dict z)), d)))"
    using db_erase [OF focusD(1) [OF assms], of k] focusD(1,4) [OF assms] e by (simp_all add: fun_upd_idem)
  then show ?thesis using eq by (intro exI [of _ ?reply] exI [of _ ?db]) (simp add: b_def)
qed

lemma zadd_tail_run:
  assumes "focus (c_db c) k p (ZSetObj z) d" "scores_parse F rest" "even (length rest)"
  obtains out db' z' b where
    "zadd_tail F s k p rest c = c\<lparr>c_db := db', c_out := c_out c @ out, c_dirty := c_dirty c \<or> b\<rparr>"
    "db_ok db'" "\<not> b \<longrightarrow> z' = z" "db_abs db' = (db_abs (c_db c))(k :=
      (if sw_abs (z_dict z') = Map.empty then None else Some (AZSet (sw_abs (z_dict z')), d)))"
proof -
  have "0 \<le> zr_added zadd_run_init" "0 \<le> zr_changed zadd_run_init" by (simp_all add: zadd_run_init_def)
  from zadd_loop_run [OF assms this, of s] obtain r db1 z' where
    l: "zadd_loop F s p rest zadd_run_init c = (Some r, c\<lparr>c_db := db1\<rparr>)"
    and rf: "refocus (c_db c) k p (ZSetObj z') d db1" and q: "zadd_quiet r \<longrightarrow> z' = z" by blast
  have "focus (c_db (c\<lparr>c_db := db1\<rparr>)) k p (ZSetObj z') d" using rf by (simp add: refocus_def)
  from zadd_finish_run [OF this, of F s r] obtain out db' where
    fin: "zadd_finish F s k p r (c\<lparr>c_db := db1\<rparr>) =
      c\<lparr>c_db := db', c_out := c_out c @ out, c_dirty := c_dirty c \<or> zr_added r \<noteq> 0 \<or> zr_changed r \<noteq> 0\<rparr>"
    "db_ok db'" "db_abs db' = (db_abs db1)(k :=
      (if sw_abs (z_dict z') = Map.empty then None else Some (AZSet (sw_abs (z_dict z')), d)))" by auto
  have eq: "zadd_tail F s k p rest c =
      c\<lparr>c_db := db', c_out := c_out c @ out, c_dirty := c_dirty c \<or> zr_added r \<noteq> 0 \<or> zr_changed r \<noteq> 0\<rparr>"
    using l fin by (simp add: zadd_tail_def)
  have "\<not> (zr_added r \<noteq> 0 \<or> zr_changed r \<noteq> 0) \<longrightarrow> z' = z" using q by (simp add: zadd_quiet_def)
  moreover have "db_abs db' = (db_abs (c_db c))(k :=
      (if sw_abs (z_dict z') = Map.empty then None else Some (AZSet (sw_abs (z_dict z')), d)))"
    using fin(3) rf by (simp add: refocus_def)
  ultimately show ?thesis by (rule that [OF eq fin(2)])
qed

lemma sound_zset_end:
  assumes "ready c" "c' = c2\<lparr>c_db := db', c_out := c_out c2 @ out, c_dirty := c_dirty c2 \<or> b\<rparr>"
    "c_out c2 = c_out c" "c_dirty c2 = c_dirty c" "c_argv c2 = c_argv c" "c_clock c2 = c_clock c"
    "db_ok db'" "db_abs db' = (view c)(k := e)" "b \<or> e = peek c k" "entry_full e"
  shows "sound c c'"
  by (rule sound_upd [OF assms(1), of c' k e b]) (use assms(2-) in \<open>auto simp: ok_def view_def\<close>)

definition zadd_scores_parse :: "fp \<Rightarrow> bytes list \<Rightarrow> bool" where
  "zadd_scores_parse F argv = scores_parse F (snd (zadd_options (drop 2 argv) zadd_init))"

lemma sound_zadd:
  assumes "ready c" "zadd_scores_parse F (c_argv c)"
  shows "sound c (cmd_zadd F c)"
proof -
  note ok = readyD(1) [OF assms(1)]
  obtain s rest where opts: "zadd_options (drop 2 (c_argv c)) zadd_init = (s, rest)" by fastforce
  then have sp: "scores_parse F rest" using assms(2) by (simp add: zadd_scores_parse_def)
  show ?thesis
  proof (cases "rest = [] \<or> length rest mod 2 \<noteq> 0")
    case True
    then show ?thesis using opts ok by (simp add: cmd_zadd_def err_syntax_def sound_reply)
  next
    case False
    then have ev: "rest \<noteq> []" "length rest mod 2 = 0" "even (length rest)" by auto
    show ?thesis using ok
    proof (cases rule: typed_cases [of c T_ZSet "arg c 1"])
      case (Gone db1)
      let ?p = "fst (ks_set (arg c 1) make_zset db1)" and ?db = "snd (ks_set (arg c 1) make_zset db1)"
      let ?z = "\<lparr>z_dict = sw_new score_params, z_sl = sl_new\<rparr>"
      let ?c2 = "c\<lparr>c_tick := Suc (c_tick c), c_db := ?db\<rparr>"
      have f: "focus (c_db ?c2) (arg c 1) ?p (ZSetObj ?z) None"
        using focus_set [OF Gone(2) make_zset_wf(1), of "arg c 1"] by (simp add: make_zset_def arg_def)
      have eq: "cmd_zadd F c = zadd_tail F s (arg c 1) ?p rest ?c2"
        using ev Gone(1) by (simp add: cmd_zadd_def opts get_zset_def or_make_def db_set_eq zadd_tail_def
            cong: prod.case_cong option.case_cong)
      obtain out db' z' b where
        t: "zadd_tail F s (arg c 1) ?p rest ?c2 = ?c2\<lparr>c_db := db', c_out := c_out ?c2 @ out, c_dirty := c_dirty ?c2 \<or> b\<rparr>"
        "db_ok db'" "\<not> b \<longrightarrow> z' = ?z" "db_abs db' = (db_abs (c_db ?c2))(arg c 1 :=
          (if sw_abs (z_dict z') = Map.empty then None else Some (AZSet (sw_abs (z_dict z')), None)))"
        by (rule zadd_tail_run [OF f sp ev(3), of s])
      have "db_abs (c_db ?c2) = (db_abs (c_db c))(arg c 1 \<mapsto> (AZSet Map.empty, None))"
        using db_set(2) [OF Gone(2) make_zset_wf(1), of "arg c 1"] Gone(3) make_zset_wf(2) by simp
      then have upd: "db_abs db' = (view c)(arg c 1 :=
          (if sw_abs (z_dict z') = Map.empty then None else Some (AZSet (sw_abs (z_dict z')), None)))"
        using t(4) by (simp add: view_def)
      show ?thesis
        by (rule sound_zset_end [OF assms(1) eq [unfolded t(1)] _ _ _ _ t(2) upd])
          (use t(3) Gone(4) in \<open>auto simp: sw.abs_new\<close>)
    next
      case (Wrong a d)
      then have "cmd_zadd F c = err_wrong_type (snd (get_typed T_ZSet (arg c 1) c))"
        using ev by (simp add: cmd_zadd_def opts get_zset_def)
      then show ?thesis using sound_says_typed [OF ok says_reply(5)] by simp
    next
      case (Alive p v d)
      then obtain z where v: "v = ZSetObj z" by (auto simp: type_ZSet_iff)
      let ?c2 = "c\<lparr>c_tick := Suc (c_tick c)\<rparr>"
      from Alive v have f: "focus (c_db ?c2) (arg c 1) p (ZSetObj z) d" by (simp add: focus_def arg_def)
      have ne: "sw_abs (z_dict z) \<noteq> Map.empty"
        using readyD(2) [OF assms(1)] Alive(8) v by (force simp: store_full_def view_def)
      have eq: "cmd_zadd F c = zadd_tail F s (arg c 1) p rest ?c2"
        using ev Alive(1) by (simp add: cmd_zadd_def opts get_zset_def or_make_def zadd_tail_def
            cong: prod.case_cong option.case_cong)
      obtain out db' z' b where
        t: "zadd_tail F s (arg c 1) p rest ?c2 = ?c2\<lparr>c_db := db', c_out := c_out ?c2 @ out, c_dirty := c_dirty ?c2 \<or> b\<rparr>"
        "db_ok db'" "\<not> b \<longrightarrow> z' = z" "db_abs db' = (db_abs (c_db ?c2))(arg c 1 :=
          (if sw_abs (z_dict z') = Map.empty then None else Some (AZSet (sw_abs (z_dict z')), d)))"
        by (rule zadd_tail_run [OF f sp ev(3), of s])
      have upd: "db_abs db' = (view c)(arg c 1 :=
          (if sw_abs (z_dict z') = Map.empty then None else Some (AZSet (sw_abs (z_dict z')), d)))"
        using t(4) by (simp add: view_def)
      show ?thesis
        by (rule sound_zset_end [OF assms(1) eq [unfolded t(1)] _ _ _ _ t(2) upd])
          (use t(3) Alive(7) v ne in auto)
    qed
  qed
qed

lemma sound_zsets:
  assumes "ready c"
  shows "sound c (cmd_zscore F c)" "sound c (cmd_zcard c)" "sound c (cmd_zrem c)" "sound c (cmd_zincrby F c)"
    "sound c (cmd_zrange F c)" "sound c (cmd_zrank c)" "sound c (cmd_zrangebyscore F c)"
proof -
  note ok = readyD(1) [OF assms]
  show "sound c (cmd_zscore F c)" "sound c (cmd_zcard c)" "sound c (cmd_zrem c)" "sound c (cmd_zincrby F c)"
    using sound_by_runs [OF assms] ok cmd_zscore_runs cmd_zcard_runs cmd_zrem_runs cmd_zincrby_runs well_zsets
    by blast+
  show "sound c (cmd_zrange F c)" "sound c (cmd_zrank c)" "sound c (cmd_zrangebyscore F c)"
    using sound_says_typed [OF ok says_zrange [unfolded get_zset_def]]
      sound_says_typed [OF ok says_zrank [unfolded get_zset_def]]
      sound_says_typed [OF ok, of T_ZSet "arg c 1"] sound_says [OF ok]
      says_zrangebyscore [of c F, unfolded get_zset_def] by blast+
qed

end
