(* ===== verification/ZSet_Order.thy ===== *)
theory ZSet_Order
  imports Skip_Query Cmd_ZSet_Correct
begin

section \<open>The two indexes of a sorted set agree\<close>

text \<open>
  A sorted set is in order when its skip list is the sorted list of the table's entries. Setting and removing
  members keep it so as long as no score is a NaN, and then the commands that read ranks and ranges reply with what
  they say of the sorted list. With a NaN they do not: such an entry can never be removed from the list again.
\<close>

definition zset_ok :: "zset \<Rightarrow> z_entry list \<Rightarrow> bool" where
  "zset_ok z es \<longleftrightarrow> sw_inv score_params (z_dict z) \<and> sl_rep (z_sl z) es \<and>
     (\<forall>m sc. (m, sc) \<in> set es \<longleftrightarrow> sw_abs (z_dict z) m = Some sc)"

text \<open>Setting a score in the sorted list: an equal score stays as it is.\<close>

definition z_set :: "bytes \<Rightarrow> dbl \<Rightarrow> z_entry list \<Rightarrow> z_entry list" where
  "z_set m sc es =
     (if \<exists>e\<in>set es. z_same e (m, sc) then es else z_insert (m, sc) (filter (\<lambda>e. fst e \<noteq> m) es))"

definition z_remove :: "bytes \<Rightarrow> z_entry list \<Rightarrow> z_entry list" where
  "z_remove m es = filter (\<lambda>e. fst e \<noteq> m) es"

lemma zset_ok_new: "zset_ok \<lparr>z_dict = sw_new score_params, z_sl = sl_new\<rparr> []"
  using sw.inv_new [of score_params] sw.abs_new [of score_params] by (simp add: zset_ok_def sl_new_rep)

lemma zset_okD:
  assumes "zset_ok z es"
  shows "sw_inv score_params (z_dict z)" "sl_rep (z_sl z) es" "z_sorted es"
    "(m, sc) \<in> set es \<longleftrightarrow> sw_abs (z_dict z) m = Some sc"
  using assms by (auto simp: zset_ok_def sl_rep_def)

lemma zset_ok_not_nan: "zset_ok z es \<Longrightarrow> sw_abs (z_dict z) m = Some sc \<Longrightarrow> \<not> d_isnan sc"
  using zset_okD(3,4) by (fastforce simp: z_sorted_def)

lemma sl_put_rep: "sl_rep s es \<Longrightarrow> \<not> d_isnan sc \<Longrightarrow> \<forall>e\<in>set es. \<not> z_same e (m, sc) \<Longrightarrow> sl_rep (sl_put m sc s) (z_insert (m, sc) es)"
  using sl_insert_rep [of s es sc m] by (auto simp: sl_put_def)

lemma sl_drop_rep: "sl_rep s es \<Longrightarrow> sl_rep (sl_drop m sc s) (filter (\<lambda>e. \<not> z_same e (m, sc)) es)"
  using sl_erase_rep [of s es m sc] by (auto simp: sl_drop_def)

text \<open>The member's entry is the only one with its name.\<close>

lemma filter_same_name:
  assumes "zset_ok z es" "sw_abs (z_dict z) m = Some sc"
  shows "filter (\<lambda>e. \<not> z_same e (m, sc)) es = z_remove m es"
  unfolding z_remove_def
proof (rule filter_cong [OF refl])
  fix e assume e: "e \<in> set es"
  obtain n x where nx: "e = (n, x)" by fastforce
  have "x = sc" if "n = m" using e zset_okD(4) [OF assms(1), of n x] assms(2) that nx by simp
  then show "(\<not> z_same e (m, sc)) = (fst e \<noteq> m)"
    using zset_ok_not_nan [OF assms] by (auto simp: z_same_def nx)
qed

lemma remove_absent: "zset_ok z es \<Longrightarrow> sw_abs (z_dict z) m = None \<Longrightarrow> z_remove m es = es"
  unfolding z_remove_def by (rule filter_True) (auto simp: zset_okD(4))

lemma zset_set_ok:
  assumes "zset_ok z es" "\<not> d_isnan sc"
  shows "zset_ok (fst (zset_set m sc z)) (z_set m sc es)"
proof -
  have inv: "sw_inv score_params (z_dict z)" and rep: "sl_rep (z_sl z) es" using zset_okD(1,2) [OF assms(1)] by auto
  note mem = zset_okD(4) [OF assms(1)]
  have dict: "sw_inv score_params (z_dict (fst (zset_set m sc z)))"
    "sw_abs (z_dict (fst (zset_set m sc z))) = score_set m sc (sw_abs (z_dict z))" using zset_set_dict [OF inv] by auto
  have fresh: "\<forall>e\<in>set (z_remove m es). \<not> z_same e (m, sc)" by (auto simp: z_remove_def z_same_def)
  show ?thesis
  proof (cases "sw_find score_params (z_dict z) m")
    case None
    then have n: "sw_abs (z_dict z) m = None" using sw.find_None [OF inv] by simp
    have no: "\<not> (\<exists>e\<in>set es. z_same e (m, sc))" using mem n by (auto simp: z_same_def)
    have "z_set m sc es = z_insert (m, sc) es"
      using no remove_absent [OF assms(1) n] by (simp add: z_set_def z_remove_def)
    moreover have "sl_rep (sl_put m sc (z_sl z)) (z_insert (m, sc) es)" using sl_put_rep [OF rep assms(2)] no by blast
    moreover have "z_sl (fst (zset_set m sc z)) = sl_put m sc (z_sl z)" using None by (simp add: zset_set_def)
    ultimately show ?thesis
      unfolding zset_ok_def dict(2) using dict(1) mem n by (auto simp: set_z_insert score_set_def)
  next
    case (Some i)
    let ?cur = "sw_value (z_dict z) i"
    have c: "sw_abs (z_dict z) m = Some ?cur" using Some sw.find_val [OF inv, of m] by simp
    show ?thesis
    proof (cases "d_eq ?cur sc")
      case True
      have "\<exists>e\<in>set es. z_same e (m, sc)" using mem [of m ?cur] c True by (auto simp: z_same_def intro!: bexI [of _ "(m, ?cur)"])
      then show ?thesis using Some True assms(1) by (simp add: z_set_def zset_set_def Let_def)
    next
      case False
      have no: "\<not> (\<exists>e\<in>set es. z_same e (m, sc))" using mem c False by (auto simp: z_same_def)
      have "sl_rep (sl_drop m ?cur (z_sl z)) (z_remove m es)"
        using sl_drop_rep [OF rep, of m ?cur] filter_same_name [OF assms(1) c] by simp
      then have "sl_rep (sl_put m sc (sl_drop m ?cur (z_sl z))) (z_insert (m, sc) (z_remove m es))"
        using sl_put_rep assms(2) fresh by blast
      moreover have "z_set m sc es = z_insert (m, sc) (z_remove m es)" using no by (simp add: z_set_def z_remove_def)
      moreover have "z_sl (fst (zset_set m sc z)) = sl_put m sc (sl_drop m ?cur (z_sl z))"
        using Some False by (simp add: zset_set_def Let_def)
      ultimately show ?thesis
        unfolding zset_ok_def dict(2) using dict(1) mem c False by (auto simp: set_z_insert z_remove_def score_set_def)
    qed
  qed
qed

lemma zset_remove_ok:
  assumes "zset_ok z es"
  shows "zset_ok (fst (zset_remove m z)) (z_remove m es)"
proof -
  have inv: "sw_inv score_params (z_dict z)" and rep: "sl_rep (z_sl z) es" using zset_okD(1,2) [OF assms(1)] by auto
  note mem = zset_okD(4) [OF assms(1)]
  show ?thesis
  proof (cases "sw_find score_params (z_dict z) m")
    case None
    then have "sw_abs (z_dict z) m = None" using sw.find_None [OF inv] by simp
    then show ?thesis using None assms remove_absent [OF assms] by (simp add: zset_remove_def)
  next
    case (Some i)
    have c: "sw_abs (z_dict z) m = Some (sw_value (z_dict z) i)" using Some sw.find_val [OF inv, of m] by simp
    then show ?thesis
      using Some sl_drop_rep [OF rep, of m "sw_value (z_dict z) i", unfolded filter_same_name [OF assms c]] sw.inv_erase [OF inv] sw.abs_erase [OF inv] mem
      by (auto simp: zset_ok_def zset_remove_def z_remove_def)
  qed
qed

subsection \<open>Ranks and ranges\<close>

lemma zset_size: "zset_ok z es \<Longrightarrow> sw_size (z_dict z) = length es"
proof -
  assume z: "zset_ok z es"
  have d: "distinct es"
    using zset_okD(3) [OF z] z_before_irrefl unfolding z_sorted_def
    by (metis distinct_conv_nth linorder_neqE_nat sorted_wrt_nth_less)
  have "inj_on fst (set es)" by (rule inj_onI) (use zset_okD(4) [OF z] in \<open>auto simp: prod_eq_iff\<close>)
  then have "card (fst ` set es) = length es" using d by (simp add: card_image distinct_card)
  moreover have "fst ` set es = dom (sw_abs (z_dict z))" using zset_okD(4) [OF z] by (force simp: domIff)
  ultimately show ?thesis using sw.size_card [OF zset_okD(1) [OF z]] by simp
qed

text \<open>The entries between two bounds, each of which may be exclusive.\<close>

definition above :: "dbl \<times> bool \<Rightarrow> z_entry \<Rightarrow> bool" where
  "above hi e \<longleftrightarrow> d_lt (fst hi) (snd e) \<or> snd hi \<and> d_le (fst hi) (snd e)"

definition below :: "dbl \<times> bool \<Rightarrow> z_entry \<Rightarrow> bool" where
  "below lo e \<longleftrightarrow> d_lt (snd e) (fst lo) \<or> snd lo \<and> d_le (snd e) (fst lo)"

definition z_between :: "dbl \<times> bool \<Rightarrow> dbl \<times> bool \<Rightarrow> z_entry list \<Rightarrow> z_entry list" where
  "z_between lo hi es = filter (\<lambda>e. \<not> below lo e \<and> \<not> above hi e) es"

lemma above_later: "above hi e \<Longrightarrow> z_before e f \<Longrightarrow> above hi f"
  by (auto simp: above_def z_before_def d_le_def d_lt_def d_eq_def)

lemma walk_between:
  assumes "from_node s n es" "sorted_wrt z_before es" "\<forall>e\<in>set es. \<not> d_lt (snd e) (fst lo)"
  shows "zrbs_walk s lo hi n out = Some (out @ z_between lo hi es)"
  using assms
proof (induction es arbitrary: n out)
  case Nil
  then have "n = None" using from_node_Some(1) by (cases n) auto
  then show ?case by (simp add: zrbs_walk.simps z_between_def)
next
  case (Cons e es)
  then obtain p where n: "n = Some p" using from_node_None [of s "e # es"] by (cases n) auto
  note f = from_node_Some [OF Cons.prems(1) [unfolded n]]
  have e: "entry_at s p = e" using f(2) by simp
  have IH: "zrbs_walk s lo hi (sl_fwd s p 0) out = Some (out @ z_between lo hi es)" for out
    using Cons.IH [of "sl_fwd s p 0" out] f(3) Cons.prems(2,3) by simp
  have sc: "score (sl_at s p) = snd e" "(member (sl_at s p), snd e) = e" using e by (auto simp: entry_at_def)
  have b: "below lo e \<longleftrightarrow> snd lo \<and> d_le (snd e) (fst lo)" using Cons.prems(3) by (simp add: below_def)
  show ?case
  proof (cases "below lo e \<or> \<not> above hi e")
    case True
    then show ?thesis unfolding n
      by (subst zrbs_walk.simps) (auto simp: Let_def sc IH z_between_def b above_def)
  next
    case False
    have "above hi f" if "f \<in> set es" for f using Cons.prems(2) that False above_later [of hi e f] by simp
    then have "z_between lo hi (e # es) = []" using False by (auto simp: z_between_def filter_empty_conv)
    moreover have "zrbs_walk s lo hi (Some p) out = Some out"
      using False by (subst zrbs_walk.simps) (auto simp: Let_def sc b above_def)
    ultimately show ?thesis unfolding n by simp
  qed
qed

lemma drop_below:
  assumes "z_sorted es"
  shows "z_between lo hi (dropWhile (\<lambda>e. d_lt (snd e) (fst lo)) es) = z_between lo hi es"
    "\<forall>e\<in>set (dropWhile (\<lambda>e. d_lt (snd e) (fst lo)) es). \<not> d_lt (snd e) (fst lo)"
    "sorted_wrt z_before (dropWhile (\<lambda>e. d_lt (snd e) (fst lo)) es)"
proof -
  let ?p = "\<lambda>e :: z_entry. d_lt (snd e) (fst lo)"
  have so: "sorted_wrt z_before es" using assms by (simp add: z_sorted_def)
  have "filter (\<lambda>e. \<not> below lo e \<and> \<not> above hi e) (takeWhile ?p es) = []"
    by (auto simp: filter_empty_conv below_def dest: set_takeWhileD)
  then have "z_between lo hi (takeWhile ?p es @ dropWhile ?p es) = z_between lo hi (dropWhile ?p es)"
    unfolding z_between_def filter_append by simp
  then show "z_between lo hi (dropWhile ?p es) = z_between lo hi es" by simp
  have d: "dropWhile ?p es = drop (count_first ?p es) es" unfolding count_first_def by (rule dropWhile_eq_drop)
  show "sorted_wrt z_before (dropWhile ?p es)" unfolding d by (rule sorted_wrt_drop [OF so])
  show "\<forall>e\<in>set (dropWhile ?p es). \<not> ?p e"
  proof
    fix e assume "e \<in> set (dropWhile ?p es)"
    then have "\<exists>c. count_first ?p es \<le> c \<and> c < length es \<and> e = es ! c"
      unfolding d in_set_conv_nth by (force intro: exI [of _ "count_first ?p es + _"])
    then show "\<not> ?p e" using count_first_iff [OF so inherits_score, of _ "fst lo"] by (metis not_le)
  qed
qed

section \<open>Ranks, ranges and histories of sorted sets\<close>

text \<open>
  What the commands that walk the skip list reply, in terms of the sorted list of the entries; every history of
  settings and removals keeps the two indexes of a sorted set in step with it; and what a NaN does to them.
\<close>

subsection \<open>Histories\<close>

datatype z_op = Z_put bytes dbl | Z_rem bytes

fun z_do :: "zset \<Rightarrow> z_op \<Rightarrow> zset" where
  "z_do z (Z_put m sc) = fst (zset_set m sc z)"
| "z_do z (Z_rem m) = fst (zset_remove m z)"

fun z_ref :: "z_entry list \<Rightarrow> z_op \<Rightarrow> z_entry list" where
  "z_ref es (Z_put m sc) = z_set m sc es"
| "z_ref es (Z_rem m) = z_remove m es"

fun z_number :: "z_op \<Rightarrow> bool" where
  "z_number (Z_put m sc) = (\<not> d_isnan sc)"
| "z_number (Z_rem m) = True"

definition z_empty :: zset where
  "z_empty = \<lparr>z_dict = sw_new score_params, z_sl = sl_new\<rparr>"

lemma z_do_ok: "zset_ok z es \<Longrightarrow> z_number a \<Longrightarrow> zset_ok (z_do z a) (z_ref es a)"
  by (cases a) (simp_all add: zset_set_ok zset_remove_ok)

lemma z_history_ok:
  "zset_ok z es \<Longrightarrow> \<forall>a\<in>set ops. z_number a \<Longrightarrow> zset_ok (foldl z_do z ops) (foldl z_ref es ops)"
  by (induction ops arbitrary: z es) (auto simp: z_do_ok)

subsection \<open>Places\<close>

lemma find_place:
  assumes "zset_ok z es" "j < length es" "fst (es ! j) = m"
  shows "\<exists>i. sw_find score_params (z_dict z) m = Some i \<and> z_same (es ! j) (m, sw_value (z_dict z) i)"
proof -
  have e: "(m, snd (es ! j)) \<in> set es" using assms(2,3) nth_mem by (metis prod.collapse)
  then have a: "sw_abs (z_dict z) m = Some (snd (es ! j))" using zset_okD(4) [OF assms(1)] by simp
  then obtain i where i: "sw_find score_params (z_dict z) m = Some i" "sw_value (z_dict z) i = snd (es ! j)"
    using sw.find_None [OF zset_okD(1) [OF assms(1)], of m] sw.find_val [OF zset_okD(1) [OF assms(1)], of m]
    by (cases "sw_find score_params (z_dict z) m") auto
  then show ?thesis using zset_ok_not_nan [OF assms(1) a] assms(3) by (simp add: z_same_def)
qed

lemma find_absent:
  assumes "zset_ok z es" "m \<notin> fst ` set es"
  shows "sw_find score_params (z_dict z) m = None"
proof -
  have "(m, sc) \<notin> set es" for sc using assms(2) by force
  then have "sw_abs (z_dict z) m = None" using zset_okD(4) [OF assms(1), of m] by (cases "sw_abs (z_dict z) m") auto
  then show ?thesis using sw.find_None [OF zset_okD(1) [OF assms(1)]] by simp
qed

lemma cmd_zrank_place:
  assumes "get_zset (arg c 1) c = (Found p, c1)" "zset_ok (zset_at c1 p) es" "length es < 2 ^ 32"
  shows "j < length es \<Longrightarrow> fst (es ! j) = arg c 2 \<Longrightarrow> cmd_zrank c = r_integer (int j) c1"
    "arg c 2 \<notin> fst ` set es \<Longrightarrow> cmd_zrank c = r_null_bulk c1"
proof -
  assume j: "j < length es" "fst (es ! j) = arg c 2"
  from find_place [OF assms(2) j] obtain i where i: "sw_find score_params (z_dict (zset_at c1 p)) (arg c 2) = Some i"
    "z_same (es ! j) (arg c 2, sw_value (z_dict (zset_at c1 p)) i)" by blast
  have "unat (word_of_nat (Suc j) :: u32) = Suc j" using j(1) assms(3) by (intro u32_of_nat) simp
  then show "cmd_zrank c = r_integer (int j) c1"
    using rank_of_rep(1) [OF zset_okD(2) [OF assms(2)] j(1) i(2)] by (simp add: cmd_zrank_def assms(1) i(1) Let_def del: One_nat_def)
next
  assume "arg c 2 \<notin> fst ` set es"
  from find_absent [OF assms(2) this] show "cmd_zrank c = r_null_bulk c1" by (simp add: cmd_zrank_def assms(1) Let_def del: One_nat_def)
qed

subsection \<open>Ranges\<close>

lemma zrange_item_entry:
  assumes "sl_rep s es" "length es < 2 ^ 32" "i < length es"
  shows "zrange_item F ws desc (int (length es)) s c i = zrbs_item F ws c ((if desc then rev es else es) ! i)"
proof -
  let ?r = "if desc then length es - i else Suc i"
  have w: "(if desc then word_of_int (int (length es) - int i) else word_of_int (int i + 1) :: u32) = word_of_nat ?r"
    using assms(3) by (simp add: of_nat_diff add.commute)
  have u: "unat (word_of_nat ?r :: u32) = ?r" using assms(2,3) by (intro u32_of_nat) auto
  have n: "0 < ?r" "?r \<le> length es" using assms(3) by auto
  from at_rank_rep [OF assms(1,2), of "word_of_nat ?r"] n
  obtain p where p: "at_rank (word_of_nat ?r) s = Some (Some p)" "entry_at s p = es ! (?r - 1)" unfolding u by auto
  have "es ! (?r - 1) = (if desc then rev es else es) ! i" using assms(3) by (simp add: rev_nth)
  then have "member (sl_at s p) = fst ((if desc then rev es else es) ! i)"
    "score (sl_at s p) = snd ((if desc then rev es else es) ! i)" using p(2) by (metis entry_at_def fst_conv snd_conv)+
  then show ?thesis using p(1) unfolding zrange_item_def Let_def w by (simp add: zrbs_item_def Let_def)
qed

lemma zrange_fold:
  assumes "sl_rep s es" "length es < 2 ^ 32" "\<forall>i\<in>set is. i < length es"
  shows "foldl (zrange_item F ws desc (int (length es)) s) c is =
    foldl (zrbs_item F ws) c (map (\<lambda>i. (if desc then rev es else es) ! i) is)"
  using assms(3) by (induction "is" arbitrary: c) (simp_all add: zrange_item_entry [OF assms(1,2)])

lemma clamp_range_Some: "clamp_range len s e = Some (a, b) \<Longrightarrow> 0 \<le> len \<Longrightarrow> 0 \<le> a \<and> a \<le> b \<and> b < len"
  by (auto simp: clamp_range_def Let_def split: if_splits)

lemma map_nth_upt: "b \<le> length xs \<Longrightarrow> map (\<lambda>i. xs ! i) [a..<b] = take (b - a) (drop a xs)"
  by (rule nth_equalityI) auto

definition zrange_reply :: "fp \<Rightarrow> bool \<Rightarrow> z_entry list \<Rightarrow> ctx \<Rightarrow> ctx" where
  "zrange_reply F ws out c =
     foldl (zrbs_item F ws) (r_array_header (if ws then int (length out) * 2 else int (length out)) c) out"

lemma zrange_reply_Nil [simp]: "zrange_reply F ws [] c = r_array_header 0 c"
  by (simp add: zrange_reply_def)

definition z_slice :: "int \<Rightarrow> int \<Rightarrow> z_entry list \<Rightarrow> z_entry list" where
  "z_slice start stop es =
     (case clamp_range (int (length es)) start stop of
        None \<Rightarrow> []
      | Some (a, b) \<Rightarrow> take (nat (b - a + 1)) (drop (nat a) es))"

lemma cmd_zrange_slice:
  assumes "get_zset (arg c 1) c = (Found p, c1)" "zset_ok (zset_at c1 p) es" "length es < 2 ^ 32"
    "foldl zrange_opt (False, False) (drop 4 (c_argv c)) = (ws, desc)"
    "parse_int (arg c 2) = Some start" "parse_int (arg c 3) = Some stop"
  shows "cmd_zrange F c = zrange_reply F ws (z_slice start stop (if desc then rev es else es)) c1"
proof (cases "clamp_range (int (length es)) start stop")
  case None
  then show ?thesis using zset_size [OF assms(2)] by (simp add: cmd_zrange_def assms Let_def z_slice_def del: One_nat_def)
next
  case (Some ab)
  then obtain a b where ab: "clamp_range (int (length es)) start stop = Some (a, b)" by (cases ab) auto
  note r = clamp_range_Some [OF ab]
  let ?es = "if desc then rev es else es"
  have l: "\<forall>i\<in>set [nat a..<nat b + 1]. i < length es" using r by auto
  have b: "nat b < length es" using r by arith
  have k: "nat (b - a + 1) = nat b + 1 - nat a" using r by arith
  have m: "map (\<lambda>i. ?es ! i) [nat a..<nat b + 1] = take (nat (b - a + 1)) (drop (nat a) ?es)"
    unfolding k by (rule map_nth_upt) (use b in simp)
  have n: "int (length (take (nat (b - a + 1)) (drop (nat a) ?es))) = b - a + 1"
    using r b by (simp split: split_min) arith
  have sl: "z_slice start stop ?es = take (nat (b - a + 1)) (drop (nat a) ?es)" using ab by (simp add: z_slice_def)
  show ?thesis
    unfolding zrange_reply_def sl n
    by (simp only: cmd_zrange_def assms(1,4-6) Let_def prod.case zset_size [OF assms(2)] ab option.case typed.case
        zrange_fold [OF zset_okD(2) [OF assms(2)] assms(3) l] m) simp
qed

lemma cmd_zrangebyscore_between:
  assumes "get_zset (arg c 1) c = (Found p, c1)" "zset_ok (zset_at c1 p) es"
    "zrbs_options (drop 4 (c_argv c)) (False, 0, - 1) = (ws, offset, limit)"
    "parse_bound F (arg c 2) = Some lo" "parse_bound F (arg c 3) = Some hi"
  shows "cmd_zrangebyscore F c = zrange_reply F ws (zrbs_window offset limit (z_between lo hi es)) c1"
proof -
  let ?d = "dropWhile (\<lambda>e. d_lt (snd e) (fst lo)) es"
  note d = drop_below [OF zset_okD(3) [OF assms(2)], of lo]
  from first_gte_rep [OF zset_okD(2) [OF assms(2)], of "fst lo"]
  obtain n where n: "first_gte (fst lo) (z_sl (zset_at c1 p)) = Some n" "from_node (z_sl (zset_at c1 p)) n ?d" by blast
  have "zrbs_walk (z_sl (zset_at c1 p)) lo hi n [] = Some (z_between lo hi es)"
    using walk_between [OF n(2) d(3,2), of hi "[]"] d(1) by simp
  then show ?thesis by (simp add: cmd_zrangebyscore_def assms Let_def n(1) zrange_reply_def del: One_nat_def)
qed

subsection \<open>NaN\<close>

lemma d_eq_nan: "d_isnan a \<Longrightarrow> \<not> d_eq x a" "d_isnan a \<Longrightarrow> \<not> d_eq a x"
  by (simp_all add: d_eq_def)

lemma sl_drop_nan: "d_isnan sc \<Longrightarrow> sl_drop m sc s = s"
  by (auto simp: sl_drop_def sl_erase_def d_eq_nan Let_def split: option.splits)

lemma zset_remove_nan:
  assumes "sw_inv score_params (z_dict z)" "sw_abs (z_dict z) m = Some sc" "d_isnan sc"
  shows "sw_abs (z_dict (fst (zset_remove m z))) m = None \<and> z_sl (fst (zset_remove m z)) = z_sl z"
proof -
  obtain i where i: "sw_find score_params (z_dict z) m = Some i" "sw_value (z_dict z) i = sc"
    using sw.find_None [OF assms(1), of m] sw.find_val [OF assms(1), of m] assms(2)
    by (cases "sw_find score_params (z_dict z) m") auto
  then show ?thesis using sw.abs_erase [OF assms(1)] by (simp add: zset_remove_def sl_drop_nan assms(3))
qed

subsection \<open>The sorted set under a key\<close>

definition sees_zset :: "ctx \<Rightarrow> bytes \<Rightarrow> zset \<Rightarrow> bool" where
  "sees_zset c k z \<longleftrightarrow> ks_inv (c_db c) \<and> (\<exists>d. live (c_clock c (c_tick c)) (ks_abs (c_db c)) k = Some (ZSetObj z, d))"

definition holds_zset :: "keyspace \<Rightarrow> bytes \<Rightarrow> zset \<Rightarrow> bool" where
  "holds_zset ks k z \<longleftrightarrow> ks_inv ks \<and> (\<exists>d. ks_abs ks k = Some (ZSetObj z, d))"

definition ticked :: "ctx \<Rightarrow> ctx" where
  "ticked c = c\<lparr>c_tick := c_tick c + 1\<rparr>"

lemma sees_zset_found:
  assumes "sees_zset c k z"
  obtains p where "get_zset k c = (Found p, ticked c)" "zset_at (ticked c) p = z" "ks_at (c_db c) k p"
proof -
  let ?now = "c_clock c (c_tick c)"
  have inv: "ks_inv (c_db c)" and l: "\<exists>d. live ?now (ks_abs (c_db c)) k = Some (ZSetObj z, d)"
    using assms by (auto simp: sees_zset_def)
  then obtain p where p: "ks_lookup ?now k (c_db c) = (Some p, c_db c)" "ks_at (c_db c) k p" "ks_obj (c_db c) p = ZSetObj z"
    using ks_lookup_cases [OF inv, of ?now k] by (fastforce simp: live_def)
  have "get_zset k c = (Found p, ticked c)"
    using p by (simp add: get_zset_def get_typed_def db_lookup_def now_ms_def obj_at_def ticked_def)
  moreover have "zset_at (ticked c) p = z" using p by (simp add: zset_at_def obj_at_def ticked_def)
  ultimately show thesis using that p(2) by blast
qed

subsection \<open>ZADD without options\<close>

fun zadd_pairs :: "fp \<Rightarrow> bytes list \<Rightarrow> (dbl \<times> bytes) list option" where
  "zadd_pairs F [] = Some []"
| "zadd_pairs F [a] = None"
| "zadd_pairs F (a # m # rest) =
     (case (parse_double F a, zadd_pairs F rest) of (Some sc, Some ps) \<Rightarrow> Some ((sc, m) # ps) | _ \<Rightarrow> None)"

definition z_puts :: "(dbl \<times> bytes) list \<Rightarrow> z_op list" where
  "z_puts ps = map (\<lambda>(sc, m). Z_put m sc) ps"

lemma zadd_pair_plain: "snd (zadd_pair F zadd_init sc m (r, z)) = z_do z (Z_put m sc)"
  by (auto simp: zadd_pair_def zadd_init_def Let_def zset_set_def split: option.split)

lemma zadd_loop_plain:
  assumes "zadd_pairs F args = Some ps" "ks_inv (c_db c)" "ks_at (c_db c) k p" "ks_obj (c_db c) p = ZSetObj z"
    "ks_abs (c_db c) k = Some (ZSetObj z, d)"
  shows "\<exists>r c'. zadd_loop F zadd_init p args r0 c = (Some r, c') \<and> ks_inv (c_db c') \<and> ks_at (c_db c') k p \<and>
    ks_abs (c_db c') k = Some (ZSetObj (foldl z_do z (z_puts ps)), d)"
  using assms
proof (induction F args arbitrary: ps r0 c z rule: zadd_pairs.induct)
  case (3 F a m rest)
  then obtain sc qs where q: "parse_double F a = Some sc" "zadd_pairs F rest = Some qs" "ps = (sc, m) # qs"
    by (auto split: option.splits)
  obtain r1 z1 where z1: "zadd_pair F zadd_init sc m (r0, z) = (r1, z1)" by fastforce
  then have z1': "z1 = z_do z (Z_put m sc)" using zadd_pair_plain [of F sc m r0 z] by simp
  let ?c = "obj_write p (ZSetObj z1) c"
  have w: "ks_inv (c_db ?c)" "ks_at (c_db ?c) k p" "ks_obj (c_db ?c) p = ZSetObj z1"
    using ks_write_inv [OF 3(3,4)] ks_write_obj [OF 3(3,4)] by (simp_all add: obj_write_def)
  have d: "sw_abs (ks_expires (c_db c)) k = d" using ks_at_obj [OF 3(3,4)] 3(6) by simp
  have a: "ks_abs (c_db ?c) k = Some (ZSetObj z1, d)" using ks_write_abs [OF 3(3,4), of "ZSetObj z1"] d by (simp add: obj_write_def)
  have at: "zset_at c p = z" using 3(5) by (simp add: zset_at_def obj_at_def)
  have "zadd_loop F zadd_init p (a # m # rest) r0 c = zadd_loop F zadd_init p rest r1 ?c"
    by (simp add: q(1) at z1)
  with 3(1) [OF q(2) w a, of r1] show ?case by (simp add: q(3) z_puts_def z1')
qed (auto simp: z_puts_def)

lemma zadd_pairs_length: "zadd_pairs F args = Some ps \<Longrightarrow> length args = 2 * length ps"
  by (induction F args arbitrary: ps rule: zadd_pairs.induct) (auto split: option.splits)

lemma z_set_not_Nil: "z_set m sc es \<noteq> []"
  by (auto simp: z_set_def z_insert_def)

lemma z_puts_not_Nil: "ps \<noteq> [] \<Longrightarrow> foldl z_ref es (z_puts ps) \<noteq> []"
  by (cases ps rule: rev_cases) (auto simp: z_puts_def z_set_not_Nil split: prod.split)

lemma c_db_reply: "c_db (r_integer i c) = c_db c" "c_db (mark_dirty c) = c_db c"
  by (simp_all add: reply_eqs mark_dirty_def)

lemma cmd_zadd_plain:
  assumes "sees_zset c (arg c 1) z" "zset_ok z es" "zadd_options (drop 2 (c_argv c)) zadd_init = (zadd_init, args)"
    "zadd_pairs F args = Some ps" "ps \<noteq> []" "\<forall>(sc, m)\<in>set ps. \<not> d_isnan sc"
  shows "\<exists>z'. holds_zset (c_db (cmd_zadd F c)) (arg c 1) z' \<and> zset_ok z' (foldl z_ref es (z_puts ps))"
proof -
  let ?k = "arg c 1" and ?z = "foldl z_do z (z_puts ps)"
  have ok: "zset_ok ?z (foldl z_ref es (z_puts ps))"
    by (rule z_history_ok [OF assms(2)]) (use assms(6) in \<open>auto simp: z_puts_def\<close>)
  then have size: "sw_size (z_dict ?z) \<noteq> 0" using zset_size z_puts_not_Nil [OF assms(5)] by simp
  from sees_zset_found [OF assms(1)] obtain p
    where p: "get_zset ?k c = (Found p, ticked c)" "zset_at (ticked c) p = z" "ks_at (c_db c) ?k p" by blast
  obtain d where inv: "ks_inv (c_db c)" and d: "ks_abs (c_db c) ?k = Some (ZSetObj z, d)"
    using assms(1) by (auto simp: sees_zset_def live_def split: option.splits if_splits)
  have t: "c_db (ticked c) = c_db c" by (simp add: ticked_def)
  from zadd_loop_plain [OF assms(4), of "ticked c" ?k p z d zadd_run_init] inv d p(3) ks_at_abs [OF inv p(3) d]
  obtain r c' where l: "zadd_loop F zadd_init p args zadd_run_init (ticked c) = (Some r, c')" "ks_inv (c_db c')"
    "ks_at (c_db c') ?k p" "ks_abs (c_db c') ?k = Some (ZSetObj ?z, d)" unfolding t by blast
  have "zset_at c' p = ?z" using ks_at_abs [OF l(2,3,4)] by (simp add: zset_at_def obj_at_def)
  then have at: "zset_at (if zr_added r \<noteq> 0 \<or> zr_changed r \<noteq> 0 then mark_dirty c' else c') p = ?z"
    by (simp add: zset_at_def obj_at_def c_db_reply)
  have a: "args \<noteq> []" "length args mod 2 = 0" using zadd_pairs_length [OF assms(4)] assms(5) by auto
  have "cmd_zadd F c = zadd_finish F zadd_init ?k p r c'"
    using a by (simp add: cmd_zadd_def assms(3) p(1) or_make_def l(1) Let_def del: One_nat_def)
  then have "c_db (cmd_zadd F c) = c_db c'"
    using at size by (simp add: zadd_finish_def Let_def c_db_reply zadd_init_def)
  then show ?thesis using ok l(2,4) by (auto simp: holds_zset_def)
qed

end
