(* ===== verification/Hnsw.thy ===== *)
theory Hnsw
  imports Numeric "HOL-Library.Finite_Map"
begin

section \<open>The vector index (\<^verbatim>\<open>include/blazekv/hnsw.hpp\<close>, \<^verbatim>\<open>src/vector/hnsw.cpp\<close>)\<close>

text \<open>
  The navigable small world graph, as the source builds it: nodes by number, links per level, an entry
  point. The arithmetic of the processor on floats and doubles, the order in which \<open>std::sort\<close> leaves
  equal elements, and the levels drawn from the generator are the fields of a parameter record. Float
  comparison is defined on the bits. Every access to a vector by number is guarded: a function returns
  \<open>None\<close> where the source would read or write out of bounds. Node numbers are \<open>nat\<close>; the source
  uses 32 bits, which is the same below $2^{32}$ nodes.
\<close>

type_synonym f32 = "32 word"

definition f_magnitude :: "f32 \<Rightarrow> f32" where
  "f_magnitude w = w AND 0x7FFFFFFF"

definition f_isnan :: "f32 \<Rightarrow> bool" where
  "f_isnan w \<longleftrightarrow> f_magnitude w > 0x7F800000"

definition f_pos :: "f32 \<Rightarrow> int" where
  "f_pos w = (if bit w 31 then - uint (f_magnitude w) else uint (f_magnitude w))"

definition f_lt :: "f32 \<Rightarrow> f32 \<Rightarrow> bool" where
  "f_lt a b \<longleftrightarrow> \<not> f_isnan a \<and> \<not> f_isnan b \<and> f_pos a < f_pos b"

record fpu =
  u_add :: "f32 \<Rightarrow> f32 \<Rightarrow> f32"
  u_sub :: "f32 \<Rightarrow> f32 \<Rightarrow> f32"
  u_mul :: "f32 \<Rightarrow> f32 \<Rightarrow> f32"
  u_neg :: "f32 \<Rightarrow> f32"
  u_sqrt :: "f32 \<Rightarrow> f32"
  u_dadd :: "dbl \<Rightarrow> dbl \<Rightarrow> dbl"
  u_dmul :: "dbl \<Rightarrow> dbl \<Rightarrow> dbl"
  u_dsqrt :: "dbl \<Rightarrow> dbl"
  u_drecip :: "dbl \<Rightarrow> dbl"
  u_to_float :: "dbl \<Rightarrow> f32"
  u_to_double :: "f32 \<Rightarrow> dbl"
  u_sort :: "(nat \<Rightarrow> nat \<Rightarrow> bool) \<Rightarrow> nat list \<Rightarrow> nat list"
  u_level :: "nat \<Rightarrow> nat"

definition f_one :: f32 where "f_one = 0x3F800000"

datatype VectorMetric = Cosine | L2

record hnode =
  n_label :: bytes
  n_vec :: "f32 list"
  n_links :: "nat list list"
  n_deleted :: bool

record hnsw =
  h_dim :: nat
  h_metric :: VectorMetric
  h_m :: nat
  h_m0 :: nat
  h_ef :: nat
  h_nodes :: "hnode list"
  h_labels :: "(bytes, nat) fmap"
  h_entry :: "nat option"
  h_max_level :: int
  h_draws :: nat

text \<open>The entry point \<open>-1\<close> of the source is \<open>None\<close>; \<open>h_draws\<close> counts the draws from the generator.\<close>

definition hnsw_new :: "nat \<Rightarrow> VectorMetric \<Rightarrow> nat \<Rightarrow> nat \<Rightarrow> hnsw" where
  "hnsw_new d metric m ef = \<lparr>h_dim = d, h_metric = metric, h_m = m, h_m0 = m * 2, h_ef = ef, h_nodes = [],
     h_labels = fmempty, h_entry = None, h_max_level = - 1, h_draws = 0\<rparr>"

definition hn_size :: "hnsw \<Rightarrow> nat" where
  "hn_size h = fcard (fmdom (h_labels h))"

subsection \<open>Distances\<close>

definition prepare :: "fpu \<Rightarrow> hnsw \<Rightarrow> f32 list \<Rightarrow> f32 list" where
  "prepare U h vec =
     (let v = take (h_dim h) vec in
      if h_metric h = Cosine then
        (let norm = u_dsqrt U (foldl (\<lambda>n x. u_dadd U n (u_dmul U (u_to_double U x) (u_to_double U x))) d_zero v)
         in if d_lt d_zero norm then map (\<lambda>x. u_mul U x (u_to_float U (u_drecip U norm))) v else v)
      else v)"

definition distance :: "fpu \<Rightarrow> hnsw \<Rightarrow> f32 list \<Rightarrow> f32 list \<Rightarrow> f32" where
  "distance U h a b =
     (if h_metric h = Cosine
      then u_sub U f_one (foldl (\<lambda>dot i. u_add U dot (u_mul U (a ! i) (b ! i))) 0 [0..<h_dim h])
      else foldl (\<lambda>s i. let d = u_sub U (a ! i) (b ! i) in u_add U s (u_mul U d d)) 0 [0..<h_dim h])"

definition vec_of :: "hnsw \<Rightarrow> nat \<Rightarrow> f32 list" where
  "vec_of h n = n_vec (h_nodes h ! n)"

subsection \<open>Searching one layer\<close>

text \<open>The two heaps hold pairs compared as \<open>std::pair\<close> is. A heap is a list, its top the extremal
  element; equal numbers never meet, since a node enters a heap once.\<close>

type_synonym item = "f32 \<times> nat"

definition item_lt :: "item \<Rightarrow> item \<Rightarrow> bool" where
  "item_lt a b \<longleftrightarrow> f_lt (fst a) (fst b) \<or> \<not> f_lt (fst b) (fst a) \<and> snd a < snd b"

definition heap_max :: "item list \<Rightarrow> item" where
  "heap_max xs = foldl (\<lambda>m x. if item_lt m x then x else m) (hd xs) (tl xs)"

definition heap_min :: "item list \<Rightarrow> item" where
  "heap_min xs = foldl (\<lambda>m x. if item_lt x m then x else m) (hd xs) (tl xs)"

text \<open>The loop over the neighbours of one node.\<close>

fun visit :: "fpu \<Rightarrow> hnsw \<Rightarrow> f32 list \<Rightarrow> nat \<Rightarrow> nat list \<Rightarrow> bool list \<times> item list \<times> item list \<Rightarrow>
    (bool list \<times> item list \<times> item list) option" where
  "visit U h q ef [] s = Some s"
| "visit U h q ef (nb # nbs) (visited, cand, res) =
     (if nb \<ge> length visited then None
      else if visited ! nb then visit U h q ef nbs (visited, cand, res)
      else
        let visited' = visited[nb := True];
            d = distance U h q (vec_of h nb)
        in if length res < ef \<or> f_lt d (fst (heap_max res)) then
             let res' = (d, nb) # res
             in visit U h q ef nbs
                  (visited', (d, nb) # cand, if length res' > ef then remove1 (heap_max res') res' else res')
           else visit U h q ef nbs (visited', cand, res))"

definition unvisited :: "bool list \<Rightarrow> nat" where
  "unvisited v = length (filter Not v)"

lemma unvisited_set: "n < length v \<Longrightarrow> \<not> v ! n \<Longrightarrow> Suc (unvisited (v[n := True])) = unvisited v"
proof (induction v arbitrary: n)
  case (Cons b v)
  then show ?case by (cases n) (auto simp: unvisited_def)
qed simp

text \<open>One neighbour, and the loop over it.\<close>

definition visit1 :: "fpu \<Rightarrow> hnsw \<Rightarrow> f32 list \<Rightarrow> nat \<Rightarrow> nat \<Rightarrow> bool list \<times> item list \<times> item list \<Rightarrow>
    bool list \<times> item list \<times> item list" where
  "visit1 U h q ef nb s =
     (let (visited, cand, res) = s; visited' = visited[nb := True]; d = distance U h q (vec_of h nb)
      in if visited ! nb then s
         else if length res < ef \<or> f_lt d (fst (heap_max res)) then
           let res' = (d, nb) # res
           in (visited', (d, nb) # cand, if length res' > ef then remove1 (heap_max res') res' else res')
         else (visited', cand, res))"

lemma visit_Cons:
  "visit U h q ef (nb # nbs) s = (if nb \<ge> length (fst s) then None else visit U h q ef nbs (visit1 U h q ef nb s))"
  by (cases s) (simp add: visit1_def Let_def)

definition weight :: "bool list \<times> item list \<times> item list \<Rightarrow> nat" where
  "weight s = 2 * unvisited (fst s) + length (fst (snd s))"

lemma visit1_weight: "nb < length (fst s) \<Longrightarrow> weight (visit1 U h q ef nb s) \<le> weight s"
  using unvisited_set [of nb "fst s"] by (cases s) (auto simp: visit1_def weight_def Let_def)

lemma visit1_length [simp]: "length (fst (visit1 U h q ef nb s)) = length (fst s)"
  by (cases s) (simp add: visit1_def Let_def)

lemma visit_weight: "visit U h q ef nbs s = Some s' \<Longrightarrow> weight s' \<le> weight s"
proof (induction nbs arbitrary: s)
  case (Cons nb nbs)
  then have "nb < length (fst s)" "visit U h q ef nbs (visit1 U h q ef nb s) = Some s'"
    by (auto simp: visit_Cons simp del: visit.simps split: if_splits)
  then show ?case using Cons.IH visit1_weight [of nb s U h q ef] by (meson order_trans)
qed simp

lemma foldl_pick: "foldl (\<lambda>m x. if P m x then x else m) a ys \<in> insert a (set ys)"
proof (induction ys arbitrary: a)
  case (Cons y ys)
  then show ?case using Cons [of "if P a y then y else a"] by auto
qed simp

lemma heap_min_in: "xs \<noteq> [] \<Longrightarrow> heap_min xs \<in> set xs"
  using foldl_pick [of "\<lambda>m x. item_lt x m" "hd xs" "tl xs"] by (cases xs) (auto simp: heap_min_def)

lemma heap_max_in: "xs \<noteq> [] \<Longrightarrow> heap_max xs \<in> set xs"
  using foldl_pick [of "\<lambda>m x. item_lt m x" "hd xs" "tl xs"] by (cases xs) (auto simp: heap_max_def)

text \<open>The expansion of the closest candidate, until it is farther than the worst of \<open>ef\<close> results.\<close>

function expand :: "fpu \<Rightarrow> hnsw \<Rightarrow> f32 list \<Rightarrow> nat \<Rightarrow> nat \<Rightarrow> bool list \<times> item list \<times> item list \<Rightarrow> item list option" where
  "expand U h q ef level (visited, cand, res) =
     (if cand = [] then Some res
      else
        let (cd, cur) = heap_min cand; cand' = remove1 (cd, cur) cand
        in if f_lt (fst (heap_max res)) cd \<and> length res \<ge> ef then Some res
           else if cur \<ge> length (h_nodes h) then None
           else
             let links = n_links (h_nodes h ! cur)
             in case (if level < length links then visit U h q ef (links ! level) (visited, cand', res)
                      else Some (visited, cand', res)) of
                  None \<Rightarrow> None
                | Some s \<Rightarrow> expand U h q ef level s)"
  by pat_completeness auto
termination expand
proof (relation "measure (\<lambda>(U, h, q, ef, level, visited, cand, res). 2 * unvisited visited + length cand)", goal_cases)
  case (2 U h q ef level visited cand res x cd cur cand' links s)
  have "(cd, cur) \<in> set cand" using heap_min_in [of cand] 2(1-3) by simp
  then have len: "length cand' < length cand" using 2(4) by (auto simp: length_remove1 dest: length_pos_if_in_set)
  obtain v' c' r' where s: "s = (v', c', r')" by (cases s)
  have "2 * unvisited v' + length c' \<le> 2 * unvisited visited + length cand'"
    using 2(8) visit_weight [of U h q ef "links ! level" "(visited, cand', res)" s] s
    by (auto simp: weight_def split: if_splits)
  then show ?case using len s by simp
qed simp

declare expand.simps [simp del]

text \<open>\<open>results\<close> emptied from the worst on and reversed: the nearest first.\<close>

function pop_all :: "item list \<Rightarrow> nat list" where
  "pop_all res = (if res = [] then [] else snd (heap_max res) # pop_all (remove1 (heap_max res) res))"
  by pat_completeness auto
termination pop_all
  by (relation "measure length")
     (auto simp: length_remove1 heap_max_in dest: length_pos_if_in_set)

declare pop_all.simps [simp del]

definition search_layer :: "fpu \<Rightarrow> hnsw \<Rightarrow> f32 list \<Rightarrow> nat \<Rightarrow> nat \<Rightarrow> nat \<Rightarrow> nat list option" where
  "search_layer U h q entry ef level =
     (if entry \<ge> length (h_nodes h) then None
      else
        let d0 = distance U h q (vec_of h entry);
            visited = (replicate (length (h_nodes h)) False)[entry := True]
        in map_option (\<lambda>res. rev (pop_all res)) (expand U h q ef level (visited, [(d0, entry)], [(d0, entry)])))"

subsection \<open>Linking a node\<close>

fun pick_links :: "nat \<Rightarrow> nat \<Rightarrow> nat list \<Rightarrow> nat list \<Rightarrow> nat list" where
  "pick_links nid lim [] links = links"
| "pick_links nid lim (c # cs) links =
     (if c = nid then pick_links nid lim cs links
      else let links' = links @ [c] in if length links' \<ge> lim then links' else pick_links nid lim cs links')"

definition set_links :: "nat \<Rightarrow> nat \<Rightarrow> nat list \<Rightarrow> hnsw \<Rightarrow> hnsw" where
  "set_links n level ls h =
     h\<lparr>h_nodes := (h_nodes h)[n := (h_nodes h ! n)\<lparr>n_links := (n_links (h_nodes h ! n))[level := ls]\<rparr>]\<rparr>"

definition has_level :: "hnsw \<Rightarrow> nat \<Rightarrow> nat \<Rightarrow> bool" where
  "has_level h n level \<longleftrightarrow> n < length (h_nodes h) \<and> level < length (n_links (h_nodes h ! n))"

definition links_of :: "hnsw \<Rightarrow> nat \<Rightarrow> nat \<Rightarrow> nat list" where
  "links_of h n level = n_links (h_nodes h ! n) ! level"

text \<open>The back link from one neighbour, pruned to the closest.\<close>

definition back_link :: "fpu \<Rightarrow> nat \<Rightarrow> nat \<Rightarrow> nat \<Rightarrow> nat \<Rightarrow> hnsw \<Rightarrow> hnsw option" where
  "back_link U nid level lim c h =
     (if \<not> has_level h c level then None
      else
        let clinks = links_of h c level @ [nid];
            near = (\<lambda>a b. f_lt (distance U h (vec_of h c) (vec_of h a)) (distance U h (vec_of h c) (vec_of h b)))
        in Some (set_links c level (if length clinks > lim then take lim (u_sort U near clinks) else clinks) h))"

fun back_links :: "fpu \<Rightarrow> nat \<Rightarrow> nat \<Rightarrow> nat \<Rightarrow> nat list \<Rightarrow> hnsw \<Rightarrow> hnsw option" where
  "back_links U nid level lim [] h = Some h"
| "back_links U nid level lim (c # cs) h =
     (case back_link U nid level lim c h of None \<Rightarrow> None | Some h' \<Rightarrow> back_links U nid level lim cs h')"

definition connect :: "fpu \<Rightarrow> nat \<Rightarrow> nat \<Rightarrow> nat list \<Rightarrow> hnsw \<Rightarrow> hnsw option" where
  "connect U nid level candidates h =
     (if \<not> has_level h nid level then None
      else
        let lim = (if level = 0 then h_m0 h else h_m h);
            links = pick_links nid lim candidates []
        in back_links U nid level lim links (set_links nid level links h))"

subsection \<open>Insertion, removal and search\<close>

text \<open>The descent through the upper layers: levels from the top down to just above \<open>level\<close>.\<close>

fun descend :: "fpu \<Rightarrow> hnsw \<Rightarrow> f32 list \<Rightarrow> nat list \<Rightarrow> nat \<Rightarrow> nat option" where
  "descend U h q [] cur = Some cur"
| "descend U h q (lvl # lvls) cur =
     (case search_layer U h q cur 1 lvl of
        None \<Rightarrow> None
      | Some nearest \<Rightarrow> descend U h q lvls (if nearest \<noteq> [] then hd nearest else cur))"

fun insert_levels :: "fpu \<Rightarrow> nat \<Rightarrow> f32 list \<Rightarrow> nat list \<Rightarrow> nat \<Rightarrow> hnsw \<Rightarrow> hnsw option" where
  "insert_levels U nid q [] cur h = Some h"
| "insert_levels U nid q (lvl # lvls) cur h =
     (case search_layer U h q cur (h_ef h) lvl of
        None \<Rightarrow> None
      | Some candidates \<Rightarrow>
          (case connect U nid lvl candidates h of
             None \<Rightarrow> None
           | Some h' \<Rightarrow> insert_levels U nid q lvls (if candidates \<noteq> [] then hd candidates else cur) h'))"

definition hn_new_node :: "fpu \<Rightarrow> bytes \<Rightarrow> f32 list \<Rightarrow> hnsw \<Rightarrow> hnsw" where
  "hn_new_node U label vec h =
     (let node = \<lparr>n_label = label, n_vec = prepare U h vec, n_links = replicate (u_level U (h_draws h) + 1) [],
            n_deleted = False\<rparr>
      in h\<lparr>h_nodes := h_nodes h @ [node], h_labels := fmupd label (length (h_nodes h)) (h_labels h),
           h_draws := h_draws h + 1\<rparr>)"

definition hn_add :: "fpu \<Rightarrow> bytes \<Rightarrow> f32 list \<Rightarrow> hnsw \<Rightarrow> (bool \<times> hnsw) option" where
  "hn_add U label vec h =
     (case fmlookup (h_labels h) label of
        Some n \<Rightarrow>
          (if n \<ge> length (h_nodes h) then None
           else Some (False, h\<lparr>h_nodes := (h_nodes h)[n := (h_nodes h ! n)\<lparr>n_vec := prepare U h vec,
             n_deleted := False\<rparr>]\<rparr>))
      | None \<Rightarrow>
          (let nid = length (h_nodes h);
               level = u_level U (h_draws h);
               h1 = hn_new_node U label vec h
           in case h_entry h of
                None \<Rightarrow> Some (True, h1\<lparr>h_max_level := int level, h_entry := Some nid\<rparr>)
              | Some e \<Rightarrow>
                  (let q = vec_of h1 nid in
                   case descend U h1 q (rev [level + 1..<nat (h_max_level h + 1)]) e of
                     None \<Rightarrow> None
                   | Some cur \<Rightarrow>
                       (case insert_levels U nid q (rev [0..<nat (min (int level) (h_max_level h) + 1)]) cur h1 of
                          None \<Rightarrow> None
                        | Some h2 \<Rightarrow>
                            Some (True, if int level > h_max_level h2
                                        then h2\<lparr>h_max_level := int level, h_entry := Some nid\<rparr> else h2)))))"

definition hn_remove :: "bytes \<Rightarrow> hnsw \<Rightarrow> (bool \<times> hnsw) option" where
  "hn_remove label h =
     (case fmlookup (h_labels h) label of
        None \<Rightarrow> Some (False, h)
      | Some n \<Rightarrow>
          (if n \<ge> length (h_nodes h) then None
           else Some (True, h\<lparr>h_nodes := (h_nodes h)[n := (h_nodes h ! n)\<lparr>n_deleted := True\<rparr>],
             h_labels := fmdrop label (h_labels h)\<rparr>)))"

definition hn_score :: "fpu \<Rightarrow> hnsw \<Rightarrow> f32 list \<Rightarrow> nat \<Rightarrow> f32" where
  "hn_score U h q n =
     (let d = distance U h q (vec_of h n)
      in if h_metric h = Cosine then u_sub U f_one d else u_neg U (u_sqrt U d))"

fun collect :: "fpu \<Rightarrow> hnsw \<Rightarrow> f32 list \<Rightarrow> nat \<Rightarrow> nat list \<Rightarrow> (bytes \<times> f32) list \<Rightarrow> (bytes \<times> f32) list" where
  "collect U h q k [] out = out"
| "collect U h q k (n # ns) out =
     (if n_deleted (h_nodes h ! n) then collect U h q k ns out
      else let out' = out @ [(n_label (h_nodes h ! n), hn_score U h q n)]
           in if length out' \<ge> k then out' else collect U h q k ns out')"

definition hn_search :: "fpu \<Rightarrow> hnsw \<Rightarrow> f32 list \<Rightarrow> nat \<Rightarrow> nat \<Rightarrow> (bytes \<times> f32) list option" where
  "hn_search U h query k ef =
     (case h_entry h of
        None \<Rightarrow> Some []
      | Some e \<Rightarrow>
          if k = 0 then Some []
          else
            let q = prepare U h query in
            case descend U h q (rev [1..<nat (h_max_level h + 1)]) e of
              None \<Rightarrow> None
            | Some cur \<Rightarrow>
                map_option (\<lambda>found. collect U h q k found []) (search_layer U h q cur (max ef k) 0))"

end
