(* ===== verification/Hnsw_Correct.thy ===== *)
theory Hnsw_Correct
  imports Hnsw
begin

section \<open>Correctness of the vector index\<close>

text \<open>
  The invariant of the graph: a link on a level goes to a node that has that level, the label map and
  the nodes that are not deleted correspond, and the entry point is a node of the highest level. Under
  it no access is out of bounds, insertion and removal keep it, and a search returns distinct labels
  that are in the index. Of \<open>std::sort\<close> the proofs use that it adds no elements.
\<close>

definition sorts :: "fpu \<Rightarrow> bool" where
  "sorts U \<longleftrightarrow> (\<forall>P xs. set (u_sort U P xs) \<subseteq> set xs)"

definition graph_ok :: "hnsw \<Rightarrow> bool" where
  "graph_ok h \<longleftrightarrow> (\<forall>n l. has_level h n l \<longrightarrow> (\<forall>m\<in>set (links_of h n l). has_level h m l))"

definition labels_ok :: "hnsw \<Rightarrow> bool" where
  "labels_ok h \<longleftrightarrow>
     (\<forall>lab n. fmlookup (h_labels h) lab = Some n \<longleftrightarrow>
        n < length (h_nodes h) \<and> n_label (h_nodes h ! n) = lab \<and> \<not> n_deleted (h_nodes h ! n))"

definition entry_ok :: "hnsw \<Rightarrow> bool" where
  "entry_ok h \<longleftrightarrow>
     (case h_entry h of
        None \<Rightarrow> h_nodes h = []
      | Some e \<Rightarrow> 0 \<le> h_max_level h \<and> has_level h e (nat (h_max_level h)))"

definition hn_inv :: "hnsw \<Rightarrow> bool" where
  "hn_inv h \<longleftrightarrow> graph_ok h \<and> labels_ok h \<and> entry_ok h"

lemma hn_inv_new: "hn_inv (hnsw_new d metric m ef)"
  by (simp add: hn_inv_def graph_ok_def labels_ok_def entry_ok_def hnsw_new_def has_level_def)

lemma has_level_le: "has_level h n l \<Longrightarrow> l' \<le> l \<Longrightarrow> has_level h n l'"
  by (auto simp: has_level_def)

subsection \<open>Searching a layer\<close>

text \<open>The state of the search: every item is a visited node of this level with its distance.\<close>

definition items_ok :: "fpu \<Rightarrow> hnsw \<Rightarrow> f32 list \<Rightarrow> nat \<Rightarrow> bool list \<Rightarrow> item list \<Rightarrow> bool" where
  "items_ok U h q level visited xs \<longleftrightarrow>
     (\<forall>(d, n)\<in>set xs. has_level h n level \<and> visited ! n \<and> d = distance U h q (vec_of h n))"

definition good :: "fpu \<Rightarrow> hnsw \<Rightarrow> f32 list \<Rightarrow> nat \<Rightarrow> bool list \<times> item list \<times> item list \<Rightarrow> bool" where
  "good U h q level s \<longleftrightarrow>
     (case s of (visited, cand, res) \<Rightarrow>
        length visited = length (h_nodes h) \<and> items_ok U h q level visited cand \<and>
        items_ok U h q level visited res \<and> distinct (map snd res) \<and> res \<noteq> [])"

lemma mark_keeps: "v ! n \<Longrightarrow> v[m := True] ! n"
  by (cases "m < length v") (simp_all add: nth_list_update list_update_beyond)

lemma items_ok_visit: "items_ok U h q level v xs \<Longrightarrow> items_ok U h q level (v[nb := True]) xs"
  by (auto simp: items_ok_def mark_keeps)

lemma items_ok_remove: "items_ok U h q level v xs \<Longrightarrow> items_ok U h q level v (remove1 x xs)"
  by (auto simp: items_ok_def dest: notin_set_remove1 intro: set_remove1_subset [THEN subsetD])

lemma distinct_remove1_snd: "distinct (map snd xs) \<Longrightarrow> distinct (map snd (remove1 x xs))"
  by (induction xs) (auto dest: set_remove1_subset [THEN subsetD] simp: image_iff)

lemma visit1_good:
  assumes "good U h q level s" "has_level h nb level"
  shows "good U h q level (visit1 U h q ef nb s)"
proof -
  obtain v cand res where s: "s = (v, cand, res)" by (cases s)
  let ?v = "v[nb := True]" and ?d = "distance U h q (vec_of h nb)"
  have g: "length v = length (h_nodes h)" "items_ok U h q level v cand" "items_ok U h q level v res"
    "distinct (map snd res)" "res \<noteq> []" using assms(1) by (simp_all add: good_def s)
  show ?thesis
  proof (cases "v ! nb")
    case True
    then show ?thesis using assms(1) by (simp add: visit1_def s Let_def)
  next
    case False
    have new: "?v ! nb" using assms(2) g(1) by (simp add: has_level_def)
    note cand = items_ok_visit [OF g(2), of nb] and res = items_ok_visit [OF g(3), of nb]
    let ?res = "(?d, nb) # res"
    have fresh: "nb \<notin> snd ` set res" using g(3) False by (auto simp: items_ok_def)
    have ok: "items_ok U h q level ?v ((?d, nb) # cand)" "items_ok U h q level ?v ?res"
      using cand res new assms(2) by (simp_all add: items_ok_def)
    have dist: "distinct (map snd ?res)" using fresh g(4) by simp
    have ne: "remove1 x ?res \<noteq> []" for x using g(5) by auto
    let ?res' = "if length ?res > ef then remove1 (heap_max ?res) ?res else ?res"
    have res': "items_ok U h q level ?v ?res'" "distinct (map snd ?res')" "?res' \<noteq> []"
      using ok(2) dist ne items_ok_remove [OF ok(2)] distinct_remove1_snd [OF dist] by (simp_all del: remove1.simps)
    have "visit1 U h q ef nb s = (if length res < ef \<or> f_lt ?d (fst (heap_max res))
        then (?v, (?d, nb) # cand, ?res') else (?v, cand, res))"
      using False by (simp add: visit1_def s Let_def)
    then show ?thesis using g(1,4,5) ok(1) cand res res' by (simp add: good_def del: remove1.simps)
  qed
qed

lemma visit_good:
  assumes "good U h q level s" "\<forall>nb\<in>set nbs. has_level h nb level"
  shows "\<exists>s'. visit U h q ef nbs s = Some s' \<and> good U h q level s'"
  using assms
proof (induction nbs arbitrary: s)
  case (Cons nb nbs)
  have "nb < length (fst s)" using Cons.prems by (cases s) (auto simp: good_def has_level_def)
  then show ?case using Cons.IH [OF visit1_good [OF Cons.prems(1)]] Cons.prems(2)
    by (simp add: visit_Cons del: visit.simps(2))
qed simp

lemma expand_good:
  assumes "graph_ok h" "good U h q level s"
  shows "\<exists>res v. expand U h q ef level s = Some res \<and> items_ok U h q level v res \<and> distinct (map snd res) \<and> res \<noteq> []"
  using assms
proof (induction U h q ef level s rule: expand.induct)
  case (1 U h q ef level v cand res)
  note g = "1.prems"(2) [unfolded good_def prod.case]
  note unfold = expand.simps [of U h q ef level v cand res]
  show ?case
  proof (cases "cand = []")
    case True
    then show ?thesis using g by (intro exI [of _ res] exI [of _ v]) (simp add: expand.simps)
  next
    case False
    obtain cd cur where top: "heap_min cand = (cd, cur)" by fastforce
    let ?cand = "remove1 (cd, cur) cand" and ?links = "n_links (h_nodes h ! cur)"
    have cur: "has_level h cur level" using heap_min_in [OF False] g top by (fastforce simp: items_ok_def)
    show ?thesis
    proof (cases "f_lt (fst (heap_max res)) cd \<and> length res \<ge> ef")
      case True
      then show ?thesis using g False top by (intro exI [of _ res] exI [of _ v]) (simp add: unfold)
    next
      case False2: False
      have g': "good U h q level (v, ?cand, res)" using g items_ok_remove by (simp add: good_def)
      have "\<forall>nb\<in>set (?links ! level). has_level h nb level"
        using "1.prems"(1) cur by (simp add: graph_ok_def links_of_def)
      from visit_good [OF g' this, of ef] obtain s' where
        s': "visit U h q ef (?links ! level) (v, ?cand, res) = Some s'" "good U h q level s'" by blast
      have lv: "cur < length (h_nodes h)" "level < length ?links" using cur by (simp_all add: has_level_def)
      have step: "expand U h q ef level (v, cand, res) = expand U h q ef level s'"
        using False False2 top lv s'(1) by (auto simp: unfold not_less Let_def)
      have "\<exists>res v. expand U h q ef level s' = Some res \<and> items_ok U h q level v res \<and> distinct (map snd res) \<and> res \<noteq> []"
        by (rule "1.IH" [OF False top [symmetric] refl refl _ _ refl _ "1.prems"(1) s'(2)])
          (use False2 lv s'(1) in simp_all)
      then show ?thesis by (simp add: step)
    qed
  qed
qed

lemma set_remove1_insert: "x \<in> set xs \<Longrightarrow> set xs = insert x (set (remove1 x xs))"
  by (induction xs) auto

lemma pop_all_set: "set (pop_all res) = snd ` set res"
proof (induction res rule: pop_all.induct)
  case (1 res)
  show ?case
  proof (cases "res = []")
    case False
    note set_remove1_insert [OF heap_max_in [OF False]]
    then show ?thesis using 1 False by (subst pop_all.simps) auto
  qed (simp add: pop_all.simps)
qed

lemma pop_all_length: "length (pop_all res) = length res"
proof (induction res rule: pop_all.induct)
  case (1 res)
  then show ?case using heap_max_in [of res]
    by (subst pop_all.simps) (auto simp: length_remove1 dest: length_pos_if_in_set)
qed

lemma pop_all_distinct: "distinct (map snd res) \<Longrightarrow> distinct (pop_all res)"
  using pop_all_set [of res] pop_all_length [of res]
  by (metis card_distinct distinct_card length_map set_map)

lemma search_layer_good:
  assumes "graph_ok h" "has_level h entry level"
  shows "\<exists>ns. search_layer U h q entry ef level = Some ns \<and> ns \<noteq> [] \<and> distinct ns \<and> (\<forall>n\<in>set ns. has_level h n level)"
proof -
  let ?d = "distance U h q (vec_of h entry)" and ?v = "(replicate (length (h_nodes h)) False)[entry := True]"
  have e: "entry < length (h_nodes h)" using assms(2) by (simp add: has_level_def)
  have "good U h q level (?v, [(?d, entry)], [(?d, entry)])"
    using assms(2) e by (simp add: good_def items_ok_def)
  from expand_good [OF assms(1) this, of ef] obtain res v where
    r: "expand U h q ef level (?v, [(?d, entry)], [(?d, entry)]) = Some res" "items_ok U h q level v res"
    "distinct (map snd res)" "res \<noteq> []" by blast
  have "\<forall>n\<in>set (rev (pop_all res)). has_level h n level" using r(2) by (auto simp: pop_all_set items_ok_def)
  moreover have "rev (pop_all res) \<noteq> []" using r(4) pop_all_length [of res] by auto
  ultimately show ?thesis using e r(1) pop_all_distinct [OF r(3)] by (simp add: search_layer_def Let_def)
qed

lemma descend_good:
  assumes "graph_ok h" "sorted_wrt (\<ge>) lvls" "lvls \<noteq> [] \<longrightarrow> has_level h cur (hd lvls)" "has_level h cur l"
    "\<forall>x\<in>set lvls. l \<le> x"
  shows "\<exists>cur'. descend U h q lvls cur = Some cur' \<and> has_level h cur' l"
  using assms(2-)
proof (induction lvls arbitrary: cur)
  case (Cons lvl lvls)
  have "has_level h cur lvl" using Cons.prems by simp
  from search_layer_good [OF assms(1) this, of U q 1] obtain ns where
    ns: "search_layer U h q cur 1 lvl = Some ns" "ns \<noteq> []" "\<forall>n\<in>set ns. has_level h n lvl" by blast
  then have h: "has_level h (hd ns) lvl" by simp
  have "\<exists>cur'. descend U h q lvls (hd ns) = Some cur' \<and> has_level h cur' l"
  proof (rule Cons.IH)
    show "lvls \<noteq> [] \<longrightarrow> has_level h (hd ns) (hd lvls)"
      using Cons.prems(1) has_level_le [OF h] by (cases lvls) simp_all
    show "has_level h (hd ns) l" using has_level_le [OF h, of l] Cons.prems(4) by simp
  qed (use Cons.prems in simp_all)
  then show ?case using ns by simp
qed simp

subsection \<open>Linking\<close>

text \<open>What linking leaves alone: everything but the contents of the link lists.\<close>

definition same_node :: "hnode \<Rightarrow> hnode \<Rightarrow> bool" where
  "same_node a b \<longleftrightarrow> n_label b = n_label a \<and> n_vec b = n_vec a \<and> n_deleted b = n_deleted a \<and>
     length (n_links b) = length (n_links a)"

definition same_shape :: "hnsw \<Rightarrow> hnsw \<Rightarrow> bool" where
  "same_shape h h' \<longleftrightarrow> h' = h\<lparr>h_nodes := h_nodes h'\<rparr> \<and> list_all2 same_node (h_nodes h) (h_nodes h')"

lemma same_node_refl [simp]: "same_node a a"
  by (simp add: same_node_def)

lemma same_node_trans: "same_node a b \<Longrightarrow> same_node b c \<Longrightarrow> same_node a c"
  by (simp add: same_node_def)

lemma same_shape_refl [simp]: "same_shape h h"
  by (simp add: same_shape_def list_all2_refl)

lemma same_shape_trans:
  assumes "same_shape h h1" "same_shape h1 h2" shows "same_shape h h2"
proof -
  obtain n1 where "h1 = h\<lparr>h_nodes := n1\<rparr>" using assms(1) unfolding same_shape_def by blast
  moreover obtain n2 where "h2 = h1\<lparr>h_nodes := n2\<rparr>" using assms(2) unfolding same_shape_def by blast
  ultimately show ?thesis
    using assms list_all2_trans [of same_node same_node same_node, OF same_node_trans] by (auto simp: same_shape_def)
qed

lemma same_shapeD:
  assumes "same_shape h h'"
  shows "length (h_nodes h') = length (h_nodes h)" "has_level h' n l = has_level h n l"
    "h_labels h' = h_labels h" "h_entry h' = h_entry h" "h_max_level h' = h_max_level h"
    "n < length (h_nodes h) \<Longrightarrow> vec_of h' n = vec_of h n"
    "n < length (h_nodes h) \<Longrightarrow> n_label (h_nodes h' ! n) = n_label (h_nodes h ! n)"
    "n < length (h_nodes h) \<Longrightarrow> n_deleted (h_nodes h' ! n) = n_deleted (h_nodes h ! n)"
proof -
  obtain ns where ns: "h' = h\<lparr>h_nodes := ns\<rparr>" "list_all2 same_node (h_nodes h) ns"
    using assms by (auto simp: same_shape_def)
  then have len: "length ns = length (h_nodes h)" by (simp add: list_all2_lengthD)
  have sn: "n < length (h_nodes h) \<Longrightarrow> same_node (h_nodes h ! n) (ns ! n)" using ns(2) by (rule list_all2_nthD)
  show "length (h_nodes h') = length (h_nodes h)" "h_labels h' = h_labels h" "h_entry h' = h_entry h"
    "h_max_level h' = h_max_level h" using ns(1) len by simp_all
  show "has_level h' n l = has_level h n l" using ns(1) len sn by (auto simp: has_level_def same_node_def)
  show "n < length (h_nodes h) \<Longrightarrow> vec_of h' n = vec_of h n"
    "n < length (h_nodes h) \<Longrightarrow> n_label (h_nodes h' ! n) = n_label (h_nodes h ! n)"
    "n < length (h_nodes h) \<Longrightarrow> n_deleted (h_nodes h' ! n) = n_deleted (h_nodes h ! n)"
    using ns(1) sn by (simp_all add: vec_of_def same_node_def)
qed

lemma set_links_shape: "same_shape h (set_links n level ls h)"
proof -
  have "list_all2 same_node (h_nodes h)
      ((h_nodes h)[n := (h_nodes h ! n)\<lparr>n_links := (n_links (h_nodes h ! n))[level := ls]\<rparr>])"
  proof (rule list_all2_all_nthI)
    fix m
    assume "m < length (h_nodes h)"
    then show "same_node (h_nodes h ! m)
        ((h_nodes h)[n := (h_nodes h ! n)\<lparr>n_links := (n_links (h_nodes h ! n))[level := ls]\<rparr>] ! m)"
      by (cases "m = n") (simp_all add: same_node_def)
  qed simp
  then show ?thesis by (simp add: same_shape_def set_links_def)
qed

lemma links_of_set:
  assumes "has_level h n level"
  shows "links_of (set_links n level ls h) m l = (if m = n \<and> l = level then ls else links_of h m l)"
  using assms by (auto simp: links_of_def set_links_def has_level_def nth_list_update)

lemma set_links_graph:
  assumes "graph_ok h" "has_level h n level" "\<forall>m\<in>set ls. has_level h m level"
  shows "graph_ok (set_links n level ls h)"
  using assms same_shapeD(2) [OF set_links_shape] by (auto simp: graph_ok_def links_of_set)

lemma back_link_good:
  assumes "sorts U" "graph_ok h" "has_level h nid level" "has_level h c level"
  shows "\<exists>h'. back_link U nid level lim c h = Some h' \<and> same_shape h h' \<and> graph_ok h'"
proof -
  let ?cl = "links_of h c level @ [nid]"
  let ?near = "\<lambda>a b. f_lt (distance U h (vec_of h c) (vec_of h a)) (distance U h (vec_of h c) (vec_of h b))"
  let ?ls = "if length ?cl > lim then take lim (u_sort U ?near ?cl) else ?cl"
  have cl: "\<forall>m\<in>set ?cl. has_level h m level" using assms(2-4) by (simp add: graph_ok_def)
  have "set (u_sort U ?near ?cl) \<subseteq> set ?cl" using assms(1) by (simp add: sorts_def del: set_append)
  then have "set ?ls \<subseteq> set ?cl" using set_take_subset [of lim "u_sort U ?near ?cl"] by (simp del: set_append) blast
  then have "\<forall>m\<in>set ?ls. has_level h m level" using cl by blast
  from set_links_graph [OF assms(2,4) this] set_links_shape [of h c level ?ls]
  show ?thesis using assms(4) by (simp add: back_link_def Let_def)
qed

lemma back_links_good:
  assumes "sorts U" "graph_ok h" "has_level h nid level" "\<forall>c\<in>set cs. has_level h c level"
  shows "\<exists>h'. back_links U nid level lim cs h = Some h' \<and> same_shape h h' \<and> graph_ok h'"
  using assms(2-)
proof (induction cs arbitrary: h)
  case (Cons c cs)
  from back_link_good [OF assms(1) Cons.prems(1,2), of c lim] Cons.prems(3) obtain h1 where
    h1: "back_link U nid level lim c h = Some h1" "same_shape h h1" "graph_ok h1" by auto
  from Cons.IH [OF h1(3)] Cons.prems same_shapeD(2) [OF h1(2)] obtain h2 where
    "back_links U nid level lim cs h1 = Some h2" "same_shape h1 h2" "graph_ok h2" by auto
  then show ?case using h1 same_shape_trans by auto
qed simp

lemma pick_links_set: "set (pick_links nid lim cs ls) \<subseteq> set ls \<union> (set cs - {nid})"
  by (induction nid lim cs ls rule: pick_links.induct) (auto simp: Let_def)

lemma connect_good:
  assumes "sorts U" "graph_ok h" "has_level h nid level" "\<forall>c\<in>set cs. has_level h c level"
  shows "\<exists>h'. connect U nid level cs h = Some h' \<and> same_shape h h' \<and> graph_ok h'"
proof -
  let ?lim = "if level = 0 then h_m0 h else h_m h"
  let ?ls = "pick_links nid ?lim cs []"
  let ?h = "set_links nid level ?ls h"
  have ls: "\<forall>c\<in>set ?ls. has_level h c level" using pick_links_set [of nid ?lim cs "[]"] assms(4) by auto
  note sh = set_links_shape [of h nid level ?ls]
  from back_links_good [OF assms(1) set_links_graph [OF assms(2,3) ls], of nid level ?ls ?lim]
  obtain h' where "back_links U nid level ?lim ?ls ?h = Some h'" "same_shape ?h h'" "graph_ok h'"
    using same_shapeD(2) [OF sh] assms(3) ls by auto
  then show ?thesis using assms(3) same_shape_trans [OF sh] by (auto simp: connect_def Let_def)
qed

lemma insert_levels_good:
  assumes "sorts U" "graph_ok h" "sorted_wrt (\<ge>) lvls" "\<forall>l\<in>set lvls. has_level h nid l"
    "lvls \<noteq> [] \<longrightarrow> has_level h cur (hd lvls)"
  shows "\<exists>h'. insert_levels U nid q lvls cur h = Some h' \<and> same_shape h h' \<and> graph_ok h'"
  using assms(2-)
proof (induction lvls arbitrary: cur h)
  case (Cons lvl lvls)
  have "has_level h cur lvl" using Cons.prems by simp
  from search_layer_good [OF Cons.prems(1) this, of U q "h_ef h"] obtain ns where
    ns: "search_layer U h q cur (h_ef h) lvl = Some ns" "ns \<noteq> []" "\<forall>n\<in>set ns. has_level h n lvl" by blast
  from connect_good [OF assms(1) Cons.prems(1) _ ns(3), of nid] Cons.prems(3) obtain h1 where
    h1: "connect U nid lvl ns h = Some h1" "same_shape h h1" "graph_ok h1" by auto
  note lev = same_shapeD(2) [OF h1(2)]
  have "has_level h1 (hd ns) lvl" using ns(2,3) lev by simp
  then have "lvls \<noteq> [] \<longrightarrow> has_level h1 (hd ns) (hd lvls)"
    using Cons.prems(2) has_level_le by (cases lvls) auto
  from Cons.IH [OF h1(3) _ _ this] Cons.prems(2,3) lev obtain h2 where
    "insert_levels U nid q lvls (hd ns) h1 = Some h2" "same_shape h1 h2" "graph_ok h2" by auto
  then show ?case using ns h1 same_shape_trans by auto
qed simp

subsection \<open>The operations keep the invariant\<close>

lemma sorted_rev_upt: "sorted_wrt (\<ge>) (rev [a..<b])"
  by (simp add: sorted_wrt_rev)

lemma labels_ok_shape: "labels_ok h \<Longrightarrow> same_shape h h' \<Longrightarrow> labels_ok h'"
  by (auto simp: labels_ok_def same_shapeD)

lemma new_node_level:
  "has_level (hn_new_node U label vec h) n l \<longleftrightarrow>
     has_level h n l \<or> n = length (h_nodes h) \<and> l \<le> u_level U (h_draws h)"
  by (auto simp: has_level_def hn_new_node_def Let_def nth_append)

lemma new_node_links:
  "links_of (hn_new_node U label vec h) n l =
     (if n < length (h_nodes h) then links_of h n l
      else links_of (hn_new_node U label vec h) n l)"
  by (auto simp: links_of_def hn_new_node_def Let_def nth_append)

lemma new_node_graph:
  assumes "graph_ok h"
  shows "graph_ok (hn_new_node U label vec h)"
  unfolding graph_ok_def
proof (intro allI impI ballI)
  fix n l m
  assume n: "has_level (hn_new_node U label vec h) n l" and m: "m \<in> set (links_of (hn_new_node U label vec h) n l)"
  show "has_level (hn_new_node U label vec h) m l"
  proof (cases "n < length (h_nodes h)")
    case True
    then have "has_level h n l" "m \<in> set (links_of h n l)"
      using n m new_node_links [of U label vec h n l] by (auto simp: new_node_level)
    then show ?thesis using assms by (auto simp: graph_ok_def new_node_level)
  next
    case False
    moreover have "has_level h n l \<or> n = length (h_nodes h) \<and> l \<le> u_level U (h_draws h)"
      using n by (simp only: new_node_level)
    ultimately have "n = length (h_nodes h)" "l < Suc (u_level U (h_draws h))" by (auto simp: has_level_def)
    then have "links_of (hn_new_node U label vec h) n l = []"
      by (simp add: links_of_def hn_new_node_def Let_def del: replicate_Suc)
    then show ?thesis using m by simp
  qed
qed

lemma new_node_labels:
  assumes "labels_ok h" "fmlookup (h_labels h) label = None"
  shows "labels_ok (hn_new_node U label vec h)"
  unfolding labels_ok_def
proof (intro allI)
  fix lab n
  let ?h = "hn_new_node U label vec h"
  have "n < length (h_nodes h) \<Longrightarrow> \<not> n_deleted (h_nodes h ! n) \<Longrightarrow> n_label (h_nodes h ! n) \<noteq> label"
    using assms by (metis labels_ok_def option.distinct(1))
  then show "fmlookup (h_labels ?h) lab = Some n \<longleftrightarrow>
      n < length (h_nodes ?h) \<and> n_label (h_nodes ?h ! n) = lab \<and> \<not> n_deleted (h_nodes ?h ! n)"
    using assms(1) [unfolded labels_ok_def, rule_format, of lab n]
    by (auto simp: hn_new_node_def Let_def nth_append less_Suc_eq)
qed

lemma entry_update [simp]:
  "has_level (h\<lparr>h_max_level := b, h_entry := a\<rparr>) n l = has_level h n l"
  "graph_ok (h\<lparr>h_max_level := b, h_entry := a\<rparr>) = graph_ok h"
  "labels_ok (h\<lparr>h_max_level := b, h_entry := a\<rparr>) = labels_ok h"
proof -
  have "has_level (h\<lparr>h_max_level := b, h_entry := a\<rparr>) = has_level h"
    "links_of (h\<lparr>h_max_level := b, h_entry := a\<rparr>) = links_of h"
    by (auto simp: has_level_def links_of_def fun_eq_iff)
  then show "has_level (h\<lparr>h_max_level := b, h_entry := a\<rparr>) n l = has_level h n l"
    "graph_ok (h\<lparr>h_max_level := b, h_entry := a\<rparr>) = graph_ok h" by (simp_all only: graph_ok_def)
  show "labels_ok (h\<lparr>h_max_level := b, h_entry := a\<rparr>) = labels_ok h" by (simp add: labels_ok_def)
qed

lemma entry_update_ok: "has_level h n l \<Longrightarrow> entry_ok (h\<lparr>h_max_level := int l, h_entry := Some n\<rparr>)"
  by (simp add: entry_ok_def)

text \<open>Insertion: no access is out of bounds, and the labels are those of before and the new one.\<close>

lemma hn_add_new:
  assumes "sorts U" "hn_inv h" "fmlookup (h_labels h) label = None"
  shows "\<exists>h'. hn_add U label vec h = Some (True, h') \<and> hn_inv h' \<and> fmdom' (h_labels h') = insert label (fmdom' (h_labels h))"
proof -
  let ?nid = "length (h_nodes h)" and ?h1 = "hn_new_node U label vec h" and ?level = "u_level U (h_draws h)"
  have inv: "graph_ok h" "labels_ok h" "entry_ok h" using assms(2) by (simp_all add: hn_inv_def)
  note g1 = new_node_graph [OF inv(1), of U label vec] and l1 = new_node_labels [OF inv(2) assms(3), of U vec]
  have lev: "has_level ?h1 ?nid l \<longleftrightarrow> l \<le> ?level" for l by (auto simp: new_node_level has_level_def [of h])
  have dom1: "fmdom' (h_labels ?h1) = insert label (fmdom' (h_labels h))" by (simp add: hn_new_node_def Let_def)
  show ?thesis
  proof (cases "h_entry h")
    case None
    let ?h' = "?h1\<lparr>h_max_level := int ?level, h_entry := Some ?nid\<rparr>"
    have "entry_ok ?h'" by (rule entry_update_ok) (simp add: lev)
    then have "hn_inv ?h'" using g1 l1 by (simp add: hn_inv_def)
    moreover have "hn_add U label vec h = Some (True, ?h')" using None assms(3) by (simp add: hn_add_def Let_def)
    ultimately show ?thesis using dom1 by simp
  next
    case (Some e)
    let ?max = "nat (h_max_level h)" and ?q = "vec_of ?h1 ?nid"
    have e: "0 \<le> h_max_level h" "has_level ?h1 e ?max"
      using inv(3) Some by (simp_all add: entry_ok_def new_node_level)
    let ?down = "rev [?level + 1..<nat (h_max_level h + 1)]"
    let ?m = "min ?level ?max"
    have max: "nat (h_max_level h + 1) = Suc ?max" using e(1) by simp
    have "?down \<noteq> [] \<longrightarrow> has_level ?h1 e (hd ?down)" using e(2) by (auto simp: max hd_rev)
    moreover have "\<forall>x\<in>set ?down. ?m \<le> x" by auto
    moreover have "has_level ?h1 e ?m" by (rule has_level_le [OF e(2)]) simp
    ultimately
    obtain cur where cur: "descend U ?h1 ?q ?down e = Some cur" "has_level ?h1 cur ?m"
      using descend_good [OF g1 sorted_rev_upt, where l = ?m and U = U and q = ?q] by blast
    have low: "nat (min (int ?level) (h_max_level h) + 1) = Suc ?m" using e(1) by arith
    have "rev [0..<Suc ?m] \<noteq> [] \<longrightarrow> has_level ?h1 cur (hd (rev [0..<Suc ?m]))" using cur(2) by simp
    from insert_levels_good [OF assms(1) g1 sorted_rev_upt _ this, of ?nid ?q] lev
    obtain h2 where h2: "insert_levels U ?nid ?q (rev [0..<Suc ?m]) cur ?h1 = Some h2" "same_shape ?h1 h2" "graph_ok h2"
      by auto
    let ?h' = "if int ?level > h_max_level h2 then h2\<lparr>h_max_level := int ?level, h_entry := Some ?nid\<rparr> else h2"
    note sh = same_shapeD [OF h2(2)]
    have add: "hn_add U label vec h = Some (True, ?h')"
      using Some assms(3) cur(1) h2(1) low by (simp add: hn_add_def Let_def)
    have old: "h_entry ?h1 = Some e" "h_max_level ?h1 = h_max_level h" using Some by (simp_all add: hn_new_node_def Let_def)
    have "labels_ok h2" by (rule labels_ok_shape [OF l1 h2(2)])
    moreover have "entry_ok ?h'"
    proof (cases "int ?level > h_max_level h2")
      case True
      have "has_level h2 ?nid ?level" using sh(2) lev by simp
      from entry_update_ok [OF this] True show ?thesis by simp
    next
      case False
      then show ?thesis using sh(2,4,5) old e by (simp add: entry_ok_def)
    qed
    ultimately have "hn_inv ?h'" using h2(3) by (simp add: hn_inv_def)
    moreover have "fmdom' (h_labels ?h') = insert label (fmdom' (h_labels h))" using dom1 sh(3) by simp
    ultimately show ?thesis using add by blast
  qed
qed

lemma node_update_inv:
  assumes "n < length (h_nodes h)" "n_links nd = n_links (h_nodes h ! n)"
  shows "graph_ok (h\<lparr>h_nodes := (h_nodes h)[n := nd], h_labels := ls\<rparr>) = graph_ok h"
    "entry_ok (h\<lparr>h_nodes := (h_nodes h)[n := nd], h_labels := ls\<rparr>) = entry_ok h"
proof -
  let ?h = "h\<lparr>h_nodes := (h_nodes h)[n := nd], h_labels := ls\<rparr>"
  have "has_level ?h m l = has_level h m l" "links_of ?h m l = links_of h m l" for m l
    using assms by (auto simp: has_level_def links_of_def nth_list_update)
  then show "graph_ok ?h = graph_ok h" "entry_ok ?h = entry_ok h"
    by (simp_all add: graph_ok_def entry_ok_def split: option.split)
qed

lemma hn_add_old:
  assumes "hn_inv h" "fmlookup (h_labels h) label = Some n"
  shows "\<exists>h'. hn_add U label vec h = Some (False, h') \<and> hn_inv h' \<and> h_labels h' = h_labels h"
proof -
  let ?nd = "(h_nodes h ! n)\<lparr>n_vec := prepare U h vec, n_deleted := False\<rparr>"
  let ?h = "h\<lparr>h_nodes := (h_nodes h)[n := ?nd]\<rparr>"
  have n: "n < length (h_nodes h)" "n_label (h_nodes h ! n) = label" "\<not> n_deleted (h_nodes h ! n)"
    using assms by (auto simp: hn_inv_def labels_ok_def)
  have "labels_ok ?h" using assms(1) n
    by (auto simp: hn_inv_def labels_ok_def nth_list_update)
  then have "hn_inv ?h" using assms(1) node_update_inv [OF n(1), of ?nd "h_labels h"]
    by (simp add: hn_inv_def)
  then show ?thesis using assms(2) n by (simp add: hn_add_def)
qed

lemma hn_remove_correct:
  assumes "hn_inv h"
  shows "\<exists>h'. hn_remove label h = Some (label \<in> fmdom' (h_labels h), h') \<and> hn_inv h' \<and>
    h_labels h' = fmdrop label (h_labels h)"
proof (cases "fmlookup (h_labels h) label")
  case None
  then show ?thesis using assms fmdrop_idle' [of label "h_labels h"]
    by (auto simp: hn_remove_def fmlookup_dom'_iff)
next
  case (Some n)
  let ?nd = "(h_nodes h ! n)\<lparr>n_deleted := True\<rparr>"
  let ?h = "h\<lparr>h_nodes := (h_nodes h)[n := ?nd], h_labels := fmdrop label (h_labels h)\<rparr>"
  have n: "n < length (h_nodes h)" "n_label (h_nodes h ! n) = label" "\<not> n_deleted (h_nodes h ! n)"
    using assms Some by (auto simp: hn_inv_def labels_ok_def)
  have "labels_ok ?h"
    unfolding labels_ok_def
  proof (intro allI)
    fix lab m
    have "fmlookup (h_labels h) lab = Some m \<longleftrightarrow> m < length (h_nodes h) \<and> n_label (h_nodes h ! m) = lab \<and> \<not> n_deleted (h_nodes h ! m)"
      using assms by (simp add: hn_inv_def labels_ok_def)
    then show "fmlookup (h_labels ?h) lab = Some m \<longleftrightarrow>
        m < length (h_nodes ?h) \<and> n_label (h_nodes ?h ! m) = lab \<and> \<not> n_deleted (h_nodes ?h ! m)"
      using n Some by (cases "m = n") auto
  qed
  then have "hn_inv ?h" using assms node_update_inv [OF n(1), of ?nd "fmdrop label (h_labels h)"]
    by (simp add: hn_inv_def)
  then show ?thesis using Some n by (auto simp: hn_remove_def fmlookup_dom'_iff)
qed

subsection \<open>Search\<close>

lemma collect_spec:
  assumes "labels_ok h" "\<forall>n\<in>set ns. n < length (h_nodes h)" "distinct ns" "length out < k" "distinct (map fst out)"
    "\<forall>n\<in>set ns. n_label (h_nodes h ! n) \<notin> fst ` set out \<or> n_deleted (h_nodes h ! n)"
    "\<forall>x\<in>set out. \<exists>n. fmlookup (h_labels h) (fst x) = Some n \<and> snd x = hn_score U h q n"
  shows "length (collect U h q k ns out) \<le> k" "distinct (map fst (collect U h q k ns out))"
    "\<forall>x\<in>set (collect U h q k ns out). \<exists>n. fmlookup (h_labels h) (fst x) = Some n \<and> snd x = hn_score U h q n"
proof -
  have "length (collect U h q k ns out) \<le> k \<and> distinct (map fst (collect U h q k ns out)) \<and>
    (\<forall>x\<in>set (collect U h q k ns out). \<exists>n. fmlookup (h_labels h) (fst x) = Some n \<and> snd x = hn_score U h q n)"
    using assms(2-)
  proof (induction ns arbitrary: out)
    case (Cons n ns)
    show ?case
    proof (cases "n_deleted (h_nodes h ! n)")
      case True
      then show ?thesis using Cons.IH [of out] Cons.prems by auto
    next
      case False
      let ?x = "(n_label (h_nodes h ! n), hn_score U h q n)"
      have lab: "fmlookup (h_labels h) (n_label (h_nodes h ! n)) = Some n"
        using assms(1) Cons.prems(1) False by (simp add: labels_ok_def)
      have new: "n_label (h_nodes h ! n) \<notin> fst ` set out" using Cons.prems(5) False by auto
      have ok: "distinct (map fst (out @ [?x]))"
        "\<forall>x\<in>set (out @ [?x]). \<exists>n. fmlookup (h_labels h) (fst x) = Some n \<and> snd x = hn_score U h q n"
        using Cons.prems(4,6) new lab by auto
      have "n_label (h_nodes h ! m) \<noteq> n_label (h_nodes h ! n) \<or> n_deleted (h_nodes h ! m)" if "m \<in> set ns" for m
        using assms(1) that Cons.prems(1,2) lab unfolding labels_ok_def
        by (metis distinct.simps(2) list.set_intros(2) option.inject)
      then have rest: "\<forall>m\<in>set ns. n_label (h_nodes h ! m) \<notin> fst ` set (out @ [?x]) \<or> n_deleted (h_nodes h ! m)"
        using Cons.prems(5) by auto
      show ?thesis
      proof (cases "length (out @ [?x]) \<ge> k")
        case True
        then show ?thesis using False ok Cons.prems(3) by (simp add: Let_def)
      next
        case False2: False
        then show ?thesis using Cons.IH [of "out @ [?x]"] False ok rest Cons.prems(1,2) by (simp add: Let_def)
      qed
    qed
  qed auto
  then show "length (collect U h q k ns out) \<le> k" "distinct (map fst (collect U h q k ns out))"
    "\<forall>x\<in>set (collect U h q k ns out). \<exists>n. fmlookup (h_labels h) (fst x) = Some n \<and> snd x = hn_score U h q n" by auto
qed

lemma hn_search_correct:
  assumes "hn_inv h"
  shows "\<exists>out. hn_search U h query k ef = Some out \<and> length out \<le> k \<and> distinct (map fst out) \<and>
    (\<forall>(lab, score)\<in>set out. \<exists>n. fmlookup (h_labels h) lab = Some n \<and> score = hn_score U h (prepare U h query) n)"
proof (cases "h_entry h = None \<or> k = 0")
  case True
  then show ?thesis by (auto simp: hn_search_def split: option.split)
next
  case False
  then obtain e where e: "h_entry h = Some e" "0 < k" by auto
  have inv: "graph_ok h" "labels_ok h" "entry_ok h" using assms by (simp_all add: hn_inv_def)
  then have m: "0 \<le> h_max_level h" "has_level h e (nat (h_max_level h))" using e by (simp_all add: entry_ok_def)
  let ?q = "prepare U h query" and ?down = "rev [1..<nat (h_max_level h + 1)]"
  have max: "nat (h_max_level h + 1) = Suc (nat (h_max_level h))" using m(1) by simp
  have "?down \<noteq> [] \<longrightarrow> has_level h e (hd ?down)" using m(2) by (auto simp: max hd_rev)
  from descend_good [OF inv(1) sorted_rev_upt this, of 0 U ?q] has_level_le [OF m(2), of 0]
  obtain cur where cur: "descend U h ?q ?down e = Some cur" "has_level h cur 0" by auto
  from search_layer_good [OF inv(1) cur(2), of U ?q "max ef k"] obtain ns where
    ns: "search_layer U h ?q cur (max ef k) 0 = Some ns" "distinct ns" "\<forall>n\<in>set ns. n < length (h_nodes h)"
    by (auto simp: has_level_def)
  let ?out = "collect U h ?q k ns []"
  have "hn_search U h query k ef = Some ?out" using e cur(1) ns(1) by (simp add: hn_search_def Let_def)
  moreover have "length ?out \<le> k" "distinct (map fst ?out)"
    "\<forall>x\<in>set ?out. \<exists>n. fmlookup (h_labels h) (fst x) = Some n \<and> snd x = hn_score U h ?q n"
    by (rule collect_spec [OF inv(2) ns(3,2)]; use e(2) in simp)+
  ultimately show ?thesis by (auto simp: split_beta)
qed

end
