(* ===== verification/Cmd_Vector.thy ===== *)
theory Cmd_Vector
  imports Hnsw_Correct Cmd_ZSet_Correct
begin

section \<open>Vector commands (\<^verbatim>\<open>src/commands/vector_cmds.cpp\<close>)\<close>

text \<open>
  The vector indexes of a shard are a map from keys to indexes, beside the keyspace: DEL, expiry and
  snapshots do not see them. A handler takes and returns the context and this map. Where the index
  would access memory out of bounds the context records undefined behaviour; the theory proves that
  this does not happen when the indexes satisfy their invariant.
\<close>

type_synonym vindex = "bytes \<Rightarrow> hnsw option"

fun parse_vector :: "fp \<Rightarrow> fpu \<Rightarrow> bytes list \<Rightarrow> f32 list \<Rightarrow> f32 list option" where
  "parse_vector F U [] out = (if out = [] then None else Some out)"
| "parse_vector F U (a # rest) out =
     (case parse_double F a of None \<Rightarrow> None | Some v \<Rightarrow> parse_vector F U rest (out @ [u_to_float U v]))"

definition default_m :: nat where "default_m = 16"
definition default_ef :: nat where "default_ef = 200"

definition cmd_vadd :: "fp \<Rightarrow> fpu \<Rightarrow> vindex \<Rightarrow> ctx \<Rightarrow> ctx \<times> vindex" where
  "cmd_vadd F U vx c =
     (case parse_vector F U (drop 3 (c_argv c)) [] of
        None \<Rightarrow> (err_not_float c, vx)
      | Some vec \<Rightarrow>
          (let key = arg c 1;
               h = (case vx key of None \<Rightarrow> hnsw_new (length vec) Cosine default_m default_ef | Some h \<Rightarrow> h)
           in if vx key \<noteq> None \<and> h_dim h \<noteq> length vec then (r_error ''ERR vector dimension mismatch'' c, vx)
              else case hn_add U (arg c 2) vec h of
                     None \<Rightarrow> (flag_ub c, vx)
                   | Some (added, h') \<Rightarrow> (r_integer (if added then 1 else 0) (mark_dirty c), vx(key \<mapsto> h'))))"

definition vsim_item :: "fp \<Rightarrow> fpu \<Rightarrow> ctx \<Rightarrow> bytes \<times> f32 \<Rightarrow> ctx" where
  "vsim_item F U c x = r_double F (u_to_double U (snd x)) (r_bulk (fst x) c)"

text \<open>\<open>ef\<close> is computed in \<open>size_t\<close>.\<close>

definition vsim_ef :: "int \<Rightarrow> nat" where
  "vsim_ef count = unat ((word_of_int count :: u64) * 4 + 32)"

definition cmd_vsim :: "fp \<Rightarrow> fpu \<Rightarrow> vindex \<Rightarrow> ctx \<Rightarrow> ctx" where
  "cmd_vsim F U vx c =
     (case parse_int (arg c 2) of
        None \<Rightarrow> err_not_int c
      | Some count \<Rightarrow>
          if count \<le> 0 then err_not_int c
          else case parse_vector F U (drop 3 (c_argv c)) [] of
            None \<Rightarrow> err_not_float c
          | Some query \<Rightarrow>
              (case vx (arg c 1) of
                 None \<Rightarrow> r_array_header 0 c
               | Some h \<Rightarrow>
                   if h_dim h \<noteq> length query then r_error ''ERR vector dimension mismatch'' c
                   else case hn_search U h query (nat count) (vsim_ef count) of
                          None \<Rightarrow> flag_ub c
                        | Some results \<Rightarrow>
                            foldl (vsim_item F U) (r_array_header (int (length results) * 2) c) results))"

definition cmd_vcard :: "vindex \<Rightarrow> ctx \<Rightarrow> ctx" where
  "cmd_vcard vx c = r_integer (case vx (arg c 1) of None \<Rightarrow> 0 | Some h \<Rightarrow> int (hn_size h)) c"

definition cmd_vrem :: "vindex \<Rightarrow> ctx \<Rightarrow> ctx \<times> vindex" where
  "cmd_vrem vx c =
     (case vx (arg c 1) of
        None \<Rightarrow> (r_integer 0 c, vx)
      | Some h \<Rightarrow>
          (case hn_remove (arg c 2) h of
             None \<Rightarrow> (flag_ub c, vx)
           | Some (removed, h') \<Rightarrow>
               (r_integer (if removed then 1 else 0) (if removed then mark_dirty c else c), vx(arg c 1 \<mapsto> h'))))"

subsection \<open>Correctness\<close>

definition vindex_ok :: "vindex \<Rightarrow> bool" where
  "vindex_ok vx \<longleftrightarrow> (\<forall>k h. vx k = Some h \<longrightarrow> hn_inv h)"

text \<open>What the map of indexes means: a set of labels per key.\<close>

definition vlabels :: "vindex \<Rightarrow> bytes \<Rightarrow> bytes set" where
  "vlabels vx k = (case vx k of None \<Rightarrow> {} | Some h \<Rightarrow> fmdom' (h_labels h))"

lemma vlabels_upd [simp]: "vlabels (vx(k \<mapsto> h)) = (vlabels vx)(k := fmdom' (h_labels h))"
  by (auto simp: fun_eq_iff vlabels_def)

lemma hn_add_correct:
  assumes "sorts U" "hn_inv h"
  shows "\<exists>h'. hn_add U label vec h = Some (label \<notin> fmdom' (h_labels h), h') \<and> hn_inv h' \<and>
    fmdom' (h_labels h') = insert label (fmdom' (h_labels h))"
proof (cases "fmlookup (h_labels h) label")
  case None
  then show ?thesis using hn_add_new [OF assms None, of vec] by (auto simp: fmlookup_dom'_iff)
next
  case (Some n)
  then show ?thesis using hn_add_old [OF assms(2) Some, of U vec] by (auto simp: insert_absorb fmlookup_dom'_iff)
qed

lemma cmd_vadd_correct:
  assumes "sorts U" "vindex_ok vx" "parse_vector F U (drop 3 (c_argv c)) [] = Some vec"
    "\<And>h. vx (arg c 1) = Some h \<Longrightarrow> h_dim h = length vec"
  shows "fst (cmd_vadd F U vx c) = r_integer (if arg c 2 \<in> vlabels vx (arg c 1) then 0 else 1) (mark_dirty c)"
    "vindex_ok (snd (cmd_vadd F U vx c))"
    "vlabels (snd (cmd_vadd F U vx c)) = (vlabels vx)(arg c 1 := insert (arg c 2) (vlabels vx (arg c 1)))"
proof -
  let ?h = "case vx (arg c 1) of None \<Rightarrow> hnsw_new (length vec) Cosine default_m default_ef | Some h \<Rightarrow> h"
  have h: "hn_inv ?h" "fmdom' (h_labels ?h) = vlabels vx (arg c 1)"
    using assms(2) hn_inv_new [of "length vec" Cosine default_m default_ef]
    by (simp_all add: vindex_ok_def vlabels_def hnsw_new_def split: option.split)
  from hn_add_correct [OF assms(1) h(1), of "arg c 2" vec] h(2) obtain h' where
    h': "hn_add U (arg c 2) vec ?h = Some (arg c 2 \<notin> vlabels vx (arg c 1), h')" "hn_inv h'"
    "fmdom' (h_labels h') = insert (arg c 2) (vlabels vx (arg c 1))" by auto
  have dim: "\<not> (vx (arg c 1) \<noteq> None \<and> h_dim ?h \<noteq> length vec)" using assms(4) by (cases "vx (arg c 1)") simp_all
  have eq: "cmd_vadd F U vx c =
      (r_integer (if arg c 2 \<in> vlabels vx (arg c 1) then 0 else 1) (mark_dirty c), vx(arg c 1 \<mapsto> h'))"
    unfolding cmd_vadd_def assms(3) option.case Let_def if_not_P [OF dim] h'(1) by simp
  show "fst (cmd_vadd F U vx c) = r_integer (if arg c 2 \<in> vlabels vx (arg c 1) then 0 else 1) (mark_dirty c)"
    "vindex_ok (snd (cmd_vadd F U vx c))" using eq assms(2) h'(2) by (auto simp: vindex_ok_def)
  show "vlabels (snd (cmd_vadd F U vx c)) = (vlabels vx)(arg c 1 := insert (arg c 2) (vlabels vx (arg c 1)))"
    using eq h'(3) by simp
qed

lemma cmd_vrem_correct:
  assumes "vindex_ok vx"
  shows "fst (cmd_vrem vx c) = (if arg c 2 \<in> vlabels vx (arg c 1) then r_integer 1 (mark_dirty c) else r_integer 0 c)"
    "vindex_ok (snd (cmd_vrem vx c))"
    "vlabels (snd (cmd_vrem vx c)) = (vlabels vx)(arg c 1 := vlabels vx (arg c 1) - {arg c 2})"
proof -
  have "fst (cmd_vrem vx c) = (if arg c 2 \<in> vlabels vx (arg c 1) then r_integer 1 (mark_dirty c) else r_integer 0 c) \<and>
    vindex_ok (snd (cmd_vrem vx c)) \<and>
    vlabels (snd (cmd_vrem vx c)) = (vlabels vx)(arg c 1 := vlabels vx (arg c 1) - {arg c 2})"
  proof (cases "vx (arg c 1)")
    case None
    then show ?thesis using assms by (auto simp: cmd_vrem_def vlabels_def fun_eq_iff)
  next
    case (Some h)
    then have "hn_inv h" using assms by (simp add: vindex_ok_def)
    from hn_remove_correct [OF this, of "arg c 2"] obtain h' where
      "hn_remove (arg c 2) h = Some (arg c 2 \<in> fmdom' (h_labels h), h')" "hn_inv h'"
      "h_labels h' = fmdrop (arg c 2) (h_labels h)" by blast
    moreover have "vlabels vx (arg c 1) = fmdom' (h_labels h)" using Some by (simp add: vlabels_def)
    ultimately show ?thesis using Some assms by (simp add: cmd_vrem_def vindex_ok_def domIff)
  qed
  then show "fst (cmd_vrem vx c) = (if arg c 2 \<in> vlabels vx (arg c 1) then r_integer 1 (mark_dirty c) else r_integer 0 c)"
    "vindex_ok (snd (cmd_vrem vx c))"
    "vlabels (snd (cmd_vrem vx c)) = (vlabels vx)(arg c 1 := vlabels vx (arg c 1) - {arg c 2})" by auto
qed

lemma cmd_vcard_correct:
  "cmd_vcard vx c = r_integer (int (card (vlabels vx (arg c 1)))) c"
  by (simp add: cmd_vcard_def vlabels_def hn_size_def fcard.rep_eq fmdom'_alt_def split: option.split)

lemma says_vsim: assumes "vindex_ok vx" shows "says c (cmd_vsim F U vx c)"
proof -
  have item: "says c (vsim_item F U c x)" for c x
    using says_trans [OF says_reply(1) says_double] by (simp add: vsim_item_def)
  have results: "\<exists>out. hn_search U h q k ef = Some out" if "vx (arg c 1) = Some h" for h q k ef
    using hn_search_correct [of h U q k ef] assms that by (auto simp: vindex_ok_def)
  note all = says_trans [OF says_reply(3) says_fold [OF item]]
  show ?thesis
  proof (cases "vx (arg c 1)")
    case None
    then show ?thesis by (simp add: cmd_vsim_def err_not_float_def split: option.split)
  next
    case (Some h)
    have "says c (case hn_search U h q k ef of None \<Rightarrow> flag_ub c
        | Some results \<Rightarrow> foldl (vsim_item F U) (r_array_header (int (length results) * 2) c) results)" for q k ef
      using results [OF Some, of q k ef] all by auto
    then show ?thesis using Some by (simp add: cmd_vsim_def err_not_float_def split: option.split)
  qed
qed

lemma sound_dirty: "ok c \<Longrightarrow> sound c (mark_dirty c)"
  by (simp add: sound_def mark_dirty_def ok_def view_def)

lemma sound_vectors:
  assumes "ok c" "vindex_ok vx" "sorts U"
  shows "sound c (fst (cmd_vadd F U vx c)) \<and> vindex_ok (snd (cmd_vadd F U vx c))"
    "sound c (cmd_vsim F U vx c)" "sound c (cmd_vcard vx c)"
    "sound c (fst (cmd_vrem vx c)) \<and> vindex_ok (snd (cmd_vrem vx c))"
proof -
  have d: "sound c (r_integer n (mark_dirty c))" for n
    using sound_trans [OF sound_dirty [OF assms(1)] sound_reply(3)] assms(1)
    by (simp add: ok_def mark_dirty_def)
  show "sound c (cmd_vsim F U vx c)" by (rule sound_says [OF assms(1) says_vsim [OF assms(2)]])
  show "sound c (cmd_vcard vx c)" by (simp add: cmd_vcard_def sound_reply assms(1))
  show "sound c (fst (cmd_vrem vx c)) \<and> vindex_ok (snd (cmd_vrem vx c))"
    using cmd_vrem_correct(1,2) [OF assms(2), of c] d sound_reply(3) [OF assms(1)] by simp
  show "sound c (fst (cmd_vadd F U vx c)) \<and> vindex_ok (snd (cmd_vadd F U vx c))"
  proof (cases "parse_vector F U (drop 3 (c_argv c)) []")
    case None
    then show ?thesis using assms(1,2) by (simp add: cmd_vadd_def err_not_float_def sound_reply)
  next
    case (Some vec)
    show ?thesis
    proof (cases "\<exists>h. vx (arg c 1) = Some h \<and> h_dim h \<noteq> length vec")
      case True
      then show ?thesis using Some assms(1,2) by (auto simp: cmd_vadd_def sound_reply)
    next
      case False
      then show ?thesis using cmd_vadd_correct [OF assms(3,2) Some] d by auto
    qed
  qed
qed

end
