(* ===== verification/Cmd_Float.thy ===== *)
theory Cmd_Float
  imports Cmd_ZSet_Correct
begin

section \<open>INCRBYFLOAT (\<^verbatim>\<open>src/commands/string_cmds.cpp\<close>)\<close>

text \<open>
  The one string command that computes with doubles, on the same parameters for the text and the sum of
  doubles as the sorted sets. Its reference function and that the handler follows it.
\<close>

definition cmd_incrbyfloat :: "fp \<Rightarrow> ctx \<Rightarrow> ctx" where
  "cmd_incrbyfloat F c =
     (case parse_double F (arg c 2) of
        None \<Rightarrow> err_not_float c
      | Some delta \<Rightarrow>
          (let (t, c1) = get_string (arg c 1) c in
           if t = WrongType then err_wrong_type c1
           else
             case (case t of Found p \<Rightarrow> parse_double F (str_at c1 p) | _ \<Rightarrow> Some d_zero) of
               None \<Rightarrow> err_not_float c1
             | Some cur \<Rightarrow>
                 (let s = double_to_string F (fp_add F cur delta)
                  in r_bulk s (mark_dirty (snd (db_set (arg c 1) (StrObj s) c1))))))"

text \<open>The value loses its deadline, as with every \<open>db.set\<close>.\<close>

definition a_not_float :: bytes where
  "a_not_float = a_error ''ERR value is not a valid float''"

definition spec_incrbyfloat :: "fp \<Rightarrow> bytes \<Rightarrow> aentry option \<Rightarrow> outcome" where
  "spec_incrbyfloat F delta e =
     (case parse_double F delta of
        None \<Rightarrow> (e, a_not_float, False)
      | Some dl \<Rightarrow>
          on_str e (\<lambda>s d.
            case (case s of None \<Rightarrow> Some d_zero | Some b \<Rightarrow> parse_double F b) of
              None \<Rightarrow> (e, a_not_float, False)
            | Some cur \<Rightarrow>
                (let s' = double_to_string F (fp_add F cur dl) in (Some (AStr s', None), a_bulk s', True))))"

lemma err_not_float_out: "err_not_float c = c\<lparr>c_out := c_out c @ a_not_float\<rparr>"
  by (simp add: err_not_float_eq a_not_float_def)

lemma cmd_incrbyfloat_runs:
  assumes "ok c"
  shows "runs c (arg c 1) (spec_incrbyfloat F (arg c 2)) (cmd_incrbyfloat F c)"
proof (cases "parse_double F (arg c 2)")
  case None
  then show ?thesis using assms
    by (simp add: str_defs err_not_float_out cmd_incrbyfloat_def spec_incrbyfloat_def)
next
  case (Some dl)
  from assms show ?thesis
    by (cases rule: typed_cases [of c T_String "arg c 1"])
       (use Some in \<open>auto simp: str_defs err_not_float_out cmd_incrbyfloat_def spec_incrbyfloat_def db_set Let_def
         split: option.splits\<close>)
qed

lemma well_incrbyfloat: "well_spec (spec_incrbyfloat F delta)"
  by (rule well_spec_cases; auto simp: well_at_def spec_incrbyfloat_def Let_def split: option.splits)

lemma sound_incrbyfloat: "ready c \<Longrightarrow> sound c (cmd_incrbyfloat F c)"
  by (rule sound_by_runs [OF _ cmd_incrbyfloat_runs well_incrbyfloat]) (simp_all add: ready_def)

end
