(* ===== verification/Hyperloglog.thy ===== *)
theory Hyperloglog
  imports Wy_Hash
begin

section \<open>HyperLogLog registers (\<^verbatim>\<open>include/blazekv/hyperloglog.hpp\<close>, \<^verbatim>\<open>src/store/hyperloglog.cpp\<close>)\<close>

text \<open>
  The registers are the bytes of a string. Adding and merging are exact. The estimator of \<open>count\<close> is
  floating-point arithmetic (\<open>ldexp\<close>, \<open>log\<close>) on the registers; the model takes its value as a function
  of the registers.
\<close>

definition kPrecision :: nat where "kPrecision = 14"
definition kRegisters :: nat where "kRegisters = 16384"

definition hll_rank :: "u64 \<Rightarrow> nat" where
  "hll_rank hash =
     (let tail = drop_bit kPrecision hash; max_rank = 64 - kPrecision + 1
      in if tail = 0 then max_rank else length (takeWhile (\<lambda>i. \<not> bit tail i) [0..<64]) + 1)"

definition hll_ensure :: "bytes \<Rightarrow> bytes" where
  "hll_ensure regs = (if length regs \<noteq> kRegisters then replicate kRegisters (CHR 0x00) else regs)"

definition hll_hash :: "bytes \<Rightarrow> u64" where
  "hll_hash element = hash_bytes_seeded element 0xADC83B19"

definition hll_index :: "u64 \<Rightarrow> nat" where
  "hll_index h = unat (h AND (word_of_nat kRegisters - 1))"

definition hll_add :: "bytes \<Rightarrow> bytes \<Rightarrow> bytes \<times> bool" where
  "hll_add regs0 element =
     (let regs = hll_ensure regs0; h = hll_hash element; idx = hll_index h; r = hll_rank h
      in if r > byte_val (regs ! idx) then (regs[idx := char_of r], True) else (regs, False))"

definition hll_count :: "(bytes \<Rightarrow> u64) \<Rightarrow> bytes \<Rightarrow> u64" where
  "hll_count estimate regs = (if length regs \<noteq> kRegisters then 0 else estimate regs)"

definition hll_merge :: "bytes \<Rightarrow> bytes \<Rightarrow> bytes" where
  "hll_merge dst0 src =
     (let dst = hll_ensure dst0
      in if length src \<noteq> kRegisters then dst
         else map (\<lambda>i. if byte_val (src ! i) > byte_val (dst ! i) then src ! i else dst ! i) [0..<kRegisters])"

subsection \<open>Registers as maxima\<close>

lemma length_hll_ensure [simp]: "length (hll_ensure regs) = kRegisters"
  by (simp add: hll_ensure_def)

lemma hll_ensure_id [simp]: "length regs = kRegisters \<Longrightarrow> hll_ensure regs = regs"
  by (simp add: hll_ensure_def)

lemma length_hll_add [simp]: "length (fst (hll_add regs x)) = kRegisters"
  by (simp add: hll_add_def Let_def)

lemma length_hll_merge [simp]: "length (hll_merge d s) = kRegisters"
  by (simp add: hll_merge_def Let_def)

lemma hll_rank_pos: "0 < hll_rank h" and hll_rank_less: "hll_rank h < 256"
proof -
  have "length (takeWhile P [0..<64::nat]) \<le> 64" for P
    by (metis diff_zero length_takeWhile_le length_upt)
  then have "length (takeWhile P [0..<64::nat]) + 1 < 256" for P by (simp add: le_less_trans [of _ 64])
  then show "hll_rank h < 256" by (simp add: hll_rank_def Let_def kPrecision_def)
  show "0 < hll_rank h" by (simp add: hll_rank_def Let_def kPrecision_def)
qed

lemma byte_of_rank [simp]: "byte_val (char_of (hll_rank h)) = hll_rank h"
  using hll_rank_less [of h] by simp

lemma hll_index_less: "hll_index h < kRegisters"
proof -
  have "h AND (word_of_nat kRegisters - 1) \<le> (word_of_nat kRegisters - 1 :: u64)" by (rule word_and_le1)
  then show ?thesis by (simp add: hll_index_def kRegisters_def word_le_nat_alt)
qed

text \<open>The value a register has after the elements of a set have been seen.\<close>

definition hll_reg :: "bytes set \<Rightarrow> nat \<Rightarrow> nat" where
  "hll_reg S i = Max (insert 0 ((\<lambda>x. hll_rank (hll_hash x)) ` {x \<in> S. hll_index (hll_hash x) = i}))"

definition hll_of :: "bytes set \<Rightarrow> bytes" where
  "hll_of S = map (\<lambda>i. char_of (hll_reg S i)) [0..<kRegisters]"

lemma length_hll_of [simp]: "length (hll_of S) = kRegisters"
  by (simp add: hll_of_def)

lemma hll_reg_empty [simp]: "hll_reg {} i = 0"
  by (simp add: hll_reg_def)

lemma hll_reg_insert:
  "finite S \<Longrightarrow> hll_reg (insert x S) i =
     (if hll_index (hll_hash x) = i then max (hll_rank (hll_hash x)) (hll_reg S i) else hll_reg S i)"
proof -
  assume fin: "finite S"
  have "{y \<in> insert x S. hll_index (hll_hash y) = i} =
      (if hll_index (hll_hash x) = i then insert x {y \<in> S. hll_index (hll_hash y) = i}
       else {y \<in> S. hll_index (hll_hash y) = i})" by auto
  then show ?thesis using fin by (simp add: hll_reg_def insert_commute [of 0])
qed

lemma hll_reg_less: "finite S \<Longrightarrow> hll_reg S i < 256"
  by (induction S rule: finite_induct) (simp_all add: hll_reg_insert hll_rank_less)

lemma hll_reg_union: "finite S \<Longrightarrow> finite T \<Longrightarrow> hll_reg (S \<union> T) i = max (hll_reg S i) (hll_reg T i)"
  by (induction S rule: finite_induct) (simp_all add: hll_reg_insert max.assoc)

lemma hll_of_nth: "finite S \<Longrightarrow> i < kRegisters \<Longrightarrow> byte_val (hll_of S ! i) = hll_reg S i"
  using hll_reg_less [of S i] by (simp add: hll_of_def)

lemma hll_of_empty: "hll_of {} = hll_ensure []"
  by (simp add: hll_of_def hll_ensure_def kRegisters_def map_replicate_const, code_simp)

lemma hll_eqI:
  assumes "length a = kRegisters" "finite S" "\<And>i. i < kRegisters \<Longrightarrow> byte_val (a ! i) = hll_reg S i"
  shows "a = hll_of S"
proof (rule nth_equalityI)
  fix i
  assume "i < length a"
  then have "byte_val (a ! i) = byte_val (hll_of S ! i)" using assms by (simp add: hll_of_nth)
  then show "a ! i = hll_of S ! i" by (simp add: byte_val_inject)
qed (use assms in simp)

lemma hll_add_of:
  assumes "finite S"
  shows "fst (hll_add (hll_of S) x) = hll_of (insert x S)"
    and "snd (hll_add (hll_of S) x) \<longleftrightarrow> hll_of (insert x S) \<noteq> hll_of S"
proof -
  let ?h = "hll_hash x"
  have cur: "byte_val (hll_of S ! hll_index ?h) = hll_reg S (hll_index ?h)"
    using assms by (simp add: hll_of_nth hll_index_less)
  show eq: "fst (hll_add (hll_of S) x) = hll_of (insert x S)"
  proof (rule hll_eqI)
    fix i
    assume i: "i < kRegisters"
    show "byte_val (fst (hll_add (hll_of S) x) ! i) = hll_reg (insert x S) i"
      using i cur assms hll_of_nth [OF assms i]
      by (auto simp: hll_add_def Let_def hll_reg_insert nth_list_update hll_index_less hll_rank_less)
  qed (use assms in simp_all)
  show "snd (hll_add (hll_of S) x) \<longleftrightarrow> hll_of (insert x S) \<noteq> hll_of S"
  proof
    assume "snd (hll_add (hll_of S) x)"
    then have "hll_rank ?h > hll_reg S (hll_index ?h)"
      using cur by (auto simp: hll_add_def Let_def split: if_splits)
    then have "hll_reg (insert x S) (hll_index ?h) \<noteq> hll_reg S (hll_index ?h)"
      using assms by (simp add: hll_reg_insert)
    then show "hll_of (insert x S) \<noteq> hll_of S"
      using hll_of_nth [OF _ hll_index_less] assms by (metis finite.insertI)
  next
    assume "hll_of (insert x S) \<noteq> hll_of S"
    then show "snd (hll_add (hll_of S) x)"
      unfolding eq [symmetric] by (auto simp: hll_add_def Let_def split: if_splits)
  qed
qed

lemma hll_merge_of:
  assumes "finite S" "finite T"
  shows "hll_merge (hll_of S) (hll_of T) = hll_of (S \<union> T)"
proof (rule hll_eqI)
  fix i
  assume "i < kRegisters"
  then show "byte_val (hll_merge (hll_of S) (hll_of T) ! i) = hll_reg (S \<union> T) i"
    using assms by (simp add: hll_merge_def Let_def hll_reg_union hll_of_nth max_def)
qed (use assms in simp_all)

lemma hll_adds_of:
  "finite S \<Longrightarrow> foldl (\<lambda>r x. fst (hll_add r x)) (hll_of S) xs = hll_of (S \<union> set xs)"
proof (induction xs arbitrary: S)
  case (Cons x xs)
  then show ?case by (simp add: hll_add_of)
qed simp

end
