(* ===== verification/Cmd_Hll.thy ===== *)
theory Cmd_Hll
  imports Cmd_Sound Hyperloglog
begin

section \<open>HyperLogLog commands (\<^verbatim>\<open>src/commands/server_cmds.cpp\<close>)\<close>

text \<open>PFADD, PFCOUNT and PFMERGE keep the registers in an ordinary string value.\<close>

subsection \<open>Handlers\<close>

text \<open>\<open>get_hll\<close> accepts both tags with a string payload.\<close>

definition get_hll :: "bytes \<Rightarrow> ctx \<Rightarrow> nat typed \<times> ctx" where
  "get_hll key c =
     (case db_lookup key c of
        (None, c') \<Rightarrow> (Absent, c')
      | (Some p, c') \<Rightarrow>
          if obj_type (obj_at c' p) \<noteq> T_String \<and> obj_type (obj_at c' p) \<noteq> T_HLL then (WrongType, c')
          else (Found p, c'))"

definition pf_add_step :: "bytes \<times> bool \<Rightarrow> bytes \<Rightarrow> bytes \<times> bool" where
  "pf_add_step s a = (let (regs, changed) = s; (regs', b) = hll_add regs a in (regs', changed \<or> b))"

definition cmd_pfadd :: "ctx \<Rightarrow> ctx" where
  "cmd_pfadd c =
     (let (r, c1) = get_hll (arg c 1) c in
      if r = WrongType then err_wrong_type c1
      else
        let start = (case r of Found p \<Rightarrow> (str_at c1 p, False) | _ \<Rightarrow> (hll_ensure [], True));
            (regs, changed) = foldl pf_add_step start (drop 2 (c_argv c));
            c2 = (if changed then mark_dirty (snd (db_set (arg c 1) (StrObj regs) c1)) else c1)
        in r_integer (if changed then 1 else 0) c2)"

text \<open>The loop of PFCOUNT and PFMERGE over the keys: other types are skipped.\<close>

definition pf_merge_step :: "bytes \<times> ctx \<Rightarrow> bytes \<Rightarrow> bytes \<times> ctx" where
  "pf_merge_step s key =
     (let (regs, c) = s in
      case db_lookup key c of
        (None, c1) \<Rightarrow> (regs, c1)
      | (Some p, c1) \<Rightarrow>
          if obj_type (obj_at c1 p) = T_String \<or> obj_type (obj_at c1 p) = T_HLL
          then (hll_merge regs (str_at c1 p), c1) else (regs, c1))"

definition cmd_pfcount :: "(bytes \<Rightarrow> u64) \<Rightarrow> ctx \<Rightarrow> ctx" where
  "cmd_pfcount estimate c =
     (let (merged, c1) = foldl pf_merge_step (hll_ensure [], c) (drop 1 (c_argv c))
      in r_integer (i64_of_u64 (hll_count estimate merged)) c1)"

definition cmd_pfmerge :: "ctx \<Rightarrow> ctx" where
  "cmd_pfmerge c =
     (let (d, c1) = db_lookup (arg c 1) c;
          regs = (case d of
             Some p \<Rightarrow> if obj_type (obj_at c1 p) = T_String \<or> obj_type (obj_at c1 p) = T_HLL then str_at c1 p else []
           | None \<Rightarrow> []);
          (merged, c2) = foldl pf_merge_step (hll_ensure regs, c1) (drop 1 (c_argv c))
      in r_simple_string ''OK'' (mark_dirty (snd (db_set (arg c 1) (StrObj merged) c2))))"

subsection \<open>Specifications\<close>

fun aobj_text :: "aobj \<Rightarrow> bytes option" where
  "aobj_text (AStr s) = Some s"
| "aobj_text (AHll s) = Some s"
| "aobj_text _ = None"

definition spec_pfadd :: "bytes list \<Rightarrow> aentry option \<Rightarrow> outcome" where
  "spec_pfadd args e =
     (let add = (\<lambda>start. foldl pf_add_step start args);
          result = (\<lambda>r. if snd r then (Some (AStr (fst r), None), a_integer 1, True) else (e, a_integer 0, False))
      in case e of
           None \<Rightarrow> result (add (hll_ensure [], True))
         | Some (a, d) \<Rightarrow>
             (case aobj_text a of
                None \<Rightarrow> (e, a_wrong_type, False)
              | Some s \<Rightarrow> result (add (s, False))))"

lemma pf_add_step_flag: "snd s \<Longrightarrow> snd (foldl pf_add_step s xs)"
  by (induction xs arbitrary: s) (auto simp: pf_add_step_def split_beta)

lemma well_pfadd: "well_spec (spec_pfadd args)"
  by (rule well_spec_cases; auto simp: well_at_def spec_pfadd_def Let_def)

lemma aobj_text_abs: "aobj_text (obj_abs v) = (if obj_type v = T_String \<or> obj_type v = T_HLL then obj_str v else None)"
  by (cases v) simp_all

lemma cmd_pfadd_runs:
  assumes "ok c"
  shows "runs c (arg c 1) (spec_pfadd (drop 2 (c_argv c))) (cmd_pfadd c)"
proof (cases rule: db_lookup_cases [OF assms, of "arg c 1"])
  case (1 db1)
  have flag: "snd (foldl pf_add_step (hll_ensure [], True) (drop 2 (c_argv c)))"
    by (rule pf_add_step_flag) simp
  show ?thesis
    using 1 flag db_set [OF 1(2), of "StrObj (fst (foldl pf_add_step (hll_ensure [], True) (drop 2 (c_argv c))))" "arg c 1"]
    by (simp add: run_defs cmd_pfadd_def get_hll_def spec_pfadd_def split_beta)
next
  case (2 p v d)
  have ok: "db_ok (c_db c)" using assms by (simp add: ok_def)
  show ?thesis
  proof (cases "obj_type v = T_String \<or> obj_type v = T_HLL")
    case True
    then obtain s where s: "obj_str v = Some s" by (cases v) auto
    let ?r = "foldl pf_add_step (s, False) (drop 2 (c_argv c))"
    have "str_at (c\<lparr>c_tick := c_tick c + 1\<rparr>) p = s" using 2(3) s by (simp add: str_at_def obj_at_def)
    then show ?thesis
      using 2 ok True s aobj_text_abs [of v] db_set [OF ok, of "StrObj (fst ?r)" "arg c 1"]
      by (auto simp: run_defs cmd_pfadd_def get_hll_def spec_pfadd_def split_beta Let_def)
  next
    case False
    then show ?thesis
      using 2 ok aobj_text_abs [of v]
      by (simp add: run_defs cmd_pfadd_def get_hll_def spec_pfadd_def split_beta Let_def)
  qed
qed

text \<open>What a PFADD leaves: the registers of everything added so far.\<close>

lemma pf_add_of:
  "finite S \<Longrightarrow> fst (foldl pf_add_step (hll_of S, b) xs) = hll_of (S \<union> set xs)"
proof (induction xs arbitrary: S b)
  case (Cons x xs)
  have "pf_add_step (hll_of S, b) x = (hll_of (insert x S), b \<or> snd (hll_add (hll_of S) x))"
    using hll_add_of(1) [OF Cons.prems, of x] by (simp add: pf_add_step_def split_beta)
  then show ?case using Cons.IH [of "insert x S"] Cons.prems by simp
qed simp

subsection \<open>Soundness\<close>

lemma pf_merge_step_sound:
  assumes "sound c0 (snd s)" shows "sound c0 (snd (pf_merge_step s key))"
  using sound_trans [OF assms sound_lookup(1) [OF soundD(1) [OF assms], of key]]
  by (auto simp: pf_merge_step_def split_beta split: option.splits prod.splits)

lemma pf_merge_fold_sound:
  "sound c0 (snd s) \<Longrightarrow> sound c0 (snd (foldl pf_merge_step s keys))"
  by (rule sound_fold [where P = "\<lambda>s. sound c0 (snd s)"]) (simp_all add: pf_merge_step_sound)

lemma sound_set_str:
  assumes "sound c0 c" "store_full (view c0)"
  shows "sound c0 (mark_dirty (snd (db_set k (StrObj s) c)))"
proof -
  have "db_ok (c_db c)" using soundD(1) [OF assms(1)] by (simp add: ok_def)
  from db_set [OF this, of "StrObj s" k] store_full_upd [of "view c" "Some (AStr s, None)" k] assms
  show ?thesis by (auto simp: sound_def op_eqs ok_def view_def)
qed

lemma sound_hll:
  assumes "ready c"
  shows "sound c (cmd_pfadd c)" "sound c (cmd_pfcount est c)" "sound c (cmd_pfmerge c)"
proof -
  note ok = readyD(1) [OF assms]
  show "sound c (cmd_pfadd c)"
    by (rule sound_runs [OF cmd_pfadd_runs [OF ok] well_pfadd readyD(2) [OF assms]])
  have "sound c (snd (foldl pf_merge_step (hll_ensure [], c) (drop 1 (c_argv c))))"
    by (rule pf_merge_fold_sound) (simp add: sound_refl ok)
  then show "sound c (cmd_pfcount est c)"
    by (rule sound_cong) (auto simp: cmd_pfcount_def reply_eqs split: prod.splits)
  define regs where "regs = (case fst (db_lookup (arg c 1) c) of
      Some p \<Rightarrow> if obj_type (obj_at (snd (db_lookup (arg c 1) c)) p) = T_String \<or>
          obj_type (obj_at (snd (db_lookup (arg c 1) c)) p) = T_HLL
        then str_at (snd (db_lookup (arg c 1) c)) p else [] | None \<Rightarrow> [])"
  let ?m = "foldl pf_merge_step (hll_ensure regs, snd (db_lookup (arg c 1) c)) (drop 1 (c_argv c))"
  have st: "sound c (mark_dirty (snd (db_set (arg c 1) (StrObj (fst ?m)) (snd ?m))))"
    by (rule sound_set_str [OF pf_merge_fold_sound readyD(2) [OF assms]]) (simp add: sound_lookup ok)
  have eq: "cmd_pfmerge c =
      r_simple_string ''OK'' (mark_dirty (snd (db_set (arg c 1) (StrObj (fst ?m)) (snd ?m))))"
    unfolding cmd_pfmerge_def regs_def split_beta Let_def ..
  from sound_trans [OF st sound_reply(4) [OF soundD(1) [OF st], of "''OK''"]]
  show "sound c (cmd_pfmerge c)" by (simp only: eq)
qed

subsection \<open>Merging the registers of several keys\<close>

text \<open>The keys that take part have no deadline and hold the registers of a set of elements, or are missing.\<close>

definition pf_regs :: "ctx \<Rightarrow> bytes \<Rightarrow> bytes set \<Rightarrow> bool" where
  "pf_regs c k S \<longleftrightarrow> finite S \<and> (view c k = None \<and> S = {} \<or> view c k = Some (AStr (hll_of S), None))"

lemma pf_lookup:
  assumes "ok c" "pf_regs c k S"
  shows "\<exists>c'. snd (db_lookup k c) = c' \<and> ok c' \<and> view c' = view c \<and> c_out c' = c_out c \<and> c_argv c' = c_argv c \<and>
    (case fst (db_lookup k c) of
       None \<Rightarrow> S = {}
     | Some p \<Rightarrow> obj_type (obj_at c' p) = T_String \<and> str_at c' p = hll_of S)"
proof (cases rule: db_lookup_cases [OF assms(1), of k])
  case (1 db1)
  then have "view c k = None" "S = {}" using assms(2) by (auto simp: pf_regs_def peek_def live_def)
  then show ?thesis using 1 by (simp add: ok_def view_def fun_upd_idem)
next
  case (2 p v d)
  then have "obj_abs v = AStr (hll_of S)" using assms(2) by (auto simp: pf_regs_def)
  then have "v = StrObj (hll_of S)" by (cases v) simp_all
  then show ?thesis using 2 assms(1) by (simp add: ok_def view_def obj_at_def str_at_def)
qed

lemma pf_merge_step_regs:
  assumes "ok c" "pf_regs c k S" "finite T"
  shows "\<exists>c'. pf_merge_step (hll_of T, c) k = (hll_of (T \<union> S), c') \<and> ok c' \<and> view c' = view c \<and>
    c_out c' = c_out c \<and> c_argv c' = c_argv c"
  using pf_lookup [OF assms(1,2)] assms(2,3) hll_merge_of [of T S]
  by (auto simp: pf_merge_step_def pf_regs_def split_beta split: option.splits)

lemma pf_merge_fold_regs:
  assumes "ok c" "finite T" "\<forall>k\<in>set keys. pf_regs c k (S k)"
  shows "\<exists>c'. foldl pf_merge_step (hll_of T, c) keys = (hll_of (T \<union> (\<Union>k\<in>set keys. S k)), c') \<and> ok c' \<and>
    view c' = view c \<and> c_out c' = c_out c \<and> c_argv c' = c_argv c"
  using assms
proof (induction keys arbitrary: c T)
  case (Cons k keys)
  from Cons.prems have fin: "finite (S k)" by (simp add: pf_regs_def)
  from pf_merge_step_regs [OF Cons.prems(1) _ Cons.prems(2), of k "S k"] Cons.prems(3) obtain c1 where
    c1: "pf_merge_step (hll_of T, c) k = (hll_of (T \<union> S k), c1)" "ok c1" "view c1 = view c" "c_out c1 = c_out c"
      "c_argv c1 = c_argv c" by auto
  from Cons.IH [OF c1(2), of "T \<union> S k"] Cons.prems fin c1 show ?case
    by (auto simp: pf_regs_def Un_assoc)
qed simp

lemma pfcount_regs:
  assumes "ok c" "\<forall>k\<in>set (drop 1 (c_argv c)). pf_regs c k (S k)"
  shows "view (cmd_pfcount est c) = view c \<and>
    c_out (cmd_pfcount est c) =
      c_out c @ a_integer (i64_of_u64 (hll_count est (hll_of (\<Union>k\<in>set (drop 1 (c_argv c)). S k))))"
  using pf_merge_fold_regs [OF assms(1) finite.emptyI assms(2)]
  by (auto simp: cmd_pfcount_def hll_of_empty reply_eqs view_def split_beta)

lemma pfmerge_regs:
  assumes "ok c" "\<forall>k\<in>set (drop 1 (c_argv c)). pf_regs c k (S k)" "1 < argc c"
  shows "view (cmd_pfmerge c) = (view c)(arg c 1 \<mapsto> (AStr (hll_of (\<Union>k\<in>set (drop 1 (c_argv c)). S k)), None)) \<and>
    c_out (cmd_pfmerge c) = c_out c @ a_ok"
proof -
  let ?keys = "drop 1 (c_argv c)" and ?k = "arg c 1"
  have "c_argv c ! 1 = ?keys ! 0" "0 < length ?keys" using assms(3) by (simp_all add: argc_def)
  then have in1: "?k \<in> set ?keys" unfolding arg_def by (metis nth_mem)
  from pf_lookup [OF assms(1), of ?k "S ?k"] assms(2) in1 obtain c1 where
    c1: "snd (db_lookup ?k c) = c1" "ok c1" "view c1 = view c" "c_out c1 = c_out c" "c_argv c1 = c_argv c"
      "case fst (db_lookup ?k c) of None \<Rightarrow> S ?k = {}
       | Some p \<Rightarrow> obj_type (obj_at c1 p) = T_String \<and> str_at c1 p = hll_of (S ?k)" by blast
  have reg: "\<forall>k\<in>set ?keys. pf_regs c1 k (S k)" using assms(2) c1(3) by (simp add: pf_regs_def)
  have fin: "finite (S ?k)" using assms(2) in1 by (auto simp: pf_regs_def)
  from pf_merge_fold_regs [OF c1(2) fin reg] obtain c2 where
    c2: "foldl pf_merge_step (hll_of (S ?k), c1) ?keys = (hll_of (S ?k \<union> (\<Union>k\<in>set ?keys. S k)), c2)" "ok c2"
      "view c2 = view c" "c_out c2 = c_out c" using c1 by auto
  have un: "S ?k \<union> (\<Union>k\<in>set ?keys. S k) = (\<Union>k\<in>set ?keys. S k)" using in1 by auto
  let ?merged = "hll_of (\<Union>k\<in>set ?keys. S k)"
  have "cmd_pfmerge c = r_simple_string ''OK'' (mark_dirty (snd (db_set ?k (StrObj ?merged) c2)))"
    using c1(1,6) c2(1) [unfolded un] unfolding cmd_pfmerge_def
    by (cases "fst (db_lookup ?k c)") (simp_all add: split_beta hll_of_empty [symmetric])
  moreover have "view (snd (db_set ?k (StrObj ?merged) c2)) = (view c)(?k \<mapsto> (AStr ?merged, None))"
    using c2(2,3) db_set [of "c_db c2" "StrObj ?merged" ?k] by (simp add: view_def ok_def db_set_eq)
  ultimately show ?thesis
    using c2(4) by (simp add: reply_eqs mark_dirty_def view_def db_set_eq a_ok_def)
qed

subsection \<open>Adding elements\<close>

lemma hll_of_between:
  assumes "finite U" "S \<subseteq> T" "T \<subseteq> U" "hll_of S = hll_of U"
  shows "hll_of T = hll_of S"
proof (rule hll_eqI [symmetric, of _ T])
  have fin: "finite S" "finite T" using assms by (auto intro: finite_subset)
  fix i
  assume i: "i < kRegisters"
  have "hll_reg S i = hll_reg U i" using hll_of_nth [OF fin(1) i] hll_of_nth [OF assms(1) i] assms(4) by simp
  moreover have "hll_reg S i \<le> hll_reg T i" "hll_reg T i \<le> hll_reg U i"
    using hll_reg_union [of S T i] hll_reg_union [of T U i] fin assms(1,2,3) by (auto simp: Un_absorb1)
  ultimately show "byte_val (hll_of S ! i) = hll_reg T i" using hll_of_nth [OF fin(1) i] by simp
qed (use assms in \<open>auto intro: finite_subset\<close>)

lemma pf_add_changed:
  "finite S \<Longrightarrow> snd (foldl pf_add_step (hll_of S, b) xs) \<longleftrightarrow> b \<or> hll_of (S \<union> set xs) \<noteq> hll_of S"
proof (induction xs arbitrary: S b)
  case (Cons x xs)
  let ?U = "S \<union> set (x # xs)"
  have "pf_add_step (hll_of S, b) x = (hll_of (insert x S), b \<or> hll_of (insert x S) \<noteq> hll_of S)"
    using hll_add_of [OF Cons.prems, of x] by (simp add: pf_add_step_def split_beta)
  then have "snd (foldl pf_add_step (hll_of S, b) (x # xs)) \<longleftrightarrow>
      b \<or> hll_of (insert x S) \<noteq> hll_of S \<or> hll_of ?U \<noteq> hll_of (insert x S)"
    using Cons.IH [of "insert x S"] Cons.prems by auto
  moreover have "hll_of ?U = hll_of S \<Longrightarrow> hll_of (insert x S) = hll_of S"
    by (rule hll_of_between [of ?U]) (use Cons.prems in auto)
  ultimately show ?case by metis
qed simp

lemma pfadd_regs:
  assumes "ok c" "pf_regs c (arg c 1) S"
  defines "T \<equiv> S \<union> set (drop 2 (c_argv c))"
  defines "changed \<equiv> view c (arg c 1) = None \<or> hll_of T \<noteq> hll_of S"
  shows "view (cmd_pfadd c) = (if changed then (view c)(arg c 1 \<mapsto> (AStr (hll_of T), None)) else view c) \<and>
    c_out (cmd_pfadd c) = c_out c @ a_integer (if changed then 1 else 0)"
proof -
  let ?xs = "drop 2 (c_argv c)" and ?k = "arg c 1"
  have fin: "finite S" using assms(2) by (simp add: pf_regs_def)
  have fold: "foldl pf_add_step (hll_of S, b) ?xs = (hll_of T, b \<or> hll_of T \<noteq> hll_of S)" for b
    using pf_add_of [OF fin, of b ?xs] pf_add_changed [OF fin, of b ?xs] by (simp add: T_def prod_eq_iff)
  have pk: "peek c ?k = view c ?k" using assms(2) by (auto simp: pf_regs_def peek_def live_def)
  have "spec_pfadd ?xs (view c ?k) =
      (if changed then (Some (AStr (hll_of T), None), a_integer 1, True) else (view c ?k, a_integer 0, False))"
    using assms(2) fold [of True] fold [of False]
    by (auto simp: spec_pfadd_def pf_regs_def changed_def Let_def hll_of_empty [symmetric])
  then show ?thesis using cmd_pfadd_runs [OF assms(1)] pk by (auto simp: runs_def)
qed

end
