(* ===== verification/Cmd_Run.thy ===== *)
theory Cmd_Run
  imports Cmd_Vector Cmd_Float Cmd_Hll Cmd_Server
begin

section \<open>Running a command of the table\<close>

text \<open>
  The call \<^verbatim>\<open>spec->fn(ctx)\<close>: which handler each table entry names. A handler sees the context and the
  shard's vector indexes; what it needs of the C library, the processor and the rest of the server is
  one record. The theorem of this theory is that every command run with the number of arguments the
  table asks for is sound.
\<close>

record run_env =
  re_fp :: fp
  re_fpu :: fpu
  re_estimate :: "bytes \<Rightarrow> u64"
  re_view :: server_view

fun run_strings :: "run_env \<Rightarrow> StringFn \<Rightarrow> ctx \<Rightarrow> ctx" where
  "run_strings E F_get = cmd_get"
| "run_strings E F_set = cmd_set"
| "run_strings E F_setnx = cmd_setnx"
| "run_strings E F_setex = cmd_setex"
| "run_strings E F_getset = cmd_getset"
| "run_strings E F_append = cmd_append"
| "run_strings E F_strlen = cmd_strlen"
| "run_strings E F_incr = cmd_incr"
| "run_strings E F_decr = cmd_decr"
| "run_strings E F_incrby = cmd_incrby"
| "run_strings E F_decrby = cmd_decrby"
| "run_strings E F_incrbyfloat = cmd_incrbyfloat (re_fp E)"
| "run_strings E F_mget = cmd_mget"
| "run_strings E F_mset = cmd_mset"
| "run_strings E F_getrange = cmd_getrange"
| "run_strings E F_setrange = cmd_setrange"

fun run_generic :: "GenericFn \<Rightarrow> ctx \<Rightarrow> ctx" where
  "run_generic F_del = cmd_del"
| "run_generic F_unlink = cmd_unlink"
| "run_generic F_exists = cmd_exists"
| "run_generic F_expire = cmd_expire"
| "run_generic F_pexpire = cmd_pexpire"
| "run_generic F_expireat = cmd_expireat"
| "run_generic F_ttl = cmd_ttl"
| "run_generic F_pttl = cmd_pttl"
| "run_generic F_persist = cmd_persist"
| "run_generic F_type = cmd_type"
| "run_generic F_keys = cmd_keys"
| "run_generic F_scan = cmd_scan"
| "run_generic F_rename = cmd_rename"
| "run_generic F_randomkey = cmd_randomkey"
| "run_generic F_object = cmd_object"

fun run_hashes :: "HashFn \<Rightarrow> ctx \<Rightarrow> ctx" where
  "run_hashes F_hset = cmd_hset"
| "run_hashes F_hget = cmd_hget"
| "run_hashes F_hdel = cmd_hdel"
| "run_hashes F_hexists = cmd_hexists"
| "run_hashes F_hgetall = cmd_hgetall"
| "run_hashes F_hkeys = cmd_hkeys"
| "run_hashes F_hvals = cmd_hvals"
| "run_hashes F_hlen = cmd_hlen"
| "run_hashes F_hincrby = cmd_hincrby"
| "run_hashes F_hmget = cmd_hmget"

fun run_lists :: "ListFn \<Rightarrow> ctx \<Rightarrow> ctx" where
  "run_lists F_lpush = cmd_lpush"
| "run_lists F_rpush = cmd_rpush"
| "run_lists F_lpop = cmd_lpop"
| "run_lists F_rpop = cmd_rpop"
| "run_lists F_llen = cmd_llen"
| "run_lists F_lrange = cmd_lrange"
| "run_lists F_lindex = cmd_lindex"
| "run_lists F_lset = cmd_lset"

fun run_sets :: "SetFn \<Rightarrow> ctx \<Rightarrow> ctx" where
  "run_sets F_sadd = cmd_sadd"
| "run_sets F_srem = cmd_srem"
| "run_sets F_sismember = cmd_sismember"
| "run_sets F_scard = cmd_scard"
| "run_sets F_smembers = cmd_smembers"
| "run_sets F_spop = cmd_spop"

fun run_zsets :: "run_env \<Rightarrow> ZSetFn \<Rightarrow> ctx \<Rightarrow> ctx" where
  "run_zsets E F_zadd = cmd_zadd (re_fp E)"
| "run_zsets E F_zrem = cmd_zrem"
| "run_zsets E F_zscore = cmd_zscore (re_fp E)"
| "run_zsets E F_zcard = cmd_zcard"
| "run_zsets E F_zrank = cmd_zrank"
| "run_zsets E F_zrange = cmd_zrange (re_fp E)"
| "run_zsets E F_zrangebyscore = cmd_zrangebyscore (re_fp E)"
| "run_zsets E F_zincrby = cmd_zincrby (re_fp E)"

fun run_hll :: "run_env \<Rightarrow> HllFn \<Rightarrow> ctx \<Rightarrow> ctx" where
  "run_hll E F_pfadd = cmd_pfadd"
| "run_hll E F_pfcount = cmd_pfcount (re_estimate E)"
| "run_hll E F_pfmerge = cmd_pfmerge"

fun run_vector :: "run_env \<Rightarrow> VectorFn \<Rightarrow> vindex \<Rightarrow> ctx \<Rightarrow> ctx \<times> vindex" where
  "run_vector E F_vadd vx c = cmd_vadd (re_fp E) (re_fpu E) vx c"
| "run_vector E F_vsim vx c = (cmd_vsim (re_fp E) (re_fpu E) vx c, vx)"
| "run_vector E F_vcard vx c = (cmd_vcard vx c, vx)"
| "run_vector E F_vrem vx c = cmd_vrem vx c"

text \<open>FLUSHALL and FLUSHDB also clear the vector indexes (\<^verbatim>\<open>Shard::flush\<close>).\<close>

fun run_server :: "run_env \<Rightarrow> ServerFn \<Rightarrow> vindex \<Rightarrow> ctx \<Rightarrow> ctx \<times> vindex" where
  "run_server E F_ping vx c = (cmd_ping c, vx)"
| "run_server E F_echo vx c = (cmd_echo c, vx)"
| "run_server E F_select vx c = (cmd_select c, vx)"
| "run_server E F_command vx c = (cmd_command c, vx)"
| "run_server E F_info vx c = (cmd_info (re_view E) c, vx)"
| "run_server E F_dbsize vx c = (cmd_dbsize (re_view E) c, vx)"
| "run_server E F_flushall vx c = (cmd_flushall c, Map.empty)"
| "run_server E F_flushdb vx c = (cmd_flushdb c, Map.empty)"
| "run_server E F_config vx c = (cmd_config (re_view E) c, vx)"
| "run_server E F_hello vx c = (cmd_hello (re_view E) c, vx)"
| "run_server E F_client vx c = (cmd_client c, vx)"
| "run_server E F_reset vx c = (cmd_reset c, vx)"
| "run_server E F_debug vx c = (cmd_debug c, vx)"
| "run_server E F_wait vx c = (cmd_wait c, vx)"

fun run_fn :: "run_env \<Rightarrow> CommandFn \<Rightarrow> vindex \<Rightarrow> ctx \<Rightarrow> ctx \<times> vindex" where
  "run_fn E (Fn_strings f) vx c = (run_strings E f c, vx)"
| "run_fn E (Fn_generic f) vx c = (run_generic f c, vx)"
| "run_fn E (Fn_hashes f) vx c = (run_hashes f c, vx)"
| "run_fn E (Fn_lists f) vx c = (run_lists f c, vx)"
| "run_fn E (Fn_sets f) vx c = (run_sets f c, vx)"
| "run_fn E (Fn_zsets f) vx c = (run_zsets E f c, vx)"
| "run_fn E (Fn_hyperloglog f) vx c = (run_hll E f c, vx)"
| "run_fn E (Fn_vector f) vx c = run_vector E f vx c"
| "run_fn E (Fn_server f) vx c = run_server E f vx c"

fun is_flush :: "CommandFn \<Rightarrow> bool" where
  "is_flush (Fn_server F_flushall) = True"
| "is_flush (Fn_server F_flushdb) = True"
| "is_flush _ = False"

subsection \<open>The arguments the table grants\<close>

fun min_args :: "CommandFn \<Rightarrow> nat" where
  "min_args (Fn_lists F_lpush) = 3"
| "min_args (Fn_lists F_rpush) = 3"
| "min_args (Fn_sets F_sadd) = 3"
| "min_args (Fn_hashes F_hset) = 4"
| "min_args (Fn_hashes F_hmget) = 2"
| "min_args _ = 0"

lemma table_min_args: "\<forall>s\<in>set command_table. int (min_args (cs_fn s)) \<le> \<bar>cs_arity s\<bar>"
  by (simp add: command_table_def command_spec_def)

lemma find_command_table: "find_command name = Some s \<Longrightarrow> s \<in> set command_table \<and> cs_name s = name"
  by (auto simp: find_command_def find_Some_iff)

lemma arity_min_args: "s \<in> set command_table \<Longrightarrow> arity_ok s n \<Longrightarrow> min_args (cs_fn s) \<le> n"
  using table_min_args by (fastforce simp: arity_ok_def split: if_splits)

subsection \<open>Every command is sound\<close>

text \<open>The one command that can leave a change unmarked is ZADD with a score that does not parse.\<close>

fun scores_ok :: "run_env \<Rightarrow> CommandFn \<Rightarrow> bytes list \<Rightarrow> bool" where
  "scores_ok E (Fn_zsets F_zadd) argv = zadd_scores_parse (re_fp E) argv"
| "scores_ok E _ argv = True"

lemma run_plain_sound:
  assumes "ready c"
  shows "\<not> c_ub (run_strings E f1 c) \<Longrightarrow> sound c (run_strings E f1 c)"
    "sound c (run_generic f2 c)"
    "min_args (Fn_hashes f3) \<le> argc c \<Longrightarrow> \<not> c_ub (run_hashes f3 c) \<Longrightarrow> sound c (run_hashes f3 c)"
    "min_args (Fn_lists f4) \<le> argc c \<Longrightarrow> sound c (run_lists f4 c)"
    "min_args (Fn_sets f5) \<le> argc c \<Longrightarrow> sound c (run_sets f5 c)"
    "scores_ok E (Fn_zsets f6) (c_argv c) \<Longrightarrow> sound c (run_zsets E f6 c)"
    "sound c (run_hll E f7 c)"
proof -
  note all = sound_single [OF assms] sound_incrby [OF assms] sound_arity [OF assms] sound_enumerations [OF assms]
    sound_deadlines [OF assms] sound_multi_reads [OF assms] sound_writes [OF assms] sound_rename [OF assms]
    sound_lists [OF assms] sound_ttl [OF assms] sound_set [OF assms] sound_hll [OF assms] sound_zsets [OF assms]
    sound_incrbyfloat [OF assms]
  show "\<not> c_ub (run_strings E f1 c) \<Longrightarrow> sound c (run_strings E f1 c)" by (cases f1) (simp_all add: all)
  show "sound c (run_generic f2 c)" by (cases f2) (simp_all add: all)
  show "min_args (Fn_hashes f3) \<le> argc c \<Longrightarrow> \<not> c_ub (run_hashes f3 c) \<Longrightarrow> sound c (run_hashes f3 c)"
    by (cases f3) (simp_all add: all sound_hincrby [OF assms])
  show "min_args (Fn_lists f4) \<le> argc c \<Longrightarrow> sound c (run_lists f4 c)" by (cases f4) (simp_all add: all)
  show "min_args (Fn_sets f5) \<le> argc c \<Longrightarrow> sound c (run_sets f5 c)" by (cases f5) (simp_all add: all)
  show "scores_ok E (Fn_zsets f6) (c_argv c) \<Longrightarrow> sound c (run_zsets E f6 c)"
    by (cases f6) (simp_all add: all sound_zadd [OF assms])
  show "sound c (run_hll E f7 c)" by (cases f7) (simp_all add: all)
qed

lemma run_server_sound:
  assumes "ok c" "\<not> is_flush (Fn_server f)"
  shows "sound c (fst (run_server E f vx c))" "snd (run_server E f vx c) = vx"
  using assms(2) by (cases f; simp add: sound_says [OF assms(1) says_server(1)] sound_says [OF assms(1) says_server(2)]
      sound_says [OF assms(1) says_server(3)] sound_says [OF assms(1) says_server(4)]
      sound_says [OF assms(1) says_server(5)] sound_says [OF assms(1) says_server(6)]
      sound_says [OF assms(1) says_server(7)] sound_says [OF assms(1) says_server(8)]
      sound_says [OF assms(1) says_server(9)] sound_says [OF assms(1) says_server(10)]
      sound_says [OF assms(1) says_server(11)] sound_says [OF assms(1) says_server(12)])+

lemma run_vector_sound:
  assumes "ok c" "vindex_ok vx" "sorts (re_fpu E)"
  shows "sound c (fst (run_vector E f vx c)) \<and> vindex_ok (snd (run_vector E f vx c))"
  using sound_vectors [OF assms] assms(2) by (cases f) simp_all

text \<open>Where the environment satisfies its laws and the handler ran into no undefined behaviour.\<close>

lemma run_fn_sound:
  assumes "ready c" "vindex_ok vx" "sorts (re_fpu E)" "min_args f \<le> argc c" "scores_ok E f (c_argv c)"
    "\<not> is_flush f" "\<not> c_ub (fst (run_fn E f vx c))"
  shows "sound c (fst (run_fn E f vx c)) \<and> vindex_ok (snd (run_fn E f vx c))"
proof (cases f)
  case (Fn_strings g)
  then show ?thesis using run_plain_sound(1) [OF assms(1), of E g] assms(2,7) by simp
next
  case (Fn_generic g)
  then show ?thesis using run_plain_sound(2) [OF assms(1), of g] assms(2) by simp
next
  case (Fn_hashes g)
  then show ?thesis using run_plain_sound(3) [OF assms(1), of g] assms(2,4,7) by simp
next
  case (Fn_lists g)
  then show ?thesis using run_plain_sound(4) [OF assms(1), of g] assms(2,4) by simp
next
  case (Fn_sets g)
  then show ?thesis using run_plain_sound(5) [OF assms(1), of g] assms(2,4) by simp
next
  case (Fn_zsets g)
  then show ?thesis using run_plain_sound(6) [OF assms(1), of E g] assms(2,5) by simp
next
  case (Fn_hyperloglog g)
  then show ?thesis using run_plain_sound(7) [OF assms(1), of E g] assms(2) by simp
next
  case (Fn_vector g)
  then show ?thesis using run_vector_sound [OF readyD(1) [OF assms(1)] assms(2,3), of g] by simp
next
  case (Fn_server g)
  then show ?thesis using run_server_sound [OF readyD(1) [OF assms(1)], of g E vx] assms(2,6) by simp
qed

lemma run_flush:
  assumes "ok c" "is_flush f"
  shows "ok (fst (run_fn E f vx c))" "view (fst (run_fn E f vx c)) = Map.empty" "snd (run_fn E f vx c) = Map.empty"
  using assms(2) cmd_flush_correct [OF assms(1)] by (cases f rule: is_flush.cases; simp)+

end
