(* ===== verification/Aof.thy ===== *)
theory Aof
  imports Kv_Prelude
begin

section \<open>The append-only log (\<^verbatim>\<open>include/blazekv/persist.hpp\<close>, \<^verbatim>\<open>src/persist/aof.cpp\<close>)\<close>

text \<open>
  The log of one shard with the file behind it. The operating system is part of the state: the content
  of the file, how much of it the last \<open>fdatasync\<close> covered, and what the calls of \<open>write\<close> will return.
  A run of the write loop that ends is described by a finite list of results, each a short write, an
  interruption or an error; when the list is used up the next call writes all that is left. (A loop
  that is interrupted for ever has no such list.)
\<close>

datatype FsyncPolicy = Always | EverySec | No

datatype write_result = Wrote nat | Interrupted | Failed

record aof =
  a_open :: bool
  a_policy :: FsyncPolicy
  a_buf :: bytes
  a_bytes_written :: u64
  a_last_fsync_ms :: u64
  a_dirty_since_fsync :: bool
  a_file :: bytes
  a_durable :: nat
  a_writes :: "nat \<Rightarrow> write_result list"
  a_flushes :: nat

text \<open>The loop of \<open>flush\<close>: what is left, and the file and the counter after it.\<close>

fun write_loop :: "write_result list \<Rightarrow> bytes \<Rightarrow> bytes \<times> u64 \<Rightarrow> bytes \<times> u64" where
  "write_loop [] rest (fl, n) = (fl @ rest, n + word_of_nat (length rest))"
| "write_loop (r # rs) rest (fl, n) =
     (if rest = [] then (fl, n)
      else case r of
             Wrote k \<Rightarrow>
               (let k = min k (length rest)
                in write_loop rs (drop k rest) (fl @ take k rest, n + word_of_nat k))
           | Interrupted \<Rightarrow> write_loop rs rest (fl, n)
           | Failed \<Rightarrow> (fl, n))"

definition aof_flush :: "aof \<Rightarrow> aof" where
  "aof_flush a =
     (if \<not> a_open a \<or> a_buf a = [] then a
      else let (fl, n) = write_loop (a_writes a (a_flushes a)) (a_buf a) (a_file a, a_bytes_written a)
           in a\<lparr>a_buf := [], a_file := fl, a_bytes_written := n, a_flushes := a_flushes a + 1\<rparr>)"

definition do_fsync :: "aof \<Rightarrow> aof" where
  "do_fsync a = (if \<not> a_open a then a else a\<lparr>a_dirty_since_fsync := False, a_durable := length (a_file a)\<rparr>)"

text \<open>\<open>open\<close>: whether the system call succeeds is given; the file keeps what it holds (\<open>O_APPEND\<close>).\<close>

definition aof_open :: "bool \<Rightarrow> FsyncPolicy \<Rightarrow> u64 \<Rightarrow> aof \<Rightarrow> bool \<times> aof" where
  "aof_open success policy now a =
     (let a1 = a\<lparr>a_policy := policy, a_open := success\<rparr>
      in if \<not> success then (False, a1) else (True, a1\<lparr>a_last_fsync_ms := now\<rparr>))"

definition aof_append :: "bytes \<Rightarrow> aof \<Rightarrow> aof" where
  "aof_append encoded a =
     (if \<not> a_open a then a
      else
        let a1 = a\<lparr>a_buf := a_buf a @ encoded\<rparr>;
            a2 = (if length (a_buf a1) \<ge> 16 * 1024 \<or> a_policy a1 = Always then aof_flush a1 else a1);
            a3 = a2\<lparr>a_dirty_since_fsync := True\<rparr>
        in if a_policy a3 = Always then do_fsync a3 else a3)"

definition aof_tick :: "u64 \<Rightarrow> aof \<Rightarrow> aof" where
  "aof_tick now a =
     (if \<not> a_open a then a
      else if a_policy a = EverySec \<and> a_dirty_since_fsync a \<and> now - a_last_fsync_ms a \<ge> 1000
      then (do_fsync (aof_flush a))\<lparr>a_last_fsync_ms := now\<rparr>
      else a)"

definition aof_close :: "aof \<Rightarrow> aof" where
  "aof_close a = (if a_open a then (do_fsync (aof_flush a))\<lparr>a_open := False\<rparr> else a)"

text \<open>\<open>reset_file\<close>: the old file is unlinked, a new one is empty.\<close>

definition reset_file :: "bool \<Rightarrow> u64 \<Rightarrow> aof \<Rightarrow> aof" where
  "reset_file success now a =
     (let a1 = aof_close a
      in snd (aof_open success (a_policy a1) now (a1\<lparr>a_file := [], a_durable := 0\<rparr>)))"

subsection \<open>What is in the log\<close>

text \<open>The bytes handed to the log so far: in the file, or still in the buffer.\<close>

definition logged :: "aof \<Rightarrow> bytes" where
  "logged a = a_file a @ a_buf a"

text \<open>Writes that do not fail lose nothing, however short and however often interrupted.\<close>

definition no_failures :: "aof \<Rightarrow> bool" where
  "no_failures a \<longleftrightarrow> (\<forall>i. Failed \<notin> set (a_writes a i))"

lemma min_plus_diff: "(word_of_nat (min k n) :: u64) + word_of_nat (n - k) = word_of_nat n"
  by (cases "k \<le> n") (simp_all flip: of_nat_add)

lemma write_loop_all:
  "Failed \<notin> set rs \<Longrightarrow> write_loop rs rest (fl, n) = (fl @ rest, n + word_of_nat (length rest))"
proof (induction rs arbitrary: rest fl n)
  case (Cons r rs)
  then show ?case by (cases r) (auto simp: Let_def add.assoc min_plus_diff)
qed simp

text \<open>In general a prefix of the buffer reaches the file.\<close>

lemma write_loop_prefix: "\<exists>k. fst (write_loop rs rest (fl, n)) = fl @ take k rest"
proof (induction rs arbitrary: rest fl n)
  case Nil
  then show ?case by (intro exI [of _ "length rest"]) simp
next
  case (Cons r rs)
  show ?case
  proof (cases "rest = [] \<or> r = Failed")
    case True
    then have "fst (write_loop (r # rs) rest (fl, n)) = fl @ take 0 rest" by auto
    then show ?thesis by blast
  next
    case False
    show ?thesis
    proof (cases r)
      case (Wrote k)
      let ?k = "min k (length rest)"
      from Cons.IH [of "drop ?k rest" "fl @ take ?k rest" "n + word_of_nat ?k"] obtain j where
        "fst (write_loop (r # rs) rest (fl, n)) = fl @ take ?k rest @ take j (drop ?k rest)"
        using False Wrote by (auto simp: Let_def)
      then show ?thesis by (metis take_add)
    qed (use False Cons.IH in auto)
  qed
qed

lemma flush_fields [simp]:
  "a_open (aof_flush a) = a_open a" "a_policy (aof_flush a) = a_policy a" "a_writes (aof_flush a) = a_writes a"
  "a_durable (aof_flush a) = a_durable a" "a_dirty_since_fsync (aof_flush a) = a_dirty_since_fsync a"
  "a_last_fsync_ms (aof_flush a) = a_last_fsync_ms a"
  by (simp_all add: aof_flush_def split_beta)

lemma fsync_fields [simp]:
  "a_open (do_fsync a) = a_open a" "a_policy (do_fsync a) = a_policy a" "a_writes (do_fsync a) = a_writes a"
  "a_file (do_fsync a) = a_file a" "a_buf (do_fsync a) = a_buf a" "logged (do_fsync a) = logged a"
  by (simp_all add: do_fsync_def logged_def)

lemma flush_logged: "no_failures a \<Longrightarrow> logged (aof_flush a) = logged a"
  by (simp add: aof_flush_def logged_def no_failures_def write_loop_all)

lemma flush_buf: "a_open a \<Longrightarrow> a_buf (aof_flush a) = []"
  by (simp add: aof_flush_def split_beta)

lemma logged_upd [simp]:
  "logged (a\<lparr>a_dirty_since_fsync := b\<rparr>) = logged a" "logged (a\<lparr>a_last_fsync_ms := t\<rparr>) = logged a"
  "logged (a\<lparr>a_open := o'\<rparr>) = logged a" "logged (a\<lparr>a_buf := a_buf a @ e\<rparr>) = logged a @ e"
  by (simp_all add: logged_def)

lemma no_failures_upd [simp]:
  "no_failures (aof_flush a) = no_failures a" "no_failures (do_fsync a) = no_failures a"
  "no_failures (a\<lparr>a_buf := b\<rparr>) = no_failures a" "no_failures (a\<lparr>a_dirty_since_fsync := d\<rparr>) = no_failures a"
  "no_failures (a\<lparr>a_last_fsync_ms := t\<rparr>) = no_failures a" "no_failures (a\<lparr>a_open := o'\<rparr>) = no_failures a"
  by (simp_all add: no_failures_def)

lemma append_logged:
  assumes "no_failures a" "a_open a"
  shows "logged (aof_append e a) = logged a @ e"
proof -
  let ?a1 = "a\<lparr>a_buf := a_buf a @ e\<rparr>"
  have "logged (if P then aof_flush ?a1 else ?a1) = logged a @ e" for P
    using flush_logged [of ?a1] assms(1) by simp
  then show ?thesis using assms(2) by (simp add: aof_append_def Let_def)
qed

lemma append_keeps [simp]:
  "a_open (aof_append e a) = a_open a" "no_failures (aof_append e a) = no_failures a"
  "a_policy (aof_append e a) = a_policy a"
  by (simp_all add: aof_append_def Let_def)

lemma tick_keeps [simp]:
  "a_open (aof_tick now a) = a_open a" "no_failures (aof_tick now a) = no_failures a"
  "a_policy (aof_tick now a) = a_policy a"
  by (simp_all add: aof_tick_def)

lemma tick_logged: "no_failures a \<Longrightarrow> logged (aof_tick now a) = logged a"
  by (simp add: aof_tick_def flush_logged)

lemma close_file: "no_failures a \<Longrightarrow> a_open a \<Longrightarrow> a_file (aof_close a) = logged a \<and> a_durable (aof_close a) = length (logged a)"
  using flush_logged [of a] flush_buf [of a] by (simp add: aof_close_def do_fsync_def logged_def)

text \<open>With the policy Always every appended command is durable when \<open>append\<close> returns.\<close>

definition all_durable :: "aof \<Rightarrow> bool" where
  "all_durable a \<longleftrightarrow> a_buf a = [] \<and> a_durable a = length (a_file a)"

lemma append_always_durable:
  assumes "a_open a" "a_policy a = Always"
  shows "all_durable (aof_append e a)"
  using assms flush_buf [of "a\<lparr>a_buf := a_buf a @ e\<rparr>"]
  by (simp add: aof_append_def Let_def do_fsync_def all_durable_def)

text \<open>With EverySec a tick that comes a second or more after the last one leaves nothing behind.\<close>

lemma tick_everysec_durable:
  assumes "a_open a" "a_policy a = EverySec" "a_dirty_since_fsync a" "now - a_last_fsync_ms a \<ge> 1000"
  shows "all_durable (aof_tick now a)"
  using assms flush_buf [of a] by (simp add: aof_tick_def do_fsync_def all_durable_def)

text \<open>A failed write in the middle: the rest of the buffer is dropped and later commands follow the torn one.\<close>

lemma failed_write_leaves_hole:
  assumes "a_open a" "a_policy a = Always" "a_buf a = []" "k < length e" "0 < k"
    "a_writes a (a_flushes a) = [Wrote k, Failed]" "a_writes a (Suc (a_flushes a)) = []"
  shows "a_file (aof_append e2 (aof_append e a)) = a_file a @ take k e @ e2"
proof -
  have e: "e \<noteq> []" "drop k e \<noteq> []" "min k (length e) = k" using assms(4,5) by auto
  let ?b = "aof_append e a"
  have b: "a_file ?b = a_file a @ take k e" "a_buf ?b = []" "a_flushes ?b = Suc (a_flushes a)"
    using assms e by (simp_all add: aof_append_def aof_flush_def do_fsync_def Let_def)
  have "a_open ?b" "a_policy ?b = Always" "a_writes ?b = a_writes a"
    using assms by (simp_all add: aof_append_def Let_def)
  then have "a_file (aof_append e2 ?b) = a_file ?b @ e2"
    using b assms(7) by (simp add: aof_append_def aof_flush_def do_fsync_def Let_def)
  then show ?thesis using b by simp
qed

text \<open>Several appends in a row.\<close>

lemma appends_logged:
  assumes "no_failures a" "a_open a"
  shows "logged (foldl (\<lambda>a e. aof_append e a) a es) = logged a @ concat es \<and>
    no_failures (foldl (\<lambda>a e. aof_append e a) a es) \<and> a_open (foldl (\<lambda>a e. aof_append e a) a es)"
  using assms by (induction es arbitrary: a) (simp_all add: append_logged)

end
