(* ===== verification/Metrics.thy ===== *)
theory Metrics
  imports Numeric
begin

section \<open>Metrics (\<^verbatim>\<open>include/blazekv/metrics.hpp\<close>, \<^verbatim>\<open>src/metrics/metrics.cpp\<close>)\<close>

text \<open>
  The latency histogram and the counters of a shard. The bucket bounds come from \<open>pow\<close> and products of
  doubles; they are a parameter: the list of the \<open>kBuckets + 1\<close> bounds, with the conversions between
  integers and doubles. Counters are 64-bit and wrap around.
\<close>

record float_env =
  fe_bounds :: "dbl list"
  fe_of_u64 :: "u64 \<Rightarrow> dbl"
  fe_to_u64 :: "dbl \<Rightarrow> u64"
  fe_rank :: "dbl \<Rightarrow> u64 \<Rightarrow> u64"
  fe_div :: "dbl \<Rightarrow> dbl \<Rightarrow> dbl"

text \<open>\<open>fe_rank p total\<close> is \<open>ceil(p * total)\<close>.\<close>

definition kBuckets :: nat where "kBuckets = 512"

record histogram =
  lh_counts :: "u64 list"
  lh_total :: u64
  lh_sum :: u64
  lh_max :: u64

definition lh_new :: histogram where
  "lh_new = \<lparr>lh_counts = replicate kBuckets 0, lh_total = 0, lh_sum = 0, lh_max = 0\<rparr>"

text \<open>\<open>upper_bound\<close> over all bounds but the last: the number of bounds up to the first one above.\<close>

definition bucket_for :: "float_env \<Rightarrow> u64 \<Rightarrow> nat" where
  "bucket_for E micros =
     (let idx = length (takeWhile (\<lambda>b. \<not> d_lt (fe_of_u64 E micros) b) (take kBuckets (fe_bounds E)))
      in if idx \<ge> kBuckets then kBuckets - 1 else idx)"

definition lh_record :: "float_env \<Rightarrow> u64 \<Rightarrow> histogram \<Rightarrow> histogram" where
  "lh_record E micros h =
     (let b = bucket_for E micros
      in h\<lparr>lh_counts := (lh_counts h)[b := lh_counts h ! b + 1], lh_total := lh_total h + 1,
           lh_sum := lh_sum h + micros, lh_max := (if micros > lh_max h then micros else lh_max h)\<rparr>)"

text \<open>The scan for the first bucket at which the count so far reaches the target.\<close>

fun percentile_scan :: "u64 list \<Rightarrow> nat \<Rightarrow> u64 \<Rightarrow> u64 \<Rightarrow> nat option" where
  "percentile_scan [] i cumulative target = None"
| "percentile_scan (c # cs) i cumulative target =
     (if cumulative + c \<ge> target then Some i else percentile_scan cs (Suc i) (cumulative + c) target)"

definition percentile :: "float_env \<Rightarrow> dbl \<Rightarrow> histogram \<Rightarrow> u64" where
  "percentile E p h =
     (if lh_total h = 0 then 0
      else case percentile_scan (lh_counts h) 0 0 (fe_rank E p (lh_total h)) of
             Some i \<Rightarrow> fe_to_u64 E (fe_bounds E ! (i + 1))
           | None \<Rightarrow> lh_max h)"

definition mean_us :: "float_env \<Rightarrow> histogram \<Rightarrow> dbl" where
  "mean_us E h = (if lh_total h = 0 then d_zero else fe_div E (fe_of_u64 E (lh_sum h)) (fe_of_u64 E (lh_total h)))"

definition d_million :: dbl where "d_million = 0x412E848000000000"

definition bucket_bound :: "float_env \<Rightarrow> int \<Rightarrow> dbl" where
  "bucket_bound E i =
     fe_div E (fe_bounds E ! nat (if i < 0 then 0 else if i > int kBuckets then int kBuckets else i)) d_million"

definition lh_reset :: "histogram \<Rightarrow> histogram" where
  "lh_reset h = h\<lparr>lh_counts := replicate kBuckets 0, lh_total := 0, lh_sum := 0, lh_max := 0\<rparr>"

record metrics =
  m_commands_total :: u64
  m_reads :: u64
  m_writes :: u64
  m_keyspace_hits :: u64
  m_keyspace_misses :: u64
  m_expired_keys :: u64
  m_connections_open :: u64
  m_connections_total :: u64
  m_net_input_bytes :: u64
  m_net_output_bytes :: u64
  m_cross_shard_ops :: u64
  m_keys :: u64
  m_expires :: u64
  m_memory_bytes :: u64
  m_latency :: histogram

definition metrics_new :: metrics where
  "metrics_new = \<lparr>m_commands_total = 0, m_reads = 0, m_writes = 0, m_keyspace_hits = 0, m_keyspace_misses = 0,
     m_expired_keys = 0, m_connections_open = 0, m_connections_total = 0, m_net_input_bytes = 0,
     m_net_output_bytes = 0, m_cross_shard_ops = 0, m_keys = 0, m_expires = 0, m_memory_bytes = 0,
     m_latency = lh_new\<rparr>"

definition observe :: "float_env \<Rightarrow> u64 \<Rightarrow> metrics \<Rightarrow> metrics" where
  "observe E micros m =
     m\<lparr>m_commands_total := m_commands_total m + 1, m_latency := lh_record E micros (m_latency m)\<rparr>"

subsection \<open>The histogram\<close>

text \<open>The total is the sum of the buckets, whatever was recorded.\<close>

definition lh_inv :: "histogram \<Rightarrow> bool" where
  "lh_inv h \<longleftrightarrow> length (lh_counts h) = kBuckets \<and> lh_total h = sum_list (lh_counts h)"

lemma bucket_for_less: "bucket_for E x < kBuckets"
  by (simp add: bucket_for_def Let_def kBuckets_def)

lemma lh_inv_new: "lh_inv lh_new"
  by (simp add: lh_inv_def lh_new_def sum_list_replicate)

lemma sum_list_bump: "i < length xs \<Longrightarrow> sum_list (xs[i := xs ! i + 1]) = sum_list xs + (1 :: u64)"
  by (induction xs arbitrary: i) (auto simp: nth_Cons' split: nat.split)

lemma lh_inv_record: "lh_inv h \<Longrightarrow> lh_inv (lh_record E x h)"
  using bucket_for_less [of E x] by (simp add: lh_inv_def lh_record_def Let_def sum_list_bump)

lemma lh_inv_reset: "lh_inv (lh_reset h)"
  by (simp add: lh_inv_def lh_reset_def sum_list_replicate)

text \<open>A recorded value lies below the bound of its bucket and not below the one before.\<close>

lemma bucket_for_bounds:
  assumes "length (fe_bounds E) = kBuckets + 1" "bucket_for E x = i" "i < kBuckets - 1"
  shows "d_lt (fe_of_u64 E x) (fe_bounds E ! i)" "\<forall>j<i. \<not> d_lt (fe_of_u64 E x) (fe_bounds E ! j)"
proof -
  let ?P = "\<lambda>b. \<not> d_lt (fe_of_u64 E x) b" and ?bs = "take kBuckets (fe_bounds E)"
  have i: "i = length (takeWhile ?P ?bs)" using assms(2,3) by (auto simp: bucket_for_def Let_def split: if_splits)
  have len: "length ?bs = kBuckets" using assms(1) by simp
  have lt: "length (takeWhile ?P ?bs) < length ?bs" using i assms(3) len by linarith
  have "\<not> ?P (?bs ! i)" using nth_length_takeWhile [OF lt] i by simp
  then show "d_lt (fe_of_u64 E x) (fe_bounds E ! i)" using assms(3) by simp
  show "\<forall>j<i. \<not> d_lt (fe_of_u64 E x) (fe_bounds E ! j)"
  proof (intro allI impI)
    fix j
    assume j: "j < i"
    then have "takeWhile ?P ?bs ! j = ?bs ! j" "j < kBuckets" using takeWhile_nth [of j ?P ?bs] i assms(3) by auto
    moreover have "takeWhile ?P ?bs ! j \<in> set (takeWhile ?P ?bs)" using j i by simp
    ultimately show "\<not> d_lt (fe_of_u64 E x) (fe_bounds E ! j)" by (auto dest: set_takeWhileD)
  qed
qed

text \<open>The scan stops at a bucket whose cumulative count reaches the target; earlier ones do not.\<close>

lemma percentile_scan_Some:
  "percentile_scan cs i a t = Some j \<Longrightarrow>
   i \<le> j \<and> j < i + length cs \<and> t \<le> a + sum_list (take (Suc (j - i)) cs) \<and>
   (\<forall>k<j - i. a + sum_list (take (Suc k) cs) < t)"
proof (induction cs arbitrary: i a)
  case (Cons c cs)
  show ?case
  proof (cases "a + c \<ge> t")
    case True
    then show ?thesis using Cons.prems by simp
  next
    case False
    then have ih: "Suc i \<le> j \<and> j < Suc i + length cs \<and> t \<le> a + c + sum_list (take (Suc (j - Suc i)) cs) \<and>
        (\<forall>k<j - Suc i. a + c + sum_list (take (Suc k) cs) < t)"
      using Cons.IH [of "Suc i" "a + c"] Cons.prems by simp
    have "j - i = Suc (j - Suc i)" using conjunct1 [OF ih] by simp
    moreover have "a + sum_list (take (Suc k) (c # cs)) < t" if "k < Suc (j - Suc i)" for k
      using that ih False by (cases k) (auto simp: add.assoc)
    ultimately show ?thesis using ih by (auto simp: add.assoc)
  qed
qed simp

lemma percentile_scan_total:
  "target \<le> a + sum_list cs \<Longrightarrow> cs \<noteq> [] \<Longrightarrow> percentile_scan cs i a target \<noteq> None"
proof (induction cs arbitrary: i a)
  case (Cons c cs)
  then show ?case by (cases "cs = []") (auto simp: add.assoc)
qed simp

text \<open>A higher target is reached no earlier.\<close>

lemma percentile_scan_mono:
  "percentile_scan cs i a t = Some j \<Longrightarrow> percentile_scan cs i a t' = Some j' \<Longrightarrow> t \<le> t' \<Longrightarrow> j \<le> j'"
proof (induction cs arbitrary: i a)
  case (Cons c cs)
  have "i \<le> j'" using percentile_scan_Some [OF Cons.prems(2)] by simp
  then show ?case using Cons by (auto split: if_splits)
qed simp

subsection \<open>What a sequence of records leaves\<close>

definition lh_of :: "float_env \<Rightarrow> u64 list \<Rightarrow> histogram" where
  "lh_of E xs = foldl (\<lambda>h x. lh_record E x h) lh_new xs"

definition up_to_bucket :: "float_env \<Rightarrow> nat \<Rightarrow> u64 list \<Rightarrow> nat" where
  "up_to_bucket E n xs = length (filter (\<lambda>x. bucket_for E x < n) xs)"

lemma lh_of_snoc [simp]: "lh_of E (xs @ [x]) = lh_record E x (lh_of E xs)"
  by (simp add: lh_of_def)

lemma sum_take_bump:
  "i < length xs \<Longrightarrow> sum_list (take n (xs[i := xs ! i + 1])) = sum_list (take n xs) + (if i < n then 1 else 0 :: u64)"
  using sum_list_bump [of i "take n xs"] by (cases "i < n") (simp_all add: take_update_swap list_update_beyond)

lemma lh_of_counts:
  "length (lh_counts (lh_of E xs)) = kBuckets \<and>
   sum_list (take n (lh_counts (lh_of E xs))) = of_nat (up_to_bucket E n xs)"
proof (induction xs rule: rev_induct)
  case Nil
  then show ?case by (simp add: lh_of_def lh_new_def up_to_bucket_def sum_list_replicate)
next
  case (snoc x xs)
  then show ?case using sum_take_bump [of "bucket_for E x" "lh_counts (lh_of E xs)" n] bucket_for_less [of E x]
    by (simp add: lh_record_def Let_def up_to_bucket_def)
qed

lemma lh_of_fields:
  "lh_total (lh_of E xs) = of_nat (length xs) \<and> lh_sum (lh_of E xs) = sum_list xs \<and>
   lh_max (lh_of E xs) = Max (insert 0 (set xs))"
proof (induction xs rule: rev_induct)
  case (snoc x xs)
  define M where "M = Max (insert 0 (set xs))"
  have "Max (insert 0 (set (xs @ [x]))) = max x M" by (simp add: insert_commute [of 0] M_def)
  moreover have "lh_max (lh_record E x (lh_of E xs)) = max x M"
    using snoc [folded M_def] by (auto simp: lh_record_def Let_def max_def)
  ultimately show ?case using snoc by (simp add: lh_record_def Let_def add.commute)
qed (simp add: lh_of_def lh_new_def)

lemma up_to_bucket_le: "up_to_bucket E n xs \<le> length xs"
  by (simp add: up_to_bucket_def)

lemma up_to_bucket_all: "up_to_bucket E kBuckets xs = length xs"
  by (simp add: up_to_bucket_def bucket_for_less)

lemma percentile_of:
  assumes "length xs < 2 ^ 64" "unat (fe_rank E p (of_nat (length xs))) \<le> length xs" "xs \<noteq> []"
  shows "\<exists>i<kBuckets. percentile E p (lh_of E xs) = fe_to_u64 E (fe_bounds E ! (i + 1)) \<and>
    unat (fe_rank E p (of_nat (length xs))) \<le> up_to_bucket E (i + 1) xs \<and>
    (\<forall>j<i. up_to_bucket E (j + 1) xs < unat (fe_rank E p (of_nat (length xs))))"
proof -
  let ?h = "lh_of E xs" and ?t = "fe_rank E p (of_nat (length xs))"
  have un: "unat (of_nat (up_to_bucket E n xs) :: u64) = up_to_bucket E n xs" for n
    using up_to_bucket_le [of E n xs] assms(1) by (simp add: unat_of_nat)
  have len: "length (lh_counts ?h) = kBuckets" using lh_of_counts by blast
  have sums: "sum_list (take n (lh_counts ?h)) = of_nat (up_to_bucket E n xs)" for n using lh_of_counts by blast
  have total: "lh_total ?h = of_nat (length xs)" using lh_of_fields by blast
  have "unat (of_nat (length xs) :: u64) = length xs" using un [of kBuckets] by (simp add: up_to_bucket_all)
  then have "lh_total ?h \<noteq> 0" using total assms(3) by (metis length_0_conv unat_0)
  have "?t \<le> sum_list (lh_counts ?h)"
    using sums [of kBuckets] len assms(2) un [of kBuckets] by (simp add: word_le_nat_alt up_to_bucket_all)
  then obtain i where i: "percentile_scan (lh_counts ?h) 0 0 ?t = Some i"
    using percentile_scan_total [of ?t 0 "lh_counts ?h" 0] len by (force simp: kBuckets_def)
  note s = percentile_scan_Some [OF i, simplified]
  have "percentile E p ?h = fe_to_u64 E (fe_bounds E ! (i + 1))"
    using i \<open>lh_total ?h \<noteq> 0\<close> total by (simp add: percentile_def)
  moreover have "unat ?t \<le> up_to_bucket E (i + 1) xs"
    using s sums [of "i + 1"] un [of "i + 1"] by (simp add: word_le_nat_alt)
  moreover have "up_to_bucket E (j + 1) xs < unat ?t" if "j < i" for j
  proof -
    have "sum_list (take (j + 1) (lh_counts ?h)) < ?t" using s that by simp
    then have "of_nat (up_to_bucket E (j + 1) xs) < ?t" by (simp only: sums)
    then show ?thesis using un [of "j + 1"] by (simp add: word_less_nat_alt)
  qed
  ultimately show ?thesis using s len by auto
qed

end
