(* ===== verification/Config.thy ===== *)
theory Config
  imports Aof Numeric
begin

section \<open>Configuration (\<^verbatim>\<open>include/blazekv/config.hpp\<close>, \<^verbatim>\<open>src/server/config.cpp\<close>)\<close>

text \<open>
  The configuration record, the directives, the configuration file and the command line. A directive
  whose number cannot be read raises the exception of \<open>std::stoi\<close> or \<open>std::stoul\<close>, which nothing
  catches: the result is then \<open>None\<close>. The content of the configuration file is given, or that it cannot
  be opened.
\<close>

datatype ReactorKind = Auto | Uring | Epoll | Poll

record config =
  cf_bind :: bytes
  cf_port :: "16 word"
  cf_shards :: "32 word"
  cf_pin_threads :: bool
  cf_aof_enabled :: bool
  cf_aof_path :: bytes
  cf_fsync :: FsyncPolicy
  cf_snapshot_enabled :: bool
  cf_snapshot_path :: bytes
  cf_dir :: bytes
  cf_maxmemory :: u64
  cf_active_expire_hz :: "32 word"
  cf_tcp_backlog :: int
  cf_tcp_nodelay :: bool
  cf_reactor :: ReactorKind
  cf_metrics_port :: "16 word"
  cf_metrics_enabled :: bool

definition config_default :: config where
  "config_default = \<lparr>cf_bind = ''0.0.0.0'', cf_port = 6380, cf_shards = 0, cf_pin_threads = True,
     cf_aof_enabled = True, cf_aof_path = ''blazekv.aof'', cf_fsync = EverySec, cf_snapshot_enabled = True,
     cf_snapshot_path = ''blazekv.blaze'', cf_dir = ''.'', cf_maxmemory = 0, cf_active_expire_hz = 10,
     cf_tcp_backlog = 1024, cf_tcp_nodelay = True, cf_reactor = Auto, cf_metrics_port = 9121,
     cf_metrics_enabled = True\<rparr>"

definition cfg_lower :: "bytes \<Rightarrow> bytes" where
  "cfg_lower s = map to_lower_char s"

definition truthy :: "bytes \<Rightarrow> bool" where
  "truthy v = (let l = cfg_lower v in l = ''yes'' \<or> l = ''true'' \<or> l = ''1'' \<or> l = ''on'')"

definition parse_fsync :: "bytes \<Rightarrow> FsyncPolicy" where
  "parse_fsync v =
     (let l = cfg_lower v in if l = ''always'' then Always else if l = ''no'' then No else EverySec)"

definition parse_reactor :: "bytes \<Rightarrow> ReactorKind" where
  "parse_reactor v =
     (let l = cfg_lower v
      in if l = ''uring'' \<or> l = ''io_uring'' then Uring
         else if l = ''epoll'' then Epoll
         else if l = ''poll'' then Poll else Auto)"

subsection \<open>The numbers of the C library\<close>

text \<open>White space, a sign, digits; what follows is ignored. \<open>None\<close> when there is no digit.\<close>

definition is_space :: "char \<Rightarrow> bool" where
  "is_space c \<longleftrightarrow> c = CHR '' '' \<or> 9 \<le> byte_val c \<and> byte_val c \<le> 13"

definition scan_number :: "bytes \<Rightarrow> (bool \<times> nat) option" where
  "scan_number s =
     (let t = dropWhile is_space s;
          neg = (t \<noteq> [] \<and> hd t = CHR ''-'');
          u = (if t \<noteq> [] \<and> (hd t = CHR ''-'' \<or> hd t = CHR ''+'') then tl t else t);
          ds = takeWhile is_digit u
      in if ds = [] then None else Some (neg, dec_val ds))"

definition stoi :: "bytes \<Rightarrow> int option" where
  "stoi s =
     (case scan_number s of
        None \<Rightarrow> None
      | Some (neg, n) \<Rightarrow>
          (let v = (if neg then - int n else int n) in if v < - (2 ^ 31) \<or> v > 2 ^ 31 - 1 then None else Some v))"

definition stoul :: "bytes \<Rightarrow> u64 option" where
  "stoul s =
     (case scan_number s of
        None \<Rightarrow> None
      | Some (neg, n) \<Rightarrow> if n \<ge> 2 ^ 64 then None else Some (if neg then - word_of_nat n else word_of_nat n))"

definition strtoull :: "bytes \<Rightarrow> u64" where
  "strtoull s =
     (case scan_number s of
        None \<Rightarrow> 0
      | Some (neg, n) \<Rightarrow> if n \<ge> 2 ^ 64 then - 1 else if neg then - word_of_nat n else word_of_nat n)"

subsection \<open>Directives\<close>

definition cfg_apply :: "config \<Rightarrow> bytes \<Rightarrow> bytes \<Rightarrow> config option" where
  "cfg_apply cfg key value =
     (let k = cfg_lower key in
      if k = ''bind'' then Some (cfg\<lparr>cf_bind := value\<rparr>)
      else if k = ''port'' then map_option (\<lambda>v. cfg\<lparr>cf_port := word_of_int v\<rparr>) (stoi value)
      else if k = ''shards'' \<or> k = ''io-threads'' then map_option (\<lambda>v. cfg\<lparr>cf_shards := ucast v\<rparr>) (stoul value)
      else if k = ''pin-threads'' then Some (cfg\<lparr>cf_pin_threads := truthy value\<rparr>)
      else if k = ''appendonly'' then Some (cfg\<lparr>cf_aof_enabled := truthy value\<rparr>)
      else if k = ''appendfilename'' then Some (cfg\<lparr>cf_aof_path := value\<rparr>)
      else if k = ''appendfsync'' then Some (cfg\<lparr>cf_fsync := parse_fsync value\<rparr>)
      else if k = ''save'' \<or> k = ''snapshot'' then Some (cfg\<lparr>cf_snapshot_enabled := truthy value \<or> value \<noteq> []\<rparr>)
      else if k = ''dbfilename'' \<or> k = ''snapshotfile'' then Some (cfg\<lparr>cf_snapshot_path := value\<rparr>)
      else if k = ''dir'' then Some (cfg\<lparr>cf_dir := value\<rparr>)
      else if k = ''maxmemory'' then Some (cfg\<lparr>cf_maxmemory := strtoull value\<rparr>)
      else if k = ''hz'' \<or> k = ''active-expire-hz'' then
        map_option (\<lambda>v. cfg\<lparr>cf_active_expire_hz := ucast v\<rparr>) (stoul value)
      else if k = ''tcp-backlog'' then map_option (\<lambda>v. cfg\<lparr>cf_tcp_backlog := v\<rparr>) (stoi value)
      else if k = ''tcp-nodelay'' then Some (cfg\<lparr>cf_tcp_nodelay := truthy value\<rparr>)
      else if k = ''reactor'' then Some (cfg\<lparr>cf_reactor := parse_reactor value\<rparr>)
      else if k = ''metrics-port'' then map_option (\<lambda>v. cfg\<lparr>cf_metrics_port := word_of_int v\<rparr>) (stoi value)
      else if k = ''metrics-enabled'' then Some (cfg\<lparr>cf_metrics_enabled := truthy value\<rparr>)
      else Some cfg)"

subsection \<open>The configuration file\<close>

text \<open>One line: the part before \<open>#\<close>, the first word, and the rest without leading blanks.\<close>

definition cfg_line :: "bytes \<Rightarrow> (bytes \<times> bytes) option" where
  "cfg_line line =
     (let trimmed = takeWhile (\<lambda>c. c \<noteq> CHR ''#'') line;
          s = dropWhile is_space trimmed;
          key = takeWhile (\<lambda>c. \<not> is_space c) s;
          rest = takeWhile (\<lambda>c. c \<noteq> LF) (dropWhile (\<lambda>c. \<not> is_space c) s)
      in if key = [] then None
         else Some (key, dropWhile (\<lambda>c. c = CHR '' '' \<or> c = CHR 0x09) rest))"

definition apply_line :: "config \<Rightarrow> bytes \<Rightarrow> config option" where
  "apply_line cfg line = (case cfg_line line of None \<Rightarrow> Some cfg | Some (k, v) \<Rightarrow> cfg_apply cfg k v)"

fun apply_lines :: "config \<Rightarrow> bytes list \<Rightarrow> config option" where
  "apply_lines cfg [] = Some cfg"
| "apply_lines cfg (l # ls) = (case apply_line cfg l of None \<Rightarrow> None | Some c \<Rightarrow> apply_lines c ls)"

text \<open>The lines that \<open>std::getline\<close> yields: a last line without its end counts, an empty one does not.\<close>

fun split_lines :: "bytes \<Rightarrow> bytes \<Rightarrow> bytes list" where
  "split_lines cur [] = (if cur = [] then [] else [cur])"
| "split_lines cur (c # cs) = (if c = LF then cur # split_lines [] cs else split_lines (cur @ [c]) cs)"

definition load_file :: "bytes option \<Rightarrow> config \<Rightarrow> bool \<times> config option" where
  "load_file content cfg =
     (case content of None \<Rightarrow> (False, Some cfg) | Some data \<Rightarrow> (True, apply_lines cfg (split_lines [] data)))"

subsection \<open>The command line\<close>

fun cfg_options :: "bytes list \<Rightarrow> config \<Rightarrow> config option" where
  "cfg_options [] cfg = Some cfg"
| "cfg_options (a # rest) cfg =
     (if length a > 2 \<and> a ! 0 = CHR ''-'' \<and> a ! 1 = CHR ''-'' then
        (case rest of
           [] \<Rightarrow> cfg_apply cfg (drop 2 a) []
         | v # rest' \<Rightarrow> (case cfg_apply cfg (drop 2 a) v of None \<Rightarrow> None | Some c \<Rightarrow> cfg_options rest' c))
      else cfg_options rest cfg)"

text \<open>\<open>argv[1][0]\<close> of an empty argument is its terminating zero. The error of an unreadable file is dropped.\<close>

definition from_args :: "(bytes \<Rightarrow> bytes option) \<Rightarrow> bytes list \<Rightarrow> config option" where
  "from_args files args =
     (case args of
        p # rest \<Rightarrow>
          if p = [] \<or> hd p \<noteq> CHR ''-'' then
            (case snd (load_file (files p) config_default) of None \<Rightarrow> None | Some c \<Rightarrow> cfg_options rest c)
          else cfg_options args config_default
      | [] \<Rightarrow> Some config_default)"

subsection \<open>What is read\<close>

lemma takeWhile_all: "\<forall>x\<in>set xs. P x \<Longrightarrow> takeWhile P (xs @ ys) = xs @ takeWhile P ys"
  by (induction xs) auto

lemma dropWhile_all: "\<forall>x\<in>set xs. P x \<Longrightarrow> dropWhile P (xs @ ys) = dropWhile P ys"
  by (induction xs) auto

text \<open>A directive written as word, blank, value is read as these two, when the value does not start
  with a blank; trailing blanks belong to the value.\<close>

lemma cfg_line_read:
  assumes "k \<noteq> []" "\<forall>c\<in>set k. \<not> is_space c \<and> c \<noteq> CHR ''#''" "\<forall>c\<in>set v. c \<noteq> CHR ''#'' \<and> c \<noteq> LF"
    "v = [] \<or> hd v \<noteq> CHR '' '' \<and> hd v \<noteq> CHR 0x09" "rest = [] \<or> hd rest = CHR ''#''"
  shows "cfg_line (k @ '' '' @ v @ rest) = Some (k, v)"
proof -
  have sp: "is_space (CHR '' '')" "(CHR '' '' :: char) \<noteq> LF" by (simp_all add: is_space_def LF_def)
  have t: "takeWhile (\<lambda>c. c \<noteq> CHR ''#'') (k @ '' '' @ v @ rest) = k @ '' '' @ v"
  proof -
    have "\<forall>c\<in>set (k @ '' '' @ v). c \<noteq> CHR ''#''" using assms(2,3) by auto
    from takeWhile_all [OF this, of rest] show ?thesis using assms(5) by (cases rest) auto
  qed
  have s: "dropWhile is_space (k @ '' '' @ v) = k @ '' '' @ v" using assms(1,2) by (cases k) auto
  have k: "\<forall>c\<in>set k. \<not> is_space c" using assms(2) by blast
  have key: "takeWhile (\<lambda>c. \<not> is_space c) (k @ '' '' @ v) = k" using takeWhile_all [OF k] sp by simp
  have rst: "dropWhile (\<lambda>c. \<not> is_space c) (k @ '' '' @ v) = '' '' @ v" using dropWhile_all [OF k] sp by simp
  have nl: "takeWhile (\<lambda>c. c \<noteq> LF) ('' '' @ v) = '' '' @ v" using assms(3) sp by (simp add: takeWhile_eq_all_conv)
  have val: "dropWhile (\<lambda>c. c = CHR '' '' \<or> c = CHR 0x09) ('' '' @ v) = v" using assms(4) by (cases v) auto
  show ?thesis unfolding cfg_line_def Let_def t s key rst nl val using assms(1) by simp
qed

text \<open>A comment after the value leaves the blank before it in the value.\<close>

lemma comment_disables_appendonly:
  "map_option cf_aof_enabled (apply_line config_default (''appendonly yes # durable'')) = Some False"
  by code_simp

lemma save_no_enables:
  "map_option cf_snapshot_enabled (apply_line (config_default\<lparr>cf_snapshot_enabled := False\<rparr>) ''snapshot no'') = Some True"
  by code_simp

end
