(* ===== verification/Snapshot.thy ===== *)
theory Snapshot
  imports Cmd_ZSet
begin

section \<open>Snapshots (\<^verbatim>\<open>src/persist/snapshot.cpp\<close>)\<close>

text \<open>
  The binary file of a keyspace: writer and reader with their sticky \<open>ok\<close> flags, \<open>save\<close> to a temporary
  file that is renamed over the old snapshot, and \<open>load\<close>. Integers are written as they lie in memory, little
  end first. What the C library does is given: how many bytes each \<open>fwrite\<close> takes, how much of the
  file is kept by \<open>fflush\<close> and \<open>fclose\<close> (the code does not look at their results), and whether the file
  can be opened and renamed.
\<close>

subsection \<open>Memory images of integers\<close>

fun le_bytes :: "nat \<Rightarrow> nat \<Rightarrow> bytes" where
  "le_bytes 0 v = []"
| "le_bytes (Suc n) v = char_of v # le_bytes n (v div 256)"

fun le_val :: "bytes \<Rightarrow> nat" where
  "le_val [] = 0"
| "le_val (b # bs) = byte_val b + 256 * le_val bs"

subsection \<open>Writing\<close>

record writer =
  w_file :: bytes
  w_ok :: bool
  w_calls :: nat
  w_accept :: "nat \<Rightarrow> nat"

text \<open>\<open>fwrite\<close> takes all bytes or fewer; then the flag falls and nothing more is written.\<close>

definition w_bytes :: "bytes \<Rightarrow> writer \<Rightarrow> writer" where
  "w_bytes p w =
     (if \<not> w_ok w then w
      else let n = min (length p) (w_accept w (w_calls w))
           in w\<lparr>w_file := w_file w @ take n p, w_calls := Suc (w_calls w), w_ok := (n = length p)\<rparr>)"

definition w_u8 :: "nat \<Rightarrow> writer \<Rightarrow> writer" where "w_u8 v = w_bytes (le_bytes 1 v)"
definition w_u32 :: "u32 \<Rightarrow> writer \<Rightarrow> writer" where "w_u32 v = w_bytes (le_bytes 4 (unat v))"
definition w_u64 :: "u64 \<Rightarrow> writer \<Rightarrow> writer" where "w_u64 v = w_bytes (le_bytes 8 (unat v))"
definition w_dbl :: "dbl \<Rightarrow> writer \<Rightarrow> writer" where "w_dbl v = w_bytes (le_bytes 8 (unat v))"

text \<open>The length is cut to 32 bits, the bytes are all written.\<close>

definition w_str :: "bytes \<Rightarrow> writer \<Rightarrow> writer" where
  "w_str s w = w_bytes s (w_u32 (word_of_nat (length s)) w)"

fun type_code :: "ObjType \<Rightarrow> nat" where
  "type_code T_String = 0"
| "type_code T_List = 1"
| "type_code T_Hash = 2"
| "type_code T_Set = 3"
| "type_code T_ZSet = 4"
| "type_code T_HLL = 5"

fun write_payload :: "obj \<Rightarrow> writer \<Rightarrow> writer" where
  "write_payload (StrObj s) w = w_str s w"
| "write_payload (HllObj s) w = w_str s w"
| "write_payload (ListObj l) w = foldl (\<lambda>w e. w_str e w) (w_u32 (word_of_nat (length l)) w) l"
| "write_payload (HashObj h) w =
     sw_for_each (\<lambda>k v w. w_str v (w_str k w)) h (w_u32 (word_of_nat (sw_size h)) w)"
| "write_payload (SetObj s) w =
     sw_for_each (\<lambda>m _ w. w_str m w) s (w_u32 (word_of_nat (sw_size s)) w)"
| "write_payload (ZSetObj z) w =
     sw_for_each (\<lambda>m score w. w_dbl score (w_str m w)) (z_dict z) (w_u32 (word_of_nat (sw_size (z_dict z))) w)"

definition write_object :: "bytes \<Rightarrow> u64 \<Rightarrow> obj \<Rightarrow> writer \<Rightarrow> writer" where
  "write_object key deadline v w =
     write_payload v (w_u64 deadline (w_str key (w_u8 (type_code (obj_type v)) w)))"

definition kMagic :: bytes where "kMagic = ''BLAZEKV1''"

definition write_snapshot :: "keyspace \<Rightarrow> writer \<Rightarrow> writer" where
  "write_snapshot ks w =
     ks_for_each (\<lambda>key v w. write_object key (ks_deadline_or_zero key ks) v w) ks
       (w_u64 (word_of_nat (ks_size ks)) (w_bytes kMagic w))"

text \<open>The results of the C library around the writer, and the files by name.\<close>

record save_io =
  si_opens :: bool
  si_accept :: "nat \<Rightarrow> nat"
  si_kept :: "bytes \<Rightarrow> bytes"
  si_renames :: bool

type_synonym files = "bytes \<Rightarrow> bytes option"

definition snap_save :: "save_io \<Rightarrow> bytes \<Rightarrow> keyspace \<Rightarrow> files \<Rightarrow> bytes option \<times> files" where
  "snap_save io path ks fs =
     (let tmp = path @ ''.tmp'' in
      if \<not> si_opens io then (Some ''cannot open snapshot temp file'', fs)
      else
        let w = write_snapshot ks \<lparr>w_file = [], w_ok = True, w_calls = 0, w_accept = si_accept io\<rparr>;
            data = si_kept io (w_file w)
        in if \<not> w_ok w then (Some ''snapshot write failed'', fs(tmp := None))
           else if \<not> si_renames io then (Some ''snapshot rename failed'', fs(tmp \<mapsto> data))
           else (None, (fs(tmp := None))(path \<mapsto> data)))"

subsection \<open>Reading\<close>

record reader =
  r_rest :: bytes
  r_ok :: bool

text \<open>\<open>fread\<close> into a zeroed buffer of \<open>n\<close> bytes: on a short read the flag falls.\<close>

definition r_bytes :: "nat \<Rightarrow> reader \<Rightarrow> bytes \<times> reader" where
  "r_bytes n r =
     (if \<not> r_ok r then (replicate n (CHR 0x00), r)
      else let got = take n (r_rest r)
           in (got @ replicate (n - length got) (CHR 0x00),
               r\<lparr>r_rest := drop n (r_rest r), r_ok := (length got = n)\<rparr>))"

definition r_u8 :: "reader \<Rightarrow> nat \<times> reader" where
  "r_u8 r = (let (b, r) = r_bytes 1 r in (le_val b, r))"
definition r_u32 :: "reader \<Rightarrow> u32 \<times> reader" where
  "r_u32 r = (let (b, r) = r_bytes 4 r in (word_of_nat (le_val b), r))"
definition r_u64 :: "reader \<Rightarrow> u64 \<times> reader" where
  "r_u64 r = (let (b, r) = r_bytes 8 r in (word_of_nat (le_val b), r))"
definition r_dbl :: "reader \<Rightarrow> dbl \<times> reader" where
  "r_dbl r = (let (b, r) = r_bytes 8 r in (word_of_nat (le_val b), r))"

definition r_str :: "reader \<Rightarrow> bytes \<times> reader" where
  "r_str r =
     (let (n, r1) = r_u32 r
      in if \<not> r_ok r1 \<or> n > push_bit 30 1 then ([], r1\<lparr>r_ok := False\<rparr>) else r_bytes (unat n) r1)"

text \<open>The loops that fill a container: at most \<open>n\<close> rounds, while the flag holds.\<close>

fun r_loop :: "(reader \<Rightarrow> 's \<Rightarrow> 's \<times> reader) \<Rightarrow> nat \<Rightarrow> reader \<Rightarrow> 's \<Rightarrow> 's \<times> reader" where
  "r_loop f 0 r s = (s, r)"
| "r_loop f (Suc n) r s = (if \<not> r_ok r then (s, r) else let (s1, r1) = f r s in r_loop f n r1 s1)"

definition list_item :: "reader \<Rightarrow> bytes list \<Rightarrow> bytes list \<times> reader" where
  "list_item r l = (let (e, r1) = r_str r in (l @ [e], r1))"

definition hash_item :: "reader \<Rightarrow> hash_table \<Rightarrow> hash_table \<times> reader" where
  "hash_item r h =
     (let (f, r1) = r_str r; (v, r2) = r_str r1 in (fst (sw_insert hash_params h f v), r2))"

definition set_item :: "reader \<Rightarrow> set_table \<Rightarrow> set_table \<times> reader" where
  "set_item r s = (let (m, r1) = r_str r in (fst (sw_insert set_params s m 1), r1))"

definition zset_item :: "reader \<Rightarrow> zset \<Rightarrow> zset \<times> reader" where
  "zset_item r z = (let (m, r1) = r_str r; (sc, r2) = r_dbl r1 in (fst (zset_set m sc z), r2))"

text \<open>The value behind the tag, \<open>None\<close> for a tag that is none of the six.\<close>

definition read_payload :: "nat \<Rightarrow> reader \<Rightarrow> (obj \<times> reader) option" where
  "read_payload t r =
     (if t = 0 \<or> t = 5 then Some (apfst StrObj (r_str r))
      else if t = 1 then let (n, r1) = r_u32 r in Some (apfst ListObj (r_loop list_item (unat n) r1 []))
      else if t = 2 then let (n, r1) = r_u32 r in Some (apfst HashObj (r_loop hash_item (unat n) r1 (sw_new hash_params)))
      else if t = 3 then let (n, r1) = r_u32 r in Some (apfst SetObj (r_loop set_item (unat n) r1 (sw_new set_params)))
      else if t = 4 then
        let (n, r1) = r_u32 r
        in Some (apfst ZSetObj (r_loop zset_item (unat n) r1 \<lparr>z_dict = sw_new score_params, z_sl = sl_new\<rparr>))
      else None)"

text \<open>One entry; \<open>now\<close> is the clock at that moment.\<close>

definition read_object :: "u64 \<Rightarrow> reader \<Rightarrow> keyspace \<Rightarrow> keyspace \<times> reader" where
  "read_object now r ks =
     (let (t, r1) = r_u8 r; (key, r2) = r_str r1; (deadline, r3) = r_u64 r2 in
      if \<not> r_ok r3 then (ks, r3)
      else
        let expired = (deadline \<noteq> 0 \<and> deadline \<le> now) in
        case read_payload t r3 of
          None \<Rightarrow> (ks, r3\<lparr>r_ok := False\<rparr>)
        | Some (v, r4) \<Rightarrow>
            let ks1 = (if \<not> expired \<and> r_ok r4 then snd (ks_set key v ks) else ks);
                ks2 = (if \<not> expired \<and> deadline \<noteq> 0 \<and> r_ok r4 then ks_set_deadline key deadline ks1 else ks1)
            in (ks2, r4))"

fun read_objects :: "(nat \<Rightarrow> u64) \<Rightarrow> nat \<Rightarrow> nat \<Rightarrow> reader \<Rightarrow> keyspace \<Rightarrow> keyspace \<times> reader" where
  "read_objects clock i 0 r ks = (ks, r)"
| "read_objects clock i (Suc n) r ks =
     (if \<not> r_ok r then (ks, r)
      else let (ks1, r1) = read_object (clock i) r ks in read_objects clock (Suc i) n r1 ks1)"

text \<open>The result is the message of a failure; what was read before it stays in the keyspace.\<close>

definition snap_load :: "(nat \<Rightarrow> u64) \<Rightarrow> bytes option \<Rightarrow> keyspace \<Rightarrow> bytes option \<times> keyspace" where
  "snap_load clock file ks =
     (case file of
        None \<Rightarrow> (None, ks)
      | Some data \<Rightarrow>
          let (magic, r1) = r_bytes 8 \<lparr>r_rest = data, r_ok = True\<rparr> in
          if \<not> r_ok r1 \<or> magic \<noteq> kMagic then (Some ''bad snapshot magic'', ks)
          else
            let (count, r2) = r_u64 r1; (ks', r3) = read_objects clock 0 (unat count) r2 ks
            in if r_ok r3 then (None, ks') else (Some ''truncated or corrupt snapshot'', ks'))"

end
