(* ===== verification/Shard.thy ===== *)
theory Shard
  imports Cmd_Run Aof Metrics Config Resp_Correct Snapshot
begin

section \<open>A shard: execution, the log and the periodic work (\<^verbatim>\<open>src/server/shard.cpp\<close>)\<close>

text \<open>
  The state of a shard without its connections: the keyspace, the vector indexes, the log and the
  metrics. What an execution takes from outside is one record: the environment of the handlers, the
  arithmetic of the metrics, the readings of the clock, the time the command took, and for a flush
  whether the log file can be opened again and when.
\<close>

record exec_env =
  xe_run :: run_env
  xe_float :: float_env
  xe_clock :: "nat \<Rightarrow> u64"
  xe_elapsed :: u64
  xe_reopens :: bool
  xe_reopen_ms :: u64

record shard =
  sh_id :: nat
  sh_db :: keyspace
  sh_vindex :: vindex
  sh_aof :: aof
  sh_metrics :: metrics
  sh_last_cron_ms :: u64

definition cmd_word :: "bytes list \<Rightarrow> bytes" where
  "cmd_word argv = (if argv = [] then [] else argv ! 0)"

definition unknown_command :: "bytes list \<Rightarrow> bytes" where
  "unknown_command argv = rb_error (''ERR unknown command '' @ squote @ cmd_word argv @ squote) []"

definition wrong_arity :: "bytes list \<Rightarrow> bytes" where
  "wrong_arity argv =
     rb_error (''ERR wrong number of arguments for '' @ squote @ to_lower (cmd_word argv) @ squote @ '' command'') []"

text \<open>\<open>flush\<close>: the two containers are cleared by the handler that asked for it; the log and the gauges here.\<close>

definition flush_log :: "exec_env \<Rightarrow> shard \<Rightarrow> shard" where
  "flush_log X sh =
     (let sh1 = (if a_open (sh_aof sh) then sh\<lparr>sh_aof := reset_file (xe_reopens X) (xe_reopen_ms X) (sh_aof sh)\<rparr> else sh)
      in sh1\<lparr>sh_metrics := (sh_metrics sh1)\<lparr>m_keys := 0, m_expires := 0\<rparr>\<rparr>)"

definition shard_flush :: "exec_env \<Rightarrow> shard \<Rightarrow> shard" where
  "shard_flush X sh = flush_log X (sh\<lparr>sh_db := ks_clear (sh_db sh), sh_vindex := Map.empty\<rparr>)"

text \<open>The counters after a command.\<close>

definition count_command :: "exec_env \<Rightarrow> bool \<Rightarrow> ctx \<Rightarrow> metrics \<Rightarrow> metrics" where
  "count_command X is_write c m =
     (let m1 = observe (xe_float X) (xe_elapsed X) m;
          m2 = (if is_write then m1\<lparr>m_writes := m_writes m1 + 1\<rparr> else m1\<lparr>m_reads := m_reads m1 + 1\<rparr>);
          m3 = (if c_hits c \<noteq> 0 then m2\<lparr>m_keyspace_hits := m_keyspace_hits m2 + word_of_nat (c_hits c)\<rparr> else m2)
      in if c_misses c \<noteq> 0 then m3\<lparr>m_keyspace_misses := m_keyspace_misses m3 + word_of_nat (c_misses c)\<rparr> else m3)"

definition exec_core :: "exec_env \<Rightarrow> bytes list \<Rightarrow> shard \<Rightarrow> bytes \<times> shard" where
  "exec_core X argv sh =
     (case find_command (to_lower (cmd_word argv)) of
        None \<Rightarrow> (unknown_command argv, sh)
      | Some spec \<Rightarrow>
          if \<not> arity_ok spec (length argv) then (wrong_arity argv, sh)
          else
            let (c, vx) = run_fn (xe_run X) (cs_fn spec) (sh_vindex sh) (ctx_new argv (sh_db sh) (xe_clock X));
                sh1 = sh\<lparr>sh_db := c_db c, sh_vindex := vx\<rparr>;
                sh2 = (if is_flush (cs_fn spec) then flush_log X sh1 else sh1);
                sh3 = sh2\<lparr>sh_metrics := count_command X (cs_write spec) c (sh_metrics sh2)\<rparr>;
                sh4 = (if c_dirty c \<and> cs_write spec \<and> a_open (sh_aof sh3)
                       then sh3\<lparr>sh_aof := aof_append (encode_multibulk argv) (sh_aof sh3)\<rparr> else sh3)
            in (c_out c, sh4))"

definition execute_owned :: "exec_env \<Rightarrow> bytes list \<Rightarrow> shard \<Rightarrow> bytes \<times> shard" where
  "execute_owned X args sh = exec_core X args sh"

definition exec_replay :: "exec_env \<Rightarrow> bytes list \<Rightarrow> shard \<Rightarrow> shard" where
  "exec_replay X argv sh =
     (case find_command (to_lower (cmd_word argv)) of
        None \<Rightarrow> sh
      | Some spec \<Rightarrow>
          if \<not> arity_ok spec (length argv) then sh
          else
            let (c, vx) = run_fn (xe_run X) (cs_fn spec) (sh_vindex sh) (ctx_new argv (sh_db sh) (xe_clock X));
                sh1 = sh\<lparr>sh_db := c_db c, sh_vindex := vx\<rparr>
            in if is_flush (cs_fn spec) then flush_log X sh1 else sh1)"

subsection \<open>Recovery\<close>

text \<open>The loop over the log: it ends at the first bytes that are not a whole command. The \<open>i\<close>-th
  replayed command runs in environment \<open>X i\<close>.\<close>

function replay_log :: "(nat \<Rightarrow> exec_env) \<Rightarrow> nat \<Rightarrow> bytes \<Rightarrow> shard \<Rightarrow> shard" where
  "replay_log X i data sh =
     (if data = [] then sh
      else case parse_request data of
             Ok argv consumed \<Rightarrow>
               replay_log X (Suc i) (drop consumed data) (if argv \<noteq> [] then exec_replay (X i) argv sh else sh)
           | _ \<Rightarrow> sh)"
  by pat_completeness auto
termination replay_log
  by (relation "measure (\<lambda>(X, i, data, sh). length data)") (auto dest: parse_request_bounds)

declare replay_log.simps [simp del]

text \<open>\<open>load_persistence\<close>: the snapshot file, then the log file, each \<open>None\<close> when it does not exist; \<open>clock\<close> is read
  while the snapshot loads.\<close>

definition load_persistence ::
  "config \<Rightarrow> (nat \<Rightarrow> u64) \<Rightarrow> (nat \<Rightarrow> exec_env) \<Rightarrow> bytes option \<Rightarrow> bytes option \<Rightarrow> shard \<Rightarrow> bytes + shard" where
  "load_persistence cfg clock X snap log sh =
     (let (err, db) = (if cf_snapshot_enabled cfg then snap_load clock snap (sh_db sh) else (None, sh_db sh));
          s = sh\<lparr>sh_db := db\<rparr>
      in case err of
           Some e \<Rightarrow> Inl e
         | None \<Rightarrow>
             Inr (if cf_aof_enabled cfg then (case log of None \<Rightarrow> s | Some data \<Rightarrow> replay_log X 0 data s) else s))"

text \<open>\<open>init\<close>: the log is opened after the replay, so the replay does not append to it.\<close>

definition shard_init ::
  "config \<Rightarrow> (nat \<Rightarrow> u64) \<Rightarrow> (nat \<Rightarrow> exec_env) \<Rightarrow> bytes option \<Rightarrow> bytes option \<Rightarrow> bool \<Rightarrow> u64 \<Rightarrow> shard \<Rightarrow> shard option" where
  "shard_init cfg clock X snap log opens now sh =
     (case load_persistence cfg clock X snap log sh of
        Inl e \<Rightarrow> None
      | Inr s \<Rightarrow>
          (let r = (if cf_aof_enabled cfg then aof_open opens (cf_fsync cfg) now (sh_aof s) else (True, sh_aof s))
           in if fst r
              then Some (s\<lparr>sh_aof := snd r,
                     sh_metrics := (sh_metrics s)\<lparr>m_keys := word_of_nat (ks_size (sh_db s))\<rparr>\<rparr>)
              else None))"

subsection \<open>Periodic maintenance\<close>

record cron_env =
  ce_now :: u64
  ce_expire_now :: u64
  ce_tick_now :: u64
  ce_slot :: nat
  ce_expire_slot :: nat

definition log_deletions :: "bytes list \<Rightarrow> aof \<Rightarrow> aof" where
  "log_deletions expired a = foldl (\<lambda>a k. aof_append (encode_multibulk [''DEL'', k]) a) a expired"

definition cron :: "config \<Rightarrow> cron_env \<Rightarrow> shard \<Rightarrow> shard" where
  "cron cfg T sh =
     (let now = ce_now T; hz = max 1 (cf_active_expire_hz cfg) in
      if now - sh_last_cron_ms sh < ucast (1000 div hz) then sh
      else
        let (n, expired, db) = active_expire_cycle (ce_expire_now T) 20 (sh_db sh);
            sh1 = sh\<lparr>sh_last_cron_ms := now, sh_db := db\<rparr>;
            sh2 = (if n > 0 then
                     let s = sh1\<lparr>sh_metrics := (sh_metrics sh1)
                           \<lparr>m_expired_keys := m_expired_keys (sh_metrics sh1) + word_of_nat n\<rparr>\<rparr>
                     in if a_open (sh_aof s) then s\<lparr>sh_aof := log_deletions expired (sh_aof s)\<rparr> else s
                   else sh1)
        in sh2\<lparr>sh_aof := aof_tick (ce_tick_now T) (sh_aof sh2),
               sh_metrics := (sh_metrics sh2)\<lparr>m_keys := word_of_nat (ks_size db),
                 m_expires := word_of_nat (ks_expires_size db),
                 m_memory_bytes := word_of_nat (ks_approx_memory (ce_slot T) (ce_expire_slot T) db)\<rparr>\<rparr>)"

subsection \<open>The invariant of a shard\<close>

definition shard_ok :: "shard \<Rightarrow> bool" where
  "shard_ok sh \<longleftrightarrow> db_ok (sh_db sh) \<and> store_full (db_abs (sh_db sh)) \<and> vindex_ok (sh_vindex sh)"

definition sh_view :: "shard \<Rightarrow> astore" where
  "sh_view sh = db_abs (sh_db sh)"

text \<open>The conditions under which an execution is covered: what the theorems assume of a command.\<close>

definition proper :: "exec_env \<Rightarrow> bytes list \<Rightarrow> shard \<Rightarrow> bool" where
  "proper X argv sh \<longleftrightarrow>
     (\<forall>spec. find_command (to_lower (cmd_word argv)) = Some spec \<longrightarrow>
        scores_ok (xe_run X) (cs_fn spec) argv \<and>
        \<not> c_ub (fst (run_fn (xe_run X) (cs_fn spec) (sh_vindex sh) (ctx_new argv (sh_db sh) (xe_clock X)))))"

lemma ctx_new_ready: "shard_ok sh \<Longrightarrow> ready (ctx_new argv (sh_db sh) clk)"
  by (simp add: shard_ok_def ready_def ctx_new_def ok_def view_def)

lemma flush_log_fields [simp]:
  "sh_db (flush_log X sh) = sh_db sh" "sh_vindex (flush_log X sh) = sh_vindex sh"
  by (simp_all add: flush_log_def Let_def)

text \<open>What one run of a handler does to the shard.\<close>

lemma run_shard:
  assumes "shard_ok sh" "proper X argv sh" "sorts (re_fpu (xe_run X))"
    "find_command (to_lower (cmd_word argv)) = Some spec" "arity_ok spec (length argv)"
    "run_fn (xe_run X) (cs_fn spec) (sh_vindex sh) (ctx_new argv (sh_db sh) (xe_clock X)) = (c, vx)"
  shows "db_ok (c_db c)" "store_full (db_abs (c_db c))" "vindex_ok vx"
    "\<not> is_flush (cs_fn spec) \<Longrightarrow> c_dirty c \<or> forgets (xe_clock X) (sh_view sh) (db_abs (c_db c))"
    "is_flush (cs_fn spec) \<Longrightarrow> db_abs (c_db c) = Map.empty \<and> vx = Map.empty"
proof -
  let ?c0 = "ctx_new argv (sh_db sh) (xe_clock X)"
  have ready: "ready ?c0" by (rule ctx_new_ready [OF assms(1)])
  have vx: "vindex_ok (sh_vindex sh)" using assms(1) by (simp add: shard_ok_def)
  have argv: "c_argv ?c0 = argv" "argc ?c0 = length argv" "view ?c0 = sh_view sh" "c_clock ?c0 = xe_clock X"
    by (simp_all add: ctx_new_def argc_def view_def sh_view_def)
  have mem: "spec \<in> set command_table" using find_command_table [OF assms(4)] by simp
  have P: "scores_ok (xe_run X) (cs_fn spec) argv" "\<not> c_ub c"
    using assms(2,4,6) by (auto simp: proper_def)
  have "db_ok (c_db c) \<and> store_full (db_abs (c_db c)) \<and> vindex_ok vx \<and>
    (\<not> is_flush (cs_fn spec) \<longrightarrow> c_dirty c \<or> forgets (xe_clock X) (sh_view sh) (db_abs (c_db c))) \<and>
    (is_flush (cs_fn spec) \<longrightarrow> db_abs (c_db c) = Map.empty \<and> vx = Map.empty)"
  proof (cases "is_flush (cs_fn spec)")
    case True
    note fl = run_flush [OF readyD(1) [OF ready] True, where E = "xe_run X" and vx = "sh_vindex sh"]
    from fl assms(6) True show ?thesis by (simp add: ok_def view_def store_full_def vindex_ok_def)
  next
    case False
    from run_fn_sound [OF ready vx assms(3) _ _ False] arity_min_args [OF mem assms(5)] P assms(6) argv
    have "sound ?c0 c \<and> vindex_ok vx" by simp
    then show ?thesis using readyD(2) [OF ready] argv False by (auto simp: sound_def ok_def view_def)
  qed
  then show "db_ok (c_db c)" "store_full (db_abs (c_db c))" "vindex_ok vx"
    "\<not> is_flush (cs_fn spec) \<Longrightarrow> c_dirty c \<or> forgets (xe_clock X) (sh_view sh) (db_abs (c_db c))"
    "is_flush (cs_fn spec) \<Longrightarrow> db_abs (c_db c) = Map.empty \<and> vx = Map.empty" by auto
qed

lemma exec_core_ok:
  assumes "shard_ok sh" "proper X argv sh" "sorts (re_fpu (xe_run X))"
  shows "shard_ok (snd (exec_core X argv sh))"
proof (cases "find_command (to_lower (cmd_word argv))")
  case None
  then show ?thesis using assms(1) by (simp add: exec_core_def)
next
  case (Some spec)
  show ?thesis
  proof (cases "arity_ok spec (length argv)")
    case False
    then show ?thesis using Some assms(1) by (simp add: exec_core_def)
  next
    case True
    obtain c vx where r: "run_fn (xe_run X) (cs_fn spec) (sh_vindex sh) (ctx_new argv (sh_db sh) (xe_clock X)) = (c, vx)"
      by fastforce
    have "sh_db (snd (exec_core X argv sh)) = c_db c" "sh_vindex (snd (exec_core X argv sh)) = vx"
      using Some True r by (simp_all add: exec_core_def Let_def)
    then show ?thesis using run_shard(1-3) [OF assms Some True r] by (simp add: shard_ok_def)
  qed
qed

end
