(* ===== verification/Cmd_Reads.thy ===== *)
theory Cmd_Reads
  imports Cmd_Run
begin

section \<open>Commands that only read\<close>

text \<open>
  The write flag of the command table and the dirty flag of the context agree: a command that the table
  does not mark as a write never sets the dirty flag. (FLUSHALL and FLUSHDB are not marked either; they
  change the store without it, and the log is reset instead.)
\<close>

lemma dirty_replies [simp]:
  "c_dirty (r_simple_string s c) = c_dirty c" "c_dirty (r_error s c) = c_dirty c" "c_dirty (r_integer n c) = c_dirty c"
  "c_dirty (r_bulk s c) = c_dirty c" "c_dirty (r_null_bulk c) = c_dirty c" "c_dirty (r_null_array c) = c_dirty c"
  "c_dirty (r_array_header n c) = c_dirty c" "c_dirty (err_wrong_args c) = c_dirty c"
  "c_dirty (err_wrong_type c) = c_dirty c" "c_dirty (err_not_int c) = c_dirty c" "c_dirty (err_not_float c) = c_dirty c"
  "c_dirty (err_syntax c) = c_dirty c" "c_dirty (r_double F v c) = c_dirty c" "c_dirty (c_hit c) = c_dirty c"
  "c_dirty (c_miss c) = c_dirty c" "c_dirty (flag_ub c) = c_dirty c"
  by (simp_all add: reply_defs r_double_def err_not_float_def err_syntax_def c_hit_def c_miss_def flag_ub_def)

lemma dirty_lookups [simp]:
  "c_dirty (snd (db_lookup k c)) = c_dirty c" "c_dirty (snd (get_typed t k c)) = c_dirty c"
  "c_dirty (snd (db_ttl_ms k c)) = c_dirty c"
  by (simp_all add: snd_get_typed db_lookup_eq db_ttl_ms_def now_ms_def split_beta)

lemma dirty_pairs:
  "db_lookup k c = (r, c1) \<Longrightarrow> c_dirty c1 = c_dirty c" "get_typed t k c = (ty, c1) \<Longrightarrow> c_dirty c1 = c_dirty c"
  "db_ttl_ms k c = (n, c1) \<Longrightarrow> c_dirty c1 = c_dirty c"
  using dirty_lookups by (metis snd_conv)+

lemma dirty_fold: "(\<And>c x. c_dirty (f c x) = c_dirty c) \<Longrightarrow> c_dirty (foldl f c xs) = c_dirty c"
  by (induction xs arbitrary: c) simp_all

lemma dirty_fold_snd:
  "(\<And>s x. c_dirty (snd (f s x)) = c_dirty (snd s)) \<Longrightarrow> c_dirty (snd (foldl f s xs)) = c_dirty (snd s)"
  by (induction xs arbitrary: s) simp_all

lemmas read_splits = prod.splits typed.splits option.splits

text \<open>From a specification: the reference function of a reading command never reports a write.\<close>

lemma dirty_runs: "runs c k f c' \<Longrightarrow> (\<And>e. \<not> snd (snd (f e))) \<Longrightarrow> c_dirty c' = c_dirty c"
  by (auto simp: runs_def split_beta)

lemma quiet_cases:
  assumes "\<not> snd (snd (f None))" "\<And>s d. \<not> snd (snd (f (Some (AStr s, d))))" "\<And>l d. \<not> snd (snd (f (Some (AList l, d))))"
    "\<And>m d. \<not> snd (snd (f (Some (AHash m, d))))" "\<And>s d. \<not> snd (snd (f (Some (ASet s, d))))"
    "\<And>z d. \<not> snd (snd (f (Some (AZSet z, d))))" "\<And>s d. \<not> snd (snd (f (Some (AHll s, d))))"
  shows "\<not> snd (snd (f (e :: aentry option)))"
proof (cases e)
  case (Some x)
  then show ?thesis using assms(2-7) by (cases x; cases "fst x") auto
qed (simp add: assms(1))

lemma quiet_specs:
  "\<not> snd (snd (spec_get e))" "\<not> snd (snd (spec_strlen e))" "\<not> snd (snd (spec_getrange a b e))"
  "\<not> snd (snd (spec_type e))" "\<not> snd (snd (spec_object sub e))" "\<not> snd (snd (spec_llen e))"
  "\<not> snd (snd (spec_lrange a b e))" "\<not> snd (snd (spec_lindex a e))" "\<not> snd (snd (spec_sismember a e))"
  "\<not> snd (snd (spec_scard e))" "\<not> snd (snd (spec_smembers ms e))" "\<not> snd (snd (spec_hget a e))"
  "\<not> snd (snd (spec_hexists a e))" "\<not> snd (snd (spec_hlen e))" "\<not> snd (snd (spec_hmget args e))"
  "\<not> snd (snd (spec_henum w g es e))" "\<not> snd (snd (spec_zscore F a e))" "\<not> snd (snd (spec_zcard e))"
  by (rule quiet_cases; auto simp: spec_get_def spec_strlen_def spec_getrange_def spec_type_def spec_object_def
      spec_llen_def spec_lrange_def spec_lindex_def spec_sismember_def spec_scard_def spec_smembers_def
      spec_hget_def spec_hexists_def spec_hlen_def spec_hmget_def spec_henum_def spec_zscore_def spec_zcard_def
      Let_def split: option.splits)+

lemma read_single:
  assumes "ok c"
  shows "c_dirty (cmd_get c) = c_dirty c" "c_dirty (cmd_strlen c) = c_dirty c" "c_dirty (cmd_getrange c) = c_dirty c"
    "c_dirty (cmd_type c) = c_dirty c" "c_dirty (cmd_llen c) = c_dirty c"
    "c_dirty (cmd_lrange c) = c_dirty c" "c_dirty (cmd_lindex c) = c_dirty c" "c_dirty (cmd_sismember c) = c_dirty c"
    "c_dirty (cmd_scard c) = c_dirty c" "c_dirty (cmd_hget c) = c_dirty c" "c_dirty (cmd_hexists c) = c_dirty c"
    "c_dirty (cmd_hlen c) = c_dirty c" "c_dirty (cmd_zscore F c) = c_dirty c" "c_dirty (cmd_zcard c) = c_dirty c"
  by (rule dirty_runs [OF _ quiet_specs(1)] dirty_runs [OF _ quiet_specs(2)] dirty_runs [OF _ quiet_specs(3)]
      dirty_runs [OF _ quiet_specs(4)] dirty_runs [OF _ quiet_specs(6)] dirty_runs [OF _ quiet_specs(7)]
      dirty_runs [OF _ quiet_specs(8)] dirty_runs [OF _ quiet_specs(9)] dirty_runs [OF _ quiet_specs(10)]
      dirty_runs [OF _ quiet_specs(12)] dirty_runs [OF _ quiet_specs(13)] dirty_runs [OF _ quiet_specs(14)]
      dirty_runs [OF _ quiet_specs(17)] dirty_runs [OF _ quiet_specs(18)],
      rule single_runs [OF assms] cmd_zscore_runs [OF assms] cmd_zcard_runs [OF assms])+

lemma read_enumerations:
  assumes "ok c"
  shows "c_dirty (cmd_smembers c) = c_dirty c" "c_dirty (cmd_hgetall c) = c_dirty c"
    "c_dirty (cmd_hkeys c) = c_dirty c" "c_dirty (cmd_hvals c) = c_dirty c"
proof -
  show "c_dirty (cmd_smembers c) = c_dirty c" using cmd_smembers_runs [OF assms] dirty_runs quiet_specs(11) by meson
  show "c_dirty (cmd_hgetall c) = c_dirty c" using cmd_hgetall_runs [OF assms] dirty_runs quiet_specs(16) by meson
  show "c_dirty (cmd_hkeys c) = c_dirty c" using cmd_hkeys_runs [OF assms] dirty_runs quiet_specs(16) by meson
  show "c_dirty (cmd_hvals c) = c_dirty c" using cmd_hvals_runs [OF assms] dirty_runs quiet_specs(16) by meson
qed

lemma read_args:
  assumes "ok c"
  shows "2 \<le> argc c \<Longrightarrow> c_dirty (cmd_hmget c) = c_dirty c" "c_dirty (cmd_object c) = c_dirty c"
    "c_dirty (cmd_pttl c) = c_dirty c"
proof -
  show "2 \<le> argc c \<Longrightarrow> c_dirty (cmd_hmget c) = c_dirty c"
    using dirty_runs [OF cmd_hmget_runs [OF assms] quiet_specs(15)] by simp
  show "c_dirty (cmd_object c) = c_dirty c"
  proof (cases "argc c < 3")
    case True
    then show ?thesis by (simp add: cmd_object_def)
  next
    case False
    then show ?thesis using dirty_runs [OF cmd_object_runs [OF assms] quiet_specs(5)] by simp
  qed
  show "c_dirty (cmd_pttl c) = c_dirty c" using dirty_runs [OF cmd_pttl_runs [OF assms]] by simp
qed

lemma read_multi:
  "c_dirty (cmd_exists c) = c_dirty c" "c_dirty (cmd_mget c) = c_dirty c" "c_dirty (cmd_ttl c) = c_dirty c"
proof -
  have "c_dirty (snd (exists_step s k)) = c_dirty (snd s)" for s k
    by (simp add: exists_step_def db_exists_eq split_beta)
  from dirty_fold_snd [of exists_step, OF this] show "c_dirty (cmd_exists c) = c_dirty c"
    by (simp add: cmd_exists_def split_beta)
  have "c_dirty (mget_step c k) = c_dirty c" for c k
    by (simp add: mget_step_def split: read_splits) (auto dest: dirty_pairs)
  then show "c_dirty (cmd_mget c) = c_dirty c" by (simp add: cmd_mget_def dirty_fold)
  show "c_dirty (cmd_ttl c) = c_dirty c" by (auto simp: cmd_ttl_def split: prod.splits dest: dirty_pairs)
qed

lemma read_listings:
  assumes "ok c"
  shows "c_dirty (cmd_keys c) = c_dirty c" "c_dirty (cmd_scan c) = c_dirty c" "c_dirty (cmd_randomkey c) = c_dirty c"
proof -
  show "c_dirty (cmd_keys c) = c_dirty c" using cmd_keys_correct [OF assms] by (auto simp: ticked_def)
  obtain pat ty where "scan_options (drop 2 (c_argv c)) ''*'' None = (pat, ty)" by fastforce
  from cmd_scan_correct [OF assms this] show "c_dirty (cmd_scan c) = c_dirty c" by (auto simp: ticked_def)
  show "c_dirty (cmd_randomkey c) = c_dirty c" using cmd_randomkey_run [of c] by auto
qed

lemma says_dirty: "says c c' \<Longrightarrow> c_dirty c' = c_dirty c"
  by (auto simp: says_def)

lemma read_says:
  "c_dirty (cmd_zrange F c) = c_dirty c" "c_dirty (cmd_zrank c) = c_dirty c"
  "c_dirty (cmd_zrangebyscore F c) = c_dirty c" "c_dirty (cmd_vcard vx c) = c_dirty c"
  "vindex_ok vx \<Longrightarrow> c_dirty (cmd_vsim F U vx c) = c_dirty c"
  using says_dirty [OF says_zrange [of c F, unfolded get_zset_def]] says_dirty [OF says_zrank [of c, unfolded get_zset_def]]
    says_zrangebyscore [of c F, unfolded get_zset_def]
  by (auto dest: says_dirty says_vsim simp: cmd_vcard_def)

lemma read_pfcount: "c_dirty (cmd_pfcount est c) = c_dirty c"
proof -
  have "c_dirty (snd (pf_merge_step s k)) = c_dirty (snd s)" for s k
    by (cases s) (auto simp: pf_merge_step_def split: read_splits dest: dirty_pairs)
  from dirty_fold_snd [of pf_merge_step, OF this] show ?thesis by (simp add: cmd_pfcount_def split_beta)
qed

text \<open>The handlers named by the rows that are not writes.\<close>

fun read_only :: "CommandFn \<Rightarrow> bool" where
  "read_only (Fn_strings f) = (f \<in> {F_get, F_strlen, F_mget, F_getrange})"
| "read_only (Fn_generic f) = (f \<in> {F_exists, F_ttl, F_pttl, F_type, F_keys, F_scan, F_randomkey, F_object})"
| "read_only (Fn_hashes f) = (f \<in> {F_hget, F_hexists, F_hgetall, F_hkeys, F_hvals, F_hlen, F_hmget})"
| "read_only (Fn_lists f) = (f \<in> {F_llen, F_lrange, F_lindex})"
| "read_only (Fn_sets f) = (f \<in> {F_sismember, F_scard, F_smembers})"
| "read_only (Fn_zsets f) = (f \<in> {F_zscore, F_zcard, F_zrank, F_zrange, F_zrangebyscore})"
| "read_only (Fn_hyperloglog f) = (f = F_pfcount)"
| "read_only (Fn_vector f) = (f \<in> {F_vsim, F_vcard})"
| "read_only (Fn_server f) = True"

lemma table_read_only: "\<forall>s\<in>set command_table. read_only (cs_fn s) \<longleftrightarrow> \<not> cs_write s"
  by (simp add: command_table_def command_spec_def)

lemma says_server_dirty:
  "\<not> is_flush (Fn_server f) \<Longrightarrow> c_dirty (fst (run_server E f vx c)) = c_dirty c"
  "is_flush (Fn_server f) \<Longrightarrow> c_dirty (fst (run_server E f vx c)) = c_dirty c"
  by (cases f; simp add: says_dirty [OF says_server(1)] says_dirty [OF says_server(2)] says_dirty [OF says_server(3)]
      says_dirty [OF says_server(4)] says_dirty [OF says_server(5)] says_dirty [OF says_server(6)]
      says_dirty [OF says_server(7)] says_dirty [OF says_server(8)] says_dirty [OF says_server(9)]
      says_dirty [OF says_server(10)] says_dirty [OF says_server(11)] says_dirty [OF says_server(12)]
      cmd_flushall_def cmd_flushdb_def flush_all_shards_def)+

lemma run_fn_read_only:
  assumes "read_only f" "ok c" "vindex_ok vx" "min_args f \<le> argc c"
  shows "c_dirty (fst (run_fn E f vx c)) = c_dirty c" "snd (run_fn E f vx c) = (if is_flush f then Map.empty else vx)"
proof -
  note all = read_single [OF assms(2)] read_enumerations [OF assms(2)] read_args [OF assms(2)] read_multi
    read_listings [OF assms(2)] read_says read_pfcount
  show "c_dirty (fst (run_fn E f vx c)) = c_dirty c"
  proof (cases f)
    case (Fn_server g)
    then show ?thesis using says_server_dirty [of g E vx c] by (cases "is_flush (Fn_server g)") simp_all
  qed (use assms in \<open>auto simp: all\<close>)
  show "snd (run_fn E f vx c) = (if is_flush f then Map.empty else vx)"
  proof (cases f)
    case (Fn_server g)
    then show ?thesis by (cases g) simp_all
  qed (use assms in auto)
qed

end
