(* ===== verification/Cmd_Effects.thy ===== *)
theory Cmd_Effects
  imports Cmd_Reads
begin

section \<open>Writes that depend on the store only\<close>

text \<open>
  For the writes whose effect is a function of the store, this theory says which one. They are the
  commands that neither read the clock nor enumerate a table nor set a deadline. On a store without
  deadlines, which is where a lookup forgets nothing, running such a command computes that function, in
  whatever layout the tables are. This is what a replay of the log rests on.
\<close>

definition timeless :: "astore \<Rightarrow> bool" where
  "timeless s \<longleftrightarrow> (\<forall>k a d. s k = Some (a, d) \<longrightarrow> d = None)"

lemma timeless_empty [simp]: "timeless Map.empty"
  by (simp add: timeless_def)

lemma timeless_live: "timeless s \<Longrightarrow> live now s k = s k"
  unfolding timeless_def live_def by (cases "s k") force+

lemma timeless_forgets: "timeless s \<Longrightarrow> forgets clk s s' \<Longrightarrow> s' = s"
  by (rule ext) (force simp: timeless_def forgets_def)

subsection \<open>Single-key writes\<close>

fun write_effect :: "run_env \<Rightarrow> CommandFn \<Rightarrow> bytes list \<Rightarrow> (aentry option \<Rightarrow> outcome) option" where
  "write_effect E (Fn_strings f) argv =
     (case f of
        F_set \<Rightarrow> if length argv = 3 then Some (\<lambda>e. (Some (AStr (argv ! 2), None), a_ok, True)) else None
      | F_setnx \<Rightarrow> Some (spec_setnx (argv ! 2))
      | F_getset \<Rightarrow> Some (spec_getset (argv ! 2))
      | F_append \<Rightarrow> Some (spec_append (argv ! 2))
      | F_setrange \<Rightarrow> Some (spec_setrange (argv ! 2) (argv ! 3))
      | F_incr \<Rightarrow> Some (spec_incr 1)
      | F_decr \<Rightarrow> Some (spec_incr (- 1))
      | F_incrby \<Rightarrow> map_option spec_incr (parse_int (argv ! 2))
      | F_decrby \<Rightarrow> (case parse_int (argv ! 2) of
            Some d \<Rightarrow> if d = i64_min then None else Some (spec_incr (- d)) | None \<Rightarrow> None)
      | F_incrbyfloat \<Rightarrow> Some (spec_incrbyfloat (re_fp E) (argv ! 2))
      | _ \<Rightarrow> None)"
| "write_effect E (Fn_generic f) argv = (if f = F_persist then Some spec_persist else None)"
| "write_effect E (Fn_lists f) argv =
     (case f of
        F_lpush \<Rightarrow> if 3 \<le> length argv then Some (spec_push True (drop 2 argv)) else None
      | F_rpush \<Rightarrow> if 3 \<le> length argv then Some (spec_push False (drop 2 argv)) else None
      | F_lset \<Rightarrow> Some (spec_lset (argv ! 2) (argv ! 3))
      | _ \<Rightarrow> None)"
| "write_effect E (Fn_sets f) argv =
     (case f of
        F_sadd \<Rightarrow> if 3 \<le> length argv then Some (spec_sadd (drop 2 argv)) else None
      | F_srem \<Rightarrow> Some (spec_srem (drop 2 argv))
      | _ \<Rightarrow> None)"
| "write_effect E (Fn_hashes f) argv =
     (case f of
        F_hset \<Rightarrow> if 4 \<le> length argv then Some (spec_hset (argv ! 0) (drop 2 argv)) else None
      | F_hdel \<Rightarrow> Some (spec_hdel (drop 2 argv))
      | _ \<Rightarrow> None)"
| "write_effect E (Fn_zsets f) argv =
     (case f of
        F_zrem \<Rightarrow> Some (spec_zrem (drop 2 argv))
      | F_zincrby \<Rightarrow> Some (spec_zincrby (re_fp E) (argv ! 2) (argv ! 3))
      | _ \<Rightarrow> None)"
| "write_effect E (Fn_hyperloglog f) argv = (if f = F_pfadd then Some (spec_pfadd (drop 2 argv)) else None)"
| "write_effect E _ argv = None"

text \<open>On an entry without a deadline the result has none.\<close>

definition tame :: "(aentry option \<Rightarrow> outcome) \<Rightarrow> bool" where
  "tame f \<longleftrightarrow> (\<forall>e. (e = None \<or> (\<exists>a. e = Some (a, None))) \<longrightarrow> (fst (f e) = None \<or> (\<exists>a. fst (f e) = Some (a, None))))"

lemma tame_cases:
  assumes "\<And>e. e = fst (f None) \<Longrightarrow> e = None \<or> (\<exists>a. e = Some (a, None))"
    "\<And>e s. e = fst (f (Some (AStr s, None))) \<Longrightarrow> e = None \<or> (\<exists>a. e = Some (a, None))"
    "\<And>e l. e = fst (f (Some (AList l, None))) \<Longrightarrow> e = None \<or> (\<exists>a. e = Some (a, None))"
    "\<And>e m. e = fst (f (Some (AHash m, None))) \<Longrightarrow> e = None \<or> (\<exists>a. e = Some (a, None))"
    "\<And>e s. e = fst (f (Some (ASet s, None))) \<Longrightarrow> e = None \<or> (\<exists>a. e = Some (a, None))"
    "\<And>e z. e = fst (f (Some (AZSet z, None))) \<Longrightarrow> e = None \<or> (\<exists>a. e = Some (a, None))"
    "\<And>e s. e = fst (f (Some (AHll s, None))) \<Longrightarrow> e = None \<or> (\<exists>a. e = Some (a, None))"
  shows "tame f"
  unfolding tame_def
proof (intro allI impI)
  fix e :: "aentry option"
  assume "e = None \<or> (\<exists>a. e = Some (a, None))"
  then show "fst (f e) = None \<or> (\<exists>a. fst (f e) = Some (a, None))"
  proof
    assume "\<exists>a. e = Some (a, None)"
    then obtain a where e: "e = Some (a, None)" ..
    show ?thesis unfolding e by (cases a) (use assms(2-7) in \<open>simp_all only: refl\<close>)
  qed (use assms(1) in simp)
qed

lemma tame_strings:
  "tame (\<lambda>e. (Some (AStr v, None), a_ok, True))" "tame (spec_setnx v)" "tame (spec_getset v)" "tame (spec_append v)"
  "tame (spec_setrange a v)" "tame (spec_incr delta)" "tame (spec_incrbyfloat F x)" "tame spec_persist"
  by (rule tame_cases; simp add: spec_setnx_def spec_getset_def spec_append_def spec_setrange_def spec_incr_def
      spec_incrbyfloat_def spec_persist_def Let_def split: option.splits if_splits)+

lemma tame_containers:
  "tame (spec_push head args)" "tame (spec_lset i v)" "tame (spec_sadd args)" "tame (spec_srem args)"
  "tame (spec_hset nm args)" "tame (spec_hdel args)" "tame (spec_zrem args)" "tame (spec_zincrby F x m)"
  "tame (spec_pfadd args)"
  by (rule tame_cases; simp add: spec_push_def spec_lset_def spec_sadd_def spec_srem_def spec_hset_def spec_hdel_def
      spec_zrem_def spec_zincrby_def spec_pfadd_def set_entry_def hash_entry_def Let_def
      split: option.splits if_splits)+

lemma cmd_set_plain_runs:
  assumes "ok c" "argc c = 3"
  shows "runs c (arg c 1) (\<lambda>e. (Some (AStr (arg c 2), None), a_ok, True)) (cmd_set c)"
proof -
  have opts: "set_options (drop 3 (c_argv c)) set_init c = (Some set_init, c)" using assms(2) by (simp add: argc_def)
  have "spec_set set_init (arg c 2) t = (\<lambda>e. (Some (AStr (arg c 2), None), a_ok, True))" for t
    by (rule ext) (simp add: spec_set_def set_init_def Let_def)
  then show ?thesis using cmd_set_runs [OF assms(1) opts] by simp
qed

lemma write_effect_runs:
  assumes "write_effect E fn (c_argv c) = Some f" "ok c"
  shows "runs c (arg c 1) f (fst (run_fn E fn vx c))" "snd (run_fn E fn vx c) = vx"
    "well_spec f" "tame f"
proof -
  have n3: "drop 2 (c_argv c) \<noteq> []" if "3 \<le> length (c_argv c)" using that by simp
  have n4: "2 \<le> length (drop 2 (c_argv c))" "2 \<le> argc c" if "4 \<le> length (c_argv c)" using that by (simp_all add: argc_def)
  have hset: "runs c (arg c 1) (spec_hset (arg c 0) (drop 2 (c_argv c))) (cmd_hset c)" if "4 \<le> length (c_argv c)"
  proof -
    have "cmd_name c = arg c 0" using that by (auto simp: cmd_name_def arg_def)
    then show ?thesis using cmd_hset_runs [OF assms(2) n4(2) [OF that]] by simp
  qed
  have neg: "in_i64 (- d)" if "parse_int (arg c 2) = Some d" "d \<noteq> i64_min" for d
    using parse_int_range [OF that(1)] that(2) by (auto simp: in_i64_iff i64_min_def)
  note runs = cmd_setnx_runs [OF assms(2)] cmd_getset_runs [OF assms(2)] cmd_append_runs [OF assms(2)]
    cmd_setrange_runs [OF assms(2)] incr_step_runs [OF assms(2)] cmd_incrbyfloat_runs [OF assms(2)]
    cmd_persist_runs [OF assms(2)] push_runs [OF assms(2)] cmd_lset_runs [OF assms(2)] cmd_sadd_runs [OF assms(2)]
    cmd_srem_runs [OF assms(2)] cmd_hset_runs [OF assms(2)] cmd_hdel_runs [OF assms(2)] cmd_zrem_runs [OF assms(2)]
    cmd_zincrby_runs [OF assms(2)] cmd_pfadd_runs [OF assms(2)] cmd_set_plain_runs [OF assms(2)]
  have nth: "c_argv c ! i = arg c i" for i by (simp add: arg_def)
  have incr: "runs c (arg c 1) (spec_incr d) (cmd_incrby c)" if "parse_int (arg c 2) = Some d" for d
    using incr_by_runs [OF assms(2) parse_int_range [OF that]] that by (simp add: cmd_incrby_def)
  have decr: "runs c (arg c 1) (spec_incr (- d)) (cmd_decrby c)" if "parse_int (arg c 2) = Some d" "d \<noteq> i64_min" for d
    using incr_by_runs [OF assms(2) neg [OF that]] that by (simp add: cmd_decrby_def)
  have "runs c (arg c 1) f (fst (run_fn E fn vx c)) \<and> snd (run_fn E fn vx c) = vx \<and> well_spec f \<and> tame f"
  proof (cases fn)
    case (Fn_strings g)
    have "well_spec (\<lambda>e. (Some (AStr v, None), a_ok, True))" for v by (rule well_specI) auto
    then show ?thesis using assms(1) Fn_strings incr decr
      by (cases g) (auto simp del: One_nat_def simp: runs tame_strings well_strings well_incrbyfloat nth argc_def split: if_splits option.splits)
  next
    case (Fn_generic g)
    then show ?thesis using assms(1) by (auto simp del: One_nat_def simp: runs tame_strings well_generic split: if_splits)
  next
    case (Fn_hashes g)
    then show ?thesis using assms(1) n4 hset
      by (cases g) (auto simp del: One_nat_def simp: runs tame_containers well_hashes nth split: if_splits)
  next
    case (Fn_lists g)
    then show ?thesis using assms(1) n3
      by (cases g) (auto simp del: One_nat_def simp: cmd_lpush_def cmd_rpush_def runs tame_containers well_lists nth split: if_splits)
  next
    case (Fn_sets g)
    then show ?thesis using assms(1) n3
      by (cases g) (auto simp del: One_nat_def simp: runs tame_containers well_sets split: if_splits)
  next
    case (Fn_zsets g)
    then show ?thesis using assms(1) by (cases g) (auto simp del: One_nat_def simp: runs tame_containers well_zsets nth)
  next
    case (Fn_hyperloglog g)
    then show ?thesis using assms(1) by (auto simp del: One_nat_def simp: runs tame_containers well_pfadd split: if_splits)
  qed (use assms(1) in auto)
  then show "runs c (arg c 1) f (fst (run_fn E fn vx c))" "snd (run_fn E fn vx c) = vx" "well_spec f" "tame f" by auto
qed

subsection \<open>All covered commands as functions on the store\<close>

definition mset_entries :: "bytes list \<Rightarrow> astore" where
  "mset_entries args = map_of (rev (map (\<lambda>(k, v). (k, (AStr v, None))) (pairs args)))"

definition store_effect :: "run_env \<Rightarrow> CommandFn \<Rightarrow> bytes list \<Rightarrow> (astore \<Rightarrow> astore) option" where
  "store_effect E fn argv =
     (if fn = Fn_generic F_del \<or> fn = Fn_generic F_unlink then Some (\<lambda>s. s |` (- set (drop 1 argv)))
      else if fn = Fn_strings F_mset then (if odd (length argv) then Some (\<lambda>s. s ++ mset_entries (drop 1 argv)) else None)
      else if read_only fn then (if is_flush fn then None else Some (\<lambda>s. s))
      else map_option (\<lambda>f s. s(argv ! 1 := fst (f (s (argv ! 1))))) (write_effect E fn argv))"

lemma timeless_upd: "timeless s \<Longrightarrow> (e = None \<or> (\<exists>a. e = Some (a, None))) \<Longrightarrow> timeless (s(k := e))"
  by (auto simp: timeless_def)

lemma timeless_entry: "timeless s \<Longrightarrow> s k = None \<or> (\<exists>a. s k = Some (a, None))"
  by (cases "s k") (auto simp: timeless_def)

lemma mset_entries_timeless: "timeless s \<Longrightarrow> timeless (s ++ mset_entries args)"
  by (auto simp: timeless_def mset_entries_def map_add_Some_iff dest!: map_of_SomeD)

text \<open>Running a covered command on a fresh context computes its function, and an unmarked one changes nothing.\<close>

lemma store_effect_run:
  assumes "store_effect E fn (c_argv c) = Some g" "ready c" "timeless (view c)" "\<not> c_dirty c" "vindex_ok vx"
    "sorts (re_fpu E)" "min_args fn \<le> argc c"
  shows "view (fst (run_fn E fn vx c)) = g (view c)" "timeless (g (view c))"
    "\<not> c_dirty (fst (run_fn E fn vx c)) \<Longrightarrow> g (view c) = view c"
    "ready (fst (run_fn E fn vx c))" "vindex_ok (snd (run_fn E fn vx c))"
proof -
  let ?r = "run_fn E fn vx c"
  note ok = readyD(1) [OF assms(2)] and full = readyD(2) [OF assms(2)]
  have "view (fst ?r) = g (view c) \<and> timeless (g (view c)) \<and> (\<not> c_dirty (fst ?r) \<longrightarrow> g (view c) = view c) \<and>
      sound c (fst ?r) \<and> vindex_ok (snd ?r)"
  proof (cases "fn = Fn_generic F_del \<or> fn = Fn_generic F_unlink")
    case True
    then have r: "?r = (cmd_del c, vx)" and g: "g = (\<lambda>s. s |` (- set (drop 1 (c_argv c))))"
      using assms(1) by (auto simp: store_effect_def cmd_unlink_def)
    have "timeless (view c |` A)" for A using assms(3) by (simp add: timeless_def restrict_map_def)
    then show ?thesis
      using cmd_del_correct [OF ok] restrict_disjoint [of "set (drop 1 (c_argv c))" "view c"] sound_writes(1) [OF assms(2)]
        assms(5) by (auto simp: r g)
  next
    case nodel: False
    show ?thesis
    proof (cases "fn = Fn_strings F_mset")
      case True
      then have r: "?r = (cmd_mset c, vx)" and g: "g = (\<lambda>s. s ++ mset_entries (drop 1 (c_argv c)))" "odd (argc c)"
        using assms(1) by (auto simp: store_effect_def argc_def split: if_splits)
      show ?thesis
        using cmd_mset_correct [OF ok g(2)] sound_writes(3) [OF assms(2)] assms(5) mset_entries_timeless [OF assms(3)]
        by (simp add: r g(1) mset_entries_def)
    next
      case nomset: False
      show ?thesis
      proof (cases "read_only fn")
        case True
        then have g: "g = (\<lambda>s. s)" "\<not> is_flush fn"
          using assms(1) nodel nomset by (auto simp: store_effect_def split: if_splits)
        have nd: "\<not> c_dirty (fst ?r)" using run_fn_read_only(1) [OF True ok assms(5,7)] assms(4) by simp
        have "scores_ok E fn (c_argv c)" using True by (cases "(E, fn, c_argv c)" rule: scores_ok.cases) auto
        have snd: "sound c (fst ?r) \<and> vindex_ok (snd ?r)"
        proof (cases fn)
          case (Fn_strings f)
          have "sound c (run_strings E f c)"
            using True Fn_strings sound_single [OF assms(2)] sound_multi_reads [OF assms(2)] by auto
          then show ?thesis using Fn_strings assms(5) by simp
        next
          case (Fn_hashes f)
          have "sound c (run_hashes f c)"
            using True Fn_hashes sound_single [OF assms(2)] sound_enumerations [OF assms(2)] sound_arity [OF assms(2)]
              assms(7) by auto
          then show ?thesis using Fn_hashes assms(5) by simp
        next
          case (Fn_zsets f)
          have "sound c (run_zsets E f c)" using True Fn_zsets sound_zsets [OF assms(2)] by auto
          then show ?thesis using Fn_zsets assms(5) by simp
        next
          case (Fn_generic f)
          then show ?thesis using run_plain_sound(2) [OF assms(2), of f] assms(5) by simp
        next
          case (Fn_lists f)
          then show ?thesis using run_plain_sound(4) [OF assms(2), of f] assms(5,7) by simp
        next
          case (Fn_sets f)
          then show ?thesis using run_plain_sound(5) [OF assms(2), of f] assms(5,7) by simp
        next
          case (Fn_hyperloglog f)
          then show ?thesis using run_plain_sound(7) [OF assms(2), of E f] assms(5) by simp
        next
          case (Fn_vector f)
          then show ?thesis using run_vector_sound [OF ok assms(5,6), of f] by simp
        next
          case (Fn_server f)
          then show ?thesis using run_server_sound [OF ok, of f E vx] g(2) assms(5) by simp
        qed
        then have "forgets (c_clock c) (view c) (view (fst ?r))" using nd by (simp add: sound_def)
        then show ?thesis using timeless_forgets [OF assms(3)] snd g(1) assms(3) by simp
      next
        case noread: False
        then obtain f where f: "write_effect E fn (c_argv c) = Some f"
          and g: "g = (\<lambda>s. s(arg c 1 := fst (f (s (arg c 1)))))"
          using assms(1) nodel nomset by (auto simp: store_effect_def arg_def)
        note w = write_effect_runs [OF f ok]
        have pk: "peek c (arg c 1) = view c (arg c 1)" by (simp add: peek_def timeless_live [OF assms(3)])
        obtain e out d where fe: "f (view c (arg c 1)) = (e, out, d)" by (metis prod_cases3)
        note r = w(1) [of vx, unfolded runs_def pk fe prod.case]
        have gv: "g (view c) = (view c)(arg c 1 := e)" by (simp del: One_nat_def add: g fe)
        have "view (fst ?r) = g (view c)" using r by (auto simp: gv)
        moreover have "timeless (g (view c))"
          unfolding g
          by (rule timeless_upd [OF assms(3)], rule w(4) [unfolded tame_def, rule_format])
            (rule timeless_entry [OF assms(3)])
        moreover have "g (view c) = view c" if "\<not> c_dirty (fst ?r)"
        proof -
          have "entry_full (view c (arg c 1))"
            using entry_full_live [OF full, of 0 "arg c 1"] by (simp add: timeless_live [OF assms(3)])
          then have "d \<or> e = view c (arg c 1)" using w(3) fe by (auto simp: well_spec_def)
          then show ?thesis using that r by (auto simp: gv)
        qed
        ultimately show ?thesis using sound_runs [OF w(1,3) full] w(2) assms(5) by simp
      qed
    qed
  qed
  then show "view (fst ?r) = g (view c)" "timeless (g (view c))" "\<not> c_dirty (fst ?r) \<Longrightarrow> g (view c) = view c"
    "ready (fst ?r)" "vindex_ok (snd ?r)"
    using full by (auto simp: sound_def ready_def)
qed

end
