(* ===== verification/Recovery.thy ===== *)
theory Recovery
  imports Shard Cmd_Effects
begin

section \<open>Recovery from the log\<close>

text \<open>
  The log of a shard holds the encoding of every command that changed something, in order. Replaying it,
  or what a crash left of it, gives a state the shard was in: whole commands are replayed in order, and
  a torn last command is ignored. The theorems are about commands whose effect is a function of the
  store (\<^verbatim>\<open>Cmd_Effects\<close>), on a store without deadlines; for a relative EXPIRE or a SPOP the log does not
  determine the effect.
\<close>

definition command_effect :: "run_env \<Rightarrow> bytes list \<Rightarrow> (astore \<Rightarrow> astore) option" where
  "command_effect E argv =
     (case find_command (to_lower (cmd_word argv)) of
        None \<Rightarrow> Some (\<lambda>s. s)
      | Some spec \<Rightarrow> if arity_ok spec (length argv) then store_effect E (cs_fn spec) argv else Some (\<lambda>s. s))"

text \<open>The effect depends on the environment only through the arithmetic of doubles.\<close>

lemma write_effect_fp: "re_fp E = re_fp E' \<Longrightarrow> write_effect E fn argv = write_effect E' fn argv"
proof (cases fn)
  case (Fn_strings f)
  then show "re_fp E = re_fp E' \<Longrightarrow> ?thesis" by (cases f) simp_all
next
  case (Fn_zsets f)
  then show "re_fp E = re_fp E' \<Longrightarrow> ?thesis" by (cases f) simp_all
qed simp_all

lemma command_effect_fp: "re_fp E = re_fp E' \<Longrightarrow> command_effect E argv = command_effect E' argv"
  by (simp add: command_effect_def store_effect_def write_effect_fp [of E E'] split: option.split)

definition eff :: "run_env \<Rightarrow> bytes list \<Rightarrow> astore \<Rightarrow> astore" where
  "eff E argv = the (command_effect E argv)"

text \<open>A shard whose store has no deadlines.\<close>

definition calm :: "shard \<Rightarrow> bool" where
  "calm sh \<longleftrightarrow> shard_ok sh \<and> timeless (sh_view sh)"

lemma run_covered:
  assumes "calm sh" "sorts (re_fpu (xe_run X))" "store_effect (xe_run X) (cs_fn spec) argv = Some g"
    "find_command (to_lower (cmd_word argv)) = Some spec" "arity_ok spec (length argv)"
    "run_fn (xe_run X) (cs_fn spec) (sh_vindex sh) (ctx_new argv (sh_db sh) (xe_clock X)) = (c, vx)"
  shows "db_abs (c_db c) = g (sh_view sh)" "db_ok (c_db c)" "store_full (db_abs (c_db c))" "vindex_ok vx"
    "timeless (g (sh_view sh))" "\<not> c_dirty c \<Longrightarrow> g (sh_view sh) = sh_view sh"
proof -
  let ?c0 = "ctx_new argv (sh_db sh) (xe_clock X)"
  have c0: "c_argv ?c0 = argv" "view ?c0 = sh_view sh" "\<not> c_dirty ?c0" "argc ?c0 = length argv"
    by (simp_all add: ctx_new_def view_def sh_view_def argc_def)
  have ready: "ready ?c0" using assms(1) by (simp add: calm_def ctx_new_ready)
  have vx: "vindex_ok (sh_vindex sh)" using assms(1) by (simp add: calm_def shard_ok_def)
  have args: "min_args (cs_fn spec) \<le> argc ?c0"
    using arity_min_args [OF conjunct1 [OF find_command_table [OF assms(4)]] assms(5)] c0 by simp
  have "timeless (view ?c0)" using assms(1) c0 by (simp add: calm_def)
  moreover have "store_effect (xe_run X) (cs_fn spec) (c_argv ?c0) = Some g" using assms(3) c0(1) by simp
  ultimately have tl: "timeless (view ?c0)" "store_effect (xe_run X) (cs_fn spec) (c_argv ?c0) = Some g" by simp_all
  note r = store_effect_run [OF tl(2) ready tl(1) c0(3) vx assms(2) args]
  show "db_abs (c_db c) = g (sh_view sh)" "timeless (g (sh_view sh))" "\<not> c_dirty c \<Longrightarrow> g (sh_view sh) = sh_view sh"
    "vindex_ok vx" using r assms(6) c0(2) by (simp_all add: view_def)
  show "db_ok (c_db c)" "store_full (db_abs (c_db c))" using r(4) assms(6) by (simp_all add: ready_def ok_def view_def)
qed

text \<open>One command executed: the view changes by its effect, and it is logged exactly if it was a write.\<close>

lemma flush_not_covered: "store_effect E fn argv = Some g \<Longrightarrow> \<not> is_flush fn"
  by (cases fn rule: is_flush.cases) (auto simp: store_effect_def)

lemma exec_core_covered:
  assumes "calm sh" "sorts (re_fpu (xe_run X))" "command_effect (xe_run X) argv \<noteq> None"
    "a_open (sh_aof sh)" "no_failures (sh_aof sh)"
  shows "sh_view (snd (exec_core X argv sh)) = eff (xe_run X) argv (sh_view sh) \<and> calm (snd (exec_core X argv sh)) \<and>
    a_open (sh_aof (snd (exec_core X argv sh))) \<and> no_failures (sh_aof (snd (exec_core X argv sh))) \<and>
    (logged (sh_aof (snd (exec_core X argv sh))) = logged (sh_aof sh) @ encode_multibulk argv \<or>
     logged (sh_aof (snd (exec_core X argv sh))) = logged (sh_aof sh) \<and> eff (xe_run X) argv (sh_view sh) = sh_view sh)"
proof (cases "\<exists>spec. find_command (to_lower (cmd_word argv)) = Some spec \<and> arity_ok spec (length argv)")
  case False
  then have "snd (exec_core X argv sh) = sh" "eff (xe_run X) argv (sh_view sh) = sh_view sh"
    by (auto simp: exec_core_def eff_def command_effect_def split: option.split)
  then show ?thesis using assms by simp
next
  case True
  then obtain spec where sp: "find_command (to_lower (cmd_word argv)) = Some spec" "arity_ok spec (length argv)" by blast
  then obtain g where g: "store_effect (xe_run X) (cs_fn spec) argv = Some g"
    using assms(3) by (auto simp: command_effect_def)
  then have eff: "eff (xe_run X) argv = g" using sp by (simp add: eff_def command_effect_def)
  obtain c vx where r: "run_fn (xe_run X) (cs_fn spec) (sh_vindex sh) (ctx_new argv (sh_db sh) (xe_clock X)) = (c, vx)"
    by fastforce
  note run = run_covered [OF assms(1,2) g sp r]
  let ?log = "c_dirty c \<and> cs_write spec"
  let ?sh = "snd (exec_core X argv sh)"
  have sh: "sh_db ?sh = c_db c" "sh_vindex ?sh = vx"
    "sh_aof ?sh = (if ?log then aof_append (encode_multibulk argv) (sh_aof sh) else sh_aof sh)"
    using sp r flush_not_covered [OF g] assms(4) by (simp_all add: exec_core_def Let_def)
  have calm: "calm ?sh" "sh_view ?sh = g (sh_view sh)"
    using run sh by (simp_all add: calm_def shard_ok_def sh_view_def)
  have quiet: "g (sh_view sh) = sh_view sh" if "\<not> ?log"
  proof (cases "cs_write spec")
    case True
    then show ?thesis using that run(6) by simp
  next
    case False
    then have rd: "read_only (cs_fn spec)" using table_read_only find_command_table [OF sp(1)] by blast
    show ?thesis using g rd flush_not_covered [OF g]
      by (auto simp: store_effect_def split: if_splits)
  qed
  show ?thesis using calm quiet sh(3) append_logged [OF assms(5,4)] assms(4,5) by (auto simp: eff)
qed

lemma exec_replay_covered:
  assumes "calm sh" "sorts (re_fpu (xe_run X))" "command_effect (xe_run X) argv \<noteq> None"
  shows "sh_view (exec_replay X argv sh) = eff (xe_run X) argv (sh_view sh)" "calm (exec_replay X argv sh)"
proof -
  have "sh_view (exec_replay X argv sh) = eff (xe_run X) argv (sh_view sh) \<and> calm (exec_replay X argv sh)"
  proof (cases "\<exists>spec. find_command (to_lower (cmd_word argv)) = Some spec \<and> arity_ok spec (length argv)")
    case False
    then have "exec_replay X argv sh = sh" "eff (xe_run X) argv (sh_view sh) = sh_view sh"
      by (auto simp: exec_replay_def eff_def command_effect_def split: option.split)
    then show ?thesis using assms by simp
  next
    case True
    then obtain spec where sp: "find_command (to_lower (cmd_word argv)) = Some spec" "arity_ok spec (length argv)" by blast
    then obtain g where g: "store_effect (xe_run X) (cs_fn spec) argv = Some g"
      using assms(3) by (auto simp: command_effect_def)
    then have eff: "eff (xe_run X) argv = g" using sp by (simp add: eff_def command_effect_def)
    obtain c vx where r: "run_fn (xe_run X) (cs_fn spec) (sh_vindex sh) (ctx_new argv (sh_db sh) (xe_clock X)) = (c, vx)"
      by fastforce
    have "sh_db (exec_replay X argv sh) = c_db c" "sh_vindex (exec_replay X argv sh) = vx"
      using sp r by (simp_all add: exec_replay_def Let_def)
    then show ?thesis using run_covered [OF assms(1,2) g sp r] eff
      by (simp add: calm_def shard_ok_def sh_view_def)
  qed
  then show "sh_view (exec_replay X argv sh) = eff (xe_run X) argv (sh_view sh)" "calm (exec_replay X argv sh)" by auto
qed

subsection \<open>Histories\<close>

text \<open>A shard executes commands one after the other, the \<open>i\<close>-th in its own environment.\<close>

fun run_history :: "(nat \<Rightarrow> exec_env) \<Rightarrow> nat \<Rightarrow> bytes list list \<Rightarrow> shard \<Rightarrow> shard" where
  "run_history X i [] sh = sh"
| "run_history X i (argv # rest) sh = run_history X (Suc i) rest (snd (exec_core (X i) argv sh))"

abbreviation replay_all :: "(nat \<Rightarrow> exec_env) \<Rightarrow> nat \<Rightarrow> bytes list list \<Rightarrow> shard \<Rightarrow> shard" where
  "replay_all X \<equiv> run_frames (\<lambda>i. exec_replay (X i))"

text \<open>All executions happen on one machine: the same arithmetic of doubles, whatever else differs.\<close>

definition one_machine :: "fp \<Rightarrow> (nat \<Rightarrow> exec_env) \<Rightarrow> bool" where
  "one_machine F X \<longleftrightarrow> (\<forall>i. re_fp (xe_run (X i)) = F \<and> sorts (re_fpu (xe_run (X i))))"

definition covered :: "run_env \<Rightarrow> bytes list \<Rightarrow> bool" where
  "covered E argv \<longleftrightarrow> command_effect E argv \<noteq> None \<and> argv \<noteq> [] \<and> small_args argv"

lemma one_machine_eff:
  assumes "one_machine F X" "re_fp E = F"
  shows "command_effect (xe_run (X i)) argv = command_effect E argv" "eff (xe_run (X i)) argv = eff E argv"
  using command_effect_fp [of "xe_run (X i)" E argv] assms by (simp_all add: one_machine_def eff_def)

lemma history_log:
  assumes "one_machine F X" "re_fp E = F" "calm sh" "a_open (sh_aof sh)" "no_failures (sh_aof sh)"
    "\<forall>c\<in>set cmds. covered E c"
  shows "\<exists>ws. logged (sh_aof (run_history X i cmds sh)) = logged (sh_aof sh) @ concat (map encode_multibulk ws) \<and>
    set ws \<subseteq> set cmds \<and> sh_view (run_history X i cmds sh) = foldl (\<lambda>s c. eff E c s) (sh_view sh) cmds \<and>
    (\<forall>j\<le>length ws. \<exists>m\<le>length cmds.
       foldl (\<lambda>s c. eff E c s) (sh_view sh) (take j ws) = foldl (\<lambda>s c. eff E c s) (sh_view sh) (take m cmds)) \<and>
    foldl (\<lambda>s c. eff E c s) (sh_view sh) ws = foldl (\<lambda>s c. eff E c s) (sh_view sh) cmds \<and>
    a_open (sh_aof (run_history X i cmds sh)) \<and> no_failures (sh_aof (run_history X i cmds sh))"
  using assms(3-6)
proof (induction cmds arbitrary: i sh)
  case Nil
  then show ?case by (intro exI [of _ "[]"]) simp
next
  case (Cons c cs)
  let ?sh = "snd (exec_core (X i) c sh)" and ?f = "\<lambda>s c. eff E c s"
  note m = one_machine_eff [OF assms(1,2), of i c]
  have cov: "command_effect (xe_run (X i)) c \<noteq> None" using Cons.prems(4) m by (simp add: covered_def)
  have so: "sorts (re_fpu (xe_run (X i)))" using assms(1) by (simp add: one_machine_def)
  from exec_core_covered [OF Cons.prems(1) so cov Cons.prems(2,3)] m
  have x: "sh_view ?sh = eff E c (sh_view sh)" "calm ?sh" "a_open (sh_aof ?sh)" "no_failures (sh_aof ?sh)"
    and lg: "logged (sh_aof ?sh) = logged (sh_aof sh) @ encode_multibulk c \<or>
      logged (sh_aof ?sh) = logged (sh_aof sh) \<and> eff E c (sh_view sh) = sh_view sh" by auto
  from Cons.IH [OF x(2-4), of "Suc i"] Cons.prems(4) obtain ws where
    ws: "logged (sh_aof (run_history X (Suc i) cs ?sh)) = logged (sh_aof ?sh) @ concat (map encode_multibulk ws)"
      "set ws \<subseteq> set cs" "sh_view (run_history X (Suc i) cs ?sh) = foldl ?f (sh_view ?sh) cs"
      "\<forall>j\<le>length ws. \<exists>m\<le>length cs. foldl ?f (sh_view ?sh) (take j ws) = foldl ?f (sh_view ?sh) (take m cs)"
      "foldl ?f (sh_view ?sh) ws = foldl ?f (sh_view ?sh) cs"
      "a_open (sh_aof (run_history X (Suc i) cs ?sh))" "no_failures (sh_aof (run_history X (Suc i) cs ?sh))" by auto
  show ?case
  proof (cases "logged (sh_aof ?sh) = logged (sh_aof sh) @ encode_multibulk c")
    case True
    have "\<exists>m\<le>length (c # cs). foldl ?f (sh_view sh) (take j (c # ws)) = foldl ?f (sh_view sh) (take m (c # cs))"
      if "j \<le> length (c # ws)" for j
    proof (cases j)
      case 0
      then show ?thesis by (intro exI [of _ 0]) simp
    next
      case (Suc j')
      then have "j' \<le> length ws" using that by simp
      then obtain m where "m \<le> length cs" "foldl ?f (sh_view ?sh) (take j' ws) = foldl ?f (sh_view ?sh) (take m cs)"
        using ws(4) by blast
      then show ?thesis using Suc x(1) by (intro exI [of _ "Suc m"]) simp
    qed
    then show ?thesis using True ws x(1) by (intro exI [of _ "c # ws"]) auto
  next
    case False
    then have same: "logged (sh_aof ?sh) = logged (sh_aof sh)" "eff E c (sh_view sh) = sh_view sh" using lg by auto
    have "\<exists>m\<le>length (c # cs). foldl ?f (sh_view sh) (take j ws) = foldl ?f (sh_view sh) (take m (c # cs))"
      if jl: "j \<le> length ws" for j
    proof -
      obtain m where "m \<le> length cs" "foldl ?f (sh_view ?sh) (take j ws) = foldl ?f (sh_view ?sh) (take m cs)"
        using ws(4) jl by blast
      then show ?thesis using same x(1) by (intro exI [of _ "Suc m"]) simp
    qed
    then show ?thesis using same ws x(1) by (intro exI [of _ ws]) auto
  qed
qed

subsection \<open>Replaying a log\<close>

lemma replay_all_view:
  assumes "one_machine F X" "re_fp E = F" "calm sh" "\<forall>c\<in>set ws. covered E c"
  shows "sh_view (replay_all X i ws sh) = foldl (\<lambda>s c. eff E c s) (sh_view sh) ws"
  using assms(3,4)
proof (induction ws arbitrary: i sh)
  case (Cons c cs)
  note m = one_machine_eff [OF assms(1,2), of i c]
  have cov: "command_effect (xe_run (X i)) c \<noteq> None" using Cons.prems(2) m by (simp add: covered_def)
  have so: "sorts (re_fpu (xe_run (X i)))" using assms(1) by (simp add: one_machine_def)
  from exec_replay_covered [OF Cons.prems(1) so cov] m Cons.IH [of "exec_replay (X i) c sh" "Suc i"] Cons.prems(2)
  show ?case by simp
qed simp

text \<open>Whole commands are replayed in order; a proper prefix of one more is ignored.\<close>

interpretation log: frame_reader encode_multibulk "\<lambda>argv. argv \<noteq> [] \<and> small_args argv" request_of needs_more
    "\<lambda>_. False" "\<lambda>i. exec_replay (X i)" "\<lambda>_ sh. sh" "replay_log X" for X
proof unfold_locales
  show "needs_more d \<Longrightarrow> replay_log X i d sh = sh" for i d sh
    by (subst replay_log.simps) (simp add: needs_more_def)
  show "argv \<noteq> [] \<and> small_args argv \<Longrightarrow> request_of d = Some (argv, k) \<Longrightarrow>
      replay_log X i d sh = replay_log X (Suc i) (drop k d) (exec_replay (X i) argv sh)" for argv d k i sh
    by (subst replay_log.simps) (auto simp: request_of_Some parse_request_def)
qed simp_all

text \<open>What a crash leaves of the log is a prefix of it; the recovered store is one the shard had.\<close>

lemma crash_recovery:
  assumes "one_machine F X" "one_machine F Y" "re_fp E = F" "calm sh" "a_open (sh_aof sh)" "no_failures (sh_aof sh)"
    "logged (sh_aof sh) = []" "\<forall>c\<in>set cmds. covered E c" "calm sh'" "sh_view sh' = sh_view sh"
  shows "\<exists>m\<le>length cmds. sh_view (replay_log Y 0 (take k (logged (sh_aof (run_history X 0 cmds sh)))) sh') =
      sh_view (run_history X 0 (take m cmds) sh)"
    "sh_view (replay_log Y 0 (logged (sh_aof (run_history X 0 cmds sh))) sh') = sh_view (run_history X 0 cmds sh)"
proof -
  let ?f = "\<lambda>s c. eff E c s"
  from history_log [OF assms(1,3,4,5,6,8), of 0] assms(7) obtain ws where
    ws: "logged (sh_aof (run_history X 0 cmds sh)) = concat (map encode_multibulk ws)" "set ws \<subseteq> set cmds"
      "sh_view (run_history X 0 cmds sh) = foldl ?f (sh_view sh) cmds"
      "\<forall>j\<le>length ws. \<exists>m\<le>length cmds. foldl ?f (sh_view sh) (take j ws) = foldl ?f (sh_view sh) (take m cmds)"
      "foldl ?f (sh_view sh) ws = foldl ?f (sh_view sh) cmds" by auto
  have cov: "\<forall>c\<in>set (take j ws). covered E c" for j using ws(2) assms(8) by (meson in_set_takeD subsetD)
  have small: "\<forall>c\<in>set (take j ws). c \<noteq> [] \<and> small_args c" for j using cov by (auto simp: covered_def)
  have hist: "sh_view (run_history X 0 (take m cmds) sh) = foldl ?f (sh_view sh) (take m cmds)" for m
    using history_log [OF assms(1,3,4,5,6), of "take m cmds" 0] assms(8) by (meson in_set_takeD)
  obtain j tail where cut: "j \<le> length ws"
    "take k (concat (map encode_multibulk ws)) = concat (map encode_multibulk (take j ws)) @ tail" "needs_more tail"
    using resp.cut_stream [of ws k] small [of "length ws"] by auto
  from log.loop_stream [OF _ small [of j] cut(3), of Y 0 sh'] cut(2) ws(1)
  have "replay_log Y 0 (take k (logged (sh_aof (run_history X 0 cmds sh)))) sh' = replay_all Y 0 (take j ws) sh'" by simp
  then have "sh_view (replay_log Y 0 (take k (logged (sh_aof (run_history X 0 cmds sh)))) sh') =
      foldl ?f (sh_view sh) (take j ws)"
    using replay_all_view [OF assms(2,3,9) cov] assms(10) by simp
  then show "\<exists>m\<le>length cmds. sh_view (replay_log Y 0 (take k (logged (sh_aof (run_history X 0 cmds sh)))) sh') =
      sh_view (run_history X 0 (take m cmds) sh)"
    using ws(4) cut(1) hist by auto
  from log.loop_stream [OF _ small [of "length ws"] resp.more_Nil, of Y 0 sh'] ws(1)
  have "replay_log Y 0 (logged (sh_aof (run_history X 0 cmds sh))) sh' = replay_all Y 0 ws sh'" by simp
  then show "sh_view (replay_log Y 0 (logged (sh_aof (run_history X 0 cmds sh))) sh') = sh_view (run_history X 0 cmds sh)"
    using replay_all_view [OF assms(2,3,9), of ws 0] cov [of "length ws"] assms(10) ws(3,5) by simp
qed

end
