(* ===== verification/Cluster.thy ===== *)
theory Cluster
  imports Shard
begin

section \<open>Connections, routing and cross-shard commands (\<^verbatim>\<open>include/blazekv/shard.hpp\<close>, \<^verbatim>\<open>src/server/shard.cpp\<close>)\<close>

text \<open>
  A node is a shard with its connections. A command is parsed from a connection's input, gets the next
  sequence number, and is executed here, forwarded to the shard that owns its keys, or split into one
  command per key. Replies wait in the pipeline of the connection, a map ordered by sequence number, and
  go to the output strictly from the front. The closures that shards post to each other are messages.
  The mailbox is a first-in first-out list; \<open>Mailbox\<close> shows that the lock-free queue is one.
\<close>

datatype ReplyKind = Single | MGet | MSet | DelCount | ExistsCount

record pending =
  pr_ready :: bool
  pr_bytes :: bytes
  pr_kind :: ReplyKind
  pr_remaining :: int
  pr_frags :: "bytes list"
  pr_accum :: int

record conn =
  cn_id :: nat
  cn_in :: bytes
  cn_out :: bytes
  cn_sent :: nat
  cn_closing :: bool
  cn_pipeline :: "(nat \<times> pending) list"
  cn_next_seq :: nat
  cn_wire :: bytes
  cn_want_write :: bool
  cn_ub :: bool

text \<open>\<open>cn_wire\<close> is what the socket has accepted; \<open>cn_ub\<close> records a read out of bounds;
  \<open>cn_want_write\<close> is the interest last given to the reactor.\<close>

definition conn_new :: "nat \<Rightarrow> conn" where
  "conn_new cid = \<lparr>cn_id = cid, cn_in = [], cn_out = [], cn_sent = 0, cn_closing = False, cn_pipeline = [],
     cn_next_seq = 0, cn_wire = [], cn_want_write = False, cn_ub = False\<rparr>"

datatype msg =
    Execute nat nat nat nat bool "bytes list"
  | Complete nat nat nat bytes bool int
  | FlushShard

text \<open>\<open>Execute origin cid seq index is_int args\<close> and \<open>Complete cid seq index reply is_int value\<close>.\<close>

type_synonym post = "nat \<times> msg"

subsection \<open>The pipeline\<close>

text \<open>\<open>std::map\<close> as the list of its entries in order.\<close>

fun slot_set :: "nat \<Rightarrow> pending \<Rightarrow> (nat \<times> pending) list \<Rightarrow> (nat \<times> pending) list" where
  "slot_set seq pr [] = [(seq, pr)]"
| "slot_set seq pr ((s, p) # rest) =
     (if seq < s then (seq, pr) # (s, p) # rest
      else if seq = s then (seq, pr) # rest
      else (s, p) # slot_set seq pr rest)"

definition put_slot :: "nat \<Rightarrow> pending \<Rightarrow> conn \<Rightarrow> conn" where
  "put_slot seq pr c = c\<lparr>cn_pipeline := slot_set seq pr (cn_pipeline c)\<rparr>"

definition ready_slot :: "bytes \<Rightarrow> pending" where
  "ready_slot b = \<lparr>pr_ready = True, pr_bytes = b, pr_kind = Single, pr_remaining = 0, pr_frags = [], pr_accum = 0\<rparr>"

fun take_ready :: "(nat \<times> pending) list \<Rightarrow> bytes \<Rightarrow> (nat \<times> pending) list \<times> bytes" where
  "take_ready [] out = ([], out)"
| "take_ready ((s, p) # rest) out = (if pr_ready p then take_ready rest (out @ pr_bytes p) else ((s, p) # rest, out))"

definition flush_ready :: "conn \<Rightarrow> conn" where
  "flush_ready c = (let (ps, out) = take_ready (cn_pipeline c) (cn_out c) in c\<lparr>cn_pipeline := ps, cn_out := out\<rparr>)"

subsection \<open>Routing\<close>

definition next_seq :: "conn \<Rightarrow> nat \<times> conn" where
  "next_seq c = (cn_next_seq c, c\<lparr>cn_next_seq := cn_next_seq c + 1\<rparr>)"

text \<open>A command executed here; FLUSHALL and FLUSHDB post a flush to every other shard.\<close>

definition flush_posts :: "nat \<Rightarrow> nat \<Rightarrow> bytes list \<Rightarrow> post list" where
  "flush_posts self n argv =
     (case find_command (to_lower (cmd_word argv)) of
        None \<Rightarrow> []
      | Some spec \<Rightarrow>
          if arity_ok spec (length argv) \<and> is_flush (cs_fn spec)
          then map (\<lambda>i. (i, FlushShard)) (filter (\<lambda>i. i \<noteq> self) [0..<n]) else [])"

definition exec_local :: "exec_env \<Rightarrow> nat \<Rightarrow> nat \<Rightarrow> bytes list \<Rightarrow> conn \<Rightarrow> shard \<Rightarrow> conn \<times> shard \<times> post list" where
  "exec_local X n seq argv c sh =
     (let (reply, sh') = exec_core X argv sh
      in (put_slot seq (ready_slot reply) c, sh', flush_posts (sh_id sh) n argv))"

definition count_cross_shard :: "nat \<Rightarrow> shard \<Rightarrow> shard" where
  "count_cross_shard k sh =
     sh\<lparr>sh_metrics := (sh_metrics sh)\<lparr>m_cross_shard_ops := m_cross_shard_ops (sh_metrics sh) + word_of_nat k\<rparr>\<rparr>"

definition begin_single_forward ::
  "nat \<Rightarrow> nat \<Rightarrow> bytes list \<Rightarrow> conn \<Rightarrow> shard \<Rightarrow> conn \<times> shard \<times> post list" where
  "begin_single_forward seq target argv c sh =
     (put_slot seq \<lparr>pr_ready = False, pr_bytes = [], pr_kind = Single, pr_remaining = 1, pr_frags = [[]],
        pr_accum = 0\<rparr> c,
      count_cross_shard 1 sh,
      [(target, Execute (sh_id sh) (cn_id c) seq 0 False argv)])"

definition multi_kind :: "bytes \<Rightarrow> ReplyKind" where
  "multi_kind name =
     (if name = ''mget'' then MGet
      else if name = ''mset'' then MSet
      else if name = ''exists'' then ExistsCount
      else DelCount)"

text \<open>The command for the \<open>i\<close>-th key. For MSET the value follows the key in the arguments; there need not
  be one: then the source reads past the end of the vector.\<close>

definition sub_command :: "ReplyKind \<Rightarrow> bytes list \<Rightarrow> bytes list \<Rightarrow> nat \<Rightarrow> bytes list" where
  "sub_command kind argv keys i =
     (case kind of
        MGet \<Rightarrow> [''GET'', keys ! i]
      | MSet \<Rightarrow> [''SET'', keys ! i, if 2 * i + 2 < length argv then argv ! (2 * i + 2) else []]
      | ExistsCount \<Rightarrow> [''EXISTS'', keys ! i]
      | _ \<Rightarrow> [''DEL'', keys ! i])"

definition value_missing :: "ReplyKind \<Rightarrow> bytes list \<Rightarrow> nat \<Rightarrow> bool" where
  "value_missing kind argv n \<longleftrightarrow> kind = MSet \<and> n > 0 \<and> length argv \<le> 2 * (n - 1) + 2"

definition counting :: "ReplyKind \<Rightarrow> bool" where
  "counting kind \<longleftrightarrow> kind = DelCount \<or> kind = ExistsCount"

definition begin_multikey ::
  "nat \<Rightarrow> nat \<Rightarrow> bytes list \<Rightarrow> bytes list \<Rightarrow> conn \<Rightarrow> shard \<Rightarrow> conn \<times> shard \<times> post list" where
  "begin_multikey n seq argv keys c sh =
     (let kind = multi_kind (to_lower (cmd_word argv));
          k = length keys;
          c1 = put_slot seq \<lparr>pr_ready = False, pr_bytes = [], pr_kind = kind, pr_remaining = int k,
                 pr_frags = replicate k [], pr_accum = 0\<rparr> c
      in (c1\<lparr>cn_ub := cn_ub c1 \<or> value_missing kind argv k\<rparr>,
          count_cross_shard k sh,
          map (\<lambda>i. (shard_for n (keys ! i),
                    Execute (sh_id sh) (cn_id c) seq i (counting kind) (sub_command kind argv keys i))) [0..<k]))"

definition decomposable :: "bytes \<Rightarrow> bool" where
  "decomposable name \<longleftrightarrow> name \<in> {''mget'', ''mset'', ''del'', ''unlink'', ''exists'', ''touch''}"

definition cross_slot :: bytes where
  "cross_slot = rb_error ''CROSSSLOT Keys in request map to different shards'' []"

definition dispatch :: "exec_env \<Rightarrow> nat \<Rightarrow> bytes list \<Rightarrow> conn \<Rightarrow> shard \<Rightarrow> conn \<times> shard \<times> post list" where
  "dispatch X n argv c0 sh =
     (let (seq, c) = next_seq c0; name = to_lower (cmd_word argv)
      in case find_command name of
           None \<Rightarrow> (put_slot seq (ready_slot (unknown_command argv)) c, sh, [])
         | Some spec \<Rightarrow>
             if \<not> arity_ok spec (length argv) then (put_slot seq (ready_slot (wrong_arity argv)) c, sh, [])
             else
               let keys = extract_keys spec argv
               in if keys = [] then exec_local X n seq argv c sh
                  else
                    let first_owner = shard_for n (hd keys)
                    in if list_all (\<lambda>k. shard_for n k = first_owner) (tl keys) then
                         (if first_owner = sh_id sh then exec_local X n seq argv c sh
                          else begin_single_forward seq first_owner argv c sh)
                       else if decomposable name then begin_multikey n seq argv keys c sh
                       else (put_slot seq (ready_slot cross_slot) c, sh, []))"

subsection \<open>Input\<close>

definition protocol_error :: "bytes \<Rightarrow> bytes" where
  "protocol_error e = rb_error (''ERR Protocol error: '' @ e) []"

text \<open>The loop of \<open>process_input\<close> on what is left of the buffer; the \<open>i\<close>-th command runs in \<open>X i\<close>.\<close>

function process_loop ::
  "(nat \<Rightarrow> exec_env) \<Rightarrow> nat \<Rightarrow> nat \<Rightarrow> bytes \<Rightarrow> conn \<Rightarrow> shard \<Rightarrow> post list \<Rightarrow> bytes \<times> conn \<times> shard \<times> post list" where
  "process_loop X n i data c sh posts =
     (if cn_closing c then (data, c, sh, posts)
      else case parse_request data of
             NeedMore \<Rightarrow> (data, c, sh, posts)
           | ProtocolError e \<Rightarrow>
               (let (seq, c1) = next_seq c
                in (data, (put_slot seq (ready_slot (protocol_error e)) c1)\<lparr>cn_closing := True\<rparr>, sh, posts))
           | Ok argv consumed \<Rightarrow>
               if argv = [] then process_loop X n (Suc i) (drop consumed data) c sh posts
               else
                 let (c1, sh1, ps) = dispatch (X i) n argv c sh
                 in process_loop X n (Suc i) (drop consumed data) c1 sh1 (posts @ ps))"
  by pat_completeness auto
termination process_loop
  by (relation "measure (\<lambda>(X, n, i, data, c, sh, posts). length data)") (auto dest: parse_request_bounds)

declare process_loop.simps [simp del]

definition process_input :: "(nat \<Rightarrow> exec_env) \<Rightarrow> nat \<Rightarrow> conn \<Rightarrow> shard \<Rightarrow> conn \<times> shard \<times> post list" where
  "process_input X n c sh =
     (let (rest, c1, sh1, posts) = process_loop X n 0 (cn_in c) c sh []
      in (flush_ready (c1\<lparr>cn_in := rest\<rparr>), sh1, posts))"

datatype read_result = Data bytes | Eof | ReadAgain | ReadFailed

definition kReadChunk :: nat where "kReadChunk = 16 * 1024"
definition kMaxInlineBuffer :: nat where "kMaxInlineBuffer = 512 * 1024 * 1024"

definition count_input :: "nat \<Rightarrow> shard \<Rightarrow> shard" where
  "count_input k sh =
     sh\<lparr>sh_metrics := (sh_metrics sh)\<lparr>m_net_input_bytes := m_net_input_bytes (sh_metrics sh) + word_of_nat k\<rparr>\<rparr>"

text \<open>The read loop; a list that ends stands for a socket with nothing more to read.\<close>

fun read_loop :: "read_result list \<Rightarrow> conn \<Rightarrow> shard \<Rightarrow> conn \<times> shard" where
  "read_loop [] c sh = (c, sh)"
| "read_loop (r # rs) c sh =
     (case r of
        Data d \<Rightarrow>
          (let c1 = c\<lparr>cn_in := cn_in c @ d\<rparr>; sh1 = count_input (length d) sh
           in if length d < kReadChunk then (c1, sh1) else read_loop rs c1 sh1)
      | Eof \<Rightarrow> (c\<lparr>cn_closing := True\<rparr>, sh)
      | ReadAgain \<Rightarrow> (c, sh)
      | ReadFailed \<Rightarrow> (c\<lparr>cn_closing := True\<rparr>, sh))"

subsection \<open>Output\<close>

datatype send_result = Sent nat | SendAgain | SendFailed

definition count_output :: "nat \<Rightarrow> shard \<Rightarrow> shard" where
  "count_output k sh =
     sh\<lparr>sh_metrics := (sh_metrics sh)\<lparr>m_net_output_bytes := m_net_output_bytes (sh_metrics sh) + word_of_nat k\<rparr>\<rparr>"

fun write_out :: "send_result list \<Rightarrow> conn \<Rightarrow> shard \<Rightarrow> conn \<times> shard" where
  "write_out [] c sh = (c, sh)"
| "write_out (r # rs) c sh =
     (if cn_sent c \<ge> length (cn_out c) then (c, sh)
      else case r of
             Sent k \<Rightarrow>
               (let k = min k (length (cn_out c) - cn_sent c)
                in if k = 0 then (c, sh)
                   else write_out rs
                     (c\<lparr>cn_wire := cn_wire c @ take k (drop (cn_sent c) (cn_out c)), cn_sent := cn_sent c + k\<rparr>)
                     (count_output k sh))
           | SendAgain \<Rightarrow> (c, sh)
           | SendFailed \<Rightarrow> (c\<lparr>cn_closing := True\<rparr>, sh))"

definition update_interest :: "conn \<Rightarrow> conn" where
  "update_interest c = c\<lparr>cn_want_write := (cn_sent c < length (cn_out c))\<rparr>"

definition handle_writable :: "send_result list \<Rightarrow> conn \<Rightarrow> shard \<Rightarrow> conn \<times> shard" where
  "handle_writable ws c sh =
     (let (c1, sh1) = write_out ws c sh;
          c2 = (if cn_sent c1 \<ge> length (cn_out c1) then c1\<lparr>cn_out := [], cn_sent := 0\<rparr> else c1)
      in (update_interest c2, sh1))"

definition handle_readable ::
  "(nat \<Rightarrow> exec_env) \<Rightarrow> nat \<Rightarrow> read_result list \<Rightarrow> send_result list \<Rightarrow> conn \<Rightarrow> shard \<Rightarrow> conn \<times> shard \<times> post list" where
  "handle_readable X n rs ws c sh =
     (let (c1, sh1) = read_loop rs c sh;
          c2 = (if length (cn_in c1) > kMaxInlineBuffer then c1\<lparr>cn_closing := True\<rparr> else c1);
          (c3, sh2, posts) = process_input X n c2 sh1;
          (c4, sh3) = handle_writable ws c3 sh2
      in (c4, sh3, posts))"

definition may_close :: "conn \<Rightarrow> bool" where
  "may_close c \<longleftrightarrow> cn_closing c \<and> cn_pipeline c = [] \<and> cn_sent c \<ge> length (cn_out c)"

subsection \<open>A node\<close>

record node =
  nd_shard :: shard
  nd_conns :: "nat \<Rightarrow> conn option"
  nd_next_conn :: nat
  nd_mailbox :: "msg list"

definition count_connections :: "u64 \<Rightarrow> u64 \<Rightarrow> shard \<Rightarrow> shard" where
  "count_connections open_by total_by sh =
     sh\<lparr>sh_metrics := (sh_metrics sh)\<lparr>m_connections_open := m_connections_open (sh_metrics sh) + open_by,
       m_connections_total := m_connections_total (sh_metrics sh) + total_by\<rparr>\<rparr>"

definition accept_one :: "node \<Rightarrow> node" where
  "accept_one nd =
     nd\<lparr>nd_conns := (nd_conns nd)(nd_next_conn nd \<mapsto> conn_new (nd_next_conn nd)),
        nd_next_conn := nd_next_conn nd + 1,
        nd_shard := count_connections 1 1 (nd_shard nd)\<rparr>"

definition close_conn :: "nat \<Rightarrow> node \<Rightarrow> node" where
  "close_conn cid nd =
     nd\<lparr>nd_conns := (nd_conns nd)(cid := None), nd_shard := count_connections (- 1) 0 (nd_shard nd)\<rparr>"

definition store_conn :: "conn \<Rightarrow> node \<Rightarrow> node" where
  "store_conn c nd = (if may_close c then close_conn (cn_id c) nd else nd\<lparr>nd_conns := (nd_conns nd)(cn_id c \<mapsto> c)\<rparr>)"

record ready_event =
  ev_error :: bool
  ev_read :: bool
  ev_write :: bool

definition on_conn_ready ::
  "(nat \<Rightarrow> exec_env) \<Rightarrow> nat \<Rightarrow> read_result list \<Rightarrow> send_result list \<Rightarrow> send_result list \<Rightarrow> ready_event \<Rightarrow> nat \<Rightarrow>
    node \<Rightarrow> node \<times> post list" where
  "on_conn_ready X n rs ws ws' ev cid nd =
     (case nd_conns nd cid of
        None \<Rightarrow> (nd, [])
      | Some c \<Rightarrow>
          if ev_error ev then (close_conn cid nd, [])
          else
            let (c1, sh1, posts) = (if ev_read ev then handle_readable X n rs ws c (nd_shard nd) else (c, nd_shard nd, []));
                (c2, sh2) = (if ev_write ev then handle_writable ws' c1 sh1 else (c1, sh1))
            in (store_conn c2 (nd\<lparr>nd_shard := sh2\<rparr>), posts))"

subsection \<open>Completing a reply\<close>

definition assemble :: "pending \<Rightarrow> pending" where
  "assemble pr =
     pr\<lparr>pr_bytes :=
          (case pr_kind pr of
             Single \<Rightarrow> pr_frags pr ! 0
           | MGet \<Rightarrow> foldl (\<lambda>b f. rb_raw f b) (rb_array_header (int (length (pr_frags pr))) []) (pr_frags pr)
           | MSet \<Rightarrow> rb_simple_string ''OK'' []
           | _ \<Rightarrow> rb_integer (pr_accum pr) []),
        pr_ready := True\<rparr>"

definition add_fragment :: "nat \<Rightarrow> bytes \<Rightarrow> bool \<Rightarrow> int \<Rightarrow> pending \<Rightarrow> pending" where
  "add_fragment i frag is_int v pr =
     (let pr1 = (if is_int then pr\<lparr>pr_accum := pr_accum pr + v\<rparr> else pr\<lparr>pr_frags := (pr_frags pr)[i := frag]\<rparr>);
          pr2 = pr1\<lparr>pr_remaining := pr_remaining pr1 - 1\<rparr>
      in if pr_remaining pr2 = 0 then assemble pr2 else pr2)"

definition complete_fragment ::
  "send_result list \<Rightarrow> nat \<Rightarrow> nat \<Rightarrow> nat \<Rightarrow> bytes \<Rightarrow> bool \<Rightarrow> int \<Rightarrow> node \<Rightarrow> node" where
  "complete_fragment ws cid seq i frag is_int v nd =
     (case nd_conns nd cid of
        None \<Rightarrow> nd
      | Some c \<Rightarrow>
          (case map_of (cn_pipeline c) seq of
             None \<Rightarrow> nd
           | Some pr \<Rightarrow>
               let c1 = flush_ready (put_slot seq (add_fragment i frag is_int v pr) c);
                   (c2, sh) = handle_writable ws c1 (nd_shard nd)
               in store_conn c2 (nd\<lparr>nd_shard := sh\<rparr>)))"

text \<open>A closure taken from the mailbox.\<close>

definition run_message :: "exec_env \<Rightarrow> send_result list \<Rightarrow> msg \<Rightarrow> node \<Rightarrow> node \<times> post list" where
  "run_message X ws m nd =
     (case m of
        Execute origin cid seq i is_int args \<Rightarrow>
          (let (reply, sh) = execute_owned X args (nd_shard nd);
               v = (if is_int then parse_resp_integer reply else 0)
           in (nd\<lparr>nd_shard := sh\<rparr>, [(origin, Complete cid seq i reply is_int v)]))
      | Complete cid seq i reply is_int v \<Rightarrow> (complete_fragment ws cid seq i reply is_int v nd, [])
      | FlushShard \<Rightarrow> (nd\<lparr>nd_shard := shard_flush X (nd_shard nd)\<rparr>, []))"

end
