(* ===== verification/Cluster_Inv.thy ===== *)
theory Cluster_Inv
  imports Cluster "HOL-Library.Multiset"
begin

section \<open>Every command is answered, in order\<close>

text \<open>
  The shards together, as a step relation: a connection is accepted, a connection becomes ready, a
  message is taken from a mailbox, the periodic work runs. The invariant accounts for every pending
  reply: the fragments it still waits for are exactly those on their way in some mailbox. Hence when the
  mailboxes are empty nothing is owed, and what has been answered was answered in order.
\<close>

subsection \<open>The cluster\<close>

type_synonym cluster = "nat \<Rightarrow> node"

definition deliver1 :: "cluster \<Rightarrow> post \<Rightarrow> cluster" where
  "deliver1 cl p = cl(fst p := (cl (fst p))\<lparr>nd_mailbox := nd_mailbox (cl (fst p)) @ [snd p]\<rparr>)"

definition deliver :: "cluster \<Rightarrow> post list \<Rightarrow> cluster" where
  "deliver cl posts = foldl deliver1 cl posts"

definition node_init :: "shard \<Rightarrow> node" where
  "node_init sh = \<lparr>nd_shard = sh, nd_conns = Map.empty, nd_next_conn = 1, nd_mailbox = []\<rparr>"

definition initial :: "nat \<Rightarrow> cluster \<Rightarrow> bool" where
  "initial n cl \<longleftrightarrow> 0 < n \<and> (\<forall>i<n. \<exists>sh. cl i = node_init sh \<and> sh_id sh = i)"

inductive step :: "nat \<Rightarrow> cluster \<Rightarrow> cluster \<Rightarrow> bool" for n where
  accept: "i < n \<Longrightarrow> step n cl (cl(i := accept_one (cl i)))"
| ready: "i < n \<Longrightarrow> on_conn_ready X n rs ws ws' ev cid (cl i) = (nd, posts) \<Longrightarrow> step n cl (deliver (cl(i := nd)) posts)"
| message: "i < n \<Longrightarrow> nd_mailbox (cl i) = m # rest \<Longrightarrow>
    run_message X ws m ((cl i)\<lparr>nd_mailbox := rest\<rparr>) = (nd, posts) \<Longrightarrow> step n cl (deliver (cl(i := nd)) posts)"
| tick: "i < n \<Longrightarrow> step n cl (cl(i := (cl i)\<lparr>nd_shard := cron cfg T (nd_shard (cl i))\<rparr>))"

inductive_cases stepE: "step n cl cl'"

inductive reach :: "nat \<Rightarrow> cluster \<Rightarrow> bool" for n where
  reach_start: "initial n cl \<Longrightarrow> reach n cl"
| reach_step: "reach n cl \<Longrightarrow> step n cl cl' \<Longrightarrow> reach n cl'"

subsection \<open>Messages in flight\<close>

definition index_of :: "nat \<Rightarrow> nat \<Rightarrow> nat \<Rightarrow> nat \<Rightarrow> msg \<Rightarrow> nat multiset" where
  "index_of org cid seq t m =
     (case m of
        Execute org' cid' seq' i b args \<Rightarrow> if org' = org \<and> cid' = cid \<and> seq' = seq then {#i#} else {#}
      | Complete cid' seq' i r b v \<Rightarrow> if t = org \<and> cid' = cid \<and> seq' = seq then {#i#} else {#}
      | FlushShard \<Rightarrow> {#})"

definition box_flights :: "nat \<Rightarrow> nat \<Rightarrow> nat \<Rightarrow> nat \<Rightarrow> msg list \<Rightarrow> nat multiset" where
  "box_flights org cid seq t ms = sum_list (map (index_of org cid seq t) ms)"

definition flights :: "nat \<Rightarrow> cluster \<Rightarrow> nat \<Rightarrow> nat \<Rightarrow> nat \<Rightarrow> nat multiset" where
  "flights n cl org cid seq = (\<Sum>t<n. box_flights org cid seq t (nd_mailbox (cl t)))"

definition posted :: "nat \<Rightarrow> nat \<Rightarrow> nat \<Rightarrow> post list \<Rightarrow> nat multiset" where
  "posted org cid seq posts = sum_list (map (\<lambda>(t, m). index_of org cid seq t m) posts)"

lemma box_flights_simps [simp]:
  "box_flights org cid seq t [] = {#}"
  "box_flights org cid seq t (m # ms) = index_of org cid seq t m + box_flights org cid seq t ms"
  "box_flights org cid seq t (ms @ ms') = box_flights org cid seq t ms + box_flights org cid seq t ms'"
  by (simp_all add: box_flights_def)

lemma posted_simps [simp]:
  "posted org cid seq [] = {#}"
  "posted org cid seq ((t, m) # ps) = index_of org cid seq t m + posted org cid seq ps"
  "posted org cid seq (ps @ ps') = posted org cid seq ps + posted org cid seq ps'"
  by (simp_all add: posted_def)

lemma sum_update:
  fixes f :: "nat \<Rightarrow> 'a :: comm_monoid_add"
  assumes "i < n" shows "(\<Sum>t<n. (f(i := x)) t) = x + (\<Sum>t\<in>{..<n} - {i}. f t)"
  using assms by (subst sum.remove [of _ i]) (auto intro!: arg_cong2 [where f = "(+)"] sum.cong)

lemma flights_split:
  assumes "i < n"
  shows "flights n cl org cid seq =
    box_flights org cid seq i (nd_mailbox (cl i)) + (\<Sum>t\<in>{..<n} - {i}. box_flights org cid seq t (nd_mailbox (cl t)))"
  unfolding flights_def using assms by (subst sum.remove [of _ i]) auto

lemma flights_upd:
  assumes "i < n"
  shows "flights n (cl(i := nd)) org cid seq =
    box_flights org cid seq i (nd_mailbox nd) + (\<Sum>t\<in>{..<n} - {i}. box_flights org cid seq t (nd_mailbox (cl t)))"
  using flights_split [OF assms, of "cl(i := nd)" org cid seq] by (simp cong: sum.cong_simp)

lemma flights_same_box:
  "i < n \<Longrightarrow> nd_mailbox nd = nd_mailbox (cl i) \<Longrightarrow> flights n (cl(i := nd)) org cid seq = flights n cl org cid seq"
  by (simp add: flights_upd flights_split [of i])

lemma flights_deliver1:
  "fst p < n \<Longrightarrow> flights n (deliver1 cl p) org cid seq = flights n cl org cid seq + index_of org cid seq (fst p) (snd p)"
  by (simp add: deliver1_def flights_upd flights_split [of "fst p"])

lemma flights_deliver:
  "\<forall>p\<in>set posts. fst p < n \<Longrightarrow> flights n (deliver cl posts) org cid seq = flights n cl org cid seq + posted org cid seq posts"
proof (induction posts arbitrary: cl)
  case (Cons p ps)
  then show ?case by (cases p) (simp add: deliver_def flights_deliver1)
qed (simp add: deliver_def)

lemma deliver_fields [simp]:
  "nd_shard (deliver cl posts i) = nd_shard (cl i)" "nd_conns (deliver cl posts i) = nd_conns (cl i)"
  "nd_next_conn (deliver cl posts i) = nd_next_conn (cl i)"
proof -
  have "nd_shard (deliver cl posts i) = nd_shard (cl i) \<and> nd_conns (deliver cl posts i) = nd_conns (cl i) \<and>
    nd_next_conn (deliver cl posts i) = nd_next_conn (cl i)"
    unfolding deliver_def by (induction posts arbitrary: cl) (simp_all add: deliver1_def)
  then show "nd_shard (deliver cl posts i) = nd_shard (cl i)" "nd_conns (deliver cl posts i) = nd_conns (cl i)"
    "nd_next_conn (deliver cl posts i) = nd_next_conn (cl i)" by auto
qed

lemma deliver_box:
  "m \<in> set (nd_mailbox (deliver cl posts i)) \<longleftrightarrow> m \<in> set (nd_mailbox (cl i)) \<or> (i, m) \<in> set posts"
proof (induction posts arbitrary: cl)
  case (Cons p ps)
  have "m \<in> set (nd_mailbox (deliver cl (p # ps) i)) \<longleftrightarrow> m \<in> set (nd_mailbox (deliver1 cl p i)) \<or> (i, m) \<in> set ps"
    using Cons [of "deliver1 cl p"] by (simp add: deliver_def)
  then show ?case by (cases p) (auto simp: deliver1_def)
qed (simp add: deliver_def)

subsection \<open>Pipelines\<close>

text \<open>The slots of a pipeline have consecutive numbers that end at the next one to give.\<close>

definition pipe_ok :: "(nat \<times> pending) list \<Rightarrow> nat \<Rightarrow> bool" where
  "pipe_ok ps nxt \<longleftrightarrow> length ps \<le> nxt \<and> map fst ps = [nxt - length ps..<nxt]"

lemma slot_set_new: "\<forall>s\<in>set (map fst ps). s < seq \<Longrightarrow> slot_set seq pr ps = ps @ [(seq, pr)]"
  by (induction seq pr ps rule: slot_set.induct) auto

lemma slot_set_old: "sorted (map fst ps) \<Longrightarrow> seq \<in> set (map fst ps) \<Longrightarrow> map fst (slot_set seq pr ps) = map fst ps"
  by (induction seq pr ps rule: slot_set.induct) force+

lemma slot_set_map_of: "sorted (map fst ps) \<Longrightarrow> map_of (slot_set seq pr ps) = (map_of ps)(seq \<mapsto> pr)"
proof (induction seq pr ps rule: slot_set.induct)
  case (2 seq pr s p rest)
  have "map_of rest seq = None" if "seq < s"
    using that 2 by (force simp: map_of_eq_None_iff)
  then show ?case using 2 by (auto simp: fun_eq_iff)
qed simp

lemma pipe_ok_sorted: "pipe_ok ps nxt \<Longrightarrow> sorted (map fst ps)"
  by (simp add: pipe_ok_def)

lemma pipe_ok_less: "pipe_ok ps nxt \<Longrightarrow> s \<in> set (map fst ps) \<Longrightarrow> s < nxt"
  by (simp add: pipe_ok_def)

lemma pipe_ok_snoc:
  assumes "pipe_ok ps nxt" shows "pipe_ok (slot_set nxt pr ps) (Suc nxt)"
proof -
  have "slot_set nxt pr ps = ps @ [(nxt, pr)]" using pipe_ok_less [OF assms] by (intro slot_set_new) blast
  then show ?thesis using assms by (simp add: pipe_ok_def)
qed

lemma pipe_ok_update:
  assumes "pipe_ok ps nxt" "map_of ps seq \<noteq> None" shows "pipe_ok (slot_set seq pr ps) nxt"
proof -
  have "seq \<in> set (map fst ps)" using assms(2) by (metis map_of_eq_None_iff set_map)
  from slot_set_old [OF pipe_ok_sorted [OF assms(1)] this, of pr] have "map fst (slot_set seq pr ps) = map fst ps" .
  moreover from this have "length (slot_set seq pr ps) = length ps" by (metis length_map)
  ultimately show ?thesis using assms(1) by (simp add: pipe_ok_def)
qed

text \<open>What \<open>flush_ready\<close> does: the longest ready prefix goes to the output, in order.\<close>

lemma take_ready_eq:
  "take_ready ps out =
     (dropWhile (pr_ready \<circ> snd) ps, out @ concat (map (pr_bytes \<circ> snd) (takeWhile (pr_ready \<circ> snd) ps)))"
  by (induction ps out rule: take_ready.induct) auto

lemma flush_ready_eq:
  "flush_ready c = c\<lparr>cn_pipeline := dropWhile (pr_ready \<circ> snd) (cn_pipeline c),
     cn_out := cn_out c @ concat (map (pr_bytes \<circ> snd) (takeWhile (pr_ready \<circ> snd) (cn_pipeline c)))\<rparr>"
  by (simp add: flush_ready_def take_ready_eq)

lemma pipe_ok_drop: "pipe_ok ps nxt \<Longrightarrow> pipe_ok (drop k ps) nxt"
  by (cases "k \<le> length ps") (auto simp: pipe_ok_def drop_map [symmetric] drop_upt Suc_diff_le)

lemma pipe_ok_dropWhile: "pipe_ok ps nxt \<Longrightarrow> pipe_ok (dropWhile P ps) nxt"
  using pipe_ok_drop [of ps nxt "length (takeWhile P ps)"] by (simp add: dropWhile_eq_drop)

subsection \<open>Slots and their fragments\<close>

text \<open>A slot that is ready waits for nothing; one that is not waits for the fragments in flight.\<close>

definition slot_ok :: "pending option \<Rightarrow> nat multiset \<Rightarrow> bool" where
  "slot_ok p F \<longleftrightarrow>
     (case p of
        None \<Rightarrow> F = {#}
      | Some pr \<Rightarrow> if pr_ready pr then F = {#} else pr_remaining pr = int (size F) \<and> F \<noteq> {#})"

definition conn_ok :: "conn \<Rightarrow> (nat \<Rightarrow> nat multiset) \<Rightarrow> bool" where
  "conn_ok c F \<longleftrightarrow> pipe_ok (cn_pipeline c) (cn_next_seq c) \<and> (\<forall>seq. slot_ok (map_of (cn_pipeline c) seq) (F seq))"

definition head_waits :: "conn \<Rightarrow> bool" where
  "head_waits c \<longleftrightarrow> (case cn_pipeline c of [] \<Rightarrow> True | (s, pr) # rest \<Rightarrow> \<not> pr_ready pr)"

lemma conn_ok_new: "conn_ok (conn_new cid) (\<lambda>seq. {#})"
  by (simp add: conn_ok_def conn_new_def pipe_ok_def slot_ok_def)

lemma conn_ok_fields:
  "cn_pipeline c' = cn_pipeline c \<Longrightarrow> cn_next_seq c' = cn_next_seq c \<Longrightarrow> conn_ok c' F = conn_ok c F"
  by (simp add: conn_ok_def)

lemma conn_ok_next:
  assumes "conn_ok c F" "slot_ok (Some pr) G"
  shows "conn_ok (put_slot (cn_next_seq c) pr (c\<lparr>cn_next_seq := cn_next_seq c + 1\<rparr>))
    (\<lambda>seq. F seq + (if seq = cn_next_seq c then G else {#}))"
proof -
  have p: "pipe_ok (cn_pipeline c) (cn_next_seq c)" using assms(1) by (simp add: conn_ok_def)
  have "cn_next_seq c \<notin> set (map fst (cn_pipeline c))" using pipe_ok_less [OF p] by blast
  then have "map_of (cn_pipeline c) (cn_next_seq c) = None" by (simp add: map_of_eq_None_iff)
  then have "F (cn_next_seq c) = {#}" using assms(1) by (auto simp: conn_ok_def slot_ok_def dest: spec [of _ "cn_next_seq c"])
  then show ?thesis
    using assms pipe_ok_snoc [OF p, of pr] slot_set_map_of [OF pipe_ok_sorted [OF p], of "cn_next_seq c" pr]
    by (auto simp: conn_ok_def put_slot_def)
qed

lemma conn_ok_flush:
  assumes "conn_ok c F" shows "conn_ok (flush_ready c) F" "head_waits (flush_ready c)"
proof -
  let ?ps = "cn_pipeline c" and ?P = "pr_ready \<circ> snd"
  have p: "pipe_ok ?ps (cn_next_seq c)" using assms by (simp add: conn_ok_def)
  have d: "distinct (map fst ?ps)" using p by (simp add: pipe_ok_def)
  have split: "?ps = takeWhile ?P ?ps @ dropWhile ?P ?ps" by simp
  have "slot_ok (map_of (dropWhile ?P ?ps) seq) (F seq)" for seq
  proof (cases "map_of (takeWhile ?P ?ps) seq")
    case None
    then have "map_of (takeWhile ?P ?ps @ dropWhile ?P ?ps) seq = map_of (dropWhile ?P ?ps) seq"
      by (simp only: map_of_append map_add_def split: option.split) simp
    then have "map_of (dropWhile ?P ?ps) seq = map_of ?ps seq" by simp
    moreover have "slot_ok (map_of ?ps seq) (F seq)" using assms by (simp add: conn_ok_def)
    ultimately show ?thesis by simp
  next
    case (Some pr)
    then have "(seq, pr) \<in> set (takeWhile ?P ?ps)" by (rule map_of_SomeD)
    then have "pr_ready pr" "(seq, pr) \<in> set ?ps" by (auto dest: set_takeWhileD)
    then have "map_of ?ps seq = Some pr" "F seq = {#}"
      using assms d by (auto simp: conn_ok_def slot_ok_def dest!: spec [of _ seq])
    moreover have "map_of (dropWhile ?P ?ps) seq = None"
    proof -
      have "distinct (map fst (takeWhile ?P ?ps @ dropWhile ?P ?ps))" using d by simp
      then have "seq \<notin> fst ` set (dropWhile ?P ?ps)"
        using \<open>(seq, pr) \<in> set (takeWhile ?P ?ps)\<close> by (auto simp del: takeWhile_dropWhile_id) force
      then show ?thesis by (simp add: map_of_eq_None_iff)
    qed
    ultimately show ?thesis by (simp add: slot_ok_def)
  qed
  then show "conn_ok (flush_ready c) F" using pipe_ok_dropWhile [OF p] by (simp add: conn_ok_def flush_ready_eq)
  show "head_waits (flush_ready c)"
  proof -
    define ds where "ds = dropWhile ?P ?ps"
    have "ds = [] \<or> \<not> ?P (hd ds)" unfolding ds_def using hd_dropWhile [of ?P ?ps] by blast
    then show ?thesis unfolding flush_ready_eq head_waits_def ds_def [symmetric] by (cases ds) auto
  qed
qed

text \<open>A fragment arrives.\<close>

lemma conn_ok_fragment:
  assumes "conn_ok c F" "map_of (cn_pipeline c) seq = Some pr" "i \<in># F seq"
  shows "conn_ok (put_slot seq (add_fragment i frag b v pr) c) (F(seq := F seq - {#i#}))"
proof -
  let ?pr = "add_fragment i frag b v pr"
  have p: "pipe_ok (cn_pipeline c) (cn_next_seq c)" using assms(1) by (simp add: conn_ok_def)
  have s: "\<not> pr_ready pr" "pr_remaining pr = int (size (F seq))"
    using assms by (auto simp: conn_ok_def slot_ok_def dest!: spec [of _ seq] split: if_splits)
  have sz: "size (F seq - {#i#}) = size (F seq) - 1" "0 < size (F seq)"
    using assms(3) by (simp_all add: size_Diff_singleton) (metis empty_not_add_mset multi_member_split nonempty_has_size)
  have "slot_ok (Some ?pr) (F seq - {#i#})"
  proof (cases "size (F seq) = 1")
    case True
    then have "F seq - {#i#} = {#}" using sz by simp
    moreover have "pr_ready ?pr" using s True by (simp add: add_fragment_def assemble_def Let_def)
    ultimately show ?thesis by (simp add: slot_ok_def)
  next
    case False
    then have "size (F seq - {#i#}) \<noteq> 0" using sz by simp
    then have "F seq - {#i#} \<noteq> {#}" by (metis size_empty)
    then show ?thesis using s sz False by (simp add: slot_ok_def add_fragment_def Let_def)
  qed
  then show ?thesis
    using assms(1,2) pipe_ok_update [OF p, of seq ?pr] slot_set_map_of [OF pipe_ok_sorted [OF p], of seq ?pr]
    by (auto simp: conn_ok_def put_slot_def)
qed

end
