(* ===== verification/Cluster_Safe.thy ===== *)
theory Cluster_Safe
  imports Cluster_Inv
begin

section \<open>The cluster's invariant\<close>

text \<open>
  Every handler of a shard keeps the accounting of \<open>Cluster_Inv\<close>, so every reachable cluster satisfies it:
  a slot that is not ready waits for exactly as many fragments as are in flight for it, and a command is
  only sent to the shard that owns its keys.
\<close>

subsection \<open>What the handlers leave alone\<close>

lemma exec_core_id [simp]: "sh_id (snd (exec_core X argv sh)) = sh_id sh"
  by (simp add: exec_core_def flush_log_def Let_def split: option.splits prod.splits)

lemma shard_flush_id [simp]: "sh_id (shard_flush X sh) = sh_id sh"
  by (simp add: shard_flush_def flush_log_def Let_def)

lemma cron_id [simp]: "sh_id (cron cfg T sh) = sh_id sh"
  by (simp add: cron_def Let_def split: prod.splits)

lemma counters_id [simp]:
  "sh_id (count_input k sh) = sh_id sh" "sh_id (count_output k sh) = sh_id sh"
  "sh_id (count_cross_shard k sh) = sh_id sh" "sh_id (count_connections a b sh) = sh_id sh"
  by (simp_all add: count_input_def count_output_def count_cross_shard_def count_connections_def)

definition same_conn :: "conn \<Rightarrow> conn \<Rightarrow> bool" where
  "same_conn c c' \<longleftrightarrow> cn_id c' = cn_id c \<and> cn_pipeline c' = cn_pipeline c \<and> cn_next_seq c' = cn_next_seq c"

lemma same_conn_ok: "same_conn c c' \<Longrightarrow> conn_ok c' F = conn_ok c F"
  by (simp add: same_conn_def conn_ok_def)

lemma same_conn_waits: "same_conn c c' \<Longrightarrow> head_waits c' = head_waits c"
  by (simp add: same_conn_def head_waits_def)

lemma write_out_same: "write_out ws c sh = (c', sh') \<Longrightarrow> same_conn c c' \<and> sh_id sh' = sh_id sh"
proof (induction ws c sh rule: write_out.induct)
  case (2 r rs c sh)
  then show ?case
    by (cases r) (auto simp: same_conn_def Let_def split: if_splits)
qed (simp add: same_conn_def)

lemma handle_writable_same: "handle_writable ws c sh = (c', sh') \<Longrightarrow> same_conn c c' \<and> sh_id sh' = sh_id sh"
  using write_out_same [of ws c sh]
  by (auto simp: handle_writable_def update_interest_def same_conn_def Let_def split: prod.splits if_splits)

lemma read_loop_same: "read_loop rs c sh = (c', sh') \<Longrightarrow> same_conn c c' \<and> sh_id sh' = sh_id sh"
proof (induction rs c sh rule: read_loop.induct)
  case (2 r rs c sh)
  show ?case
  proof (cases r)
    case (Data d)
    show ?thesis
    proof (cases "length d < kReadChunk")
      case True
      then show ?thesis using 2(2) Data by (auto simp: same_conn_def Let_def)
    next
      case False
      then have "same_conn (c\<lparr>cn_in := cn_in c @ d\<rparr>) c' \<and> sh_id sh' = sh_id (count_input (length d) sh)"
        using 2(1) [OF Data refl refl] 2(2) Data by (simp add: Let_def)
      then show ?thesis by (simp add: same_conn_def)
    qed
  qed (use 2(2) in \<open>auto simp: same_conn_def\<close>)
qed (simp add: same_conn_def)

subsection \<open>What a shard posts\<close>

definition keys_of :: "bytes list \<Rightarrow> bytes list" where
  "keys_of argv = (case find_command (to_lower (cmd_word argv)) of None \<Rightarrow> [] | Some spec \<Rightarrow> extract_keys spec argv)"

definition owned_by :: "nat \<Rightarrow> nat \<Rightarrow> bytes list \<Rightarrow> bool" where
  "owned_by n t argv \<longleftrightarrow> (\<forall>k\<in>set (keys_of argv). shard_for n k = t)"

definition msg_ok :: "nat \<Rightarrow> nat \<Rightarrow> msg \<Rightarrow> bool" where
  "msg_ok n t m = (case m of Execute org cid seq i b args \<Rightarrow> org < n \<and> owned_by n t args | _ \<Rightarrow> True)"

definition own_post :: "nat \<Rightarrow> nat \<Rightarrow> nat \<Rightarrow> post \<Rightarrow> bool" where
  "own_post n self cid p \<longleftrightarrow> fst p < n \<and> msg_ok n (fst p) (snd p) \<and>
     (snd p = FlushShard \<or> (\<exists>seq i b args. snd p = Execute self cid seq i b args))"

lemma own_post_Execute [simp]:
  "own_post n self cid (t, Execute self cid seq i b args) \<longleftrightarrow> t < n \<and> self < n \<and> owned_by n t args"
  by (auto simp: own_post_def msg_ok_def)

lemma owner_less:
  assumes "0 < n" shows "shard_for n k < n"
proof (cases "n < 2 ^ 64")
  case True
  then show ?thesis by (rule shard_for_less [OF assms])
next
  case False
  have "shard_for n k < 2 ^ 32" unfolding shard_for_def by (rule order.strict_trans2 [OF unsigned_less]) simp
  then show ?thesis using False by simp
qed

lemma own_posted_other:
  "\<forall>p\<in>set ps. own_post n self cid p \<Longrightarrow> org \<noteq> self \<or> cid' \<noteq> cid \<Longrightarrow> posted org cid' seq ps = {#}"
  by (induction ps) (auto simp: own_post_def index_of_def)

lemma flush_posts_own: "\<forall>p\<in>set (flush_posts self n argv). own_post n self cid p"
  by (auto simp: flush_posts_def own_post_def msg_ok_def split: option.splits if_splits)

lemma flush_posted [simp]: "posted org cid seq (flush_posts self n argv) = {#}"
proof -
  have "posted org cid seq (map (\<lambda>i. (i, FlushShard)) is) = {#}" for "is"
    by (induction "is") (simp_all add: index_of_def)
  then show ?thesis by (simp add: flush_posts_def split: option.split)
qed

lemma to_lower_words:
  "to_lower ''GET'' = ''get''" "to_lower ''SET'' = ''set''" "to_lower ''EXISTS'' = ''exists''" "to_lower ''DEL'' = ''del''"
  by code_simp+

lemma sub_command_keys:
  "keys_of (sub_command kind argv keys i) = [keys ! i]"
proof -
  have "keys_of [''GET'', k] = [k]" "keys_of [''SET'', k, v] = [k]" "keys_of [''EXISTS'', k] = [k]" "keys_of [''DEL'', k] = [k]" for k v
    by (simp_all add: keys_of_def find_command_def command_table_def command_spec_def cmd_word_def to_lower_words
        extract_keys_def key_indices.simps)
  then show ?thesis by (simp add: sub_command_def split: ReplyKind.split)
qed

subsection \<open>Dispatching\<close>

text \<open>What a handler of the connection \<open>c\<close> of shard \<open>self\<close> may do: with the posts it makes, the accounting
  of \<open>c\<close> stands, and every post is its own.\<close>

definition served :: "nat \<Rightarrow> nat \<Rightarrow> (nat \<Rightarrow> nat multiset) \<Rightarrow> conn \<Rightarrow> shard \<Rightarrow> conn \<times> shard \<times> post list \<Rightarrow> bool" where
  "served n self F c sh r = (case r of (c', sh', ps) \<Rightarrow>
     conn_ok c' (\<lambda>seq. F seq + posted self (cn_id c) seq ps) \<and> cn_id c' = cn_id c \<and> sh_id sh' = sh_id sh \<and>
     (\<forall>p\<in>set ps. own_post n self (cn_id c) p))"

lemma put_slot_id [simp]: "cn_id (put_slot seq pr c) = cn_id c"
  by (simp add: put_slot_def)

lemma slot_ok_ready [simp]: "slot_ok (Some (ready_slot b)) {#}"
  by (simp add: slot_ok_def ready_slot_def)

lemma served_ready:
  assumes "conn_ok c F" "\<forall>seq. posted self (cn_id c) seq ps = {#}" "\<forall>p\<in>set ps. own_post n self (cn_id c) p"
    "sh_id sh' = sh_id sh"
  shows "served n self F c sh (put_slot (cn_next_seq c) (ready_slot b) (c\<lparr>cn_next_seq := cn_next_seq c + 1\<rparr>), sh', ps)"
  using conn_ok_next [OF assms(1) slot_ok_ready, of b] assms by (simp add: served_def cong: if_cong)

lemma posted_single [simp]: "posted self cid seq [(t, m)] = index_of self cid seq t m"
  by (simp add: posted_def)

lemma served_forward:
  assumes "conn_ok c F" "sh_id sh = self" "target < n" "self < n" "owned_by n target argv"
  shows "served n self F c sh
    (begin_single_forward (cn_next_seq c) target argv (c\<lparr>cn_next_seq := cn_next_seq c + 1\<rparr>) sh)"
proof -
  let ?pr = "\<lparr>pr_ready = False, pr_bytes = [], pr_kind = Single, pr_remaining = 1, pr_frags = [[]], pr_accum = 0\<rparr>"
  have "slot_ok (Some ?pr) {#0#}" by (simp add: slot_ok_def)
  from conn_ok_next [OF assms(1) this]
  have "conn_ok (put_slot (cn_next_seq c) ?pr (c\<lparr>cn_next_seq := cn_next_seq c + 1\<rparr>))
    (\<lambda>seq. F seq + posted self (cn_id c) seq [(target, Execute self (cn_id c) (cn_next_seq c) 0 False argv)])"
    by (rule back_subst [where P = "conn_ok _"]) (auto simp: index_of_def fun_eq_iff)
  then show ?thesis
    using assms by (simp add: served_def begin_single_forward_def)
qed

lemma posted_indices:
  "posted self cid seq (map (\<lambda>i. (f i, Execute self cid seq0 i b (g i))) is) = (if seq = seq0 then mset is else {#})"
  by (induction "is") (simp_all add: index_of_def)

lemma served_multikey:
  assumes "conn_ok c F" "sh_id sh = self" "self < n" "keys \<noteq> []"
  shows "served n self F c sh
    (begin_multikey n (cn_next_seq c) argv keys (c\<lparr>cn_next_seq := cn_next_seq c + 1\<rparr>) sh)"
proof -
  define pr where "pr = \<lparr>pr_ready = False, pr_bytes = [], pr_kind = multi_kind (to_lower (cmd_word argv)),
    pr_remaining = int (length keys), pr_frags = replicate (length keys) [], pr_accum = 0\<rparr>"
  have "mset [0..<length keys] \<noteq> {#}" using assms(4) by (simp del: mset_upt)
  then have "slot_ok (Some pr) (mset [0..<length keys])" by (simp add: slot_ok_def pr_def del: mset_upt)
  from conn_ok_next [OF assms(1) this]
  have "conn_ok (put_slot (cn_next_seq c) pr (c\<lparr>cn_next_seq := cn_next_seq c + 1\<rparr>))
    (\<lambda>seq. F seq + posted self (cn_id c) seq (map (\<lambda>i. (shard_for n (keys ! i), Execute self (cn_id c) (cn_next_seq c) i
        (counting (multi_kind (to_lower (cmd_word argv)))) (sub_command (multi_kind (to_lower (cmd_word argv))) argv keys i)))
        [0..<length keys]))"
    by (simp only: posted_indices)
  moreover have "shard_for n k < n" for k using assms(3) by (intro owner_less) simp
  ultimately show ?thesis
    using assms(2,3) by (simp add: served_def begin_multikey_def Let_def owned_by_def sub_command_keys conn_ok_def
        pr_def [symmetric])
qed

lemma dispatch_served:
  assumes "conn_ok c F" "sh_id sh = self" "self < n"
  shows "served n self F c sh (dispatch X n argv c sh)"
proof -
  note ready = served_ready [OF assms(1), of self]
  have loc: "served n self F c sh (exec_local X n (cn_next_seq c) argv (c\<lparr>cn_next_seq := cn_next_seq c + 1\<rparr>) sh)"
  proof (cases "exec_core X argv sh")
    case (Pair b sh')
    then have "sh_id sh' = sh_id sh" using exec_core_id [of X argv sh] by simp
    then show ?thesis using ready [of "flush_posts (sh_id sh) n argv" n sh' sh b] Pair assms(2) flush_posts_own
      by (simp add: exec_local_def)
  qed
  show ?thesis
  proof (cases "find_command (to_lower (cmd_word argv))")
    case None
    then show ?thesis using ready by (simp add: dispatch_def next_seq_def)
  next
    case (Some spec)
    note fc = this
    let ?keys = "extract_keys spec argv"
    consider "\<not> arity_ok spec (length argv)" | "?keys = []" | "?keys \<noteq> []" by blast
    then show ?thesis
    proof cases
      case 3
      let ?t = "shard_for n (hd ?keys)"
      have own: "owned_by n ?t argv" if "list_all (\<lambda>k. shard_for n k = ?t) (tl ?keys)"
      proof -
        have "shard_for n k = ?t" if "k \<in> set ?keys" for k
          using that 3 \<open>list_all _ _\<close> by (cases ?keys) (auto simp: list_all_iff)
        then show ?thesis by (simp add: owned_by_def keys_of_def fc)
      qed
      have "0 < n" using assms(3) by simp
      show ?thesis
        using fc 3 ready loc served_forward [OF assms(1,2) owner_less [OF \<open>0 < n\<close>] assms(3) own]
          served_multikey [OF assms 3]
        by (simp add: dispatch_def next_seq_def Let_def)
    qed (use fc ready loc in \<open>simp_all add: dispatch_def next_seq_def Let_def\<close>)
  qed
qed

subsection \<open>Reading, answering, completing\<close>

lemma process_loop_served:
  "conn_ok c (\<lambda>seq. F seq + posted self (cn_id c) seq posts) \<Longrightarrow> sh_id sh = self \<Longrightarrow> self < n \<Longrightarrow>
   \<forall>p\<in>set posts. own_post n self (cn_id c) p \<Longrightarrow>
   process_loop X n i data c sh posts = (rest, c', sh', posts') \<Longrightarrow> served n self F c sh (c', sh', posts')"
proof (induction X n i data c sh posts rule: process_loop.induct)
  case (1 X n i data c sh posts)
  note step = process_loop.simps [of X n i data c sh posts]
  show ?case
  proof (cases "cn_closing c")
    case True
    then show ?thesis using 1(3-) step by (simp add: served_def)
  next
    case open_conn: False
    show ?thesis
    proof (cases "parse_request data")
      case (Ok argv consumed)
      show ?thesis
      proof (cases "argv = []")
        case True
        then show ?thesis using 1(1) [OF open_conn Ok True 1(3-6)] 1(7) open_conn Ok step by simp
      next
        case False
        obtain c1 sh1 ps where d: "dispatch (X i) n argv c sh = (c1, sh1, ps)" by (metis prod_cases3)
        have "served n self (\<lambda>seq. F seq + posted self (cn_id c) seq posts) c sh (c1, sh1, ps)"
          using dispatch_served [OF 1(3-5), of "X i" argv] d by simp
        then have s: "conn_ok c1 (\<lambda>seq. F seq + posted self (cn_id c1) seq (posts @ ps))" "cn_id c1 = cn_id c"
          "sh_id sh1 = self" "\<forall>p\<in>set (posts @ ps). own_post n self (cn_id c1) p"
          using 1(4,6) by (auto simp: served_def add.assoc)
        have "process_loop X n (Suc i) (drop consumed data) c1 sh1 (posts @ ps) = (rest, c', sh', posts')"
          using 1(7) open_conn Ok False d step by simp
        then have "served n self F c1 sh1 (c', sh', posts')"
          using 1(2) [OF open_conn Ok False d [symmetric] refl refl s(1,3) 1(5) s(4)] by simp
        then show ?thesis using s 1(4) by (simp add: served_def)
      qed
    next
      case (ProtocolError e)
      have "served n self (\<lambda>seq. F seq + posted self (cn_id c) seq posts) c sh
        (put_slot (cn_next_seq c) (ready_slot (protocol_error e)) (c\<lparr>cn_next_seq := cn_next_seq c + 1\<rparr>), sh, [])"
        using served_ready [OF 1(3), of self "[]" n sh sh] by simp
      then show ?thesis using ProtocolError 1(4,6,7) open_conn step
        by (auto simp: served_def next_seq_def conn_ok_def)
    qed (use 1(3-) step open_conn in \<open>simp add: served_def\<close>)
  qed
qed

lemma flush_ready_keeps [simp]: "cn_id (flush_ready c) = cn_id c" "cn_next_seq (flush_ready c) = cn_next_seq c"
  by (simp_all add: flush_ready_eq)

lemma process_input_served:
  assumes "conn_ok c F" "sh_id sh = self" "self < n" "process_input X n c sh = (c', sh', posts)"
  shows "served n self F c sh (c', sh', posts)" "head_waits c'"
proof -
  obtain rest c1 sh1 ps where l: "process_loop X n 0 (cn_in c) c sh [] = (rest, c1, sh1, ps)" by (metis prod_cases4)
  then have eq: "c' = flush_ready (c1\<lparr>cn_in := rest\<rparr>)" "sh' = sh1" "posts = ps"
    using assms(4) by (simp_all add: process_input_def)
  have s: "served n self F c sh (c1, sh1, ps)"
    using process_loop_served [of c F self "[]" sh n, OF _ assms(2,3) _ l] assms(1) by simp
  then have "conn_ok (c1\<lparr>cn_in := rest\<rparr>) (\<lambda>seq. F seq + posted self (cn_id c) seq ps)"
    by (simp add: served_def conn_ok_def)
  from conn_ok_flush [OF this] s show "served n self F c sh (c', sh', posts)" "head_waits c'"
    by (simp_all add: served_def eq)
qed

text \<open>An accounting carried past steps that leave the connection's pipeline alone.\<close>

lemma served_same_after:
  "served n self F c sh (c1, sh1, ps) \<Longrightarrow> same_conn c1 c2 \<and> sh_id sh2 = sh_id sh1 \<Longrightarrow> served n self F c sh (c2, sh2, ps)"
  by (auto simp: served_def same_conn_ok) (simp_all add: same_conn_def)

lemma served_same_before:
  "served n self F c1 sh1 r \<Longrightarrow> same_conn c c1 \<and> sh_id sh1 = sh_id sh \<Longrightarrow> served n self F c sh r"
  by (auto simp: served_def same_conn_def)

lemma handle_readable_served:
  assumes "conn_ok c F" "sh_id sh = self" "self < n" "handle_readable X n rs ws c sh = (c', sh', posts)"
  shows "served n self F c sh (c', sh', posts)" "head_waits c'"
proof -
  obtain c1 sh1 where r: "read_loop rs c sh = (c1, sh1)" by fastforce
  define c2 where "c2 = (if length (cn_in c1) > kMaxInlineBuffer then c1\<lparr>cn_closing := True\<rparr> else c1)"
  obtain c3 sh2 ps where i: "process_input X n c2 sh1 = (c3, sh2, ps)" by (metis prod_cases3)
  have b: "same_conn c c2 \<and> sh_id sh1 = sh_id sh"
    using read_loop_same [OF r] by (auto simp: c2_def same_conn_def)
  have w: "handle_writable ws c3 sh2 = (c', sh')" "posts = ps"
    using assms(4) r i by (simp_all add: handle_readable_def c2_def [symmetric] Let_def split: prod.splits)
  have "conn_ok c2 F" "sh_id sh1 = self" using b assms(1,2) same_conn_ok by auto
  from process_input_served [OF this assms(3) i] handle_writable_same [OF w(1)] b w(2)
  show "served n self F c sh (c', sh', posts)" "head_waits c'"
    by (auto intro: served_same_before served_same_after simp: same_conn_waits)
qed

subsection \<open>The invariant of a node\<close>

definition node_inv :: "nat \<Rightarrow> node \<Rightarrow> (nat \<Rightarrow> nat \<Rightarrow> nat multiset) \<Rightarrow> bool" where
  "node_inv i nd F \<longleftrightarrow> sh_id (nd_shard nd) = i \<and>
     (\<forall>cid c. nd_conns nd cid = Some c \<longrightarrow> cn_id c = cid \<and> cid < nd_next_conn nd \<and> conn_ok c (F cid) \<and> head_waits c) \<and>
     (\<forall>cid\<ge>nd_next_conn nd. \<forall>seq. F cid seq = {#})"

lemma node_inv_conn:
  "node_inv i nd F \<Longrightarrow> nd_conns nd cid = Some c \<Longrightarrow> cn_id c = cid \<and> cid < nd_next_conn nd \<and> conn_ok c (F cid) \<and> head_waits c"
  by (simp add: node_inv_def)

lemma node_inv_shard: "node_inv i nd F \<Longrightarrow> sh_id sh = sh_id (nd_shard nd) \<Longrightarrow> node_inv i (nd\<lparr>nd_shard := sh\<rparr>) F"
  by (simp add: node_inv_def)

lemma node_inv_close: "node_inv i nd F \<Longrightarrow> node_inv i (close_conn cid nd) F"
  by (simp add: node_inv_def close_conn_def)

lemma node_inv_store:
  assumes "node_inv i nd F" "cid < nd_next_conn nd" "conn_ok c (F' cid)" "head_waits c" "cn_id c = cid"
    "\<And>cid'. cid' \<noteq> cid \<Longrightarrow> F' cid' = F cid'"
  shows "node_inv i (store_conn c nd) F'"
  using assms by (auto simp: node_inv_def store_conn_def close_conn_def)

lemma accept_inv: "node_inv i nd F \<Longrightarrow> node_inv i (accept_one nd) F"
  using conn_ok_new
  by (auto simp: node_inv_def accept_one_def conn_ok_def pipe_ok_def slot_ok_def conn_new_def head_waits_def less_Suc_eq)

lemma on_conn_ready_inv:
  assumes "node_inv i nd F" "i < n" "on_conn_ready X n rs ws ws' ev cid nd = (nd', posts)"
  shows "node_inv i nd' (\<lambda>cid seq. F cid seq + posted i cid seq posts)" "\<forall>p\<in>set posts. own_post n i cid p"
    "nd_mailbox nd' = nd_mailbox nd"
proof -
  have "node_inv i nd' (\<lambda>cid seq. F cid seq + posted i cid seq posts) \<and> (\<forall>p\<in>set posts. own_post n i cid p) \<and>
    nd_mailbox nd' = nd_mailbox nd"
  proof (cases "nd_conns nd cid")
    case (Some c)
    note c = node_inv_conn [OF assms(1) Some]
    show ?thesis
    proof (cases "ev_error ev")
      case True
      then show ?thesis using assms(1,3) Some node_inv_close [OF assms(1), of cid]
        by (auto simp: on_conn_ready_def close_conn_def)
    next
      case False
      obtain c1 sh1 ps where r: "(if ev_read ev then handle_readable X n rs ws c (nd_shard nd) else (c, nd_shard nd, [])) = (c1, sh1, ps)"
        by (metis prod_cases3)
      obtain c2 sh2 where w: "(if ev_write ev then handle_writable ws' c1 sh1 else (c1, sh1)) = (c2, sh2)" by fastforce
      have eq: "nd' = store_conn c2 (nd\<lparr>nd_shard := sh2\<rparr>)" "posts = ps"
        using assms(3) Some False r w by (auto simp: on_conn_ready_def)
      have id: "sh_id (nd_shard nd) = i" using assms(1) by (simp add: node_inv_def)
      have "served n i (F cid) c (nd_shard nd) (c1, sh1, ps) \<and> head_waits c1"
        using handle_readable_served [of c "F cid" "nd_shard nd" i n X rs ws c1 sh1 ps] c id assms(2) r
        by (auto simp: served_def split: if_splits)
      moreover have "same_conn c1 c2 \<and> sh_id sh2 = sh_id sh1"
        using handle_writable_same [of ws' c1 sh1 c2 sh2] w by (auto simp: same_conn_def split: if_splits)
      ultimately have s: "served n i (F cid) c (nd_shard nd) (c2, sh2, ps)" "head_waits c2"
        by (auto intro: served_same_after simp: same_conn_waits)
      then have own: "\<forall>p\<in>set ps. own_post n i cid p" using c by (simp add: served_def)
      have "node_inv i (store_conn c2 (nd\<lparr>nd_shard := sh2\<rparr>)) (\<lambda>cid seq. F cid seq + posted i cid seq posts)"
      proof (rule node_inv_store [where F = F and cid = cid])
        show "node_inv i (nd\<lparr>nd_shard := sh2\<rparr>) F" using s(1) by (intro node_inv_shard assms(1)) (simp add: served_def)
      qed (use s c eq own_posted_other [OF own] in \<open>auto simp: served_def\<close>)
      then show ?thesis using eq own by (simp add: store_conn_def close_conn_def)
    qed
  qed (use assms in \<open>auto simp: on_conn_ready_def\<close>)
  then show "node_inv i nd' (\<lambda>cid seq. F cid seq + posted i cid seq posts)" "\<forall>p\<in>set posts. own_post n i cid p"
    "nd_mailbox nd' = nd_mailbox nd" by auto
qed

section \<open>Reachable clusters\<close>

text \<open>
  The node invariant lifted to the cluster, its preservation by every step, and the load of a cluster,
  which every message taken from a mailbox lowers: the mailboxes drain, and then nothing is pending.
\<close>

lemma complete_fragment_inv:
  assumes "node_inv i nd F" "idx \<in># F cid seq"
  shows "node_inv i (complete_fragment ws cid seq idx frag b v nd) (F(cid := (F cid)(seq := F cid seq - {#idx#})))"
    (is "node_inv i _ ?F")
proof (cases "nd_conns nd cid")
  case None
  have "F cid seq = {#} \<or> cid < nd_next_conn nd" using assms(1) by (auto simp: node_inv_def not_le [symmetric])
  then show ?thesis using assms None by (auto simp: complete_fragment_def node_inv_def)
next
  case (Some c)
  note c = node_inv_conn [OF assms(1) Some]
  obtain pr where p: "map_of (cn_pipeline c) seq = Some pr"
    using c assms(2) by (cases "map_of (cn_pipeline c) seq") (auto simp: conn_ok_def slot_ok_def dest: spec [of _ seq])
  let ?c = "put_slot seq (add_fragment idx frag b v pr) c"
  obtain c2 sh where w: "handle_writable ws (flush_ready ?c) (nd_shard nd) = (c2, sh)" by fastforce
  have "conn_ok ?c ((F cid)(seq := F cid seq - {#idx#}))" using c p assms(2) by (intro conn_ok_fragment) auto
  note f = conn_ok_flush [OF this]
  have s: "same_conn (flush_ready ?c) c2" "sh_id sh = sh_id (nd_shard nd)" using handle_writable_same [OF w] by auto
  have "node_inv i (store_conn c2 (nd\<lparr>nd_shard := sh\<rparr>)) ?F"
  proof (rule node_inv_store [where F = F and cid = cid])
    show "node_inv i (nd\<lparr>nd_shard := sh\<rparr>) F" by (intro node_inv_shard assms(1)) (simp add: s)
  qed (use f s(1) c in \<open>simp_all add: same_conn_ok same_conn_waits, simp add: same_conn_def\<close>)
  then show ?thesis using Some p w by (simp add: complete_fragment_def)
qed

lemma complete_fragment_box [simp]: "nd_mailbox (complete_fragment ws cid seq idx frag b v nd) = nd_mailbox nd"
  by (simp add: complete_fragment_def store_conn_def close_conn_def split: option.split prod.split)

subsection \<open>The invariant\<close>

definition cluster_inv :: "nat \<Rightarrow> cluster \<Rightarrow> bool" where
  "cluster_inv n cl \<longleftrightarrow> (\<forall>i<n. node_inv i (cl i) (flights n cl i) \<and> (\<forall>m\<in>set (nd_mailbox (cl i)). msg_ok n i m))"

lemma cluster_inv_node: "cluster_inv n cl \<Longrightarrow> i < n \<Longrightarrow> node_inv i (cl i) (flights n cl i)"
  by (simp add: cluster_inv_def)

lemma initial_inv: "initial n cl \<Longrightarrow> cluster_inv n cl"
proof -
  assume a: "initial n cl"
  then have box: "nd_mailbox (cl i) = []" "nd_conns (cl i) = Map.empty" "sh_id (nd_shard (cl i)) = i" if "i < n" for i
    using that by (auto simp: initial_def node_init_def dest: spec [of _ i])
  then have "flights n cl = (\<lambda>i cid seq. {#})" by (auto simp: flights_def fun_eq_iff)
  then show ?thesis using box by (simp add: cluster_inv_def node_inv_def)
qed

lemma inv_same_boxes:
  assumes "cluster_inv n cl" "i < n" "nd_mailbox nd = nd_mailbox (cl i)" "node_inv i nd (flights n cl i)"
  shows "cluster_inv n (cl(i := nd))"
proof -
  have "flights n (cl(i := nd)) = flights n cl" using flights_same_box [where cl = cl, OF assms(2,3)] by blast
  then show ?thesis using assms by (simp add: cluster_inv_def)
qed

text \<open>A handler of node \<open>i\<close> ran on \<open>nd0\<close> and posted \<open>posts\<close>; \<open>G\<close> is the accounting without what it
  consumed.\<close>

lemma inv_deliver:
  assumes inv: "cluster_inv n cl" and i: "i < n"
    and fl: "\<And>j cid seq. j < n \<Longrightarrow> flights n (cl(i := nd)) j cid seq + posted j cid seq posts =
               (if j = i then G cid seq else flights n cl j cid seq)"
    and nd: "node_inv i nd G" and posts: "\<forall>p\<in>set posts. fst p < n \<and> msg_ok n (fst p) (snd p)"
    and box: "\<forall>m\<in>set (nd_mailbox nd). msg_ok n i m"
  shows "cluster_inv n (deliver (cl(i := nd)) posts)"
proof -
  let ?cl = "deliver (cl(i := nd)) posts"
  have F: "flights n ?cl j = (if j = i then G else flights n cl j)" if "j < n" for j
    using fl [OF that] flights_deliver [of posts n "cl(i := nd)"] posts by (auto simp: fun_eq_iff)
  show ?thesis
    unfolding cluster_inv_def
  proof (intro allI impI conjI ballI)
    fix j assume j: "j < n"
    show "node_inv j (?cl j) (flights n ?cl j)"
      using cluster_inv_node [OF inv j] nd F [OF j] by (auto simp: node_inv_def)
    fix m assume "m \<in> set (nd_mailbox (?cl j))"
    then show "msg_ok n j m" using inv box posts j by (auto simp: deliver_box cluster_inv_def split: if_splits)
  qed
qed

lemma own_postsD: "\<forall>p\<in>set posts. own_post n i cid p \<Longrightarrow> \<forall>p\<in>set posts. fst p < n \<and> msg_ok n (fst p) (snd p)"
  by (simp add: own_post_def)

lemma take_message:
  assumes "i < n" "nd_mailbox (cl i) = m # rest" "nd_mailbox nd = rest"
  shows "flights n cl j cid seq = flights n (cl(i := nd)) j cid seq + index_of j cid seq i m"
  using assms by (simp add: flights_upd flights_split [of i])

lemma message_inv:
  assumes inv: "cluster_inv n cl" and i: "i < n" and box: "nd_mailbox (cl i) = m # rest"
    and run: "run_message X ws m ((cl i)\<lparr>nd_mailbox := rest\<rparr>) = (nd, posts)"
  shows "cluster_inv n (deliver (cl(i := nd)) posts)"
proof -
  let ?nd = "(cl i)\<lparr>nd_mailbox := rest\<rparr>"
  have ndi: "node_inv i ?nd (flights n cl i)" using cluster_inv_node [OF inv i] by (simp add: node_inv_def)
  have mk: "\<forall>m\<in>set (nd_mailbox (cl i)). msg_ok n i m" using inv i by (simp add: cluster_inv_def)
  show ?thesis
  proof (cases m)
    case (Execute org cid seq idx b args)
    have eq: "nd = ?nd\<lparr>nd_shard := snd (exec_core X args (nd_shard (cl i)))\<rparr>"
      "\<exists>r v. posts = [(org, Complete cid seq idx r b v)]"
      using run Execute by (auto simp: run_message_def execute_owned_def split: prod.splits)
    have org: "org < n" using mk box Execute by (simp add: msg_ok_def)
    have p: "posted j cid' seq' posts = index_of j cid' seq' i m" for j cid' seq'
      using eq(2) Execute by (auto simp: index_of_def)
    show ?thesis
    proof (rule inv_deliver [OF inv i, where G = "flights n cl i"])
      show "node_inv i nd (flights n cl i)" using ndi eq(1) by (simp add: node_inv_shard)
    qed (use p org eq mk box take_message [where cl = cl and nd = nd, OF i box] in \<open>auto simp: msg_ok_def\<close>)
  next
    case (Complete cid seq idx r b v)
    have eq: "nd = complete_fragment ws cid seq idx r b v ?nd" "posts = []"
      using run Complete by (auto simp: run_message_def)
    have tm: "flights n cl j cid' seq' = flights n (cl(i := nd)) j cid' seq' + index_of j cid' seq' i m" for j cid' seq'
      by (rule take_message [where cl = cl and nd = nd, OF i box]) (simp add: eq)
    then have "idx \<in># flights n cl i cid seq" using Complete by (simp add: index_of_def)
    from complete_fragment_inv [OF ndi this] have nd: "node_inv i nd
      ((flights n cl i)(cid := (flights n cl i cid)(seq := flights n cl i cid seq - {#idx#})))"
      using eq(1) by simp
    show ?thesis
    proof (rule inv_deliver [OF inv i _ nd])
      show "flights n (cl(i := nd)) j cid' seq' + posted j cid' seq' posts =
        (if j = i then ((flights n cl i)(cid := (flights n cl i cid)(seq := flights n cl i cid seq - {#idx#}))) cid' seq'
         else flights n cl j cid' seq')" for j cid' seq'
        using tm [of j cid' seq'] Complete eq(2) by (auto simp: index_of_def)
    qed (use eq mk box in auto)
  next
    case FlushShard
    have eq: "nd = ?nd\<lparr>nd_shard := shard_flush X (nd_shard (cl i))\<rparr>" "posts = []"
      using run FlushShard by (auto simp: run_message_def)
    show ?thesis
    proof (rule inv_deliver [OF inv i, where G = "flights n cl i"])
      show "node_inv i nd (flights n cl i)" using ndi eq(1) by (simp add: node_inv_shard)
    qed (use eq mk box FlushShard take_message [where cl = cl and nd = nd, OF i box] in \<open>auto simp: index_of_def\<close>)
  qed
qed

lemma ready_inv:
  assumes "cluster_inv n cl" "i < n" "on_conn_ready X n rs ws ws' ev cid (cl i) = (nd, posts)"
  shows "cluster_inv n (deliver (cl(i := nd)) posts)"
proof -
  note r = on_conn_ready_inv [OF cluster_inv_node [OF assms(1,2)] assms(2,3)]
  show ?thesis
  proof (rule inv_deliver [OF assms(1,2) _ r(1) own_postsD [OF r(2)]])
    show "flights n (cl(i := nd)) j cid' seq + posted j cid' seq posts =
      (if j = i then flights n cl i cid' seq + posted i cid' seq posts else flights n cl j cid' seq)" for j cid' seq
      using own_posted_other [OF r(2), of j cid' seq] by (simp add: flights_same_box [where cl = cl, OF assms(2) r(3)])
  qed (use assms r(3) in \<open>simp add: cluster_inv_def\<close>)
qed

lemma accept_box: "nd_mailbox (accept_one nd) = nd_mailbox nd"
  by (simp add: accept_one_def)

lemma step_inv: "step n cl cl' \<Longrightarrow> cluster_inv n cl \<Longrightarrow> cluster_inv n cl'"
proof (induction rule: step.cases)
  case (accept i cl)
  then show ?case
    by (auto intro!: inv_same_boxes accept_inv cluster_inv_node simp: accept_box)
next
  case (tick i cl cfg T)
  then show ?case
    by (auto intro!: inv_same_boxes node_inv_shard cluster_inv_node)
qed (auto intro: ready_inv message_inv)

lemma reach_inv: "reach n cl \<Longrightarrow> cluster_inv n cl"
  by (induction rule: reach.induct) (auto intro: initial_inv step_inv)

subsection \<open>The mailboxes drain\<close>

text \<open>Taking messages only: no new input arrives.\<close>

inductive take_message_step :: "nat \<Rightarrow> cluster \<Rightarrow> cluster \<Rightarrow> bool" for n where
  take: "i < n \<Longrightarrow> nd_mailbox (cl i) = m # rest \<Longrightarrow>
    run_message X ws m ((cl i)\<lparr>nd_mailbox := rest\<rparr>) = (nd, posts) \<Longrightarrow>
    take_message_step n cl (deliver (cl(i := nd)) posts)"

inductive_cases take_message_stepE: "take_message_step n cl cl'"

lemma take_message_step_step: "take_message_step n cl cl' \<Longrightarrow> step n cl cl'"
  by (auto elim!: take_message_stepE intro: step.message)

fun msg_weight :: "msg \<Rightarrow> nat" where
  "msg_weight (Execute _ _ _ _ _ _) = 2"
| "msg_weight _ = 1"

definition box_weight :: "msg list \<Rightarrow> nat" where
  "box_weight ms = sum_list (map msg_weight ms)"

definition load :: "nat \<Rightarrow> cluster \<Rightarrow> nat" where
  "load n cl = (\<Sum>t<n. box_weight (nd_mailbox (cl t)))"

lemma load_upd:
  assumes "i < n"
  shows "load n (cl(i := nd)) + box_weight (nd_mailbox (cl i)) = load n cl + box_weight (nd_mailbox nd)"
proof -
  have "load n (cl(i := nd)) = box_weight (nd_mailbox nd) + (\<Sum>t\<in>{..<n} - {i}. box_weight (nd_mailbox (cl t)))"
    unfolding load_def using assms by (subst sum.remove [of _ i]) (auto intro!: sum.cong)
  moreover have "load n cl = box_weight (nd_mailbox (cl i)) + (\<Sum>t\<in>{..<n} - {i}. box_weight (nd_mailbox (cl t)))"
    unfolding load_def using assms by (subst sum.remove [of _ i]) auto
  ultimately show ?thesis by simp
qed

lemma load_deliver1: "t < n \<Longrightarrow> load n (deliver1 cl (t, m)) = load n cl + msg_weight m"
  using load_upd [of t n cl "(cl t)\<lparr>nd_mailbox := nd_mailbox (cl t) @ [m]\<rparr>"]
  by (simp add: deliver1_def box_weight_def)

lemma load_zero: "load n cl = 0 \<longleftrightarrow> (\<forall>i<n. nd_mailbox (cl i) = [])"
proof -
  have "box_weight ms = 0 \<longleftrightarrow> ms = []" for ms
    by (cases ms; cases "hd ms") (auto simp: box_weight_def)
  then show ?thesis by (auto simp: load_def)
qed

lemma run_message_box: "run_message X ws m nd = (nd', posts) \<Longrightarrow> nd_mailbox nd' = nd_mailbox nd"
  by (auto simp: run_message_def execute_owned_def split: msg.splits prod.splits)

lemma take_message_step_weight:
  assumes "take_message_step n cl cl'" "cluster_inv n cl" shows "load n cl' < load n cl"
  using assms(1)
proof (cases rule: take_message_step.cases)
  case (take i m rest X ws nd posts)
  have "nd_mailbox nd = rest" using run_message_box [OF take(4)] by simp
  then have w: "load n cl = load n (cl(i := nd)) + msg_weight m"
    using load_upd [OF take(2), of cl nd] take(3) by (simp add: box_weight_def)
  have "msg_ok n i m" using assms(2) take(2,3) by (simp add: cluster_inv_def)
  then show ?thesis using take(1,4) w
    by (cases m)
      (auto simp: run_message_def execute_owned_def msg_ok_def deliver_def load_deliver1 split: prod.splits)
qed

lemma take_message_step_inv: "take_message_step n cl cl' \<Longrightarrow> cluster_inv n cl \<Longrightarrow> cluster_inv n cl'"
  by (rule step_inv [OF take_message_step_step])

lemma drain_bound:
  "(take_message_step n ^^ k) cl cl' \<Longrightarrow> cluster_inv n cl \<Longrightarrow> k + load n cl' \<le> load n cl \<and> cluster_inv n cl'"
proof (induction k arbitrary: cl')
  case (Suc k)
  then obtain cl1 where "(take_message_step n ^^ k) cl cl1" "take_message_step n cl1 cl'" by auto
  then show ?case using Suc take_message_step_weight [of n cl1 cl'] take_message_step_inv [of n cl1 cl'] by fastforce
qed simp

lemma stuck_empty:
  assumes "\<nexists>cl'. take_message_step n cl cl'" "i < n" shows "nd_mailbox (cl i) = []"
proof (cases "nd_mailbox (cl i)")
  case (Cons m rest)
  obtain X ws nd posts where "run_message X ws m ((cl i)\<lparr>nd_mailbox := rest\<rparr>) = (nd, posts)" by fastforce
  then show ?thesis using assms Cons take_message_step.take by blast
qed

lemma empty_answered:
  assumes "cluster_inv n cl" "\<forall>i<n. nd_mailbox (cl i) = []" "i < n" "nd_conns (cl i) cid = Some c"
  shows "cn_pipeline c = []"
proof (cases "cn_pipeline c")
  case (Cons x rest)
  obtain s pr where x: "x = (s, pr)" by fastforce
  have "flights n cl i cid s = {#}" using assms(2) by (simp add: flights_def)
  moreover note node_inv_conn [OF cluster_inv_node [OF assms(1,3)] assms(4)]
  ultimately show ?thesis using Cons x
    by (auto simp: conn_ok_def head_waits_def slot_ok_def dest!: spec [of _ s])
qed

subsection \<open>Scatter and gather\<close>

definition fresh_pending :: "ReplyKind \<Rightarrow> nat \<Rightarrow> pending" where
  "fresh_pending kind k = \<lparr>pr_ready = False, pr_bytes = [], pr_kind = kind, pr_remaining = int k,
     pr_frags = replicate k [], pr_accum = 0\<rparr>"

definition gather :: "ReplyKind \<Rightarrow> (nat \<Rightarrow> bytes) \<Rightarrow> (nat \<Rightarrow> int) \<Rightarrow> nat list \<Rightarrow> pending \<Rightarrow> pending" where
  "gather kind reply v order pr = foldl (\<lambda>p i. add_fragment i (reply i) (counting kind) (v i) p) pr order"

definition partial_pending :: "ReplyKind \<Rightarrow> nat \<Rightarrow> (nat \<Rightarrow> bytes) \<Rightarrow> (nat \<Rightarrow> int) \<Rightarrow> nat set \<Rightarrow> pending" where
  "partial_pending kind k reply v D = \<lparr>pr_ready = False, pr_bytes = [], pr_kind = kind, pr_remaining = int k - int (card D),
     pr_frags = map (\<lambda>i. if i \<in> D \<and> \<not> counting kind then reply i else []) [0..<k],
     pr_accum = (if counting kind then sum v D else 0)\<rparr>"

lemma partial_frags:
  assumes "i < k" "\<not> counting kind"
  shows "(map (\<lambda>j. if j \<in> D \<and> \<not> counting kind then reply j else []) [0..<k])[i := reply i] =
    map (\<lambda>j. if j \<in> insert i D \<and> \<not> counting kind then reply j else []) [0..<k]"
  using assms by (intro nth_equalityI) (auto simp: nth_list_update)

lemma partial_step:
  assumes "i < k" "i \<notin> D" "finite D" and that: "pr = partial_pending kind k reply v D"
  shows "(let pr1 = (if counting kind then pr\<lparr>pr_accum := pr_accum pr + v i\<rparr> else pr\<lparr>pr_frags := (pr_frags pr)[i := reply i]\<rparr>)
          in pr1\<lparr>pr_remaining := pr_remaining pr1 - 1\<rparr>) = partial_pending kind k reply v (insert i D)"
proof (cases "counting kind")
  case True
  then show ?thesis using assms by (simp add: that partial_pending_def)
next
  case False
  then show ?thesis using assms partial_frags [OF assms(1) False, of D reply] by (simp add: that partial_pending_def)
qed

lemma partial_fragment:
  assumes "i < k" "i \<notin> D" "finite D"
  shows "add_fragment i (reply i) (counting kind) (v i) (partial_pending kind k reply v D) =
    (if card D + 1 = k then assemble (partial_pending kind k reply v (insert i D))
     else partial_pending kind k reply v (insert i D))"
proof -
  have "pr_remaining (partial_pending kind k reply v (insert i D)) = 0 \<longleftrightarrow> card D + 1 = k"
    using assms by (auto simp: partial_pending_def)
  moreover have "add_fragment i f b w p =
    (let pr2 = (let pr1 = (if b then p\<lparr>pr_accum := pr_accum p + w\<rparr> else p\<lparr>pr_frags := (pr_frags p)[i := f]\<rparr>)
                in pr1\<lparr>pr_remaining := pr_remaining pr1 - 1\<rparr>)
     in if pr_remaining pr2 = 0 then assemble pr2 else pr2)" for f b w p
    by (simp add: add_fragment_def Let_def)
  ultimately show ?thesis by (simp only: partial_step [OF assms refl, unfolded Let_def] Let_def)
qed

lemma gather_partial:
  "distinct order \<Longrightarrow> set order \<subseteq> {..<k} \<Longrightarrow> length order < k \<Longrightarrow>
   gather kind reply v order (fresh_pending kind k) = partial_pending kind k reply v (set order)"
proof (induction order rule: rev_induct)
  case Nil
  have "replicate k [] = map (\<lambda>i. []) [0..<k]" by (simp add: map_replicate_const)
  then show ?case by (simp add: gather_def fresh_pending_def partial_pending_def)
next
  case (snoc i order)
  have "card (set order) = length order" using snoc.prems by (simp add: distinct_card)
  moreover have "gather kind reply v order (fresh_pending kind k) = partial_pending kind k reply v (set order)"
    using snoc by simp
  ultimately show ?case using snoc.prems partial_fragment [of i k "set order" reply kind v] by (simp add: gather_def)
qed

lemma gather_all:
  assumes "0 < k" "distinct order" "set order = {..<k}"
  shows "gather kind reply v order (fresh_pending kind k) = assemble (partial_pending kind k reply v {..<k})"
proof -
  have len: "length order = k" using assms distinct_card [of order] by simp
  obtain i pre where o: "order = pre @ [i]" using len assms(1) by (cases order rule: rev_cases) auto
  have "card (set pre) + 1 = k" using assms len o by (simp add: distinct_card)
  moreover have s: "insert i (set pre) = {..<k}" "i < k" "i \<notin> set pre" "distinct pre" "length pre < k" using assms o len by auto
  moreover have "gather kind reply v pre (fresh_pending kind k) = partial_pending kind k reply v (set pre)"
    using s by (intro gather_partial) auto
  ultimately show ?thesis using partial_fragment [of i k "set pre" reply kind v] by (simp add: gather_def o)
qed

lemma foldl_raw: "foldl (\<lambda>b f. rb_raw f b) h fs = h @ concat fs"
  by (induction fs arbitrary: h) (simp_all add: rb_raw_def)

lemma all_frags: "map (\<lambda>i. if i \<in> {..<k} \<and> \<not> b then reply i else []) [0..<k] = (if b then replicate k [] else map reply [0..<k])"
    "map (\<lambda>i. if i \<in> {..<k} then reply i else []) [0..<k] = map reply [0..<k]"
  by (auto intro!: nth_equalityI)

lemma assemble_partial:
  "pr_ready (assemble (partial_pending kind k reply v {..<k}))"
  "kind = MGet \<Longrightarrow> pr_bytes (assemble (partial_pending kind k reply v {..<k})) =
     rb_array_header (int k) [] @ concat (map reply [0..<k])"
  "kind = MSet \<Longrightarrow> pr_bytes (assemble (partial_pending kind k reply v {..<k})) = rb_simple_string ''OK'' []"
  "counting kind \<Longrightarrow> pr_bytes (assemble (partial_pending kind k reply v {..<k})) = rb_integer (\<Sum>i<k. v i) []"
  by (auto simp: assemble_def partial_pending_def all_frags foldl_raw counting_def simp del: lessThan_iff)

end
