(* ===== verification/Cluster_Input.thy ===== *)
theory Cluster_Input
  imports Cluster_Inv
begin

section \<open>Input in pieces\<close>

text \<open>
  A connection reads whatever the network delivers, and works the whole commands in it. Between two reads the
  finished replies go to the output. It is shown that this makes no difference: \<open>like\<close> relates connections that
  differ only in how much has been moved to the output already, and every command keeps it.
\<close>

subsection \<open>Flushing early\<close>

definition fresh :: "conn \<Rightarrow> bool" where
  "fresh c \<longleftrightarrow> (\<forall>s\<in>set (map fst (cn_pipeline c)). s < cn_next_seq c)"

definition like :: "conn \<Rightarrow> conn \<Rightarrow> bool" where
  "like c c' \<longleftrightarrow> fresh c \<and> fresh c' \<and> take_ready (cn_pipeline c) (cn_out c) = take_ready (cn_pipeline c') (cn_out c') \<and>
     cn_id c' = cn_id c \<and> cn_sent c' = cn_sent c \<and> cn_closing c' = cn_closing c \<and> cn_next_seq c' = cn_next_seq c \<and>
     cn_wire c' = cn_wire c \<and> cn_want_write c' = cn_want_write c \<and> cn_ub c' = cn_ub c"

lemma take_ready_append:
  "take_ready (ps @ qs) out = (let (ps', out') = take_ready ps out in take_ready (ps' @ qs) out')"
  by (induction ps out rule: take_ready.induct) auto

lemma take_ready_subset: "set (fst (take_ready ps out)) \<subseteq> set ps"
  by (induction ps out rule: take_ready.induct) auto

lemma fresh_put:
  assumes "fresh c"
  shows "cn_pipeline (put_slot (cn_next_seq c) pr c) = cn_pipeline c @ [(cn_next_seq c, pr)]"
    "fresh (put_slot (cn_next_seq c) pr (c\<lparr>cn_next_seq := cn_next_seq c + 1\<rparr>))"
proof -
  have "slot_set (cn_next_seq c) pr (cn_pipeline c) = cn_pipeline c @ [(cn_next_seq c, pr)]"
    using assms by (intro slot_set_new) (simp add: fresh_def)
  then show "cn_pipeline (put_slot (cn_next_seq c) pr c) = cn_pipeline c @ [(cn_next_seq c, pr)]"
    "fresh (put_slot (cn_next_seq c) pr (c\<lparr>cn_next_seq := cn_next_seq c + 1\<rparr>))"
    using assms by (auto simp: fresh_def put_slot_def)
qed

lemma like_put:
  assumes "like c c'"
  shows "like (put_slot (cn_next_seq c) pr (c\<lparr>cn_next_seq := cn_next_seq c + 1\<rparr>))
    (put_slot (cn_next_seq c) pr (c'\<lparr>cn_next_seq := cn_next_seq c + 1\<rparr>))"
proof -
  have f: "fresh c" "fresh c'" "cn_next_seq c' = cn_next_seq c" using assms by (simp_all add: like_def)
  have "take_ready (cn_pipeline c @ x) (cn_out c) = take_ready (cn_pipeline c' @ x) (cn_out c')" for x
    using assms by (simp add: like_def take_ready_append [of "cn_pipeline c"] take_ready_append [of "cn_pipeline c'"])
  then show ?thesis
    using assms fresh_put [OF f(1), of pr] fresh_put [OF f(2), of pr] f(3) unfolding like_def
    by (simp add: put_slot_def)
qed

lemma like_ub: "like c c' \<Longrightarrow> like (c\<lparr>cn_ub := b\<rparr>) (c'\<lparr>cn_ub := b\<rparr>)"
  and like_closing: "like c c' \<Longrightarrow> like (c\<lparr>cn_closing := b\<rparr>) (c'\<lparr>cn_closing := b\<rparr>)"
  and like_in: "like (c\<lparr>cn_in := d\<rparr>) c' = like c c'" "like c (c'\<lparr>cn_in := d\<rparr>) = like c c'"
  by (auto simp: like_def fresh_def)

lemma take_ready_idem: "take_ready ps out = (ps', out') \<Longrightarrow> take_ready ps' out' = (ps', out')"
  by (induction ps out rule: take_ready.induct) (auto split: if_splits)

lemma like_flushed:
  assumes "fresh c"
  shows "like c (flush_ready c)"
proof -
  obtain ps out where t: "take_ready (cn_pipeline c) (cn_out c) = (ps, out)" by fastforce
  then have "set ps \<subseteq> set (cn_pipeline c)" using take_ready_subset by (metis fst_conv)
  then show ?thesis using assms t take_ready_idem [OF t] by (auto simp: like_def fresh_def flush_ready_def)
qed

lemma fresh_flushed: "fresh c \<Longrightarrow> fresh (flush_ready c)"
  using like_flushed by (simp add: like_def)

lemma like_flush_eq: "like c c' \<Longrightarrow> flush_ready (c\<lparr>cn_in := r\<rparr>) = flush_ready (c'\<lparr>cn_in := r\<rparr>)"
  by (rule conn.equality) (simp_all add: like_def flush_ready_def split: prod.splits)

subsection \<open>Commands do not see it\<close>

definition like_result :: "conn \<times> shard \<times> post list \<Rightarrow> conn \<times> shard \<times> post list \<Rightarrow> bool" where
  "like_result r r' \<longleftrightarrow> like (fst r) (fst r') \<and> snd r' = snd r"

lemma like_slot:
  "like c c' \<Longrightarrow> like_result (put_slot (cn_next_seq c) pr (c\<lparr>cn_next_seq := cn_next_seq c + 1\<rparr>), sh, ps)
     (put_slot (cn_next_seq c) pr (c'\<lparr>cn_next_seq := cn_next_seq c + 1\<rparr>), sh, ps)"
  using like_put [of c c' pr] by (simp add: like_result_def)

lemma dispatch_like:
  assumes "like c c'"
  shows "like_result (dispatch X n argv c sh) (dispatch X n argv c' sh)"
proof -
  have f: "cn_next_seq c' = cn_next_seq c" "cn_id c' = cn_id c" "cn_ub c' = cn_ub c" using assms by (simp_all add: like_def)
  note slot = like_slot [OF assms]
  let ?c = "c\<lparr>cn_next_seq := cn_next_seq c + 1\<rparr>" and ?c' = "c'\<lparr>cn_next_seq := cn_next_seq c + 1\<rparr>"
  have l: "like_result (exec_local X n (cn_next_seq c) argv ?c sh) (exec_local X n (cn_next_seq c) argv ?c' sh)"
    by (cases "exec_core X argv sh") (use slot in \<open>simp add: exec_local_def\<close>)
  have s: "like_result (begin_single_forward (cn_next_seq c) t argv ?c sh) (begin_single_forward (cn_next_seq c) t argv ?c' sh)"
    for t using slot f by (simp add: begin_single_forward_def)
  have m: "like_result (begin_multikey n (cn_next_seq c) argv keys ?c sh) (begin_multikey n (cn_next_seq c) argv keys ?c' sh)"
    for keys using like_ub [OF like_put [OF assms]] f
    by (simp add: begin_multikey_def Let_def like_result_def) (simp add: put_slot_def)
  show ?thesis
    using slot l s m
    by (simp add: dispatch_def next_seq_def Let_def f split: option.split)
qed

lemma process_loop_like:
  assumes "like c c'"
  shows "\<exists>r c1 c1' sh1 ps. process_loop X n i data c sh posts = (r, c1, sh1, posts @ ps) \<and>
    process_loop X n i data c' sh posts' = (r, c1', sh1, posts' @ ps) \<and> like c1 c1'"
  using assms
proof (induction X n i data c sh posts arbitrary: c' posts' rule: process_loop.induct)
  case (1 X n i data c sh posts)
  note steps = process_loop.simps [of X n i data c sh posts] process_loop.simps [of X n i data c' sh posts']
  have cl: "cn_closing c' = cn_closing c" "cn_next_seq c' = cn_next_seq c" using "1.prems" by (simp_all add: like_def)
  show ?case
  proof (cases "cn_closing c \<or> parse_request data = NeedMore")
    case True
    then show ?thesis using "1.prems" cl by (auto simp: steps)
  next
    case False
    show ?thesis
    proof (cases "parse_request data")
      case (ProtocolError e)
      then show ?thesis using False like_closing [OF like_put [OF "1.prems"]] cl by (simp add: steps next_seq_def)
    next
      case (Ok argv k)
      show ?thesis
      proof (cases "argv = []")
        case True
        then show ?thesis using False Ok cl "1.IH"(1) [OF _ Ok] "1.prems" by (simp add: steps)
      next
        case ne: False
        obtain c1 c1' sh1 ps where d: "dispatch (X i) n argv c sh = (c1, sh1, ps)" "dispatch (X i) n argv c' sh = (c1', sh1, ps)"
          "like c1 c1'" using dispatch_like [OF "1.prems", of "X i" n argv sh]
          by (cases "dispatch (X i) n argv c sh"; cases "dispatch (X i) n argv c' sh") (auto simp: like_result_def)
        then show ?thesis using False Ok cl ne "1.IH"(2) [OF _ Ok ne d(1) [symmetric] refl refl d(3), of "posts' @ ps"]
          by (auto simp: steps)
      qed
    qed (use False in auto)
  qed
qed

lemma process_loop_shift:
  "process_loop X n (j + i) data c sh posts = process_loop (\<lambda>i. X (j + i)) n i data c sh posts"
proof (induction "\<lambda>i. X (j + i)" n i data c sh posts rule: process_loop.induct)
  case (1 n i data c sh posts)
  note steps = process_loop.simps [of X n "j + i" data c sh posts] process_loop.simps [of "\<lambda>i. X (j + i)" n i data c sh posts]
  show ?case
  proof (cases "cn_closing c")
    case False
    show ?thesis
    proof (cases "parse_request data")
      case (Ok argv k)
      then show ?thesis using False "1"
        by (cases "argv = []"; cases "dispatch (X (j + i)) n argv c sh") (simp_all add: steps)
    qed (simp_all add: steps)
  qed (simp add: steps)
qed

subsection \<open>A stream of commands cut anywhere\<close>

interpretation input: frame_reader encode_multibulk "\<lambda>argv. argv \<noteq> [] \<and> small_args argv" request_of needs_more
    "\<lambda>(c, sh, posts). cn_closing c"
    "\<lambda>i argv (c, sh, posts). let (c1, sh1, ps) = dispatch (X i) n argv c sh in (c1, sh1, posts @ ps)"
    "\<lambda>d (c, sh, posts). (d, c, sh, posts)"
    "\<lambda>i d (c, sh, posts). process_loop X n i d c sh posts" for X n
proof (unfold_locales, goal_cases)
  case (1 st i d) then show ?case by (auto simp: process_loop.simps split: prod.splits)
next
  case (2 st d i) then show ?case by (auto simp: process_loop.simps needs_more_def split: prod.splits)
next
  case (3 st m d k i)
  then show ?case by (auto simp: process_loop.simps [of _ _ _ d] request_of_Some Let_def split: prod.splits)
qed

text \<open>Two pieces: what the first read left in the buffer is in front of the second.\<close>

lemma process_input_fragments:
  assumes "fresh c" "\<forall>argv\<in>set ms. argv \<noteq> [] \<and> small_args argv" "k \<le> l"
    "process_input X n (c\<lparr>cn_in := take k (resp.stream ms)\<rparr>) sh = (c1, sh1, p1)"
  obtains j where "\<And>c2 sh2 p2.
    process_input (\<lambda>i. X (j + i)) n (c1\<lparr>cn_in := cn_in c1 @ drop k (take l (resp.stream ms))\<rparr>) sh1 = (c2, sh2, p2) \<Longrightarrow>
    process_input X n (c\<lparr>cn_in := take l (resp.stream ms)\<rparr>) sh = (c2, sh2, p1 @ p2)"
proof -
  let ?s = "resp.stream ms" and ?c = "c\<lparr>cn_in := []\<rparr>"
  have fr: "like (c\<lparr>cn_in := d\<rparr>) ?c" for d using assms(1) by (simp add: like_in) (simp add: like_def)
  have unq: "process_input X n (c\<lparr>cn_in := d\<rparr>) sh =
      (let (r, c1, sh1, p) = process_loop X n 0 d ?c sh [] in (flush_ready (c1\<lparr>cn_in := r\<rparr>), sh1, p))" for d
    using process_loop_like [OF fr [of d], of X n 0 d sh "[]" "[]"] like_flush_eq by (fastforce simp: process_input_def)
  have "\<exists>j d c' sh' p'. process_loop X n 0 (take k ?s) ?c sh [] = (d, c', sh', p') \<and>
      (\<forall>l\<ge>k. process_loop X n 0 (take l ?s) ?c sh [] = process_loop X n j (d @ drop k (take l ?s)) c' sh' p')"
    using input.loop_fragmented [OF assms(2), of X n 0 k "(?c, sh, [])"] by (simp only: split_paired_Ex prod.case add_0)
  then obtain j d c' sh' p' where l: "process_loop X n 0 (take k ?s) ?c sh [] = (d, c', sh', p')"
    "\<And>l. k \<le> l \<Longrightarrow> process_loop X n 0 (take l ?s) ?c sh [] = process_loop X n j (d @ drop k (take l ?s)) c' sh' p'"
    by blast
  from assms(4) l(1) have one: "c1 = flush_ready (c'\<lparr>cn_in := d\<rparr>)" "sh1 = sh'" "p1 = p'" by (simp_all add: unq)
  have fc: "fresh c'"
    using process_loop_like [OF fr [of "[]"], of X n 0 "take k ?s" sh "[]" "[]"] l(1) by (auto simp: like_def)
  let ?d = "d @ drop k (take l ?s)"
  have in1: "cn_in c1 = d" by (simp add: one flush_ready_def split: prod.splits)
  have "fresh (c'\<lparr>cn_in := d\<rparr>)" using fc by (simp add: fresh_def)
  from like_flushed [OF this] have "like c' (c1\<lparr>cn_in := ?d\<rparr>)" by (simp add: one(1) like_in)
  from process_loop_like [OF this, of X n j ?d sh' p' "[]"] obtain r ca cb sh2 ps where
    e: "process_loop X n j ?d c' sh' p' = (r, ca, sh2, p' @ ps)"
      "process_loop X n j ?d (c1\<lparr>cn_in := ?d\<rparr>) sh' [] = (r, cb, sh2, ps)" "like ca cb" by auto
  have "process_input (\<lambda>i. X (j + i)) n (c1\<lparr>cn_in := cn_in c1 @ drop k (take l ?s)\<rparr>) sh1 =
      (flush_ready (ca\<lparr>cn_in := r\<rparr>), sh2, ps)"
    using e(2) process_loop_shift [of X n j 0] like_flush_eq [OF e(3)] by (simp add: process_input_def in1 one(2))
  moreover have "process_input X n (c\<lparr>cn_in := take l ?s\<rparr>) sh = (flush_ready (ca\<lparr>cn_in := r\<rparr>), sh2, p1 @ ps)"
    using l(2) [OF assms(3)] e(1) by (simp add: unq one(3))
  ultimately show ?thesis by (intro that [of j]) simp
qed

text \<open>Any number of reads, each with the environment its commands run in.\<close>

fun feed :: "nat \<Rightarrow> ((nat \<Rightarrow> exec_env) \<times> bytes) list \<Rightarrow> conn \<Rightarrow> shard \<Rightarrow> conn \<times> shard \<times> post list" where
  "feed n [] c sh = (c, sh, [])"
| "feed n ((X, d) # ds) c sh =
     (let (c1, sh1, p1) = process_input X n (c\<lparr>cn_in := cn_in c @ d\<rparr>) sh;
          (c2, sh2, p2) = feed n ds c1 sh1
      in (c2, sh2, p1 @ p2))"

lemma feed_snoc:
  "feed n (ds @ [(X, d)]) c sh =
     (let (c1, sh1, p1) = feed n ds c sh; (c2, sh2, p2) = process_input X n (c1\<lparr>cn_in := cn_in c1 @ d\<rparr>) sh1
      in (c2, sh2, p1 @ p2))"
  by (induction ds arbitrary: c sh) (auto split: prod.splits)

lemma feed_fragments:
  assumes "fresh c" "cn_in c = []" "\<forall>argv\<in>set ms. argv \<noteq> [] \<and> small_args argv"
  shows "ds \<noteq> [] \<Longrightarrow> concat ds = take l (resp.stream ms) \<Longrightarrow>
    \<exists>js. length js = length ds \<and>
      feed n (zip (map (\<lambda>j i. X (j + i)) js) ds) c sh = process_input X n (c\<lparr>cn_in := concat ds\<rparr>) sh"
proof (induction ds arbitrary: l rule: rev_induct)
  case (snoc d ds)
  let ?s = "resp.stream ms" and ?k = "length (concat ds)"
  have cut: "concat ds @ d = take l ?s" using snoc.prems by simp
  then have le: "?k \<le> l" by (metis length_append length_take le_add1 le_trans min.cobounded2)
  have pre: "concat ds = take ?k ?s" using cut le by (metis append_eq_conv_conj take_take min.absorb1)
  have post: "d = drop ?k (take l ?s)" using cut by (metis append_eq_conv_conj)
  show ?case
  proof (cases "ds = []")
    case True
    then show ?thesis using assms(2) snoc.prems
      by (intro exI [of _ "[0]"]) (simp split: prod.split)
  next
    case False
    obtain js where js: "length js = length ds"
      "feed n (zip (map (\<lambda>j i. X (j + i)) js) ds) c sh = process_input X n (c\<lparr>cn_in := concat ds\<rparr>) sh"
      using snoc.IH [OF False pre] by blast
    obtain c1 sh1 p1 where p: "process_input X n (c\<lparr>cn_in := take ?k ?s\<rparr>) sh = (c1, sh1, p1)" by (metis prod_cases3)
    obtain c2 sh2 p2 j where "process_input (\<lambda>i. X (j + i)) n (c1\<lparr>cn_in := cn_in c1 @ d\<rparr>) sh1 = (c2, sh2, p2)"
      "process_input X n (c\<lparr>cn_in := concat (ds @ [d])\<rparr>) sh = (c2, sh2, p1 @ p2)"
      using process_input_fragments [OF assms(1,3) le p] cut post by (metis prod_cases3 concat_append concat.simps append_Nil2)
    then show ?thesis using js p pre
      by (intro exI [of _ "js @ [j]"]) (simp add: feed_snoc)
  qed
qed simp

end
