(* ===== verification/Cluster_Props.thy ===== *)
theory Cluster_Props
  imports Cluster_Safe Cluster_Input
begin

section \<open>Properties of connections and cross-shard commands\<close>

text \<open>
  What holds in every reachable cluster, whatever the clients send, the sockets do and the order in which
  the shards run; and two commands whose cross-shard form does something else than their local one.
\<close>

subsection \<open>A cluster with two commands on their way\<close>

definition demo_aof :: aof where
  "demo_aof = \<lparr>a_open = False, a_policy = No, a_buf = [], a_bytes_written = 0, a_last_fsync_ms = 0,
     a_dirty_since_fsync = False, a_file = [], a_durable = 0, a_writes = (\<lambda>_. []), a_flushes = 0\<rparr>"

definition demo_shard :: "nat \<Rightarrow> shard" where
  "demo_shard i = \<lparr>sh_id = i, sh_db = ks_new, sh_vindex = Map.empty, sh_aof = demo_aof,
     sh_metrics = metrics_new, sh_last_cron_ms = 0\<rparr>"

definition demo_start :: cluster where
  "demo_start i = node_init (demo_shard i)"

definition demo_accepted :: cluster where
  "demo_accepted = demo_start(0 := accept_one (demo_start 0))"

definition demo_input :: bytes where
  "demo_input = encode_multibulk [''GET'', ''k1''] @ encode_multibulk [''MGET'', ''a'', ''k1'']"

definition demo_ready :: "(nat \<Rightarrow> exec_env) \<Rightarrow> node \<times> post list" where
  "demo_ready X = on_conn_ready X 2 [Data demo_input] [] [] \<lparr>ev_error = False, ev_read = True, ev_write = False\<rparr> 1
     (demo_accepted 0)"

definition demo_cluster :: "(nat \<Rightarrow> exec_env) \<Rightarrow> cluster" where
  "demo_cluster X = deliver (demo_accepted(0 := fst (demo_ready X))) (snd (demo_ready X))"

lemma demo_reach: "reach 2 demo_start" "reach 2 demo_accepted" "reach 2 (demo_cluster X)"
proof -
  show s: "reach 2 demo_start" by (rule reach_start) (auto simp: initial_def demo_start_def demo_shard_def)
  then show a: "reach 2 demo_accepted" unfolding demo_accepted_def by (intro reach_step [OF s] step.accept) simp
  show "reach 2 (demo_cluster X)"
    unfolding demo_cluster_def
    by (rule reach_step [OF a], rule step.ready [where i = 0 and X = X and cid = 1]) (simp_all add: demo_ready_def)
qed

lemma demo_owners: "shard_for 2 ''k1'' = 1" "shard_for 2 ''a'' = 0"
  by code_simp+

lemma demo_words: "to_lower ''GET'' = ''get''" "to_lower ''MGET'' = ''mget''" "to_lower ''TOUCH'' = ''touch''"
  "to_lower ''MSET'' = ''mset''"
  by code_simp+

lemma demo_commands:
  "find_command ''get'' = Some \<lparr>cs_name = ''get'', cs_fn = Fn_strings F_get, cs_arity = 2, cs_write = False,
     cs_first_key = 1, cs_last_key = 1, cs_key_step = 1\<rparr>"
  "find_command ''mget'' = Some \<lparr>cs_name = ''mget'', cs_fn = Fn_strings F_mget, cs_arity = - 2, cs_write = False,
     cs_first_key = 1, cs_last_key = - 1, cs_key_step = 1\<rparr>"
  "find_command ''touch'' = Some \<lparr>cs_name = ''touch'', cs_fn = Fn_generic F_exists, cs_arity = - 2, cs_write = False,
     cs_first_key = 1, cs_last_key = - 1, cs_key_step = 1\<rparr>"
  "find_command ''mset'' = Some \<lparr>cs_name = ''mset'', cs_fn = Fn_strings F_mset, cs_arity = - 3, cs_write = True,
     cs_first_key = 1, cs_last_key = - 1, cs_key_step = 2\<rparr>"
  by (simp_all add: find_command_def command_table_def command_spec_def)

lemmas dispatch_eval = dispatch_def next_seq_def cmd_word_def demo_words demo_commands arity_ok_def extract_keys_def
  key_indices.simps Let_def

lemma demo_dispatch:
  assumes "sh_id sh = 0"
  shows "dispatch X 2 [''GET'', ''k1''] c sh =
      begin_single_forward (cn_next_seq c) 1 [''GET'', ''k1''] (c\<lparr>cn_next_seq := cn_next_seq c + 1\<rparr>) sh"
    "dispatch X 2 [''MGET'', ''a'', ''k1''] c sh =
      begin_multikey 2 (cn_next_seq c) [''MGET'', ''a'', ''k1''] [''a'', ''k1''] (c\<lparr>cn_next_seq := cn_next_seq c + 1\<rparr>) sh"
  using assms by (simp_all add: dispatch_eval demo_owners decomposable_def)

lemma demo_parse:
  "parse_request demo_input = Ok [''GET'', ''k1''] (length (encode_multibulk [''GET'', ''k1'']))"
  "parse_request (encode_multibulk [''MGET'', ''a'', ''k1'']) =
     Ok [''MGET'', ''a'', ''k1''] (length (encode_multibulk [''MGET'', ''a'', ''k1'']))"
  "parse_request [] = NeedMore"
  by (simp_all add: demo_input_def) code_simp+

lemma demo_loop:
  assumes "sh_id sh = 0" "cn_id c = 1" "cn_next_seq c = 0" "cn_pipeline c = []" "\<not> cn_closing c"
  shows "\<exists>c' sh'. process_loop X 2 0 demo_input c sh [] = ([], c', sh',
      [(1, Execute 0 1 0 0 False [''GET'', ''k1'']), (0, Execute 0 1 1 0 False [''GET'', ''a'']),
       (1, Execute 0 1 1 1 False [''GET'', ''k1''])])"
proof -
  let ?g = "encode_multibulk [''GET'', ''k1'']" and ?m = "encode_multibulk [''MGET'', ''a'', ''k1'']"
  have d: "drop (length ?g) demo_input = ?m" "drop (length ?m) ?m = []" by (simp_all add: demo_input_def)
  obtain c1 sh1 where f: "dispatch (X 0) 2 [''GET'', ''k1''] c sh = (c1, sh1, [(1, Execute 0 1 0 0 False [''GET'', ''k1''])])"
    "sh_id sh1 = 0" "cn_id c1 = 1" "cn_next_seq c1 = 1" "\<not> cn_closing c1"
    using assms by (simp add: demo_dispatch begin_single_forward_def put_slot_def)
  obtain c2 sh2 where g: "dispatch (X 1) 2 [''MGET'', ''a'', ''k1''] c1 sh1 = (c2, sh2,
      [(0, Execute 0 1 1 0 False [''GET'', ''a'']), (1, Execute 0 1 1 1 False [''GET'', ''k1''])])"
    "\<not> cn_closing c2"
    using f by (simp add: demo_dispatch begin_multikey_def put_slot_def Let_def multi_kind_def cmd_word_def
        demo_words counting_def sub_command_def demo_owners)
  have "process_loop X 2 0 demo_input c sh [] = process_loop X 2 1 ?m c1 sh1 [(1, Execute 0 1 0 0 False [''GET'', ''k1''])]"
    using assms(5) f(1) by (subst process_loop.simps) (simp add: demo_parse d)
  also have "\<dots> = process_loop X 2 (Suc 1) [] c2 sh2 [(1, Execute 0 1 0 0 False [''GET'', ''k1'']),
      (0, Execute 0 1 1 0 False [''GET'', ''a'']), (1, Execute 0 1 1 1 False [''GET'', ''k1''])]"
    using f(5) g(1) by (subst process_loop.simps) (simp add: demo_parse d)
  also have "\<dots> = ([], c2, sh2, [(1, Execute 0 1 0 0 False [''GET'', ''k1'']),
      (0, Execute 0 1 1 0 False [''GET'', ''a'']), (1, Execute 0 1 1 1 False [''GET'', ''k1''])])"
    using g(2) by (subst process_loop.simps) (simp add: demo_parse)
  finally show ?thesis by blast
qed

lemma demo_posts:
  "snd (demo_ready X) = [(1, Execute 0 1 0 0 False [''GET'', ''k1'']), (0, Execute 0 1 1 0 False [''GET'', ''a'']),
     (1, Execute 0 1 1 1 False [''GET'', ''k1''])]"
proof -
  let ?c = "(conn_new 1)\<lparr>cn_in := demo_input\<rparr>"
  let ?sh = "count_input (length demo_input) (nd_shard (demo_accepted 0))"
  have "length demo_input = 50" by code_simp
  then have l: "length demo_input < kReadChunk" "\<not> kMaxInlineBuffer < length demo_input"
    by (simp_all add: kReadChunk_def kMaxInlineBuffer_def)
  have "sh_id ?sh = 0"
    by (simp add: demo_accepted_def demo_start_def accept_one_def node_init_def demo_shard_def)
  then obtain c' sh' where p: "process_loop X 2 0 demo_input ?c ?sh [] = ([], c', sh',
      [(1, Execute 0 1 0 0 False [''GET'', ''k1'']), (0, Execute 0 1 1 0 False [''GET'', ''a'']),
       (1, Execute 0 1 1 1 False [''GET'', ''k1''])])"
    using demo_loop [of ?sh ?c X] by (auto simp: conn_new_def)
  have "read_loop [Data demo_input] (conn_new 1) (nd_shard (demo_accepted 0)) = (?c, ?sh)"
    using l by (simp add: Let_def conn_new_def)
  moreover have "nd_conns (demo_accepted 0) 1 = Some (conn_new 1)"
    by (simp add: demo_accepted_def demo_start_def accept_one_def node_init_def)
  ultimately show ?thesis
    using p l(2)
    by (simp add: demo_ready_def on_conn_ready_def handle_readable_def process_input_def split: prod.split)
qed

lemma demo_in_flight: "Execute 0 1 1 1 False [''GET'', ''k1''] \<in> set (nd_mailbox (demo_cluster X 1))"
  unfolding demo_cluster_def by (simp only: deliver_box demo_posts) simp

subsection \<open>Liveness and order\<close>

text \<open>C27. The mailboxes drain: while no new input arrives, the shards take at most a bounded number of messages,
  whatever they choose first; as long as a mailbox is not empty there is a message to take.\<close>

theorem mailboxes_drain:
  assumes "reach n cl"
  shows "((take_message_step n ^^ k) cl cl' \<longrightarrow> k \<le> load n cl) \<and>
    (i < n \<longrightarrow> nd_mailbox (cl i) \<noteq> [] \<longrightarrow> (\<exists>cl'. take_message_step n cl cl'))"
  using drain_bound [where n = n] stuck_empty [of n cl i] reach_inv [OF assms] by fastforce+

theorem mailboxes_drain_witness: "\<forall>X. \<exists>cl'. take_message_step 2 (demo_cluster X) cl'"
proof
  fix X
  have "nd_mailbox (demo_cluster X 1) \<noteq> []" using demo_in_flight [of X] by force
  then show "\<exists>cl'. take_message_step 2 (demo_cluster X) cl'"
    using mailboxes_drain [OF demo_reach(3) [of X], of _ _ 1] by simp
qed

text \<open>C2. Every command is answered: once the mailboxes are empty no connection of any shard still waits for a
  reply, so every command it sent has been answered to its output.\<close>

theorem every_command_answered:
  assumes "reach n cl" "(take_message_step n)\<^sup>*\<^sup>* cl cl'" "\<nexists>cl''. take_message_step n cl' cl''"
    "i < n" "nd_conns (cl' i) cid = Some c"
  shows "cn_pipeline c = []"
proof -
  have "cluster_inv n cl'" using assms(2) reach_inv [OF assms(1)]
    by (induction rule: rtranclp_induct) (auto intro: take_message_step_inv)
  then show ?thesis using stuck_empty [OF assms(3)] assms(4,5) by (intro empty_answered) auto
qed

theorem every_command_answered_witness:
  "cn_pipeline (the (nd_conns (demo_accepted 0) 1)) = []"
proof -
  have "nd_mailbox (demo_accepted i) = []" for i
    by (simp add: demo_accepted_def demo_start_def accept_one_def node_init_def)
  then have "\<nexists>cl''. take_message_step 2 demo_accepted cl''" by (auto elim!: take_message_stepE)
  moreover have "nd_conns (demo_accepted 0) 1 = Some (conn_new 1)"
    by (simp add: demo_accepted_def demo_start_def accept_one_def node_init_def)
  ultimately show ?thesis using every_command_answered [OF demo_reach(2) rtranclp.rtrancl_refl, of 0 1] by simp
qed

text \<open>C11. Replies stay in order: the open slots of a connection are numbered consecutively up to the last command
  it sent, the first of them still waits for a fragment that is on its way, and a slot that waits is owed
  exactly the fragments in flight for it.\<close>

theorem pipeline_in_order:
  assumes "reach n cl" "i < n" "nd_conns (cl i) cid = Some c"
  shows "map fst (cn_pipeline c) = [cn_next_seq c - length (cn_pipeline c)..<cn_next_seq c] \<and>
    list_all (\<lambda>slot. \<not> pr_ready (snd slot)) (take 1 (cn_pipeline c)) \<and>
    (map_of (cn_pipeline c) s = Some pr \<longrightarrow> \<not> pr_ready pr \<longrightarrow>
       pr_remaining pr = int (size (flights n cl i cid s)) \<and> flights n cl i cid s \<noteq> {#})"
proof (intro conjI)
  from node_inv_conn [OF cluster_inv_node [OF reach_inv [OF assms(1)] assms(2)] assms(3)]
  have c: "conn_ok c (flights n cl i cid)" "head_waits c" by auto
  then show "map fst (cn_pipeline c) = [cn_next_seq c - length (cn_pipeline c)..<cn_next_seq c]"
    by (simp add: conn_ok_def pipe_ok_def)
  show "list_all (\<lambda>slot. \<not> pr_ready (snd slot)) (take 1 (cn_pipeline c))"
    using c(2) by (cases "cn_pipeline c") (auto simp: head_waits_def)
  show "map_of (cn_pipeline c) s = Some pr \<longrightarrow> \<not> pr_ready pr \<longrightarrow>
       pr_remaining pr = int (size (flights n cl i cid s)) \<and> flights n cl i cid s \<noteq> {#}"
    using c(1) by (auto simp: conn_ok_def slot_ok_def dest!: spec [of _ s])
qed

theorem pipeline_in_order_witness: "map fst (cn_pipeline (the (nd_conns (demo_accepted 0) 1))) = []"
proof -
  have "nd_conns (demo_accepted 0) 1 = Some (conn_new 1)"
    by (simp add: demo_accepted_def demo_start_def accept_one_def node_init_def)
  then show ?thesis using pipeline_in_order [OF demo_reach(2), of 0 1] by (simp add: conn_new_def)
qed

subsection \<open>Routing\<close>

lemma dispatch_elsewhere:
  assumes "dispatch X n argv c sh = (c', sh', ps)" "\<not> owned_by n (sh_id sh) argv"
  shows "sh_db sh' = sh_db sh \<and> sh_vindex sh' = sh_vindex sh \<and> sh_aof sh' = sh_aof sh"
proof (cases "find_command (to_lower (cmd_word argv))")
  case None
  then show ?thesis using assms by (auto simp: dispatch_def next_seq_def)
next
  case (Some spec)
  let ?keys = "extract_keys spec argv"
  from assms(2) Some obtain k where k: "k \<in> set ?keys" "shard_for n k \<noteq> sh_id sh"
    by (auto simp: owned_by_def keys_of_def)
  have "\<not> (list_all (\<lambda>k. shard_for n k = shard_for n (hd ?keys)) (tl ?keys) \<and> shard_for n (hd ?keys) = sh_id sh)"
    using k by (cases ?keys) (auto simp: list_all_iff)
  then show ?thesis
    using assms(1) Some k(1)
    by (auto simp: dispatch_def next_seq_def Let_def begin_single_forward_def begin_multikey_def count_cross_shard_def
        split: if_splits)
qed

text \<open>C10. Commands run on the shard that owns their keys: a command waiting in a mailbox has only keys of that
  shard, and a shard that parses a command with a key of another shard changes neither its keyspace nor
  its vector indexes nor its log.\<close>

theorem commands_run_on_owner:
  shows "(reach n cl \<and> t < n \<and> Execute org cid seq i b args \<in> set (nd_mailbox (cl t)) \<and>
      k \<in> set (keys_of args) \<longrightarrow> shard_for n k = t) \<and>
    (dispatch X n argv c sh = (c', sh', ps) \<and> k \<in> set (keys_of argv) \<and> shard_for n k \<noteq> sh_id sh \<longrightarrow>
      sh_db sh' = sh_db sh \<and> sh_vindex sh' = sh_vindex sh \<and> sh_aof sh' = sh_aof sh)"
proof (rule conjI; rule impI; elim conjE)
  assume "reach n cl" "t < n" "Execute org cid seq i b args \<in> set (nd_mailbox (cl t))" "k \<in> set (keys_of args)"
  then show "shard_for n k = t" using reach_inv [of n cl] by (fastforce simp: cluster_inv_def msg_ok_def owned_by_def)
next
  assume "dispatch X n argv c sh = (c', sh', ps)" "k \<in> set (keys_of argv)" "shard_for n k \<noteq> sh_id sh"
  then show "sh_db sh' = sh_db sh \<and> sh_vindex sh' = sh_vindex sh \<and> sh_aof sh' = sh_aof sh"
    by (intro dispatch_elsewhere) (auto simp: owned_by_def)
qed

theorem commands_run_on_owner_witness: "shard_for 2 ''k1'' = 1"
proof -
  have "keys_of [''GET'', ''k1''] = [''k1'']"
    by (simp add: keys_of_def cmd_word_def demo_words demo_commands extract_keys_def key_indices.simps)
  then show ?thesis using commands_run_on_owner [where n = 2 and t = 1] demo_reach(3) demo_in_flight by fastforce
qed

subsection \<open>Scatter and gather\<close>

text \<open>C26. A command split over several shards gets the same reply whatever the order in which the fragments come
  back: MGET the header and the fragments in the order of the keys, MSET a status, the counting commands
  the sum.\<close>

theorem gather_any_order:
  assumes "0 < k" "distinct order" "set order = {..<k}" "kind \<noteq> Single"
  shows "pr_ready (gather kind reply v order (fresh_pending kind k)) \<and>
    pr_bytes (gather kind reply v order (fresh_pending kind k)) =
       (case kind of
          MGet \<Rightarrow> rb_array_header (int k) [] @ concat (map reply [0..<k])
        | MSet \<Rightarrow> rb_simple_string ''OK'' []
        | _ \<Rightarrow> rb_integer (\<Sum>i<k. v i) [])"
  using assms(4) assemble_partial [of kind k reply v] unfolding gather_all [OF assms(1-3)]
  by (cases kind; simp add: counting_def)+

theorem gather_any_order_witness:
  "pr_bytes (gather MGet (\<lambda>i. if i = 0 then ''x'' else ''y'') (\<lambda>_. 0) [1, 0] (fresh_pending MGet 2)) =
     rb_array_header 2 [] @ ''xy''"
proof -
  have "[0..<2] = [0, Suc 0]" "{Suc 0, 0} = {..<2}" by (auto simp: upt_rec)
  then show ?thesis
    using gather_any_order [of 2 "[1, 0]" MGet "\<lambda>i. if i = 0 then ''x'' else ''y''" "\<lambda>_. 0"] by auto
qed

subsection \<open>Output\<close>

text \<open>What the client has received and what is still buffered for it, in order.\<close>

definition client_stream :: "conn \<Rightarrow> bytes" where
  "client_stream c = cn_wire c @ drop (cn_sent c) (cn_out c)"

lemma write_out_stream:
  "write_out ws c sh = (c', sh') \<Longrightarrow> cn_sent c \<le> length (cn_out c) \<Longrightarrow>
   client_stream c' = client_stream c \<and> cn_sent c' \<le> length (cn_out c') \<and> (\<exists>w. cn_wire c' = cn_wire c @ w)"
proof (induction ws c sh rule: write_out.induct)
  case (2 r rs c sh)
  show ?case
  proof (cases "cn_sent c \<ge> length (cn_out c)")
    case True
    then show ?thesis using 2(2,3) by auto
  next
    case False
    show ?thesis
    proof (cases r)
      case (Sent k)
      let ?k = "min k (length (cn_out c) - cn_sent c)"
      let ?c = "c\<lparr>cn_wire := cn_wire c @ take ?k (drop (cn_sent c) (cn_out c)), cn_sent := cn_sent c + ?k\<rparr>"
      have "client_stream ?c = client_stream c"
        using append_take_drop_id [of ?k "drop (cn_sent c) (cn_out c)"] by (simp add: client_stream_def add.commute)
      moreover have "cn_sent ?c \<le> length (cn_out ?c)" using 2(3) by simp
      ultimately have st: "client_stream ?c = client_stream c" "cn_sent ?c \<le> length (cn_out ?c)" .
      show ?thesis
      proof (cases "?k = 0")
        case True
        then show ?thesis using 2(2,3) False Sent by (auto simp: Let_def)
      next
        case k: False
        then have "write_out rs ?c (count_output ?k sh) = (c', sh')"
          using 2(2) False Sent by (simp only: write_out.simps Let_def send_result.case if_False)
        from 2(1) [OF False Sent refl k this st(2)] st(1) show ?thesis by auto
      qed
    qed (use 2(2,3) False in \<open>auto simp: client_stream_def\<close>)
  qed
qed auto

text \<open>C12. No byte of a reply is lost, repeated or reordered on the way out, however short the writes: sending moves
  bytes from the buffer to the socket and keeps the stream, and flushing appends to the stream exactly the
  replies that are next in order.\<close>

theorem output_in_order:
  assumes "cn_sent c \<le> length (cn_out c)"
  shows "(handle_writable ws c sh = (c', sh') \<longrightarrow>
      client_stream c' = client_stream c \<and> cn_sent c' \<le> length (cn_out c') \<and> (\<exists>w. cn_wire c' = cn_wire c @ w)) \<and>
    client_stream (flush_ready c) =
      client_stream c @ concat (map (pr_bytes \<circ> snd) (takeWhile (pr_ready \<circ> snd) (cn_pipeline c)))"
proof (rule conjI, rule impI)
  assume h: "handle_writable ws c sh = (c', sh')"
  obtain c1 sh1 where w: "write_out ws c sh = (c1, sh1)" by fastforce
  from write_out_stream [OF w assms] h w
  show "client_stream c' = client_stream c \<and> cn_sent c' \<le> length (cn_out c') \<and> (\<exists>w. cn_wire c' = cn_wire c @ w)"
    by (auto simp: handle_writable_def update_interest_def client_stream_def Let_def split: if_splits)
next
  show "client_stream (flush_ready c) =
      client_stream c @ concat (map (pr_bytes \<circ> snd) (takeWhile (pr_ready \<circ> snd) (cn_pipeline c)))"
    using assms by (simp add: flush_ready_eq client_stream_def)
qed

theorem output_in_order_witness:
  "client_stream (flush_ready ((conn_new 1)\<lparr>cn_pipeline := [(0, ready_slot ''a''), (1, ready_slot ''b'')]\<rparr>)) = ''ab''"
  using output_in_order [of "(conn_new 1)\<lparr>cn_pipeline := [(0, ready_slot ''a''), (1, ready_slot ''b'')]\<rparr>"]
  by (simp add: conn_new_def ready_slot_def client_stream_def)

subsection \<open>Reads of the socket\<close>

text \<open>C9. How the network cuts the input makes no difference: a connection that reads the encoded commands in any
  number of pieces, cut anywhere, and flushes its replies after each, ends in the same state, shard and posts as
  one that reads them at once. (The \<open>j\<close>-th command runs in the same environment, however many came before it in
  its piece.)\<close>

theorem input_in_pieces:
  assumes "\<forall>s\<in>set (map fst (cn_pipeline c)). s < cn_next_seq c" "cn_in c = []"
    "\<forall>argv\<in>set cmds. argv \<noteq> [] \<and> length argv \<le> 1024 * 1024 \<and> (\<forall>a\<in>set argv. length a < 2 ^ 63)"
    "pieces \<noteq> []" "concat pieces = concat (map encode_multibulk cmds)"
  shows "\<exists>js. length js = length pieces \<and>
    feed n (zip (map (\<lambda>j i. X (j + i)) js) pieces) c sh = process_input X n (c\<lparr>cn_in := concat pieces\<rparr>) sh"
proof (rule feed_fragments)
  show "fresh c" using assms(1) by (simp add: fresh_def)
  show "concat pieces = take (length (concat pieces)) (concat (map encode_multibulk cmds))" using assms(5) by simp
qed (use assms in \<open>simp_all add: small_args_def\<close>)

theorem input_in_pieces_witness:
  "\<forall>X. \<exists>a b. feed 2 [(\<lambda>i. X (a + i), take 9 (encode_multibulk [''GET'', ''k''])),
       (\<lambda>i. X (b + i), drop 9 (encode_multibulk [''GET'', ''k'']))] (conn_new 1) (demo_shard 0) =
     process_input X 2 ((conn_new 1)\<lparr>cn_in := encode_multibulk [''GET'', ''k'']\<rparr>) (demo_shard 0)"
proof
  fix X
  let ?e = "encode_multibulk [''GET'', ''k'']"
  let ?ps = "[take 9 ?e, drop 9 ?e]"
  have "\<exists>js. length js = length ?ps \<and> feed 2 (zip (map (\<lambda>j i. X (j + i)) js) ?ps) (conn_new 1) (demo_shard 0) =
      process_input X 2 ((conn_new 1)\<lparr>cn_in := concat ?ps\<rparr>) (demo_shard 0)"
    by (rule input_in_pieces [where cmds = "[[''GET'', ''k'']]"]) (simp_all add: conn_new_def)
  then obtain js where js: "length js = length ?ps"
    "feed 2 (zip (map (\<lambda>j i. X (j + i)) js) ?ps) (conn_new 1) (demo_shard 0) =
      process_input X 2 ((conn_new 1)\<lparr>cn_in := concat ?ps\<rparr>) (demo_shard 0)" by blast
  from js(1) obtain a b where ab: "js = [a, b]" by (auto simp: length_Suc_conv)
  have "concat ?ps = ?e" by simp
  with js(2) ab show "\<exists>a b. feed 2 [(\<lambda>i. X (a + i), take 9 ?e), (\<lambda>i. X (b + i), drop 9 ?e)] (conn_new 1) (demo_shard 0) =
      process_input X 2 ((conn_new 1)\<lparr>cn_in := ?e\<rparr>) (demo_shard 0)"
    by (intro exI [of _ a] exI [of _ b]) (simp del: feed.simps)
qed

subsection \<open>Cross-shard forms that differ\<close>

lemma touch_sends_del:
  assumes "shard_for n k1 \<noteq> shard_for n k2"
  shows "snd (snd (dispatch X n [''TOUCH'', k1, k2] c sh)) =
    [(shard_for n k1, Execute (sh_id sh) (cn_id c) (cn_next_seq c) 0 True [''DEL'', k1]),
     (shard_for n k2, Execute (sh_id sh) (cn_id c) (cn_next_seq c) 1 True [''DEL'', k2])]"
proof -
  have "[0..<2] = [0, Suc 0]" by (simp add: upt_rec)
  then show ?thesis
    using assms
    by (simp add: dispatch_eval begin_multikey_def decomposable_def multi_kind_def counting_def sub_command_def
        next_seq_def cmd_word_def)
qed

lemma mset_reads_past_end:
  assumes "shard_for n k1 \<noteq> shard_for n k2"
  shows "cn_ub (fst (dispatch X n [''MSET'', k1, v1, k2] c sh)) \<and>
    cn_ub (fst (dispatch X n [''MSET'', k1, v1, k2, v2] c sh)) = cn_ub c"
  using assms
  by (simp_all add: dispatch_eval begin_multikey_def decomposable_def multi_kind_def value_missing_def put_slot_def
      next_seq_def cmd_word_def)

text \<open>C38. Two commands do something else when their keys belong to different shards: TOUCH deletes the keys, as the owners
  are sent DEL; and MSET with a key that has no value reads past the end of the arguments, where on one shard the
  handler refuses it.\<close>

theorem cross_shard_split_diverges:
  assumes "shard_for n k1 \<noteq> shard_for n k2"
  shows "snd (snd (dispatch X n [''TOUCH'', k1, k2] c sh)) =
      [(shard_for n k1, Execute (sh_id sh) (cn_id c) (cn_next_seq c) 0 True [''DEL'', k1]),
       (shard_for n k2, Execute (sh_id sh) (cn_id c) (cn_next_seq c) 1 True [''DEL'', k2])] \<and>
    cn_ub (fst (dispatch X n [''MSET'', k1, v1, k2] c sh)) \<and>
    cn_ub (fst (dispatch X n [''MSET'', k1, v1, k2, v2] c sh)) = cn_ub c"
  using touch_sends_del [OF assms] mset_reads_past_end [OF assms] by blast

theorem cross_shard_split_diverges_witness:
  "\<forall>X. snd (snd (dispatch X 2 [''TOUCH'', ''k1'', ''a''] (conn_new 1) (demo_shard 0))) =
       [(1, Execute 0 1 0 0 True [''DEL'', ''k1'']), (0, Execute 0 1 0 1 True [''DEL'', ''a''])] \<and>
     cn_ub (fst (dispatch X 2 [''MSET'', ''k1'', ''v'', ''a''] (conn_new 1) (demo_shard 0)))"
proof
  fix X
  have "shard_for 2 ''k1'' \<noteq> shard_for 2 ''a''" by (simp add: demo_owners)
  from cross_shard_split_diverges [OF this, of X "conn_new 1" "demo_shard 0" "''v''"]
  show "snd (snd (dispatch X 2 [''TOUCH'', ''k1'', ''a''] (conn_new 1) (demo_shard 0))) =
       [(1, Execute 0 1 0 0 True [''DEL'', ''k1'']), (0, Execute 0 1 0 1 True [''DEL'', ''a''])] \<and>
     cn_ub (fst (dispatch X 2 [''MSET'', ''k1'', ''v'', ''a''] (conn_new 1) (demo_shard 0)))"
    by (simp add: demo_owners conn_new_def demo_shard_def)
qed

end
