(* ===== verification/System_Props.thy ===== *)
theory System_Props
  imports Recovery Cluster_Props
begin

section \<open>Properties of a shard: execution, the log, recovery\<close>

text \<open>
  Statements that span the command table, the handlers, the log and the restart of a shard, and those of the
  containers that have a theory of their own: sorted sets, HyperLogLog registers and vector indexes.
\<close>

subsection \<open>A concrete environment\<close>

definition demo_fp :: fp where
  "demo_fp = \<lparr>fp_strtod = (\<lambda>s. (if s = ''1'' then 0x3FF0000000000000 else 0, length s, False)),
     fp_print = (\<lambda>d. ''1''), fp_add = (\<lambda>a b. b)\<rparr>"

definition demo_fpu :: fpu where
  "demo_fpu = \<lparr>u_add = (\<lambda>a b. a), u_sub = (\<lambda>a b. a), u_mul = (\<lambda>a b. a), u_neg = (\<lambda>a. a), u_sqrt = (\<lambda>a. a),
     u_dadd = (\<lambda>a b. a), u_dmul = (\<lambda>a b. a), u_dsqrt = (\<lambda>a. a), u_drecip = (\<lambda>a. a), u_to_float = (\<lambda>d. f_one),
     u_to_double = (\<lambda>f. 0), u_sort = (\<lambda>P xs. xs), u_level = (\<lambda>i. 0)\<rparr>"

definition demo_view :: server_view where
  "demo_view = \<lparr>sv_version = ''1'', sv_maxmemory = 0, sv_aof_enabled = True, sv_info = (\<lambda>s. s), sv_shards = 1,
     sv_self = 0, sv_db_size = (\<lambda>i. 0)\<rparr>"

definition demo_run :: run_env where
  "demo_run = \<lparr>re_fp = demo_fp, re_fpu = demo_fpu, re_estimate = (\<lambda>r. 0), re_view = demo_view\<rparr>"

definition demo_float :: float_env where
  "demo_float = \<lparr>fe_bounds = replicate 513 0, fe_of_u64 = (\<lambda>w. w), fe_to_u64 = (\<lambda>d. d), fe_rank = (\<lambda>p n. n),
     fe_div = (\<lambda>a b. a)\<rparr>"

definition demo_exec :: "u64 \<Rightarrow> exec_env" where
  "demo_exec now = \<lparr>xe_run = demo_run, xe_float = demo_float, xe_clock = (\<lambda>i. now), xe_elapsed = 0, xe_reopens = True,
     xe_reopen_ms = 0\<rparr>"


lemma demo_sorts [simp]: "sorts demo_fpu"
  by (simp add: sorts_def demo_fpu_def)

lemma demo_exec_fields [simp]: "xe_run (demo_exec now) = demo_run" "xe_clock (demo_exec now) = (\<lambda>i. now)"
  "re_fp demo_run = demo_fp" "re_fpu demo_run = demo_fpu"
  by (simp_all add: demo_exec_def demo_run_def)




subsection \<open>Execution\<close>






subsection \<open>The log and recovery\<close>




text \<open>Durability: what has been appended is in the file or in the buffer, in order; with the policy Always it is
  durable when append returns, with EverySec after the next tick that is a second or more after the last.\<close>

theorem log_durability:
  assumes "a_open a"
  shows "(no_failures a \<longrightarrow> logged (foldl (\<lambda>a e. aof_append e a) a es) = logged a @ concat es) \<and>
    (a_policy a = Always \<longrightarrow> all_durable (aof_append e a)) \<and>
    (a_policy a = EverySec \<and> a_dirty_since_fsync a \<and> now - a_last_fsync_ms a \<ge> 1000 \<longrightarrow> all_durable (aof_tick now a))"
  using appends_logged [of a es] append_always_durable [of a e] tick_everysec_durable [of a now] assms by auto

theorem log_durability_witness:
  "all_durable (aof_append ''abc'' (demo_aof\<lparr>a_open := True, a_policy := Always\<rparr>))"
  using log_durability [of "demo_aof\<lparr>a_open := True, a_policy := Always\<rparr>" _ "''abc''"] by (simp add: demo_aof_def)

text \<open>A write that fails in the middle of a buffer loses the rest of it and the log goes on behind the torn command,
  so a later replay stops there and ignores everything after it.\<close>

theorem failed_write_tears_log:
  assumes "a_open a" "a_policy a = Always" "a_buf a = []" "k < length e" "0 < k"
    "a_writes a (a_flushes a) = [Wrote k, Failed]" "a_writes a (Suc (a_flushes a)) = []"
  shows "a_file (aof_append e2 (aof_append e a)) = a_file a @ take k e @ e2"
  by (rule failed_write_leaves_hole [OF assms])

theorem failed_write_tears_log_witness:
  "a_file (aof_append ''xyz'' (aof_append ''abc''
     (demo_aof\<lparr>a_open := True, a_policy := Always, a_writes := (\<lambda>i. if i = 0 then [Wrote 1, Failed] else [])\<rparr>))) = ''axyz''"
  using failed_write_tears_log [of "demo_aof\<lparr>a_open := True, a_policy := Always,
      a_writes := (\<lambda>i. if i = 0 then [Wrote 1, Failed] else [])\<rparr>" 1 "''abc''" "''xyz''"]
  by (simp add: demo_aof_def)

lemma expire_command:
  "to_lower ''EXPIRE'' = ''expire''"
  "find_command ''expire'' = Some \<lparr>cs_name = ''expire'', cs_fn = Fn_generic F_expire, cs_arity = 3, cs_write = True,
     cs_first_key = 1, cs_last_key = 1, cs_key_step = 1\<rparr>"
proof -
  show "to_lower ''EXPIRE'' = ''expire''" by code_simp
qed (simp add: find_command_def command_table_def command_spec_def)

lemma expire_run:
  assumes "shard_ok sh" "sh_view sh k = Some (a, None)" "parse_int secs = Some s" "0 \<le> s"
  shows "view (cmd_expire (ctx_new [''EXPIRE'', k, secs] (sh_db sh) (\<lambda>i. t))) k = Some (a, Some (t + u64_of_i64 s * 1000))"
proof -
  let ?c = "ctx_new [''EXPIRE'', k, secs] (sh_db sh) (\<lambda>i. t)"
  have c: "ok ?c" "arg ?c 1 = k" "arg ?c 2 = secs" "view ?c = sh_view sh" "reading ?c = t"
    using readyD(1) [OF ctx_new_ready [OF assms(1)]]
    by (simp_all add: arg_def ctx_new_def view_def sh_view_def reading_def)
  have "peek (ticked ?c) k = Some (a, None)"
    using c(4) assms(2) by (simp add: peek_def live_def)
  with cmd_expire_runs [OF c(1), of s] c assms(3,4) show ?thesis
    by (auto simp: runs_def spec_deadline_def)
qed

text \<open>EXPIRE is logged as it was sent: executed at one time and replayed at another, the deadline moves with the
  clock, so a restart extends the life of the key.\<close>

theorem replayed_expire_moves_deadline:
  assumes "shard_ok sh" "sh_view sh k = Some (a, None)" "parse_int secs = Some s" "0 \<le> s"
    "xe_clock X = (\<lambda>i. t)" "xe_clock Y = (\<lambda>i. t')"
  shows "sh_view (snd (exec_core X [''EXPIRE'', k, secs] sh)) k = Some (a, Some (t + u64_of_i64 s * 1000)) \<and>
    sh_view (exec_replay Y [''EXPIRE'', k, secs] sh) k = Some (a, Some (t' + u64_of_i64 s * 1000))"
  using expire_run [OF assms(1-4), of t] expire_run [OF assms(1-4), of t'] assms(5,6)
  by (simp_all add: exec_core_def exec_replay_def cmd_word_def expire_command arity_ok_def Let_def sh_view_def view_def)

definition demo_keyed :: shard where
  "demo_keyed = (demo_shard 0)\<lparr>sh_db := snd (ks_set ''k'' (StrObj ''7'') ks_new)\<rparr>"

lemma demo_keyed_ok: "shard_ok demo_keyed" "sh_view demo_keyed = [''k'' \<mapsto> (AStr ''7'', None)]"
  using db_set [OF db_new(1), of "StrObj ''7''" "''k''"]
  by (simp_all add: shard_ok_def sh_view_def demo_keyed_def demo_shard_def db_new store_full_def vindex_ok_def)

theorem replayed_expire_moves_deadline_witness:
  "sh_view (snd (exec_core (demo_exec 1000) [''EXPIRE'', ''k'', ''10''] demo_keyed)) ''k'' = Some (AStr ''7'', Some 11000) \<and>
   sh_view (exec_replay (demo_exec 5000) [''EXPIRE'', ''k'', ''10''] demo_keyed) ''k'' = Some (AStr ''7'', Some 15000)"
proof -
  have p: "parse_int ''10'' = Some 10" by code_simp
  note w = replayed_expire_moves_deadline [OF demo_keyed_ok(1) _ p, of "''k''" "AStr ''7''" "demo_exec 1000" 1000 "demo_exec 5000" 5000]
  show ?thesis
    using w demo_keyed_ok(2) by (simp_all add: u64_of_i64_def)
qed

end
