(* ===== verification/ZSet_Props.thy ===== *)
theory ZSet_Props
  imports ZSet_Order System_Props
begin

section \<open>Properties of sorted sets\<close>

text \<open>
  The skip list of a sorted set is the sorted list of its entries, and what the commands that walk it reply is read
  off that list. The scores must be numbers: the last property shows what happens to a NaN.
\<close>

subsection \<open>A sorted set for the witnesses\<close>

definition demo_puts :: "z_op list" where
  "demo_puts = [Z_put ''b'' 0x3FF0000000000000, Z_put ''a'' 0x3FF0000000000000, Z_put ''c'' 0]"

definition demo_sorted :: "z_entry list" where
  "demo_sorted = [(''c'', 0), (''a'', 0x3FF0000000000000), (''b'', 0x3FF0000000000000)]"

definition demo_zset :: zset where
  "demo_zset = foldl z_do z_empty demo_puts"

definition demo_z :: "bytes list \<Rightarrow> ctx" where
  "demo_z argv = ctx_new argv (snd (ks_set ''z'' (ZSetObj demo_zset) ks_new)) (\<lambda>_. 1000)"

lemma demo_z_parts [simp]: "c_argv (demo_z argv) = argv" "c_out (demo_z argv) = []" "arg (demo_z argv) i = argv ! i"
  by (simp_all add: demo_z_def ctx_new_def arg_def)

lemma demo_ref: "foldl z_ref [] demo_puts = demo_sorted"
  unfolding demo_puts_def demo_sorted_def by code_simp

lemma demo_numbers: "\<forall>a\<in>set demo_puts. z_number a"
  unfolding demo_puts_def by code_simp

lemma demo_zset_ok: "zset_ok demo_zset demo_sorted"
  using z_history_ok [OF _ demo_numbers, of z_empty "[]"] zset_ok_new
  by (simp add: demo_ref demo_zset_def z_empty_def)

lemma demo_sees: "sees_zset (demo_z argv) ''z'' demo_zset"
  using ks_set_inv [OF ks_new_correct(1)] ks_set_abs [OF ks_new_correct(1), of "''z''"]
  by (simp add: sees_zset_def demo_z_def ctx_new_def live_def)

subsection \<open>Properties\<close>

text \<open>C13. Sorted sets: after any history of settings (of scores that are numbers) and removals from the empty
  sorted set, the skip list holds exactly the entries of the member table, sorted by score and, within a score, by
  member; it is the list that plain sorted insertion and deletion give.\<close>

theorem sorted_set_history:
  assumes "\<forall>a\<in>set ops. z_number a"
  shows "zset_ok (foldl z_do z_empty ops) (foldl z_ref [] ops)"
  using z_history_ok [OF _ assms] zset_ok_new by (simp add: z_empty_def)

theorem sorted_set_history_witness: "zset_ok (foldl z_do z_empty demo_puts) demo_sorted"
  using sorted_set_history [OF demo_numbers] by (simp only: demo_ref)

text \<open>C25. ZADD without options, on a key that holds a sorted set and with scores that are all numbers, leaves under
  the key a sorted set whose two indexes agree on the list that setting the pairs one after the other gives.\<close>

theorem zadd_sets_scores:
  assumes "sees_zset c (arg c 1) z" "zset_ok z es" "zadd_options (drop 2 (c_argv c)) zadd_init = (zadd_init, args)"
    "zadd_pairs F args = Some ps" "ps \<noteq> []" "\<forall>(sc, m)\<in>set ps. \<not> d_isnan sc"
  shows "\<exists>z'. holds_zset (c_db (cmd_zadd F c)) (arg c 1) z' \<and> zset_ok z' (foldl z_ref es (z_puts ps))"
  by (rule cmd_zadd_plain [OF assms])

theorem zadd_sets_scores_witness:
  "\<exists>z'. holds_zset (c_db (cmd_zadd demo_fp (demo_z [''ZADD'', ''z'', ''1'', ''d'', ''0'', ''b'']))) ''z'' z' \<and>
     zset_ok z' [(''b'', 0), (''c'', 0), (''a'', 0x3FF0000000000000), (''d'', 0x3FF0000000000000)]"
proof -
  let ?c = "demo_z [''ZADD'', ''z'', ''1'', ''d'', ''0'', ''b'']"
  let ?ps = "[(0x3FF0000000000000, ''d''), (0, ''b'')] :: (dbl \<times> bytes) list"
  have o: "zadd_options (drop 2 (c_argv ?c)) zadd_init = (zadd_init, [''1'', ''d'', ''0'', ''b''])"
    unfolding demo_z_parts by code_simp
  have ps: "zadd_pairs demo_fp [''1'', ''d'', ''0'', ''b''] = Some ?ps" by code_simp
  have n: "?ps \<noteq> []" "\<forall>(sc, m)\<in>set ?ps. \<not> d_isnan sc" by code_simp+
  have s: "sees_zset ?c (arg ?c 1) demo_zset" using demo_sees by simp
  have r: "foldl z_ref demo_sorted (z_puts ?ps) =
    [(''b'', 0), (''c'', 0), (''a'', 0x3FF0000000000000), (''d'', 0x3FF0000000000000)]"
    unfolding demo_sorted_def by code_simp
  show ?thesis using zadd_sets_scores [OF s demo_zset_ok o ps n] unfolding r by simp
qed

text \<open>C14. Sorted set queries. ZRANK replies with the place of the member in the sorted list, counted from 0, and with the
  null bulk string when the member is not in the set. ZRANGE replies with the slice of the list, or of its reverse with
  REV, between the two places after negative ones are counted from the end and both are clamped. ZRANGEBYSCORE replies
  with the entries whose score lies between the bounds, each of which may be exclusive, cut to the window that LIMIT
  asks for. With WITHSCORES the score follows each member, and the array header announces as many elements as follow.\<close>

theorem sorted_set_queries:
  assumes "sees_zset c (arg c 1) z" "zset_ok z es" "length es < 2 ^ 32"
  shows "(\<forall>j<length es. fst (es ! j) = arg c 2 \<longrightarrow> cmd_zrank c = r_integer (int j) (ticked c)) \<and>
    (arg c 2 \<notin> fst ` set es \<longrightarrow> cmd_zrank c = r_null_bulk (ticked c)) \<and>
    (\<forall>F ws desc start stop. foldl zrange_opt (False, False) (drop 4 (c_argv c)) = (ws, desc) \<and>
       parse_int (arg c 2) = Some start \<and> parse_int (arg c 3) = Some stop \<longrightarrow>
       cmd_zrange F c = zrange_reply F ws (z_slice start stop (if desc then rev es else es)) (ticked c)) \<and>
    (\<forall>F ws offset limit lo hi. zrbs_options (drop 4 (c_argv c)) (False, 0, - 1) = (ws, offset, limit) \<and>
       parse_bound F (arg c 2) = Some lo \<and> parse_bound F (arg c 3) = Some hi \<longrightarrow>
       cmd_zrangebyscore F c = zrange_reply F ws (zrbs_window offset limit (z_between lo hi es)) (ticked c))"
proof -
  from sees_zset_found [OF assms(1)] obtain p where p: "get_zset (arg c 1) c = (Found p, ticked c)"
    "zset_ok (zset_at (ticked c) p) es" using assms(2) by auto
  show ?thesis
    using cmd_zrank_place [OF p assms(3)] cmd_zrange_slice [OF p assms(3)] cmd_zrangebyscore_between [OF p] by blast
qed

text \<open>The reply to a query on the sorted set of the witnesses.\<close>

theorem sorted_set_queries_witness:
  "cmd_zrank (demo_z [''ZRANK'', ''z'', ''b'']) = r_integer 2 (ticked (demo_z [''ZRANK'', ''z'', ''b''])) \<and>
   c_out (cmd_zrange demo_fp (demo_z [''ZRANGE'', ''z'', ''0'', ''-2'', ''rev''])) = a_array 2 @ a_bulk ''b'' @ a_bulk ''a'' \<and>
   c_out (cmd_zrangebyscore demo_fp (demo_z [''ZRANGEBYSCORE'', ''z'', ''(0'', ''1''])) = a_array 2 @ a_bulk ''a'' @ a_bulk ''b''"
proof -
  have l: "length demo_sorted < 2 ^ 32" by (simp add: demo_sorted_def)
  have s: "sees_zset (demo_z argv) (arg (demo_z argv) 1) demo_zset" if "argv ! 1 = ''z''" for argv using demo_sees that by simp
  let ?r = "demo_z [''ZRANK'', ''z'', ''b'']" and ?c = "demo_z [''ZRANGE'', ''z'', ''0'', ''-2'', ''rev'']"
    and ?d = "demo_z [''ZRANGEBYSCORE'', ''z'', ''(0'', ''1'']"
  have "\<forall>j<length demo_sorted. fst (demo_sorted ! j) = arg ?r 2 \<longrightarrow> cmd_zrank ?r = r_integer (int j) (ticked ?r)"
    using sorted_set_queries [OF s demo_zset_ok l] by simp
  then have 1: "cmd_zrank ?r = r_integer 2 (ticked ?r)" by (force simp: demo_sorted_def)
  have p: "parse_int (arg ?c 2) = Some 0" "parse_int (arg ?c 3) = Some (- 2)"
    "foldl zrange_opt (False, False) (drop 4 (c_argv ?c)) = (False, True)" unfolding demo_z_parts by code_simp+
  have sl: "z_slice 0 (- 2) (rev demo_sorted) = [(''b'', 0x3FF0000000000000), (''a'', 0x3FF0000000000000)]"
    unfolding demo_sorted_def by code_simp
  have "cmd_zrange demo_fp ?c = zrange_reply demo_fp False (z_slice 0 (- 2) (if True then rev demo_sorted else demo_sorted)) (ticked ?c)"
    by (rule sorted_set_queries [OF s demo_zset_ok l, THEN conjunct2, THEN conjunct2, THEN conjunct1, rule_format]) (use p in simp_all)
  then have 2: "c_out (cmd_zrange demo_fp ?c) = a_array 2 @ a_bulk ''b'' @ a_bulk ''a''"
    by (simp add: sl zrange_reply_def zrbs_item_def ticked_def reply_eqs)
  have b: "zrbs_options (drop 4 (c_argv ?d)) (False, 0, - 1) = (False, 0, - 1)"
    "parse_bound demo_fp (arg ?d 2) = Some (0, True)" "parse_bound demo_fp (arg ?d 3) = Some (0x3FF0000000000000, False)"
    unfolding demo_z_parts by code_simp+
  have sb: "zrbs_window 0 (- 1) (z_between (0, True) (0x3FF0000000000000, False) demo_sorted) =
    [(''a'', 0x3FF0000000000000), (''b'', 0x3FF0000000000000)]"
    unfolding demo_sorted_def by code_simp
  have "cmd_zrangebyscore demo_fp ?d = zrange_reply demo_fp False
      (zrbs_window 0 (- 1) (z_between (0, True) (0x3FF0000000000000, False) demo_sorted)) (ticked ?d)"
    by (rule sorted_set_queries [OF s demo_zset_ok l, THEN conjunct2, THEN conjunct2, THEN conjunct2, rule_format]) (use b in simp_all)
  then have 3: "c_out (cmd_zrangebyscore demo_fp ?d) = a_array 2 @ a_bulk ''a'' @ a_bulk ''b''"
    by (simp add: sb zrange_reply_def zrbs_item_def ticked_def reply_eqs)
  show ?thesis using 1 2 3 by blast
qed

text \<open>C40. A NaN stays: when the score of a member is a NaN, removing the member takes it out of the table and leaves
  the skip list as it is, entry included, since no comparison with a NaN holds. The two indexes disagree from then
  on.\<close>

theorem nan_stays_in_list:
  assumes "sw_inv score_params (z_dict z)" "sw_abs (z_dict z) m = Some sc" "d_isnan sc"
  shows "sw_abs (z_dict (fst (zset_remove m z))) m = None \<and> z_sl (fst (zset_remove m z)) = z_sl z"
  by (rule zset_remove_nan [OF assms])

theorem nan_stays_in_list_witness:
  "let z = fst (zset_set ''m'' 0x7FF8000000000000 z_empty)
   in sw_abs (z_dict (fst (zset_remove ''m'' z))) ''m'' = None \<and> z_sl (fst (zset_remove ''m'' z)) = z_sl z"
proof -
  let ?z = "fst (zset_set ''m'' 0x7FF8000000000000 z_empty)"
  have e: "sw_inv score_params (z_dict z_empty)" "sw_abs (z_dict z_empty) = Map.empty"
    using zset_okD(1) [OF zset_ok_new] sw.abs_new [of score_params] by (simp_all add: z_empty_def fun_eq_iff)
  have "sw_inv score_params (z_dict ?z)" "sw_abs (z_dict ?z) ''m'' = Some 0x7FF8000000000000"
    using zset_set_dict [OF e(1), of "''m''" "0x7FF8000000000000"] by (simp_all add: score_set_def e(2))
  moreover have "d_isnan 0x7FF8000000000000" by code_simp
  ultimately show ?thesis unfolding Let_def by (rule nan_stays_in_list)
qed

end
