(* ===== verification/Command_Props.thy ===== *)
theory Command_Props
  imports Cmd_Multi_Correct
begin

section \<open>Properties of the command handlers\<close>

text \<open>
  Each handler is stated against a specification that maps the entry a client sees under the key
  (nothing, when its deadline has passed) to the entry afterwards, the bytes of the reply and whether
  the command changed anything. \<open>runs c k f c'\<close> says that going from \<open>c\<close> to \<open>c'\<close> did exactly what \<open>f\<close>
  prescribes for the key \<open>k\<close>, left all other keys alone, and kept the keyspace well formed.
\<close>

subsection \<open>A small store for the witnesses\<close>

definition demo :: "bytes list \<Rightarrow> ctx" where
  "demo argv = ctx_new argv (snd (ks_set ''k'' (StrObj ''7'') ks_new)) (\<lambda>_. 1000)"

lemma demo_ok: "ok (demo argv)" and demo_view: "view (demo argv) = [''k'' \<mapsto> (AStr ''7'', None)]"
  using db_set [OF db_new(1), of "StrObj ''7''" "''k''"]
  by (simp_all add: ok_def view_def demo_def ctx_new_def db_new)

lemma demo_parts [simp]: "c_argv (demo argv) = argv" "c_out (demo argv) = []" "arg (demo argv) i = argv ! i"
  "argc (demo argv) = length argv" "c_clock (demo argv) = (\<lambda>_. 1000)" "c_tick (demo argv) = 0"
  "c_ub (demo argv) = False" "c_dirty (demo argv) = False"
  by (simp_all add: demo_def ctx_new_def arg_def argc_def)

lemma demo_peek: "peek (demo argv) k = (if k = ''k'' then Some (AStr ''7'', None) else None)"
  by (simp add: peek_def demo_view live_def)

lemma runs_out: "runs c k f c' \<Longrightarrow> c_out c' = c_out c @ fst (snd (f (peek c k)))"
  by (simp add: runs_def split: prod.splits)

lemma demo_out: "runs (demo argv) k f c' \<Longrightarrow> c_out c' = fst (snd (f (if k = ''k'' then Some (AStr ''7'', None) else None)))"
  using runs_out [of "demo argv" k f c'] by (simp add: demo_peek)

subsection \<open>Strings\<close>

text \<open>C19. String commands: GET, STRLEN, GETSET, APPEND, GETRANGE, SETRANGE and SETNX reply and store what
  their specifications say, on a missing key, on a string, and on a value of another type.\<close>

theorem string_commands_correct:
  assumes "ok c"
  shows "runs c (arg c 1) spec_get (cmd_get c) \<and>
    runs c (arg c 1) spec_strlen (cmd_strlen c) \<and>
    runs c (arg c 1) (spec_getset (arg c 2)) (cmd_getset c) \<and>
    runs c (arg c 1) (spec_append (arg c 2)) (cmd_append c) \<and>
    runs c (arg c 1) (spec_getrange (arg c 2) (arg c 3)) (cmd_getrange c) \<and>
    runs c (arg c 1) (spec_setrange (arg c 2) (arg c 3)) (cmd_setrange c) \<and>
    runs c (arg c 1) (spec_setnx (arg c 2)) (cmd_setnx c)"
  by (intro conjI cmd_get_runs cmd_strlen_runs cmd_getset_runs cmd_append_runs cmd_getrange_runs
      cmd_setrange_runs cmd_setnx_runs assms)

theorem string_commands_correct_witness: "c_out (cmd_append (demo [''APPEND'', ''k'', ''xy''])) = a_integer 3"
proof -
  let ?c = "demo [''APPEND'', ''k'', ''xy'']"
  have "runs ?c (arg ?c 1) (spec_append (arg ?c 2)) (cmd_append ?c)" using string_commands_correct [OF demo_ok] by blast
  from demo_out [OF this] show ?thesis by (simp add: spec_append_def)
qed





subsection \<open>Lists, sets and hashes\<close>

text \<open>C21. List commands: LPUSH, RPUSH, LPOP, RPOP (with and without a count), LLEN, LRANGE, LINDEX and LSET
  act on the list as their specifications say; a list that becomes empty disappears.\<close>

theorem list_commands_correct:
  assumes "ok c"
  shows "runs c (arg c 1) (spec_push True (drop 2 (c_argv c))) (cmd_lpush c) \<and>
    runs c (arg c 1) (spec_push False (drop 2 (c_argv c))) (cmd_rpush c) \<and>
    runs c (arg c 1) (spec_pop True (pop_arg c)) (cmd_lpop c) \<and>
    runs c (arg c 1) (spec_pop False (pop_arg c)) (cmd_rpop c) \<and>
    runs c (arg c 1) spec_llen (cmd_llen c) \<and>
    runs c (arg c 1) (spec_lrange (arg c 2) (arg c 3)) (cmd_lrange c) \<and>
    runs c (arg c 1) (spec_lindex (arg c 2)) (cmd_lindex c) \<and>
    runs c (arg c 1) (spec_lset (arg c 2) (arg c 3)) (cmd_lset c)"
  unfolding cmd_lpush_def cmd_rpush_def cmd_lpop_def cmd_rpop_def
  by (intro conjI push_runs pop_runs cmd_llen_runs cmd_lrange_runs cmd_lindex_runs cmd_lset_runs assms)

theorem list_commands_correct_witness: "c_out (cmd_lpush (demo [''LPUSH'', ''l'', ''a'', ''b''])) = a_integer 2"
proof -
  let ?c = "demo [''LPUSH'', ''l'', ''a'', ''b'']"
  have "runs ?c (arg ?c 1) (spec_push True (drop 2 (c_argv ?c))) (cmd_lpush ?c)" using list_commands_correct [OF demo_ok] by blast
  from demo_out [OF this] show ?thesis by (simp add: spec_push_def)
qed

text \<open>C23. Set commands: SADD, SREM, SISMEMBER, SCARD and SMEMBERS act on the set of members; SMEMBERS lists
  each member once, in some order. A set that becomes empty disappears.\<close>

theorem set_commands_correct:
  assumes "ok c"
  shows "runs c (arg c 1) (spec_sadd (drop 2 (c_argv c))) (cmd_sadd c) \<and>
    runs c (arg c 1) (spec_srem (drop 2 (c_argv c))) (cmd_srem c) \<and>
    runs c (arg c 1) (spec_sismember (arg c 2)) (cmd_sismember c) \<and>
    runs c (arg c 1) spec_scard (cmd_scard c) \<and>
    (\<exists>ms. distinct ms \<and> set ms = peek_set c (arg c 1) \<and> runs c (arg c 1) (spec_smembers ms) (cmd_smembers c))"
  by (intro conjI cmd_sadd_runs cmd_srem_runs cmd_sismember_runs cmd_scard_runs cmd_smembers_runs assms)

theorem set_commands_correct_witness: "c_out (cmd_sadd (demo [''SADD'', ''s'', ''a'', ''b'', ''a''])) = a_integer 2"
proof -
  let ?c = "demo [''SADD'', ''s'', ''a'', ''b'', ''a'']"
  have "runs ?c (arg ?c 1) (spec_sadd (drop 2 (c_argv ?c))) (cmd_sadd ?c)" using set_commands_correct [OF demo_ok] by blast
  from demo_out [OF this] show ?thesis by (simp add: spec_sadd_def card_insert_if)
qed

text \<open>SPOP removes from the set, and replies with, as many distinct members as asked for or as there
  are, and drops the key with the last one.\<close>

theorem spop_correct:
  assumes "ok c"
  shows "\<exists>ms. distinct ms \<and> set ms \<subseteq> peek_set c (arg c 1) \<and>
    length ms = min (case pop_count (pop_arg c) of Some n \<Rightarrow> n | None \<Rightarrow> 0) (card (peek_set c (arg c 1))) \<and>
    runs c (arg c 1) (spec_spop (pop_arg c) ms) (cmd_spop c)"
  using assms by (rule cmd_spop_runs)

theorem spop_correct_witness: "c_out (cmd_spop (demo [''SPOP'', ''s''])) = a_nil"
proof -
  let ?c = "demo [''SPOP'', ''s'']"
  obtain ms where "runs ?c (arg ?c 1) (spec_spop (pop_arg ?c) ms) (cmd_spop ?c)"
    using spop_correct [OF demo_ok] by blast
  from demo_out [OF this] show ?thesis by (simp add: spec_spop_def pop_arg_def pop_count_def)
qed

text \<open>C22. Hash commands: HSET and HMSET, HGET, HDEL, HEXISTS, HLEN, HMGET and HGETALL act on the map of
  fields. The replies are in the order of the arguments, or of some enumeration without repetition.\<close>

theorem hash_commands_correct:
  assumes "ok c" "2 \<le> argc c"
  shows "runs c (arg c 1) (spec_hset (cmd_name c) (drop 2 (c_argv c))) (cmd_hset c) \<and>
    runs c (arg c 1) (spec_hget (arg c 2)) (cmd_hget c) \<and>
    runs c (arg c 1) (spec_hdel (drop 2 (c_argv c))) (cmd_hdel c) \<and>
    runs c (arg c 1) (spec_hexists (arg c 2)) (cmd_hexists c) \<and>
    runs c (arg c 1) spec_hlen (cmd_hlen c) \<and>
    runs c (arg c 1) (spec_hmget (drop 2 (c_argv c))) (cmd_hmget c) \<and>
    (\<exists>es. distinct (map fst es) \<and> map_of es = peek_hash c (arg c 1) \<and>
       runs c (arg c 1) (spec_henum 2 (\<lambda>(k, v). a_bulk k @ a_bulk v) es) (cmd_hgetall c))"
  by (intro conjI cmd_hset_runs cmd_hget_runs cmd_hdel_runs cmd_hexists_runs cmd_hlen_runs
      cmd_hmget_runs cmd_hgetall_runs assms)

theorem hash_commands_correct_witness:
  "c_out (cmd_hset (demo [''HSET'', ''h'', ''a'', ''1'', ''b'', ''2''])) = a_integer 2"
proof -
  let ?c = "demo [''HSET'', ''h'', ''a'', ''1'', ''b'', ''2'']"
  have low: "to_lower ''HSET'' = ''hset''" by code_simp
  have "runs ?c (arg ?c 1) (spec_hset (cmd_name ?c) (drop 2 (c_argv ?c))) (cmd_hset ?c)"
    using hash_commands_correct [OF demo_ok, of "[''HSET'', ''h'', ''a'', ''1'', ''b'', ''2'']"] by simp
  from demo_out [OF this] show ?thesis by (simp add: spec_hset_def cmd_name_def low)
qed

text \<open>HINCRBY adds to the number a field denotes, in place and keeping the deadline of the key, as
  long as the sum stays within 64 bits; unlike INCR it does not check this before it adds.\<close>

theorem hincrby_correct:
  assumes "ok c" "\<not> c_ub (cmd_hincrby c)"
  shows "runs c (arg c 1) (spec_hincrby (arg c 2) (arg c 3)) (cmd_hincrby c)"
  using assms by (rule cmd_hincrby_runs)

theorem hincrby_correct_witness:
  "c_out (cmd_hincrby (demo [''HINCRBY'', ''k'', ''f'', ''2''])) = a_wrong_type"
proof -
  let ?c = "demo [''HINCRBY'', ''k'', ''f'', ''2'']"
  have two: "parse_int ''2'' = Some 2" by code_simp
  have "\<not> c_ub (cmd_hincrby ?c)"
  proof (rule typed_cases [OF demo_ok [of "[''HINCRBY'', ''k'', ''f'', ''2'']"], of T_Hash "''k''"])
    fix a d
    assume "get_typed T_Hash ''k'' ?c = (WrongType, ?c\<lparr>c_tick := Suc (c_tick ?c)\<rparr>)"
    then show ?thesis by (simp add: cmd_hincrby_def two get_hash_def reply_eqs)
  next
    fix p v d
    assume "peek ?c ''k'' = Some (obj_abs v, d)" "obj_type v = T_Hash"
    then show ?thesis by (cases v) (simp_all add: demo_peek)
  qed (simp add: demo_peek)
  from demo_out [OF hincrby_correct [OF demo_ok this]]
  show ?thesis by (simp add: spec_hincrby_def two)
qed

subsection \<open>Deadlines\<close>




text \<open>A deadline of zero is not treated alike everywhere: for EXPIREAT with a time at or before the
  epoch, a lookup takes the key for expired at once, but KEYS still lists it, because its callback reads
  a zero deadline as no deadline.\<close>

theorem expireat_epoch_still_listed:
  assumes "ok c" "parse_int (arg c 2) = Some n" "n \<le> 0" "peek c (arg c 1) = Some e"
    and "c' = (cmd_expireat c)\<lparr>c_argv := [''KEYS'', arg c 1]\<rparr>" "glob_match (arg c 1) (arg c 1)"
  shows "peek c' (arg c 1) = None \<and>
    (\<exists>ms. arg c 1 \<in> set ms \<and>
      c_out (cmd_keys c') = c_out c' @ a_array (int (length ms)) @ concat (map a_bulk ms))"
proof -
  obtain a d where e: "e = (a, d)" by fastforce
  have "runs c (arg c 1) (spec_deadline (u64_of_i64 (max 0 n) * 1000)) (cmd_expireat c)"
    using assms(1,2) by (rule cmd_expireat_runs)
  then have r: "ok (cmd_expireat c)" "view (cmd_expireat c) = (view c)(arg c 1 \<mapsto> (a, Some 0))"
    using assms(3,4) e by (simp_all add: runs_def spec_deadline_def u64_of_i64_def)
  have c': "ok c'" "view c' = (view c)(arg c 1 \<mapsto> (a, Some 0))" "arg c' 1 = arg c 1"
    using r assms(5) by (simp_all add: ok_def view_def arg_def)
  obtain ms where
    "set ms = {k. \<exists>a d. view c' k = Some (a, d) \<and> listed (reading c') d \<and> glob_match (arg c' 1) k}"
    "cmd_keys c' = (ticked c')\<lparr>c_out := c_out c' @ a_array (int (length ms)) @ concat (map a_bulk ms)\<rparr>"
    using cmd_keys_correct [OF c'(1)] by blast
  then show ?thesis using c' assms(6) by (auto simp: peek_def live_def)
qed

theorem expireat_epoch_still_listed_witness:
  "peek ((cmd_expireat (demo [''EXPIREAT'', ''k'', ''0'']))\<lparr>c_argv := [''KEYS'', ''k'']\<rparr>) ''k'' = None"
proof -
  have "parse_int ''0'' = Some 0" "glob_match ''k'' ''k''" by code_simp+
  then show ?thesis
    using expireat_epoch_still_listed [OF demo_ok, of "[''EXPIREAT'', ''k'', ''0'']" 0 "(AStr ''7'', None)"]
    by (simp add: demo_peek)
qed

subsection \<open>Several keys\<close>

text \<open>Writing several keys: DEL removes exactly its arguments and counts the keys removed, whatever
  the order and the repetitions; MSET with an odd number of arguments in all stores the pairs, later
  ones winning, and clears their deadlines.\<close>

theorem multi_write_correct:
  assumes "ok c" "odd (argc c)"
  shows "view (cmd_del c) = view c |` (- set (drop 1 (c_argv c))) \<and>
    c_out (cmd_del c) = c_out c @ a_integer (int (card (set (drop 1 (c_argv c)) \<inter> dom (view c)))) \<and>
    ok (cmd_del c) \<and> ok (cmd_mset c) \<and>
    view (cmd_mset c) = view c ++ map_of (rev (map (\<lambda>(k, v). (k, (AStr v, None))) (pairs (drop 1 (c_argv c))))) \<and>
    c_out (cmd_mset c) = c_out c @ a_ok \<and> c_dirty (cmd_mset c)"
  by (intro conjI cmd_del_correct cmd_mset_correct assms)

theorem multi_write_correct_witness:
  "view (cmd_mset (demo [''MSET'', ''a'', ''1'', ''a'', ''2''])) ''a'' = Some (AStr ''2'', None)"
proof -
  let ?c = "demo [''MSET'', ''a'', ''1'', ''a'', ''2'']"
  have "odd (argc ?c)" by simp
  with multi_write_correct [OF demo_ok]
  have "view (cmd_mset ?c) = view ?c ++
      map_of (rev (map (\<lambda>(k, v). (k, (AStr v, None))) (pairs (drop 1 (c_argv ?c)))))" by blast
  then show ?thesis by simp
qed

text \<open>Reading several keys: at one clock reading, EXISTS counts the arguments that are there,
  counting repetitions, and MGET replies with one item per argument in order, the string or nil for a
  missing key or another type; neither marks the command as a write.\<close>

theorem multi_read_correct:
  assumes "ok c" "frozen c now" "1 \<le> argc c"
  shows "c_out (cmd_exists c) = c_out c @
      a_integer (int (length (filter (\<lambda>k. live now (view c) k \<noteq> None) (drop 1 (c_argv c))))) \<and>
    c_dirty (cmd_exists c) = c_dirty c \<and> ok (cmd_exists c) \<and>
    view (cmd_exists c) = swept now (set (drop 1 (c_argv c))) (view c) \<and>
    c_out (cmd_mget c) = c_out c @ a_array (int (argc c) - 1) @
      concat (map (mget_reply now (view c)) (drop 1 (c_argv c))) \<and>
    c_dirty (cmd_mget c) = c_dirty c \<and> ok (cmd_mget c) \<and>
    view (cmd_mget c) = swept now (set (drop 1 (c_argv c))) (view c)"
  using cmd_exists_correct [OF assms(1,2)] cmd_mget_correct [OF assms] by blast

theorem multi_read_correct_witness:
  "c_out (cmd_mget (demo [''MGET'', ''k'', ''x''])) = a_array 2 @ a_bulk ''7'' @ a_nil"
proof -
  let ?c = "demo [''MGET'', ''k'', ''x'']"
  have "frozen ?c 1000" "1 \<le> argc ?c" by (simp_all add: frozen_def)
  from multi_read_correct [OF demo_ok this]
  have "c_out (cmd_mget ?c) = c_out ?c @ a_array (int (argc ?c) - 1) @
      concat (map (mget_reply 1000 (view ?c)) (drop 1 (c_argv ?c)))" by blast
  then show ?thesis by (simp add: mget_reply_def live_def demo_view)
qed

text \<open>RENAME moves the entry, with its deadline, to the new key, also when both keys are the same,
  and replies with an error and changes nothing a client can see when the old key is missing.\<close>

theorem rename_correct:
  assumes "ok c"
  shows "(\<forall>e. peek c (arg c 1) = Some e \<longrightarrow>
      ok (cmd_rename c) \<and> view (cmd_rename c) = (view c)(arg c 1 := None, arg c 2 \<mapsto> e) \<and>
      c_out (cmd_rename c) = c_out c @ a_ok \<and> c_dirty (cmd_rename c)) \<and>
    (peek c (arg c 1) = None \<longrightarrow>
      runs c (arg c 1) (\<lambda>e. (e, a_error ''ERR no such key'', False)) (cmd_rename c))"
  using cmd_rename_present [OF assms] cmd_rename_absent [OF assms] by simp

theorem rename_correct_witness: "view (cmd_rename (demo [''RENAME'', ''k'', ''j''])) ''j'' = Some (AStr ''7'', None)"
  using rename_correct [OF demo_ok, of "[''RENAME'', ''k'', ''j'']"] by (simp add: demo_peek)

text \<open>Enumeration: KEYS and SCAN (which answers everything in one step, with cursor 0) list, each
  once, the keys that match the pattern and the type filter and whose deadline is zero or ahead, and
  change nothing.\<close>

theorem enumeration_correct:
  assumes "ok c" "scan_options (drop 2 (c_argv c)) ''*'' None = (pat, ty)"
  shows "(\<exists>ms. distinct ms \<and>
      set ms = {k. \<exists>a d. view c k = Some (a, d) \<and> listed (reading c) d \<and> glob_match (arg c 1) k} \<and>
      cmd_keys c = (ticked c)\<lparr>c_out := c_out c @ a_array (int (length ms)) @ concat (map a_bulk ms)\<rparr>) \<and>
    (\<exists>ms. distinct ms \<and>
      set ms = {k. \<exists>a d. view c k = Some (a, d) \<and> listed (reading c) d \<and>
        (ty = None \<or> ty = Some (aobj_type a)) \<and> glob_match pat k} \<and>
      cmd_scan c = (ticked c)\<lparr>c_out := c_out c @ a_array 2 @ a_bulk ''0'' @ a_array (int (length ms)) @
        concat (map a_bulk ms)\<rparr>)"
  by (intro conjI cmd_keys_correct cmd_scan_correct assms)

theorem enumeration_correct_witness:
  "c_db (cmd_keys (demo [''KEYS'', ''*''])) = c_db (demo [''KEYS'', ''*''])"
proof -
  let ?c = "demo [''KEYS'', ''*'']"
  have "scan_options (drop 2 (c_argv ?c)) ''*'' None = (''*'', None)" by simp
  from enumeration_correct [OF demo_ok this] show ?thesis by (auto simp: ticked_def)
qed

end
