(* ===== verification/Reactor.thy ===== *)
theory Reactor
  imports Config
begin

section \<open>Event loop back ends (\<^verbatim>\<open>include/blazekv/reactor.hpp\<close>, \<^verbatim>\<open>src/net/reactor.cpp\<close>)\<close>

text \<open>
  A reactor keeps, for each file descriptor, the kinds of events it is asked to report and the token to report them
  with. The poll back end keeps this itself; the epoll back end hands it to the kernel, which is a parameter. Event
  masks have the values of the Linux headers.
\<close>

subsection \<open>Flags and events\<close>

type_synonym mask = "16 word"

definition kRead :: u32 where "kRead = 1"
definition kWrite :: u32 where "kWrite = 2"
definition kError :: u32 where "kError = 4"

definition POLLIN :: mask where "POLLIN = 1"
definition POLLOUT :: mask where "POLLOUT = 4"
definition POLLERR :: mask where "POLLERR = 8"
definition POLLHUP :: mask where "POLLHUP = 16"
definition POLLNVAL :: mask where "POLLNVAL = 32"

lemmas mask_defs = kRead_def kWrite_def kError_def POLLIN_def POLLOUT_def POLLERR_def POLLHUP_def POLLNVAL_def

record reported =
  re_fd :: int
  re_token :: u64
  re_flags :: u32

definition to_events :: "u32 \<Rightarrow> mask" where
  "to_events flags = or (if and flags kRead \<noteq> 0 then POLLIN else 0) (if and flags kWrite \<noteq> 0 then POLLOUT else 0)"

definition from_revents :: "mask \<Rightarrow> u32" where
  "from_revents re =
     or (or (if and re (or POLLIN POLLHUP) \<noteq> 0 then kRead else 0) (if and re POLLOUT \<noteq> 0 then kWrite else 0))
       (if and re (or POLLERR POLLNVAL) \<noteq> 0 then kError else 0)"

subsection \<open>The interface\<close>

text \<open>The virtual functions that register interest, as a record of operations on the state \<open>'r\<close> of a back end.\<close>

record 'r reactor_ops =
  rx_add :: "int \<Rightarrow> u32 \<Rightarrow> u64 \<Rightarrow> 'r \<Rightarrow> bool \<times> 'r"
  rx_mod :: "int \<Rightarrow> u32 \<Rightarrow> u64 \<Rightarrow> 'r \<Rightarrow> bool \<times> 'r"
  rx_del :: "int \<Rightarrow> 'r \<Rightarrow> bool \<times> 'r"

subsection \<open>The poll back end\<close>

record pollfd =
  pf_fd :: int
  pf_events :: mask

record poll_reactor =
  px_fds :: "pollfd list"
  px_tokens :: "u64 list"
  px_index :: "int \<Rightarrow> nat option"

definition poll_new :: poll_reactor where
  "poll_new = \<lparr>px_fds = [], px_tokens = [], px_index = Map.empty\<rparr>"

definition poll_add :: "int \<Rightarrow> u32 \<Rightarrow> u64 \<Rightarrow> poll_reactor \<Rightarrow> bool \<times> poll_reactor" where
  "poll_add fd flags token r =
     (True, r\<lparr>px_index := (px_index r)(fd \<mapsto> length (px_fds r)),
              px_fds := px_fds r @ [\<lparr>pf_fd = fd, pf_events = to_events flags\<rparr>],
              px_tokens := px_tokens r @ [token]\<rparr>)"

definition poll_mod :: "int \<Rightarrow> u32 \<Rightarrow> u64 \<Rightarrow> poll_reactor \<Rightarrow> bool \<times> poll_reactor" where
  "poll_mod fd flags token r =
     (case px_index r fd of
        None \<Rightarrow> poll_add fd flags token r
      | Some i \<Rightarrow>
          (True, r\<lparr>px_fds := (px_fds r)[i := (px_fds r ! i)\<lparr>pf_events := to_events flags\<rparr>],
                   px_tokens := (px_tokens r)[i := token]\<rparr>))"

definition poll_del :: "int \<Rightarrow> poll_reactor \<Rightarrow> bool \<times> poll_reactor" where
  "poll_del fd r =
     (case px_index r fd of
        None \<Rightarrow> (False, r)
      | Some i \<Rightarrow>
          (let last = length (px_fds r) - 1;
               r1 = (if i \<noteq> last
                     then r\<lparr>px_fds := (px_fds r)[i := px_fds r ! last], px_tokens := (px_tokens r)[i := px_tokens r ! last],
                            px_index := (px_index r)(pf_fd (px_fds r ! last) \<mapsto> i)\<rparr>
                     else r)
           in (True, r1\<lparr>px_fds := butlast (px_fds r1), px_tokens := butlast (px_tokens r1),
                        px_index := (px_index r1)(fd := None)\<rparr>)))"

text \<open>What \<open>poll\<close> answers: its result, whether \<open>errno\<close> is EINTR, and the \<open>revents\<close> of each entry.\<close>

record poll_answer =
  pa_result :: int
  pa_eintr :: bool
  pa_revents :: "mask list"

fun poll_collect :: "nat \<Rightarrow> (pollfd \<times> u64 \<times> mask) list \<Rightarrow> reported list" where
  "poll_collect 0 xs = []"
| "poll_collect (Suc k) [] = []"
| "poll_collect (Suc k) ((p, token, re) # xs) =
     (if re = 0 then poll_collect (Suc k) xs
      else \<lparr>re_fd = pf_fd p, re_token = token, re_flags = from_revents re\<rparr> # poll_collect k xs)"

definition poll_wait :: "poll_answer \<Rightarrow> nat \<Rightarrow> poll_reactor \<Rightarrow> int \<times> reported list" where
  "poll_wait A max_events r =
     (if px_fds r = [] then (0, [])
      else if pa_result A \<le> 0 then (if pa_result A < 0 \<and> pa_eintr A then 0 else pa_result A, [])
      else let out = poll_collect max_events (zip (px_fds r) (zip (px_tokens r) (pa_revents A)))
           in (int (length out), out))"

definition poll_ops :: "poll_reactor reactor_ops" where
  "poll_ops = \<lparr>rx_add = poll_add, rx_mod = poll_mod, rx_del = poll_del\<rparr>"

subsection \<open>The epoll back end\<close>

text \<open>\<open>epoll_ctl\<close> is the kernel's: it answers 0 or an error for an operation, a descriptor, an event mask and the data
  word. EPOLLIN and EPOLLOUT have the values of their poll counterparts.\<close>

datatype ctl_op = EPOLL_CTL_ADD | EPOLL_CTL_MOD | EPOLL_CTL_DEL

type_synonym 'k epoll_ctl = "ctl_op \<Rightarrow> int \<Rightarrow> mask \<Rightarrow> u64 \<Rightarrow> 'k \<Rightarrow> bool \<times> 'k"

definition epoll_ctl_call :: "'k epoll_ctl \<Rightarrow> ctl_op \<Rightarrow> int \<Rightarrow> u32 \<Rightarrow> u64 \<Rightarrow> 'k \<Rightarrow> bool \<times> 'k" where
  "epoll_ctl_call K oper fd flags token k =
     K oper fd (or (if and flags kRead \<noteq> 0 then POLLIN else 0) (if and flags kWrite \<noteq> 0 then POLLOUT else 0)) token k"

definition epoll_ops :: "'k epoll_ctl \<Rightarrow> 'k reactor_ops" where
  "epoll_ops K = \<lparr>rx_add = epoll_ctl_call K EPOLL_CTL_ADD, rx_mod = epoll_ctl_call K EPOLL_CTL_MOD,
     rx_del = (\<lambda>fd. K EPOLL_CTL_DEL fd 0 0)\<rparr>"

definition kMaxBatch :: nat where "kMaxBatch = 1024"

definition epoll_flags :: "mask \<Rightarrow> u32" where
  "epoll_flags ev =
     or (or (if and ev (or POLLIN POLLHUP) \<noteq> 0 then kRead else 0) (if and ev POLLOUT \<noteq> 0 then kWrite else 0))
       (if and ev POLLERR \<noteq> 0 then kError else 0)"

text \<open>The \<open>max_events\<close> argument goes to \<open>epoll_wait\<close>, which fills at most as many entries.\<close>

definition epoll_wait :: "int \<Rightarrow> bool \<Rightarrow> (mask \<times> u64) list \<Rightarrow> nat \<Rightarrow> int \<times> reported list" where
  "epoll_wait result eintr events max_events =
     (if result < 0 then (if eintr then 0 else - 1, [])
      else (result, map (\<lambda>(ev, token). \<lparr>re_fd = - 1, re_token = token, re_flags = epoll_flags ev\<rparr>)
                      (take (nat result) (take (min max_events kMaxBatch) events))))"

subsection \<open>Choosing a back end\<close>

datatype backend = Uring_Backend | Epoll_Backend | Poll_Backend

definition make_reactor :: "bool \<Rightarrow> bool \<Rightarrow> bool \<Rightarrow> ReactorKind \<Rightarrow> backend" where
  "make_reactor have_uring have_epoll uring_ok kind =
     (if have_uring \<and> (kind = Auto \<or> kind = Uring) \<and> uring_ok then Uring_Backend
      else if have_epoll \<and> (kind = Auto \<or> kind = Epoll \<or> kind = Uring) then Epoll_Backend
      else Poll_Backend)"

subsection \<open>Tokens (\<^verbatim>\<open>include/blazekv/shard.hpp\<close>)\<close>

definition kTagListen :: u64 where "kTagListen = 1"
definition kTagWake :: u64 where "kTagWake = 2"
definition kTagConn :: u64 where "kTagConn = 3"
definition kTagMask :: u64 where "kTagMask = 3"

lemmas tag_defs = kTagListen_def kTagWake_def kTagConn_def kTagMask_def

definition encode_conn_token :: "u64 \<Rightarrow> u64" where
  "encode_conn_token cid = or (push_bit 2 cid) kTagConn"

subsection \<open>The waker\<close>

text \<open>On Linux the waker is a non-blocking eventfd: the kernel adds what is written to a counter, reports the
  descriptor readable while the counter is not 0, and a read returns the counter and clears it. A write that would
  overflow the counter fails.\<close>

definition waker_notify :: "u64 \<Rightarrow> u64" where
  "waker_notify k = (if 0xFFFFFFFFFFFFFFFE \<le> k then k else k + 1)"

definition waker_drain :: "u64 \<Rightarrow> u64" where
  "waker_drain k = 0"

definition waker_readable :: "u64 \<Rightarrow> bool" where
  "waker_readable k \<longleftrightarrow> k \<noteq> 0"

section \<open>Posting to a shard and waking it up (\<^verbatim>\<open>include/blazekv/shard.hpp\<close>, \<^verbatim>\<open>src/server/shard.cpp\<close>)\<close>

text \<open>
  \<open>post\<close> pushes a closure and then notifies the waker; the owner drains the waker when the reactor reports it, and
  then the mailbox, before it waits again. The state counts the messages in the mailbox, the producers between the two
  halves of \<open>post\<close>, and what the eventfd holds. The owner may find the mailbox empty while a producer has taken its
  place in it and not linked its node yet (see \<open>Mailbox\<close>); such a producer has still to notify.
\<close>

datatype owner = Waiting | Draining

record wake =
  wk_box :: nat
  wk_between :: nat
  wk_count :: u64
  wk_owner :: owner

definition wake_new :: wake where
  "wake_new = \<lparr>wk_box = 0, wk_between = 0, wk_count = 0, wk_owner = Waiting\<rparr>"

definition post_push :: "wake \<Rightarrow> wake" where
  "post_push w = w\<lparr>wk_box := wk_box w + 1, wk_between := wk_between w + 1\<rparr>"

definition post_notify :: "wake \<Rightarrow> wake" where
  "post_notify w = w\<lparr>wk_between := wk_between w - 1, wk_count := waker_notify (wk_count w)\<rparr>"

text \<open>The wait ends, on an event or on the timeout; the waker is drained if it was reported.\<close>

definition wait_returns :: "bool \<Rightarrow> wake \<Rightarrow> wake" where
  "wait_returns reported w =
     w\<lparr>wk_owner := Draining, wk_count := (if reported then waker_drain (wk_count w) else wk_count w)\<rparr>"

definition run_one :: "wake \<Rightarrow> wake" where
  "run_one w = w\<lparr>wk_box := wk_box w - 1\<rparr>"

definition wait_again :: "wake \<Rightarrow> wake" where
  "wait_again w = w\<lparr>wk_owner := Waiting\<rparr>"

inductive wake_step :: "wake \<Rightarrow> wake \<Rightarrow> bool" where
  push: "wake_step w (post_push w)"
| notify: "wk_between w > 0 \<Longrightarrow> wake_step w (post_notify w)"
| returns: "wk_owner w = Waiting \<Longrightarrow> (reported \<Longrightarrow> waker_readable (wk_count w)) \<Longrightarrow> wake_step w (wait_returns reported w)"
| run: "wk_owner w = Draining \<Longrightarrow> wk_box w > 0 \<Longrightarrow> wake_step w (run_one w)"
| again: "wk_owner w = Draining \<Longrightarrow> wk_box w = 0 \<or> wk_between w > 0 \<Longrightarrow> wake_step w (wait_again w)"

inductive_cases wake_stepE: "wake_step w w'"

lemma waker_notify_not_0: "waker_notify k \<noteq> 0"
proof
  assume z: "waker_notify k = 0"
  then have "k < 0xFFFFFFFFFFFFFFFE" "k + 1 = 0" by (auto simp: waker_notify_def not_le split: if_splits)
  moreover have "k = - 1" using \<open>k + 1 = 0\<close> by (simp add: eq_neg_iff_add_eq_0)
  moreover have "(- 1 :: u64) = 0xFFFFFFFFFFFFFFFF" by code_simp
  ultimately show False by simp
qed

lemma wake_inv:
  assumes "wake_step\<^sup>*\<^sup>* wake_new w"
  shows "wk_owner w = Waiting \<Longrightarrow> wk_box w > 0 \<Longrightarrow> wk_count w \<noteq> 0 \<or> wk_between w > 0"
  using assms
proof (induction rule: rtranclp_induct)
  case base
  then show ?case by (simp add: wake_new_def)
next
  case (step y z)
  from step(2) step(3-) show ?case
    by (cases rule: wake_step.cases)
      (auto simp: post_push_def post_notify_def wait_returns_def run_one_def wait_again_def waker_notify_not_0)
qed

end
