(* ===== verification/Reactor_Correct.thy ===== *)
theory Reactor_Correct
  imports Reactor
begin

section \<open>Registering interest\<close>

text \<open>
  What a shard relies on: a reactor is a map from descriptors to the events they are watched for and the token to
  report. The poll back end is proved to be one, whatever its arrays look like after removals; the epoll back end is
  one as far as the kernel keeps the interest list that its manual describes.
\<close>

type_synonym interest = "bool \<times> bool \<times> u64"

definition wants :: "u32 \<Rightarrow> u64 \<Rightarrow> interest" where
  "wants flags token = (and flags kRead \<noteq> 0, and flags kWrite \<noteq> 0, token)"

locale reactor =
  fixes R :: "'r reactor_ops"
    and rok :: "'r \<Rightarrow> bool"
    and interest :: "'r \<Rightarrow> int \<Rightarrow> interest option"
  assumes add: "rok r \<Longrightarrow> interest r fd = None \<Longrightarrow>
      rx_add R fd flags token r = (b, r') \<Longrightarrow> rok r' \<and> b \<and> interest r' = (interest r)(fd \<mapsto> wants flags token)"
    and modify: "rok r \<Longrightarrow> interest r fd \<noteq> None \<Longrightarrow>
      rx_mod R fd flags token r = (b, r') \<Longrightarrow> rok r' \<and> b \<and> interest r' = (interest r)(fd \<mapsto> wants flags token)"
    and del: "rok r \<Longrightarrow> interest r fd \<noteq> None \<Longrightarrow>
      rx_del R fd r = (b, r') \<Longrightarrow> rok r' \<and> b \<and> interest r' = (interest r)(fd := None)"
begin

lemma add_snd: "rok r \<Longrightarrow> interest r fd = None \<Longrightarrow>
    rok (snd (rx_add R fd flags token r)) \<and> interest (snd (rx_add R fd flags token r)) = (interest r)(fd \<mapsto> wants flags token)"
  using add by (metis prod.collapse)

lemma mod_snd: "rok r \<Longrightarrow> interest r fd \<noteq> None \<Longrightarrow>
    rok (snd (rx_mod R fd flags token r)) \<and> interest (snd (rx_mod R fd flags token r)) = (interest r)(fd \<mapsto> wants flags token)"
  using modify by (metis prod.collapse)

lemma del_snd: "rok r \<Longrightarrow> interest r fd \<noteq> None \<Longrightarrow>
    rok (snd (rx_del R fd r)) \<and> interest (snd (rx_del R fd r)) = (interest r)(fd := None)"
  using del by (metis prod.collapse)

end

subsection \<open>The poll back end\<close>

definition poll_ok :: "poll_reactor \<Rightarrow> bool" where
  "poll_ok r \<longleftrightarrow> length (px_tokens r) = length (px_fds r) \<and>
     (\<forall>fd i. px_index r fd = Some i \<longleftrightarrow> i < length (px_fds r) \<and> pf_fd (px_fds r ! i) = fd)"

definition events_interest :: "mask \<Rightarrow> u64 \<Rightarrow> interest" where
  "events_interest ev token = (and ev POLLIN \<noteq> 0, and ev POLLOUT \<noteq> 0, token)"

definition poll_interest :: "poll_reactor \<Rightarrow> int \<Rightarrow> interest option" where
  "poll_interest r fd = map_option (\<lambda>i. events_interest (pf_events (px_fds r ! i)) (px_tokens r ! i)) (px_index r fd)"

lemma to_events_interest: "events_interest (to_events flags) token = wants flags token"
  by (auto simp: events_interest_def to_events_def wants_def mask_defs)

lemma poll_okD:
  "poll_ok r \<Longrightarrow> length (px_tokens r) = length (px_fds r)"
  "poll_ok r \<Longrightarrow> px_index r fd = Some i \<longleftrightarrow> i < length (px_fds r) \<and> pf_fd (px_fds r ! i) = fd"
  by (simp_all add: poll_ok_def)

lemma poll_new_ok: "poll_ok poll_new" "poll_interest poll_new = Map.empty"
  by (simp_all add: poll_ok_def poll_new_def poll_interest_def fun_eq_iff)

lemma poll_index: "poll_ok r \<Longrightarrow> i < length (px_fds r) \<Longrightarrow> px_index r (pf_fd (px_fds r ! i)) = Some i"
  by (simp add: poll_okD(2))

lemma poll_inj: "poll_ok r \<Longrightarrow> i < length (px_fds r) \<Longrightarrow> j < length (px_fds r) \<Longrightarrow>
    pf_fd (px_fds r ! i) = pf_fd (px_fds r ! j) \<longleftrightarrow> i = j"
  using poll_index by (metis option.inject)

lemma poll_add_ok:
  assumes "poll_ok r" "px_index r fd = None"
  shows "poll_ok (snd (poll_add fd flags token r))"
    "poll_interest (snd (poll_add fd flags token r)) = (poll_interest r)(fd \<mapsto> wants flags token)"
proof -
  let ?r = "snd (poll_add fd flags token r)"
  have no: "pf_fd (px_fds r ! i) \<noteq> fd" if "i < length (px_fds r)" for i
    using poll_index [OF assms(1) that] assms(2) by auto
  show "poll_ok ?r"
    using assms no by (auto simp: poll_ok_def poll_add_def nth_append less_Suc_eq split: if_splits)
  have "poll_interest ?r g = ((poll_interest r)(fd \<mapsto> wants flags token)) g" for g
  proof (cases "px_index r g")
    case (Some a)
    then have "a < length (px_fds r)" using poll_okD(2) [OF assms(1), of g a] by blast
    then show ?thesis
      using Some poll_okD(1) [OF assms(1)] by (auto simp: poll_interest_def poll_add_def nth_append to_events_interest)
  qed (use poll_okD(1) [OF assms(1)] in \<open>auto simp: poll_interest_def poll_add_def to_events_interest nth_append\<close>)
  then show "poll_interest ?r = (poll_interest r)(fd \<mapsto> wants flags token)" by (rule ext)
qed

lemma poll_mod_ok:
  assumes "poll_ok r" "px_index r fd = Some i"
  shows "poll_ok (snd (poll_mod fd flags token r))"
    "poll_interest (snd (poll_mod fd flags token r)) = (poll_interest r)(fd \<mapsto> wants flags token)"
proof -
  let ?r = "snd (poll_mod fd flags token r)"
  have i: "i < length (px_fds r)" "pf_fd (px_fds r ! i) = fd" using poll_okD(2) [OF assms(1)] assms(2) by blast+
  have m: "?r = r\<lparr>px_fds := (px_fds r)[i := (px_fds r ! i)\<lparr>pf_events := to_events flags\<rparr>],
    px_tokens := (px_tokens r)[i := token]\<rparr>" using assms(2) by (simp add: poll_mod_def)
  show "poll_ok ?r" using assms(1) i unfolding m by (auto simp: poll_ok_def nth_list_update)
  have "poll_interest ?r g = ((poll_interest r)(fd \<mapsto> wants flags token)) g" for g
  proof (cases "g = fd")
    case True
    then show ?thesis using assms(2) i poll_okD(1) [OF assms(1)] unfolding m by (simp add: poll_interest_def to_events_interest)
  next
    case False
    then have "px_index r g \<noteq> Some i" using poll_okD(2) [OF assms(1)] i by auto
    then show ?thesis using False unfolding m by (cases "px_index r g") (auto simp: poll_interest_def)
  qed
  then show "poll_interest ?r = (poll_interest r)(fd \<mapsto> wants flags token)" by (rule ext)
qed

text \<open>Removal moves the last entry into the gap.\<close>

lemma poll_del_ok:
  assumes ok: "poll_ok r" and idx: "px_index r fd = Some i"
  shows "poll_ok (snd (poll_del fd r))" "poll_interest (snd (poll_del fd r)) = (poll_interest r)(fd := None)"
proof -
  let ?r = "snd (poll_del fd r)" and ?n = "length (px_fds r) - 1"
  have len: "length (px_tokens r) = length (px_fds r)" by (rule poll_okD(1) [OF ok])
  note at = poll_okD(2) [OF ok]
  have i: "i < length (px_fds r)" "pf_fd (px_fds r ! i) = fd" using at idx by blast+
  have n: "?n < length (px_fds r)" using i(1) by simp
  have f: "px_fds ?r ! j = (if j = i then px_fds r ! ?n else px_fds r ! j)"
    "px_tokens ?r ! j = (if j = i then px_tokens r ! ?n else px_tokens r ! j)" if "j < ?n" for j
    using that idx len by (auto simp: poll_del_def Let_def nth_butlast)
  have l: "length (px_fds ?r) = ?n" "length (px_tokens ?r) = ?n" using idx len by (auto simp: poll_del_def Let_def)
  have x: "px_index ?r g = (if g = fd then None else if i \<noteq> ?n \<and> g = pf_fd (px_fds r ! ?n) then Some i else px_index r g)" for g
    using idx by (auto simp: poll_del_def Let_def)
  have other: "px_index r (pf_fd (px_fds r ! j)) = Some j" if "j < length (px_fds r)" for j using at that by blast
  have iff: "px_index ?r g = Some j \<longleftrightarrow> j < ?n \<and> pf_fd (px_fds ?r ! j) = g" for g j
  proof (cases "j < ?n")
    case True
    have "j < length (px_fds r)" using True by simp
    then show ?thesis
      using True i n poll_inj [OF ok] unfolding x f(1) [OF True] by (auto simp: at)
  next
    case False
    then have "j < length (px_fds r) \<Longrightarrow> j = ?n" by simp
    then have "px_index ?r g \<noteq> Some j" using i n at [of g j] False unfolding x by auto
    then show ?thesis using False by simp
  qed
  then show "poll_ok ?r" by (simp add: poll_ok_def l)
  have "poll_interest ?r g = ((poll_interest r)(fd := None)) g" for g
  proof (cases "px_index ?r g")
    case None
    then show ?thesis using x [of g] by (auto simp: poll_interest_def split: if_splits)
  next
    case (Some j)
    then have j: "j < ?n" using iff by blast
    have "g \<noteq> fd" using Some x by auto
    then show ?thesis
      using Some x [of g] f [OF j] other [OF n] i(2) at [of g i] by (auto simp: poll_interest_def split: if_splits)
  qed
  then show "poll_interest ?r = (poll_interest r)(fd := None)" by (rule ext)
qed

lemma poll_interest_None: "poll_interest r fd = None \<longleftrightarrow> px_index r fd = None"
  by (simp add: poll_interest_def)

lemma poll_flags_true: "fst (poll_add fd flags token r)" "fst (poll_mod fd flags token r)"
  "px_index r fd \<noteq> None \<Longrightarrow> fst (poll_del fd r)"
  by (auto simp: poll_add_def poll_mod_def poll_del_def Let_def split: option.splits)

interpretation poll: reactor poll_ops poll_ok poll_interest
proof
  fix r fd flags token b r'
  assume "poll_ok r" "poll_interest r fd = None" "rx_add poll_ops fd flags token r = (b, r')"
  then show "poll_ok r' \<and> b \<and> poll_interest r' = (poll_interest r)(fd \<mapsto> wants flags token)"
    using poll_add_ok [of r fd flags token] poll_flags_true(1) [of fd flags token r] by (simp add: poll_ops_def poll_interest_None)
next
  fix r fd flags token b r'
  assume "poll_ok r" "poll_interest r fd \<noteq> None" "rx_mod poll_ops fd flags token r = (b, r')"
  then show "poll_ok r' \<and> b \<and> poll_interest r' = (poll_interest r)(fd \<mapsto> wants flags token)"
    using poll_mod_ok [of r fd _ flags token] poll_flags_true(2) [of fd flags token r] by (auto simp: poll_ops_def poll_interest_None)
next
  fix r fd b r'
  assume "poll_ok r" "poll_interest r fd \<noteq> None" "rx_del poll_ops fd r = (b, r')"
  then show "poll_ok r' \<and> b \<and> poll_interest r' = (poll_interest r)(fd := None)"
    using poll_del_ok [of r fd] poll_flags_true(3) [of r fd] by (auto simp: poll_ops_def poll_interest_None)
qed

subsection \<open>The epoll back end\<close>

text \<open>The manual's \<open>epoll_ctl\<close>: ADD of a descriptor that is not in the interest list puts it there, MOD changes the
  entry of one that is, DEL removes it.\<close>

definition kernel_ok :: "'k epoll_ctl \<Rightarrow> ('k \<Rightarrow> int \<Rightarrow> (mask \<times> u64) option) \<Rightarrow> bool" where
  "kernel_ok K view \<longleftrightarrow> (\<forall>fd ev token k.
     (view k fd = None \<longrightarrow> (\<exists>k'. K EPOLL_CTL_ADD fd ev token k = (True, k') \<and> view k' = (view k)(fd \<mapsto> (ev, token)))) \<and>
     (view k fd \<noteq> None \<longrightarrow> (\<exists>k'. K EPOLL_CTL_MOD fd ev token k = (True, k') \<and> view k' = (view k)(fd \<mapsto> (ev, token)))) \<and>
     (view k fd \<noteq> None \<longrightarrow> (\<exists>k'. K EPOLL_CTL_DEL fd ev token k = (True, k') \<and> view k' = (view k)(fd := None))))"

definition epoll_interest :: "('k \<Rightarrow> int \<Rightarrow> (mask \<times> u64) option) \<Rightarrow> 'k \<Rightarrow> int \<Rightarrow> interest option" where
  "epoll_interest view k fd = map_option (\<lambda>(ev, token). events_interest ev token) (view k fd)"

lemma epoll_interest_upd: "view k' = (view k)(fd := x) \<Longrightarrow>
    epoll_interest view k' = (epoll_interest view k)(fd := map_option (\<lambda>(ev, token). events_interest ev token) x)"
  by (auto simp: epoll_interest_def)

lemma kernel_calls:
  assumes "kernel_ok K view"
  shows "view k fd = None \<Longrightarrow> K EPOLL_CTL_ADD fd ev token k = (b, k') \<Longrightarrow> b \<and> view k' = (view k)(fd \<mapsto> (ev, token))"
    "view k fd \<noteq> None \<Longrightarrow> K EPOLL_CTL_MOD fd ev token k = (b, k') \<Longrightarrow> b \<and> view k' = (view k)(fd \<mapsto> (ev, token))"
    "view k fd \<noteq> None \<Longrightarrow> K EPOLL_CTL_DEL fd ev token k = (b, k') \<Longrightarrow> b \<and> view k' = (view k)(fd := None)"
  using assms unfolding kernel_ok_def by (metis Pair_inject)+

lemma epoll_ctl_events: "epoll_ctl_call K oper fd flags token k = K oper fd (to_events flags) token k"
  by (simp add: epoll_ctl_call_def to_events_def)

lemma epoll_reactor:
  assumes "kernel_ok K view"
  shows "reactor (epoll_ops K) (\<lambda>_. True) (epoll_interest view)"
proof
  note ev = epoll_ops_def epoll_ctl_events epoll_interest_def
  fix k fd flags token b k'
  assume "epoll_interest view k fd = None" "rx_add (epoll_ops K) fd flags token k = (b, k')"
  then have "view k fd = None" "K EPOLL_CTL_ADD fd (to_events flags) token k = (b, k')" by (simp_all add: ev)
  from kernel_calls(1) [OF assms this]
  show "True \<and> b \<and> epoll_interest view k' = (epoll_interest view k)(fd \<mapsto> wants flags token)"
    using epoll_interest_upd [of view k' k fd] by (simp add: to_events_interest)
next
  note ev = epoll_ops_def epoll_ctl_events epoll_interest_def
  fix k fd flags token b k'
  assume "epoll_interest view k fd \<noteq> None" "rx_mod (epoll_ops K) fd flags token k = (b, k')"
  then have "view k fd \<noteq> None" "K EPOLL_CTL_MOD fd (to_events flags) token k = (b, k')" by (simp_all add: ev)
  from kernel_calls(2) [OF assms this]
  show "True \<and> b \<and> epoll_interest view k' = (epoll_interest view k)(fd \<mapsto> wants flags token)"
    using epoll_interest_upd [of view k' k fd] by (simp add: to_events_interest)
next
  fix k fd b k'
  assume "epoll_interest view k fd \<noteq> None" "rx_del (epoll_ops K) fd k = (b, k')"
  then have "view k fd \<noteq> None" "K EPOLL_CTL_DEL fd 0 0 k = (b, k')" by (simp_all add: epoll_ops_def epoll_interest_def)
  from kernel_calls(3) [OF assms this]
  show "True \<and> b \<and> epoll_interest view k' = (epoll_interest view k)(fd := None)"
    using epoll_interest_upd [of view k' k fd] by simp
qed

subsection \<open>What poll reports\<close>

lemma poll_collect_sound:
  "e \<in> set (poll_collect k xs) \<Longrightarrow> \<exists>p token re. (p, token, re) \<in> set xs \<and> re \<noteq> 0 \<and>
     e = \<lparr>re_fd = pf_fd p, re_token = token, re_flags = from_revents re\<rparr>"
  by (induction k xs rule: poll_collect.induct) (auto split: if_splits)

lemma poll_collect_complete:
  "length (filter (\<lambda>(p, token, re). re \<noteq> 0) xs) \<le> k \<Longrightarrow> poll_collect k xs =
     map (\<lambda>(p, token, re). \<lparr>re_fd = pf_fd p, re_token = token, re_flags = from_revents re\<rparr>)
       (filter (\<lambda>(p, token, re). re \<noteq> 0) xs)"
  by (induction k xs rule: poll_collect.induct) (auto simp: filter_empty_conv)

lemma poll_collect_length: "length (poll_collect k xs) \<le> k"
  by (induction k xs rule: poll_collect.induct) auto

subsection \<open>Tokens\<close>

lemma tag_mask: "kTagConn = mask 2" "kTagMask = mask 2"
  by (simp_all add: tag_defs mask_eq_decr_exp)

lemma token_tag: "and (encode_conn_token cid) kTagMask = kTagConn"
  unfolding encode_conn_token_def tag_mask by (rule bit_word_eqI) (auto simp: bit_simps)

lemma token_id:
  assumes "take_bit 62 cid = cid"
  shows "drop_bit 2 (encode_conn_token cid) = cid"
proof (rule bit_word_eqI)
  fix n assume "n < LENGTH(64)"
  moreover have "bit cid n \<Longrightarrow> n < 62" by (metis assms bit_take_bit_iff)
  ultimately show "bit (drop_bit 2 (encode_conn_token cid)) n \<longleftrightarrow> bit cid n"
    unfolding encode_conn_token_def tag_mask by (auto simp: bit_simps)
qed

end
