(* ===== verification/Event_Loop.thy ===== *)
theory Event_Loop
  imports Cluster_Safe Reactor_Correct
begin

section \<open>The event loop of a shard (\<^verbatim>\<open>src/server/shard.cpp\<close>)\<close>

text \<open>
  The thread of a shard waits for events, handles each by the tag of its token, runs the closures in its mailbox and
  does its periodic work. Its state beside the node is its reactor, the descriptor of each connection and the counter
  of its waker. The operations take the reactor's operations as an argument, as the code goes through virtual calls.
\<close>

subsection \<open>The thread\<close>

record 'r thread =
  th_reactor :: 'r
  th_fd :: "nat \<Rightarrow> int"
  th_listen :: int
  th_wake :: int
  th_count :: u64

text \<open>What \<open>run\<close> registers before its loop.\<close>

definition run_start :: "'r reactor_ops \<Rightarrow> int \<Rightarrow> int \<Rightarrow> 'r \<Rightarrow> 'r thread" where
  "run_start R listen wake r =
     (let r1 = snd (rx_add R listen kRead kTagListen r); r2 = snd (rx_add R wake kRead kTagWake r1)
      in \<lparr>th_reactor = r2, th_fd = (\<lambda>_. - 1), th_listen = listen, th_wake = wake, th_count = 0\<rparr>)"

definition conn_token :: "nat \<Rightarrow> u64" where
  "conn_token cid = encode_conn_token (word_of_nat cid)"

text \<open>The flags that \<open>update_interest\<close> registers.\<close>

definition conn_flags :: "conn \<Rightarrow> u32" where
  "conn_flags c = (if cn_want_write c then or kRead kWrite else kRead)"

subsection \<open>Accepting\<close>

text \<open>The loop of \<open>on_listen_ready\<close> over the answers of \<open>accept\<close>; a negative one ends it.\<close>

fun on_listen_ready :: "'r reactor_ops \<Rightarrow> nat \<Rightarrow> int list \<Rightarrow> cluster \<times> 'r thread \<Rightarrow> cluster \<times> 'r thread" where
  "on_listen_ready R i [] s = s"
| "on_listen_ready R i (fd # fds) (cl, th) =
     (if fd < 0 then (cl, th)
      else
        let cid = nd_next_conn (cl i)
        in on_listen_ready R i fds
             (cl(i := accept_one (cl i)),
              th\<lparr>th_fd := (th_fd th)(cid := fd),
                 th_reactor := snd (rx_add R fd kRead (conn_token cid) (th_reactor th))\<rparr>))"

subsection \<open>Connections\<close>

text \<open>The calls to the reactor that handling a connection makes: \<open>update_interest\<close> gives it the flags of the connection
  as they are in the end (a connection that is closed has nothing left to write), \<open>close_conn\<close> removes it.\<close>

definition sync_reactor :: "'r reactor_ops \<Rightarrow> nat \<Rightarrow> bool \<Rightarrow> node \<Rightarrow> node \<Rightarrow> 'r thread \<Rightarrow> 'r thread" where
  "sync_reactor R cid touched nd nd' th =
     (if nd_conns nd cid = None then th
      else
        let fd = th_fd th cid;
            flags = (case nd_conns nd' cid of Some c \<Rightarrow> conn_flags c | None \<Rightarrow> kRead);
            r1 = (if touched then snd (rx_mod R fd flags (conn_token cid) (th_reactor th)) else th_reactor th);
            r2 = (if nd_conns nd' cid = None then snd (rx_del R fd r1) else r1)
        in th\<lparr>th_reactor := r2\<rparr>)"

definition flags_event :: "u32 \<Rightarrow> ready_event" where
  "flags_event f = \<lparr>ev_error = (and f kError \<noteq> 0), ev_read = (and f kRead \<noteq> 0), ev_write = (and f kWrite \<noteq> 0)\<rparr>"

text \<open>What the system answers while an event is handled. Which descriptors \<open>accept\<close> gives may depend on those in use.\<close>

record 'r event_env =
  ee_exec :: "nat \<Rightarrow> exec_env"
  ee_accepts :: "'r thread \<Rightarrow> int list"
  ee_reads :: "read_result list"
  ee_writes :: "send_result list"
  ee_writes' :: "send_result list"

definition handle_event ::
  "'r reactor_ops \<Rightarrow> nat \<Rightarrow> nat \<Rightarrow> cluster \<times> 'r thread \<Rightarrow> reported \<times> 'r event_env \<Rightarrow> cluster \<times> 'r thread" where
  "handle_event R n i s x =
     (let (cl, th) = s; (e, E) = x; tok = re_token e; tag = and tok kTagMask in
      if tag = kTagListen then on_listen_ready R i (ee_accepts E th) (cl, th)
      else if tag = kTagWake then (cl, th\<lparr>th_count := waker_drain (th_count th)\<rparr>)
      else if tag = kTagConn then
        let cid = unat (drop_bit 2 tok); ev = flags_event (re_flags e);
            (nd, posts) = on_conn_ready (ee_exec E) n (ee_reads E) (ee_writes E) (ee_writes' E) ev cid (cl i)
        in (deliver (cl(i := nd)) posts,
            sync_reactor R cid (\<not> ev_error ev \<and> (ev_read ev \<or> ev_write ev)) (cl i) nd th)
      else (cl, th))"

subsection \<open>The mailbox\<close>

text \<open>Whether running a closure comes to \<open>handle_writable\<close>: the connection and the slot must still be there.\<close>

definition completes :: "msg \<Rightarrow> node \<Rightarrow> (nat \<times> bool) option" where
  "completes m nd =
     (case m of
        Complete cid seq i reply is_int v \<Rightarrow>
          Some (cid, case nd_conns nd cid of None \<Rightarrow> False | Some c \<Rightarrow> map_of (cn_pipeline c) seq \<noteq> None)
      | _ \<Rightarrow> None)"

fun drain_mailbox ::
  "'r reactor_ops \<Rightarrow> nat \<Rightarrow> nat \<Rightarrow> (exec_env \<times> send_result list) list \<Rightarrow> cluster \<times> 'r thread \<Rightarrow> cluster \<times> 'r thread" where
  "drain_mailbox R n i [] s = s"
| "drain_mailbox R n i ((X, ws) # Es) (cl, th) =
     (case nd_mailbox (cl i) of
        [] \<Rightarrow> (cl, th)
      | m # rest \<Rightarrow>
          (let nd0 = (cl i)\<lparr>nd_mailbox := rest\<rparr>;
               (nd, posts) = run_message X ws m nd0;
               th' = (case completes m nd0 of None \<Rightarrow> th | Some (cid, touched) \<Rightarrow> sync_reactor R cid touched nd0 nd th)
           in drain_mailbox R n i Es (deliver (cl(i := nd)) posts, th')))"

subsection \<open>An iteration\<close>

record 'r iteration =
  it_events :: "(reported \<times> 'r event_env) list"
  it_messages :: "(exec_env \<times> send_result list) list"
  it_cfg :: config
  it_times :: cron_env

definition run_iteration :: "'r reactor_ops \<Rightarrow> nat \<Rightarrow> nat \<Rightarrow> 'r iteration \<Rightarrow> cluster \<times> 'r thread \<Rightarrow> cluster \<times> 'r thread" where
  "run_iteration R n i I s =
     (let s1 = foldl (handle_event R n i) s (it_events I);
          (cl, th) = drain_mailbox R n i (it_messages I) s1
      in (cl(i := (cl i)\<lparr>nd_shard := cron (it_cfg I) (it_times I) (nd_shard (cl i))\<rparr>), th))"

section \<open>The event loop runs the cluster's steps and watches what it must\<close>

text \<open>
  An iteration of the loop is a sequence of the steps by which the cluster was defined, so what holds of the cluster
  holds of the running server. And the reactor always watches each connection for input, and for output exactly while
  bytes wait in its buffer: no reply is stuck behind a missing registration.
\<close>

subsection \<open>Iterations are sequences of steps\<close>

lemma on_listen_steps:
  assumes "i < n"
  shows "(step n)\<^sup>*\<^sup>* (fst s) (fst (on_listen_ready R i fds s))"
  using assms
proof (induction R i fds s rule: on_listen_ready.induct)
  case (2 R i fd fds cl th)
  show ?case
  proof (cases "fd < 0")
    case False
    from 2(1) [OF False refl 2(2)] have "(step n)\<^sup>*\<^sup>* (cl(i := accept_one (cl i))) (fst (on_listen_ready R i (fd # fds) (cl, th)))"
      using False by (simp add: Let_def del: fun_upd_apply)
    moreover have "step n cl (cl(i := accept_one (cl i)))" by (rule step.accept [OF 2(2)])
    ultimately show ?thesis by simp
  qed simp
qed simp

lemma handle_event_steps:
  assumes "i < n"
  shows "(step n)\<^sup>*\<^sup>* (fst s) (fst (handle_event R n i s x))"
proof -
  obtain cl th e E where s: "s = (cl, th)" "x = (e, E)" by (metis prod.exhaust)
  consider "and (re_token e) kTagMask = kTagListen" | "and (re_token e) kTagMask = kTagWake"
    | "and (re_token e) kTagMask = kTagConn"
    | "and (re_token e) kTagMask \<noteq> kTagListen" "and (re_token e) kTagMask \<noteq> kTagWake" "and (re_token e) kTagMask \<noteq> kTagConn"
    by blast
  then show ?thesis
  proof cases
    case 1
    then show ?thesis using on_listen_steps [OF assms, of "(cl, th)" R "ee_accepts E th"] by (simp add: handle_event_def s Let_def)
  next
    case 2
    then show ?thesis by (simp add: handle_event_def s Let_def tag_defs)
  next
    case 3
    obtain nd posts where r: "on_conn_ready (ee_exec E) n (ee_reads E) (ee_writes E) (ee_writes' E) (flags_event (re_flags e))
      (unat (drop_bit 2 (re_token e))) (cl i) = (nd, posts)" by fastforce
    have "step n cl (deliver (cl(i := nd)) posts)" by (rule step.ready [where cl = cl and i = i, OF assms r])
    then show ?thesis using 3 r by (simp add: handle_event_def s Let_def tag_defs)
  next
    case 4
    then show ?thesis by (simp add: handle_event_def s Let_def)
  qed
qed

lemma drain_steps:
  assumes "i < n"
  shows "(step n)\<^sup>*\<^sup>* (fst s) (fst (drain_mailbox R n i Es s))"
proof (induction Es arbitrary: s)
  case (Cons E Es)
  obtain X ws cl th where s: "E = (X, ws)" "s = (cl, th)" by (metis prod.exhaust)
  show ?case
  proof (cases "nd_mailbox (cl i)")
    case (Cons m rest)
    obtain nd posts where r: "run_message X ws m ((cl i)\<lparr>nd_mailbox := rest\<rparr>) = (nd, posts)" by fastforce
    have "step n cl (deliver (cl(i := nd)) posts)" by (rule step.message [where rest = rest and cl = cl and i = i and m = m, OF assms Cons r])
    moreover have "(step n)\<^sup>*\<^sup>* (fst (deliver (cl(i := nd)) posts, th')) (fst (drain_mailbox R n i Es (deliver (cl(i := nd)) posts, th')))" for th'
      by (rule Cons.IH)
    ultimately show ?thesis using Cons r by (auto simp: s Let_def intro: converse_rtranclp_into_rtranclp)
  qed (simp add: s)
qed simp

lemma run_iteration_steps:
  assumes "i < n"
  shows "(step n)\<^sup>*\<^sup>* (fst s) (fst (run_iteration R n i I s))"
proof -
  have e: "(step n)\<^sup>*\<^sup>* (fst s) (fst (foldl (handle_event R n i) s xs))" for xs
  proof (induction xs arbitrary: s)
    case (Cons x xs)
    show ?case using rtranclp_trans [OF handle_event_steps [OF assms] Cons.IH] by simp
  qed simp
  obtain cl th where d: "drain_mailbox R n i (it_messages I) (foldl (handle_event R n i) s (it_events I)) = (cl, th)" by fastforce
  have "(step n)\<^sup>*\<^sup>* (fst s) cl"
    using e [of "it_events I"] drain_steps [OF assms, of "foldl (handle_event R n i) s (it_events I)" R "it_messages I"] d by simp
  moreover have "step n cl (cl(i := (cl i)\<lparr>nd_shard := cron (it_cfg I) (it_times I) (nd_shard (cl i))\<rparr>))"
    by (rule step.tick [OF assms])
  ultimately show ?thesis by (simp add: run_iteration_def d)
qed

lemma reach_steps: "(step n)\<^sup>*\<^sup>* cl cl' \<Longrightarrow> reach n cl \<Longrightarrow> reach n cl'"
  by (induction rule: rtranclp_induct) (auto intro: reach_step)

subsection \<open>What the handlers do to the connections\<close>

definition settled :: "conn \<Rightarrow> bool" where
  "settled c \<longleftrightarrow> (cn_want_write c \<longleftrightarrow> cn_sent c < length (cn_out c))"

definition conns_change :: "nat \<Rightarrow> bool \<Rightarrow> node \<Rightarrow> node \<Rightarrow> bool" where
  "conns_change cid touched nd nd' \<longleftrightarrow> nd_next_conn nd' = nd_next_conn nd \<and>
     (case nd_conns nd cid of
        None \<Rightarrow> nd_conns nd' = nd_conns nd
      | Some c \<Rightarrow> nd_conns nd' = (nd_conns nd)(cid := None) \<or>
          (\<exists>c'. nd_conns nd' = (nd_conns nd)(cid \<mapsto> c') \<and> (if touched then settled c' else c' = c)))"

lemma handle_writable_settled: "handle_writable ws c sh = (c', sh') \<Longrightarrow> settled c'"
  by (auto simp: handle_writable_def update_interest_def settled_def Let_def split: prod.splits)

lemma handle_readable_settled: "handle_readable X n rs ws c sh = (c', sh', posts) \<Longrightarrow> settled c'"
  by (auto simp: handle_readable_def Let_def split: prod.splits intro: handle_writable_settled)

lemma store_conn_change:
  "nd_conns nd cid = Some c \<Longrightarrow> cn_id c' = cid \<Longrightarrow> (if touched then settled c' else c' = c) \<Longrightarrow>
    conns_change cid touched nd (store_conn c' (nd\<lparr>nd_shard := sh\<rparr>))"
  by (auto simp: conns_change_def store_conn_def close_conn_def)

lemma on_conn_ready_change:
  assumes "node_inv i nd F" "i < n" "on_conn_ready X n rs ws ws' ev cid nd = (nd', posts)"
  shows "conns_change cid (\<not> ev_error ev \<and> (ev_read ev \<or> ev_write ev)) nd nd'"
proof (cases "nd_conns nd cid")
  case None
  then show ?thesis using assms(3) by (auto simp: on_conn_ready_def conns_change_def)
next
  case (Some c)
  note c = node_inv_conn [OF assms(1) Some]
  show ?thesis
  proof (cases "ev_error ev")
    case True
    then show ?thesis using assms(3) Some by (auto simp: on_conn_ready_def conns_change_def close_conn_def)
  next
    case False
    obtain c1 sh1 ps where r: "(if ev_read ev then handle_readable X n rs ws c (nd_shard nd) else (c, nd_shard nd, [])) = (c1, sh1, ps)"
      by (metis prod_cases3)
    obtain c2 sh2 where w: "(if ev_write ev then handle_writable ws' c1 sh1 else (c1, sh1)) = (c2, sh2)" by fastforce
    have eq: "nd' = store_conn c2 (nd\<lparr>nd_shard := sh2\<rparr>)"
      using assms(3) Some False r w by (auto simp: on_conn_ready_def)
    have id: "sh_id (nd_shard nd) = i" using assms(1) by (simp add: node_inv_def)
    have "cn_id c1 = cid"
      using handle_readable_served(1) [of c "F cid" "nd_shard nd" i n X rs ws c1 sh1 ps] c id assms(2) r
      by (auto simp: served_def split: if_splits)
    then have "cn_id c2 = cid" using handle_writable_same [of ws' c1 sh1 c2 sh2] w by (auto simp: same_conn_def split: if_splits)
    moreover have "if ev_read ev \<or> ev_write ev then settled c2 else c2 = c"
      using r w by (auto intro: handle_writable_settled handle_readable_settled split: if_splits)
    ultimately show ?thesis using store_conn_change [OF Some, of c2] False unfolding eq by simp
  qed
qed

lemma run_message_change:
  assumes "node_inv i nd F" "run_message X ws m nd = (nd', posts)"
  shows "case completes m nd of None \<Rightarrow> nd_conns nd' = nd_conns nd \<and> nd_next_conn nd' = nd_next_conn nd
    | Some (cid, touched) \<Rightarrow> conns_change cid touched nd nd'"
proof (cases m)
  case (Complete cid seq j reply b v)
  then have nd': "nd' = complete_fragment ws cid seq j reply b v nd" using assms(2) by (simp add: run_message_def)
  show ?thesis
  proof (cases "nd_conns nd cid")
    case None
    then show ?thesis using Complete nd' by (simp add: completes_def complete_fragment_def conns_change_def)
  next
    case (Some c)
    note c = node_inv_conn [OF assms(1) Some]
    show ?thesis
    proof (cases "map_of (cn_pipeline c) seq")
      case None
      then show ?thesis using Some Complete nd' by (auto simp: completes_def complete_fragment_def conns_change_def)
    next
      case pr: (Some pr)
      let ?c = "flush_ready (put_slot seq (add_fragment j reply b v pr) c)"
      obtain c2 sh where w: "handle_writable ws ?c (nd_shard nd) = (c2, sh)" by fastforce
      have "cn_id c2 = cid" using handle_writable_same [OF w] c by (simp add: same_conn_def)
      then have "conns_change cid True nd (store_conn c2 (nd\<lparr>nd_shard := sh\<rparr>))"
        using store_conn_change [OF Some, of c2 True] handle_writable_settled [OF w] by simp
      then show ?thesis using Some pr w Complete nd' by (simp add: completes_def complete_fragment_def)
    qed
  qed
qed (use assms(2) in \<open>auto simp: completes_def run_message_def split: prod.splits\<close>)

subsection \<open>What the reactor watches\<close>

definition watches :: "('r \<Rightarrow> bool) \<Rightarrow> ('r \<Rightarrow> int \<Rightarrow> interest option) \<Rightarrow> node \<Rightarrow> 'r thread \<Rightarrow> bool" where
  "watches rok interest nd th \<longleftrightarrow> rok (th_reactor th) \<and> th_listen th \<noteq> th_wake th \<and>
     interest (th_reactor th) (th_listen th) = Some (wants kRead kTagListen) \<and>
     interest (th_reactor th) (th_wake th) = Some (wants kRead kTagWake) \<and>
     (\<forall>cid c. nd_conns nd cid = Some c \<longrightarrow> cid < nd_next_conn nd \<and> settled c \<and>
        th_fd th cid \<noteq> th_listen th \<and> th_fd th cid \<noteq> th_wake th \<and>
        interest (th_reactor th) (th_fd th cid) = Some (wants (conn_flags c) (conn_token cid))) \<and>
     inj_on (th_fd th) (dom (nd_conns nd)) \<and>
     (\<forall>fd. interest (th_reactor th) fd \<noteq> None \<longrightarrow> fd = th_listen th \<or> fd = th_wake th \<or> fd \<in> th_fd th ` dom (nd_conns nd))"

lemma watches_cong:
  "nd_conns nd' = nd_conns nd \<Longrightarrow> nd_next_conn nd' = nd_next_conn nd \<Longrightarrow> th_reactor th' = th_reactor th \<Longrightarrow> th_fd th' = th_fd th \<Longrightarrow>
    th_listen th' = th_listen th \<Longrightarrow> th_wake th' = th_wake th \<Longrightarrow>
    watches rok interest nd' th' = watches rok interest nd th"
  by (simp add: watches_def)

text \<open>The thread keeps its listening socket and its waker.\<close>

lemma on_listen_ports:
  "th_listen (snd (on_listen_ready R i fds s)) = th_listen (snd s) \<and> th_wake (snd (on_listen_ready R i fds s)) = th_wake (snd s)"
  by (induction R i fds s rule: on_listen_ready.induct) (simp_all add: Let_def)

lemma sync_ports [simp]: "th_listen (sync_reactor R cid b nd nd' th) = th_listen th" "th_wake (sync_reactor R cid b nd nd' th) = th_wake th"
  by (simp_all add: sync_reactor_def Let_def)

lemma handle_event_ports:
  "th_listen (snd (handle_event R n i s x)) = th_listen (snd s) \<and> th_wake (snd (handle_event R n i s x)) = th_wake (snd s)"
  using on_listen_ports [of R i _ "(fst s, snd s)"]
  by (auto simp: handle_event_def Let_def split: prod.splits)

lemma drain_ports:
  "th_listen (snd (drain_mailbox R n i Es s)) = th_listen (snd s) \<and> th_wake (snd (drain_mailbox R n i Es s)) = th_wake (snd s)"
  by (induction R n i Es s rule: drain_mailbox.induct) (auto simp: Let_def split: list.splits prod.splits option.splits)

lemma run_iteration_ports:
  "th_listen (snd (run_iteration R n i I s)) = th_listen (snd s) \<and> th_wake (snd (run_iteration R n i I s)) = th_wake (snd s)"
proof -
  have "th_listen (snd (foldl (handle_event R n i) s xs)) = th_listen (snd s) \<and>
      th_wake (snd (foldl (handle_event R n i) s xs)) = th_wake (snd s)" for xs
    by (induction xs arbitrary: s) (simp_all add: handle_event_ports)
  then show ?thesis
    using drain_ports [of R n i "it_messages I" "foldl (handle_event R n i) s (it_events I)"]
    by (auto simp: run_iteration_def split: prod.split)
qed

text \<open>The system's part: \<open>accept\<close> gives descriptors that are not open, so none that the reactor watches.\<close>

definition fresh_env :: "('r \<Rightarrow> int \<Rightarrow> interest option) \<Rightarrow> 'r event_env \<Rightarrow> bool" where
  "fresh_env interest E \<longleftrightarrow> (\<forall>th. distinct (ee_accepts E th) \<and> (\<forall>fd\<in>set (ee_accepts E th). interest (th_reactor th) fd = None))"

context reactor
begin

lemma accept_watches:
  assumes w: "watches rok interest nd th" and fd: "interest (th_reactor th) fd = None"
  shows "watches rok interest (accept_one nd) (th\<lparr>th_fd := (th_fd th)(nd_next_conn nd := fd),
      th_reactor := snd (rx_add R fd kRead (conn_token (nd_next_conn nd)) (th_reactor th))\<rparr>)"
proof -
  let ?cid = "nd_next_conn nd" and ?r = "snd (rx_add R fd kRead (conn_token (nd_next_conn nd)) (th_reactor th))"
  have a: "rok ?r" "interest ?r = (interest (th_reactor th))(fd \<mapsto> wants kRead (conn_token ?cid))"
    using add_snd [of "th_reactor th" fd kRead "conn_token ?cid"] w fd by (auto simp: watches_def)
  have n: "fd \<noteq> th_listen th" "fd \<noteq> th_wake th" using w fd by (auto simp: watches_def)
  have o: "th_fd th cid \<noteq> fd" if "nd_conns nd cid = Some c" for cid c using w fd that by (auto simp: watches_def)
  have lt: "cid < ?cid" if "nd_conns nd cid = Some c" for cid c using w that by (auto simp: watches_def)
  have new: "settled (conn_new ?cid)" "conn_flags (conn_new ?cid) = kRead" by (simp_all add: settled_def conn_new_def conn_flags_def)
  have inj: "inj_on ((th_fd th)(?cid := fd)) (insert ?cid (dom (nd_conns nd)))"
    using w o lt by (auto simp: watches_def inj_on_def)
  show ?thesis
    using w n o lt new inj unfolding watches_def accept_one_def by (auto simp: a less_Suc_eq) blast+
qed

lemma on_listen_watches:
  assumes "watches rok interest (fst s i) (snd s)" "distinct fds" "\<forall>fd\<in>set fds. interest (th_reactor (snd s)) fd = None"
  shows "watches rok interest (fst (on_listen_ready R i fds s) i) (snd (on_listen_ready R i fds s))"
  using assms
proof (induction fds arbitrary: s)
  case (Cons fd fds)
  obtain cl th where s: "s = (cl, th)" by fastforce
  show ?case
  proof (cases "fd < 0")
    case False
    let ?cid = "nd_next_conn (cl i)"
    let ?th = "th\<lparr>th_fd := (th_fd th)(?cid := fd), th_reactor := snd (rx_add R fd kRead (conn_token ?cid) (th_reactor th))\<rparr>"
    have w: "watches rok interest (cl i) th" and fd: "interest (th_reactor th) fd = None" using Cons.prems by (simp_all add: s)
    have "interest (th_reactor ?th) = (interest (th_reactor th))(fd \<mapsto> wants kRead (conn_token ?cid))"
      using add_snd [of "th_reactor th" fd kRead "conn_token ?cid"] w fd by (simp add: watches_def)
    moreover have "watches rok interest ((cl(i := accept_one (cl i))) i) ?th" using accept_watches [OF w fd] by simp
    ultimately have "watches rok interest (fst (on_listen_ready R i fds (cl(i := accept_one (cl i)), ?th)) i)
        (snd (on_listen_ready R i fds (cl(i := accept_one (cl i)), ?th)))"
      using Cons.prems by (intro Cons.IH) (auto simp: s)
    then show ?thesis using False by (simp add: s Let_def del: fun_upd_apply)
  qed (use Cons.prems in \<open>simp add: s\<close>)
qed simp

lemma sync_watches:
  assumes w: "watches rok interest nd th" and ch: "conns_change cid touched nd nd'"
  shows "watches rok interest nd' (sync_reactor R cid touched nd nd' th)"
proof (cases "nd_conns nd cid")
  case None
  then show ?thesis
    using w ch watches_cong [of nd' nd th th] by (simp add: sync_reactor_def conns_change_def)
next
  case (Some c)
  let ?fd = "th_fd th cid" and ?r = "th_reactor th"
  define flags where "flags = (case nd_conns nd' cid of Some c \<Rightarrow> conn_flags c | None \<Rightarrow> kRead)"
  define r1 where "r1 = (if touched then snd (rx_mod R ?fd flags (conn_token cid) ?r) else ?r)"
  have i: "interest ?r ?fd = Some (wants (conn_flags c) (conn_token cid))" and ok: "rok ?r"
    and n: "?fd \<noteq> th_listen th" "?fd \<noteq> th_wake th" using w Some by (auto simp: watches_def)
  have r1: "rok r1" "interest r1 = (if touched then (interest ?r)(?fd \<mapsto> wants flags (conn_token cid)) else interest ?r)"
    using mod_snd [OF ok, of ?fd flags "conn_token cid"] i ok by (auto simp: r1_def)
  have inj: "th_fd th d \<noteq> ?fd" if "nd_conns nd d = Some e" "d \<noteq> cid" for d e
  proof -
    have "inj_on (th_fd th) (dom (nd_conns nd))" using w by (simp add: watches_def)
    from inj_onD [OF this, of d cid] that Some show ?thesis by blast
  qed
  from ch Some consider "nd_conns nd' = (nd_conns nd)(cid := None)" "nd_next_conn nd' = nd_next_conn nd"
    | c' where "nd_conns nd' = (nd_conns nd)(cid \<mapsto> c')" "if touched then settled c' else c' = c" "nd_next_conn nd' = nd_next_conn nd"
    unfolding conns_change_def by auto
  then show ?thesis
  proof cases
    case 1
    have s: "sync_reactor R cid touched nd nd' th = th\<lparr>th_reactor := snd (rx_del R ?fd r1)\<rparr>"
      using Some 1(1) by (simp add: sync_reactor_def flags_def r1_def Let_def)
    have "interest r1 ?fd \<noteq> None" using r1(2) i by (auto simp: wants_def)
    from del_snd [OF r1(1) this] have d: "rok (snd (rx_del R ?fd r1))" "interest (snd (rx_del R ?fd r1)) = (interest ?r)(?fd := None)"
      using r1(2) by auto
    have "inj_on (th_fd th) (dom (nd_conns nd) - {cid})" using w by (auto simp: watches_def intro: inj_on_subset)
    then show ?thesis unfolding s using w n inj by (auto simp: watches_def d 1 image_iff Bex_def domIff) (metis option.distinct(1))
  next
    case (2 c')
    have s: "sync_reactor R cid touched nd nd' th = th\<lparr>th_reactor := r1\<rparr>"
      using Some 2(1) by (simp add: sync_reactor_def flags_def r1_def Let_def)
    have f: "flags = conn_flags c'" by (simp add: flags_def 2(1))
    have i1: "interest r1 = (interest ?r)(?fd \<mapsto> wants (conn_flags c') (conn_token cid))"
      using r1(2) 2(2) i f by (auto simp: fun_eq_iff wants_def)
    have "settled c'" using 2(2) w Some by (auto simp: watches_def split: if_splits)
    moreover have "insert cid (dom (nd_conns nd)) = dom (nd_conns nd)" using Some by auto
    ultimately show ?thesis
      unfolding s using w n n [symmetric] inj Some r1(1) by (auto simp: watches_def i1 2)
  qed
qed

lemma handle_event_watches:
  assumes w: "watches rok interest (fst s i) (snd s)" and r: "reach n (fst s)" "i < n" and f: "fresh_env interest (snd x)"
  shows "watches rok interest (fst (handle_event R n i s x) i) (snd (handle_event R n i s x))"
proof -
  obtain cl th e E where s: "s = (cl, th)" "x = (e, E)" by (metis prod.exhaust)
  consider "and (re_token e) kTagMask = kTagListen" | "and (re_token e) kTagMask = kTagWake"
    | "and (re_token e) kTagMask = kTagConn"
    | "and (re_token e) kTagMask \<noteq> kTagListen" "and (re_token e) kTagMask \<noteq> kTagWake" "and (re_token e) kTagMask \<noteq> kTagConn"
    by blast
  then show ?thesis
  proof cases
    case 1
    then show ?thesis using on_listen_watches [of "(cl, th)" i "ee_accepts E th"] w f
      by (simp add: handle_event_def s Let_def fresh_env_def)
  next
    case 2
    then show ?thesis using w watches_cong [of "cl i" "cl i" "th\<lparr>th_count := waker_drain (th_count th)\<rparr>" th]
      by (simp add: handle_event_def s Let_def tag_defs)
  next
    case 3
    let ?cid = "unat (drop_bit 2 (re_token e))" and ?ev = "flags_event (re_flags e)"
    obtain nd posts where c: "on_conn_ready (ee_exec E) n (ee_reads E) (ee_writes E) (ee_writes' E) ?ev ?cid (cl i) = (nd, posts)"
      by fastforce
    have "node_inv i (cl i) (flights n cl i)"
      using r by (intro cluster_inv_node reach_inv) (simp_all add: s)
    from sync_watches [OF _ on_conn_ready_change [OF this r(2) c]] w
    have "watches rok interest nd (sync_reactor R ?cid (\<not> ev_error ?ev \<and> (ev_read ?ev \<or> ev_write ?ev)) (cl i) nd th)"
      by (simp add: s)
    then have "watches rok interest (deliver (cl(i := nd)) posts i) (sync_reactor R ?cid (\<not> ev_error ?ev \<and> (ev_read ?ev \<or> ev_write ?ev)) (cl i) nd th)"
      by (subst watches_cong) simp_all
    then show ?thesis using 3 c by (simp add: handle_event_def s Let_def tag_defs)
  next
    case 4
    then show ?thesis using w by (simp add: handle_event_def s Let_def)
  qed
qed

lemma drain_watches:
  assumes "watches rok interest (fst s i) (snd s)" "reach n (fst s)" "i < n"
  shows "watches rok interest (fst (drain_mailbox R n i Es s) i) (snd (drain_mailbox R n i Es s))"
  using assms(1,2)
proof (induction Es arbitrary: s)
  case (Cons E Es)
  obtain X ws cl th where s: "E = (X, ws)" "s = (cl, th)" by (metis prod.exhaust)
  show ?case
  proof (cases "nd_mailbox (cl i)")
    case Nil
    then show ?thesis using Cons.prems by (simp add: s)
  next
    case m: (Cons m rest)
    let ?nd0 = "(cl i)\<lparr>nd_mailbox := rest\<rparr>"
    obtain nd posts where r: "run_message X ws m ?nd0 = (nd, posts)" by fastforce
    let ?cl = "deliver (cl(i := nd)) posts"
    define th' where "th' = (case completes m ?nd0 of None \<Rightarrow> th | Some (cid, touched) \<Rightarrow> sync_reactor R cid touched ?nd0 nd th)"
    have inv: "node_inv i (cl i) (flights n cl i)" using Cons.prems assms(3) by (intro cluster_inv_node reach_inv) (simp_all add: s)
    then have "node_inv i ?nd0 (flights n cl i)" by (simp add: node_inv_def)
    note ch = run_message_change [OF this r]
    have w0: "watches rok interest ?nd0 th" using Cons.prems by (subst watches_cong [of _ "cl i" _ th]) (simp_all add: s)
    have "watches rok interest nd th'"
    proof (cases "completes m ?nd0")
      case None
      then show ?thesis using ch w0 watches_cong [of nd ?nd0 th th] by (simp add: th'_def)
    next
      case (Some x)
      then show ?thesis using ch sync_watches [OF w0] by (cases x) (simp add: th'_def)
    qed
    then have "watches rok interest (?cl i) th'" by (subst watches_cong) simp_all
    moreover have "reach n ?cl"
      by (rule reach_step [OF _ step.message [where cl = cl and i = i, OF assms(3) m r]]) (use Cons.prems in \<open>simp add: s\<close>)
    ultimately have "watches rok interest (fst (drain_mailbox R n i Es (?cl, th')) i) (snd (drain_mailbox R n i Es (?cl, th')))"
      by (intro Cons.IH) simp_all
    then show ?thesis using m r by (simp add: s th'_def Let_def)
  qed
qed simp

lemma run_iteration_watches:
  assumes "watches rok interest (fst s i) (snd s)" "reach n (fst s)" "i < n" "\<forall>x\<in>set (it_events I). fresh_env interest (snd x)"
  shows "watches rok interest (fst (run_iteration R n i I s) i) (snd (run_iteration R n i I s))"
proof -
  have e: "watches rok interest (fst (foldl (handle_event R n i) s xs) i) (snd (foldl (handle_event R n i) s xs)) \<and>
      reach n (fst (foldl (handle_event R n i) s xs))" if "\<forall>x\<in>set xs. fresh_env interest (snd x)" for xs
    using that assms(1,2)
  proof (induction xs arbitrary: s)
    case (Cons x xs)
    then show ?case
      using handle_event_watches [of s i n x] assms(3) reach_steps [OF handle_event_steps [OF assms(3), of s R x]] by simp
  qed simp
  obtain cl th where d: "drain_mailbox R n i (it_messages I) (foldl (handle_event R n i) s (it_events I)) = (cl, th)" by fastforce
  have "watches rok interest (cl i) th"
    using drain_watches [of "foldl (handle_event R n i) s (it_events I)" i n "it_messages I"] e [OF assms(4)] assms(3) d by simp
  then show ?thesis by (simp add: run_iteration_def d) (subst watches_cong, simp_all)
qed

lemma run_start_watches:
  assumes "rok r" "interest r = Map.empty" "listen \<noteq> wake" "nd_conns nd = Map.empty"
  shows "watches rok interest nd (run_start R listen wake r)"
proof -
  let ?r1 = "snd (rx_add R listen kRead kTagListen r)"
  have 1: "rok ?r1" "interest ?r1 = [listen \<mapsto> wants kRead kTagListen]"
    using add_snd [OF assms(1), of listen kRead kTagListen] assms(2) by auto
  then show ?thesis
    using add_snd [OF 1(1), of wake kRead kTagWake] assms(3,4) by (auto simp: run_start_def watches_def Let_def split: if_splits)
qed

end

end
