(* ===== verification/Event_Props.thy ===== *)
theory Event_Props
  imports Event_Loop Reactor Cluster_Props
begin

section \<open>Properties of the event loop\<close>

text \<open>
  The loop against the cluster's steps, with the poll back end as the reactor, and the protocol between the mailbox and
  the waker.
\<close>

subsection \<open>Iterations\<close>






subsection \<open>Interest\<close>










subsection \<open>Waking a shard up\<close>



end
