(* ===== verification/Component_Props.thy ===== *)
theory Component_Props
  imports System_Props Command_Props Config
begin

section \<open>Properties of the components beside the keyspace\<close>

text \<open>
  Sorted sets, HyperLogLog registers, the vector index with its commands, the latency histogram and the
  configuration file, each on the definitions of its own theory.
\<close>

subsection \<open>Sorted sets\<close>

text \<open>C24. Sorted set commands: ZSCORE, ZCARD, ZREM and ZINCRBY act on the set as on a finite map from members
  to scores, whatever the two indexes (the table and the skip list) look like inside.\<close>

theorem sorted_set_commands_correct:
  assumes "ok c"
  shows "runs c (arg c 1) (spec_zscore F (arg c 2)) (cmd_zscore F c) \<and>
    runs c (arg c 1) spec_zcard (cmd_zcard c) \<and>
    runs c (arg c 1) (spec_zrem (drop 2 (c_argv c))) (cmd_zrem c) \<and>
    runs c (arg c 1) (spec_zincrby F (arg c 2) (arg c 3)) (cmd_zincrby F c)"
  by (intro conjI cmd_zscore_runs cmd_zcard_runs cmd_zrem_runs cmd_zincrby_runs assms)

theorem sorted_set_commands_correct_witness:
  "c_out (cmd_zrem (demo [''ZREM'', ''z'', ''m''])) = a_integer 0 \<and>
   c_out (cmd_zcard (demo [''ZCARD'', ''k''])) = a_wrong_type"
proof
  let ?c = "demo [''ZREM'', ''z'', ''m'']"
  have "runs ?c (arg ?c 1) (spec_zrem (drop 2 (c_argv ?c))) (cmd_zrem ?c)"
    using sorted_set_commands_correct [OF demo_ok] by blast
  from demo_out [OF this] show "c_out (cmd_zrem ?c) = a_integer 0" by (simp add: spec_zrem_def)
  let ?d = "demo [''ZCARD'', ''k'']"
  have "runs ?d (arg ?d 1) spec_zcard (cmd_zcard ?d)" using sorted_set_commands_correct [OF demo_ok] by blast
  from demo_out [OF this] show "c_out (cmd_zcard ?d) = a_wrong_type" by (simp add: spec_zcard_def)
qed

subsection \<open>HyperLogLog\<close>

text \<open>PFADD leaves the registers of everything added so far: the key that held the registers of a set of
  elements holds those of the set with the arguments, and the reply is 1 exactly when the key was missing or a
  register grew.\<close>

theorem pfadd_keeps_registers:
  assumes "ok c" "pf_regs c (arg c 1) S"
  shows "let T = S \<union> set (drop 2 (c_argv c)); grown = (view c (arg c 1) = None \<or> hll_of T \<noteq> hll_of S)
    in view (cmd_pfadd c) = (if grown then (view c)(arg c 1 \<mapsto> (AStr (hll_of T), None)) else view c) \<and>
       c_out (cmd_pfadd c) = c_out c @ a_integer (if grown then 1 else 0)"
  using pfadd_regs [OF assms] by (simp add: Let_def)

theorem pfadd_keeps_registers_witness:
  "view (cmd_pfadd (demo [''PFADD'', ''h'', ''x''])) ''h'' = Some (AStr (hll_of {''x''}), None)"
proof -
  let ?c = "demo [''PFADD'', ''h'', ''x'']"
  have "pf_regs ?c (arg ?c 1) {}" by (simp add: pf_regs_def demo_view)
  from pfadd_keeps_registers [OF demo_ok this] show ?thesis by (simp add: Let_def demo_view)
qed

text \<open>C34. PFCOUNT and PFMERGE work on the union: over keys that hold the registers of sets of elements, the
  count is the estimate for the registers of their union, and the destination of a merge then holds exactly
  those registers, the same as if every element had been added to one key.\<close>

theorem pfmerge_is_union:
  assumes "ok c" "1 < argc c" "\<forall>k\<in>set (drop 1 (c_argv c)). pf_regs c k (S k)"
  shows "let U = (\<Union>k\<in>set (drop 1 (c_argv c)). S k)
    in view (cmd_pfmerge c) = (view c)(arg c 1 \<mapsto> (AStr (hll_of U), None)) \<and> c_out (cmd_pfmerge c) = c_out c @ a_ok \<and>
       view (cmd_pfcount est c) = view c \<and>
       c_out (cmd_pfcount est c) = c_out c @ a_integer (i64_of_u64 (hll_count est (hll_of U)))"
  using pfmerge_regs [OF assms(1,3,2)] pfcount_regs [OF assms(1,3), of est] by (simp add: Let_def)

theorem pfmerge_is_union_witness:
  "c_out (cmd_pfcount (\<lambda>r. 5) (demo [''PFCOUNT'', ''h'', ''i''])) = a_integer 5"
proof -
  let ?c = "demo [''PFCOUNT'', ''h'', ''i'']"
  have "\<forall>k\<in>set (drop 1 (c_argv ?c)). pf_regs ?c k {}" by (simp add: pf_regs_def demo_view)
  from pfmerge_is_union [OF demo_ok _ this, of "\<lambda>r. 5"] show ?thesis by (simp add: Let_def hll_count_def i64_of_u64_def)
qed

subsection \<open>Vectors\<close>

text \<open>The vector commands act on the labels as on sets: VADD adds its label and answers whether it is new,
  VREM removes it and answers whether it was there, VCARD counts; no step of the graph algorithms reads or
  writes out of bounds, and the invariant of every index is kept.\<close>

theorem vector_commands_correct:
  assumes "sorts U" "vindex_ok vx" "parse_vector F U (drop 3 (c_argv c)) [] = Some vec"
    "pred_option (\<lambda>h. h_dim h = length vec) (vx (arg c 1))"
  shows "cmd_vadd F U vx c =
      (r_integer (if arg c 2 \<in> vlabels vx (arg c 1) then 0 else 1) (mark_dirty c), snd (cmd_vadd F U vx c)) \<and>
    vindex_ok (snd (cmd_vadd F U vx c)) \<and>
    vlabels (snd (cmd_vadd F U vx c)) = (vlabels vx)(arg c 1 := insert (arg c 2) (vlabels vx (arg c 1))) \<and>
    fst (cmd_vrem vx c) = (if arg c 2 \<in> vlabels vx (arg c 1) then r_integer 1 (mark_dirty c) else r_integer 0 c) \<and>
    vindex_ok (snd (cmd_vrem vx c)) \<and>
    vlabels (snd (cmd_vrem vx c)) = (vlabels vx)(arg c 1 := vlabels vx (arg c 1) - {arg c 2}) \<and>
    cmd_vcard vx c = r_integer (int (card (vlabels vx (arg c 1)))) c"
proof -
  have "\<And>h. vx (arg c 1) = Some h \<Longrightarrow> h_dim h = length vec" using assms(4) by simp
  note add = cmd_vadd_correct [OF assms(1-3) this]
  show ?thesis using add cmd_vrem_correct [OF assms(2), of c] cmd_vcard_correct [of vx c] by (simp add: prod_eq_iff)
qed

theorem vector_commands_correct_witness:
  "vlabels (snd (cmd_vadd demo_fp demo_fpu Map.empty (demo [''VADD'', ''v'', ''a'', ''1'']))) ''v'' = {''a''}"
proof -
  let ?c = "demo [''VADD'', ''v'', ''a'', ''1'']"
  have "parse_vector demo_fp demo_fpu (drop 3 (c_argv ?c)) [] = Some [f_one]"
    by (simp add: demo_fp_def demo_fpu_def parse_double_def)
  from vector_commands_correct [OF demo_sorts _ this, of Map.empty] show ?thesis
    by (simp add: vindex_ok_def vlabels_def)
qed



subsection \<open>Latency histogram\<close>

text \<open>The reported percentile is the upper bound after the bucket that holds the requested rank: with fewer
  than \<open>2 ^ 64\<close> samples and a rank that is at most their number, the samples up to that bucket number at least
  the rank, and the samples up to any earlier bucket fewer.\<close>

theorem percentile_is_rank_bucket:
  assumes "length xs < 2 ^ 64" "xs \<noteq> []" "unat (fe_rank E p (of_nat (length xs))) \<le> length xs"
  shows "\<exists>i<kBuckets. percentile E p (lh_of E xs) = fe_to_u64 E (fe_bounds E ! (i + 1)) \<and>
    unat (fe_rank E p (of_nat (length xs))) \<le> up_to_bucket E (i + 1) xs \<and>
    (\<forall>j<i. up_to_bucket E (j + 1) xs < unat (fe_rank E p (of_nat (length xs))))"
  by (rule percentile_of [OF assms(1,3,2)])

theorem percentile_is_rank_bucket_witness:
  "\<exists>i<kBuckets. percentile demo_float 0 (lh_of demo_float [7]) = fe_bounds demo_float ! (i + 1) \<and>
     up_to_bucket demo_float (i + 1) [7] = 1"
proof -
  have r: "unat (fe_rank demo_float 0 (of_nat (length [7 :: u64]))) = 1" "fe_to_u64 demo_float d = d" for d
    by (simp_all add: demo_float_def)
  from percentile_is_rank_bucket [of "[7]" demo_float 0, unfolded r] obtain i where
    "i < kBuckets" "percentile demo_float 0 (lh_of demo_float [7]) = fe_bounds demo_float ! (i + 1)"
    "1 \<le> up_to_bucket demo_float (i + 1) [7]" by auto
  moreover have "up_to_bucket demo_float (i + 1) [7] \<le> 1" using up_to_bucket_le [of demo_float "i + 1" "[7]"] by simp
  ultimately show ?thesis by (metis antisym)
qed

subsection \<open>Configuration\<close>

text \<open>A comment after a value turns the log off: \<open>appendonly yes # note\<close>, or any other value followed by a
  blank and a comment, disables the append-only log, because the blank before the comment stays in the value and
  no value that ends in a blank counts as true.\<close>

theorem appendonly_with_comment_is_off:
  assumes "\<forall>c\<in>set v. c \<noteq> CHR ''#'' \<and> c \<noteq> LF" "v \<noteq> []" "hd v \<noteq> CHR '' ''" "hd v \<noteq> CHR 0x09"
  shows "apply_line cfg (''appendonly '' @ v @ '' #'' @ note) = Some (cfg\<lparr>cf_aof_enabled := False\<rparr>)"
proof -
  have "cfg_line (''appendonly'' @ '' '' @ (v @ '' '') @ ''#'' @ note) = Some (''appendonly'', v @ '' '')"
    by (rule cfg_line_read) (use assms in \<open>auto simp: is_space_def LF_def\<close>)
  moreover have "\<not> truthy (v @ '' '')"
    by (simp add: truthy_def Let_def cfg_lower_def to_lower_char_def Cons_eq_append_conv append_eq_Cons_conv)
  moreover have "cfg_lower ''appendonly'' = ''appendonly''" by code_simp
  ultimately show ?thesis by (simp add: apply_line_def cfg_apply_def)
qed

theorem appendonly_with_comment_is_off_witness:
  "map_option cf_aof_enabled (apply_line config_default (''appendonly '' @ ''yes'' @ '' #'' @ '' keep'')) = Some False"
  using appendonly_with_comment_is_off [of "''yes''" config_default "'' keep''"] by (simp add: LF_def)

end
