(* ===== verification/Snapshot_Correct.thy ===== *)
theory Snapshot_Correct
  imports Snapshot Cmd_Generic_Correct Cmd_ZSet_Correct
begin

section \<open>Snapshots: writing and reading back\<close>

text \<open>
  The encoding of a value as a list of bytes, that a writer whose flag still holds has written exactly
  the encoding, and that the reader takes the encoding back to a value with the same meaning.
\<close>

subsection \<open>Integers\<close>

lemma length_le_bytes [simp]: "length (le_bytes n v) = n"
  by (induction n arbitrary: v) simp_all

lemma le_val_le_bytes: "v < 256 ^ n \<Longrightarrow> le_val (le_bytes n v) = v"
proof (induction n arbitrary: v)
  case (Suc n)
  then have "v div 256 < 256 ^ n" by (simp add: less_mult_imp_div_less mult.commute)
  from Suc.IH [OF this] show ?case by simp
qed simp

subsection \<open>The encoding\<close>

definition enc_str :: "bytes \<Rightarrow> bytes" where
  "enc_str s = le_bytes 4 (unat (word_of_nat (length s) :: u32)) @ s"

definition enc_count :: "nat \<Rightarrow> bytes" where
  "enc_count n = le_bytes 4 (unat (word_of_nat n :: u32))"

definition enc_u64 :: "u64 \<Rightarrow> bytes" where
  "enc_u64 v = le_bytes 8 (unat v)"

fun enc_payload :: "obj \<Rightarrow> bytes" where
  "enc_payload (StrObj s) = enc_str s"
| "enc_payload (HllObj s) = enc_str s"
| "enc_payload (ListObj l) = enc_count (length l) @ concat (map enc_str l)"
| "enc_payload (HashObj h) = enc_count (sw_size h) @ concat (map (\<lambda>(k, v). enc_str k @ enc_str v) (sw_entries h))"
| "enc_payload (SetObj s) = enc_count (sw_size s) @ concat (map (enc_str \<circ> fst) (sw_entries s))"
| "enc_payload (ZSetObj z) =
     enc_count (sw_size (z_dict z)) @ concat (map (\<lambda>(m, sc). enc_str m @ enc_u64 sc) (sw_entries (z_dict z)))"

definition enc_entry :: "keyspace \<Rightarrow> bytes \<times> obj \<Rightarrow> bytes" where
  "enc_entry ks e =
     le_bytes 1 (type_code (obj_type (snd e))) @ enc_str (fst e) @ enc_u64 (ks_deadline_or_zero (fst e) ks) @
     enc_payload (snd e)"

definition enc_snapshot :: "keyspace \<Rightarrow> bytes" where
  "enc_snapshot ks =
     kMagic @ enc_u64 (word_of_nat (ks_size ks)) @ concat (map (enc_entry ks) (sw_entries (ks_dict ks)))"

subsection \<open>The writer\<close>

text \<open>If the flag holds at the end, it held at the start, and the file has grown by exactly \<open>e\<close>.\<close>

definition writes :: "(writer \<Rightarrow> writer) \<Rightarrow> bytes \<Rightarrow> bool" where
  "writes f e \<longleftrightarrow> (\<forall>w. w_ok (f w) \<longrightarrow> w_ok w \<and> w_file (f w) = w_file w @ e)"

lemma writesD: "writes f e \<Longrightarrow> w_ok (f w) \<Longrightarrow> w_file (f w) = w_file w @ e"
  by (simp add: writes_def)

lemma writes_bytes: "writes (w_bytes p) p"
  by (auto simp: writes_def w_bytes_def Let_def)

lemma writes_comp: "writes f a \<Longrightarrow> writes g b \<Longrightarrow> writes (\<lambda>w. g (f w)) (a @ b)"
  unfolding writes_def by (metis append_assoc)

lemma writes_foldl:
  assumes "\<And>x. writes (g x) (e x)"
  shows "writes (\<lambda>w. foldl (\<lambda>w x. g x w) w xs) (concat (map e xs))"
  unfolding writes_def
proof (induction xs)
  case (Cons x xs)
  show ?case
  proof (intro allI impI)
    fix w
    assume "w_ok (foldl (\<lambda>w x. g x w) w (x # xs))"
    with spec [OF Cons, of "g x w"] assms [of x, unfolded writes_def, rule_format, of w]
    show "w_ok w \<and> w_file (foldl (\<lambda>w x. g x w) w (x # xs)) = w_file w @ concat (map e (x # xs))" by auto
  qed
qed simp

lemma writes_cong: "(\<And>w. f w = g w) \<Longrightarrow> writes g e \<Longrightarrow> writes f e"
  by (simp add: writes_def)

lemma writes_str: "writes (w_str s) (enc_str s)"
  unfolding w_str_def [abs_def] w_u32_def enc_str_def by (rule writes_comp [OF writes_bytes writes_bytes])

lemma writes_pairs:
  assumes "\<And>x. writes (g x) (e x)"
  shows "writes (\<lambda>w. foldl (\<lambda>w x. g x w) (w_u32 (word_of_nat n) w) xs) (enc_count n @ concat (map e xs))"
  unfolding w_u32_def enc_count_def by (rule writes_comp [OF writes_bytes writes_foldl]) (rule assms)

lemma writes_payload: "writes (write_payload v) (enc_payload v)"
proof (cases v)
  case (ListObj l)
  show ?thesis unfolding ListObj enc_payload.simps
    by (rule writes_cong [OF _ writes_pairs [OF writes_str]]) simp
next
  case (HashObj h)
  let ?g = "\<lambda>x w. case x of (k, v) \<Rightarrow> w_str v (w_str k w)" and ?e = "\<lambda>x. case x of (k, v) \<Rightarrow> enc_str k @ enc_str v"
  have "writes (?g x) (?e x)" for x by (simp add: split_beta writes_comp [OF writes_str writes_str])
  note w = writes_pairs [OF this]
  show ?thesis unfolding HashObj enc_payload.simps
    by (rule writes_cong [OF _ w]) (simp add: sw_for_each_def)
next
  case (SetObj s)
  let ?g = "\<lambda>x w. case x of (m, _) \<Rightarrow> w_str m w"
  have "writes (?g x) ((enc_str \<circ> fst) x)" for x :: "bytes \<times> u8" by (simp add: split_beta writes_str)
  note w = writes_pairs [OF this]
  show ?thesis unfolding SetObj enc_payload.simps
    by (rule writes_cong [OF _ w]) (simp add: sw_for_each_def)
next
  case (ZSetObj z)
  let ?g = "\<lambda>x w. case x of (m, sc) \<Rightarrow> w_dbl sc (w_str m w)" and ?e = "\<lambda>x. case x of (m, sc) \<Rightarrow> enc_str m @ enc_u64 sc"
  have "writes (?g x) (?e x)" for x
    by (simp add: split_beta w_dbl_def enc_u64_def writes_comp [OF writes_str writes_bytes])
  note w = writes_pairs [OF this]
  show ?thesis unfolding ZSetObj enc_payload.simps
    by (rule writes_cong [OF _ w]) (simp add: sw_for_each_def)
next
  case (StrObj s)
  show ?thesis unfolding StrObj enc_payload.simps by (rule writes_cong [OF _ writes_str]) simp
next
  case (HllObj s)
  show ?thesis unfolding HllObj enc_payload.simps by (rule writes_cong [OF _ writes_str]) simp
qed

lemma writes_object:
  "writes (write_object key d v) (le_bytes 1 (type_code (obj_type v)) @ enc_str key @ enc_u64 d @ enc_payload v)"
proof -
  note rest = writes_comp [OF writes_str writes_comp [OF writes_bytes writes_payload], unfolded append_assoc]
  show ?thesis unfolding enc_u64_def
    by (rule writes_cong [OF _ writes_comp [OF writes_bytes rest]])
       (simp only: write_object_def w_u8_def w_u64_def)
qed

lemma writes_snapshot: "writes (write_snapshot ks) (enc_snapshot ks)"
proof -
  let ?g = "\<lambda>x w. case x of (key, v) \<Rightarrow> write_object key (ks_deadline_or_zero key ks) v w"
  have "writes (?g x) (enc_entry ks x)" for x by (simp only: split_beta enc_entry_def writes_object)
  from writes_foldl [where g = ?g, OF this, of "sw_entries (ks_dict ks)"]
  show ?thesis unfolding enc_snapshot_def enc_u64_def
    by (intro writes_cong [OF _ writes_comp [OF writes_bytes writes_comp [OF writes_bytes]]])
       (simp_all add: write_snapshot_def ks_for_each_def sw_for_each_def w_u64_def)
qed

subsection \<open>Reading what was written\<close>

text \<open>On input that starts with \<open>e\<close> the reader takes \<open>e\<close> and answers \<open>v\<close>.\<close>

definition reads :: "(reader \<Rightarrow> 'a \<times> reader) \<Rightarrow> bytes \<Rightarrow> 'a \<Rightarrow> bool" where
  "reads f e v \<longleftrightarrow>
     (\<forall>rest. f \<lparr>r_rest = e @ rest, r_ok = True\<rparr> = (v, \<lparr>r_rest = rest, r_ok = True\<rparr>))"

lemma readsD: "reads f e v \<Longrightarrow> f \<lparr>r_rest = e @ rest, r_ok = True\<rparr> = (v, \<lparr>r_rest = rest, r_ok = True\<rparr>)"
  by (simp add: reads_def)

lemma reads_bytes: "length e = n \<Longrightarrow> reads (r_bytes n) e e"
  by (simp add: reads_def r_bytes_def)

lemma reads_word:
  assumes "v < 256 ^ n"
  shows "reads (\<lambda>r. let (b, r) = r_bytes n r in (word_of_nat (le_val b), r)) (le_bytes n v) (word_of_nat v :: 'a::len word)"
  using readsD [OF reads_bytes [OF length_le_bytes [of n v]]] le_val_le_bytes [OF assms] by (simp add: reads_def)

lemma reads_count: "reads r_u32 (enc_count n) (word_of_nat n)"
proof -
  have "unat (word_of_nat n :: u32) < 256 ^ 4" using unsigned_less [of "word_of_nat n :: u32"] by simp
  from reads_word [OF this, where ?'a = 32] show ?thesis unfolding r_u32_def [abs_def] enc_count_def by simp
qed

lemma reads_u64: "reads r_u64 (enc_u64 v) v" "reads r_dbl (enc_u64 v) v"
proof -
  have "unat v < 256 ^ 8" using unsigned_less [of v] by simp
  from reads_word [OF this, where ?'a = 64] show "reads r_u64 (enc_u64 v) v" "reads r_dbl (enc_u64 v) v"
    unfolding r_u64_def [abs_def] r_dbl_def [abs_def] enc_u64_def by simp_all
qed

abbreviation short :: "bytes \<Rightarrow> bool" where
  "short s \<equiv> length s \<le> 2 ^ 30"

lemma short_count:
  assumes "short s"
  shows "unat (word_of_nat (length s) :: u32) = length s" "\<not> (word_of_nat (length s) :: u32) > push_bit 30 1"
proof -
  show u: "unat (word_of_nat (length s) :: u32) = length s" using assms by (simp add: unat_of_nat)
  have "unat (push_bit 30 1 :: u32) = 2 ^ 30" by simp
  then show "\<not> (word_of_nat (length s) :: u32) > push_bit 30 1"
    unfolding word_less_nat_alt u using assms by linarith
qed

lemma reads_str:
  assumes "short s" shows "reads r_str (enc_str s) s"
proof -
  have "r_str \<lparr>r_rest = enc_str s @ rest, r_ok = True\<rparr> = (s, \<lparr>r_rest = rest, r_ok = True\<rparr>)" for rest
    using readsD [OF reads_count [of "length s"], of "s @ rest"] readsD [OF reads_bytes [of s "length s"], of rest]
      short_count [OF assms]
    by (simp only: r_str_def enc_str_def enc_count_def append_assoc prod.case Let_def reader.simps if_False simp_thms)
  then show ?thesis by (simp add: reads_def)
qed

lemma reads_loop:
  assumes "\<forall>x\<in>set xs. \<forall>s. reads (\<lambda>r. item r s) (e x) (step s x)"
  shows "reads (\<lambda>r. r_loop item (length xs) r s) (concat (map e xs)) (foldl step s xs)"
  using assms
proof (induction xs arbitrary: s)
  case (Cons x xs)
  then show ?case by (simp add: reads_def)
qed (simp add: reads_def)

subsection \<open>Values\<close>

text \<open>What fits the file: strings up to the reader's limit, counts below \<open>2 ^ 32\<close>.\<close>

fun storable :: "obj \<Rightarrow> bool" where
  "storable (StrObj s) = short s"
| "storable (HllObj s) = short s"
| "storable (ListObj l) = (length l < 2 ^ 32 \<and> list_all short l)"
| "storable (HashObj h) = (sw_size h < 2 ^ 32 \<and> list_all (\<lambda>(k, v). short k \<and> short v) (sw_entries h))"
| "storable (SetObj s) = (sw_size s < 2 ^ 32 \<and> list_all (short \<circ> fst) (sw_entries s))"
| "storable (ZSetObj z) = (sw_size (z_dict z) < 2 ^ 32 \<and> list_all (short \<circ> fst) (sw_entries (z_dict z)))"

text \<open>The registers of a HyperLogLog come back as an ordinary string.\<close>

fun as_text :: "aobj \<Rightarrow> aobj" where
  "as_text (AHll s) = AStr s"
| "as_text a = a"

lemma foldl_upd_entries:
  assumes "distinct (map fst xs)" "sw_inv T t"
  shows "sw_inv T (foldl (\<lambda>t x. fst (sw_insert T t (fst x) (f x))) t xs) \<and>
    sw_abs (foldl (\<lambda>t x. fst (sw_insert T t (fst x) (f x))) t xs) = sw_abs t ++ map_of (map (\<lambda>x. (fst x, f x)) xs)"
  using assms
proof (induction xs arbitrary: t)
  case (Cons x xs)
  have "fst x \<notin> dom (map_of (map (\<lambda>x. (fst x, f x)) xs))"
    using Cons.prems(1) by (simp add: dom_map_of_conv_image_fst image_image)
  then show ?case using Cons.IH [of "fst (sw_insert T t (fst x) (f x))"] Cons.prems
    by (auto simp: sw.inv_insert sw.abs_insert fun_eq_iff map_add_def domIff split: option.split)
qed simp

lemma zset_set_foldl:
  assumes "distinct (map fst xs)" "sw_inv score_params (z_dict z)" "fst ` set xs \<inter> dom (sw_abs (z_dict z)) = {}"
  shows "sw_inv score_params (z_dict (foldl (\<lambda>z x. fst (zset_set (fst x) (snd x) z)) z xs)) \<and>
    sw_abs (z_dict (foldl (\<lambda>z x. fst (zset_set (fst x) (snd x) z)) z xs)) = sw_abs (z_dict z) ++ map_of xs"
  using assms
proof (induction xs arbitrary: z)
  case (Cons x xs)
  let ?z = "fst (zset_set (fst x) (snd x) z)"
  have "sw_abs (z_dict z) (fst x) = None" using Cons.prems(3) by auto
  then have z: "sw_inv score_params (z_dict ?z)" "sw_abs (z_dict ?z) = (sw_abs (z_dict z))(fst x \<mapsto> snd x)"
    using zset_set_dict [OF Cons.prems(2), of "fst x" "snd x"] by (simp_all add: score_set_def)
  have "fst x \<notin> dom (map_of xs)" using Cons.prems(1) by (simp add: dom_map_of_conv_image_fst)
  moreover have "fst ` set xs \<inter> dom (sw_abs (z_dict ?z)) = {}" using Cons.prems(1,3) z(2) by auto
  ultimately show ?case using Cons.IH [of ?z] Cons.prems(1) z
    by (cases x) (auto simp: fun_eq_iff map_add_def domIff split: option.split)
qed simp

text \<open>The container loops, on the encodings of the entries.\<close>

lemma reads_pair:
  assumes "reads f a x" "reads g b y"
  shows "reads (\<lambda>r. let (u, r1) = f r; (v, r2) = g r1 in (h u v, r2)) (a @ b) (h x y)"
  using readsD [OF assms(1)] readsD [OF assms(2)] by (simp add: reads_def)

lemma reads_map:
  assumes "reads f a x" shows "reads (\<lambda>r. let (u, r1) = f r in (h u, r1)) a (h x)"
  using readsD [OF assms] by (simp add: reads_def)

lemma item_reads:
  "short x \<Longrightarrow> reads (\<lambda>r. list_item r l) (enc_str x) (l @ [x])"
  "short k \<Longrightarrow> short v \<Longrightarrow> reads (\<lambda>r. hash_item r h) (enc_str k @ enc_str v) (fst (sw_insert hash_params h k v))"
  "short m \<Longrightarrow> reads (\<lambda>r. set_item r s) (enc_str m) (fst (sw_insert set_params s m 1))"
  "short m \<Longrightarrow> reads (\<lambda>r. zset_item r z) (enc_str m @ enc_u64 sc) (fst (zset_set m sc z))"
  unfolding list_item_def hash_item_def set_item_def zset_item_def
  by (rule reads_map [OF reads_str] reads_pair [OF reads_str reads_str] reads_pair [OF reads_str reads_u64(2)]; assumption)+

lemma foldl_snoc: "foldl (\<lambda>l x. l @ [x]) a xs = a @ xs"
  by (induction xs arbitrary: a) simp_all

lemma reads_counted:
  assumes "n < 2 ^ 32" "length xs = n" "\<forall>x\<in>set xs. \<forall>s. reads (\<lambda>r. item r s) (e x) (step s x)"
  shows "reads (\<lambda>r. let (n, r1) = r_u32 r in apfst C (r_loop item (unat n) r1 s0)) (enc_count n @ concat (map e xs))
    (C (foldl step s0 xs))"
proof -
  have "unat (word_of_nat n :: u32) = n" using assms(1) by (simp add: unat_of_nat)
  then show ?thesis using readsD [OF reads_count [of n]] readsD [OF reads_loop [OF assms(3), of s0]] assms(2)
    by (simp add: reads_def)
qed

lemma reads_payload:
  assumes "storable v" "obj_wf v"
  shows "\<exists>v'. obj_wf v' \<and> obj_abs v' = as_text (obj_abs v) \<and>
    (\<forall>rest. read_payload (type_code (obj_type v)) \<lparr>r_rest = enc_payload v @ rest, r_ok = True\<rparr> =
      Some (v', \<lparr>r_rest = rest, r_ok = True\<rparr>))"
proof (cases v)
  case (StrObj s)
  then show ?thesis using assms(1) readsD [OF reads_str [of s]]
    by (intro exI [of _ v]) (simp add: read_payload_def split_beta Let_def)
next
  case (HllObj s)
  then show ?thesis using assms(1) readsD [OF reads_str [of s]]
    by (intro exI [of _ "StrObj s"]) (simp add: read_payload_def split_beta Let_def)
next
  case (ListObj l)
  have "\<forall>x\<in>set l. \<forall>a. reads (\<lambda>r. list_item r a) (enc_str x) (a @ [x])"
    using assms(1) ListObj by (auto simp: list_all_iff intro: item_reads)
  from readsD [OF reads_counted [OF _ refl this, of ListObj "[]"]] ListObj assms(1) show ?thesis
    by (intro exI [of _ v]) (simp add: read_payload_def split_beta Let_def foldl_snoc)
next
  case (HashObj h)
  let ?v = "HashObj (foldl (\<lambda>t x. fst (sw_insert hash_params t (fst x) (snd x))) (sw_new hash_params) (sw_entries h))"
  have inv: "sw_inv hash_params h" using assms(2) HashObj by simp
  let ?e = "\<lambda>x. enc_str (fst x) @ enc_str (snd x)"
  have "\<forall>x\<in>set (sw_entries h). \<forall>t. reads (\<lambda>r. hash_item r t) (?e x) (fst (sw_insert hash_params t (fst x) (snd x)))"
    using assms(1) HashObj by (force simp: list_all_iff intro: item_reads)
  note r = readsD [OF reads_counted [OF _ sw.size_entries [OF inv, symmetric] this, of HashObj "sw_new hash_params"]]
  have enc: "enc_payload v = enc_count (sw_size h) @ concat (map ?e (sw_entries h))" by (simp add: HashObj case_prod_unfold)
  have "sw_size h < 2 ^ 32" using HashObj assms(1) by simp
  from r [OF this] have "read_payload 2 \<lparr>r_rest = enc_payload v @ rest, r_ok = True\<rparr> = Some (?v, \<lparr>r_rest = rest, r_ok = True\<rparr>)"
    for rest unfolding enc read_payload_def by (simp add: split_beta Let_def)
  then show ?thesis
    using foldl_upd_entries [OF sw.entries_distinct [OF inv] sw.inv_new, of hash_params snd] HashObj
    by (intro exI [of _ ?v]) (simp add: sw.abs_new sw.entries_abs [OF inv])
next
  case (SetObj h)
  let ?v = "SetObj (foldl (\<lambda>t x. fst (sw_insert set_params t (fst x) 1)) (sw_new set_params) (sw_entries h))"
  have inv: "sw_inv set_params h" using assms(2) SetObj by simp
  have "\<forall>x\<in>set (sw_entries h). \<forall>t. reads (\<lambda>r. set_item r t) ((enc_str \<circ> fst) x)
      (fst (sw_insert set_params t (fst x) 1))"
    using assms(1) SetObj by (force simp: list_all_iff intro: item_reads)
  moreover have "dom (map_of (map (\<lambda>x. (fst x, 1 :: u8)) (sw_entries h))) = dom (sw_abs h)"
    using sw.entries_dom [OF inv] by (simp add: dom_map_of_conv_image_fst image_image)
  ultimately show ?thesis
    using readsD [OF reads_counted [OF _ sw.size_entries [OF inv, symmetric], of set_item "enc_str \<circ> fst"
        "\<lambda>t x. fst (sw_insert set_params t (fst x) 1)" SetObj "sw_new set_params"]]
      foldl_upd_entries [OF sw.entries_distinct [OF inv] sw.inv_new, of set_params "\<lambda>_. 1"] SetObj assms(1)
    by (intro exI [of _ ?v]) (simp add: read_payload_def split_beta Let_def sw.abs_new)
next
  case (ZSetObj z)
  let ?z0 = "\<lparr>z_dict = sw_new score_params, z_sl = sl_new\<rparr>"
  let ?v = "ZSetObj (foldl (\<lambda>z x. fst (zset_set (fst x) (snd x) z)) ?z0 (sw_entries (z_dict z)))"
  have inv: "sw_inv score_params (z_dict z)" using assms(2) ZSetObj by simp
  let ?e = "\<lambda>x. enc_str (fst x) @ enc_u64 (snd x)"
  have "\<forall>x\<in>set (sw_entries (z_dict z)). \<forall>t. reads (\<lambda>r. zset_item r t) (?e x) (fst (zset_set (fst x) (snd x) t))"
    using assms(1) ZSetObj by (force simp: list_all_iff intro: item_reads)
  note r = readsD [OF reads_counted [OF _ sw.size_entries [OF inv, symmetric] this, of ZSetObj ?z0]]
  have enc: "enc_payload v = enc_count (sw_size (z_dict z)) @ concat (map ?e (sw_entries (z_dict z)))"
    by (simp add: ZSetObj case_prod_unfold)
  have "sw_size (z_dict z) < 2 ^ 32" using ZSetObj assms(1) by simp
  from r [OF this] have "read_payload 4 \<lparr>r_rest = enc_payload v @ rest, r_ok = True\<rparr> = Some (?v, \<lparr>r_rest = rest, r_ok = True\<rparr>)"
    for rest unfolding enc read_payload_def by (simp add: split_beta Let_def)
  then show ?thesis
    using zset_set_foldl [OF sw.entries_distinct [OF inv], of ?z0] ZSetObj
    by (intro exI [of _ ?v]) (simp add: sw.inv_new sw.abs_new sw.entries_abs [OF inv])
qed

subsection \<open>The keyspace\<close>

lemma deadline_or_zero:
  assumes "ks_inv ks"
  shows "ks_deadline_or_zero k ks = (case sw_abs (ks_expires ks) k of None \<Rightarrow> 0 | Some d \<Rightarrow> d)"
proof -
  have "sw_inv expires_params (ks_expires ks)" using assms by (simp add: ks_inv_parts)
  from sw.find_val [OF this, of k, symmetric] show ?thesis
    by (simp add: ks_deadline_or_zero_def split: option.split)
qed

text \<open>What an entry is after a restart at time \<open>now\<close>. The file has 0 for "no deadline", so a deadline 0 is lost.\<close>

fun thaw :: "u64 \<Rightarrow> aentry \<Rightarrow> aentry option" where
  "thaw now (a, None) = Some (as_text a, None)"
| "thaw now (a, Some d) =
     (if d = 0 then Some (as_text a, None) else if d \<le> now then None else Some (as_text a, Some d))"

lemma type_code_less: "type_code t < 256 ^ 1"
  by (cases t) simp_all

lemma reads_code: "reads r_u8 (le_bytes 1 (type_code t)) (type_code t)"
  using readsD [OF reads_bytes [OF length_le_bytes [of 1 "type_code t"]]] le_val_le_bytes [OF type_code_less [of t]]
  unfolding reads_def r_u8_def by (simp del: le_bytes.simps One_nat_def)

lemma read_object_entry:
  assumes "db_ok db" "obj_wf v" "storable v" "short key"
    "enc = le_bytes 1 (type_code (obj_type v)) @ enc_str key @ enc_u64 d @ enc_payload v"
  shows "\<exists>db'. read_object now \<lparr>r_rest = enc @ rest, r_ok = True\<rparr> db = (db', \<lparr>r_rest = rest, r_ok = True\<rparr>) \<and> db_ok db' \<and>
    db_abs db' = (case thaw now (obj_abs v, if d = 0 then None else Some d) of
        None \<Rightarrow> db_abs db | Some e \<Rightarrow> (db_abs db)(key \<mapsto> e))"
proof -
  from reads_payload [OF assms(3,2)] obtain v' where v': "obj_wf v'" "obj_abs v' = as_text (obj_abs v)"
    "\<And>rest. read_payload (type_code (obj_type v)) \<lparr>r_rest = enc_payload v @ rest, r_ok = True\<rparr> =
      Some (v', \<lparr>r_rest = rest, r_ok = True\<rparr>)" by blast
  let ?db = "if d \<noteq> 0 \<and> d \<le> now then db
      else if d = 0 then snd (ks_set key v' db) else ks_set_deadline key d (snd (ks_set key v' db))"
  have "read_object now \<lparr>r_rest = enc @ rest, r_ok = True\<rparr> db = (?db, \<lparr>r_rest = rest, r_ok = True\<rparr>)"
    using readsD [OF reads_code] readsD [OF reads_str [OF assms(4)]] readsD [OF reads_u64(1)] v'(3)
    by (simp add: read_object_def assms(5) Let_def)
  moreover have "db_ok ?db"
    using db_set [OF assms(1) v'(1)] db_set_deadline_after [OF assms(1) v'(1)] assms(1) by simp
  moreover have "db_abs ?db = (case thaw now (obj_abs v, if d = 0 then None else Some d) of
      None \<Rightarrow> db_abs db | Some e \<Rightarrow> (db_abs db)(key \<mapsto> e))"
    using db_set [OF assms(1) v'(1)] db_set_deadline_after [OF assms(1) v'(1)] v'(2) by simp
  ultimately show ?thesis by blast
qed

definition storable_ks :: "keyspace \<Rightarrow> bool" where
  "storable_ks ks \<longleftrightarrow> ks_size ks < 2 ^ 64 \<and> list_all (\<lambda>(k, v). short k \<and> storable v) (sw_entries (ks_dict ks))"

lemma read_objects_entries:
  assumes "distinct (map fst es)" "list_all (\<lambda>(k, v). short k \<and> storable v \<and> obj_wf v) es" "db_ok db" "ks_inv ks"
  shows "\<exists>db'. read_objects (\<lambda>_. now) i (length es) \<lparr>r_rest = concat (map (enc_entry ks) es) @ rest, r_ok = True\<rparr> db =
      (db', \<lparr>r_rest = rest, r_ok = True\<rparr>) \<and> db_ok db' \<and>
    db_abs db' = db_abs db ++ (\<lambda>k. Option.bind (map_of es k) (\<lambda>v. thaw now (obj_abs v, sw_abs (ks_expires ks) k)))"
  using assms
proof (induction es arbitrary: i db)
  case (Cons e es)
  obtain k v where e: "e = (k, v)" by (cases e)
  let ?d = "ks_deadline_or_zero k ks" and ?dl = "sw_abs (ks_expires ks) k"
  let ?rest = "concat (map (enc_entry ks) es) @ rest"
  have enc: "enc_entry ks e = le_bytes 1 (type_code (obj_type v)) @ enc_str k @ enc_u64 ?d @ enc_payload v"
    by (simp add: enc_entry_def e)
  have "storable v" "obj_wf v" "short k" using Cons.prems(2) e by simp_all
  from read_object_entry [OF Cons.prems(3) this(2,1,3) enc, of now ?rest] obtain db1 where
    db1: "read_object now \<lparr>r_rest = enc_entry ks e @ ?rest, r_ok = True\<rparr> db = (db1, \<lparr>r_rest = ?rest, r_ok = True\<rparr>)"
      "db_ok db1" "db_abs db1 = (case thaw now (obj_abs v, if ?d = 0 then None else Some ?d) of
        None \<Rightarrow> db_abs db | Some e \<Rightarrow> (db_abs db)(k \<mapsto> e))" by blast
  have th: "thaw now (obj_abs v, if ?d = 0 then None else Some ?d) = thaw now (obj_abs v, ?dl)"
    by (simp add: deadline_or_zero [OF Cons.prems(4)] split: option.split)
  from Cons.IH [of db1 "Suc i"] Cons.prems db1(2) obtain db' where
    db': "read_objects (\<lambda>_. now) (Suc i) (length es) \<lparr>r_rest = ?rest, r_ok = True\<rparr> db1 = (db', \<lparr>r_rest = rest, r_ok = True\<rparr>)"
      "db_ok db'" "db_abs db' = db_abs db1 ++ (\<lambda>k. Option.bind (map_of es k) (\<lambda>v. thaw now (obj_abs v, sw_abs (ks_expires ks) k)))"
    by auto
  have "map_of es k = None" using Cons.prems(1) e by (simp add: map_of_eq_None_iff)
  then have "db_abs db1 ++ (\<lambda>k. Option.bind (map_of es k) (\<lambda>v. thaw now (obj_abs v, sw_abs (ks_expires ks) k))) =
      db_abs db ++ (\<lambda>k. Option.bind (map_of (e # es) k) (\<lambda>v. thaw now (obj_abs v, sw_abs (ks_expires ks) k)))"
    unfolding db1(3) th e by (auto simp: fun_eq_iff map_add_def split: option.split)
  then show ?case using db1(1) db' by simp
qed simp

text \<open>The file as one reader, with a wrong magic number as a fallen flag.\<close>

definition read_file :: "(nat \<Rightarrow> u64) \<Rightarrow> reader \<Rightarrow> keyspace \<Rightarrow> keyspace \<times> reader" where
  "read_file clock r db =
     (let (magic, r1) = r_bytes 8 r in
      if magic \<noteq> kMagic then (db, r1\<lparr>r_ok := False\<rparr>)
      else let (count, r2) = r_u64 r1 in read_objects clock 0 (unat count) r2 db)"

lemma read_objects_ok: "r_ok (snd (read_objects clock i n r db)) \<Longrightarrow> r_ok r"
  by (cases n) (auto split: if_splits)

lemma r_u64_ok: "r_ok (snd (r_u64 r)) \<Longrightarrow> r_ok r"
  by (auto simp: r_u64_def r_bytes_def Let_def split: prod.splits if_splits)

lemma snap_load_read_file:
  "fst (snap_load clock (Some data) db) = None \<longleftrightarrow> r_ok (snd (read_file clock \<lparr>r_rest = data, r_ok = True\<rparr> db))"
  "fst (snap_load clock (Some data) db) = None \<Longrightarrow>
     snd (snap_load clock (Some data) db) = fst (read_file clock \<lparr>r_rest = data, r_ok = True\<rparr> db)"
  by (auto simp: snap_load_def read_file_def Let_def dest!: read_objects_ok r_u64_ok split: prod.splits if_splits)
     (metis read_objects_ok r_u64_ok snd_conv)+

text \<open>A file that holds the whole encoding loads, and every key comes back as \<open>thaw\<close> says.\<close>

lemma read_file_encoded:
  assumes "db_ok ks" "storable_ks ks" "db_ok db"
  shows "\<exists>db'. read_file (\<lambda>_. now) \<lparr>r_rest = enc_snapshot ks, r_ok = True\<rparr> db = (db', \<lparr>r_rest = [], r_ok = True\<rparr>) \<and>
    db_ok db' \<and> db_abs db' = db_abs db ++ (\<lambda>k. Option.bind (db_abs ks k) (thaw now))"
proof -
  let ?es = "sw_entries (ks_dict ks)"
  have inv: "ks_inv ks" "sw_inv dict_params (ks_dict ks)" using assms(1) by (simp_all add: ks_inv_parts)
  have wf: "list_all (\<lambda>(k, v). short k \<and> storable v \<and> obj_wf v) ?es"
    using assms(2) sw.in_entries [OF inv(2)] db_okD [OF assms(1)]
    by (auto simp: storable_ks_def list_all_iff ks_abs_Some)
  have size: "unat (word_of_nat (ks_size ks) :: u64) = length ?es"
    using assms(2) sw.size_entries [OF inv(2)] by (simp add: storable_ks_def ks_size_def unat_of_nat)
  from read_objects_entries [OF sw.entries_distinct [OF inv(2)] wf assms(3) inv(1), of now 0 "[]"] obtain db' where
    db': "read_objects (\<lambda>_. now) 0 (length ?es) \<lparr>r_rest = concat (map (enc_entry ks) ?es), r_ok = True\<rparr> db =
      (db', \<lparr>r_rest = [], r_ok = True\<rparr>)" "db_ok db'"
      "db_abs db' = db_abs db ++ (\<lambda>k. Option.bind (map_of ?es k) (\<lambda>v. thaw now (obj_abs v, sw_abs (ks_expires ks) k)))"
    by auto
  have "(\<lambda>k. Option.bind (map_of ?es k) (\<lambda>v. thaw now (obj_abs v, sw_abs (ks_expires ks) k))) =
      (\<lambda>k. Option.bind (db_abs ks k) (thaw now))"
    by (simp add: fun_eq_iff db_abs_def ks_abs_def sw.entries_abs [OF inv(2)] split: bind_split option.split)
  moreover have "length kMagic = 8" by (simp add: kMagic_def)
  ultimately show ?thesis
    using db' readsD [OF reads_bytes [of kMagic 8]] readsD [OF reads_u64(1)] size
    by (simp add: read_file_def enc_snapshot_def)
qed

lemma load_encoded:
  assumes "db_ok ks" "storable_ks ks"
  shows "\<exists>db. snap_load (\<lambda>_. now) (Some (enc_snapshot ks)) ks_new = (None, db) \<and> db_ok db \<and>
    db_abs db = (\<lambda>k. Option.bind (db_abs ks k) (thaw now))"
proof -
  from read_file_encoded [OF assms db_new(1), of now] obtain db where
    db: "read_file (\<lambda>_. now) \<lparr>r_rest = enc_snapshot ks, r_ok = True\<rparr> ks_new = (db, \<lparr>r_rest = [], r_ok = True\<rparr>)"
      "db_ok db" "db_abs db = (\<lambda>k. Option.bind (db_abs ks k) (thaw now))" by (auto simp: db_new)
  have "snap_load (\<lambda>_. now) (Some (enc_snapshot ks)) ks_new = (None, db)"
    using snap_load_read_file [of "\<lambda>_. now" "enc_snapshot ks" ks_new] db(1) by (simp add: prod_eq_iff)
  then show ?thesis using db(2,3) by blast
qed

subsection \<open>Truncated files\<close>

text \<open>What a reader accepts it accepts with more input behind it, and leaves that input alone.\<close>

definition stable :: "(reader \<Rightarrow> 'a \<times> reader) \<Rightarrow> bool" where
  "stable f \<longleftrightarrow> (\<forall>r q. r_ok (snd (f r)) \<longrightarrow> r_ok r \<and>
     f (r\<lparr>r_rest := r_rest r @ q\<rparr>) = (fst (f r), (snd (f r))\<lparr>r_rest := r_rest (snd (f r)) @ q\<rparr>))"

lemma stable_bytes: "stable (r_bytes n)"
  by (auto simp: stable_def r_bytes_def Let_def)

lemma stable_bind:
  assumes "stable f" "\<And>x. stable (g x)"
  shows "stable (\<lambda>r. let (x, r1) = f r in g x r1)"
  unfolding stable_def
proof (intro allI impI)
  fix r q
  obtain x r1 where f: "f r = (x, r1)" by fastforce
  assume "r_ok (snd (let (x, r1) = f r in g x r1))"
  then have g: "r_ok (snd (g x r1))" by (simp add: f)
  note g1 = assms(2) [of x, unfolded stable_def, rule_format, OF g, of q]
  note f1 = assms(1) [unfolded stable_def, rule_format, of r q]
  show "r_ok r \<and> (let (x, r1) = f (r\<lparr>r_rest := r_rest r @ q\<rparr>) in g x r1) =
      (fst (let (x, r1) = f r in g x r1),
       (snd (let (x, r1) = f r in g x r1))\<lparr>r_rest := r_rest (snd (let (x, r1) = f r in g x r1)) @ q\<rparr>)"
    using f f1 g1 by simp
qed

lemma stable_return: "stable (\<lambda>r. (x, r))"
  by (simp add: stable_def)

lemma stable_fail: "stable (\<lambda>r. (x, r\<lparr>r_ok := False\<rparr>))"
  by (simp add: stable_def)

lemma stable_if_ok:
  assumes "stable f" shows "stable (\<lambda>r. if \<not> r_ok r \<or> b then (x, r\<lparr>r_ok := False\<rparr>) else f r)"
  using assms by (auto simp: stable_def)

lemma stable_guard: "stable f \<Longrightarrow> stable (\<lambda>r. if \<not> r_ok r then (x, r) else f r)"
  by (auto simp: stable_def)

lemma stable_ints: "stable r_u8" "stable r_u32" "stable r_u64" "stable r_dbl"
  unfolding r_u8_def [abs_def] r_u32_def [abs_def] r_u64_def [abs_def] r_dbl_def [abs_def]
  by (rule stable_bind [OF stable_bytes stable_return])+

lemma stable_str: "stable r_str"
  unfolding r_str_def [abs_def] by (rule stable_bind [OF stable_ints(2) stable_if_ok [OF stable_bytes]])

lemma stable_pair:
  assumes "stable f" "stable g" shows "stable (\<lambda>r. let (u, r1) = f r; (v, r2) = g r1 in (h u v, r2))"
  by (rule stable_bind [OF assms(1) stable_bind [OF assms(2) stable_return]])

lemma stable_items:
  "stable (\<lambda>r. list_item r l)" "stable (\<lambda>r. hash_item r h)" "stable (\<lambda>r. set_item r s)" "stable (\<lambda>r. zset_item r z)"
proof -
  show "stable (\<lambda>r. list_item r l)" unfolding list_item_def by (rule stable_bind [OF stable_str stable_return])
  show "stable (\<lambda>r. hash_item r h)" unfolding hash_item_def by (rule stable_pair [OF stable_str stable_str])
  show "stable (\<lambda>r. set_item r s)" unfolding set_item_def by (rule stable_bind [OF stable_str stable_return])
  show "stable (\<lambda>r. zset_item r z)" unfolding zset_item_def by (rule stable_pair [OF stable_str stable_ints(4)])
qed

lemma stable_loop: "(\<And>s. stable (\<lambda>r. item r s)) \<Longrightarrow> stable (\<lambda>r. r_loop item n r s)"
proof (induction n arbitrary: s)
  case 0
  then show ?case by (simp add: stable_return)
next
  case (Suc n)
  have "stable (\<lambda>r. let (s1, r1) = item r s in r_loop item n r1 s1)"
    by (rule stable_bind [OF Suc.prems Suc.IH [OF Suc.prems]])
  then show ?case unfolding r_loop.simps by (rule stable_guard)
qed

lemma stable_apfst: "stable f \<Longrightarrow> stable (\<lambda>r. apfst C (f r))"
  by (simp add: stable_def apfst_def map_prod_def split_beta)

lemma stable_counted: "(\<And>s. stable (\<lambda>r. item r s)) \<Longrightarrow> stable (\<lambda>r. let (n, r1) = r_u32 r in apfst C (r_loop item (unat n) r1 s0))"
  by (rule stable_bind [OF stable_ints(2) stable_apfst [OF stable_loop]])

lemma stable_payload:
  "(\<forall>r. read_payload t r = None) \<or> (\<exists>f. stable f \<and> (\<forall>r. read_payload t r = Some (f r)))"
proof -
  consider "t = 0 \<or> t = 5" | "t = 1" | "t = 2" | "t = 3" | "t = 4" | "t > 5" by linarith
  then show ?thesis
  proof cases
    case 1
    then show ?thesis using stable_apfst [OF stable_str, of StrObj] by (auto simp: read_payload_def)
  next
    case 2
    then show ?thesis using stable_counted [OF stable_items(1), where C = ListObj and ?s0.0 = "[]"]
      by (intro disjI2 exI conjI) (auto simp: read_payload_def split_beta Let_def)
  next
    case 3
    then show ?thesis using stable_counted [OF stable_items(2), where C = HashObj and ?s0.0 = "sw_new hash_params"]
      by (intro disjI2 exI conjI) (auto simp: read_payload_def split_beta Let_def)
  next
    case 4
    then show ?thesis using stable_counted [OF stable_items(3), where C = SetObj and ?s0.0 = "sw_new set_params"]
      by (intro disjI2 exI conjI) (auto simp: read_payload_def split_beta Let_def)
  next
    case 5
    then show ?thesis using stable_counted [OF stable_items(4), where C = ZSetObj and ?s0.0 = "\<lparr>z_dict = sw_new score_params, z_sl = sl_new\<rparr>"]
      by (intro disjI2 exI conjI) (auto simp: read_payload_def split_beta Let_def)
  qed (simp add: read_payload_def)
qed

text \<open>The entry that is stored depends on the flag only when the flag holds.\<close>

definition store_read :: "u64 \<Rightarrow> bytes \<Rightarrow> u64 \<Rightarrow> keyspace \<Rightarrow> obj \<times> reader \<Rightarrow> keyspace \<times> reader" where
  "store_read now key deadline ks x =
     (let expired = (deadline \<noteq> 0 \<and> deadline \<le> now);
          ks1 = (if \<not> expired \<and> r_ok (snd x) then snd (ks_set key (fst x) ks) else ks)
      in (if \<not> expired \<and> deadline \<noteq> 0 \<and> r_ok (snd x) then ks_set_deadline key deadline ks1 else ks1, snd x))"

lemma store_read_rest: "store_read now key d ks (v, r\<lparr>r_rest := z\<rparr>) = (fst (store_read now key d ks (v, r)), r\<lparr>r_rest := z\<rparr>)"
  by (simp add: store_read_def Let_def)

lemma snd_store_read [simp]: "snd (store_read now key d ks x) = snd x"
  by (simp add: store_read_def Let_def)

lemma stable_store:
  assumes "stable f" shows "stable (\<lambda>r. store_read now key d ks (f r))"
  unfolding stable_def
proof (intro allI impI)
  fix r q
  obtain v r1 where f: "f r = (v, r1)" by fastforce
  assume "r_ok (snd (store_read now key d ks (f r)))"
  with assms [unfolded stable_def, rule_format, of r q] f
  have "r_ok r" "f (r\<lparr>r_rest := r_rest r @ q\<rparr>) = (v, r1\<lparr>r_rest := r_rest r1 @ q\<rparr>)" by simp_all
  then show "r_ok r \<and> store_read now key d ks (f (r\<lparr>r_rest := r_rest r @ q\<rparr>)) =
      (fst (store_read now key d ks (f r)),
       (snd (store_read now key d ks (f r)))\<lparr>r_rest := r_rest (snd (store_read now key d ks (f r))) @ q\<rparr>)"
    by (simp only: f store_read_rest snd_store_read snd_conv)
qed

lemma stable_object: "stable (\<lambda>r. read_object now r ks)"
proof -
  have rest: "stable (\<lambda>r. if \<not> r_ok r then (ks, r) else case read_payload t r of
      None \<Rightarrow> (ks, r\<lparr>r_ok := False\<rparr>) | Some x \<Rightarrow> store_read now key d ks x)" for t key d
    using stable_payload [of t]
  proof
    assume "\<exists>f. stable f \<and> (\<forall>r. read_payload t r = Some (f r))"
    then obtain f where f: "stable f" "\<forall>r. read_payload t r = Some (f r)" by blast
    have "stable (\<lambda>r. if \<not> r_ok r then (ks, r) else store_read now key d ks (f r))"
      by (rule stable_guard [OF stable_store [OF f(1)]])
    then show ?thesis by (simp add: f(2) cong: if_cong)
  qed (simp add: stable_def)
  have eq: "read_object now r ks = (let (t, r1) = r_u8 r in let (key, r2) = r_str r1 in let (d, r3) = r_u64 r2 in
      if \<not> r_ok r3 then (ks, r3) else case read_payload t r3 of
        None \<Rightarrow> (ks, r3\<lparr>r_ok := False\<rparr>) | Some x \<Rightarrow> store_read now key d ks x)" for r
    by (auto simp: read_object_def store_read_def Let_def split: prod.split option.split)
  show ?thesis unfolding eq
    by (rule stable_bind [OF stable_ints(1) stable_bind [OF stable_str stable_bind [OF stable_ints(3) rest]]])
qed

lemma stable_objects: "stable (\<lambda>r. read_objects clock i n r ks)"
proof (induction n arbitrary: i ks)
  case 0
  then show ?case by (simp add: stable_return)
next
  case (Suc n)
  have "stable (\<lambda>r. let (ks1, r1) = read_object (clock i) r ks in read_objects clock (Suc i) n r1 ks1)"
    by (rule stable_bind [OF stable_object Suc.IH])
  then show ?case unfolding read_objects.simps by (rule stable_guard)
qed

lemma stable_file: "stable (\<lambda>r. read_file clock r db)"
proof -
  have "stable (\<lambda>r. read_objects clock 0 (unat count) r db)" for count by (rule stable_objects)
  note rest = stable_bind [OF stable_ints(3) this]
  have "stable (\<lambda>r. if m \<noteq> kMagic then (db, r\<lparr>r_ok := False\<rparr>)
      else let (count, r2) = r_u64 r in read_objects clock 0 (unat count) r2 db)" for m
  proof (cases "m = kMagic")
    case True
    show ?thesis unfolding True by (simp only: simp_thms if_False) (rule rest)
  next
    case False
    then show ?thesis by (simp only: simp_thms if_True) (rule stable_fail)
  qed
  from stable_bind [OF stable_bytes this] show ?thesis unfolding read_file_def .
qed

text \<open>A proper beginning of a snapshot does not load.\<close>

lemma load_truncated:
  assumes "db_ok ks" "storable_ks ks" "db_ok db" "n < length (enc_snapshot ks)"
  shows "fst (snap_load (\<lambda>_. now) (Some (take n (enc_snapshot ks))) db) \<noteq> None"
proof
  let ?e = "enc_snapshot ks" and ?r = "\<lparr>r_rest = take n (enc_snapshot ks), r_ok = True\<rparr>"
  assume "fst (snap_load (\<lambda>_. now) (Some (take n ?e)) db) = None"
  then have "r_ok (snd (read_file (\<lambda>_. now) ?r db))" using snap_load_read_file(1) by blast
  with stable_file [of "\<lambda>_. now" db, unfolded stable_def, rule_format, of ?r "drop n ?e"]
  have "r_rest (snd (read_file (\<lambda>_. now) \<lparr>r_rest = ?e, r_ok = True\<rparr> db)) = r_rest (snd (read_file (\<lambda>_. now) ?r db)) @ drop n ?e"
    by simp
  with read_file_encoded [OF assms(1-3), of now] assms(4) show False by auto
qed

subsection \<open>Saving\<close>

lemma snap_save_cases:
  assumes "snap_save io path ks fs = (err, fs')"
  shows "(err = None \<longrightarrow> fs' = (fs(path @ ''.tmp'' := None))(path \<mapsto> si_kept io (enc_snapshot ks))) \<and>
    (err \<noteq> None \<longrightarrow> (\<forall>p. p \<noteq> path @ ''.tmp'' \<longrightarrow> fs' p = fs p))"
  using assms writesD [OF writes_snapshot [of ks], of "\<lparr>w_file = [], w_ok = True, w_calls = 0, w_accept = si_accept io\<rparr>"]
  by (auto simp: snap_save_def Let_def split: if_splits)

end
