(* ===== verification/Server.thy ===== *)
theory Server
  imports Shard Snapshot_Correct
begin

section \<open>Starting the server and taking snapshots (\<^verbatim>\<open>src/server/server.cpp\<close>)\<close>

text \<open>
  The number of shards, the start that initialises one shard after another from its files, and the snapshot a forked child
  writes for all of them. Threads, signals and sockets are outside; whether a listener could be opened, a log
  opened and a process forked is given.
\<close>

subsection \<open>Files\<close>

definition shard_path :: "config \<Rightarrow> bytes \<Rightarrow> nat \<Rightarrow> bytes" where
  "shard_path cfg name i = cf_dir cfg @ ''/'' @ name @ ''.'' @ nat_dec i"

definition snap_file :: "config \<Rightarrow> nat \<Rightarrow> bytes" where
  "snap_file cfg i = shard_path cfg (cf_snapshot_path cfg) i"

definition aof_file :: "config \<Rightarrow> nat \<Rightarrow> bytes" where
  "aof_file cfg i = shard_path cfg (cf_aof_path cfg) i"

subsection \<open>Start\<close>

definition shard_count :: "config \<Rightarrow> nat \<Rightarrow> nat" where
  "shard_count cfg cores = (if cf_shards cfg \<noteq> 0 then unat (cf_shards cfg) else if cores \<noteq> 0 then cores else 4)"

text \<open>A shard as constructed; what is in its log file stays there, appends go behind it.\<close>

definition shard_new :: "nat \<Rightarrow> bytes option \<Rightarrow> (nat \<Rightarrow> write_result list) \<Rightarrow> shard" where
  "shard_new i log results =
     (let content = (case log of None \<Rightarrow> [] | Some d \<Rightarrow> d) in
      \<lparr>sh_id = i, sh_db = ks_new, sh_vindex = Map.empty,
       sh_aof = \<lparr>a_open = False, a_policy = EverySec, a_buf = [], a_bytes_written = 0, a_last_fsync_ms = 0,
         a_dirty_since_fsync = False, a_file = content, a_durable = length content, a_writes = results, a_flushes = 0\<rparr>,
       sh_metrics = metrics_new, sh_last_cron_ms = 0\<rparr>)"

record start_env =
  st_listens :: "nat \<Rightarrow> bool"
  st_opens :: "nat \<Rightarrow> bool"
  st_clock :: "nat \<Rightarrow> nat \<Rightarrow> u64"
  st_now :: "nat \<Rightarrow> u64"
  st_exec :: "nat \<Rightarrow> nat \<Rightarrow> exec_env"
  st_writes :: "nat \<Rightarrow> nat \<Rightarrow> write_result list"

definition init_shard :: "config \<Rightarrow> start_env \<Rightarrow> files \<Rightarrow> nat \<Rightarrow> shard option" where
  "init_shard cfg E fs i =
     shard_init cfg (st_clock E i) (st_exec E i) (fs (snap_file cfg i)) (fs (aof_file cfg i)) (st_opens E i) (st_now E i)
       (shard_new i (fs (aof_file cfg i)) (st_writes E i))"

fun start_shards :: "config \<Rightarrow> start_env \<Rightarrow> files \<Rightarrow> nat list \<Rightarrow> shard list option" where
  "start_shards cfg E fs [] = Some []"
| "start_shards cfg E fs (i # is) =
     (if \<not> st_listens E i then None
      else case init_shard cfg E fs i of
             None \<Rightarrow> None
           | Some s \<Rightarrow> map_option ((#) s) (start_shards cfg E fs is))"

definition server_start :: "config \<Rightarrow> nat \<Rightarrow> start_env \<Rightarrow> files \<Rightarrow> shard list option" where
  "server_start cfg cores E fs = start_shards cfg E fs [0..<shard_count cfg cores]"

subsection \<open>Snapshots\<close>

text \<open>The child saves shard after shard and drops the errors; the parent waits for it and reports success.\<close>

definition save_shard :: "config \<Rightarrow> (nat \<Rightarrow> save_io) \<Rightarrow> nat \<times> keyspace \<Rightarrow> files \<Rightarrow> files" where
  "save_shard cfg ios x fs = snd (snap_save (ios (fst x)) (snap_file cfg (fst x)) (snd x) fs)"

definition trigger_snapshot :: "config \<Rightarrow> bool \<Rightarrow> (nat \<Rightarrow> save_io) \<Rightarrow> keyspace list \<Rightarrow> files \<Rightarrow> bytes option \<times> files" where
  "trigger_snapshot cfg forks ios dbs fs =
     (if \<not> cf_snapshot_enabled cfg then (Some ''snapshots disabled'', fs)
      else if \<not> forks then (Some ''fork failed'', fs)
      else (None, foldl (\<lambda>fs x. save_shard cfg ios x fs) fs (enumerate 0 dbs)))"

subsection \<open>The files of different shards are different\<close>

lemma nat_dec_inj: "nat_dec i = nat_dec j \<longleftrightarrow> i = j"
  by (metis dec_val_nat_dec)

lemma nat_dec_no_tmp: "nat_dec i \<noteq> nat_dec j @ ''.tmp''"
proof
  assume "nat_dec i = nat_dec j @ ''.tmp''"
  then have "CHR ''.'' \<in> set (nat_dec i)" by simp
  then show False using nat_dec_digits [of "CHR ''.''" i] by (simp add: is_digit_def)
qed

lemma snap_file_inj: "snap_file cfg i = snap_file cfg j \<longleftrightarrow> i = j"
  by (simp add: snap_file_def shard_path_def nat_dec_inj)

lemma snap_file_tmp: "snap_file cfg i \<noteq> snap_file cfg j @ ''.tmp''"
  using nat_dec_no_tmp [of i j] by (simp add: snap_file_def shard_path_def)

text \<open>Every shard whose save succeeds has its snapshot afterwards.\<close>

definition saves_ok :: "(nat \<Rightarrow> save_io) \<Rightarrow> config \<Rightarrow> nat \<times> keyspace \<Rightarrow> bool" where
  "saves_ok ios cfg x \<longleftrightarrow>
     (\<forall>fs. fst (snap_save (ios (fst x)) (snap_file cfg (fst x)) (snd x) fs) = None) \<and>
     si_kept (ios (fst x)) (enc_snapshot (snd x)) = enc_snapshot (snd x)"

lemma save_shard_files:
  assumes "saves_ok ios cfg x"
  shows "save_shard cfg ios x fs (snap_file cfg i) =
    (if i = fst x then Some (enc_snapshot (snd x)) else fs (snap_file cfg i))"
proof -
  obtain fs' where s: "snap_save (ios (fst x)) (snap_file cfg (fst x)) (snd x) fs = (None, fs')"
    using assms by (cases "snap_save (ios (fst x)) (snap_file cfg (fst x)) (snd x) fs") (auto simp: saves_ok_def dest: spec [of _ fs])
  have "fs' = (fs(snap_file cfg (fst x) @ ''.tmp'' := None))(snap_file cfg (fst x) \<mapsto> enc_snapshot (snd x))"
    using snap_save_cases [OF s] assms by (simp add: saves_ok_def)
  then show ?thesis using s snap_file_inj [of cfg i "fst x"] snap_file_tmp [of cfg i "fst x"]
    by (simp add: save_shard_def)
qed

lemma save_all_files:
  assumes "list_all (saves_ok ios cfg) xs" "distinct (map fst xs)"
  shows "foldl (\<lambda>fs x. save_shard cfg ios x fs) fs xs (snap_file cfg i) =
    (case map_of xs i of Some db \<Rightarrow> Some (enc_snapshot db) | None \<Rightarrow> fs (snap_file cfg i))"
  using assms
proof (induction xs arbitrary: fs)
  case (Cons x xs)
  then have "i = fst x \<Longrightarrow> map_of xs i = None" by (simp add: map_of_eq_None_iff)
  then show ?case using Cons save_shard_files [of ios cfg x fs i] by (cases x) (auto split: option.split)
qed simp

end
