(* ===== verification/Persistence_Props.thy ===== *)
theory Persistence_Props
  imports System_Props Server
begin

section \<open>Properties of snapshots\<close>

text \<open>
  Saving a keyspace and starting a shard on the file, saving under failures, and starting on a file that was cut off.
  \<open>enc_snapshot\<close> is the file format, \<open>thaw now\<close> what an entry is after a restart at time \<open>now\<close>.
\<close>

subsection \<open>A concrete keyspace\<close>

definition demo_ks :: keyspace where
  "demo_ks = snd (ks_set ''k'' (StrObj ''7'') ks_new)"

definition demo_io :: save_io where
  "demo_io = \<lparr>si_opens = True, si_accept = (\<lambda>i. 1000), si_kept = (\<lambda>d. d), si_renames = True\<rparr>"

lemma demo_ks_ok: "db_ok demo_ks" "db_abs demo_ks = [''k'' \<mapsto> (AStr ''7'', None)]"
  using db_set [OF db_new(1), of "StrObj ''7''" "''k''"] by (simp_all add: demo_ks_def db_new)

lemma demo_ks_entries: "sw_entries (ks_dict demo_ks) = [(''k'', StrObj ''7'')]"
proof -
  have abs: "sw_abs (ks_dict demo_ks) = [''k'' \<mapsto> StrObj ''7'']"
    using ks_set_abs [OF ks_new_correct(1), of "''k''" "StrObj ''7''"] ks_new_correct(2)
    by (auto simp: demo_ks_def ks_abs_def fun_eq_iff split: if_splits)
  have inv: "sw_inv dict_params (ks_dict demo_ks)" using demo_ks_ok(1) by (simp add: ks_inv_parts)
  have "length (sw_entries (ks_dict demo_ks)) = 1"
    using sw.size_card [OF inv] sw.size_entries [OF inv] abs by simp
  moreover have "set (sw_entries (ks_dict demo_ks)) = {(''k'', StrObj ''7'')}"
    using sw.in_entries [OF inv] abs by (auto split: if_splits)
  ultimately show ?thesis by (cases "sw_entries (ks_dict demo_ks)") auto
qed

lemma demo_ks_storable: "storable_ks demo_ks"
proof -
  have "sw_inv dict_params (ks_dict demo_ks)" using demo_ks_ok(1) by (simp add: ks_inv_parts)
  from sw.size_entries [OF this] show ?thesis by (simp add: storable_ks_def ks_size_def demo_ks_entries)
qed

lemma demo_ks_encoding: "enc_snapshot demo_ks = kMagic @ enc_u64 1 @ [CHR 0x00] @ enc_str ''k'' @ enc_u64 0 @ enc_str ''7''"
proof -
  have "ks_size demo_ks = 1"
    using sw.size_entries [of dict_params "ks_dict demo_ks"] demo_ks_ok(1)
    by (simp add: ks_size_def demo_ks_entries ks_inv_parts)
  moreover have "ks_deadline_or_zero ''k'' demo_ks = 0"
  proof -
    have "sw_abs (ks_expires demo_ks) ''k'' = None"
      using fun_cong [OF demo_ks_ok(2), of "''k''"] by (auto simp: db_abs_def ks_abs_def)
    then show ?thesis using deadline_or_zero [of demo_ks "''k''"] demo_ks_ok(1) by simp
  qed
  ultimately show ?thesis by (simp add: enc_snapshot_def demo_ks_entries enc_entry_def char_of_def)
qed

subsection \<open>Round trip\<close>

text \<open>Restart from a snapshot: a fresh shard that starts on a saved file whose bytes all reached the disk holds
  every key with its value, except those whose deadline has passed; deadlines are kept as absolute times.
  (HyperLogLog values come back as strings, and a deadline 0 as none.)\<close>

theorem snapshot_roundtrip:
  assumes "db_ok ks" "storable_ks ks" "snap_save io path ks fs = (None, fs')"
    "si_kept io (enc_snapshot ks) = enc_snapshot ks" "cf_snapshot_enabled cfg" "sh_db sh = ks_new"
  shows "\<exists>sh'. load_persistence cfg (\<lambda>_. now) X (fs' path) None sh = Inr sh' \<and> db_ok (sh_db sh') \<and>
    sh_view sh' = (\<lambda>k. Option.bind (db_abs ks k) (thaw now))"
proof -
  from load_encoded [OF assms(1,2), of now] obtain db where
    db: "snap_load (\<lambda>_. now) (Some (enc_snapshot ks)) ks_new = (None, db)" "db_ok db"
      "db_abs db = (\<lambda>k. Option.bind (db_abs ks k) (thaw now))" by blast
  have "fs' path = Some (enc_snapshot ks)" using snap_save_cases [OF assms(3)] assms(4) by simp
  then show ?thesis using assms(5,6) db by (simp add: load_persistence_def sh_view_def Let_def)
qed

theorem snapshot_roundtrip_witness:
  "\<exists>sh'. load_persistence (config_default\<lparr>cf_snapshot_enabled := True\<rparr>) (\<lambda>_. 5) (\<lambda>_. demo_exec 5)
      (snd (snap_save demo_io ''dump'' demo_ks Map.empty) ''dump'') None (demo_shard 0) = Inr sh' \<and>
    sh_view sh' = [''k'' \<mapsto> (AStr ''7'', None)]"
proof -
  have "snap_save demo_io ''dump'' demo_ks Map.empty = (None, snd (snap_save demo_io ''dump'' demo_ks Map.empty))"
    by (simp add: snap_save_def demo_io_def write_snapshot_def ks_for_each_def sw_for_each_def demo_ks_entries
        write_object_def w_u8_def w_u32_def w_u64_def w_str_def w_bytes_def Let_def kMagic_def)
  from snapshot_roundtrip [OF demo_ks_ok(1) demo_ks_storable this, of "config_default\<lparr>cf_snapshot_enabled := True\<rparr>"
      "demo_shard 0" 5 "\<lambda>_. demo_exec 5"]
  show ?thesis by (auto simp: demo_io_def demo_shard_def demo_ks_ok(2) fun_eq_iff)
qed

subsection \<open>Failures\<close>

text \<open>A snapshot that cannot be written or renamed leaves the previous one, and all other files but the
  temporary one, as they were; a snapshot that is reported as saved has replaced it by the bytes that reached the
  disk. Nothing checks that these are all of them.\<close>

theorem snapshot_save_atomic:
  assumes "snap_save io path ks fs = (err, fs')"
  shows "(err \<noteq> None \<longrightarrow> (\<forall>p. p \<noteq> path @ ''.tmp'' \<longrightarrow> fs' p = fs p)) \<and>
    (err = None \<longrightarrow> fs' = (fs(path @ ''.tmp'' := None))(path \<mapsto> si_kept io (enc_snapshot ks)))"
  using snap_save_cases [OF assms] by blast

theorem snapshot_save_atomic_witness:
  "snd (snap_save (demo_io\<lparr>si_accept := (\<lambda>i. 2)\<rparr>) ''dump'' demo_ks [''dump'' \<mapsto> ''old'']) ''dump'' = Some ''old''"
proof -
  let ?io = "demo_io\<lparr>si_accept := (\<lambda>i. 2)\<rparr>" and ?fs = "[''dump'' \<mapsto> ''old'']"
  have "fst (snap_save ?io ''dump'' demo_ks ?fs) = Some ''snapshot write failed''"
    by (simp add: snap_save_def demo_io_def write_snapshot_def ks_for_each_def sw_for_each_def demo_ks_entries
        write_object_def w_u8_def w_u32_def w_u64_def w_str_def w_bytes_def Let_def kMagic_def)
  then show ?thesis
    using snapshot_save_atomic [OF prod.collapse [symmetric], of ?io "''dump''" demo_ks ?fs] by (simp del: prod.collapse)
qed

text \<open>C37. A snapshot that was cut off is refused: a shard does not start on a proper beginning of a snapshot file,
  wherever it ends.\<close>

theorem truncated_snapshot_refused:
  assumes "db_ok ks" "storable_ks ks" "n < length (enc_snapshot ks)" "cf_snapshot_enabled cfg" "sh_db sh = ks_new"
  shows "\<exists>e. load_persistence cfg (\<lambda>_. now) X (Some (take n (enc_snapshot ks))) log sh = Inl e"
proof -
  obtain err db where l: "snap_load (\<lambda>_. now) (Some (take n (enc_snapshot ks))) ks_new = (err, db)" by fastforce
  with load_truncated [OF assms(1,2) db_new(1) assms(3), of now] have "err \<noteq> None" by simp
  then show ?thesis using l assms(4,5) by (auto simp: load_persistence_def)
qed

theorem truncated_snapshot_refused_witness:
  "\<exists>e. load_persistence (config_default\<lparr>cf_snapshot_enabled := True\<rparr>) (\<lambda>_. 5) (\<lambda>_. demo_exec 5)
      (Some (take 20 (enc_snapshot demo_ks))) None (demo_shard 0) = Inl e"
  by (rule truncated_snapshot_refused [OF demo_ks_ok(1) demo_ks_storable])
     (simp_all add: demo_ks_encoding enc_str_def enc_u64_def kMagic_def demo_shard_def)

subsection \<open>The whole server\<close>







end
