(* ===== verification/Mailbox.thy ===== *)
theory Mailbox
  imports Kv_Prelude
begin

section \<open>The mailbox of a shard (\<^verbatim>\<open>include/blazekv/mpsc.hpp\<close>)\<close>

text \<open>
  The lock-free queue through which shards send each other work: producers push onto a linked stack with a
  compare-and-swap, the owner takes the whole stack with one exchange and turns it around. The model has the
  heap of nodes and one atomic action per access to shared memory, so that every interleaving of the threads
  is a list of actions. A relaxed load may answer any pointer, a weak compare-and-swap may fail without
  reason, and an address may be used again once its node is deleted.
\<close>

subsection \<open>State\<close>

record 'v mnode =
  mn_next :: "nat option"
  mn_value :: 'v

text \<open>Where a producer is in \<open>push\<close>: about to write \<open>node->next\<close>, or about to compare and swap.\<close>

datatype producer = Idle | Linking nat "nat option" | Swapping nat "nat option"

text \<open>Where the owner is in \<open>drain\<close>: outside, turning the list around, or running the items.\<close>

datatype consumer = Outside | Turning "nat option" "nat option" | Running "nat option"

text \<open>\<open>mb_pushed\<close> lists the values in the order in which their pushes took effect, \<open>mb_out\<close> those the owner has
  run; \<open>mb_bad\<close> is set by an access to a node that is not allocated.\<close>

record 'v mailbox =
  mb_heap :: "nat \<Rightarrow> 'v mnode option"
  mb_head :: "nat option"
  mb_prod :: "nat \<Rightarrow> producer"
  mb_cons :: consumer
  mb_pushed :: "'v list"
  mb_out :: "'v list"
  mb_bad :: bool

definition mb_new :: "'v mailbox" where
  "mb_new = \<lparr>mb_heap = Map.empty, mb_head = None, mb_prod = (\<lambda>t. Idle), mb_cons = Outside, mb_pushed = [],
     mb_out = [], mb_bad = False\<rparr>"

subsection \<open>Actions of \<open>push\<close>\<close>

text \<open>Producer \<open>t\<close> allocates the node at \<open>n\<close> and loads the head, seeing \<open>h\<close>.\<close>

definition push_alloc :: "nat \<Rightarrow> nat \<Rightarrow> 'v \<Rightarrow> nat option \<Rightarrow> 'v mailbox \<Rightarrow> 'v mailbox option" where
  "push_alloc t n v h s =
     (if mb_prod s t = Idle \<and> mb_heap s n = None
      then Some (s\<lparr>mb_heap := (mb_heap s)(n \<mapsto> \<lparr>mn_next = None, mn_value = v\<rparr>),
                   mb_prod := (mb_prod s)(t := Linking n h)\<rparr>)
      else None)"

definition push_link :: "nat \<Rightarrow> 'v mailbox \<Rightarrow> 'v mailbox option" where
  "push_link t s =
     (case mb_prod s t of
        Linking n h \<Rightarrow>
          (case mb_heap s n of
             None \<Rightarrow> Some (s\<lparr>mb_bad := True\<rparr>)
           | Some nd \<Rightarrow> Some (s\<lparr>mb_heap := (mb_heap s)(n \<mapsto> nd\<lparr>mn_next := h\<rparr>),
                              mb_prod := (mb_prod s)(t := Swapping n h)\<rparr>))
      | _ \<Rightarrow> None)"

text \<open>\<open>compare_exchange_weak\<close>: on failure the expected pointer becomes the head.\<close>

definition push_swap :: "nat \<Rightarrow> bool \<Rightarrow> 'v mailbox \<Rightarrow> 'v mailbox option" where
  "push_swap t spurious s =
     (case mb_prod s t of
        Swapping n h \<Rightarrow>
          if mb_head s = h \<and> \<not> spurious
          then (case mb_heap s n of
                  None \<Rightarrow> Some (s\<lparr>mb_bad := True\<rparr>)
                | Some nd \<Rightarrow> Some (s\<lparr>mb_head := Some n, mb_prod := (mb_prod s)(t := Idle),
                                   mb_pushed := mb_pushed s @ [mn_value nd]\<rparr>))
          else Some (s\<lparr>mb_prod := (mb_prod s)(t := Linking n (mb_head s))\<rparr>)
      | _ \<Rightarrow> None)"

subsection \<open>Actions of \<open>drain\<close>\<close>

definition drain_take :: "'v mailbox \<Rightarrow> 'v mailbox option" where
  "drain_take s =
     (if mb_cons s = Outside
      then Some (s\<lparr>mb_head := None,
             mb_cons := (if mb_head s = None then Outside else Turning None (mb_head s))\<rparr>)
      else None)"

text \<open>One round of the loop that reverses the list, or its end.\<close>

definition drain_turn :: "'v mailbox \<Rightarrow> 'v mailbox option" where
  "drain_turn s =
     (case mb_cons s of
        Turning prev None \<Rightarrow> Some (s\<lparr>mb_cons := Running prev\<rparr>)
      | Turning prev (Some a) \<Rightarrow>
          (case mb_heap s a of
             None \<Rightarrow> Some (s\<lparr>mb_bad := True\<rparr>)
           | Some nd \<Rightarrow> Some (s\<lparr>mb_heap := (mb_heap s)(a \<mapsto> nd\<lparr>mn_next := prev\<rparr>),
                              mb_cons := Turning (Some a) (mn_next nd)\<rparr>))
      | _ \<Rightarrow> None)"

text \<open>One round of the loop that runs the items and deletes the nodes, or its end.\<close>

definition drain_run :: "'v mailbox \<Rightarrow> 'v mailbox option" where
  "drain_run s =
     (case mb_cons s of
        Running None \<Rightarrow> Some (s\<lparr>mb_cons := Outside\<rparr>)
      | Running (Some a) \<Rightarrow>
          (case mb_heap s a of
             None \<Rightarrow> Some (s\<lparr>mb_bad := True\<rparr>)
           | Some nd \<Rightarrow> Some (s\<lparr>mb_heap := (mb_heap s)(a := None), mb_out := mb_out s @ [mn_value nd],
                              mb_cons := Running (mn_next nd)\<rparr>))
      | _ \<Rightarrow> None)"

datatype 'v mb_action =
    Alloc nat nat 'v "nat option"
  | Link nat
  | Swap nat bool
  | Take
  | Turn
  | RunItem

fun mb_do :: "'v mb_action \<Rightarrow> 'v mailbox \<Rightarrow> 'v mailbox option" where
  "mb_do (Alloc t n v h) s = push_alloc t n v h s"
| "mb_do (Link t) s = push_link t s"
| "mb_do (Swap t b) s = push_swap t b s"
| "mb_do Take s = drain_take s"
| "mb_do Turn s = drain_turn s"
| "mb_do RunItem s = drain_run s"

fun mb_history :: "'v mb_action list \<Rightarrow> 'v mailbox \<Rightarrow> 'v mailbox option" where
  "mb_history [] s = Some s"
| "mb_history (a # as) s = (case mb_do a s of None \<Rightarrow> None | Some s' \<Rightarrow> mb_history as s')"

subsection \<open>Linked lists in the heap\<close>

fun chain :: "(nat \<Rightarrow> 'v mnode option) \<Rightarrow> nat option \<Rightarrow> nat list \<Rightarrow> bool" where
  "chain H p [] \<longleftrightarrow> p = None"
| "chain H p (a # as) \<longleftrightarrow> p = Some a \<and> (\<exists>nd. H a = Some nd \<and> chain H (mn_next nd) as)"

lemma chain_other [simp]: "a \<notin> set as \<Longrightarrow> chain (H(a := x)) p as = chain H p as"
  by (induction as arbitrary: p) auto

lemma chain_None: "chain H None as \<longleftrightarrow> as = []"
  by (cases as) auto

lemma chain_Some: "chain H (Some a) as \<longleftrightarrow> (\<exists>nd as'. as = a # as' \<and> H a = Some nd \<and> chain H (mn_next nd) as')"
  by (cases as) auto

lemma chain_allocated: "chain H p as \<Longrightarrow> a \<in> set as \<Longrightarrow> H a \<noteq> None"
  by (induction as arbitrary: p) auto

definition vals :: "(nat \<Rightarrow> 'v mnode option) \<Rightarrow> nat list \<Rightarrow> 'v list" where
  "vals H as = map (\<lambda>a. mn_value (the (H a))) as"

lemma vals_simps [simp]: "vals H [] = []" "vals H (a # as) = mn_value (the (H a)) # vals H as"
  "vals H (as @ bs) = vals H as @ vals H bs"
  by (simp_all add: vals_def)

lemma vals_other [simp]: "a \<notin> set as \<Longrightarrow> vals (H(a := x)) as = vals H as"
  by (auto simp: vals_def)

lemma vals_relinked: "H a = Some nd \<Longrightarrow> vals (H(a \<mapsto> nd\<lparr>mn_next := p\<rparr>)) as = vals H as"
  by (auto simp: vals_def)

subsection \<open>The invariant\<close>

text \<open>The nodes of the batch the owner works on, in the order in which it will run them.\<close>

fun batch :: "(nat \<Rightarrow> 'v mnode option) \<Rightarrow> consumer \<Rightarrow> nat list \<Rightarrow> bool" where
  "batch H Outside bs \<longleftrightarrow> bs = []"
| "batch H (Turning p l) bs \<longleftrightarrow> (\<exists>ps ls. chain H p ps \<and> chain H l ls \<and> bs = rev ls @ ps)"
| "batch H (Running p) bs \<longleftrightarrow> chain H p bs"

lemma batch_other [simp]: "a \<notin> set bs \<Longrightarrow> batch (H(a := x)) c bs = batch H c bs"
  by (cases c) (auto, (metis UnI1 UnI2 chain_other set_append set_rev)+)

lemma batch_allocated: "batch H c bs \<Longrightarrow> a \<in> set bs \<Longrightarrow> H a \<noteq> None"
  by (cases c) (auto dest: chain_allocated)

fun owns :: "producer \<Rightarrow> nat \<Rightarrow> bool" where
  "owns Idle n \<longleftrightarrow> False"
| "owns (Linking m h) n \<longleftrightarrow> n = m"
| "owns (Swapping m h) n \<longleftrightarrow> n = m"

text \<open>The stack, the batch and the nodes of the producers are separate lists and nodes of the heap; the node of
  a producer that is about to swap points to the head it expects; and what was pushed is what has been run,
  then the batch, then the stack from its bottom.\<close>

definition prods_ok :: "(nat \<Rightarrow> 'v mnode option) \<Rightarrow> (nat \<Rightarrow> producer) \<Rightarrow> nat set \<Rightarrow> bool" where
  "prods_ok H P used \<longleftrightarrow>
     (\<forall>t n. owns (P t) n \<longrightarrow> H n \<noteq> None \<and> n \<notin> used \<and> (\<forall>t'. owns (P t') n \<longrightarrow> t' = t)) \<and>
     (\<forall>t n h nd. P t = Swapping n h \<longrightarrow> H n = Some nd \<longrightarrow> mn_next nd = h)"

definition mb_ok :: "'v mailbox \<Rightarrow> nat list \<Rightarrow> nat list \<Rightarrow> bool" where
  "mb_ok s st bs \<longleftrightarrow>
     chain (mb_heap s) (mb_head s) st \<and> batch (mb_heap s) (mb_cons s) bs \<and> distinct (st @ bs) \<and>
     prods_ok (mb_heap s) (mb_prod s) (set st \<union> set bs) \<and>
     mb_pushed s = mb_out s @ vals (mb_heap s) bs @ vals (mb_heap s) (rev st) \<and> \<not> mb_bad s"

definition mb_inv :: "'v mailbox \<Rightarrow> bool" where
  "mb_inv s \<longleftrightarrow> (\<exists>st bs. mb_ok s st bs)"

lemma mb_inv_new: "mb_inv mb_new"
  by (auto simp: mb_inv_def mb_ok_def mb_new_def prods_ok_def intro!: exI [of _ "[]"])

lemma push_alloc_ok: "mb_ok s st bs \<Longrightarrow> push_alloc t n v h s = Some s' \<Longrightarrow> mb_ok s' st bs"
proof -
  assume ok: "mb_ok s st bs" and "push_alloc t n v h s = Some s'"
  then have p: "mb_prod s t = Idle" "mb_heap s n = None"
    "s' = s\<lparr>mb_heap := (mb_heap s)(n \<mapsto> \<lparr>mn_next = None, mn_value = v\<rparr>), mb_prod := (mb_prod s)(t := Linking n h)\<rparr>"
    by (auto simp: push_alloc_def split: if_splits)
  have free: "n \<notin> set st" "n \<notin> set bs"
    using ok p(2) chain_allocated batch_allocated unfolding mb_ok_def by fastforce+
  have "\<not> owns (mb_prod s u) n" for u using ok p(2) unfolding mb_ok_def prods_ok_def by metis
  moreover from this have "mb_prod s u \<noteq> Swapping n g" for u g by (metis owns.simps(3))
  ultimately have "prods_ok (mb_heap s') (mb_prod s') (set st \<union> set bs)"
    using ok free p by (auto simp: mb_ok_def prods_ok_def)
  then show ?thesis using ok free p(3) by (simp add: mb_ok_def)
qed

lemma push_link_ok: "mb_ok s st bs \<Longrightarrow> push_link t s = Some s' \<Longrightarrow> mb_ok s' st bs"
proof -
  assume ok: "mb_ok s st bs" and l: "push_link t s = Some s'"
  then obtain n h where p: "mb_prod s t = Linking n h" by (auto simp: push_link_def split: producer.splits)
  from ok have "owns (mb_prod s t) n \<longrightarrow> mb_heap s n \<noteq> None \<and> n \<notin> set st \<union> set bs"
    unfolding mb_ok_def prods_ok_def by blast
  with p obtain nd where nd: "mb_heap s n = Some nd" "n \<notin> set st" "n \<notin> set bs" by auto
  have s': "s' = s\<lparr>mb_heap := (mb_heap s)(n \<mapsto> nd\<lparr>mn_next := h\<rparr>), mb_prod := (mb_prod s)(t := Swapping n h)\<rparr>"
    using l p nd by (simp add: push_link_def)
  have other: "mb_prod s u \<noteq> Swapping n g" if "u \<noteq> t" for u g
    using ok p that unfolding mb_ok_def prods_ok_def by (metis owns.simps(2,3))
  have "prods_ok (mb_heap s') (mb_prod s') (set st \<union> set bs)"
    using ok p nd other unfolding s' mb_ok_def prods_ok_def by (auto split: if_splits)
  then show ?thesis using ok nd unfolding s' by (simp add: mb_ok_def)
qed

lemma push_swap_ok: "mb_ok s st bs \<Longrightarrow> push_swap t b s = Some s' \<Longrightarrow> \<exists>st'. mb_ok s' st' bs"
proof -
  assume ok: "mb_ok s st bs" and l: "push_swap t b s = Some s'"
  then obtain n h where p: "mb_prod s t = Swapping n h" by (auto simp: push_swap_def split: producer.splits)
  from ok have own: "owns (mb_prod s t) n \<longrightarrow> mb_heap s n \<noteq> None \<and> n \<notin> set st \<union> set bs" "prods_ok (mb_heap s) (mb_prod s) (set st \<union> set bs)"
    unfolding mb_ok_def prods_ok_def by blast+
  with p obtain nd where nd: "mb_heap s n = Some nd" "n \<notin> set st" "n \<notin> set bs" "mn_next nd = h"
    by (auto simp: prods_ok_def)
  show ?thesis
  proof (cases "mb_head s = h \<and> \<not> b")
    case True
    then have s': "s' = s\<lparr>mb_head := Some n, mb_prod := (mb_prod s)(t := Idle), mb_pushed := mb_pushed s @ [mn_value nd]\<rparr>"
      using l p nd by (simp add: push_swap_def)
    have "\<not> owns (mb_prod s u) n" if "u \<noteq> t" for u
      using own(2) p that unfolding prods_ok_def by (metis owns.simps(3))
    then have "prods_ok (mb_heap s') (mb_prod s') (set (n # st) \<union> set bs)"
      using own(2) unfolding s' prods_ok_def by (auto split: if_splits)
    then have "mb_ok s' (n # st) bs" using ok nd True unfolding s' by (simp add: mb_ok_def)
    then show ?thesis by blast
  next
    case False
    then have s': "s' = s\<lparr>mb_prod := (mb_prod s)(t := Linking n (mb_head s))\<rparr>"
      using l p by (auto simp: push_swap_def)
    have "owns (((mb_prod s)(t := Linking n (mb_head s))) u) m \<longleftrightarrow> owns (mb_prod s u) m" for u m using p by simp
    then have "prods_ok (mb_heap s') (mb_prod s') (set st \<union> set bs)"
      using own(2) unfolding s' prods_ok_def by (simp del: fun_upd_apply) (metis fun_upd_apply producer.distinct(5))
    then show ?thesis using ok unfolding s' by (auto simp: mb_ok_def)
  qed
qed

lemma drain_take_ok: "mb_ok s st bs \<Longrightarrow> drain_take s = Some s' \<Longrightarrow> mb_ok s' [] (rev st @ bs)"
  by (auto simp: drain_take_def mb_ok_def chain_None Un_commute split: if_splits)

lemma drain_turn_ok: "mb_ok s st bs \<Longrightarrow> drain_turn s = Some s' \<Longrightarrow> mb_ok s' st bs"
proof -
  assume ok: "mb_ok s st bs" and l: "drain_turn s = Some s'"
  then obtain prev list where c: "mb_cons s = Turning prev list" by (auto simp: drain_turn_def split: consumer.splits)
  with ok obtain ps ls where b: "chain (mb_heap s) prev ps" "chain (mb_heap s) list ls" "bs = rev ls @ ps"
    by (auto simp: mb_ok_def)
  show ?thesis
  proof (cases list)
    case None
    then show ?thesis using ok l b c by (auto simp: drain_turn_def mb_ok_def chain_None)
  next
    case (Some a)
    with b(2) obtain nd ls' where n: "ls = a # ls'" "mb_heap s a = Some nd" "chain (mb_heap s) (mn_next nd) ls'"
      by (auto simp: chain_Some)
    let ?H = "(mb_heap s)(a \<mapsto> nd\<lparr>mn_next := prev\<rparr>)"
    have s': "s' = s\<lparr>mb_heap := ?H, mb_cons := Turning (Some a) (mn_next nd)\<rparr>"
      using l c Some n by (simp add: drain_turn_def)
    have free: "a \<notin> set ls'" "a \<notin> set ps" "a \<notin> set st" using ok n b(3) by (auto simp: mb_ok_def)
    have "batch ?H (Turning (Some a) (mn_next nd)) bs"
      unfolding batch.simps by (rule exI [where x = "a # ps"], rule exI [where x = ls']) (use b(1) n free in \<open>simp add: b(3)\<close>)
    moreover have "\<not> owns (mb_prod s u) a" for u
    proof
      assume "owns (mb_prod s u) a"
      then have "a \<notin> set st \<union> set bs" using ok unfolding mb_ok_def prods_ok_def by metis
      then show False using n b(3) by simp
    qed
    then have "prods_ok ?H (mb_prod s) (set st \<union> set bs)"
      using ok unfolding mb_ok_def prods_ok_def by (metis fun_upd_apply option.distinct(1) owns.simps(3))
    moreover have "vals ?H as = vals (mb_heap s) as" for as by (rule vals_relinked) (rule n(2))
    ultimately show ?thesis using ok free unfolding s' by (simp add: mb_ok_def)
  qed
qed

lemma drain_run_ok: "mb_ok s st bs \<Longrightarrow> drain_run s = Some s' \<Longrightarrow> \<exists>bs'. mb_ok s' st bs'"
proof -
  assume ok: "mb_ok s st bs" and l: "drain_run s = Some s'"
  then obtain p where c: "mb_cons s = Running p" by (auto simp: drain_run_def split: consumer.splits)
  show ?thesis
  proof (cases p)
    case None
    then show ?thesis using ok l c by (auto simp: drain_run_def mb_ok_def chain_None)
  next
    case (Some a)
    with ok c obtain nd bs' where n: "bs = a # bs'" "mb_heap s a = Some nd" "chain (mb_heap s) (mn_next nd) bs'"
      by (auto simp: mb_ok_def chain_Some)
    let ?H = "(mb_heap s)(a := None)"
    have s': "s' = s\<lparr>mb_heap := ?H, mb_out := mb_out s @ [mn_value nd], mb_cons := Running (mn_next nd)\<rparr>"
      using l c Some n by (simp add: drain_run_def)
    have free: "a \<notin> set bs'" "a \<notin> set st" using ok n by (auto simp: mb_ok_def)
    have "\<not> owns (mb_prod s u) a" for u
    proof
      assume "owns (mb_prod s u) a"
      then have "a \<notin> set st \<union> set bs" using ok unfolding mb_ok_def prods_ok_def by metis
      then show False using n by simp
    qed
    then have "prods_ok ?H (mb_prod s) (set st \<union> set bs')"
      using ok n unfolding mb_ok_def prods_ok_def
      by (metis Un_iff fun_upd_apply list.set_intros(2) owns.simps(3))
    then have "mb_ok s' st bs'" using ok free n unfolding s' by (simp add: mb_ok_def)
    then show ?thesis by blast
  qed
qed

lemma mb_do_ok:
  assumes "mb_ok s st bs" "mb_do a s = Some s'" shows "mb_inv s'"
proof (cases a)
  case (Alloc t n v h)
  then show ?thesis using push_alloc_ok [OF assms(1)] assms(2) unfolding mb_inv_def by fastforce
next
  case (Link t)
  then show ?thesis using push_link_ok [OF assms(1)] assms(2) unfolding mb_inv_def by fastforce
next
  case (Swap t b)
  then show ?thesis using push_swap_ok [OF assms(1)] assms(2) unfolding mb_inv_def by fastforce
next
  case Take
  then show ?thesis using drain_take_ok [OF assms(1)] assms(2) unfolding mb_inv_def by fastforce
next
  case Turn
  then show ?thesis using drain_turn_ok [OF assms(1)] assms(2) unfolding mb_inv_def by fastforce
next
  case RunItem
  then show ?thesis using drain_run_ok [OF assms(1)] assms(2) unfolding mb_inv_def by fastforce
qed

lemma mb_do_inv: "mb_inv s \<Longrightarrow> mb_do a s = Some s' \<Longrightarrow> mb_inv s'"
  using mb_do_ok unfolding mb_inv_def [of s] by blast

lemma mb_history_inv: "mb_inv s \<Longrightarrow> mb_history as s = Some s' \<Longrightarrow> mb_inv s'"
  by (induction as arbitrary: s) (auto split: option.splits dest: mb_do_inv)

subsection \<open>First in, first out\<close>

lemma mb_inv_fifo:
  assumes "mb_inv s"
  shows "\<not> mb_bad s \<and> (\<exists>waiting. mb_pushed s = mb_out s @ waiting \<and>
    (waiting = [] \<longleftrightarrow> mb_head s = None \<and> mb_cons s \<in> {Outside, Turning None None, Running None}))"
proof -
  from assms obtain st bs where ok: "mb_ok s st bs" by (auto simp: mb_inv_def)
  let ?w = "vals (mb_heap s) bs @ vals (mb_heap s) (rev st)"
  have "st = [] \<longleftrightarrow> mb_head s = None" using ok by (cases st) (auto simp: mb_ok_def chain_None)
  moreover have "bs = [] \<longleftrightarrow> mb_cons s \<in> {Outside, Turning None None, Running None}"
  proof (cases "mb_cons s")
    case Outside
    then show ?thesis using ok by (simp add: mb_ok_def)
  next
    case (Turning p l)
    with ok obtain ps ls where "chain (mb_heap s) p ps" "chain (mb_heap s) l ls" "bs = rev ls @ ps"
      by (auto simp: mb_ok_def)
    then show ?thesis using Turning by (cases ps; cases ls) simp_all
  next
    case (Running p)
    then show ?thesis using ok by (cases bs) (simp_all add: mb_ok_def)
  qed
  moreover have "?w = [] \<longleftrightarrow> bs = [] \<and> st = []" by (simp add: vals_def)
  moreover have "mb_pushed s = mb_out s @ ?w" "\<not> mb_bad s" using ok by (simp_all add: mb_ok_def)
  ultimately show ?thesis by metis
qed

text \<open>C4. Whatever the threads do, the owner runs the values in the order of the pushes, each once, and no access
  leaves the allocated nodes; when the stack is empty and no batch is under way, all pushed values have been run.\<close>

theorem mailbox_is_fifo:
  assumes "mb_history as mb_new = Some s"
  shows "\<not> mb_bad s \<and> (\<exists>waiting. mb_pushed s = mb_out s @ waiting \<and>
    (waiting = [] \<longleftrightarrow> mb_head s = None \<and> mb_cons s \<in> {Outside, Turning None None, Running None}))"
  by (rule mb_inv_fifo [OF mb_history_inv [OF mb_inv_new assms]])

text \<open>Two producers race, one swap fails, and the owner takes both values in the order of the swaps.\<close>

definition demo_race :: "nat mb_action list" where
  "demo_race = [Alloc 0 10 7 None, Alloc 1 20 8 None, Link 0, Link 1, Swap 1 False, Swap 0 False, Link 0, Swap 0 False,
     Take, Turn, Turn, Turn, RunItem, RunItem, RunItem]"

theorem mailbox_is_fifo_witness:
  "map_option mb_out (mb_history demo_race mb_new) = Some [8, 7] \<and>
   (\<exists>s. mb_history demo_race mb_new = Some s \<and> \<not> mb_bad s)"
proof -
  have out: "map_option mb_out (mb_history demo_race mb_new) = Some [8, 7]"
    by (simp add: demo_race_def mb_new_def push_alloc_def push_link_def push_swap_def drain_take_def drain_turn_def
        drain_run_def)
  then obtain s where "mb_history demo_race mb_new = Some s" by auto
  with mailbox_is_fifo [OF this] out show ?thesis by simp
qed

end
