(* ===== verification/Arena.thy ===== *)
theory Arena
  imports Kv_Prelude "HOL-Library.Multiset"
begin

section \<open>Slab and bump allocators (\<^verbatim>\<open>include/blazekv/arena.hpp\<close>)\<close>

text \<open>
  Addresses are natural numbers. The free lists run through the \<open>next\<close> fields that the allocator keeps in the blocks
  it has not handed out; the state holds these fields as a function of the address of the block. What \<open>malloc\<close> and
  \<open>operator new\<close> answer is a parameter of each call. The code does not test the answer of \<open>malloc\<close>: the model sets
  \<open>sa_ub\<close> where it would write through a null pointer.
\<close>

subsection \<open>The slab allocator\<close>

definition kAlign :: nat where "kAlign = 16"
definition kMaxSmall :: nat where "kMaxSmall = 512"
definition kSlabSize :: nat where "kSlabSize = 1048576"
definition kNumClasses :: nat where "kNumClasses = kMaxSmall div kAlign"

lemmas sa_consts = kAlign_def kMaxSmall_def kSlabSize_def kNumClasses_def

record slabs =
  sa_next :: "nat \<Rightarrow> nat option"
  sa_free :: "nat option list"
  sa_slabs :: "nat list"
  sa_live :: u64
  sa_large :: u64
  sa_ub :: bool

record heap_env =
  malloc_ret :: "nat option"
  new_ret :: "nat option"

definition sa_new :: slabs where
  "sa_new = \<lparr>sa_next = (\<lambda>_. None), sa_free = replicate kNumClasses None, sa_slabs = [], sa_live = 0, sa_large = 0,
     sa_ub = False\<rparr>"

definition size_class :: "nat \<Rightarrow> nat" where
  "size_class bytes = (bytes + kAlign - 1) div kAlign - 1"

text \<open>The loop of \<open>refill\<close> links the nodes of the slab, each one to the one before it.\<close>

definition carve_step :: "nat \<Rightarrow> nat \<Rightarrow> (nat \<Rightarrow> nat option) \<times> nat option \<Rightarrow> nat \<Rightarrow> (nat \<Rightarrow> nat option) \<times> nat option" where
  "carve_step slab sz hp i = ((fst hp)(slab + i * sz := snd hp), Some (slab + i * sz))"

definition refill :: "nat \<Rightarrow> nat \<Rightarrow> slabs \<Rightarrow> slabs" where
  "refill cls slab s =
     (let sz = (cls + 1) * kAlign; count = kSlabSize div sz;
          (h, prev) = foldl (carve_step slab sz) (sa_next s, None) [0..<count]
      in s\<lparr>sa_next := h, sa_slabs := sa_slabs s @ [slab], sa_free := (sa_free s)[cls := prev]\<rparr>)"

text \<open>The end of \<open>allocate\<close>: unlink the head of the list and count its bytes.\<close>

definition sa_pop :: "nat \<Rightarrow> nat \<Rightarrow> slabs \<Rightarrow> slabs" where
  "sa_pop cls node s =
     s\<lparr>sa_free := (sa_free s)[cls := sa_next s node], sa_live := sa_live s + of_nat ((cls + 1) * kAlign)\<rparr>"

text \<open>The result is None where \<open>operator new\<close> throws and where the code has no defined behaviour.\<close>

definition sa_allocate :: "heap_env \<Rightarrow> nat \<Rightarrow> slabs \<Rightarrow> nat option \<times> slabs" where
  "sa_allocate E bytes0 s =
     (let bytes = (if bytes0 = 0 then 1 else bytes0) in
      if bytes > kMaxSmall then (new_ret E, s\<lparr>sa_large := sa_large s + of_nat bytes\<rparr>)
      else
        let cls = size_class bytes in
        case sa_free s ! cls of
          Some node \<Rightarrow> (Some node, sa_pop cls node s)
        | None \<Rightarrow>
            (case malloc_ret E of
               None \<Rightarrow> (None, s\<lparr>sa_ub := True\<rparr>)
             | Some slab \<Rightarrow>
                 (let s1 = refill cls slab s in
                  case sa_free s1 ! cls of
                    Some node \<Rightarrow> (Some node, sa_pop cls node s1)
                  | None \<Rightarrow> (None, s1\<lparr>sa_ub := True\<rparr>))))"

definition sa_deallocate :: "nat option \<Rightarrow> nat \<Rightarrow> slabs \<Rightarrow> slabs" where
  "sa_deallocate p bytes0 s =
     (case p of
        None \<Rightarrow> s
      | Some a \<Rightarrow>
          (let bytes = (if bytes0 = 0 then 1 else bytes0) in
           if bytes > kMaxSmall then s\<lparr>sa_large := sa_large s - of_nat bytes\<rparr>
           else
             let cls = size_class bytes in
             s\<lparr>sa_next := (sa_next s)(a := sa_free s ! cls), sa_free := (sa_free s)[cls := Some a],
               sa_live := sa_live s - of_nat ((cls + 1) * kAlign)\<rparr>))"

definition live_bytes :: "slabs \<Rightarrow> u64" where
  "live_bytes s = sa_live s"

definition reserved_bytes :: "slabs \<Rightarrow> u64" where
  "reserved_bytes s = of_nat (length (sa_slabs s)) * of_nat kSlabSize + sa_large s"

subsection \<open>The bump arena\<close>

record bump =
  ba_block_size :: u64
  ba_blocks :: "(nat \<times> u64) list"
  ba_cur :: "nat option"
  ba_offset :: u64

definition ba_new :: "u64 \<Rightarrow> bump" where
  "ba_new block = \<lparr>ba_block_size = block, ba_blocks = [], ba_cur = None, ba_offset = 0\<rparr>"

definition align_up :: "u64 \<Rightarrow> u64 \<Rightarrow> u64" where
  "align_up x al = and (x + al - 1) (not (al - 1))"

definition ba_grow :: "nat \<Rightarrow> u64 \<Rightarrow> bump \<Rightarrow> bump" where
  "ba_grow base need a =
     (let sz = (if need < ba_block_size a then ba_block_size a else need);
          blocks = ba_blocks a @ [(base, sz)]
      in a\<lparr>ba_blocks := blocks, ba_cur := Some (length blocks - 1), ba_offset := 0\<rparr>)"

text \<open>\<open>base\<close> is what \<open>malloc\<close> answers if the block has to grow.\<close>

definition ba_allocate :: "nat \<Rightarrow> u64 \<Rightarrow> u64 \<Rightarrow> bump \<Rightarrow> nat \<times> bump" where
  "ba_allocate base bytes al a =
     (let off0 = align_up (ba_offset a) al;
          full = (case ba_cur a of None \<Rightarrow> True | Some i \<Rightarrow> snd (ba_blocks a ! i) < off0 + bytes);
          a1 = (if full then ba_grow base (bytes + al) a else a);
          off = (if full then align_up (ba_offset a1) al else off0)
      in (fst (ba_blocks a1 ! the (ba_cur a1)) + unat off, a1\<lparr>ba_offset := off + bytes\<rparr>))"

definition ba_reset :: "bump \<Rightarrow> bump" where
  "ba_reset a = (if ba_blocks a \<noteq> [] then a\<lparr>ba_cur := Some 0, ba_offset := 0\<rparr> else a)"

section \<open>The allocators hand out memory once\<close>

text \<open>
  The free lists are linked lists through the blocks that are not handed out, and the clients own the live blocks: a
  step of the system allocates, gives a live block back, or writes into one. Over all steps the blocks, free or live,
  are pairwise apart, so no client can disturb another one or a free list.
\<close>

subsection \<open>Linked lists and blocks\<close>

primrec chain :: "(nat \<Rightarrow> nat option) \<Rightarrow> nat option \<Rightarrow> nat list \<Rightarrow> bool" where
  "chain h p [] \<longleftrightarrow> p = None"
| "chain h p (x # xs) \<longleftrightarrow> p = Some x \<and> chain h (h x) xs"

lemma chain_cong: "(\<And>x. x \<in> set xs \<Longrightarrow> h' x = h x) \<Longrightarrow> chain h' p xs \<longleftrightarrow> chain h p xs"
  by (induction xs arbitrary: p) auto

lemma chain_upd: "x \<notin> set xs \<Longrightarrow> chain (h(x := v)) p xs \<longleftrightarrow> chain h p xs"
  by (rule chain_cong) auto

lemma chain_head: "chain h p xs \<Longrightarrow> p = (case xs of [] \<Rightarrow> None | x # _ \<Rightarrow> Some x)"
  by (cases xs) auto

definition apart :: "nat \<times> nat \<Rightarrow> nat \<times> nat \<Rightarrow> bool" where
  "apart x y \<longleftrightarrow> fst x + snd x \<le> fst y \<or> fst y + snd y \<le> fst x"

abbreviation all_apart :: "(nat \<times> nat) list \<Rightarrow> bool" where
  "all_apart \<equiv> sorted_wrt apart"

lemma apart_sym: "apart x y \<longleftrightarrow> apart y x"
  by (auto simp: apart_def)

lemma all_apart_insert: "all_apart (xs @ x # ys) \<longleftrightarrow> all_apart (xs @ ys) \<and> (\<forall>y\<in>set (xs @ ys). apart x y)"
  by (auto simp: sorted_wrt_append apart_sym)

text \<open>The order of the blocks does not matter.\<close>

lemma all_apart_perm: "mset xs = mset ys \<Longrightarrow> all_apart xs \<Longrightarrow> all_apart ys"
proof (induction xs arbitrary: ys)
  case (Cons x xs)
  from Cons.prems(1) have "x \<in> set ys" by (metis list.set_intros(1) mset_eq_setD)
  then obtain us vs where ys: "ys = us @ x # vs" by (auto simp: in_set_conv_decomp)
  then have m: "mset xs = mset (us @ vs)" using Cons.prems(1) by simp
  have "all_apart (us @ vs)" using Cons.IH [OF m] Cons.prems(2) by simp
  moreover have "\<forall>y\<in>set (us @ vs). apart x y" using Cons.prems(2) mset_eq_setD [OF m] by simp
  ultimately show ?case unfolding ys by (simp add: all_apart_insert)
qed simp

definition room :: "nat \<Rightarrow> nat" where
  "room n = (let b = (if n = 0 then 1 else n) in if b > kMaxSmall then b else (size_class b + 1) * kAlign)"

text \<open>A small request fits in the block of its size class, and its class exists.\<close>

lemma size_class_bounds:
  assumes "0 < n" "n \<le> kMaxSmall"
  shows "size_class n < kNumClasses" "n \<le> (size_class n + 1) * kAlign" "(size_class n + 1) * kAlign < n + kAlign"
  using assms by (auto simp: size_class_def sa_consts)

lemma room_fits: "n \<le> room n"
  using size_class_bounds [of n] by (auto simp: room_def Let_def)

abbreviation small :: "nat \<Rightarrow> bool" where
  "small n \<equiv> n \<le> kMaxSmall"

lemma small_room: "small n \<Longrightarrow> room n = (size_class (if n = 0 then 1 else n) + 1) * kAlign"
  by (auto simp: room_def sa_consts Let_def)

lemma large_room: "\<not> small n \<Longrightarrow> room n = n"
  by (auto simp: room_def sa_consts Let_def)

subsection \<open>The invariant\<close>

text \<open>\<open>fs\<close> lists the free blocks with their classes, in the order of the free lists; \<open>L\<close> lists the live ones with
  the sizes that were asked for.\<close>

definition free_cell :: "nat \<times> nat \<Rightarrow> nat \<times> nat" where
  "free_cell x = (snd x, (fst x + 1) * kAlign)"

definition live_cell :: "nat \<times> nat \<Rightarrow> nat \<times> nat" where
  "live_cell x = (fst x, room (snd x))"

definition of_class :: "nat \<Rightarrow> (nat \<times> nat) list \<Rightarrow> nat list" where
  "of_class c fs = map snd (filter (\<lambda>x. fst x = c) fs)"

definition in_slab :: "slabs \<Rightarrow> nat \<times> nat \<Rightarrow> bool" where
  "in_slab s x \<longleftrightarrow> kAlign dvd fst x \<and> (\<exists>b\<in>set (sa_slabs s). b \<le> fst x \<and> fst x + snd x \<le> b + kSlabSize)"

definition off_slabs :: "slabs \<Rightarrow> nat \<times> nat \<Rightarrow> bool" where
  "off_slabs s x \<longleftrightarrow> (\<forall>b\<in>set (sa_slabs s). apart (b, kSlabSize) x)"

definition free_ok :: "slabs \<Rightarrow> (nat \<times> nat) list \<Rightarrow> bool" where
  "free_ok s fs \<longleftrightarrow> length (sa_free s) = kNumClasses \<and>
     (\<forall>c<kNumClasses. chain (sa_next s) (sa_free s ! c) (of_class c fs)) \<and>
     (\<forall>x\<in>set fs. fst x < kNumClasses \<and> in_slab s (free_cell x))"

definition live_ok :: "slabs \<Rightarrow> (nat \<times> nat) list \<Rightarrow> bool" where
  "live_ok s L \<longleftrightarrow> (\<forall>x\<in>set L. if small (snd x) then in_slab s (live_cell x) else off_slabs s (live_cell x))"

definition cells :: "(nat \<times> nat) list \<Rightarrow> (nat \<times> nat) list \<Rightarrow> (nat \<times> nat) list" where
  "cells fs L = map free_cell fs @ map live_cell L"

definition small_bytes :: "(nat \<times> nat) list \<Rightarrow> nat" where
  "small_bytes L = (\<Sum>x\<leftarrow>L. if small (snd x) then room (snd x) else 0)"

definition sa_inv :: "slabs \<Rightarrow> (nat \<times> nat) list \<Rightarrow> bool" where
  "sa_inv s L \<longleftrightarrow> (\<exists>fs. free_ok s fs \<and> all_apart (cells fs L)) \<and> live_ok s L \<and>
     sa_live s = of_nat (small_bytes L) \<and> \<not> sa_ub s"

lemma sa_new_inv: "sa_inv sa_new []"
  by (auto simp: sa_inv_def free_ok_def live_ok_def cells_def small_bytes_def sa_new_def of_class_def intro!: exI [of _ "[]"])

lemma of_class_Cons: "of_class c (x # fs) = (if fst x = c then snd x # of_class c fs else of_class c fs)"
  by (simp add: of_class_def)

lemma of_class_append: "of_class c (fs @ gs) = of_class c fs @ of_class c gs"
  by (simp add: of_class_def)

text \<open>The first free block of a class, taken out of the list.\<close>

lemma of_class_split:
  assumes "of_class c fs = a # as"
  obtains us vs where "fs = us @ (c, a) # vs" "of_class c us = []" "of_class c vs = as"
    "\<And>d. d \<noteq> c \<Longrightarrow> of_class d (us @ vs) = of_class d fs"
proof -
  from assms have "filter (\<lambda>x. fst x = c) fs \<noteq> []" by (auto simp: of_class_def)
  then have "\<exists>x\<in>set fs. fst x = c" by (simp add: filter_empty_conv)
  then obtain us x vs where d: "fs = us @ x # vs" "fst x = c" "\<forall>y\<in>set us. fst y \<noteq> c"
    by (rule split_list_first_propE)
  then have u: "of_class c us = []" by (auto simp: of_class_def filter_empty_conv)
  have x: "x = (c, a)" and v: "of_class c vs = as"
    using assms d u by (auto simp: of_class_append of_class_Cons prod_eq_iff)
  show ?thesis
    by (rule that [of us vs]) (use d(1) x u v in \<open>auto simp: of_class_append of_class_Cons\<close>)
qed

lemma same_slabs:
  assumes "sa_slabs s' = sa_slabs s"
  shows "in_slab s' x = in_slab s x" "off_slabs s' x = off_slabs s x" "live_ok s' L = live_ok s L"
  using assms by (simp_all add: in_slab_def off_slabs_def live_ok_def)

lemma sa_pop_slabs: "sa_slabs (sa_pop c a s) = sa_slabs s"
  by (simp add: sa_pop_def)

lemmas sa_pop_same [simp] = same_slabs [OF sa_pop_slabs]

lemma free_ok_class: "free_ok s fs \<Longrightarrow> c < kNumClasses \<Longrightarrow> chain (sa_next s) (sa_free s ! c) (of_class c fs)"
  by (simp add: free_ok_def)

subsection \<open>Popping, pushing and refilling\<close>

lemma sa_pop_free:
  assumes "free_ok s fs" "c < kNumClasses" "sa_free s ! c = Some a"
  obtains us vs where "fs = us @ (c, a) # vs" "free_ok (sa_pop c a s) (us @ vs)"
proof -
  have ch: "chain (sa_next s) (Some a) (of_class c fs)" using free_ok_class [OF assms(1,2)] assms(3) by simp
  then obtain as where as: "of_class c fs = a # as" "chain (sa_next s) (sa_next s a) as" by (cases "of_class c fs") auto
  from of_class_split [OF as(1)] obtain us vs where d: "fs = us @ (c, a) # vs" "of_class c us = []" "of_class c vs = as"
    "\<And>d. d \<noteq> c \<Longrightarrow> of_class d (us @ vs) = of_class d fs" by blast
  have "chain (sa_next s) ((sa_free s)[c := sa_next s a] ! e) (of_class e (us @ vs))" if e: "e < kNumClasses" for e
    using as(2) d(2-4) free_ok_class [OF assms(1) e] assms(1,2) by (cases "e = c") (auto simp: of_class_append free_ok_def)
  then have "free_ok (sa_pop c a s) (us @ vs)"
    using assms(1) d(1) unfolding free_ok_def sa_pop_same by (auto simp: sa_pop_def)
  then show thesis using that d(1) by blast
qed

lemma room_aligned: "small n \<Longrightarrow> live_cell (a, n) = free_cell (size_class (if n = 0 then 1 else n), a)"
  by (simp add: live_cell_def free_cell_def small_room)

lemma class_bound: "small n \<Longrightarrow> size_class (if n = 0 then 1 else n) < kNumClasses"
  using size_class_bounds(1) [of "if n = 0 then 1 else n"] by (auto simp: sa_consts)

lemma sa_pop_inv:
  assumes "sa_inv s L" "small n" "sa_free s ! size_class (if n = 0 then 1 else n) = Some a"
  shows "sa_inv (sa_pop (size_class (if n = 0 then 1 else n)) a s) ((a, n) # L)"
proof -
  let ?c = "size_class (if n = 0 then 1 else n)"
  obtain fs where fs: "free_ok s fs" "all_apart (cells fs L)" using assms(1) by (auto simp: sa_inv_def)
  from sa_pop_free [OF fs(1) class_bound [OF assms(2)] assms(3)] obtain us vs
    where d: "fs = us @ (?c, a) # vs" "free_ok (sa_pop ?c a s) (us @ vs)" by blast
  have "mset (cells fs L) = mset (cells (us @ vs) ((a, n) # L))"
    using assms(2) by (simp add: cells_def d(1) room_aligned)
  from all_apart_perm [OF this fs(2)] have "all_apart (cells (us @ vs) ((a, n) # L))" .
  moreover have "in_slab s (live_cell (a, n))" using fs(1) d(1) assms(2) by (simp add: free_ok_def room_aligned)
  ultimately show ?thesis
    using assms(1,2) d(2) unfolding sa_inv_def sa_pop_same
    by (auto simp: sa_pop_def live_ok_def small_bytes_def small_room add.commute)
qed

text \<open>A fresh slab is carved into blocks that do not overlap.\<close>

definition carved :: "nat \<Rightarrow> nat \<Rightarrow> nat \<Rightarrow> nat list" where
  "carved slab sz n = rev (map (\<lambda>i. slab + i * sz) [0..<n])"

lemma carve_chain:
  assumes "0 < sz"
  shows "chain (fst (foldl (carve_step slab sz) (h, None) [0..<n])) (snd (foldl (carve_step slab sz) (h, None) [0..<n]))
      (carved slab sz n) \<and>
    (\<forall>x. x \<notin> set (carved slab sz n) \<longrightarrow> fst (foldl (carve_step slab sz) (h, None) [0..<n]) x = h x)"
proof (induction n)
  case (Suc n)
  obtain h' p where r: "foldl (carve_step slab sz) (h, None) [0..<n] = (h', p)" by fastforce
  have "foldl (carve_step slab sz) (h, None) [0..<Suc n] = (h'(slab + n * sz := p), Some (slab + n * sz))"
    using carve_step_def [of slab sz "(h', p)" n] by (simp add: r)
  moreover have "slab + n * sz \<notin> set (carved slab sz n)" using assms by (auto simp: carved_def)
  moreover have "carved slab sz (Suc n) = (slab + n * sz) # carved slab sz n" by (simp add: carved_def)
  moreover have "chain (h'(slab + n * sz := p)) p (carved slab sz n)" using Suc chain_upd [OF calculation(2)] by (simp only: r fst_conv snd_conv)
  ultimately show ?case using Suc by (simp only: r fst_conv snd_conv chain.simps fun_upd_same) simp
qed (simp add: carved_def)

lemma carved_apart: "all_apart (map (\<lambda>a. (a, sz)) (carved slab sz n))"
proof (induction n)
  case (Suc n)
  have "apart (slab + n * sz, sz) (slab + i * sz, sz)" if "i < n" for i
  proof -
    have "i * sz + sz \<le> n * sz" using mult_le_mono1 [of "Suc i" n sz] that by simp
    then show ?thesis by (simp add: apart_def)
  qed
  then show ?case using Suc by (auto simp: carved_def)
qed (simp add: carved_def)

lemma inside_apart: "apart (b, n) y \<Longrightarrow> b \<le> fst x \<Longrightarrow> fst x + snd x \<le> b + n \<Longrightarrow> apart x y"
  by (auto simp: apart_def)

text \<open>What the code relies on: \<open>malloc\<close> and \<open>operator new\<close> answer with aligned memory that nobody holds.\<close>

definition fresh_slab :: "slabs \<Rightarrow> (nat \<times> nat) list \<Rightarrow> nat \<Rightarrow> bool" where
  "fresh_slab s L b \<longleftrightarrow> kAlign dvd b \<and> off_slabs s (b, kSlabSize) \<and>
     (\<forall>x\<in>set L. \<not> small (snd x) \<longrightarrow> apart (b, kSlabSize) (live_cell x))"

definition fresh_large :: "slabs \<Rightarrow> (nat \<times> nat) list \<Rightarrow> nat \<Rightarrow> nat \<Rightarrow> bool" where
  "fresh_large s L a n \<longleftrightarrow> off_slabs s (a, n) \<and> (\<forall>x\<in>set L. \<not> small (snd x) \<longrightarrow> apart (a, n) (live_cell x))"

lemma fresh_slab_apart:
  assumes "free_ok s fs" "live_ok s L" "fresh_slab s L b" "y \<in> set (cells fs L)"
  shows "apart (b, kSlabSize) y"
proof -
  have in_s: "apart (b, kSlabSize) y" if "in_slab s y"
  proof -
    from that obtain d where d: "d \<in> set (sa_slabs s)" "d \<le> fst y" "fst y + snd y \<le> d + kSlabSize" by (auto simp: in_slab_def)
    then have "apart (d, kSlabSize) (b, kSlabSize)" using assms(3) by (auto simp: fresh_slab_def off_slabs_def)
    from inside_apart [OF this d(2,3)] show ?thesis by (simp add: apart_sym)
  qed
  from assms(4) consider x where "x \<in> set fs" "y = free_cell x" | x where "x \<in> set L" "y = live_cell x"
    by (auto simp: cells_def)
  then show ?thesis
  proof cases
    case 1
    then show ?thesis using in_s assms(1) by (simp add: free_ok_def)
  next
    case 2
    then show ?thesis using in_s assms(2,3) by (cases "small (snd x)") (auto simp: live_ok_def fresh_slab_def)
  qed
qed

lemma class_size:
  assumes "c < kNumClasses"
  shows "0 < (c + 1) * kAlign" "0 < kSlabSize div ((c + 1) * kAlign)" "kSlabSize div ((c + 1) * kAlign) * ((c + 1) * kAlign) \<le> kSlabSize"
proof -
  have c: "c < 32" using assms by (simp add: sa_consts)
  show "0 < (c + 1) * kAlign" by (simp add: sa_consts)
  have "(c + 1) * kAlign \<le> kSlabSize" using c by (simp add: sa_consts)
  then show "0 < kSlabSize div ((c + 1) * kAlign)" using \<open>0 < (c + 1) * kAlign\<close> by (simp only: div_greater_zero_iff)
  show "kSlabSize div ((c + 1) * kAlign) * ((c + 1) * kAlign) \<le> kSlabSize" by (rule div_times_less_eq_dividend)
qed

lemma in_slab_mono: "set (sa_slabs s) \<subseteq> set (sa_slabs s') \<Longrightarrow> in_slab s x \<Longrightarrow> in_slab s' x"
  by (auto simp: in_slab_def)

lemma refill_inv:
  assumes inv: "sa_inv s L" and c: "c < kNumClasses" and empty: "sa_free s ! c = None" and fresh: "fresh_slab s L b"
  shows "sa_inv (refill c b s) L" "\<exists>a. sa_free (refill c b s) ! c = Some a"
proof -
  obtain fs where fs: "free_ok s fs" "all_apart (cells fs L)" using inv by (auto simp: sa_inv_def)
  have live: "live_ok s L" using inv by (simp add: sa_inv_def)
  define sz where "sz = (c + 1) * kAlign"
  define n where "n = kSlabSize div sz"
  define new where "new = map (\<lambda>a. (c, a)) (carved b sz n)"
  note cs = class_size [OF c, folded sz_def, folded n_def]
  obtain h p where r: "foldl (carve_step b sz) (sa_next s, None) [0..<n] = (h, p)" by fastforce
  from carve_chain [OF cs(1), of b "sa_next s" n] have h: "chain h p (carved b sz n)"
    "\<And>x. x \<notin> set (carved b sz n) \<Longrightarrow> h x = sa_next s x" by (simp_all add: r)
  have rs: "refill c b s = s\<lparr>sa_next := h, sa_slabs := sa_slabs s @ [b], sa_free := (sa_free s)[c := p]\<rparr>"
    using r by (simp add: refill_def Let_def sz_def n_def)
  have none: "of_class c fs = []" using chain_head [OF free_ok_class [OF fs(1) c]] empty by (cases "of_class c fs") auto
  have at: "b \<le> a \<and> a + sz \<le> b + kSlabSize \<and> kAlign dvd a" if a: "a \<in> set (carved b sz n)" for a
  proof -
    from a obtain i where i: "i < n" "a = b + i * sz" by (auto simp: carved_def)
    have "i * sz + sz \<le> n * sz" using mult_le_mono1 [of "Suc i" n sz] i(1) by simp
    moreover have "kAlign dvd i * sz" by (simp add: sz_def)
    ultimately show ?thesis using i(2) cs(3) fresh by (auto simp: fresh_slab_def)
  qed
  have slab: "apart (a, sz) y" if "a \<in> set (carved b sz n)" "y \<in> set (cells fs L)" for a y
    using inside_apart [OF fresh_slab_apart [OF fs(1) live fresh that(2)], of "(a, sz)"] at [OF that(1)] by simp
  have other: "x \<notin> set (carved b sz n)" if "(e, x) \<in> set fs" for e x
  proof
    assume "x \<in> set (carved b sz n)"
    moreover have "(x, (e + 1) * kAlign) \<in> set (cells fs L)" using that by (force simp: cells_def free_cell_def)
    ultimately have "apart (x, sz) (x, (e + 1) * kAlign)" by (rule slab)
    then show False using cs(1) by (simp add: apart_def sa_consts)
  qed
  have "chain h ((sa_free s)[c := p] ! e) (of_class e (new @ fs))" if e: "e < kNumClasses" for e
  proof (cases "e = c")
    case True
    then have "of_class e (new @ fs) = carved b sz n" using none by (simp add: of_class_append of_class_def new_def comp_def)
    then show ?thesis using True h(1) fs(1) c by (simp add: free_ok_def)
  next
    case False
    then have "of_class e (new @ fs) = of_class e fs" by (simp add: of_class_append of_class_def new_def comp_def)
    moreover have "chain h (sa_free s ! e) (of_class e fs)"
      using free_ok_class [OF fs(1) e] chain_cong [of "of_class e fs" h "sa_next s"] h(2) other by (fastforce simp: of_class_def)
    ultimately show ?thesis using False by simp
  qed
  moreover have "in_slab (refill c b s) (free_cell x)" if "x \<in> set (new @ fs)" for x
    using that fs(1) at by (auto simp: rs in_slab_def free_ok_def new_def free_cell_def sz_def)
  ultimately have f: "free_ok (refill c b s) (new @ fs)" using fs(1) c by (auto simp: free_ok_def rs new_def)
  have "map free_cell new = map (\<lambda>a. (a, sz)) (carved b sz n)" by (simp add: new_def free_cell_def sz_def comp_def)
  then have "all_apart (cells (new @ fs) L)"
    using fs(2) carved_apart [of sz b n] slab by (auto simp: cells_def sorted_wrt_append)
  moreover have "live_ok (refill c b s) L"
    unfolding live_ok_def
  proof
    fix x assume x: "x \<in> set L"
    have "in_slab (refill c b s) (live_cell x)" if "small (snd x)"
    proof (rule in_slab_mono [of s])
      show "in_slab s (live_cell x)" using live x that by (auto simp: live_ok_def)
    qed (auto simp: rs)
    moreover have "off_slabs (refill c b s) (live_cell x)" if "\<not> small (snd x)"
      using live fresh x that by (auto simp: live_ok_def rs off_slabs_def fresh_slab_def)
    ultimately show "if small (snd x) then in_slab (refill c b s) (live_cell x) else off_slabs (refill c b s) (live_cell x)"
      by simp
  qed
  ultimately show "sa_inv (refill c b s) L" using f inv unfolding sa_inv_def by (auto simp: rs)
  have "carved b sz n \<noteq> []" using cs(2) by (simp add: carved_def)
  then show "\<exists>a. sa_free (refill c b s) ! c = Some a"
    using h(1) fs(1) c by (cases "carved b sz n") (auto simp: rs free_ok_def)
qed

subsection \<open>Giving back\<close>

lemma small_bytes_remove:
  assumes "x \<in> set L"
  shows "small_bytes L = small_bytes (remove1 x L) + (if small (snd x) then room (snd x) else 0)"
  unfolding small_bytes_def by (rule sum_list_map_remove1 [OF assms, THEN trans]) (simp add: add.commute)

lemma cells_remove: "x \<in> set L \<Longrightarrow> mset (cells fs L) = add_mset (live_cell x) (mset (cells fs (remove1 x L)))"
proof -
  assume "x \<in> set L"
  then have "mset L = add_mset x (mset (remove1 x L))" by simp
  then have "image_mset live_cell (mset L) = add_mset (live_cell x) (image_mset live_cell (mset (remove1 x L)))"
    by (simp only: image_mset_add_mset)
  then show ?thesis by (simp only: cells_def mset_append mset_map) simp
qed

lemma all_apart_remove: "x \<in> set L \<Longrightarrow> all_apart (cells fs L) \<Longrightarrow> all_apart (cells fs (remove1 x L))"
  using all_apart_perm [of "cells fs L" "live_cell x # cells fs (remove1 x L)"] cells_remove [of x L fs] by simp

lemma deallocate_inv:
  assumes inv: "sa_inv s L" and x: "(a, n) \<in> set L"
  shows "sa_inv (sa_deallocate (Some a) n s) (remove1 (a, n) L)"
proof -
  let ?c = "size_class (if n = 0 then 1 else n)" and ?s = "sa_deallocate (Some a) n s" and ?L = "remove1 (a, n) L"
  obtain fs where fs: "free_ok s fs" "all_apart (cells fs L)" using inv by (auto simp: sa_inv_def)
  have live: "live_ok s L" "sa_live s = of_nat (small_bytes L)" "\<not> sa_ub s" using inv by (auto simp: sa_inv_def)
  have same: "sa_slabs ?s = sa_slabs s" by (auto simp: sa_deallocate_def Let_def)
  have lo: "live_ok ?s ?L"
    using live(1) set_remove1_subset [of "(a, n)" L] unfolding same_slabs [OF same] by (auto simp: live_ok_def)
  show ?thesis
  proof (cases "small n")
    case False
    then have "?s = s\<lparr>sa_large := sa_large s - of_nat n\<rparr>" by (auto simp: sa_deallocate_def Let_def sa_consts)
    moreover from this have "free_ok ?s fs" using fs(1) unfolding free_ok_def same_slabs [OF same] by simp
    moreover have "small_bytes ?L = small_bytes L" using small_bytes_remove [OF x] False by simp
    ultimately show ?thesis
      using lo live(2,3) all_apart_remove [OF x fs(2)] unfolding sa_inv_def by auto
  next
    case True
    have c: "?c < kNumClasses" by (rule class_bound [OF True])
    have s: "?s = s\<lparr>sa_next := (sa_next s)(a := sa_free s ! ?c), sa_free := (sa_free s)[?c := Some a],
      sa_live := sa_live s - of_nat (room n)\<rparr>"
      using True small_room [OF True] by (auto simp: sa_deallocate_def Let_def sa_consts)
    have cell: "live_cell (a, n) = free_cell (?c, a)" by (rule room_aligned [OF True])
    have "mset (cells fs L) = mset (cells ((?c, a) # fs) ?L)" using cells_remove [OF x, of fs] cell by (simp add: cells_def)
    from all_apart_perm [OF this fs(2)] have ap: "all_apart (cells ((?c, a) # fs) ?L)" .
    have no: "a \<noteq> snd y" if "y \<in> set fs" for y
    proof -
      have "apart (free_cell (?c, a)) (free_cell y)" using ap that by (simp add: cells_def)
      then show ?thesis by (auto simp: free_cell_def apart_def sa_consts)
    qed
    have "chain (sa_next ?s) (sa_free ?s ! e) (of_class e ((?c, a) # fs))" if e: "e < kNumClasses" for e
    proof -
      have "a \<notin> set (of_class e fs)" using no by (auto simp: of_class_def)
      then show ?thesis
        using free_ok_class [OF fs(1) e] fs(1) c by (auto simp: s of_class_Cons chain_upd fun_upd_same free_ok_def simp del: fun_upd_apply)
    qed
    moreover have "in_slab s (free_cell (?c, a))" using live(1) x True cell by (auto simp: live_ok_def)
    ultimately have "free_ok ?s ((?c, a) # fs)"
      using fs(1) c unfolding free_ok_def same_slabs [OF same] by (auto simp: s)
    moreover have "sa_live ?s = of_nat (small_bytes ?L)" using small_bytes_remove [OF x] True live(2) by (simp add: s)
    ultimately show ?thesis using lo ap live(3) unfolding sa_inv_def by (auto simp: s)
  qed
qed

subsection \<open>Clients\<close>

text \<open>A client may write anything into a block that it holds: this can change the \<open>next\<close> field of a node only where the
  eight bytes of the field meet the block.\<close>

definition client_writes :: "nat \<times> nat \<Rightarrow> (nat \<Rightarrow> nat option) \<Rightarrow> slabs \<Rightarrow> slabs" where
  "client_writes x h s = s\<lparr>sa_next := (\<lambda>y. if apart (live_cell x) (y, 8) then sa_next s y else h y)\<rparr>"

lemma client_writes_inv:
  assumes inv: "sa_inv s L" and x: "x \<in> set L"
  shows "sa_inv (client_writes x h s) L"
proof -
  let ?s = "client_writes x h s"
  obtain fs where fs: "free_ok s fs" "all_apart (cells fs L)" using inv by (auto simp: sa_inv_def)
  have same: "sa_slabs ?s = sa_slabs s" by (simp add: client_writes_def)
  have n: "sa_next ?s a = sa_next s a" if "a \<in> set (of_class c fs)" for a c
  proof -
    from that have "free_cell (c, a) \<in> set (map free_cell fs)" by (force simp: of_class_def)
    then have "apart (live_cell x) (free_cell (c, a))" using fs(2) x by (auto simp: cells_def sorted_wrt_append apart_sym)
    then have "apart (live_cell x) (a, 8)" by (auto simp: apart_def free_cell_def sa_consts)
    then show ?thesis by (simp add: client_writes_def)
  qed
  have "chain (sa_next ?s) (sa_free ?s ! c) (of_class c fs)" if "c < kNumClasses" for c
    using free_ok_class [OF fs(1) that] chain_cong [of "of_class c fs" "sa_next ?s" "sa_next s"] n by (simp add: client_writes_def)
  then have "free_ok ?s fs" using fs(1) unfolding free_ok_def same_slabs [OF same] by (simp add: client_writes_def)
  then show ?thesis using inv fs(2) unfolding sa_inv_def same_slabs [OF same] by (auto simp: client_writes_def)
qed

subsection \<open>Allocation\<close>

lemma large_apart:
  assumes "free_ok s fs" "live_ok s L" "fresh_large s L a n" "y \<in> set (cells fs L)"
  shows "apart (a, n) y"
proof -
  have in_s: "apart (a, n) y" if "in_slab s y"
  proof -
    from that obtain d where d: "d \<in> set (sa_slabs s)" "d \<le> fst y" "fst y + snd y \<le> d + kSlabSize" by (auto simp: in_slab_def)
    then have "apart (d, kSlabSize) (a, n)" using assms(3) by (auto simp: fresh_large_def off_slabs_def)
    from inside_apart [OF this d(2,3)] show ?thesis by (simp add: apart_sym)
  qed
  from assms(4) consider x where "x \<in> set fs" "y = free_cell x" | x where "x \<in> set L" "y = live_cell x"
    by (auto simp: cells_def)
  then show ?thesis
  proof cases
    case 1
    then show ?thesis using in_s assms(1) by (simp add: free_ok_def)
  next
    case 2
    then show ?thesis using in_s assms(2,3) by (cases "small (snd x)") (auto simp: live_ok_def fresh_large_def)
  qed
qed

lemma allocate_large_inv:
  assumes inv: "sa_inv s L" and n: "\<not> small n" and fresh: "fresh_large s L a n"
  shows "sa_inv (s\<lparr>sa_large := v\<rparr>) ((a, n) # L)"
proof -
  let ?s = "s\<lparr>sa_large := v\<rparr>"
  have same: "sa_slabs ?s = sa_slabs s" by simp
  obtain fs where fs: "free_ok s fs" "all_apart (cells fs L)" using inv by (auto simp: sa_inv_def)
  have live: "live_ok s L" using inv by (simp add: sa_inv_def)
  have cell: "live_cell (a, n) = (a, n)" using n by (simp add: live_cell_def large_room)
  have "all_apart (cells fs ((a, n) # L))"
    using fs(2) large_apart [OF fs(1) live fresh] all_apart_insert [of "map free_cell fs" "(a, n)" "map live_cell L"]
    by (simp add: cells_def cell)
  moreover have "free_ok ?s fs" using fs(1) unfolding free_ok_def same_slabs [OF same] by simp
  moreover have "off_slabs s (a, n)" using fresh by (simp add: fresh_large_def)
  ultimately show ?thesis
    using inv n unfolding sa_inv_def same_slabs [OF same] by (auto simp: live_ok_def cell small_bytes_def)
qed

lemma refill_only: "sa_inv s L \<Longrightarrow> sa_inv (s\<lparr>sa_large := v\<rparr>) L"
  using same_slabs [of "s\<lparr>sa_large := v\<rparr>" s] by (auto simp: sa_inv_def free_ok_def)

lemma allocate_small:
  assumes inv: "sa_inv s L" and n: "small n"
    and m: "malloc_ret E = Some b" "fresh_slab s L b"
  shows "\<exists>a s'. sa_allocate E n s = (Some a, s') \<and> sa_inv s' ((a, n) # L)"
proof -
  let ?c = "size_class (if n = 0 then 1 else n)"
  have sm: "\<not> kMaxSmall < (if n = 0 then 1 else n)" using n by (auto simp: sa_consts)
  show ?thesis
  proof (cases "sa_free s ! ?c")
    case None
    note r = refill_inv [OF inv class_bound [OF n] None m(2)]
    from r(2) obtain a where a: "sa_free (refill ?c b s) ! ?c = Some a" by blast
    then show ?thesis using sa_pop_inv [OF r(1) n a] None m(1) sm by (auto simp: sa_allocate_def Let_def)
  next
    case (Some a)
    then show ?thesis using sa_pop_inv [OF inv n Some] sm by (auto simp: sa_allocate_def Let_def)
  qed
qed

lemma allocate_inv:
  assumes inv: "sa_inv s L" and res: "sa_allocate E n s = (Some a, s')"
    and m: "\<And>b. malloc_ret E = Some b \<Longrightarrow> fresh_slab s L b"
    and l: "\<And>b. new_ret E = Some b \<Longrightarrow> fresh_large s L b n"
  shows "sa_inv s' ((a, n) # L)"
proof (cases "small n")
  case False
  then have "new_ret E = Some a" "s' = s\<lparr>sa_large := sa_large s + of_nat n\<rparr>"
    using res by (auto simp: sa_allocate_def Let_def sa_consts)
  then show ?thesis using allocate_large_inv [OF inv False l] by simp
next
  case True
  let ?c = "size_class (if n = 0 then 1 else n)"
  have sm: "\<not> kMaxSmall < (if n = 0 then 1 else n)" using True by (auto simp: sa_consts)
  show ?thesis
  proof (cases "sa_free s ! ?c")
    case None
    then obtain b where b: "malloc_ret E = Some b" using res sm by (auto simp: sa_allocate_def Let_def split: option.splits)
    from allocate_small [OF inv True b m [OF b]] res show ?thesis by auto
  next
    case (Some x)
    then show ?thesis using sa_pop_inv [OF inv True] res sm by (auto simp: sa_allocate_def Let_def)
  qed
qed

subsection \<open>Steps of an allocator and its clients\<close>

text \<open>\<open>Alloc\<close> covers the answers of the system that the code relies on; \<open>Throw\<close> is a large request that
  \<open>operator new\<close> refuses.\<close>

inductive sa_step :: "slabs \<times> (nat \<times> nat) list \<Rightarrow> slabs \<times> (nat \<times> nat) list \<Rightarrow> bool" where
  Alloc: "sa_allocate E n s = (Some a, s') \<Longrightarrow> (\<And>b. malloc_ret E = Some b \<Longrightarrow> fresh_slab s L b) \<Longrightarrow>
     (\<And>b. new_ret E = Some b \<Longrightarrow> fresh_large s L b n) \<Longrightarrow> sa_step (s, L) (s', (a, n) # L)"
| Throw: "\<not> small n \<Longrightarrow> new_ret E = None \<Longrightarrow> sa_step (s, L) (snd (sa_allocate E n s), L)"
| Free: "(a, n) \<in> set L \<Longrightarrow> sa_step (s, L) (sa_deallocate (Some a) n s, remove1 (a, n) L)"
| Write: "x \<in> set L \<Longrightarrow> sa_step (s, L) (client_writes x h s, L)"

inductive_cases sa_stepE: "sa_step (s, L) (s', L')"

lemma sa_step_inv: "sa_step (s, L) (s', L') \<Longrightarrow> sa_inv s L \<Longrightarrow> sa_inv s' L'"
proof (erule sa_stepE)
  fix E n assume "sa_inv s L" "s' = snd (sa_allocate E n s)" "L' = L" "\<not> small n"
  then show "sa_inv s' L'" using refill_only [of s L] by (auto simp: sa_allocate_def Let_def sa_consts)
qed (auto intro: allocate_inv deallocate_inv client_writes_inv)

lemma sa_steps_inv: "sa_step\<^sup>*\<^sup>* (sa_new, []) (s, L) \<Longrightarrow> sa_inv s L"
  by (induction "(s, L)" arbitrary: s L rule: rtranclp_induct) (auto simp: sa_new_inv intro: sa_step_inv)

lemma sa_inv_live:
  assumes "sa_inv s L"
  shows "all_apart (map live_cell L) \<and> (\<forall>(a, n)\<in>set L. small n \<longrightarrow> kAlign dvd a) \<and> live_bytes s = of_nat (small_bytes L)"
  using assms by (auto simp: sa_inv_def cells_def sorted_wrt_append live_bytes_def live_ok_def in_slab_def live_cell_def split: if_splits)

subsection \<open>The bump arena\<close>

lemma and_not_mask: "unat (and y (not (mask k))) = unat y - unat y mod 2 ^ k" for y :: u64
proof -
  have "and y (not (mask k)) + take_bit k y = or (and y (not (mask k))) (take_bit k y)"
    by (rule disjunctive_add) (auto simp: bit_simps)
  also have "\<dots> = y" by (rule bit_word_eqI) (auto simp: bit_simps)
  finally have "and y (not (mask k)) = y - take_bit k y" by (simp add: algebra_simps)
  moreover have "unat (take_bit k y) = unat y mod 2 ^ k"
    unfolding unsigned_take_bit_eq by (rule take_bit_eq_mod)
  ultimately show ?thesis by (simp add: unat_sub word_le_nat_alt)
qed

lemma unat_pow2:
  assumes "k < 64"
  shows "unat (2 ^ k :: u64) = 2 ^ k"
proof -
  have "(2 :: nat) ^ k < 2 ^ 64" using assms by (intro power_strict_increasing) auto
  moreover have "unat (word_of_nat m :: u64) = m" if "m < 2 ^ 64" for m
    using that by (simp add: unsigned_of_nat take_bit_nat_eq_self)
  ultimately have "unat (word_of_nat (2 ^ k) :: u64) = 2 ^ k" by blast
  then show ?thesis by simp
qed

lemma unat_add_le: "unat x + unat y < 2 ^ 64 \<Longrightarrow> unat (x + y) = unat x + unat y" for x y :: u64
  by (subst unat_plus_simple [symmetric]) (simp add: no_olen_add_nat)

lemma align_up_eq:
  assumes "al = 2 ^ k" "k < 64" "unat x + 2 ^ k \<le> 2 ^ 64"
  shows "unat (align_up x al) = (unat x + 2 ^ k - 1) div 2 ^ k * 2 ^ k"
proof -
  have m: "al - 1 = mask k" using assms(1) by (simp add: mask_eq_decr_exp)
  have ua: "unat al = 2 ^ k" using assms(1) unat_pow2 [OF assms(2)] by simp
  then have "al \<noteq> 0" by auto
  then have a1: "unat (al - 1) = 2 ^ k - 1" using ua by (simp add: unat_minus_one)
  have "(0 :: nat) < 2 ^ k" by simp
  then have "unat (x + (al - 1)) = unat x + unat (al - 1)" using assms(3) a1 by (intro unat_add_le) linarith
  then have y: "unat (x + al - 1) = unat x + 2 ^ k - 1" using a1 by (simp add: algebra_simps)
  show ?thesis unfolding align_up_def m and_not_mask y by (rule minus_mod_eq_div_mult)
qed

lemma align_up_bounds:
  assumes "al = 2 ^ k" "k < 64" "unat x + 2 ^ k \<le> 2 ^ 64"
  shows "unat x \<le> unat (align_up x al)" "unat (align_up x al) < unat x + 2 ^ k" "2 ^ k dvd unat (align_up x al)"
proof -
  define m where "m = unat x + 2 ^ k - 1"
  have e: "unat (align_up x al) = m div 2 ^ k * 2 ^ k" unfolding m_def by (rule align_up_eq [OF assms])
  have d: "m div 2 ^ k * 2 ^ k + m mod 2 ^ k = m" "m mod 2 ^ k < 2 ^ k"
    by (rule div_mult_mod_eq) simp
  have m: "m + 1 = unat x + 2 ^ k" unfolding m_def using zero_less_power [of "2 :: nat" k] by linarith
  show "unat x \<le> unat (align_up x al)" "unat (align_up x al) < unat x + 2 ^ k" "2 ^ k dvd unat (align_up x al)"
    unfolding e using d m by (linarith, linarith, simp)
qed

definition block_cell :: "nat \<times> u64 \<Rightarrow> nat \<times> nat" where
  "block_cell b = (fst b, unat (snd b))"

text \<open>\<open>L\<close> lists what was handed out since the last reset. In the current block everything lies below the offset.\<close>

definition in_block :: "bump \<Rightarrow> nat \<times> nat \<Rightarrow> nat \<Rightarrow> bool" where
  "in_block a x j \<longleftrightarrow> j < length (ba_blocks a) \<and> fst (ba_blocks a ! j) \<le> fst x \<and>
     fst x + snd x \<le> fst (ba_blocks a ! j) + (if ba_cur a = Some j then unat (ba_offset a) else unat (snd (ba_blocks a ! j)))"

definition ba_inv :: "bump \<Rightarrow> (nat \<times> nat) list \<Rightarrow> bool" where
  "ba_inv a L \<longleftrightarrow> (case ba_cur a of None \<Rightarrow> ba_blocks a = [] \<and> L = [] \<and> ba_offset a = 0
       | Some i \<Rightarrow> i < length (ba_blocks a) \<and> unat (ba_offset a) \<le> unat (snd (ba_blocks a ! i))) \<and>
     all_apart (map block_cell (ba_blocks a)) \<and> all_apart L \<and> (\<forall>x\<in>set L. \<exists>j. in_block a x j) \<and>
     (\<forall>b\<in>set (ba_blocks a). unat (snd b) \<le> 2 ^ 62) \<and> unat (ba_block_size a) \<le> 2 ^ 62"

lemma ba_new_inv: "unat block \<le> 2 ^ 62 \<Longrightarrow> ba_inv (ba_new block) []"
  by (simp add: ba_inv_def ba_new_def)

lemma ba_reset_inv: "ba_inv a L \<Longrightarrow> ba_inv (ba_reset a) []"
  by (auto simp: ba_inv_def ba_reset_def split: option.splits)

lemma all_apart_nth: "all_apart xs \<Longrightarrow> i < length xs \<Longrightarrow> j < length xs \<Longrightarrow> i \<noteq> j \<Longrightarrow> apart (xs ! i) (xs ! j)"
  by (metis apart_sym linorder_neqE_nat sorted_wrt_nth_less)

text \<open>Room above the offset of the current block.\<close>

lemma ba_take:
  assumes inv: "ba_inv a L" and cur: "ba_cur a = Some i"
    and off: "unat (ba_offset a) \<le> unat off" "unat off + unat n \<le> unat (snd (ba_blocks a ! i))"
  shows "ba_inv (a\<lparr>ba_offset := off + n\<rparr>) ((fst (ba_blocks a ! i) + unat off, unat n) # L)"
proof -
  let ?p = "(fst (ba_blocks a ! i) + unat off, unat n)" and ?a = "a\<lparr>ba_offset := off + n\<rparr>"
  have i: "i < length (ba_blocks a)" using inv cur by (simp add: ba_inv_def)
  have "unat (snd (ba_blocks a ! i)) \<le> 2 ^ 62" using inv nth_mem [OF i] by (simp add: ba_inv_def)
  then have u: "unat (off + n) = unat off + unat n"
    using off(2) by (subst unat_plus_simple [symmetric]) (simp add: no_olen_add_nat)
  have new: "in_block ?a ?p i" using i off u cur by (simp add: in_block_def)
  have old: "in_block ?a x j" if "in_block a x j" for x j using that off(1) u cur by (auto simp: in_block_def)
  have "apart ?p x" if "x \<in> set L" for x
  proof -
    from that inv obtain j where j: "in_block a x j" by (auto simp: ba_inv_def)
    show ?thesis
    proof (cases "j = i")
      case True
      then show ?thesis using j off(1) cur by (simp add: in_block_def apart_def)
    next
      case False
      have "all_apart (map block_cell (ba_blocks a))" using inv by (simp add: ba_inv_def)
      from all_apart_nth [OF this, of i j] have "apart (block_cell (ba_blocks a ! i)) (block_cell (ba_blocks a ! j))"
        using i j False by (simp add: in_block_def)
      then show ?thesis using j False cur off(2) by (auto simp: in_block_def apart_def block_cell_def)
    qed
  qed
  moreover have "\<exists>j. in_block ?a x j" if "x \<in> set L" for x using inv that old unfolding ba_inv_def by blast
  ultimately show ?thesis using inv new i u off cur by (auto simp: ba_inv_def)
qed

lemma ba_grow_inv:
  assumes inv: "ba_inv a L" and n: "unat need \<le> 2 ^ 62"
    and fresh: "\<forall>b\<in>set (ba_blocks a). apart (block_cell b) (base, max (unat (ba_block_size a)) (unat need))"
  shows "ba_inv (ba_grow base need a) L"
    "ba_cur (ba_grow base need a) = Some (length (ba_blocks a))" "ba_offset (ba_grow base need a) = 0"
    "unat need \<le> unat (snd (ba_blocks (ba_grow base need a) ! length (ba_blocks a)))"
proof -
  let ?sz = "if need < ba_block_size a then ba_block_size a else need"
  have g: "ba_grow base need a = a\<lparr>ba_blocks := ba_blocks a @ [(base, ?sz)], ba_cur := Some (length (ba_blocks a)), ba_offset := 0\<rparr>"
    by (simp add: ba_grow_def Let_def)
  have sz: "unat ?sz = max (unat (ba_block_size a)) (unat need)" by (auto simp: word_less_nat_alt)
  show "ba_cur (ba_grow base need a) = Some (length (ba_blocks a))" "ba_offset (ba_grow base need a) = 0"
    "unat need \<le> unat (snd (ba_blocks (ba_grow base need a) ! length (ba_blocks a)))"
    using sz by (simp_all add: g)
  have "in_block (ba_grow base need a) x j" if "in_block a x j" for x j
    using that inv by (auto simp: in_block_def g ba_inv_def nth_append split: option.splits if_splits)
  then have "\<exists>j. in_block (ba_grow base need a) x j" if "x \<in> set L" for x using inv that unfolding ba_inv_def by blast
  moreover have "all_apart (map block_cell (ba_blocks (ba_grow base need a)))"
    using inv fresh sz by (auto simp: g ba_inv_def sorted_wrt_append block_cell_def)
  ultimately show "ba_inv (ba_grow base need a) L"
    using inv sz n unfolding ba_inv_def by (auto simp: g)
qed

lemma ba_allocate_inv:
  assumes inv: "ba_inv a L" and al: "al = 2 ^ k" "k \<le> 12" and n: "unat bytes \<le> 2 ^ 60"
    and fresh: "\<forall>b\<in>set (ba_blocks a). apart (block_cell b) (base, max (unat (ba_block_size a)) (unat (bytes + al)))"
    and res: "ba_allocate base bytes al a = (p, a')"
  shows "ba_inv a' ((p, unat bytes) # L)"
proof -
  have pk: "(2 :: nat) ^ k \<le> 4096" using power_increasing [of k 12 "2 :: nat"] al(2) by simp
  have ua: "unat al = 2 ^ k" using unat_pow2 [of k] al by simp
  have need: "unat (bytes + al) = unat bytes + 2 ^ k" using n ua pk by (subst unat_add_le) auto
  show ?thesis
  proof (cases "\<exists>i. ba_cur a = Some i \<and> \<not> snd (ba_blocks a ! i) < align_up (ba_offset a) al + bytes")
    case True
    then obtain i where i: "ba_cur a = Some i" "\<not> snd (ba_blocks a ! i) < align_up (ba_offset a) al + bytes" by blast
    have b: "unat (ba_offset a) \<le> unat (snd (ba_blocks a ! i))" "unat (snd (ba_blocks a ! i)) \<le> 2 ^ 62"
      using inv i(1) nth_mem [of i "ba_blocks a"] by (auto simp: ba_inv_def)
    note u = align_up_bounds [OF al(1), of "ba_offset a"]
    have o: "unat (align_up (ba_offset a) al + bytes) = unat (align_up (ba_offset a) al) + unat bytes"
      using u(2) b n pk al(2) by (intro unat_add_le) simp
    have le: "unat (ba_offset a) \<le> unat (align_up (ba_offset a) al)" using u(1) b pk al(2) by simp
    have "unat (align_up (ba_offset a) al) + unat bytes \<le> unat (snd (ba_blocks a ! i))"
      using i(2) unfolding word_less_nat_alt o by simp
    from ba_take [OF inv i(1) le this] show ?thesis using res i by (auto simp: ba_allocate_def Let_def)
  next
    case False
    let ?g = "ba_grow base (bytes + al) a"
    have nb: "unat (bytes + al) \<le> 2 ^ 62" using need n pk by simp
    note g = ba_grow_inv [OF inv nb fresh]
    have z: "unat (align_up 0 al) = 0" using align_up_eq [OF al(1), of 0] al(2) pk by simp
    have "unat (align_up 0 al) + unat bytes \<le> unat (snd (ba_blocks ?g ! length (ba_blocks a)))" using g(4) z need by simp
    from ba_take [OF g(1,2) _ this] have "ba_inv (?g\<lparr>ba_offset := align_up 0 al + bytes\<rparr>)
      ((fst (ba_blocks ?g ! length (ba_blocks a)) + unat (align_up 0 al), unat bytes) # L)" by (simp add: g(3))
    moreover have "ba_allocate base bytes al a = (fst (ba_blocks ?g ! length (ba_blocks a)) + unat (align_up 0 al),
      ?g\<lparr>ba_offset := align_up 0 al + bytes\<rparr>)"
      using False g(2,3) by (auto simp: ba_allocate_def Let_def split: option.split)
    ultimately show ?thesis using res by simp
  qed
qed

text \<open>An arena between resets: each step allocates or resets, and after a reset nothing is live.\<close>

inductive ba_step :: "bump \<times> (nat \<times> nat) list \<Rightarrow> bump \<times> (nat \<times> nat) list \<Rightarrow> bool" where
  Bump: "ba_allocate base bytes (2 ^ k) a = (p, a') \<Longrightarrow> k \<le> 12 \<Longrightarrow> unat bytes \<le> 2 ^ 60 \<Longrightarrow>
     \<forall>b\<in>set (ba_blocks a). apart (block_cell b) (base, max (unat (ba_block_size a)) (unat (bytes + 2 ^ k))) \<Longrightarrow>
     ba_step (a, L) (a', (p, unat bytes) # L)"
| Reset: "ba_step (a, L) (ba_reset a, [])"

inductive_cases ba_stepE: "ba_step (a, L) (a', L')"

lemma ba_step_inv: "ba_step (a, L) (a', L') \<Longrightarrow> ba_inv a L \<Longrightarrow> ba_inv a' L'"
  by (erule ba_stepE) (auto intro: ba_allocate_inv ba_reset_inv)

lemma ba_steps_inv:
  assumes "ba_step\<^sup>*\<^sup>* (ba_new block, []) (a, L)" "unat block \<le> 2 ^ 62"
  shows "ba_inv a L"
  using assms(1)
  by (induction "(a, L)" arbitrary: a L rule: rtranclp_induct) (auto simp: ba_new_inv [OF assms(2)] intro: ba_step_inv)

lemma ba_inv_live: "ba_inv a L \<Longrightarrow> all_apart L \<and> (\<forall>x\<in>set L. \<exists>b\<in>set (ba_blocks a). fst b \<le> fst x \<and> fst x + snd x \<le> fst b + unat (snd b))"
  by (fastforce simp: ba_inv_def in_block_def split: option.splits if_splits intro: order_trans)

end
