(* ===== verification/Render.thy ===== *)
theory Render
  imports Metrics Config Numeric
begin

section \<open>INFO, Prometheus and dashboard texts (\<^verbatim>\<open>src/server/server.cpp\<close>)\<close>

text \<open>
  The texts the server renders from the counters of its shards, one record of counters per shard. Where the
  arithmetic or the printing of doubles comes in, it is given; sums of counters wrap around at 64 bits.
\<close>

record render_env =
  rn_float :: float_env
  rn_version :: bytes
  rn_os :: bytes
  rn_api :: bytes
  rn_allocator :: bytes
  rn_pid :: int
  rn_now :: u64
  rn_started :: u64
  rn_target :: "dbl \<Rightarrow> u64 \<Rightarrow> u64"
  rn_micros :: "dbl \<Rightarrow> u64"
  rn_weight :: "u64 \<Rightarrow> dbl \<Rightarrow> u64"
  rn_show :: "dbl \<Rightarrow> bytes"

text \<open>\<open>rn_target p total\<close> is the truncated product, \<open>rn_micros\<close> a bound in seconds as whole microseconds,
  \<open>rn_weight c b\<close> the truncated product of a count, a bound and a million, \<open>rn_show\<close> the stream output.\<close>

definition dec_u64 :: "u64 \<Rightarrow> bytes" where
  "dec_u64 w = nat_dec (unat w)"

definition sum_metric :: "(metrics \<Rightarrow> u64) \<Rightarrow> metrics list \<Rightarrow> u64" where
  "sum_metric f ms = foldl (\<lambda>t m. t + f m) 0 ms"

definition bucket_total :: "nat \<Rightarrow> metrics list \<Rightarrow> u64" where
  "bucket_total b ms = sum_metric (\<lambda>m. lh_counts (m_latency m) ! b) ms"

text \<open>The scan of the buckets summed over the shards.\<close>

fun aggregate_scan :: "metrics list \<Rightarrow> u64 \<Rightarrow> nat list \<Rightarrow> u64 \<Rightarrow> nat option" where
  "aggregate_scan ms target [] cumulative = None"
| "aggregate_scan ms target (b # bs) cumulative =
     (let c = cumulative + bucket_total b ms in if c \<ge> target then Some b else aggregate_scan ms target bs c)"

definition aggregate_percentile :: "render_env \<Rightarrow> metrics list \<Rightarrow> dbl \<Rightarrow> u64" where
  "aggregate_percentile R ms p =
     (let total = sum_metric (\<lambda>m. lh_total (m_latency m)) ms in
      if total = 0 then 0
      else case aggregate_scan ms (rn_target R p total) [0..<kBuckets] 0 of
             Some b \<Rightarrow> rn_micros R (bucket_bound (rn_float R) (int b + 1))
           | None \<Rightarrow> 0)"

definition p50 :: dbl where "p50 = 0x3FE0000000000000"
definition p99 :: dbl where "p99 = 0x3FEFAE147AE147AE"
definition p999 :: dbl where "p999 = 0x3FEFF7CED916872B"

subsection \<open>INFO\<close>

definition info_line :: "bytes \<Rightarrow> bytes \<Rightarrow> bytes" where
  "info_line name v = name @ '':'' @ v @ CRLF"

definition want :: "bytes \<Rightarrow> bytes \<Rightarrow> bool" where
  "want section s \<longleftrightarrow> section = ''default'' \<or> section = ''all'' \<or> section = ''everything'' \<or> section = s"

definition uptime_s :: "render_env \<Rightarrow> u64" where
  "uptime_s R = (rn_now R - rn_started R) div 1000"

definition info_server :: "render_env \<Rightarrow> config \<Rightarrow> nat \<Rightarrow> bytes" where
  "info_server R cfg n =
     ''# Server'' @ CRLF @ info_line ''redis_version'' ''7.4.0'' @ info_line ''blazekv_version'' (rn_version R) @
     info_line ''os'' (rn_os R) @ info_line ''multiplexing_api'' (rn_api R) @
     info_line ''process_id'' (to_chars (rn_pid R)) @ info_line ''tcp_port'' (nat_dec (unat (cf_port cfg))) @
     info_line ''uptime_in_seconds'' (dec_u64 (uptime_s R)) @ info_line ''io_threads_active'' (nat_dec n) @
     info_line ''shards'' (nat_dec n) @ CRLF"

definition info_clients :: "metrics list \<Rightarrow> bytes" where
  "info_clients ms =
     ''# Clients'' @ CRLF @ info_line ''connected_clients'' (dec_u64 (sum_metric m_connections_open ms)) @ CRLF"

definition info_memory :: "render_env \<Rightarrow> config \<Rightarrow> metrics list \<Rightarrow> bytes" where
  "info_memory R cfg ms =
     (let mem = sum_metric m_memory_bytes ms in
      ''# Memory'' @ CRLF @ info_line ''used_memory'' (dec_u64 mem) @
      info_line ''used_memory_human'' (dec_u64 (mem div 1024) @ ''K'') @
      info_line ''maxmemory'' (dec_u64 (cf_maxmemory cfg)) @ info_line ''mem_allocator'' (rn_allocator R) @ CRLF)"

definition info_stats :: "render_env \<Rightarrow> metrics list \<Rightarrow> bytes" where
  "info_stats R ms =
     ''# Stats'' @ CRLF @ info_line ''total_commands_processed'' (dec_u64 (sum_metric m_commands_total ms)) @
     info_line ''total_connections_received'' (dec_u64 (sum_metric m_connections_total ms)) @
     info_line ''keyspace_hits'' (dec_u64 (sum_metric m_keyspace_hits ms)) @
     info_line ''keyspace_misses'' (dec_u64 (sum_metric m_keyspace_misses ms)) @
     info_line ''expired_keys'' (dec_u64 (sum_metric m_expired_keys ms)) @
     info_line ''cross_shard_ops'' (dec_u64 (sum_metric m_cross_shard_ops ms)) @
     info_line ''latency_p50_us'' (dec_u64 (aggregate_percentile R ms p50)) @
     info_line ''latency_p99_us'' (dec_u64 (aggregate_percentile R ms p99)) @
     info_line ''latency_p999_us'' (dec_u64 (aggregate_percentile R ms p999)) @ CRLF"

definition info_keyspace :: "metrics list \<Rightarrow> bytes" where
  "info_keyspace ms =
     (let keys = sum_metric m_keys ms; expires = sum_metric m_expires ms in
      ''# Keyspace'' @ CRLF @
      (if keys > 0 then ''db0:keys='' @ dec_u64 keys @ '',expires='' @ dec_u64 expires @ '',avg_ttl=0'' @ CRLF else []) @
      CRLF)"

definition render_info :: "render_env \<Rightarrow> config \<Rightarrow> metrics list \<Rightarrow> bytes \<Rightarrow> bytes" where
  "render_info R cfg ms section =
     (if want section ''server'' then info_server R cfg (length ms) else []) @
     (if want section ''clients'' then info_clients ms else []) @
     (if want section ''memory'' then info_memory R cfg ms else []) @
     (if want section ''stats'' then info_stats R ms else []) @
     (if want section ''replication''
      then ''# Replication'' @ CRLF @ ''role:master'' @ CRLF @ ''connected_slaves:0'' @ CRLF @ CRLF else []) @
     (if want section ''keyspace'' then info_keyspace ms else [])"

subsection \<open>Prometheus\<close>

definition quoted :: "bytes \<Rightarrow> bytes" where
  "quoted s = CHR 0x22 # s @ [CHR 0x22]"

definition nl :: bytes where "nl = [LF]"

definition family_head :: "bytes \<Rightarrow> bytes \<Rightarrow> bytes \<Rightarrow> bytes" where
  "family_head name help type =
     ''# HELP blazekv_'' @ name @ '' '' @ help @ nl @ ''# TYPE blazekv_'' @ name @ '' '' @ type @ nl"

text \<open>A family with one sample per shard; the shards are numbered by their position.\<close>

definition shard_samples :: "bytes \<Rightarrow> (metrics \<Rightarrow> u64) \<Rightarrow> metrics list \<Rightarrow> bytes" where
  "shard_samples name f ms =
     concat (map (\<lambda>(i, m). ''blazekv_'' @ name @ ''{shard='' @ quoted (nat_dec i) @ ''} '' @ dec_u64 (f m) @ nl)
       (enumerate 0 ms))"

definition family :: "bytes \<Rightarrow> bytes \<Rightarrow> bytes \<Rightarrow> (metrics \<Rightarrow> u64) \<Rightarrow> metrics list \<Rightarrow> bytes" where
  "family name help type f ms = family_head name help type @ shard_samples name f ms"

text \<open>One step of the latency histogram: eight buckets and the bound behind them.\<close>

definition step_count :: "metrics list \<Rightarrow> nat \<Rightarrow> u64" where
  "step_count ms b = foldl (\<lambda>c j. c + bucket_total j ms) 0 [b..<min (b + 8) kBuckets]"

definition step_bound :: "render_env \<Rightarrow> nat \<Rightarrow> dbl" where
  "step_bound R b = bucket_bound (rn_float R) (int (min (b + 8) kBuckets))"

definition bucket_name :: bytes where "bucket_name = ''blazekv_command_latency_seconds_bucket''"

definition histogram_step :: "render_env \<Rightarrow> metrics list \<Rightarrow> nat \<Rightarrow> bytes \<times> u64 \<times> u64 \<Rightarrow> bytes \<times> u64 \<times> u64" where
  "histogram_step R ms b s =
     (let (out, cumulative, weighted) = s; c = step_count ms b; cum = cumulative + c; bound = step_bound R b
      in (out @ bucket_name @ ''{le='' @ quoted (rn_show R bound) @ ''} '' @ dec_u64 cum @ nl, cum,
          weighted + rn_weight R c bound))"

definition histogram_steps :: "render_env \<Rightarrow> metrics list \<Rightarrow> bytes \<times> u64 \<times> u64" where
  "histogram_steps R ms = foldl (\<lambda>s i. histogram_step R ms (8 * i) s) ([], 0, 0) [0..<64]"

definition render_prometheus :: "render_env \<Rightarrow> metrics list \<Rightarrow> bytes" where
  "render_prometheus R ms =
     (let total = sum_metric (\<lambda>m. lh_total (m_latency m)) ms; (buckets, cum, weighted) = histogram_steps R ms in
      family ''commands_total'' ''Total commands processed per shard'' ''counter'' m_commands_total ms @
      family ''keyspace_hits_total'' ''Keyspace hits'' ''counter'' m_keyspace_hits ms @
      family ''keyspace_misses_total'' ''Keyspace misses'' ''counter'' m_keyspace_misses ms @
      family ''cross_shard_ops_total'' ''Cross-shard forwarded operations'' ''counter'' m_cross_shard_ops ms @
      family ''keys'' ''Number of keys per shard'' ''gauge'' m_keys ms @
      family ''memory_bytes'' ''Approximate memory used per shard'' ''gauge'' m_memory_bytes ms @
      family ''connected_clients'' ''Open client connections per shard'' ''gauge'' m_connections_open ms @
      family_head ''command_latency_seconds'' ''Command execution latency'' ''histogram'' @ buckets @
      bucket_name @ ''{le='' @ quoted ''+Inf'' @ ''} '' @ dec_u64 total @ nl @
      ''blazekv_command_latency_seconds_count '' @ dec_u64 total @ nl @
      ''blazekv_command_latency_seconds_sum '' @
      rn_show R (fe_div (rn_float R) (fe_of_u64 (rn_float R) weighted) d_million) @ nl)"

subsection \<open>Dashboard\<close>

definition json_field :: "bytes \<Rightarrow> bytes \<Rightarrow> bytes" where
  "json_field name v = quoted name @ '':'' @ v"

fun commas :: "bytes list \<Rightarrow> bytes" where
  "commas [] = []"
| "commas [x] = x"
| "commas (x # y # ys) = x @ '','' @ commas (y # ys)"

definition json_object :: "bytes list \<Rightarrow> bytes" where
  "json_object xs = ''{'' @ commas xs @ ''}''"

definition shard_json :: "render_env \<Rightarrow> nat \<times> metrics \<Rightarrow> bytes" where
  "shard_json R x =
     (let (i, m) = x in
      json_object [json_field ''id'' (nat_dec i), json_field ''commands'' (dec_u64 (m_commands_total m)),
        json_field ''keys'' (dec_u64 (m_keys m)), json_field ''memory_bytes'' (dec_u64 (m_memory_bytes m)),
        json_field ''connections'' (dec_u64 (m_connections_open m)), json_field ''reads'' (dec_u64 (m_reads m)),
        json_field ''writes'' (dec_u64 (m_writes m)),
        json_field ''p99_us'' (dec_u64 (percentile (rn_float R) p99 (m_latency m)))])"

definition render_dashboard_json :: "render_env \<Rightarrow> metrics list \<Rightarrow> bytes" where
  "render_dashboard_json R ms =
     json_object [json_field ''uptime_s'' (dec_u64 (uptime_s R)), json_field ''shard_count'' (nat_dec (length ms)),
       json_field ''commands_total'' (dec_u64 (sum_metric m_commands_total ms)),
       json_field ''keys'' (dec_u64 (sum_metric m_keys ms)),
       json_field ''memory_bytes'' (dec_u64 (sum_metric m_memory_bytes ms)),
       json_field ''connections'' (dec_u64 (sum_metric m_connections_open ms)),
       json_field ''cross_shard_ops'' (dec_u64 (sum_metric m_cross_shard_ops ms)),
       json_field ''keyspace_hits'' (dec_u64 (sum_metric m_keyspace_hits ms)),
       json_field ''keyspace_misses'' (dec_u64 (sum_metric m_keyspace_misses ms)),
       json_field ''latency_p50_us'' (dec_u64 (aggregate_percentile R ms p50)),
       json_field ''latency_p99_us'' (dec_u64 (aggregate_percentile R ms p99)),
       json_field ''latency_p999_us'' (dec_u64 (aggregate_percentile R ms p999)),
       json_field ''mem_allocator'' (quoted (rn_allocator R)), json_field ''reactor'' (quoted (rn_api R)),
       json_field ''shards'' (''['' @ commas (map (shard_json R) (enumerate 0 ms)) @ '']'')]"

end
