(* ===== verification/Console.thy ===== *)
theory Console
  imports Render Resp
begin

section \<open>The HTTP endpoint and its query console (\<^verbatim>\<open>src/server/server.cpp\<close>)\<close>

text \<open>
  The text of HTTP requests and responses, JSON escaping, and the reader that turns one RESP reply into the text
  the console shows. A connection is the list of the bytes that will arrive; at its end \<open>getc\<close> answers a zero byte,
  as it does when a zero byte arrives.
\<close>

subsection \<open>JSON strings\<close>

definition hex_digit :: "nat \<Rightarrow> char" where
  "hex_digit d = (if d < 10 then char_of (48 + d) else char_of (87 + d))"

definition json_char :: "char \<Rightarrow> bytes" where
  "json_char c =
     (if c = CHR 0x22 then [CHR 0x5C, CHR 0x22]
      else if c = CHR 0x5C then [CHR 0x5C, CHR 0x5C]
      else if c = LF then [CHR 0x5C, CHR ''n'']
      else if c = CR then [CHR 0x5C, CHR ''r'']
      else if c = CHR 0x09 then [CHR 0x5C, CHR ''t'']
      else if byte_val c < 32
      then [CHR 0x5C, CHR ''u'', CHR ''0'', CHR ''0'', hex_digit (byte_val c div 16), hex_digit (byte_val c mod 16)]
      else [c])"

definition json_escape :: "bytes \<Rightarrow> bytes" where
  "json_escape s = concat (map json_char s)"

subsection \<open>Reading one reply\<close>

definition reply_getc :: "bytes \<Rightarrow> char \<times> bytes" where
  "reply_getc s = (case s of [] \<Rightarrow> (CHR 0x00, []) | c # cs \<Rightarrow> (c, cs))"

fun read_line :: "bytes \<Rightarrow> bytes \<times> bytes" where
  "read_line [] = ([], [])"
| "read_line (c # cs) =
     (if c = CHR 0x00 then ([], cs)
      else if c = CR then ([], snd (reply_getc cs))
      else let (l, r) = read_line cs in (c # l, r))"

fun read_n :: "nat \<Rightarrow> bytes \<Rightarrow> bytes \<times> bytes" where
  "read_n 0 s = ([], s)"
| "read_n (Suc n) s =
     (let (c, r) = reply_getc s in if c = CHR 0x00 then ([], r) else let (out, r') = read_n n r in (c # out, r'))"

text \<open>\<open>atoll\<close>, with the clamping of the C library behind it.\<close>

definition atoll :: "bytes \<Rightarrow> int" where
  "atoll s =
     (case scan_number s of
        None \<Rightarrow> 0
      | Some (neg, n) \<Rightarrow> if neg then max i64_min (- int n) else min i64_max (int n))"

definition join_items :: "bytes list \<Rightarrow> bytes" where
  "join_items xs = (case xs of [] \<Rightarrow> [] | x # ys \<Rightarrow> x @ concat (map (\<lambda>y. '', '' @ y) ys))"

text \<open>The loop over the elements of an array, over the reader of one element.\<close>

fun read_items :: "(bytes \<Rightarrow> bytes \<times> bytes) \<Rightarrow> nat \<Rightarrow> bytes \<Rightarrow> bytes list \<times> bytes" where
  "read_items f 0 s = ([], s)"
| "read_items f (Suc n) s = (let (x, r) = f s; (xs, r') = read_items f n r in (x # xs, r'))"

text \<open>\<open>fuel\<close> bounds the nesting; every level takes at least one byte, so the length of the input is enough
  (\<open>read_reply_fuel\<close> below).\<close>

fun read_reply :: "nat \<Rightarrow> bytes \<Rightarrow> bytes \<times> bytes" where
  "read_reply 0 s = (''(protocol error)'', s)"
| "read_reply (Suc fuel) s =
     (let (t, s1) = reply_getc s in
      if t = CHR ''+'' then read_line s1
      else if t = CHR ''-'' then (let (l, r) = read_line s1 in (''(error) '' @ l, r))
      else if t = CHR '':'' then read_line s1
      else if t = CHR ''$'' then
        (let (l, s2) = read_line s1; len = atoll l in
         if len < 0 then (''(nil)'', s2)
         else let (d, s3) = read_n (nat len) s2; (e, s4) = read_line s3 in (quoted d, s4))
      else if t = CHR ''*'' then
        (let (l, s2) = read_line s1; n = atoll l in
         if n < 0 then (''(nil)'', s2)
         else let (xs, s3) = read_items (read_reply fuel) (nat n) s2 in (''['' @ join_items xs @ '']'', s3))
      else (''(protocol error)'', s1))"

text \<open>The command as it is sent to the server's own port.\<close>

definition loopback_request :: "bytes \<Rightarrow> bytes" where
  "loopback_request cmdline =
     (if length cmdline < 2 \<or> drop (length cmdline - 2) cmdline \<noteq> CRLF then cmdline @ CRLF else cmdline)"

definition run_loopback_command :: "bool \<Rightarrow> bool \<Rightarrow> (bytes \<Rightarrow> bytes) \<Rightarrow> bytes \<Rightarrow> bytes" where
  "run_loopback_command has_socket connects answer cmdline =
     (if \<not> has_socket then ''(error) cannot open loopback socket''
      else if \<not> connects then ''(error) cannot connect to blazekv''
      else let s = answer (loopback_request cmdline) in fst (read_reply (Suc (length s)) s))"

subsection \<open>Searching in strings\<close>

text \<open>\<open>std::string::find\<close> and \<open>substr\<close>; \<open>None\<close> is \<open>npos\<close>.\<close>

definition find_from :: "bytes \<Rightarrow> bytes \<Rightarrow> nat \<Rightarrow> nat option" where
  "find_from pat s i = List.find (\<lambda>j. take (length pat) (drop j s) = pat) [i..<Suc (length s - length pat)]"

definition substr :: "bytes \<Rightarrow> nat \<Rightarrow> nat option \<Rightarrow> bytes" where
  "substr s i e = (case e of None \<Rightarrow> drop i s | Some j \<Rightarrow> take (j - i) (drop i s))"

subsection \<open>Requests\<close>

text \<open>The reads of a request, each with the bytes it gave; a list that ends is a connection that closed or timed out.\<close>

definition request_complete :: "bytes \<Rightarrow> bool" where
  "request_complete req =
     (case find_from (CRLF @ CRLF) req 0 of
        None \<Rightarrow> False
      | Some h \<Rightarrow>
          length req \<ge>
            (h + 4 + (case find_from ''Content-Length:'' req 0 of
               None \<Rightarrow> 0 | Some c \<Rightarrow> unat (u64_of_i64 (atoll (drop (c + 15) req))))) mod 2 ^ 64)"

fun read_request :: "bytes list \<Rightarrow> bytes \<Rightarrow> bytes" where
  "read_request [] req = req"
| "read_request (chunk # chunks) req =
     (if chunk = [] then req
      else let req' = req @ chunk in
        if request_complete req' \<or> length req' > 1048576 then req' else read_request chunks req')"

definition request_method :: "bytes \<Rightarrow> bytes" where
  "request_method req = substr req 0 (find_from '' '' req 0)"

definition request_path :: "bytes \<Rightarrow> bytes" where
  "request_path req =
     (let start = (case find_from '' '' req 0 of None \<Rightarrow> 0 | Some i \<Rightarrow> i + 1)
      in substr req start (find_from '' '' req start))"

text \<open>The command of a query: the text after the colon behind \<open>"cmd"\<close>, from one quote to the next, or the whole body.\<close>

definition query_command :: "bytes \<Rightarrow> bytes" where
  "query_command body =
     (case find_from (quoted ''cmd'') body 0 of
        None \<Rightarrow> body
      | Some c \<Rightarrow>
          (case find_from '':'' body c of
             None \<Rightarrow> body
           | Some k \<Rightarrow>
               (case find_from [CHR 0x22] body k of
                  None \<Rightarrow> body
                | Some q1 \<Rightarrow>
                    (case find_from [CHR 0x22] body (q1 + 1) of
                       None \<Rightarrow> body
                     | Some q2 \<Rightarrow> substr body (q1 + 1) (Some q2)))))"

definition request_body :: "bytes \<Rightarrow> bytes" where
  "request_body req = (case find_from (CRLF @ CRLF) req 0 of None \<Rightarrow> [] | Some b \<Rightarrow> drop (b + 4) req)"

subsection \<open>Responses\<close>

definition http_response :: "bytes \<Rightarrow> bytes \<Rightarrow> bytes \<Rightarrow> bytes" where
  "http_response status ctype body =
     ''HTTP/1.1 '' @ status @ CRLF @ ''Content-Type: '' @ ctype @ CRLF @
     ''Content-Length: '' @ nat_dec (length body) @ CRLF @ ''Access-Control-Allow-Origin: *'' @ CRLF @
     ''Access-Control-Allow-Methods: GET, POST, OPTIONS'' @ CRLF @
     ''Access-Control-Allow-Headers: Content-Type'' @ CRLF @ ''Connection: close'' @ CRLF @ CRLF @ body"

text \<open>The loop of \<open>write_http\<close>: what each \<open>write\<close> takes, until all is sent or one takes nothing.\<close>

fun write_all :: "nat list \<Rightarrow> bytes \<Rightarrow> bytes" where
  "write_all [] out = []"
| "write_all (k # ks) out =
     (if out = [] \<or> k = 0 then [] else take k out @ write_all ks (drop k out))"

definition http_respond :: "render_env \<Rightarrow> metrics list \<Rightarrow> (bytes \<Rightarrow> bytes) \<Rightarrow> bytes \<Rightarrow> bytes" where
  "http_respond R ms run req =
     (let method = request_method req; path = request_path req in
      if method = ''OPTIONS'' then http_response ''204 No Content'' ''text/plain'' []
      else if path = ''/metrics'' then http_response ''200 OK'' ''text/plain; version=0.0.4'' (render_prometheus R ms)
      else if path = ''/healthz'' then
        http_response ''200 OK'' ''application/json'' (json_object [json_field ''status'' (quoted ''ok'')])
      else if path = ''/api/stats'' then http_response ''200 OK'' ''application/json'' (render_dashboard_json R ms)
      else if path = ''/api/query'' \<and> method = ''POST'' then
        http_response ''200 OK'' ''application/json''
          (json_object [json_field ''result'' (quoted (json_escape (run (query_command (request_body req)))))])
      else
        http_response ''404 Not Found'' ''application/json''
          (json_object [json_field ''error'' (quoted ''not found''),
             json_field ''method'' (quoted (json_escape method)), json_field ''path'' (quoted (json_escape path))]))"

end
