(* ===== verification/Console_Props.thy ===== *)
theory Console_Props
  imports Console Resp_Correct
begin

section \<open>Properties of the metrics texts and the query console\<close>

subsection \<open>JSON strings\<close>

text \<open>A reader of JSON strings, behind the opening quote: the content and what follows the closing quote.\<close>

definition hex_val :: "char \<Rightarrow> nat option" where
  "hex_val c =
     (let v = byte_val c in
      if 48 \<le> v \<and> v \<le> 57 then Some (v - 48) else if 97 \<le> v \<and> v \<le> 102 then Some (v - 87) else None)"

definition json_unit :: "bytes \<Rightarrow> (char \<times> bytes) option" where
  "json_unit s =
     (case s of
        [] \<Rightarrow> None
      | c # cs \<Rightarrow>
          if byte_val c < 32 then None
          else if c \<noteq> CHR 0x5C then Some (c, cs)
          else (case cs of
              [] \<Rightarrow> None
            | e # r \<Rightarrow>
                if e = CHR 0x22 \<or> e = CHR 0x5C then Some (e, r)
                else if e = CHR ''n'' then Some (LF, r)
                else if e = CHR ''r'' then Some (CR, r)
                else if e = CHR ''t'' then Some (CHR 0x09, r)
                else if e = CHR ''u'' then
                  (case map hex_val (take 4 r) of
                     [Some 0, Some 0, Some a, Some b] \<Rightarrow> Some (char_of (16 * a + b), drop 4 r)
                   | _ \<Rightarrow> None)
                else None))"

lemma json_unit_shorter: "json_unit s = Some (c, r) \<Longrightarrow> length r < length s"
  by (auto simp: json_unit_def split: list.splits if_splits option.splits nat.splits)

function json_string :: "bytes \<Rightarrow> (bytes \<times> bytes) option" where
  "json_string s =
     (if s \<noteq> [] \<and> hd s = CHR 0x22 then Some ([], tl s)
      else case json_unit s of
          None \<Rightarrow> None
        | Some (c, r) \<Rightarrow> map_option (apfst ((#) c)) (json_string r))"
  by pat_completeness auto
termination by (relation "measure length") (auto dest: json_unit_shorter)

declare json_string.simps [simp del]

lemma hex_val_digit [simp]: "d < 16 \<Longrightarrow> hex_val (hex_digit d) = Some d"
  by (simp add: hex_val_def hex_digit_def)

lemma json_unit_char: "json_unit (json_char c @ rest) = Some (c, rest)"
proof (cases "byte_val c < 32")
  case True
  have c: "char_of (16 * (byte_val c div 16) + byte_val c mod 16) = c" by (simp add: mult.commute)
  have q: "c \<noteq> CHR 0x22" "c \<noteq> CHR 0x5C" using True by auto
  have d: "byte_val c div 16 < 16" "byte_val c mod 16 < 16" using True by simp_all
  have z: "hex_val (CHR ''0'') = Some 0" by (simp add: hex_val_def)
  have e: "CHR ''u'' \<noteq> CHR 0x22" "byte_val (CHR 0x5C) = 92" by simp_all
  show ?thesis
    using q c hex_val_digit [OF d(1)] hex_val_digit [OF d(2)] z True
    by (simp add: json_char_def json_unit_def LF_def CR_def)
next
  case False
  then show ?thesis by (auto simp: json_char_def json_unit_def LF_def CR_def)
qed

lemma json_char_head: "json_char c \<noteq> [] \<and> hd (json_char c) \<noteq> CHR 0x22"
  by (simp add: json_char_def)

text \<open>Escaping is faithful and safe: whatever the bytes of a reply, a JSON reader takes the escaped text back to the same
  bytes and stops exactly at the closing quote, so no reply can end the string early.\<close>

theorem json_escape_roundtrip: "json_string (json_escape s @ CHR 0x22 # rest) = Some (s, rest)"
proof (induction s)
  case Nil
  then show ?case by (simp add: json_escape_def json_string.simps)
next
  case (Cons c s)
  have e: "json_escape (c # s) @ CHR 0x22 # rest = json_char c @ json_escape s @ CHR 0x22 # rest"
    by (simp add: json_escape_def)
  have h: "\<not> (json_char c @ t \<noteq> [] \<and> hd (json_char c @ t) = CHR 0x22)" for t using json_char_head [of c] by simp
  show ?case unfolding e json_string.simps [of "json_char c @ _"] if_not_P [OF h] json_unit_char by (simp add: Cons)
qed

subsection \<open>Replies\<close>

text \<open>The replies of the server as data, their encoding by the reply writer, and what the console shows for them.\<close>

datatype reply =
    Status bytes
  | Failure bytes
  | Number int
  | Bulk bytes
  | NilBulk
  | NilArray
  | Items "reply list"

fun reply_bytes :: "reply \<Rightarrow> bytes" where
  "reply_bytes (Status s) = rb_simple_string s []"
| "reply_bytes (Failure s) = rb_error s []"
| "reply_bytes (Number v) = rb_integer v []"
| "reply_bytes (Bulk s) = rb_bulk s []"
| "reply_bytes NilBulk = rb_null_bulk []"
| "reply_bytes NilArray = rb_null_array []"
| "reply_bytes (Items rs) = rb_array_header (int (length rs)) [] @ concat (map reply_bytes rs)"

fun reply_text :: "reply \<Rightarrow> bytes" where
  "reply_text (Status s) = s"
| "reply_text (Failure s) = ''(error) '' @ s"
| "reply_text (Number v) = to_chars v"
| "reply_text (Bulk s) = quoted s"
| "reply_text NilBulk = ''(nil)''"
| "reply_text NilArray = ''(nil)''"
| "reply_text (Items rs) = ''['' @ join_items (map reply_text rs) @ '']''"

text \<open>One line without zero bytes, payloads without zero bytes, numbers of 64 bits.\<close>

definition one_line :: "bytes \<Rightarrow> bool" where
  "one_line s \<longleftrightarrow> CHR 0x00 \<notin> set s \<and> CR \<notin> set s"

fun readable :: "reply \<Rightarrow> bool" where
  "readable (Status s) = one_line s"
| "readable (Failure s) = one_line s"
| "readable (Number v) = in_i64 v"
| "readable (Bulk s) = (CHR 0x00 \<notin> set s \<and> in_i64 (int (length s)))"
| "readable NilBulk = True"
| "readable NilArray = True"
| "readable (Items rs) = (in_i64 (int (length rs)) \<and> list_all readable rs)"

lemma read_line_line: "one_line s \<Longrightarrow> read_line (s @ CRLF @ rest) = (s, rest)"
  by (induction s) (auto simp: one_line_def CRLF_def CR_def LF_def reply_getc_def)

lemma read_n_payload: "CHR 0x00 \<notin> set s \<Longrightarrow> read_n (length s) (s @ rest) = (s, rest)"
  by (induction s) (auto simp: reply_getc_def)

lemma digit_plain: "is_digit c \<Longrightarrow> c \<noteq> CHR 0x00 \<and> c \<noteq> CR \<and> \<not> is_space c \<and> c \<noteq> CHR ''-'' \<and> c \<noteq> CHR ''+''"
  by (auto simp: is_digit_def is_space_def CR_def)

lemma one_line_number: "one_line (to_chars v)"
  using to_chars_chars [of "CHR 0x00" v] by (auto simp: one_line_def is_digit_def)

lemma hd_nat_dec_digit: "is_digit (hd (nat_dec n))"
  by (rule nat_dec_digits [OF hd_in_set]) simp

lemma scan_nat_dec: "scan_number (nat_dec n) = Some (False, n)" "scan_number (CHR ''-'' # nat_dec n) = Some (True, n)"
proof -
  obtain c cs where c: "nat_dec n = c # cs" "is_digit c"
    using hd_nat_dec_digit [of n] by (cases "nat_dec n") auto
  have t: "takeWhile is_digit (nat_dec n) = nat_dec n" using nat_dec_digits by (simp add: takeWhile_eq_all_conv)
  have "\<not> is_space (CHR ''-'')" by (simp add: is_space_def)
  then show "scan_number (nat_dec n) = Some (False, n)" "scan_number (CHR ''-'' # nat_dec n) = Some (True, n)"
    using digit_plain [OF c(2)] t dec_val_nat_dec [of n] c(1) by (simp_all add: scan_number_def Let_def)
qed

lemma atoll_to_chars: "in_i64 v \<Longrightarrow> atoll (to_chars v) = v"
  by (auto simp: atoll_def to_chars_def scan_nat_dec in_i64_def)

lemma read_header: "read_line (to_chars v @ CRLF @ rest) = (to_chars v, rest)"
  by (rule read_line_line [OF one_line_number])

lemma read_items_all:
  assumes "\<forall>x\<in>set xs. \<forall>rest. f (e x @ rest) = (g x, rest)"
  shows "read_items f (length xs) (concat (map e xs) @ rest) = (map g xs, rest)"
  using assms by (induction xs) auto

fun depth :: "reply \<Rightarrow> nat" where
  "depth (Items rs) = Suc (foldr max (map depth rs) 0)"
| "depth _ = 1"

lemma depth_item: "r \<in> set rs \<Longrightarrow> depth r \<le> foldr max (map depth rs) 0"
  by (induction rs) auto

lemma depth_less: "depth r \<le> length (reply_bytes r)"
proof (induction r)
  case (Items rs)
  have "foldr max (map depth rs) 0 \<le> length (concat (map reply_bytes rs))"
    using Items by (induction rs) (auto intro: le_trans [OF _ le_add1] le_trans [OF _ le_add2])
  then show ?case by (simp add: rb_array_header_def)
qed (simp_all add: rb_simple_string_def rb_error_def rb_integer_def rb_bulk_def rb_null_bulk_def rb_null_array_def)

lemma read_reply_encoded:
  "readable r \<Longrightarrow> depth r \<le> fuel \<Longrightarrow> read_reply fuel (reply_bytes r @ rest) = (reply_text r, rest)"
proof (induction r arbitrary: fuel rest)
  case (Status s)
  then show ?case using read_line_line [of s rest]
    by (cases fuel) (simp_all add: rb_simple_string_def reply_getc_def)
next
  case (Failure s)
  then show ?case using read_line_line [of s rest]
    by (cases fuel) (simp_all add: rb_error_def reply_getc_def)
next
  case (Number v)
  then show ?case using read_header [of v rest] by (cases fuel) (simp_all add: rb_integer_def reply_getc_def)
next
  case (Bulk s)
  have "read_line (CRLF @ rest) = ([], rest)" using read_line_line [of "[]" rest] by (simp add: one_line_def)
  then show ?case
    using Bulk read_header [of "int (length s)" "s @ CRLF @ rest"] read_n_payload [of s "CRLF @ rest"]
      atoll_to_chars [of "int (length s)"]
    by (cases fuel) (simp_all add: rb_bulk_def reply_getc_def Let_def)
next
  case NilBulk
  have "''-1'' = to_chars (- 1)" by code_simp
  then show ?case using NilBulk read_header [of "- 1" rest] atoll_to_chars [of "- 1"]
    by (cases fuel) (simp_all add: rb_null_bulk_def reply_getc_def Let_def in_i64_def i64_min_def i64_max_def)
next
  case NilArray
  have "''-1'' = to_chars (- 1)" by code_simp
  then show ?case using NilArray read_header [of "- 1" rest] atoll_to_chars [of "- 1"]
    by (cases fuel) (simp_all add: rb_null_array_def reply_getc_def Let_def in_i64_def i64_min_def i64_max_def)
next
  case (Items rs)
  then obtain f where f: "fuel = Suc f" by (cases fuel) simp_all
  have "\<forall>x\<in>set rs. \<forall>rest. read_reply f (reply_bytes x @ rest) = (reply_text x, rest)"
  proof (intro ballI allI)
    fix x rest
    assume x: "x \<in> set rs"
    show "read_reply f (reply_bytes x @ rest) = (reply_text x, rest)"
      by (rule Items.IH [OF x]) (use Items.prems f x depth_item [OF x] in \<open>auto simp: list_all_iff\<close>)
  qed
  from read_items_all [OF this, of rest] show ?case
    using Items.prems(1) read_header [of "int (length rs)" "concat (map reply_bytes rs) @ rest"]
      atoll_to_chars [of "int (length rs)"]
    by (simp add: f rb_array_header_def reply_getc_def Let_def)
qed

text \<open>The console shows every reply as it is: the reader takes one reply of the server off the connection, nested
  arrays included, and renders it, leaving what follows; a payload must not hold zero bytes.\<close>

theorem console_reads_replies:
  assumes "readable r"
  shows "read_reply (Suc (length (reply_bytes r @ rest))) (reply_bytes r @ rest) = (reply_text r, rest)"
  by (rule read_reply_encoded [OF assms]) (use depth_less [of r] in simp)

theorem console_reads_replies_witness:
  "fst (read_reply (Suc (length (reply_bytes (Items [Number 7, Bulk ''ab'', NilBulk]) @ [])))
      (reply_bytes (Items [Number 7, Bulk ''ab'', NilBulk]) @ [])) = ''[7, '' @ quoted ''ab'' @ '', (nil)]''"
proof -
  have "readable (Items [Number 7, Bulk ''ab'', NilBulk])" by (simp add: in_i64_def i64_min_def i64_max_def)
  moreover have "to_chars 7 = ''7''" by code_simp
  ultimately show ?thesis using console_reads_replies [of "Items [Number 7, Bulk ''ab'', NilBulk]" "[]"]
    by (simp add: join_items_def del: append_Nil2)
qed

subsection \<open>The latency histogram of all shards\<close>

lemma foldl_plus: "foldl (\<lambda>t x. t + f x) a xs = a + sum_list (map f xs)" for f :: "'a \<Rightarrow> u64"
  by (induction xs arbitrary: a) (simp_all add: add.assoc)

lemma sum_metric_eq: "sum_metric f ms = sum_list (map f ms)"
  by (simp add: sum_metric_def foldl_plus)

lemma sum_buckets:
  assumes "list_all (\<lambda>m. lh_inv (m_latency m)) ms"
  shows "sum_list (map (\<lambda>j. bucket_total j ms) [0..<kBuckets]) = sum_metric (\<lambda>m. lh_total (m_latency m)) ms"
  using assms
proof (induction ms)
  case Nil
  then show ?case by (simp add: bucket_total_def sum_metric_eq)
next
  case (Cons m ms)
  have "lh_inv (m_latency m)" using Cons.prems by simp
  then have "lh_total (m_latency m) = sum_list (map (\<lambda>j. lh_counts (m_latency m) ! j) [0..<kBuckets])"
    by (metis lh_inv_def map_nth)
  then show ?case using Cons by (simp add: bucket_total_def sum_metric_eq sum_list_addf)
qed

lemma histogram_prefix:
  "n \<le> 64 \<Longrightarrow> fst (snd (foldl (\<lambda>s i. histogram_step R ms (8 * i) s) ([], 0, 0) [0..<n])) =
     sum_list (map (\<lambda>j. bucket_total j ms) [0..<8 * n])"
proof (induction n)
  case (Suc n)
  have b: "min (8 * n + 8) kBuckets = 8 * n + 8" using Suc.prems by (simp add: kBuckets_def)
  have split: "[0..<8 * Suc n] = [0..<8 * n] @ [8 * n..<8 * n + 8]" using upt_add_eq_append [of 0 "8 * n" 8] by (simp add: add.commute)
  show ?case using Suc b unfolding split by (simp add: histogram_step_def step_count_def foldl_plus split_beta Let_def)
qed simp

text \<open>The Prometheus histogram is complete: the cumulative count of the last bucket is the total number of recorded
  commands that is reported as count and under \<open>+Inf\<close>.\<close>

theorem histogram_complete:
  assumes "list_all (\<lambda>m. lh_inv (m_latency m)) ms"
  shows "fst (snd (histogram_steps R ms)) = sum_metric (\<lambda>m. lh_total (m_latency m)) ms"
  using histogram_prefix [of 64 R ms] sum_buckets [OF assms] by (simp add: histogram_steps_def kBuckets_def)

theorem histogram_complete_witness:
  "\<forall>R. fst (snd (histogram_steps R [metrics_new, metrics_new])) = 0"
proof
  fix R
  show "fst (snd (histogram_steps R [metrics_new, metrics_new])) = 0"
    using histogram_complete [of "[metrics_new, metrics_new]" R] lh_inv_new
    by (simp add: metrics_new_def sum_metric_eq lh_new_def)
qed

text \<open>With few commands the reported median is wrong: the target is rounded down, and when it is zero (one command, say)
  the scan stops at the first bucket even if that is empty.\<close>

theorem small_total_first_bucket:
  assumes "sum_metric (\<lambda>m. lh_total (m_latency m)) ms \<noteq> 0"
    "rn_target R p (sum_metric (\<lambda>m. lh_total (m_latency m)) ms) = 0"
  shows "aggregate_percentile R ms p = rn_micros R (bucket_bound (rn_float R) 1)"
proof -
  have "[0..<kBuckets] = 0 # [Suc 0..<kBuckets]" by (rule upt_conv_Cons) (simp add: kBuckets_def)
  then show ?thesis using assms by (simp add: aggregate_percentile_def)
qed

end
