(* ===== verification/Life_Cycle.thy ===== *)
theory Life_Cycle
  imports Server Console Persistence_Props "HOL-Library.Multiset"
begin

section \<open>Sockets and the life of a server (\<^verbatim>\<open>src/net/socket.cpp\<close>, \<^verbatim>\<open>src/server/server.cpp\<close>, \<^verbatim>\<open>src/server/main.cpp\<close>)\<close>

text \<open>
  Which descriptors a server holds and which of its threads run, from the start to the end of the process. The state
  lists the open descriptors; what the system calls answer is given. Setting options on a socket changes neither.
\<close>

subsection \<open>Listening\<close>

record listen_env =
  le_socket :: int
  le_pton :: bool
  le_bind :: bool
  le_listen :: bool
  le_error :: bytes

definition any_host :: "bytes \<Rightarrow> bool" where
  "any_host host \<longleftrightarrow> host = [] \<or> host = ''0.0.0.0'' \<or> host = ''*''"

definition listen_tcp :: "listen_env \<Rightarrow> bytes \<Rightarrow> int list \<Rightarrow> (bytes + int) \<times> int list" where
  "listen_tcp E host fds =
     (let fd = le_socket E in
      if fd < 0 then (Inl (''socket: '' @ le_error E), fds)
      else
        let opened = fd # fds; closed = remove1 fd opened in
        if \<not> any_host host \<and> \<not> le_pton E then (Inl (''invalid bind address: '' @ host), closed)
        else if \<not> le_bind E then (Inl (''bind: '' @ le_error E), closed)
        else if \<not> le_listen E then (Inl (''listen: '' @ le_error E), closed)
        else (Inr fd, opened))"

definition accept_conn :: "int \<Rightarrow> int list \<Rightarrow> int \<times> int list" where
  "accept_conn answer fds = (if answer < 0 then (- 1, fds) else (answer, answer # fds))"

subsection \<open>The server's resources\<close>

datatype thread_state = Not_Started | Started | Joined

record life =
  lf_running :: bool
  lf_shards :: "(bool \<times> thread_state) list"
  lf_listen :: "int list"
  lf_http :: bool
  lf_open :: "int list"
  lf_err :: bytes

text \<open>A shard's entry holds its own flag \<open>running_\<close> and the state of its thread.\<close>

definition life_new :: "int list \<Rightarrow> life" where
  "life_new fds = \<lparr>lf_running = False, lf_shards = [], lf_listen = [], lf_http = False, lf_open = fds, lf_err = []\<rparr>"

text \<open>The second loop of \<open>start\<close>: a listener for each shard, then its initialisation.\<close>

fun open_listeners :: "config \<Rightarrow> start_env \<Rightarrow> (nat \<Rightarrow> listen_env) \<Rightarrow> files \<Rightarrow> nat list \<Rightarrow> life \<Rightarrow> bool \<times> life" where
  "open_listeners cfg E Ls fs [] s = (True, s)"
| "open_listeners cfg E Ls fs (i # is) s =
     (case listen_tcp (Ls i) (cf_bind cfg) (lf_open s) of
        (Inl e, fds) \<Rightarrow> (False, s\<lparr>lf_open := fds, lf_err := e\<rparr>)
      | (Inr fd, fds) \<Rightarrow>
          (let s1 = s\<lparr>lf_open := fds, lf_listen := lf_listen s @ [fd]\<rparr> in
           if init_shard cfg E fs i = None then (False, s1) else open_listeners cfg E Ls fs is s1))"

definition shard_start :: "bool \<times> thread_state \<Rightarrow> bool \<times> thread_state" where
  "shard_start x = (True, Started)"



definition life_start ::
  "config \<Rightarrow> nat \<Rightarrow> start_env \<Rightarrow> (nat \<Rightarrow> listen_env) \<Rightarrow> files \<Rightarrow> life \<Rightarrow> bool \<times> life" where
  "life_start cfg cores E Ls fs s =
     (let n = shard_count cfg cores;
          (up, s1) = open_listeners cfg E Ls fs [0..<n] (s\<lparr>lf_shards := replicate n (False, Not_Started)\<rparr>)
      in if \<not> up then (False, s1)
         else (True, s1\<lparr>lf_running := True, lf_shards := map shard_start (lf_shards s1), lf_http := cf_metrics_enabled cfg\<rparr>))"

definition life_stop :: "life \<Rightarrow> life" where
  "life_stop s =
     s\<lparr>lf_running := False, lf_http := False,
       lf_open := foldl (\<lambda>fds fd. if fd \<ge> 0 then remove1 fd fds else fds) (lf_open s) (lf_listen s),
       lf_listen := [], lf_shards := []\<rparr>"


subsection \<open>While it runs\<close>

text \<open>The shards accept and close connections; a signal turns the flag off that \<open>run_until_signal\<close> polls.\<close>

datatype activity = Accepted int | Closed int

definition act :: "life \<Rightarrow> activity \<Rightarrow> life" where
  "act s a =
     (case a of
        Accepted fd \<Rightarrow> s\<lparr>lf_open := snd (accept_conn fd (lf_open s))\<rparr>
      | Closed fd \<Rightarrow> s\<lparr>lf_open := remove1 fd (lf_open s)\<rparr>)"

definition handle_signal :: "life \<Rightarrow> life" where
  "handle_signal s = s\<lparr>lf_running := False\<rparr>"

definition run_until_signal :: "activity list \<Rightarrow> life \<Rightarrow> life" where
  "run_until_signal acts s = life_stop (handle_signal (foldl act s acts))"

subsection \<open>The metrics thread\<close>




subsection \<open>The program\<close>

datatype program_end =
    Version_Printed | Help_Printed
  | Uncaught
  | Start_Failed bytes life
  | Served life

text \<open>The arguments are looked at from the left; the first that asks for the version or for help ends the program.\<close>

fun first_request :: "bytes list \<Rightarrow> program_end option" where
  "first_request [] = None"
| "first_request (a # as) =
     (if a = ''--version'' \<or> a = ''-v'' then Some Version_Printed
      else if a = ''--help'' \<or> a = ''-h'' then Some Help_Printed
      else first_request as)"

text \<open>The destructor of the server calls \<open>stop\<close> again. \<open>Uncaught\<close> is the exception of a number that cannot be read.\<close>

definition main_program ::
  "(bytes \<Rightarrow> bytes option) \<Rightarrow> nat \<Rightarrow> start_env \<Rightarrow> (nat \<Rightarrow> listen_env) \<Rightarrow> files \<Rightarrow> activity list \<Rightarrow> bytes list \<Rightarrow> program_end" where
  "main_program files cores E Ls fs acts args =
     (case first_request args of
        Some e \<Rightarrow> e
      | None \<Rightarrow>
          (case from_args files args of
             None \<Rightarrow> Uncaught
           | Some cfg \<Rightarrow>
               (let (up, s) = life_start cfg cores E Ls fs (life_new []) in
                if \<not> up then Start_Failed (lf_err s) (life_stop s)
                else Served (life_stop (run_until_signal acts s)))))"

definition exit_code :: "program_end \<Rightarrow> int option" where
  "exit_code e = (case e of Uncaught \<Rightarrow> None | Start_Failed m s \<Rightarrow> Some 1 | _ \<Rightarrow> Some 0)"

section \<open>What a server leaves behind\<close>

















end
